(* ===== verification/Prelude.thy ===== *)
theory Prelude
  imports Main "HOL-Library.Word"
begin

text \<open>
  Shared vocabulary of the development: the machine types of
  \<^verbatim>\<open>src/include/ouros/type.h\<close>, the alignment macros and bit helpers of
  \<^verbatim>\<open>src/include/ouros/utils.h\<close> and \<^verbatim>\<open>src/utils/utils.c\<close>, the address macros of
  \<^verbatim>\<open>src/include/ouros/mm.h\<close>, the error-pointer convention of
  \<^verbatim>\<open>src/include/ouros/error.h\<close>, and the lemmas on words, bits and lists that the
  component theories share.
\<close>

unbundle bit_operations_syntax

named_theorems os_const \<open>unfolding of the constants the sources introduce with define\<close>
named_theorems os_frame \<open>facts that an operation leaves a field or a list alone\<close>

section \<open>Machine types\<close>

type_synonym u8 = "8 word"
type_synonym u16 = "16 word"
type_synonym u32 = "32 word"

section \<open>Alignment and bit helpers\<close>

definition upper_align :: "u32 \<Rightarrow> u32 \<Rightarrow> u32" where
  "upper_align x y = (x + (y - 1)) AND NOT (y - 1)"

definition lower_align :: "u32 \<Rightarrow> u32 \<Rightarrow> u32" where
  "lower_align x y = x AND NOT (y - 1)"

definition is_bound :: "u32 \<Rightarrow> u32 \<Rightarrow> bool" where
  "is_bound val bound \<longleftrightarrow> val AND (bound - 1) = 0"

definition get_low_bits :: "u32 \<Rightarrow> u32 \<Rightarrow> u32" where
  "get_low_bits src n_bit =
     (if 32 \<le> n_bit then src else (let mask = push_bit (unat n_bit) 1 - 1 in src AND mask))"

section \<open>Memory-management constants and address macros\<close>

definition PAGE_SHIFT :: nat where "PAGE_SHIFT = 12"
definition PAGE_SIZE :: u32 where "PAGE_SIZE = 4096"
definition KERNEL_ENTRY :: u32 where "KERNEL_ENTRY = 0x80000000"
definition MACHINE_MMSIZE :: u32 where "MACHINE_MMSIZE = 512 * 1024 * 1024"
definition MACHINE_PAGE_NUM :: u32 where "MACHINE_PAGE_NUM = drop_bit PAGE_SHIFT MACHINE_MMSIZE"
definition KERNEL_PAGE_NUM :: u32 where
  "KERNEL_PAGE_NUM = drop_bit PAGE_SHIFT (push_bit 4 (push_bit 10 (push_bit 10 1)))"

lemmas mm_consts [os_const] =
  PAGE_SHIFT_def PAGE_SIZE_def KERNEL_ENTRY_def MACHINE_MMSIZE_def MACHINE_PAGE_NUM_def
  KERNEL_PAGE_NUM_def

definition get_kernel_vaddr :: "u32 \<Rightarrow> u32" where
  "get_kernel_vaddr paddr = paddr OR KERNEL_ENTRY"

definition get_kernel_paddr :: "u32 \<Rightarrow> u32" where
  "get_kernel_paddr vaddr = vaddr AND NOT KERNEL_ENTRY"

section \<open>Error codes\<close>

definition NO_ERROR :: u32 where "NO_ERROR = 0"
definition ERROR_END_OF_FILE :: u32 where "ERROR_END_OF_FILE = 1"
definition ERROR_NO_MEMORY :: u32 where "ERROR_NO_MEMORY = 2"
definition ERROR_READ_SDCARD :: u32 where "ERROR_READ_SDCARD = 3"
definition ERROR_UNKNOWN_FS :: u32 where "ERROR_UNKNOWN_FS = 4"
definition ERROR_VFSMOUNT :: u32 where "ERROR_VFSMOUNT = 5"
definition ERROR_NOT_DIR :: u32 where "ERROR_NOT_DIR = 6"
definition ERROR_FILE_NOTFOUND :: u32 where "ERROR_FILE_NOTFOUND = 7"
definition ERROR_CACHE_FULL :: u32 where "ERROR_CACHE_FULL = 8"
definition ERROR_UNKNOWN_FORMAT :: u32 where "ERROR_UNKNOWN_FORMAT = 9"
definition ERROR_ACCESS_AUTHORITY :: u32 where "ERROR_ACCESS_AUTHORITY = 10"
definition ERROR_NOT_EMPTY :: u32 where "ERROR_NOT_EMPTY = 11"
definition ERROR_NOT_IMPLEMENT :: u32 where "ERROR_NOT_IMPLEMENT = 12"
definition MAX_ERRNO :: u32 where "MAX_ERRNO = 4095"

lemmas error_consts [os_const] =
  NO_ERROR_def ERROR_END_OF_FILE_def ERROR_NO_MEMORY_def ERROR_READ_SDCARD_def ERROR_UNKNOWN_FS_def
  ERROR_VFSMOUNT_def ERROR_NOT_DIR_def ERROR_FILE_NOTFOUND_def ERROR_CACHE_FULL_def
  ERROR_UNKNOWN_FORMAT_def ERROR_ACCESS_AUTHORITY_def ERROR_NOT_EMPTY_def ERROR_NOT_IMPLEMENT_def
  MAX_ERRNO_def

definition IS_ERR_VALUE :: "u32 \<Rightarrow> bool" where
  "IS_ERR_VALUE x \<longleftrightarrow> - MAX_ERRNO \<le> x"

section \<open>Shared lemmas on words\<close>

lemma and_not_mask: "x AND NOT (mask n) = push_bit n (drop_bit n x)" for x :: "'a::len word"
  by (rule bit_word_eqI)
    (auto simp: bit_simps)

lemma two_power_minus_1: "(2 :: u32) ^ n - 1 = mask n"
  by (simp add: mask_eq_exp_minus_1)

lemma unat_drop_bit_u32: "unat (drop_bit n x) = unat x div 2 ^ n" for x :: u32
  unfolding unat_drop_bit_eq by (rule drop_bit_eq_div)

lemma unat_take_bit_u32: "unat (take_bit n x) = unat x mod 2 ^ n" for x :: u32
  unfolding unsigned_take_bit_eq by (rule take_bit_eq_mod)

lemma unat_push_drop: "unat (push_bit n (drop_bit n x)) = unat x div 2 ^ n * 2 ^ n" for x :: u32
proof -
  have "push_bit n (drop_bit n x) = x - take_bit n x"
    by (metis add_diff_cancel_right' bits_ident)
  moreover have "unat (take_bit n x) \<le> unat x"
    by (simp only: unat_take_bit_u32 mod_less_eq_dividend)
  ultimately have "unat (push_bit n (drop_bit n x)) = unat x - unat (take_bit n x)"
    by (simp only: unat_sub word_le_nat_alt)
  then show ?thesis
    by (simp only: unat_take_bit_u32 minus_mod_eq_div_mult)
qed

lemma unat_lower_align: "unat (lower_align x (2 ^ n)) = unat x div 2 ^ n * 2 ^ n"
  by (simp add: lower_align_def two_power_minus_1 and_not_mask unat_push_drop)

lemma unat_mask_u32: "n < 32 \<Longrightarrow> unat (mask n :: u32) = 2 ^ n - 1"
proof -
  assume "n < 32"
  then have "(2::nat) ^ n < 2 ^ 32"
    by (rule power_strict_increasing) simp
  then have "(2::nat) ^ n < 2 ^ LENGTH(32)"
    by simp
  then have "unat ((2 :: u32) ^ n) = 2 ^ n"
    using unat_of_nat [of "2 ^ n", where 'a = 32] by (simp del: word_of_nat_eq_0_iff)
  then show ?thesis
    by (simp add: mask_eq_exp_minus_1 unat_sub word_le_nat_alt)
qed

lemma unat_upper_align:
  assumes "n < 32" and "unat x + (2 ^ n - 1) < 2 ^ 32"
  shows "unat (upper_align x (2 ^ n)) = (unat x + (2 ^ n - 1)) div 2 ^ n * 2 ^ n"
proof -
  have "unat (x + mask n) = unat x + (2 ^ n - 1)"
    using assms unat_mask_u32 [OF assms(1)] by (simp add: unat_word_ariths)
  then show ?thesis
    by (simp add: upper_align_def two_power_minus_1 and_not_mask unat_push_drop)
qed

lemma unat_Suc_word: "x \<noteq> - 1 \<Longrightarrow> unat (x + 1) = Suc (unat x)" for x :: u32
  by (metis add.commute add.right_neutral add_eq_0_iff unatSuc unat_1 plus_1_eq_Suc)

lemma unat_minus_1_u32: "unat (- 1 :: u32) = 2 ^ 32 - 1"
  by (simp add: unsigned_minus_1_eq_mask mask_eq_exp_minus_1)

lemma unat_Suc_less: "i < n \<Longrightarrow> unat (i + 1) = Suc (unat i)" for i n :: u32
  by (rule unat_Suc_word) auto

lemma word_loop_measure: "i < n \<Longrightarrow> unat n - unat (i + 1) < unat n - unat i" for i n :: u32
  by (simp add: unat_Suc_less word_less_nat_alt)

lemma unat_u32: "unat x < 2 ^ 32" for x :: u32
  by (rule order_less_le_trans [OF unsigned_less]) simp

lemma unat_add_u32: "unat x + unat y < 2 ^ 32 \<Longrightarrow> unat (x + y) = unat x + unat y" for x y :: u32
  by (simp add: unat_word_ariths)

lemma uint_le_unat: "uint x \<le> uint y \<longleftrightarrow> unat x \<le> unat y" for x y :: u32
  by (simp flip: word_le_def add: word_le_nat_alt)

lemma uint_less_unat: "uint x < 2 ^ 31 \<longleftrightarrow> unat x < 2 ^ 31" for x :: u32
proof -
  have "uint x = int (unat x)" by simp
  then have "uint x < 2147483648 \<longleftrightarrow> unat x < 2147483648" by linarith
  then show ?thesis by simp
qed

lemma sint_small:
  fixes x :: u32
  assumes "unat x < 2 ^ 31"
  shows "sint x = uint x"
proof -
  have "- (2 ^ 31) \<le> uint x" by (rule order_trans [of _ 0]) simp_all
  moreover have "uint x < 2 ^ 31" using assms uint_less_unat by blast
  ultimately have "signed_take_bit 31 (uint x) = uint x" by (intro signed_take_bit_int_eq_self)
  then show ?thesis by (simp add: sint_uint)
qed

lemma uint_add_sint: "uint (x + y) = (uint x + sint y) mod 4294967296" for x y :: u32
proof -
  have "x + y = word_of_int (uint x + sint y)" by simp
  then show ?thesis by (simp only: uint_word_of_int) simp
qed

lemma of_nat_u32_inj: "i < 2 ^ 32 \<Longrightarrow> j < 2 ^ 32 \<Longrightarrow> of_nat i = (of_nat j :: u32) \<longleftrightarrow> i = j"
  by (auto simp: word_unat_eq_iff unat_of_nat)

section \<open>Rounding up to a multiple\<close>

definition round_up :: "nat \<Rightarrow> nat \<Rightarrow> nat" where
  "round_up m a = (a + (m - 1)) div m * m"

lemma round_up_ge: "0 < m \<Longrightarrow> a \<le> round_up m a"
  unfolding round_up_def using div_mult_mod_eq [of "a + (m - 1)" m] mod_less_divisor [of m "a + (m - 1)"]
  by linarith

lemma round_up_least: "0 < m \<Longrightarrow> m dvd p \<Longrightarrow> a \<le> p \<Longrightarrow> round_up m a \<le> p"
proof -
  assume m: "0 < m" and "m dvd p" and a: "a \<le> p"
  then obtain q where q: "p = m * q" by blast
  have "(a + (m - 1)) div m < q + 1"
    using m a unfolding q by (intro less_mult_imp_div_less) (simp add: algebra_simps)
  then have "(a + (m - 1)) div m \<le> q" by linarith
  then have "(a + (m - 1)) div m * m \<le> q * m" by (rule mult_le_mono1)
  then show ?thesis by (simp add: round_up_def q mult.commute)
qed

lemma round_up_dvd: "m dvd round_up m a"
  by (simp add: round_up_def)

lemma round_up_less: "0 < m \<Longrightarrow> round_up m a < a + m"
  unfolding round_up_def using div_mult_mod_eq [of "a + (m - 1)" m] by linarith

lemma unat_upper_align_round:
  "n < 32 \<Longrightarrow> unat x + 2 ^ n \<le> 2 ^ 32 \<Longrightarrow> unat (upper_align x (2 ^ n)) = round_up (2 ^ n) (unat x)"
  unfolding round_up_def
proof (rule unat_upper_align)
  assume "unat x + 2 ^ n \<le> 2 ^ 32"
  moreover have "(0::nat) < 2 ^ n" by simp
  ultimately show "unat x + (2 ^ n - 1) < 2 ^ 32" by linarith
qed

end
