(* ===== verification/Linked_List.thy ===== *)
theory Linked_List
  imports Prelude "HOL-Library.Multiset"
begin

text \<open>
  The intrusive circular doubly linked lists of \<^verbatim>\<open>src/include/linux/list.h\<close>.  Every
  \<^verbatim>\<open>struct list_head\<close> is a node, named by a value of some type \<open>'a\<close> (the address of
  the structure it is embedded in); the store of all nodes is the record \<open>'a lheap\<close>.
  The predicate \<open>dll h l xs\<close> says that the nodes \<open>xs\<close> hang off the list head
  \<open>l\<close> in this order, with both link directions intact.  The contract every list
  implementation of the kernel has is the locale \<open>dlist\<close>, whose family lemmas
  (\<open>family_add_tail\<close>, \<open>family_del\<close>, ...) describe several lists that share one store.
\<close>

section \<open>The store and the operations\<close>

record 'a lheap =
  prev :: "'a \<Rightarrow> 'a"
  "next" :: "'a \<Rightarrow> 'a"

definition set_prev :: "'a \<Rightarrow> 'a \<Rightarrow> 'a lheap \<Rightarrow> 'a lheap" where
  "set_prev n v h = h\<lparr>prev := (prev h)(n := v)\<rparr>"

definition set_next :: "'a \<Rightarrow> 'a \<Rightarrow> 'a lheap \<Rightarrow> 'a lheap" where
  "set_next n v h = h\<lparr>next := (next h)(n := v)\<rparr>"

definition INIT_LIST_HEAD :: "'a \<Rightarrow> 'a lheap \<Rightarrow> 'a lheap" where
  "INIT_LIST_HEAD l h = set_next l l (set_prev l l h)"

definition list_add_between :: "'a \<Rightarrow> 'a \<Rightarrow> 'a \<Rightarrow> 'a lheap \<Rightarrow> 'a lheap" where
  "list_add_between new_node prv nxt h =
     (let h = set_prev nxt new_node h;
          h = set_next new_node nxt h;
          h = set_prev new_node prv h
      in set_next prv new_node h)"

definition list_add :: "'a \<Rightarrow> 'a \<Rightarrow> 'a lheap \<Rightarrow> 'a lheap" where
  "list_add new_node head h = list_add_between new_node head (next h head) h"

definition list_add_tail :: "'a \<Rightarrow> 'a \<Rightarrow> 'a lheap \<Rightarrow> 'a lheap" where
  "list_add_tail new_node head h = list_add_between new_node (prev h head) head h"

definition list_del_between :: "'a \<Rightarrow> 'a \<Rightarrow> 'a lheap \<Rightarrow> 'a lheap" where
  "list_del_between prv nxt h = set_next prv nxt (set_prev nxt prv h)"

definition list_del :: "'a \<Rightarrow> 'a lheap \<Rightarrow> 'a lheap" where
  "list_del entry h = list_del_between (prev h entry) (next h entry) h"

definition list_del_init :: "'a \<Rightarrow> 'a lheap \<Rightarrow> 'a lheap" where
  "list_del_init entry h = INIT_LIST_HEAD entry (list_del entry h)"

definition list_replace :: "'a \<Rightarrow> 'a \<Rightarrow> 'a lheap \<Rightarrow> 'a lheap" where
  "list_replace old new_node h =
     (let h = set_next new_node (next h old) h;
          h = set_prev (next h new_node) new_node h;
          h = set_prev new_node (prev h old) h
      in set_next (prev h new_node) new_node h)"

definition list_replace_init :: "'a \<Rightarrow> 'a \<Rightarrow> 'a lheap \<Rightarrow> 'a lheap" where
  "list_replace_init old new_node h = INIT_LIST_HEAD old (list_replace old new_node h)"

definition list_swap :: "'a \<Rightarrow> 'a \<Rightarrow> 'a lheap \<Rightarrow> 'a lheap" where
  "list_swap a b h =
     (let temp_next = next h b;
          h = list_del a h;
          h = list_del b h;
          h = list_add b (prev h a) h
      in list_add_tail a temp_next h)"

definition list_move :: "'a \<Rightarrow> 'a \<Rightarrow> 'a lheap \<Rightarrow> 'a lheap" where
  "list_move n head h = list_add n head (list_del n h)"

definition list_move_tail :: "'a \<Rightarrow> 'a \<Rightarrow> 'a lheap \<Rightarrow> 'a lheap" where
  "list_move_tail n head h = list_add_tail n head (list_del n h)"

definition list_is_first :: "'a \<Rightarrow> 'a \<Rightarrow> 'a lheap \<Rightarrow> bool" where
  "list_is_first n head h \<longleftrightarrow> prev h n = head"

definition list_is_last :: "'a \<Rightarrow> 'a \<Rightarrow> 'a lheap \<Rightarrow> bool" where
  "list_is_last n head h \<longleftrightarrow> next h n = head"

definition list_empty :: "'a \<Rightarrow> 'a lheap \<Rightarrow> bool" where
  "list_empty head h \<longleftrightarrow> next h head = head"

text \<open>
  The loop of \<open>list_contain_node\<close>.  On a store whose links do not lead back to the
  head it runs forever, so its result is an option.
\<close>

partial_function (option) contain_loop :: "'a lheap \<Rightarrow> 'a \<Rightarrow> 'a \<Rightarrow> 'a \<Rightarrow> bool option" where
  "contain_loop h node head p =
     (if p = head then Some False
      else if p = node then Some True
      else contain_loop h node head (next h p))"

declare contain_loop.simps [code]

definition list_contain_node :: "'a \<Rightarrow> 'a \<Rightarrow> 'a lheap \<Rightarrow> bool option" where
  "list_contain_node node head h = contain_loop h node head (next h head)"

text \<open>The two nested loops of \<open>list_sort\<close>; \<open>cmp\<close> is the caller's comparison.\<close>

partial_function (option) sort_inner ::
    "('a \<Rightarrow> 'a \<Rightarrow> int) \<Rightarrow> 'a \<Rightarrow> 'a \<Rightarrow> 'a lheap \<Rightarrow> 'a lheap option" where
  "sort_inner cmp end start h =
     (if next h start = end then Some h
      else if cmp start (next h start) > 0
      then (let h' = list_swap start (next h start) h; start' = prev h' start
            in sort_inner cmp end (next h' start') h')
      else sort_inner cmp end (next h start) h)"

declare sort_inner.simps [code]

partial_function (option) sort_outer ::
    "('a \<Rightarrow> 'a \<Rightarrow> int) \<Rightarrow> 'a \<Rightarrow> 'a \<Rightarrow> 'a lheap \<Rightarrow> 'a lheap option" where
  "sort_outer cmp head end h =
     (if end = next h head then Some h
      else (case sort_inner cmp end (next h head) h of
              None \<Rightarrow> None
            | Some h' \<Rightarrow> sort_outer cmp head (prev h' end) h'))"

declare sort_outer.simps [code]

definition list_sort :: "'a \<Rightarrow> ('a \<Rightarrow> 'a \<Rightarrow> int) \<Rightarrow> 'a lheap \<Rightarrow> 'a lheap option" where
  "list_sort head cmp h = sort_outer cmp head head h"

lemma store_upd [simp]:
  "prev (set_prev n v h) = (prev h)(n := v)" "next (set_prev n v h) = next h"
  "prev (set_next n v h) = prev h" "next (set_next n v h) = (next h)(n := v)"
  by (simp_all add: set_prev_def set_next_def)

section \<open>Well-formed lists\<close>

primrec seg :: "'a lheap \<Rightarrow> 'a \<Rightarrow> 'a list \<Rightarrow> 'a \<Rightarrow> bool" where
  "seg h a [] b \<longleftrightarrow> next h a = b \<and> prev h b = a"
| "seg h a (x # xs) b \<longleftrightarrow> next h a = x \<and> prev h x = a \<and> seg h x xs b"

definition dll :: "'a lheap \<Rightarrow> 'a \<Rightarrow> 'a list \<Rightarrow> bool" where
  "dll h l xs \<longleftrightarrow> seg h l xs l \<and> distinct (l # xs)"

lemma seg_append [simp]: "seg h a (xs @ y # ys) b \<longleftrightarrow> seg h a xs y \<and> seg h y ys b"
  by (induction xs arbitrary: a) auto

lemma seg_upd [simp]:
  "n \<notin> set (a # xs) \<Longrightarrow> seg (set_next n v h) a xs b = seg h a xs b"
  "n \<notin> set (xs @ [b]) \<Longrightarrow> seg (set_prev n v h) a xs b = seg h a xs b"
  by (induction xs arbitrary: a) auto

lemma seg_next: "seg h a xs b \<Longrightarrow> next h a = hd (xs @ [b])"
  by (cases xs) auto

lemma seg_prev: "seg h a xs b \<Longrightarrow> prev h b = last (a # xs)"
  by (induction xs arbitrary: a) auto

lemma dll_distinct: "dll h l xs \<Longrightarrow> distinct (l # xs)"
  by (simp add: dll_def)

lemma dll_next: "dll h l xs \<Longrightarrow> next h l = hd (xs @ [l])"
  by (simp add: dll_def seg_next)

lemma dll_prev: "dll h l xs \<Longrightarrow> prev h l = last (l # xs)"
  unfolding dll_def by (blast dest: seg_prev)

lemma dll_empty: "dll h l xs \<Longrightarrow> list_empty l h \<longleftrightarrow> xs = []"
  by (cases xs) (auto simp: list_empty_def dll_def)

lemma dll_unique: "dll h l xs \<Longrightarrow> dll h l ys \<Longrightarrow> xs = ys"
proof -
  have "seg h a xs b \<Longrightarrow> seg h a ys b \<Longrightarrow> b \<notin> set xs \<Longrightarrow> b \<notin> set ys \<Longrightarrow> xs = ys" for a b
  proof (induction xs arbitrary: a ys)
    case Nil
    then show ?case by (cases ys) auto
  next
    case (Cons x xs)
    then show ?case by (cases ys) auto
  qed
  then show "dll h l xs \<Longrightarrow> dll h l ys \<Longrightarrow> xs = ys"
    by (auto simp: dll_def)
qed

subsection \<open>The operations on well-formed lists\<close>

lemma dll_INIT: "dll (INIT_LIST_HEAD l h) l []"
  by (simp add: INIT_LIST_HEAD_def dll_def)

lemma dll_INIT_frame: "n \<notin> set (l # xs) \<Longrightarrow> dll h l xs \<Longrightarrow> dll (INIT_LIST_HEAD n h) l xs"
  by (simp add: INIT_LIST_HEAD_def dll_def)

lemma dll_add:
  assumes "dll h l xs" and "n \<notin> set (l # xs)"
  shows "dll (list_add n l h) l (n # xs)"
  using assms by (cases xs) (auto simp: dll_def list_add_def list_add_between_def Let_def)

lemma dll_add_tail:
  assumes "dll h l xs" and "n \<notin> set (l # xs)"
  shows "dll (list_add_tail n l h) l (xs @ [n])"
proof (cases xs rule: rev_cases)
  case Nil
  with assms show ?thesis
    by (auto simp: dll_def list_add_tail_def list_add_between_def Let_def)
next
  case (snoc ys y)
  with assms have "prev h l = y" by (auto simp: dll_def)
  with assms snoc show ?thesis
    by (auto simp: dll_def list_add_tail_def list_add_between_def Let_def)
qed

lemma dll_del:
  assumes "dll h l xs" and "n \<in> set xs"
  shows "dll (list_del n h) l (remove1 n xs)"
proof -
  from assms(2) obtain ys zs where xs: "xs = ys @ n # zs" by (meson split_list)
  with assms(1) have d: "distinct (l # ys @ n # zs)" by (simp add: dll_def)
  with assms(1) xs have s: "seg h l ys n" "seg h n zs l" by (auto simp: dll_def)
  have r: "remove1 n xs = ys @ zs" using d xs by (simp add: remove1_append)
  from s have pn: "prev h n = last (l # ys)" "next h n = hd (zs @ [l])"
    by (auto dest: seg_prev seg_next)
  show ?thesis
  proof (cases zs)
    case Nil
    then show ?thesis using d s r pn
      by (cases ys rule: rev_cases) (auto simp: dll_def list_del_def list_del_between_def)
  next
    case (Cons z zs')
    then show ?thesis using d s r pn
      by (cases ys rule: rev_cases) (auto simp: dll_def list_del_def list_del_between_def)
  qed
qed

lemma dll_upd:
  "n \<notin> set (l # xs) \<Longrightarrow> dll (set_next n v h) l xs = dll h l xs"
  "n \<notin> set (l # xs) \<Longrightarrow> dll (set_prev n v h) l xs = dll h l xs"
  by (auto simp: dll_def)

lemma dll_next_in: "dll h l xs \<Longrightarrow> next h l \<in> set (l # xs)"
  by (cases xs) (auto dest!: dll_next)

lemma dll_prev_in: "dll h l xs \<Longrightarrow> prev h l \<in> set (l # xs)"
  by (metis dll_prev last_in_set list.distinct(1))

lemma dll_inner_in:
  assumes "dll h l xs" and "n \<in> set xs"
  shows "prev h n \<in> set (l # xs)" and "next h n \<in> set (l # xs)"
proof -
  from assms(2) obtain ys zs where xs: "xs = ys @ n # zs" by (meson split_list)
  with assms(1) have p: "prev h n = last (l # ys)" and q: "next h n = hd (zs @ [l])"
    unfolding dll_def by (simp_all only: seg_append) (blast dest: seg_prev seg_next)+
  have "last (l # ys) \<in> set (l # ys)" by (rule last_in_set) simp
  then show "prev h n \<in> set (l # xs)" using xs p by auto
  have "hd (zs @ [l]) \<in> set (zs @ [l])" by (rule hd_in_set) simp
  then show "next h n \<in> set (l # xs)" using xs q by auto
qed

lemma dll_add_frame:
  assumes "dll h l xs" and "dll h l' ys" and "set (l # xs) \<inter> set (l' # ys) = {}" and "n \<notin> set (l' # ys)"
  shows "dll (list_add n l h) l' ys"
proof -
  have "l \<notin> set (l' # ys)" "next h l \<notin> set (l' # ys)"
    using assms(3) dll_next_in [OF assms(1)] by auto
  then show ?thesis
    using assms(2,4) by (simp add: list_add_def list_add_between_def Let_def dll_upd)
qed

lemma dll_add_tail_frame:
  assumes "dll h l xs" and "dll h l' ys" and "set (l # xs) \<inter> set (l' # ys) = {}" and "n \<notin> set (l' # ys)"
  shows "dll (list_add_tail n l h) l' ys"
proof -
  have "l \<notin> set (l' # ys)" "prev h l \<notin> set (l' # ys)"
    using assms(3) dll_prev_in [OF assms(1)] by auto
  then show ?thesis
    using assms(2,4) by (simp add: list_add_tail_def list_add_between_def Let_def dll_upd)
qed

lemma dll_del_frame:
  assumes "dll h l xs" and "n \<in> set xs" and "dll h l' ys" and "set (l # xs) \<inter> set (l' # ys) = {}"
  shows "dll (list_del n h) l' ys"
proof -
  have "prev h n \<notin> set (l' # ys)" "next h n \<notin> set (l' # ys)"
    using assms(4) dll_inner_in [OF assms(1,2)] by auto
  then show ?thesis
    using assms(3) by (simp add: list_del_def list_del_between_def dll_upd)
qed

subsection \<open>Searching, swapping and sorting\<close>

lemma contain_loop_seg:
  "seg h a xs l \<Longrightarrow> l \<notin> set xs \<Longrightarrow> contain_loop h n l (next h a) = Some (n \<in> set xs)"
proof (induction xs arbitrary: a)
  case Nil
  then show ?case by (subst contain_loop.simps) simp
next
  case (Cons x xs)
  then show ?case by (subst contain_loop.simps) auto
qed

lemma list_contain_node_dll: "dll h l xs \<Longrightarrow> list_contain_node n l h = Some (n \<in> set xs)"
  by (simp add: list_contain_node_def dll_def contain_loop_seg)

lemma dll_adjacent:
  assumes "dll h l (xs @ ys)"
  shows "next h (last (l # xs)) = hd (ys @ [l])" and "prev h (hd (ys @ [l])) = last (l # xs)"
  using assms by (cases xs rule: rev_cases; cases ys; simp add: dll_def)+

lemma dll_insert:
  assumes "dll h l (xs @ ys)" and "n \<notin> set (l # xs @ ys)"
  shows "dll (list_add_between n (last (l # xs)) (hd (ys @ [l])) h) l (xs @ n # ys)"
  using assms
  by (cases xs rule: rev_cases; cases ys) (auto simp: dll_def list_add_between_def Let_def)

lemma list_replace_alt:
  assumes "b \<noteq> a" "b \<noteq> prev h a" "b \<noteq> next h a" "a \<noteq> next h a"
  shows "list_replace a b h = list_add_between b (prev h a) (next h a) (list_del a h)"
  using assms
  by (simp add: list_replace_def list_add_between_def list_del_def list_del_between_def Let_def
      set_prev_def set_next_def fun_upd_twist)

lemma dll_del_mid:
  assumes "dll h l (xs @ a # ys)"
  shows "dll (list_del a h) l (xs @ ys)"
  using dll_del [OF assms, of a] dll_distinct [OF assms] by (simp add: remove1_append)

lemma dll_replace:
  assumes "dll h l (xs @ a # ys)" and "b \<notin> set (l # xs @ a # ys)"
  shows "dll (list_replace a b h) l (xs @ b # ys)"
proof -
  have p: "prev h a = last (l # xs)" and q: "next h a = hd (ys @ [l])"
    using dll_adjacent(2) [of h l xs "a # ys"] dll_adjacent(1) [of h l "xs @ [a]" ys] assms(1)
    by simp_all
  have "b \<notin> set (l # xs @ ys)" and "b \<noteq> a" using assms(2) by auto
  moreover have "last (l # xs) \<in> set (l # xs)" "hd (ys @ [l]) \<in> set (ys @ [l])"
    by (rule last_in_set, simp) (rule hd_in_set, simp)
  ultimately have ne: "b \<noteq> prev h a" "b \<noteq> next h a" "a \<noteq> next h a"
    using dll_distinct [OF assms(1)] unfolding p q by auto
  show ?thesis
    unfolding list_replace_alt [OF \<open>b \<noteq> a\<close> ne] p q
    using dll_insert [OF dll_del_mid [OF assms(1)]] \<open>b \<notin> set (l # xs @ ys)\<close> by simp
qed

lemma dll_swap_adjacent:
  assumes "dll h l (xs @ a # b # ys)"
  shows "dll (list_swap a b h) l (xs @ b # a # ys)"
proof -
  let ?h1 = "list_del a h" and ?h2 = "list_del b (list_del a h)"
  let ?p = "last (l # xs)" and ?q = "hd (ys @ [l])"
  have d: "distinct (l # xs @ a # b # ys)" using assms by (rule dll_distinct)
  have h: "prev h a = ?p" "next h a = b" "next h b = ?q"
    using dll_adjacent(2) [of h l xs "a # b # ys"] dll_adjacent(1) [of h l "xs @ [a]" "b # ys"]
      dll_adjacent(1) [of h l "xs @ [a, b]" ys] assms by simp_all
  have 1: "dll ?h1 l (xs @ b # ys)" using dll_del_mid [OF assms] .
  then have 2: "dll ?h2 l (xs @ ys)" by (rule dll_del_mid)
  have q: "next ?h1 b = ?q"
    using dll_adjacent(1) [of ?h1 l "xs @ [b]" ys] 1 by simp
  have ne: "?q \<noteq> a" using d by (cases ys) auto
  have pa: "prev ?h2 a = ?p"
    using d h ne q by (simp add: list_del_def list_del_between_def)
  let ?h3 = "list_add b ?p ?h2"
  have 3: "dll ?h3 l (xs @ b # ys)"
    unfolding list_add_def dll_adjacent(1) [OF 2] by (rule dll_insert [OF 2]) (use d in auto)
  have 4: "prev ?h3 ?q = b"
    using dll_adjacent(2) [of ?h3 l "xs @ [b]" ys] 3 by simp
  have "dll ?h3 l ((xs @ [b]) @ ys)" using 3 by simp
  from dll_insert [OF this, of a] have "dll (list_add_tail a ?q ?h3) l ((xs @ [b]) @ a # ys)"
    unfolding list_add_tail_def 4 using d by auto
  then show ?thesis
    using pa h(3) by (simp add: list_swap_def Let_def)
qed

text \<open>One pass of the inner loop on the abstract list.\<close>

fun bubble :: "('a \<Rightarrow> 'a \<Rightarrow> int) \<Rightarrow> 'a list \<Rightarrow> 'a list" where
  "bubble cmp (x # y # zs) =
     (if cmp x y > 0 then y # bubble cmp (x # zs) else x # bubble cmp (y # zs))"
| "bubble cmp xs = xs"

lemma mset_bubble [simp]: "mset (bubble cmp xs) = mset xs"
  by (induction cmp xs rule: bubble.induct) auto

lemma bubble_facts [simp]: "set (bubble cmp xs) = set xs" "length (bubble cmp xs) = length xs"
  "bubble cmp xs = [] \<longleftrightarrow> xs = []"
  using mset_bubble [of cmp xs] by (metis set_mset_mset) (metis mset_bubble size_mset, metis mset_bubble mset_zero_iff)

definition cmp_order :: "('a \<Rightarrow> 'a \<Rightarrow> int) \<Rightarrow> 'a set \<Rightarrow> bool" where
  "cmp_order cmp A \<longleftrightarrow>
     (\<forall>x\<in>A. \<forall>y\<in>A. 0 < cmp x y \<longrightarrow> cmp y x \<le> 0) \<and>
     (\<forall>x\<in>A. \<forall>y\<in>A. \<forall>z\<in>A. cmp x y \<le> 0 \<longrightarrow> cmp y z \<le> 0 \<longrightarrow> cmp x z \<le> 0) \<and>
     (\<forall>x\<in>A. cmp x x \<le> 0)"

lemma cmp_trans:
  "cmp_order cmp A \<Longrightarrow> cmp x y \<le> 0 \<Longrightarrow> cmp y z \<le> 0 \<Longrightarrow> x \<in> A \<Longrightarrow> y \<in> A \<Longrightarrow> z \<in> A \<Longrightarrow> cmp x z \<le> 0"
  unfolding cmp_order_def by blast

lemma cmp_refl: "cmp_order cmp A \<Longrightarrow> x \<in> A \<Longrightarrow> cmp x x \<le> 0"
  unfolding cmp_order_def by blast

lemma bubble_last:
  "cmp_order cmp A \<Longrightarrow> set xs \<subseteq> A \<Longrightarrow> y \<in> set xs \<Longrightarrow> cmp y (last (bubble cmp xs)) \<le> 0"
proof (induction cmp xs arbitrary: y rule: bubble.induct)
  case (1 cmp a b zs)
  have lastA: "last (bubble cmp (c # zs)) \<in> A" if "c \<in> A" for c
  proof -
    have "last (bubble cmp (c # zs)) \<in> set (bubble cmp (c # zs))"
      by (rule last_in_set) simp
    with that 1(4) show ?thesis by auto
  qed
  show ?case
  proof (cases "cmp a b > 0")
    case True
    have "cmp a (last (bubble cmp (a # zs))) \<le> 0"
      using 1(1) [OF True 1(3), of a] 1(4) by simp
    moreover have "cmp b a \<le> 0"
      using True 1(3,4) unfolding cmp_order_def by simp
    ultimately have "cmp b (last (bubble cmp (a # zs))) \<le> 0"
      using 1(3,4) lastA [of a] cmp_trans [of cmp A b a] by simp
    with True 1(1) [OF True 1(3)] 1(4,5) show ?thesis by auto
  next
    case False
    have "cmp b (last (bubble cmp (b # zs))) \<le> 0"
      using 1(2) [OF False 1(3), of b] 1(4) by simp
    then have "cmp a (last (bubble cmp (b # zs))) \<le> 0"
      using False 1(3,4) lastA [of b] cmp_trans [of cmp A a b] by simp
    with False 1(2) [OF False 1(3)] 1(4,5) show ?thesis by auto
  qed
qed (auto intro: cmp_refl)

lemma sort_inner_bubble:
  assumes "dll h l (ys @ s # zs @ es)"
  shows "\<exists>h'. sort_inner cmp (hd (es @ [l])) s h = Some h' \<and> dll h' l (ys @ bubble cmp (s # zs) @ es)"
  using assms
proof (induction zs arbitrary: ys s h)
  case Nil
  then have "next h s = hd (es @ [l])"
    by (auto simp: dll_def dest: seg_next)
  then show ?case using Nil by (subst sort_inner.simps) simp
next
  case (Cons z zs)
  then have ne: "next h s = z" "z \<noteq> hd (es @ [l])"
    by (cases es, auto simp: dll_def)+
  show ?case
  proof (cases "cmp s z > 0")
    case True
    let ?h = "list_swap s z h"
    have d: "dll ?h l (ys @ z # s # zs @ es)"
      using Cons.prems by (intro dll_swap_adjacent) simp
    then have "prev ?h s = z" "next ?h z = s"
      by (auto simp: dll_def)
    moreover obtain h' where "sort_inner cmp (hd (es @ [l])) s ?h = Some h'"
      "dll h' l ((ys @ [z]) @ bubble cmp (s # zs) @ es)"
      using Cons.IH [of ?h "ys @ [z]" s] d by auto
    ultimately show ?thesis using True ne
      by (subst sort_inner.simps) (simp add: Let_def)
  next
    case False
    obtain h' where "sort_inner cmp (hd (es @ [l])) z h = Some h'"
      "dll h' l ((ys @ [s]) @ bubble cmp (z # zs) @ es)"
      using Cons.IH [of h "ys @ [s]" z] Cons.prems by auto
    then show ?thesis using False ne
      by (subst sort_inner.simps) simp
  qed
qed

lemma sort_outer_sorts:
  assumes "dll h l (xs @ es)" and "cmp_order cmp (set (xs @ es))"
    and "sorted_wrt (\<lambda>x y. cmp x y \<le> 0) es" and "\<forall>x\<in>set xs. \<forall>e\<in>set es. cmp x e \<le> 0"
  shows "\<exists>h' rs. sort_outer cmp l (hd (es @ [l])) h = Some h' \<and> dll h' l rs \<and>
    mset rs = mset (xs @ es) \<and> sorted_wrt (\<lambda>x y. cmp x y \<le> 0) rs"
  using assms
proof (induction "length xs" arbitrary: xs es h)
  case 0
  then have "hd (es @ [l]) = next h l" by (auto dest: dll_next)
  with 0 show ?case by (subst sort_outer.simps) auto
next
  case (Suc n)
  then obtain s zs where xs: "xs = s # zs" by (cases xs) auto
  have ne: "hd (es @ [l]) \<noteq> next h l" "next h l = s"
    using Suc.prems(1) xs by (cases es, auto simp: dll_def)+
  obtain h1 where h1: "sort_inner cmp (hd (es @ [l])) s h = Some h1" "dll h1 l (bubble cmp xs @ es)"
    using sort_inner_bubble [of h l "[]" s zs es cmp] Suc.prems(1) xs by auto
  let ?b = "last (bubble cmp xs)" and ?xs = "butlast (bubble cmp xs)"
  have split: "bubble cmp xs = ?xs @ [?b]" using xs by (metis append_butlast_last_id bubble_facts(3) list.distinct(1))
  then have set_xs: "set xs = insert ?b (set ?xs)"
    by (metis Un_insert_right bubble_facts(1) list.simps(15) set_append sup_bot_right list.set(1))
  have ms: "mset xs = add_mset ?b (mset ?xs)"
    by (metis mset_bubble split union_mset_add_mset_right mset_append mset_single_iff_right add.right_neutral mset.simps)
  have prv: "prev h1 (hd (es @ [l])) = ?b"
    using h1(2) split by (cases es; simp add: dll_def) (metis seg_append seg.simps append_Cons append_Nil append_assoc)+
  have bl: "\<forall>y\<in>set xs. cmp y ?b \<le> 0"
    using bubble_last [OF Suc.prems(2)] by auto
  have "\<exists>h' rs. sort_outer cmp l (hd ((?b # es) @ [l])) h1 = Some h' \<and> dll h' l rs \<and>
    mset rs = mset (?xs @ ?b # es) \<and> sorted_wrt (\<lambda>x y. cmp x y \<le> 0) rs"
  proof (rule Suc.hyps(1))
    show "n = length ?xs" using Suc.hyps(2) by simp
    show "dll h1 l (?xs @ ?b # es)" using h1(2) split by (metis append.assoc append_Cons append_Nil)
    show "cmp_order cmp (set (?xs @ ?b # es))" using Suc.prems(2) set_xs by simp
    show "sorted_wrt (\<lambda>x y. cmp x y \<le> 0) (?b # es)" using Suc.prems(3,4) set_xs by simp
    show "\<forall>x\<in>set ?xs. \<forall>e\<in>set (?b # es). cmp x e \<le> 0" using Suc.prems(4) bl set_xs by simp
  qed
  then show ?case
    using ne h1(1) prv ms by (subst sort_outer.simps) auto
qed

section \<open>The list contract and families of lists\<close>

text \<open>
  \<open>family R h H f\<close>: the heads \<open>H\<close> own pairwise disjoint lists of one store, the
  list of \<open>l\<close> being \<open>f l\<close>.
\<close>

definition family :: "('h \<Rightarrow> 'a \<Rightarrow> 'a list \<Rightarrow> bool) \<Rightarrow> 'h \<Rightarrow> 'a set \<Rightarrow> ('a \<Rightarrow> 'a list) \<Rightarrow> bool" where
  "family R h H f \<longleftrightarrow>
     (\<forall>l\<in>H. R h l (f l)) \<and>
     (\<forall>l\<in>H. \<forall>l'\<in>H. l \<noteq> l' \<longrightarrow> set (l # f l) \<inter> set (l' # f l') = {})"

locale dlist =
  fixes R :: "'h \<Rightarrow> 'a \<Rightarrow> 'a list \<Rightarrow> bool"
    and init :: "'a \<Rightarrow> 'h \<Rightarrow> 'h"
    and add_tail :: "'a \<Rightarrow> 'a \<Rightarrow> 'h \<Rightarrow> 'h"
    and del :: "'a \<Rightarrow> 'h \<Rightarrow> 'h"
  assumes R_distinct: "R h l xs \<Longrightarrow> distinct (l # xs)"
    and R_init: "R (init l h) l []"
    and R_add_tail: "R h l xs \<Longrightarrow> n \<notin> set (l # xs) \<Longrightarrow> R (add_tail n l h) l (xs @ [n])"
    and R_del: "R h l xs \<Longrightarrow> n \<in> set xs \<Longrightarrow> R (del n h) l (remove1 n xs)"
    and R_init_frame: "n \<notin> set (l # xs) \<Longrightarrow> R h l xs \<Longrightarrow> R (init n h) l xs"
    and R_add_tail_frame: "R h l xs \<Longrightarrow> R h l' ys \<Longrightarrow> set (l # xs) \<inter> set (l' # ys) = {} \<Longrightarrow>
      n \<notin> set (l' # ys) \<Longrightarrow> R (add_tail n l h) l' ys"
    and R_del_frame: "R h l xs \<Longrightarrow> n \<in> set xs \<Longrightarrow> R h l' ys \<Longrightarrow>
      set (l # xs) \<inter> set (l' # ys) = {} \<Longrightarrow> R (del n h) l' ys"
begin

lemma familyD: "family R h H f \<Longrightarrow> l \<in> H \<Longrightarrow> R h l (f l)"
  by (simp add: family_def)

lemma family_distinct: "family R h H f \<Longrightarrow> l \<in> H \<Longrightarrow> distinct (l # f l)"
  by (blast dest: familyD R_distinct)

lemma family_owner:
  "family R h H f \<Longrightarrow> l \<in> H \<Longrightarrow> l' \<in> H \<Longrightarrow> n \<in> set (f l) \<Longrightarrow> n \<in> set (f l') \<Longrightarrow> l = l'"
  by (auto simp: family_def)

lemma family_head: "family R h H f \<Longrightarrow> l \<in> H \<Longrightarrow> l' \<in> H \<Longrightarrow> l' \<notin> set (f l)"
  using family_distinct [of h H f l'] by (cases "l = l'") (auto simp: family_def)

lemma family_init_frame:
  assumes "family R h H f" and "n \<notin> H" and "\<forall>l\<in>H. n \<notin> set (f l)"
  shows "family R (init n h) H f"
proof -
  have "R (init n h) l (f l)" if "l \<in> H" for l
    using assms that by (intro R_init_frame) (auto simp: family_def)
  with assms(1) show ?thesis by (auto simp: family_def)
qed

lemma family_init_new:
  assumes "family R h H f" and "l \<notin> H" and "\<forall>l'\<in>H. l \<notin> set (f l')"
  shows "family R (init l h) (insert l H) (f(l := []))"
  using family_init_frame [OF assms] assms R_init by (auto simp: family_def)

lemma family_add_tail:
  assumes F: "family R h H f" and l: "l \<in> H" and n: "n \<notin> H" and nf: "\<forall>l'\<in>H. n \<notin> set (f l')"
  shows "family R (add_tail n l h) H (f(l := f l @ [n]))"
proof -
  have a: "R (add_tail n l h) l (f l @ [n])"
    using F l n nf by (intro R_add_tail) (auto simp: family_def)
  have b: "R (add_tail n l h) l' (f l')" if "l' \<in> H" "l' \<noteq> l" for l'
    using F l n nf that by (intro R_add_tail_frame [of h l "f l"]) (auto simp: family_def)
  have c: "set (l # f l) \<inter> set (l' # f l') = {}" if "l' \<in> H" "l' \<noteq> l" for l'
    using F l that by (auto simp: family_def)
  show ?thesis
    unfolding family_def
  proof (intro conjI ballI impI)
    fix x assume "x \<in> H"
    then show "R (add_tail n l h) x ((f(l := f l @ [n])) x)"
      using a b by (cases "x = l") auto
  next
    fix x y assume "x \<in> H" "y \<in> H" "x \<noteq> y"
    then show "set (x # (f(l := f l @ [n])) x) \<inter> set (y # (f(l := f l @ [n])) y) = {}"
      using F n nf by (cases "x = l"; cases "y = l") (auto simp: family_def)
  qed
qed

lemma family_del:
  assumes F: "family R h H f" and l: "l \<in> H" and n: "n \<in> set (f l)"
  shows "family R (del n h) H (f(l := remove1 n (f l)))"
proof -
  have a: "R (del n h) l (remove1 n (f l))"
    using F l n by (intro R_del) (auto simp: family_def)
  have b: "R (del n h) l' (f l')" if "l' \<in> H" "l' \<noteq> l" for l'
    using F l n that by (intro R_del_frame [of h l "f l"]) (auto simp: family_def)
  have sub: "set (remove1 n (f l)) \<subseteq> set (f l)"
    by (rule set_remove1_subset)
  show ?thesis
    unfolding family_def
  proof (intro conjI ballI impI)
    fix x assume "x \<in> H"
    then show "R (del n h) x ((f(l := remove1 n (f l))) x)"
      using a b by (cases "x = l") auto
  next
    fix x y assume "x \<in> H" "y \<in> H" "x \<noteq> y"
    moreover from this F have "set (x # f x) \<inter> set (y # f y) = {}"
      by (simp add: family_def)
    ultimately show "set (x # (f(l := remove1 n (f l))) x) \<inter> set (y # (f(l := remove1 n (f l))) y) = {}"
      using sub by (cases "x = l"; cases "y = l") auto
  qed
qed

lemma family_del_notin:
  assumes "family R h H f" and "l \<in> H" and "n \<in> set (f l)"
  shows "\<forall>l'\<in>H. n \<notin> set ((f(l := remove1 n (f l))) l')"
  using family_distinct [OF assms(1,2)] family_owner [OF assms(1,2) _ assms(3)] by auto

text \<open>Moving the first node to the tail rotates the list: one round-robin turn.\<close>

lemma rotate:
  assumes "R h l (n # xs)"
  shows "R (add_tail n l (del n h)) l (xs @ [n])"
proof -
  have "R (del n h) l xs" using R_del [OF assms, of n] by simp
  then show ?thesis using R_distinct [OF assms] by (intro R_add_tail) auto
qed

end

text \<open>Lists that also support insertion at the front.\<close>

locale dlist_head = dlist +
  fixes add :: "'b \<Rightarrow> 'b \<Rightarrow> 'a \<Rightarrow> 'a"
  assumes R_add: "R h l xs \<Longrightarrow> n \<notin> set (l # xs) \<Longrightarrow> R (add n l h) l (n # xs)"
    and R_add_frame: "R h l xs \<Longrightarrow> R h l' ys \<Longrightarrow> set (l # xs) \<inter> set (l' # ys) = {} \<Longrightarrow>
      n \<notin> set (l' # ys) \<Longrightarrow> R (add n l h) l' ys"
begin

lemma family_add:
  assumes F: "family R h H f" and l: "l \<in> H" and n: "n \<notin> H" and nf: "\<forall>l'\<in>H. n \<notin> set (f l')"
  shows "family R (add n l h) H (f(l := n # f l))"
proof -
  have a: "R (add n l h) l (n # f l)"
    using F l n nf by (intro R_add) (auto simp: family_def)
  have b: "R (add n l h) l' (f l')" if "l' \<in> H" "l' \<noteq> l" for l'
    using F l n nf that by (intro R_add_frame [of h l "f l"]) (auto simp: family_def)
  show ?thesis
    unfolding family_def
  proof (intro conjI ballI impI)
    fix x assume "x \<in> H"
    then show "R (add n l h) x ((f(l := n # f l)) x)"
      using a b by (cases "x = l") auto
  next
    fix x y assume "x \<in> H" "y \<in> H" "x \<noteq> y"
    then show "set (x # (f(l := n # f l)) x) \<inter> set (y # (f(l := n # f l)) y) = {}"
      using F n nf by (cases "x = l"; cases "y = l") (auto simp: family_def)
  qed
qed

lemma family_move:
  assumes F: "family R h H f" and k: "k \<in> H" and n: "n \<in> set (f k)" and l: "l \<in> H"
  defines "g \<equiv> f(k := remove1 n (f k))"
  shows "family R (add n l (del n h)) H (g(l := n # g l))"
  unfolding g_def
  using F k n l
  by (intro family_add family_del family_del_notin [OF F k n]) (auto dest: family_head)

end

interpretation kl: dlist dll INIT_LIST_HEAD list_add_tail list_del
  by unfold_locales
    (fact dll_distinct dll_INIT dll_add_tail dll_del dll_INIT_frame dll_add_tail_frame dll_del_frame)+

interpretation klh: dlist_head dll INIT_LIST_HEAD list_add_tail list_del list_add
  by unfold_locales (fact dll_add dll_add_frame)+


section \<open>Properties\<close>

text \<open>
  C8.  \<open>list_sort\<close> on a well-formed list, with a comparison that is a total preorder on its
  elements, ends, keeps the list well formed and leaves the same nodes in ascending order.
\<close>

theorem list_sort_sorts:
  assumes "dll h l xs" and "cmp_order cmp (set xs)"
  shows "\<exists>h' ys. list_sort l cmp h = Some h' \<and> dll h' l ys \<and> mset ys = mset xs \<and>
    sorted_wrt (\<lambda>x y. cmp x y \<le> 0) ys"
  using sort_outer_sorts [of h l xs "[]" cmp] assms by (simp add: list_sort_def)

definition demo_list :: "nat lheap" where
  "demo_list = list_add_tail 3 0 (list_add_tail 9 0 (list_add_tail 5 0 (INIT_LIST_HEAD 0 \<lparr>prev = id, next = id\<rparr>)))"

lemma demo_list_dll: "dll demo_list 0 [5, 9, 3]"
  by (simp add: demo_list_def dll_def list_add_tail_def list_add_between_def INIT_LIST_HEAD_def Let_def)

theorem list_sort_sorts_witness:
  "\<exists>h' ys. list_sort 0 (\<lambda>a b. int a - int b) demo_list = Some h' \<and> dll h' 0 ys \<and> mset ys = {#5, 9, 3#} \<and>
     sorted_wrt (\<lambda>x y. int x - int y \<le> 0) ys"
  using list_sort_sorts [OF demo_list_dll, of "\<lambda>a b. int a - int b"] by (auto simp: cmp_order_def)

text \<open>
  Lists that share one store do not disturb each other: deleting a node from the list it is
  on and adding it at the tail of another one changes these two lists as expected and no third
  one (the step every queue of the kernel is built from).
\<close>

theorem list_transfer:
  assumes "family dll h H f" and "k \<in> H" and "n \<in> set (f k)" and "l \<in> H" and "k \<noteq> l"
  shows "family dll (list_move_tail n l h) H (f(k := remove1 n (f k), l := f l @ [n]))"
proof -
  note d = kl.family_del [OF assms(1-3)] and u = kl.family_del_notin [OF assms(1-3)]
  have "n \<notin> H" using kl.family_head [OF assms(1,2)] assms(3) by blast
  then show ?thesis
    using kl.family_add_tail [OF d assms(4) _ u] assms(5)
    by (simp add: list_move_tail_def fun_upd_def)
qed

lemma demo_family: "family dll (INIT_LIST_HEAD 1 demo_list) {0, 1} ((\<lambda>_. [])(0 := [5, 9, 3]))"
proof -
  have "family dll demo_list {0} ((\<lambda>_. [])(0 := [5, 9, 3]))"
    by (simp add: family_def demo_list_dll)
  from kl.family_init_new [OF this, of 1] show ?thesis
    by (simp add: fun_upd_twist insert_commute) (simp add: fun_upd_def if_distrib cong: if_cong)
qed

theorem list_transfer_witness:
  "family dll (list_move_tail 9 1 (INIT_LIST_HEAD 1 demo_list)) {0, 1}
     (((\<lambda>_. [])(0 := [5, 9, 3]))(0 := [5, 3], 1 := [9]))"
  using list_transfer [OF demo_family, of 0 9 1] by simp

end
