(* ===== verification/Memory.thy ===== *)
theory Memory
  imports Prelude
begin

text \<open>
  The byte and string helpers of \<^verbatim>\<open>src/utils/utils.c\<close> and
  \<^verbatim>\<open>src/include/ouros/utils.h\<close>, over an explicit store from 32-bit addresses to bytes.
  Loops bounded by a length are primitive recursive in that length; loops that run until a
  terminator is found are partial functions, and \<open>cstr\<close> (a zero-terminated string that
  does not wrap around the address space) is the condition under which they are shown to
  return.
\<close>

type_synonym mem = "u32 \<Rightarrow> u8"

section \<open>Block operations\<close>

primrec memcpy_loop :: "nat \<Rightarrow> u32 \<Rightarrow> u32 \<Rightarrow> mem \<Rightarrow> mem" where
  "memcpy_loop 0 dst src m = m"
| "memcpy_loop (Suc n) dst src m = memcpy_loop n (dst + 1) (src + 1) (m(dst := m src))"

definition kernel_memcpy :: "mem \<Rightarrow> u32 \<Rightarrow> u32 \<Rightarrow> u32 \<Rightarrow> mem" where
  "kernel_memcpy m dst src len = memcpy_loop (unat len) dst src m"

primrec memset_loop :: "nat \<Rightarrow> u32 \<Rightarrow> 'a \<Rightarrow> (u32 \<Rightarrow> 'a) \<Rightarrow> (u32 \<Rightarrow> 'a)" where
  "memset_loop 0 p v m = m"
| "memset_loop (Suc n) p v m = memset_loop n (p + 1) v (m(p := v))"

definition kernel_memset :: "(u32 \<Rightarrow> 'a) \<Rightarrow> u32 \<Rightarrow> 'a \<Rightarrow> u32 \<Rightarrow> (u32 \<Rightarrow> 'a)" where
  "kernel_memset m dst data len = memset_loop (unat len) dst data m"

section \<open>Strings\<close>

partial_function (option) strlen_loop :: "mem \<Rightarrow> u32 \<Rightarrow> nat \<Rightarrow> nat option" where
  "strlen_loop m p len = (if m p = 0 then Some len else strlen_loop m (p + 1) (Suc len))"

declare strlen_loop.simps [code]

definition kernel_strlen :: "mem \<Rightarrow> u32 \<Rightarrow> nat option" where
  "kernel_strlen m str = strlen_loop m str 0"

partial_function (option) kernel_strcmp :: "mem \<Rightarrow> u32 \<Rightarrow> u32 \<Rightarrow> int option" where
  "kernel_strcmp m dst src =
     (if m dst = m src \<and> m dst \<noteq> 0 then kernel_strcmp m (dst + 1) (src + 1)
      else Some (sint (m dst) - sint (m src)))"

declare kernel_strcmp.simps [code]

partial_function (option) kernel_strcpy :: "mem \<Rightarrow> u32 \<Rightarrow> u32 \<Rightarrow> (mem \<times> u32) option" where
  "kernel_strcpy m dst src =
     (let m' = m(dst := m src)
      in if m src = 0 then Some (m', dst + 1) else kernel_strcpy m' (dst + 1) (src + 1))"

declare kernel_strcpy.simps [code]

primrec pow_loop :: "nat \<Rightarrow> u32 \<Rightarrow> u32 \<Rightarrow> u32" where
  "pow_loop 0 x ret = ret"
| "pow_loop (Suc z) x ret = pow_loop z x (ret * x)"

definition kernel_pow :: "u32 \<Rightarrow> u32 \<Rightarrow> u32" where
  "kernel_pow x z = (if sint z < 0 then - 1 else pow_loop (unat z) x 1)"

section \<open>Contents of a range\<close>

primrec range_is :: "(u32 \<Rightarrow> 'a) \<Rightarrow> u32 \<Rightarrow> 'a list \<Rightarrow> bool" where
  "range_is m p [] \<longleftrightarrow> True"
| "range_is m p (b # bs) \<longleftrightarrow> m p = b \<and> range_is m (p + 1) bs"

definition cstr :: "mem \<Rightarrow> u32 \<Rightarrow> u8 list \<Rightarrow> bool" where
  "cstr m p s \<longleftrightarrow> range_is m p (s @ [0]) \<and> 0 \<notin> set s"

lemma cstr_Nil [simp]: "cstr m p [] \<longleftrightarrow> m p = 0"
  by (simp add: cstr_def)

lemma cstr_Cons [simp]: "cstr m p (c # s) \<longleftrightarrow> m p = c \<and> c \<noteq> 0 \<and> cstr m (p + 1) s"
  by (auto simp: cstr_def)

lemma kernel_strlen_cstr: "cstr m p s \<Longrightarrow> kernel_strlen m p = Some (length s)"
proof -
  have "cstr m p s \<Longrightarrow> strlen_loop m p n = Some (n + length s)" for n
    by (induction s arbitrary: p n; subst strlen_loop.simps) simp_all
  then show "cstr m p s \<Longrightarrow> kernel_strlen m p = Some (length s)"
    by (simp add: kernel_strlen_def)
qed

fun str_diff :: "u8 list \<Rightarrow> u8 list \<Rightarrow> int" where
  "str_diff (a # as) (b # bs) = (if a = b then str_diff as bs else sint a - sint b)"
| "str_diff (a # as) [] = sint a"
| "str_diff [] (b # bs) = - sint b"
| "str_diff [] [] = 0"

lemma kernel_strcmp_cstr:
  "cstr m p a \<Longrightarrow> cstr m q b \<Longrightarrow> kernel_strcmp m p q = Some (str_diff a b)"
proof (induction a b arbitrary: p q rule: str_diff.induct)
  case (1 x as y bs)
  then show ?case by (subst kernel_strcmp.simps) simp
qed (subst kernel_strcmp.simps; simp)+

lemma str_diff_0: "0 \<notin> set a \<Longrightarrow> 0 \<notin> set b \<Longrightarrow> str_diff a b = 0 \<longleftrightarrow> a = b"
  by (induction a b rule: str_diff.induct) (auto dest: signed_word_eqI simp: signed_eq_0_iff)

lemma kernel_strcmp_eq_iff:
  assumes "cstr m p a" and "cstr m q b"
  shows "kernel_strcmp m p q = Some 0 \<longleftrightarrow> a = b"
  using assms by (simp add: kernel_strcmp_cstr str_diff_0 cstr_def)

section \<open>Closed forms\<close>

lemma unat_singleton_range: "unat p \<le> unat i \<and> unat i < Suc (unat p) \<longleftrightarrow> i = p" for i p :: u32
  by (auto simp: word_unat_eq_iff)

lemma memset_loop_eq:
  "unat p + n \<le> 2 ^ 32 \<Longrightarrow>
   memset_loop n p v m = (\<lambda>i. if unat p \<le> unat i \<and> unat i < unat p + n then v else m i)"
proof (induction n arbitrary: p m)
  case 0
  then show ?case by (auto simp: fun_eq_iff)
next
  case (Suc n)
  show ?case
  proof (cases "p = - 1")
    case True
    then have "unat p = 2 ^ 32 - 1" by (simp add: unat_minus_1_u32)
    with Suc.prems have "n = 0" by simp
    then show ?thesis
      by (auto simp: fun_eq_iff word_unat_eq_iff)
  next
    case False
    then have p: "unat (p + 1) = Suc (unat p)" by (rule unat_Suc_word)
    have "memset_loop (Suc n) p v m =
      (\<lambda>i. if Suc (unat p) \<le> unat i \<and> unat i < Suc (unat p) + n then v else (m(p := v)) i)"
      unfolding memset_loop.simps p [symmetric] by (rule Suc.IH) (use Suc.prems p in simp)
    also have "\<dots> = (\<lambda>i. if unat p \<le> unat i \<and> unat i < unat p + Suc n then v else m i)"
      by (auto simp: fun_eq_iff word_unat_eq_iff)
    finally show ?thesis .
  qed
qed

lemma kernel_memset_eq:
  "unat p + unat len \<le> 2 ^ 32 \<Longrightarrow>
   kernel_memset m p v len = (\<lambda>i. if unat p \<le> unat i \<and> unat i < unat p + unat len then v else m i)"
  by (simp add: kernel_memset_def memset_loop_eq)

text \<open>Copying forwards between ranges that do not overlap copies the whole range.\<close>

lemma memcpy_loop_eq:
  "unat d + n \<le> 2 ^ 32 \<Longrightarrow> unat s + n \<le> 2 ^ 32 \<Longrightarrow>
   unat d + n \<le> unat s \<or> unat s + n \<le> unat d \<Longrightarrow>
   memcpy_loop n d s m =
     (\<lambda>i. if unat d \<le> unat i \<and> unat i < unat d + n then m (s + (i - d)) else m i)"
proof (induction n arbitrary: d s m)
  case 0
  then show ?case by (auto simp: fun_eq_iff)
next
  case (Suc n)
  show ?case
  proof (cases "n = 0")
    case True
    then show ?thesis by (auto simp: unat_singleton_range fun_eq_iff)
  next
    case False
    with Suc.prems(1,2) have "unat d \<noteq> 2 ^ 32 - 1" "unat s \<noteq> 2 ^ 32 - 1" by auto
    then have "d \<noteq> - 1" "s \<noteq> - 1" by (auto simp: unat_minus_1_u32)
    then have d1: "unat (d + 1) = Suc (unat d)" and s1: "unat (s + 1) = Suc (unat s)"
      by (simp_all add: unat_Suc_word)
    have IH: "memcpy_loop n (d + 1) (s + 1) (m(d := m s)) =
      (\<lambda>i. if unat (d + 1) \<le> unat i \<and> unat i < unat (d + 1) + n
            then (m(d := m s)) (s + 1 + (i - (d + 1))) else (m(d := m s)) i)"
      using Suc.prems d1 s1 by (intro Suc.IH) auto
    have mem: "(m(d := m s)) (s + (i - d)) = m (s + (i - d))"
      if "Suc (unat d) \<le> unat i" "unat i < Suc (unat d + n)" for i
    proof -
      have "unat (i - d) = unat i - unat d"
        using that by (simp add: unat_sub word_le_nat_alt)
      then have "unat (s + (i - d)) = unat s + (unat i - unat d)"
        using that Suc.prems(2) by (simp add: unat_word_ariths)
      then have "unat (s + (i - d)) \<noteq> unat d" using that Suc.prems(3) by arith
      then have "s + (i - d) \<noteq> d" by metis
      then show ?thesis by (rule fun_upd_other)
    qed
    show ?thesis
    proof (rule ext)
      fix i
      have "i = d \<longleftrightarrow> unat i = unat d" by (rule word_unat_eq_iff)
      then show "memcpy_loop (Suc n) d s m i =
          (if unat d \<le> unat i \<and> unat i < unat d + Suc n then m (s + (i - d)) else m i)"
        using mem [of i] unfolding memcpy_loop.simps IH d1 by (auto simp: algebra_simps)
    qed
  qed
qed

lemma kernel_memcpy_eq:
  "unat d + unat len \<le> 2 ^ 32 \<Longrightarrow> unat s + unat len \<le> 2 ^ 32 \<Longrightarrow>
   unat d + unat len \<le> unat s \<or> unat s + unat len \<le> unat d \<Longrightarrow>
   kernel_memcpy m d s len =
     (\<lambda>i. if unat d \<le> unat i \<and> unat i < unat d + unat len then m (s + (i - d)) else m i)"
  by (simp add: kernel_memcpy_def memcpy_loop_eq)

lemma pow_loop_eq: "pow_loop n x r = r * x ^ n"
  by (induction n arbitrary: r) (simp_all add: mult.assoc)


section \<open>Properties\<close>

text \<open>
  \<open>kernel_strcmp\<close> on two strings ends and returns the difference of the first bytes
  that differ, read as signed characters; it is 0 exactly for equal strings.
\<close>

theorem kernel_strcmp_correct:
  assumes "cstr m p a" and "cstr m q b"
  shows "kernel_strcmp m p q = Some (str_diff a b) \<and> (str_diff a b = 0 \<longleftrightarrow> a = b)"
  using assms kernel_strcmp_cstr [OF assms] by (simp add: str_diff_0 cstr_def)

theorem kernel_strcmp_correct_witness:
  "kernel_strcmp ((\<lambda>_. 0)(16 := 97, 17 := 200, 32 := 97, 33 := 98)) 16 32 = Some (- 154)"
  using kernel_strcmp_correct [of "(\<lambda>_. 0)(16 := 97, 17 := 200, 32 := 97, 33 := 98)" 16 "[97, 200]" 32 "[97, 98]"]
  by simp

text \<open>
  \<open>kernel_memcpy\<close> between ranges that do not overlap and do not wrap around copies the
  source range and leaves every other byte alone.
\<close>

theorem kernel_memcpy_correct:
  assumes "unat d + unat len \<le> 2 ^ 32" and "unat s + unat len \<le> 2 ^ 32"
    and "unat d + unat len \<le> unat s \<or> unat s + unat len \<le> unat d"
  shows "kernel_memcpy m d s len =
     (\<lambda>i. if unat d \<le> unat i \<and> unat i < unat d + unat len then m (s + (i - d)) else m i)"
  using assms by (rule kernel_memcpy_eq)

theorem kernel_memcpy_correct_witness:
  "kernel_memcpy ((\<lambda>_. 0)(16 := 7, 17 := 8)) 32 16 2 33 = 8"
  using fun_cong [OF kernel_memcpy_correct [of 32 2 16 "(\<lambda>_. 0)(16 := 7, 17 := 8)"], of 33] by simp

end
