(* ===== verification/Bootmm.thy ===== *)
theory Bootmm
  imports Memory
begin

text \<open>
  The boot-time page allocator, \<^verbatim>\<open>src/kernel/mm/bootmm.c\<close> and
  \<^verbatim>\<open>src/include/ouros/bootmm.h\<close>: a byte per page frame (\<open>page_map\<close>) and a small
  table of allocation records (\<open>info\<close>).  Arrays are functions of their index, so an
  index beyond the array reads whatever the store holds there, as the C does; loops that
  the code does not bound are partial functions.
\<close>

section \<open>Data\<close>

definition MAX_MMINFO_NUM :: u32 where "MAX_MMINFO_NUM = 16"
definition PAGE_FREE :: u8 where "PAGE_FREE = 0x00"
definition PAGE_USED :: u8 where "PAGE_USED = 0xFF"
definition MMINFO_TYPE_KERNEL :: u32 where "MMINFO_TYPE_KERNEL = 0"

lemmas bootmm_consts [os_const] =
  MAX_MMINFO_NUM_def PAGE_FREE_def PAGE_USED_def MMINFO_TYPE_KERNEL_def

record bootmm_info =
  start_addr :: u32
  info_length :: u32
  info_type :: u32

record bootmm_sys =
  phymm_size :: u32
  page_num :: u32
  page_map :: "u32 \<Rightarrow> u8"
  last_alloc_end :: u32
  info_cnt :: u32
  info :: "u32 \<Rightarrow> bootmm_info"

definition get_phymm_size :: u32 where
  "get_phymm_size = MACHINE_MMSIZE"

section \<open>Allocation records\<close>

definition set_bootmm_info :: "bootmm_sys \<Rightarrow> u32 \<Rightarrow> u32 \<Rightarrow> u32 \<Rightarrow> u32 \<Rightarrow> bootmm_sys option" where
  "set_bootmm_info mm index start len type =
     (if index < MAX_MMINFO_NUM
      then Some (mm\<lparr>info := (info mm)(index :=
             \<lparr>start_addr = start, info_length = len, info_type = type\<rparr>)\<rparr>)
      else None)"

text \<open>
  \<open>None\<close> is the endless loop of \<open>kernel_assert\<close>.  The loop of
  \<open>delete_bootmm_info\<close> moves every later record one place down, the one at
  \<open>info_cnt\<close> included.
\<close>

function delete_loop :: "u32 \<Rightarrow> u32 \<Rightarrow> (u32 \<Rightarrow> bootmm_info) \<Rightarrow> (u32 \<Rightarrow> bootmm_info)" where
  "delete_loop i cnt tab = (if i < cnt then delete_loop (i + 1) cnt (tab(i := tab (i + 1))) else tab)"
  by pat_completeness auto
termination
  by (relation "measure (\<lambda>(i, cnt, tab). unat cnt - unat i)") (auto simp: word_loop_measure)

declare delete_loop.simps [simp del]

definition delete_bootmm_info :: "bootmm_sys \<Rightarrow> u32 \<Rightarrow> bootmm_sys \<times> u32" where
  "delete_bootmm_info mm index =
     (if index \<ge> info_cnt mm then (mm, 0)
      else (mm\<lparr>info := delete_loop index (info_cnt mm) (info mm), info_cnt := info_cnt mm - 1\<rparr>, 1))"

text \<open>
  The search loop of \<open>insert_bootmm_info\<close>: the new state and the code 1, 2 or 3 when
  a record was extended, 0 when none was.
\<close>

function insert_loop :: "bootmm_sys \<Rightarrow> u32 \<Rightarrow> u32 \<Rightarrow> u32 \<Rightarrow> u32 \<Rightarrow> bootmm_sys \<times> u32" where
  "insert_loop mm start len type i =
     (if \<not> i < info_cnt mm then (mm, 0)
      else
        let this = info mm i in
        if info_type this \<noteq> type then insert_loop mm start len type (i + 1)
        else if start_addr this + info_length this = start
        then let nxt = info mm (i + 1) in
          if info_type nxt = type \<and> start + len = start_addr nxt
          then (fst (delete_bootmm_info
                  (mm\<lparr>info := (info mm)(i := this\<lparr>info_length := info_length this + (len + info_length nxt)\<rparr>)\<rparr>)
                  (i + 1)), 1)
          else (mm\<lparr>info := (info mm)(i := this\<lparr>info_length := info_length this + len\<rparr>)\<rparr>, 2)
        else if start + len = info_length this
        then (mm\<lparr>info := (info mm)(i := this\<lparr>start_addr := start, info_length := info_length this + len\<rparr>)\<rparr>, 3)
        else insert_loop mm start len type (i + 1))"
  by pat_completeness auto
termination
  by (relation "measure (\<lambda>(mm, start, len, type, i). unat (info_cnt mm) - unat i)")
    (auto simp: word_loop_measure)

declare insert_loop.simps [simp del]

definition insert_bootmm_info :: "bootmm_sys \<Rightarrow> u32 \<Rightarrow> u32 \<Rightarrow> u32 \<Rightarrow> (bootmm_sys \<times> u32) option" where
  "insert_bootmm_info mm start len type =
     (let (mm', ret) = insert_loop mm start len type 0 in
      if ret \<noteq> 0 then Some (mm', ret)
      else if info_cnt mm' = MAX_MMINFO_NUM then Some (mm', 0)
      else let index = info_cnt mm' in
        map_option (\<lambda>mm. (mm, 4))
          (set_bootmm_info (mm'\<lparr>info_cnt := index + 1\<rparr>) index start len type))"

definition split_bootmm_info :: "bootmm_sys \<Rightarrow> u32 \<Rightarrow> u32 \<Rightarrow> (bootmm_sys \<times> u32) option" where
  "split_bootmm_info mm index split_addr_start =
     (if index \<ge> info_cnt mm then Some (mm, 0)
      else if info_cnt mm = MAX_MMINFO_NUM then Some (mm, 0)
      else let mminfo = info mm index in
        if split_addr_start > start_addr mminfo \<and>
           split_addr_start < start_addr mminfo + info_length mminfo
        then let temp = info_length mminfo;
                 len = split_addr_start - start_addr mminfo;
                 mm = mm\<lparr>info := (info mm)(index := mminfo\<lparr>info_length := len\<rparr>)\<rparr>;
                 last = info_cnt mm
             in map_option (\<lambda>mm. (mm, 1))
                  (set_bootmm_info (mm\<lparr>info_cnt := last + 1\<rparr>) last split_addr_start (temp - len)
                    (info_type mminfo))
        else Some (mm, 0))"

section \<open>Searching and allocating pages\<close>

datatype run_result = Run_out | Run_used u32 | Run_ok

primrec find_run :: "(u32 \<Rightarrow> u8) \<Rightarrow> u32 \<Rightarrow> nat \<Rightarrow> u32 \<Rightarrow> run_result" where
  "find_run pm pfn_end 0 j = Run_ok"
| "find_run pm pfn_end (Suc cnt) j =
     (if j > pfn_end then Run_out
      else if pm j = PAGE_USED then Run_used (j + 1)
      else find_run pm pfn_end cnt (j + 1))"

partial_function (option) find_loop :: "(u32 \<Rightarrow> u8) \<Rightarrow> u32 \<Rightarrow> u32 \<Rightarrow> u32 \<Rightarrow> u32 \<Rightarrow> u32 option" where
  "find_loop pm page_cnt pfn_end pfn_align i =
     (if \<not> i \<le> pfn_end then Some 0
      else if pm i \<noteq> PAGE_USED
      then (case find_run pm pfn_end (unat (page_cnt - 1)) (i + 1) of
              Run_out \<Rightarrow> Some 0
            | Run_used j \<Rightarrow> find_loop pm page_cnt pfn_end pfn_align (upper_align j pfn_align)
            | Run_ok \<Rightarrow> Some i)
      else find_loop pm page_cnt pfn_end pfn_align (upper_align (i + 1) pfn_align))"

declare find_loop.simps [code]

definition find_pages :: "bootmm_sys \<Rightarrow> u32 \<Rightarrow> u32 \<Rightarrow> u32 \<Rightarrow> u32 \<Rightarrow> u32 option" where
  "find_pages mm page_cnt pfn_start pfn_end pfn_align =
     (let pfn_align = (if pfn_align = 0 then 1 else pfn_align);
          pfn_start = upper_align pfn_start pfn_align;
          pfn_end = min (page_num mm - 1) pfn_end
      in find_loop (page_map mm) page_cnt pfn_end pfn_align pfn_start)"

definition bootmm_alloc_page :: "bootmm_sys \<Rightarrow> u32 \<Rightarrow> u32 \<Rightarrow> u32 \<Rightarrow> (bootmm_sys \<times> u32) option" where
  "bootmm_alloc_page mm sz type addr_align =
     (let page_cnt = drop_bit PAGE_SHIFT (upper_align sz (push_bit PAGE_SHIFT 1));
          pfn_align = drop_bit PAGE_SHIFT addr_align
      in case find_pages mm page_cnt (last_alloc_end mm + 1) (page_num mm - 1) pfn_align of
           None \<Rightarrow> None
         | Some res \<Rightarrow>
             (case (if res = 0 then find_pages mm page_cnt 0 (last_alloc_end mm) pfn_align
                    else Some res) of
                None \<Rightarrow> None
              | Some res \<Rightarrow>
                  if res \<noteq> 0
                  then (case insert_bootmm_info mm (push_bit PAGE_SHIFT res) sz type of
                          None \<Rightarrow> None
                        | Some (mm', insert_info) \<Rightarrow>
                            if insert_info > 0
                            then Some (mm'\<lparr>last_alloc_end := res + page_cnt - 1,
                                   page_map := kernel_memset (page_map mm') res PAGE_USED page_cnt\<rparr>,
                                   push_bit PAGE_SHIFT res)
                            else Some (mm', push_bit PAGE_SHIFT 0))
                  else Some (mm, push_bit PAGE_SHIFT res)))"

text \<open>
  The record loop of \<open>bootmm_free_page\<close>.  It goes on after a record was cut, as the
  source does, and ends at the first record that is too short.
\<close>

partial_function (option) free_loop ::
    "bootmm_sys \<Rightarrow> u32 \<Rightarrow> u32 \<Rightarrow> u32 \<Rightarrow> u32 \<Rightarrow> u32 \<Rightarrow> bootmm_sys option" where
  "free_loop mm addr sz pfn_start pfn_cnt i =
     (if \<not> i < info_cnt mm then Some mm
      else
        let this = info mm i in
        if addr < start_addr this \<or> addr \<ge> start_addr this + info_length this
        then free_loop mm addr sz pfn_start pfn_cnt (i + 1)
        else if info_length this - (addr - start_addr this) < sz then Some mm
        else Option.bind (split_bootmm_info mm i addr) (\<lambda>(mm, split_info_1).
          Option.bind
            (if split_info_1 \<noteq> 0
             then Option.bind (split_bootmm_info mm (info_cnt mm - 1) (addr + sz)) (\<lambda>(mm, split_info_2).
               Some (fst (if split_info_2 \<noteq> 0
                     then delete_bootmm_info mm (info_cnt mm - 2)
                     else delete_bootmm_info mm (info_cnt mm - 1))))
             else Option.bind (split_bootmm_info mm i (addr + sz)) (\<lambda>(mm, _).
               Some (fst (delete_bootmm_info mm i))))
            (\<lambda>mm. free_loop (mm\<lparr>page_map := kernel_memset (page_map mm) pfn_start PAGE_FREE pfn_cnt\<rparr>)
                    addr sz pfn_start pfn_cnt (i + 1))))"

declare free_loop.simps [code]

definition bootmm_free_page :: "bootmm_sys \<Rightarrow> u32 \<Rightarrow> u32 \<Rightarrow> bootmm_sys option" where
  "bootmm_free_page mm addr sz =
     (if get_low_bits addr (of_nat PAGE_SHIFT) \<noteq> 0 then Some mm
      else let pfn_start = drop_bit PAGE_SHIFT addr in
        if pfn_start < KERNEL_PAGE_NUM then Some mm
        else let pfn_cnt = drop_bit PAGE_SHIFT sz in
          if pfn_cnt = 0 then Some mm
          else free_loop mm addr sz pfn_start pfn_cnt 0)"

definition zero_info :: bootmm_info where
  "zero_info = \<lparr>start_addr = 0, info_length = 0, info_type = 0\<rparr>"

definition init_bootmm :: "bootmm_sys option" where
  "init_bootmm =
     (let mm = \<lparr>phymm_size = 0, page_num = 0, page_map = (\<lambda>_. 0), last_alloc_end = 0,
                info_cnt = 0, info = (\<lambda>_. zero_info)\<rparr>;
          mm = mm\<lparr>phymm_size := get_phymm_size\<rparr>;
          mm = mm\<lparr>page_num := drop_bit PAGE_SHIFT (phymm_size mm)\<rparr>;
          mm = mm\<lparr>page_map := kernel_memset (page_map mm) 0 PAGE_FREE MACHINE_PAGE_NUM\<rparr>;
          mm = mm\<lparr>info_cnt := 0\<rparr>;
          kmm_size = 16 * push_bit 10 (push_bit 10 1);
          kmm_pfn = drop_bit PAGE_SHIFT kmm_size
      in case insert_bootmm_info mm 0 kmm_size MMINFO_TYPE_KERNEL of
           None \<Rightarrow> None
         | Some (mm, _) \<Rightarrow> Some (mm\<lparr>page_map := kernel_memset (page_map mm) 0 PAGE_USED kmm_pfn\<rparr>))"

section \<open>The page search\<close>

text \<open>\<open>free_run pm pe p n\<close>: the \<open>n + 1\<close> frames from \<open>p\<close> on are free and end at or before \<open>pe\<close>.\<close>

definition free_run :: "(u32 \<Rightarrow> u8) \<Rightarrow> u32 \<Rightarrow> nat \<Rightarrow> nat \<Rightarrow> bool" where
  "free_run pm pe p n \<longleftrightarrow>
     p + n \<le> unat pe \<and> (\<forall>x. p \<le> unat x \<and> unat x \<le> p + n \<longrightarrow> pm x \<noteq> PAGE_USED)"

lemma find_run_ok:
  "find_run pm pe n j = Run_ok \<Longrightarrow> pe < - 1 \<Longrightarrow>
   (n = 0 \<or> unat j + n \<le> Suc (unat pe)) \<and> (\<forall>x. unat j \<le> unat x \<and> unat x < unat j + n \<longrightarrow> pm x \<noteq> PAGE_USED)"
proof (induction n arbitrary: j)
  case (Suc n)
  then have j: "j \<le> pe" "pm j \<noteq> PAGE_USED" "find_run pm pe n (j + 1) = Run_ok"
    by (auto split: if_splits)
  then have u: "unat (j + 1) = Suc (unat j)"
    using Suc.prems(2) by (intro unat_Suc_less [of j "- 1"]) (auto simp: word_le_nat_alt word_less_nat_alt)
  have "pm x \<noteq> PAGE_USED" if "unat j \<le> unat x" "unat x < unat j + Suc n" for x
  proof (cases "x = j")
    case False
    with that have "Suc (unat j) \<le> unat x" by (metis Suc_leI le_neq_implies_less word_unat_eq_iff)
    with that Suc.IH [OF j(3) Suc.prems(2)] u show ?thesis by auto
  qed (use j in simp)
  moreover have "unat j \<le> unat pe" using j(1) by (simp add: word_le_nat_alt)
  ultimately show ?case using Suc.IH [OF j(3) Suc.prems(2)] u by auto
qed auto

lemma find_run_used:
  "find_run pm pe n j = Run_used j' \<Longrightarrow> pe < - 1 \<Longrightarrow>
   \<exists>x. j' = x + 1 \<and> x \<le> pe \<and> pm x = PAGE_USED \<and> unat j \<le> unat x \<and> unat x < unat j + n"
proof (induction n arbitrary: j)
  case (Suc n)
  then have j: "j \<le> pe" by (auto split: if_splits)
  then have u: "unat (j + 1) = Suc (unat j)"
    using Suc.prems(2) by (intro unat_Suc_less [of j "- 1"]) (auto simp: word_le_nat_alt word_less_nat_alt)
  show ?case
  proof (cases "pm j = PAGE_USED")
    case True
    with Suc.prems j have "j' = j + 1" by (auto split: if_splits)
    with True j show ?thesis by (intro exI [of _ j]) simp
  next
    case False
    with Suc.prems j have "find_run pm pe n (j + 1) = Run_used j'" by (auto split: if_splits)
    from Suc.IH [OF this Suc.prems(2)] show ?thesis using u by fastforce
  qed
qed simp

lemma find_run_out: "find_run pm pe n j = Run_out \<Longrightarrow> pe < - 1 \<Longrightarrow> Suc (unat pe) < unat j + n"
proof (induction n arbitrary: j)
  case (Suc n)
  show ?case
  proof (cases "j \<le> pe")
    case True
    then have "unat (j + 1) = Suc (unat j)"
      using Suc.prems(2) by (intro unat_Suc_less [of j "- 1"]) (auto simp: word_le_nat_alt word_less_nat_alt)
    moreover have "find_run pm pe n (j + 1) = Run_out" using Suc.prems True by (auto split: if_splits)
    ultimately show ?thesis using Suc.IH [of "j + 1"] Suc.prems(2) by simp
  next
    case False
    then show ?thesis by (simp add: word_le_nat_alt)
  qed
qed simp

definition first_fit :: "(u32 \<Rightarrow> u8) \<Rightarrow> u32 \<Rightarrow> nat \<Rightarrow> nat \<Rightarrow> nat \<Rightarrow> u32 \<Rightarrow> bool" where
  "first_fit pm pe n al i r \<longleftrightarrow>
     (r \<noteq> 0 \<longrightarrow> i \<le> unat r \<and> al dvd unat r \<and> free_run pm pe (unat r) n) \<and>
     (\<forall>p. i \<le> p \<and> al dvd p \<and> free_run pm pe p n \<longrightarrow> r \<noteq> 0 \<and> unat r \<le> p)"

lemma first_fit_mono:
  assumes "first_fit pm pe n al k r" and "i \<le> k"
    and "\<And>p. i \<le> p \<Longrightarrow> al dvd p \<Longrightarrow> free_run pm pe p n \<Longrightarrow> k \<le> p"
  shows "first_fit pm pe n al i r"
  using assms unfolding first_fit_def by (meson order_trans)

lemma first_fit_none:
  "(\<And>p. i \<le> p \<Longrightarrow> al dvd p \<Longrightarrow> \<not> free_run pm pe p n) \<Longrightarrow> first_fit pm pe n al i 0"
  by (simp add: first_fit_def)

text \<open>A used frame \<open>x\<close> at or after \<open>i\<close> pushes every run past it.\<close>

lemma run_past_used:
  assumes "pm x = PAGE_USED" and "unat x \<le> i + n" and "free_run pm pe p n" and "i \<le> p"
  shows "unat x < p"
  using assms by (auto simp: free_run_def) (metis add_le_mono1 le_trans not_less)

text \<open>Moving from \<open>i\<close> past a used frame \<open>x\<close> to the next aligned frame loses no run.\<close>

lemma align_past_used:
  assumes "pm x = PAGE_USED" and "unat i \<le> unat x" and "unat x \<le> unat i + n" and "x \<le> pe" and "pe < - 1"
    and "unat pe + 2 ^ k < 2 ^ 32" and "k < 32"
  defines "j \<equiv> upper_align (x + 1) (2 ^ k)"
  shows "unat i < unat j" and "2 ^ k dvd unat j"
    and "first_fit pm pe n (2 ^ k) (unat j) r \<Longrightarrow> first_fit pm pe n (2 ^ k) (unat i) r"
proof -
  have x1: "unat (x + 1) = Suc (unat x)"
    using assms(4,5) by (intro unat_Suc_less [of x "- 1"]) simp
  have "unat x \<le> unat pe" using assms(4) by (simp add: word_le_nat_alt)
  then have u: "unat j = round_up (2 ^ k) (Suc (unat x))"
    unfolding j_def using assms(6,7) x1 by (subst unat_upper_align_round) auto
  have ge: "Suc (unat x) \<le> unat j" unfolding u by (rule round_up_ge) simp
  then show "unat i < unat j" using assms(2) by simp
  show "2 ^ k dvd unat j" unfolding u by (rule round_up_dvd)
  have "unat j \<le> p" if "unat i \<le> p" "2 ^ k dvd p" "free_run pm pe p n" for p
    unfolding u using run_past_used [OF assms(1,3) that(3,1)] that(2) by (intro round_up_least) auto
  then show "first_fit pm pe n (2 ^ k) (unat i) r" if "first_fit pm pe n (2 ^ k) (unat j) r"
    using \<open>unat i < unat j\<close> by (intro first_fit_mono [OF that]) simp_all
qed

lemma free_run_start:
  assumes "find_run pm pe n (i + 1) = Run_ok" and "i \<le> pe" and "pe < - 1" and "pm i \<noteq> PAGE_USED"
  shows "free_run pm pe (unat i) n"
proof -
  have i1: "unat (i + 1) = Suc (unat i)"
    using assms(2,3) by (intro unat_Suc_less [of i "- 1"]) simp
  from find_run_ok [OF assms(1,3)] i1
  have ok: "n = 0 \<or> unat i + n \<le> unat pe"
    "\<forall>x. Suc (unat i) \<le> unat x \<and> unat x < Suc (unat i) + n \<longrightarrow> pm x \<noteq> PAGE_USED"
    by auto
  have "pm x \<noteq> PAGE_USED" if "unat i \<le> unat x" "unat x \<le> unat i + n" for x
  proof (cases "x = i")
    case False
    then have "unat x \<noteq> unat i" by (simp add: word_unat_eq_iff)
    with that ok(2) show ?thesis by auto
  qed (use assms(4) in simp)
  moreover have "unat i + n \<le> unat pe"
    using ok(1) assms(2) by (auto simp: word_le_nat_alt)
  ultimately show ?thesis by (simp add: free_run_def)
qed

lemma find_loop_first_fit:
  assumes pe: "unat pe + 2 ^ k < 2 ^ 32" and k: "k < 32" and used0: "pm 0 = PAGE_USED"
    and "2 ^ k dvd unat i"
  shows "\<exists>r. find_loop pm cnt pe (2 ^ k) i = Some r \<and> first_fit pm pe (unat (cnt - 1)) (2 ^ k) (unat i) r"
  using assms(4)
proof (induction "Suc (unat pe) - unat i" arbitrary: i rule: less_induct)
  case less
  let ?n = "unat (cnt - 1)"
  have "(1::nat) \<le> 2 ^ k" by simp
  with pe have "unat pe < 2 ^ 32 - 1" by linarith
  then have pe1: "pe < - 1" by (simp add: word_less_nat_alt unat_minus_1_u32)
  have turn: ?case
    if x: "pm x = PAGE_USED" "unat i \<le> unat x" "unat x \<le> unat i + ?n" "x \<le> pe"
      and step: "find_loop pm cnt pe (2 ^ k) i = find_loop pm cnt pe (2 ^ k) (upper_align (x + 1) (2 ^ k))"
    for x
  proof -
    note past = align_past_used [of pm x i ?n pe k, OF x pe1 pe k]
    have "unat i \<le> unat pe" using x(2,4) by (simp add: word_le_nat_alt)
    with past(1) have "Suc (unat pe) - unat (upper_align (x + 1) (2 ^ k)) < Suc (unat pe) - unat i"
      by linarith
    from less.hyps [OF this past(2)] show ?thesis using past(3) step by auto
  qed
  show ?case
  proof (cases "i \<le> pe")
    case False
    then have "\<not> free_run pm pe p ?n" if "unat i \<le> p" for p
      using that by (auto simp: free_run_def word_le_nat_alt)
    then show ?thesis using False
      by (subst find_loop.simps) (auto intro: first_fit_none)
  next
    case ile: True
    then have i1: "unat (i + 1) = Suc (unat i)"
      using pe1 by (intro unat_Suc_less [of i "- 1"]) simp
    note unfold = find_loop.simps [of pm cnt pe "2 ^ k" i]
    consider (used) "pm i = PAGE_USED" | (out) "pm i \<noteq> PAGE_USED" "find_run pm pe ?n (i + 1) = Run_out"
      | (brk) j where "pm i \<noteq> PAGE_USED" "find_run pm pe ?n (i + 1) = Run_used j"
      | (ok) "pm i \<noteq> PAGE_USED" "find_run pm pe ?n (i + 1) = Run_ok"
      by (cases "find_run pm pe ?n (i + 1)") auto
    then show ?thesis
    proof cases
      case used
      with ile unfold show ?thesis by (intro turn [of i]) simp_all
    next
      case out
      from find_run_out [OF out(2) pe1] i1 have "\<not> free_run pm pe p ?n" if "unat i \<le> p" for p
        using that by (auto simp: free_run_def)
      then show ?thesis using out ile unfold by (auto intro: first_fit_none)
    next
      case (brk j)
      from find_run_used [OF brk(2) pe1] obtain x where "j = x + 1" "x \<le> pe" "pm x = PAGE_USED"
        "unat (i + 1) \<le> unat x" "unat x < unat (i + 1) + ?n" by blast
      then show ?thesis using i1 brk ile unfold by (intro turn [of x]) simp_all
    next
      case ok
      moreover have "i \<noteq> 0" using ok used0 by auto
      ultimately have "first_fit pm pe ?n (2 ^ k) (unat i) i"
        using less.prems free_run_start [OF ok(2) ile pe1 ok(1)] by (simp add: first_fit_def)
      then show ?thesis using ok ile unfold by auto
    qed
  qed
qed

section \<open>Invariant and allocation\<close>

definition bootmm_wf :: "bootmm_sys \<Rightarrow> bool" where
  "bootmm_wf mm \<longleftrightarrow>
     0 < page_num mm \<and> page_num mm \<le> MACHINE_PAGE_NUM \<and> page_map mm 0 = PAGE_USED \<and>
     last_alloc_end mm < page_num mm \<and> info_cnt mm \<le> MAX_MMINFO_NUM"

definition same_pages :: "bootmm_sys \<Rightarrow> bootmm_sys \<Rightarrow> bool" where
  "same_pages mm mm' \<longleftrightarrow>
     page_map mm' = page_map mm \<and> page_num mm' = page_num mm \<and>
     last_alloc_end mm' = last_alloc_end mm \<and> phymm_size mm' = phymm_size mm"

lemma word_pred_le: "0 < x \<Longrightarrow> x - 1 \<le> x" for x :: u32
  using unat_minus_one [of x] by (simp add: word_le_nat_alt word_neq_0_conv)

lemma delete_frame:
  "same_pages mm (fst (delete_bootmm_info mm i)) \<and> info_cnt (fst (delete_bootmm_info mm i)) \<le> info_cnt mm"
proof (cases "i < info_cnt mm")
  case True
  then have "0 < info_cnt mm" by (rule le_less_trans [OF word_zero_le])
  then show ?thesis using True
    by (simp add: delete_bootmm_info_def same_pages_def word_pred_le)
qed (simp add: delete_bootmm_info_def same_pages_def not_less)

lemma insert_loop_frame:
  "same_pages mm (fst (insert_loop mm start len type i)) \<and>
   info_cnt (fst (insert_loop mm start len type i)) \<le> info_cnt mm"
proof (induction mm start len type i rule: insert_loop.induct)
  case (1 mm start len type i)
  show ?case
  proof (cases "i < info_cnt mm")
    case True
    let ?mm = "mm\<lparr>info := (info mm)(i := info mm i\<lparr>info_length := info_length (info mm i) +
      (len + info_length (info mm (i + 1)))\<rparr>)\<rparr>"
    show ?thesis
      using 1 [of "info mm i"] True delete_frame [of ?mm "i + 1"]
      by (subst (1 2) insert_loop.simps) (auto simp: Let_def same_pages_def)
  qed (simp add: insert_loop.simps same_pages_def)
qed

lemma insert_bootmm_info_total:
  assumes "info_cnt mm \<le> MAX_MMINFO_NUM"
  obtains mm' ret where "insert_bootmm_info mm start len type = Some (mm', ret)"
    "same_pages mm mm'" "info_cnt mm' \<le> MAX_MMINFO_NUM"
proof -
  obtain m r where il: "insert_loop mm start len type 0 = (m, r)" by force
  with insert_loop_frame [of mm start len type 0] have m: "same_pages mm m" "info_cnt m \<le> MAX_MMINFO_NUM"
    using assms by auto
  show thesis
  proof (cases "r \<noteq> 0 \<or> info_cnt m = MAX_MMINFO_NUM")
    case True
    then have "insert_bootmm_info mm start len type = Some (m, r)"
      using il by (auto simp: insert_bootmm_info_def)
    then show thesis using m by (rule that)
  next
    case False
    then have "info_cnt m < MAX_MMINFO_NUM" "info_cnt m + 1 \<le> MAX_MMINFO_NUM"
      using m(2) by (auto simp: inc_le)
    then show thesis using il m that False
      by (auto simp: insert_bootmm_info_def set_bootmm_info_def same_pages_def Let_def)
  qed
qed

lemma find_pages_first_fit:
  assumes wf: "bootmm_wf mm" and start: "s \<le> page_num mm" and k: "k < 20"
    and al: "al = 2 ^ k \<or> al = 0 \<and> k = 0"
  shows "\<exists>r. find_pages mm cnt s e al = Some r \<and>
    first_fit (page_map mm) (min (page_num mm - 1) e) (unat (cnt - 1)) (2 ^ k) (unat s) r"
proof -
  have pn: "unat (page_num mm) \<le> 131072" "0 < page_num mm"
    using wf by (simp_all add: bootmm_wf_def word_le_nat_alt os_const)
  then have "unat (page_num mm - 1) < 131072"
    using unat_minus_one [of "page_num mm"] word_neq_0_conv [of "page_num mm"]
      word_less_nat_alt [of 0 "page_num mm"] by simp
  then have pe: "unat (min (page_num mm - 1) e) < 131072"
    by (auto simp: min_def word_le_nat_alt)
  have k2: "(2::nat) ^ k \<le> 2 ^ 20" using k by (intro power_increasing) auto
  have s: "unat s \<le> 131072" using start pn(1) by (simp add: word_le_nat_alt)
  have u: "unat (upper_align s (2 ^ k)) = round_up (2 ^ k) (unat s)"
    using k k2 s by (intro unat_upper_align_round) auto
  have "\<exists>r. find_loop (page_map mm) cnt (min (page_num mm - 1) e) (2 ^ k) (upper_align s (2 ^ k)) = Some r \<and>
     first_fit (page_map mm) (min (page_num mm - 1) e) (unat (cnt - 1)) (2 ^ k) (unat (upper_align s (2 ^ k))) r"
    using wf pe k k2 u
    by (intro find_loop_first_fit) (auto simp: bootmm_wf_def round_up_dvd)
  then obtain r where r: "find_loop (page_map mm) cnt (min (page_num mm - 1) e) (2 ^ k) (upper_align s (2 ^ k)) = Some r"
    "first_fit (page_map mm) (min (page_num mm - 1) e) (unat (cnt - 1)) (2 ^ k) (round_up (2 ^ k) (unat s)) r"
    unfolding u by blast
  have "first_fit (page_map mm) (min (page_num mm - 1) e) (unat (cnt - 1)) (2 ^ k) (unat s) r"
    using r(2) by (rule first_fit_mono) (simp_all add: round_up_ge round_up_least)
  moreover have "(if al = 0 then 1 else al) = 2 ^ k" using al k by auto
  ultimately show ?thesis using r(1) by (simp add: find_pages_def Let_def)
qed

text \<open>Number of page frames for \<open>sz\<close> bytes, as \<open>bootmm_alloc_page\<close> and \<open>alloc_pages\<close> compute it.\<close>

lemma unat_page_cnt:
  "unat (drop_bit PAGE_SHIFT (upper_align sz (push_bit PAGE_SHIFT 1))) =
     (if unat sz \<le> 2 ^ 32 - 2 ^ 12 then (unat sz + 4095) div 4096 else 0)"
proof -
  have p: "push_bit PAGE_SHIFT 1 = (2 :: u32) ^ 12" by (simp add: os_const)
  show ?thesis
  proof (cases "unat sz \<le> 2 ^ 32 - 2 ^ 12")
    case True
    then have "unat (upper_align sz (2 ^ 12)) = round_up (2 ^ 12) (unat sz)"
      by (intro unat_upper_align_round) simp_all
    then show ?thesis
      unfolding p unat_drop_bit_u32 PAGE_SHIFT_def using True by (simp add: round_up_def)
  next
    case False
    have "unat (sz + mask 12) = unat sz + 4095 - 2 ^ 32"
      using False unsigned_less [of sz, where ?'a = nat] unat_mask_u32 [of 12] by (simp add: unat_word_ariths mod_if)
    moreover have "unat sz + 4095 - 2 ^ 32 < 4096"
      using unsigned_less [of sz, where ?'a = nat] by simp
    ultimately have "unat (sz + mask 12) div 2 ^ 12 = 0" by simp
    then show ?thesis
      using False unfolding p
      unfolding upper_align_def two_power_minus_1 and_not_mask unat_drop_bit_u32 PAGE_SHIFT_def
        unat_push_drop by simp
  qed
qed

definition alloc_post :: "bootmm_sys \<Rightarrow> u32 \<Rightarrow> bootmm_sys \<Rightarrow> u32 \<Rightarrow> bool" where
  "alloc_post mm sz mm' addr \<longleftrightarrow>
     bootmm_wf mm' \<and> page_num mm' = page_num mm \<and>
     (if addr = 0 then page_map mm' = page_map mm
      else let p = unat addr div 4096; n = (unat sz + 4095) div 4096 in
        unat addr = 4096 * p \<and> 0 < n \<and> p + n \<le> unat (page_num mm) \<and>
        (\<forall>x. p \<le> unat x \<and> unat x < p + n \<longrightarrow> page_map mm x \<noteq> PAGE_USED) \<and>
        page_map mm' = (\<lambda>x. if p \<le> unat x \<and> unat x < p + n then PAGE_USED else page_map mm x))"

lemma alloc_post_found:
  assumes wf: "bootmm_wf mm" and sp: "same_pages mm m" "info_cnt m \<le> MAX_MMINFO_NUM"
    and fit: "free_run (page_map mm) pe (unat res) (unat (cnt - 1))" and pe: "pe \<le> page_num mm - 1"
    and cnt: "cnt = drop_bit PAGE_SHIFT (upper_align sz (push_bit PAGE_SHIFT 1))" and res: "res \<noteq> 0"
  shows "alloc_post mm sz (m\<lparr>last_alloc_end := res + cnt - 1,
     page_map := kernel_memset (page_map m) res PAGE_USED cnt\<rparr>) (push_bit PAGE_SHIFT res)"
proof -
  have pn: "unat (page_num mm) \<le> 131072" "0 < page_num mm"
    using wf by (simp_all add: bootmm_wf_def word_le_nat_alt os_const)
  then have "unat (page_num mm - 1) = unat (page_num mm) - 1" "0 < unat (page_num mm)"
    using unat_minus_one [of "page_num mm"] word_neq_0_conv [of "page_num mm"]
      word_less_nat_alt [of 0 "page_num mm"] by simp_all
  then have "unat pe < unat (page_num mm)" using pe by (simp add: word_le_nat_alt)
  with fit have bound: "unat res + unat (cnt - 1) < unat (page_num mm)"
    by (simp add: free_run_def)
  have cnt0: "cnt \<noteq> 0"
  proof
    assume "cnt = 0"
    then have "unat (cnt - 1) = 2 ^ 32 - 1" by (simp add: unat_minus_1_u32)
    with bound pn show False by simp
  qed
  then have c1: "unat (cnt - 1) = unat cnt - 1" "0 < unat cnt"
    using unat_minus_one [of cnt] by (simp_all add: unat_gt_0)
  have n: "unat cnt = (unat sz + 4095) div 4096"
    using cnt0 unat_page_cnt [of sz] unfolding cnt [symmetric] by (auto split: if_splits simp: unat_eq_0)
  have r12: "unat (push_bit PAGE_SHIFT res) = 4096 * unat res"
    using bound pn by (simp add: os_const push_bit_eq_mult unat_word_ariths)
  then have ne: "push_bit PAGE_SHIFT res \<noteq> 0" using res by (metis mult_eq_0_iff unat_eq_0 zero_neq_numeral)
  have ms: "kernel_memset (page_map m) res PAGE_USED cnt =
      (\<lambda>x. if unat res \<le> unat x \<and> unat x < unat res + unat cnt then PAGE_USED else page_map mm x)"
    using bound c1 pn sp by (subst kernel_memset_eq) (auto simp: same_pages_def)
  have rc: "unat res + unat cnt \<le> unat (page_num mm)" using bound c1 by linarith
  have "unat (res + cnt - 1) = unat res + unat cnt - 1"
  proof -
    have "unat (res + (cnt - 1)) = unat res + unat (cnt - 1)"
      using bound pn by (simp add: unat_word_ariths)
    then show ?thesis using c1 by (simp add: add_diff_eq)
  qed
  then have lae: "res + cnt - 1 < page_num mm" using rc c1 by (simp add: word_less_nat_alt)
  have "\<forall>x. unat res \<le> unat x \<and> unat x < unat res + unat cnt \<longrightarrow> page_map mm x \<noteq> PAGE_USED"
    using fit c1 by (auto simp: free_run_def)
  then show ?thesis
    using wf sp ms lae rc r12 ne c1(2) unfolding alloc_post_def bootmm_wf_def n [symmetric]
    by (simp add: same_pages_def n)
qed

lemma alloc_page_correct:
  assumes wf: "bootmm_wf mm" and k: "k < 20"
    and al: "drop_bit PAGE_SHIFT addr_align = 2 ^ k \<or> drop_bit PAGE_SHIFT addr_align = 0 \<and> k = 0"
  shows "\<exists>mm' addr. bootmm_alloc_page mm sz type addr_align = Some (mm', addr) \<and> alloc_post mm sz mm' addr"
proof -
  let ?cnt = "drop_bit PAGE_SHIFT (upper_align sz (push_bit PAGE_SHIFT 1))"
  let ?al = "drop_bit PAGE_SHIFT addr_align" and ?l = "last_alloc_end mm"
  have ll: "?l < page_num mm" using wf by (simp add: bootmm_wf_def)
  then have l1: "?l + 1 \<le> page_num mm" by (rule inc_le)
  obtain r where r: "find_pages mm ?cnt (?l + 1) (page_num mm - 1) ?al = Some r"
    "first_fit (page_map mm) (page_num mm - 1) (unat (?cnt - 1)) (2 ^ k) (unat (?l + 1)) r"
    using find_pages_first_fit [OF wf l1 k al, of ?cnt "page_num mm - 1"] by auto
  obtain r2 where r2: "find_pages mm ?cnt 0 ?l ?al = Some r2"
    "first_fit (page_map mm) (min (page_num mm - 1) ?l) (unat (?cnt - 1)) (2 ^ k) 0 r2"
    using find_pages_first_fit [OF wf word_zero_le k al, of ?cnt ?l] by auto
  define res where "res = (if r = 0 then r2 else r)"
  define pe where "pe = (if r = 0 then min (page_num mm - 1) ?l else page_num mm - 1)"
  have fit: "res \<noteq> 0 \<Longrightarrow> free_run (page_map mm) pe (unat res) (unat (?cnt - 1))" and pe: "pe \<le> page_num mm - 1"
    using r(2) r2(2) by (auto simp: res_def pe_def first_fit_def)
  have found: "(if r = 0 then find_pages mm ?cnt 0 ?l ?al else Some r) = Some res"
    using r2(1) by (simp add: res_def)
  obtain m ret where m: "insert_bootmm_info mm (push_bit PAGE_SHIFT res) sz type = Some (m, ret)"
    "same_pages mm m" "info_cnt m \<le> MAX_MMINFO_NUM"
    using insert_bootmm_info_total [of mm "push_bit PAGE_SHIFT res" sz type] wf by (auto simp: bootmm_wf_def)
  have run: "bootmm_alloc_page mm sz type addr_align =
      (if res \<noteq> 0
       then if ret > 0
         then Some (m\<lparr>last_alloc_end := res + ?cnt - 1,
                page_map := kernel_memset (page_map m) res PAGE_USED ?cnt\<rparr>, push_bit PAGE_SHIFT res)
         else Some (m, push_bit PAGE_SHIFT 0)
       else Some (mm, push_bit PAGE_SHIFT res))"
    by (simp only: bootmm_alloc_page_def Let_def r(1) found m(1) option.case prod.case)
  have same: "alloc_post mm sz mm (push_bit PAGE_SHIFT 0)" "alloc_post mm sz m (push_bit PAGE_SHIFT 0)"
    using wf m(2,3) by (simp_all add: alloc_post_def bootmm_wf_def same_pages_def)
  show ?thesis
    using run same alloc_post_found [OF wf m(2,3) fit pe refl] by (cases "res = 0"; cases "ret > 0") auto
qed

lemma init_bootmm_eq:
  "init_bootmm = Some \<lparr>phymm_size = 0x20000000, page_num = 0x20000,
     page_map = (\<lambda>x. if unat x < 4096 then PAGE_USED else PAGE_FREE), last_alloc_end = 0, info_cnt = 1,
     info = (\<lambda>_. zero_info)(0 := \<lparr>start_addr = 0, info_length = 0x1000000, info_type = 0\<rparr>)\<rparr>"
  by (simp add: init_bootmm_def Let_def insert_bootmm_info_def insert_loop.simps set_bootmm_info_def
      get_phymm_size_def kernel_memset_eq os_const fun_eq_iff)


section \<open>Properties\<close>

text \<open>
  \<open>find_pages\<close> ends and is first fit: it returns the lowest aligned frame from
  \<open>s\<close> on that starts a run of frames not in use, and 0 only when there is none.
\<close>

theorem find_pages_is_first_fit:
  assumes "bootmm_wf mm" and "s \<le> page_num mm" and "k < 20" and "al = 2 ^ k"
  shows "\<exists>r. find_pages mm cnt s e al = Some r \<and>
    first_fit (page_map mm) (min (page_num mm - 1) e) (unat (cnt - 1)) (2 ^ k) (unat s) r"
  using assms by (intro find_pages_first_fit) auto

definition boot8 :: bootmm_sys where
  "boot8 = \<lparr>phymm_size = 0x8000, page_num = 8, page_map = (\<lambda>x. if x \<in> {0, 3} then PAGE_USED else PAGE_FREE),
     last_alloc_end = 0, info_cnt = 1,
     info = (\<lambda>_. zero_info)(0 := \<lparr>start_addr = 0x3000, info_length = 0x1000, info_type = 0\<rparr>)\<rparr>"

lemma boot8_wf: "bootmm_wf boot8"
  by (simp add: bootmm_wf_def boot8_def os_const)

theorem find_pages_is_first_fit_witness:
  "find_pages boot8 3 1 7 2 = Some 4 \<and>
   first_fit (page_map boot8) (min (page_num boot8 - 1) 7) (unat (3 - 1 :: u32)) (2 ^ 1) (unat (1 :: u32)) 4"
proof -
  have "find_pages boot8 3 1 7 2 = Some 4" by code_simp
  then show ?thesis
    using find_pages_is_first_fit [OF boot8_wf, of 1 1 2 3 7] by (simp add: boot8_def)
qed

text \<open>
  C7.  \<open>bootmm_alloc_page\<close> ends, keeps the allocator well formed, and returns either the null
  address with no frame changed or the address of a run of frames that were all not in use; these
  frames and no others become used.
\<close>

theorem bootmm_alloc_page_correct:
  assumes "bootmm_wf mm" and "k < 20" and "drop_bit PAGE_SHIFT addr_align = 2 ^ k"
  shows "\<exists>mm' addr. bootmm_alloc_page mm sz type addr_align = Some (mm', addr) \<and> alloc_post mm sz mm' addr"
  using assms by (intro alloc_page_correct) auto

theorem bootmm_alloc_page_correct_witness:
  "\<exists>mm' addr. bootmm_alloc_page boot8 0x1800 0 0x2000 = Some (mm', addr) \<and> alloc_post boot8 0x1800 mm' addr"
  by (rule bootmm_alloc_page_correct [OF boot8_wf, of 1]) (simp_all add: os_const)

text \<open>
  A region that ends where a recorded region of its type starts is not merged with it, and a
  region whose end happens to equal the \<^emph>\<open>length\<close> of a record takes this record over, which then no
  longer covers the memory it stood for: \<open>insert_bootmm_info\<close> compares the end of the new
  region with \<open>length\<close> in place of \<open>start_addr\<close>.
\<close>

theorem insert_bootmm_info_front:
  "map_option (\<lambda>(m, r). (r, info_cnt m, info m 0, info m 1)) (insert_bootmm_info boot8 0x2000 0x1000 0) =
     Some (4, 2, \<lparr>start_addr = 0x3000, info_length = 0x1000, info_type = 0\<rparr>,
       \<lparr>start_addr = 0x2000, info_length = 0x1000, info_type = 0\<rparr>) \<and>
   map_option (\<lambda>(m, r). (r, info_cnt m, info m 0)) (insert_bootmm_info boot8 0 0x1000 0) =
     Some (3, 1, \<lparr>start_addr = 0, info_length = 0x2000, info_type = 0\<rparr>)"
  by (intro conjI; code_simp)

end
