(* ===== verification/Buddy.thy ===== *)
theory Buddy
  imports Bootmm Linked_List
begin

text \<open>
  The buddy page allocator, \<^verbatim>\<open>src/kernel/mm/buddy.c\<close>, \<^verbatim>\<open>src/kernel/mm/buddy.h\<close> and
  \<^verbatim>\<open>src/include/ouros/buddy.h\<close>.  A \<^verbatim>\<open>struct page *\<close> is the index of the page in
  \<^verbatim>\<open>all_pages\<close> (a natural number below \<open>2 ^ 20\<close>, the number \<open>get_pgn\<close>
  computes); the \<^verbatim>\<open>list\<close> member of every page and the \<^verbatim>\<open>freelist\<close> heads are nodes of
  one link store \<open>links\<close>, shared with the slab allocator and the page-fault handler, which
  put the same \<^verbatim>\<open>list\<close> members on lists of their own.
\<close>

section \<open>Data\<close>

definition MAX_BUDDY_ORDER :: nat where "MAX_BUDDY_ORDER = 4"

lemmas buddy_consts [os_const] = MAX_BUDDY_ORDER_def

datatype buddy_page_info = BUDDY_FREE | BUDDY_SLAB | BUDDY_ALLOCED | BUDDY_RESERVED

text \<open>
  Every \<^verbatim>\<open>struct list_head\<close> of the memory-management code: the \<^verbatim>\<open>list\<close> member of
  page \<open>n\<close>, the free list of an order, the three lists of a slab cache, the two lists in
  the head of a slab page, the node behind a slab object, and the FIFO of an address space.
\<close>

datatype node =
    PageNode nat
  | FreeArea nat
  | CachePartial nat
  | CacheFull nat
  | CacheFree nat
  | SlabAlloc u32
  | SlabFree u32
  | ObjNode u32
  | Fifo u32

record page =
  used_info :: buddy_page_info
  virt :: u32
  bplevel :: nat
  cachep :: "nat option"

record buddy =
  all_pages :: u32
  pages :: "nat \<Rightarrow> page"
  start_pfn :: nat
  zone_page_num :: nat
  links :: "node lheap"

fun page_of :: "node \<Rightarrow> nat" where
  "page_of (PageNode p) = p"

definition pgn_is_in_zone :: "'z buddy_scheme \<Rightarrow> nat \<Rightarrow> bool" where
  "pgn_is_in_zone mm pgn \<longleftrightarrow> start_pfn mm \<le> pgn \<and> pgn < start_pfn mm + zone_page_num mm"

definition get_buddy_pgn :: "nat \<Rightarrow> nat \<Rightarrow> nat" where
  "get_buddy_pgn pgn level = pgn XOR push_bit level 1"

definition get_page_by_paddr :: "u32 \<Rightarrow> nat" where
  "get_page_by_paddr page_paddr = unat (drop_bit PAGE_SHIFT page_paddr)"

definition get_page_paddr :: "nat \<Rightarrow> u32" where
  "get_page_paddr pgn = push_bit PAGE_SHIFT (of_nat pgn)"

definition upd_page :: "nat \<Rightarrow> (page \<Rightarrow> page) \<Rightarrow> 'z buddy_scheme \<Rightarrow> 'z buddy_scheme" where
  "upd_page p g mm = mm\<lparr>pages := (pages mm)(p := g (pages mm p))\<rparr>"

section \<open>Freeing\<close>

function merge_loop :: "'z buddy_scheme \<Rightarrow> nat \<Rightarrow> nat \<Rightarrow> 'z buddy_scheme \<times> nat \<times> nat" where
  "merge_loop mm this_pgn level =
     (if level < MAX_BUDDY_ORDER
      then let buddy_pgn = get_buddy_pgn this_pgn level; buddy_page = pages mm buddy_pgn in
        if level \<noteq> bplevel buddy_page \<or> used_info buddy_page \<noteq> BUDDY_FREE
        then (mm, this_pgn, level)
        else merge_loop (mm\<lparr>links := list_del_init (PageNode buddy_pgn) (links mm)\<rparr>)
               (this_pgn AND buddy_pgn) (level + 1)
      else (mm, this_pgn, level))"
  by pat_completeness auto
termination
  by (relation "measure (\<lambda>(mm, p, k). MAX_BUDDY_ORDER - k)") auto

declare merge_loop.simps [simp del]

definition free_pages_raw :: "'z buddy_scheme \<Rightarrow> nat \<Rightarrow> 'z buddy_scheme" where
  "free_pages_raw mm page =
     (if \<not> pgn_is_in_zone mm page then mm
      else if used_info (pages mm page) = BUDDY_FREE then mm
      else let (mm, this_pgn, level) = merge_loop mm page (bplevel (pages mm page));
               mm = upd_page this_pgn (\<lambda>p. p\<lparr>bplevel := level, used_info := BUDDY_FREE\<rparr>) mm
           in mm\<lparr>links := list_add_tail (PageNode this_pgn) (FreeArea level) (links mm)\<rparr>)"

definition free_pages :: "'z buddy_scheme \<Rightarrow> u32 \<Rightarrow> 'z buddy_scheme" where
  "free_pages mm addr =
     (if get_low_bits addr 12 = 0 then free_pages_raw mm (get_page_by_paddr addr) else mm)"

section \<open>Allocating\<close>

function find_level :: "'z buddy_scheme \<Rightarrow> nat \<Rightarrow> nat option" where
  "find_level mm i =
     (if i \<le> MAX_BUDDY_ORDER
      then if \<not> list_empty (FreeArea i) (links mm) then Some i else find_level mm (i + 1)
      else None)"
  by pat_completeness auto
termination
  by (relation "measure (\<lambda>(mm, i). Suc MAX_BUDDY_ORDER - i)") auto

declare find_level.simps [simp del]

fun split_loop :: "'z buddy_scheme \<Rightarrow> nat \<Rightarrow> nat \<Rightarrow> nat \<Rightarrow> 'z buddy_scheme" where
  "split_loop mm free_pgn level free_level =
     (if free_level > level
      then let free_level = free_level - 1;
               idx = get_buddy_pgn free_pgn free_level;
               mm = upd_page idx (\<lambda>p. p\<lparr>bplevel := free_level, used_info := BUDDY_FREE\<rparr>) mm;
               mm = mm\<lparr>links := list_add_tail (PageNode idx) (FreeArea free_level) (links mm)\<rparr>
           in split_loop mm free_pgn level free_level
      else mm)"

declare split_loop.simps [simp del]

definition alloc_pages_raw :: "'z buddy_scheme \<Rightarrow> nat \<Rightarrow> buddy_page_info \<Rightarrow> 'z buddy_scheme \<times> nat option" where
  "alloc_pages_raw mm level type =
     (if level > MAX_BUDDY_ORDER then (mm, None)
      else case find_level mm level of
        None \<Rightarrow> (mm, None)
      | Some free_level \<Rightarrow>
          let free_node = prev (links mm) (FreeArea free_level);
              free_pgn = page_of free_node;
              mm = mm\<lparr>links := list_del_init free_node (links mm)\<rparr>;
              mm = split_loop mm free_pgn level free_level;
              mm = upd_page free_pgn
                (\<lambda>p. p\<lparr>bplevel := level, used_info := type, virt := 0, cachep := None\<rparr>) mm
          in (mm, Some free_pgn))"

text \<open>
  The order for a number of pages: \<open>n\<close> starts at 1 and doubles, so the test
  \<open>0 < n\<close>, which the source does not make, always holds.
\<close>

function level_loop :: "nat \<Rightarrow> nat \<Rightarrow> nat \<Rightarrow> nat" where
  "level_loop n level pnum =
     (if 0 < n \<and> n < pnum then level_loop (n * 2) (level + 1) pnum else level)"
  by pat_completeness auto
termination
  by (relation "measure (\<lambda>(n, level, pnum). pnum - n)") auto

declare level_loop.simps [simp del]

definition alloc_pages :: "'z buddy_scheme \<Rightarrow> u32 \<Rightarrow> 'z buddy_scheme \<times> u32" where
  "alloc_pages mm sz =
     (let pnum = unat (drop_bit PAGE_SHIFT (upper_align sz (push_bit PAGE_SHIFT 1)));
          level = level_loop 1 0 pnum
      in case alloc_pages_raw mm level BUDDY_ALLOCED of
           (mm, Some pagep) \<Rightarrow> (mm, get_page_paddr pagep)
         | (mm, None) \<Rightarrow> (mm, 0))"

definition alloc_one_page :: "'z buddy_scheme \<Rightarrow> 'z buddy_scheme \<times> u32" where
  "alloc_one_page mm = alloc_pages mm PAGE_SIZE"

section \<open>Initialisation and queries\<close>

definition sizeof_page :: u32 where "sizeof_page = 24"

primrec init_pages_loop :: "nat \<Rightarrow> 'z buddy_scheme \<Rightarrow> 'z buddy_scheme" where
  "init_pages_loop 0 mm = mm"
| "init_pages_loop (Suc i) mm =
     (let mm = init_pages_loop i mm;
          mm = upd_page i (\<lambda>p. p\<lparr>bplevel := 0, used_info := BUDDY_RESERVED\<rparr>) mm
      in mm\<lparr>links := INIT_LIST_HEAD (PageNode i) (links mm)\<rparr>)"

primrec init_areas_loop :: "nat \<Rightarrow> 'z buddy_scheme \<Rightarrow> 'z buddy_scheme" where
  "init_areas_loop 0 mm = mm"
| "init_areas_loop (Suc i) mm =
     (let mm = init_areas_loop i mm in mm\<lparr>links := INIT_LIST_HEAD (FreeArea i) (links mm)\<rparr>)"

primrec init_free_loop :: "nat \<Rightarrow> 'z buddy_scheme \<Rightarrow> 'z buddy_scheme" where
  "init_free_loop 0 mm = mm"
| "init_free_loop (Suc i) mm =
     (let mm = init_free_loop i mm in free_pages_raw mm (start_pfn mm + i))"

text \<open>
  \<open>init_buddy\<close> takes the boot allocator and the uninitialised globals; it does not act
  on a failed boot allocation, as the source does not.
\<close>

definition init_buddy :: "bootmm_sys \<Rightarrow> 'z buddy_scheme \<Rightarrow> (bootmm_sys \<times> 'z buddy_scheme) option" where
  "init_buddy boot_mm mm =
     (case bootmm_alloc_page boot_mm (page_num boot_mm * sizeof_page) MMINFO_TYPE_KERNEL
             (push_bit PAGE_SHIFT 1) of
        None \<Rightarrow> None
      | Some (boot_mm, base_addr) \<Rightarrow>
          let mm = mm\<lparr>all_pages := get_kernel_vaddr base_addr\<rparr>;
              mm = init_pages_loop (unat (page_num boot_mm)) mm;
              reserved_bytes = start_addr (info boot_mm 0) + info_length (info boot_mm 0);
              reserved_pages = drop_bit PAGE_SHIFT (upper_align reserved_bytes (push_bit PAGE_SHIFT 1));
              start = upper_align reserved_pages (push_bit MAX_BUDDY_ORDER 1);
              num = lower_align (page_num boot_mm - start) (push_bit MAX_BUDDY_ORDER 1);
              mm = mm\<lparr>start_pfn := unat start, zone_page_num := unat num\<rparr>;
              mm = init_areas_loop (MAX_BUDDY_ORDER + 1) mm;
              mm = init_free_loop (zone_page_num mm) mm
          in Some (boot_mm, mm))"

function freelist_loop :: "'z buddy_scheme \<Rightarrow> nat \<Rightarrow> nat \<Rightarrow> bool option" where
  "freelist_loop mm page i =
     (if i < MAX_BUDDY_ORDER
      then (case list_contain_node (PageNode page) (FreeArea i) (links mm) of
              None \<Rightarrow> None
            | Some c \<Rightarrow> if \<not> c then Some False else freelist_loop mm page (i + 1))
      else Some True)"
  by pat_completeness auto
termination
  by (relation "measure (\<lambda>(mm, page, i). MAX_BUDDY_ORDER - i)") auto

declare freelist_loop.simps [simp del]

definition page_is_in_freelist :: "'z buddy_scheme \<Rightarrow> nat \<Rightarrow> bool option" where
  "page_is_in_freelist mm page =
     (if pgn_is_in_zone mm page then freelist_loop mm page 0 else Some True)"


section \<open>Buddies\<close>

lemma dvd_next_multiple: "(d::nat) dvd a \<Longrightarrow> d dvd b \<Longrightarrow> a < b \<Longrightarrow> a + d \<le> b"
  by (metis add_le_cancel_left dvd_diff_nat le_add_diff_inverse less_imp_le_nat
      dvd_imp_le zero_less_diff)

lemma xor_one_nat: "(m::nat) XOR Suc 0 = (if even m then Suc m else m - 1)"
  by (simp add: xor_Suc_0_eq)

lemma and_xor_one_nat: "(m::nat) AND (m XOR Suc 0) = (if even m then m else m - 1)"
proof -
  have "bit (m AND (m XOR Suc 0)) i = bit (2 * (m div 2)) i" for i
    by (cases i) (auto simp: bit_simps bit_double_iff bit_Suc_0_iff bit_0 even_and_iff even_xor_iff
        simp flip: bit_Suc)
  then have "m AND (m XOR Suc 0) = 2 * (m div 2)" by (rule bit_eqI)
  then show ?thesis by auto
qed

lemma buddy_cases:
  assumes "2 ^ k dvd p"
  obtains (low) "2 ^ Suc k dvd p" "get_buddy_pgn p k = p + 2 ^ k" "p AND get_buddy_pgn p k = p"
  | (high) q where "p = q + 2 ^ k" "2 ^ Suc k dvd q" "get_buddy_pgn p k = q" "p AND q = q"
proof -
  from assms obtain m where p: "p = push_bit k m"
    by (metis dvdE mult.commute push_bit_eq_mult)
  have b: "get_buddy_pgn p k = push_bit k (m XOR 1)"
    by (simp add: get_buddy_pgn_def p push_bit_xor)
  have a: "p AND get_buddy_pgn p k = push_bit k (if even m then m else m - 1)"
    unfolding b unfolding p push_bit_and [symmetric] One_nat_def and_xor_one_nat by simp
  show thesis
  proof (cases "even m")
    case True
    then show ?thesis
      using a b p
      by (intro low) (auto simp: xor_one_nat and_xor_one_nat push_bit_eq_mult)
  next
    case False
    then obtain n where "m = 2 * n + 1" by (auto elim: oddE)
    then show ?thesis
      using a b p
      by (intro high [of "push_bit k (2 * n)"])
        (auto simp: xor_one_nat and_xor_one_nat push_bit_eq_mult algebra_simps)
  qed
qed


definition blk :: "nat \<times> nat \<Rightarrow> nat set" where
  "blk b = {fst b ..< fst b + 2 ^ snd b}"

definition part :: "nat set \<Rightarrow> (nat \<times> nat) set \<Rightarrow> bool" where
  "part Z B \<longleftrightarrow> (\<Union>b\<in>B. blk b) = Z \<and> (\<forall>b\<in>B. \<forall>c\<in>B. b \<noteq> c \<longrightarrow> blk b \<inter> blk c = {})"

lemma blk_start [simp]: "p \<in> blk (p, k)"
  by (simp add: blk_def)

lemma blk_nonempty [simp]: "blk b \<noteq> {}"
  by (simp add: blk_def)

lemma blk_mono: "i \<le> j \<Longrightarrow> blk (p, i) \<subseteq> blk (p, j)"
  using power_increasing [of i j "2::nat"] by (auto simp: blk_def)

lemma part_owner: "part Z B \<Longrightarrow> x \<in> Z \<Longrightarrow> \<exists>b\<in>B. x \<in> blk b"
  by (auto simp: part_def)

lemma part_sub: "part Z B \<Longrightarrow> b \<in> B \<Longrightarrow> blk b \<subseteq> Z"
  by (auto simp: part_def)

lemma part_same: "part Z B \<Longrightarrow> b \<in> B \<Longrightarrow> c \<in> B \<Longrightarrow> x \<in> blk b \<Longrightarrow> x \<in> blk c \<Longrightarrow> b = c"
  unfolding part_def by (metis disjoint_iff)

lemma part_remove: "part Z B \<Longrightarrow> b \<in> B \<Longrightarrow> part (Z - blk b) (B - {b})"
  unfolding part_def by (simp, blast)

lemma part_insert: "part (Z - blk b) B \<Longrightarrow> blk b \<subseteq> Z \<Longrightarrow> part Z (insert b B)"
  unfolding part_def by (simp, blast)

lemma part_notin: "part (Z - blk b) B \<Longrightarrow> b \<notin> B"
  using part_sub [of "Z - blk b" B b] blk_nonempty [of b] by blast

lemma blk_nested:
  assumes "2 ^ i dvd p" and "2 ^ j dvd q" and "i \<le> j" and "blk (p, i) \<inter> blk (q, j) \<noteq> {}"
  shows "blk (p, i) \<subseteq> blk (q, j)"
proof -
  have d: "(2::nat) ^ i dvd q" "(2::nat) ^ i dvd q + 2 ^ j"
    using assms(2,3) by (meson dvd_add dvd_trans le_imp_power_dvd)+
  have "p < q + 2 ^ j" "q < p + 2 ^ i" using assms(4) by (auto simp: blk_def)
  then have "p + 2 ^ i \<le> q + 2 ^ j" "q \<le> p"
    using dvd_next_multiple [OF assms(1) d(2)] dvd_next_multiple [OF assms(1) d(1)] by force+
  then show ?thesis by (auto simp: blk_def)
qed

lemma blk_nestedI:
  "2 ^ i dvd p \<Longrightarrow> 2 ^ j dvd q \<Longrightarrow> i \<le> j \<Longrightarrow> x \<in> blk (p, i) \<Longrightarrow> x \<in> blk (q, j) \<Longrightarrow>
    blk (p, i) \<subseteq> blk (q, j)"
  by (rule blk_nested) auto

text \<open>The halves of a block are its buddies, and a buddy pair is a block of the next order.\<close>

lemma blk_split: "blk (p, Suc k) = blk (p, k) \<union> blk (p + 2 ^ k, k)" "blk (p, k) \<inter> blk (p + 2 ^ k, k) = {}"
  by (auto simp: blk_def)

lemma blk_merge:
  assumes "2 ^ k dvd p"
  shows "blk (p AND get_buddy_pgn p k, Suc k) = blk (p, k) \<union> blk (get_buddy_pgn p k, k)"
    and "blk (p, k) \<inter> blk (get_buddy_pgn p k, k) = {}"
    and "2 ^ Suc k dvd p AND get_buddy_pgn p k"
    and "2 ^ k dvd get_buddy_pgn p k"
    and "p AND get_buddy_pgn p k \<in> {p, get_buddy_pgn p k}"
proof -
  have *: "2 ^ k dvd q" if "2 ^ Suc k dvd q" for q :: nat
    using that by (meson dvd_trans le_imp_power_dvd le_SucI le_refl)
  let ?q = "get_buddy_pgn p k"
  have "blk (p AND ?q, Suc k) = blk (p, k) \<union> blk (?q, k) \<and> blk (p, k) \<inter> blk (?q, k) = {} \<and>
      2 ^ Suc k dvd p AND ?q \<and> 2 ^ k dvd ?q \<and> p AND ?q \<in> {p, ?q}"
    using assms
  proof (cases rule: buddy_cases)
    case low
    with assms show ?thesis by (simp only: blk_split) (simp add: dvd_add)
  next
    case (high q)
    then show ?thesis
      using * [of q] by (simp only: blk_split) (auto simp: blk_def)
  qed
  then show "blk (p AND ?q, Suc k) = blk (p, k) \<union> blk (?q, k)" "blk (p, k) \<inter> blk (?q, k) = {}"
    "2 ^ Suc k dvd p AND ?q" "2 ^ k dvd ?q" "p AND ?q \<in> {p, ?q}"
    by simp_all
qed

lemma buddy_involution:
  "get_buddy_pgn (get_buddy_pgn p k) k = p"
  by (simp add: get_buddy_pgn_def xor.assoc)

definition zone_ok :: "'z buddy_scheme \<Rightarrow> bool" where
  "zone_ok s \<longleftrightarrow> 2 ^ MAX_BUDDY_ORDER dvd start_pfn s \<and> 2 ^ MAX_BUDDY_ORDER dvd zone_page_num s"

definition zone :: "'z buddy_scheme \<Rightarrow> nat set" where
  "zone s = {start_pfn s ..< start_pfn s + zone_page_num s}"

lemma buddy_in_zone:
  assumes z: "zone_ok s" and p: "p \<in> zone s" "2 ^ k dvd p" "k < MAX_BUDDY_ORDER"
  shows "blk (p AND get_buddy_pgn p k, Suc k) \<subseteq> zone s"
proof -
  let ?d = "2 ^ Suc k :: nat" and ?m = "p AND get_buddy_pgn p k"
  have d: "?d dvd start_pfn s" "?d dvd start_pfn s + zone_page_num s"
    using z p(3) unfolding zone_ok_def by (meson Suc_leI dvd_add power_le_dvd)+
  have m: "?d dvd ?m" by (rule blk_merge(3) [OF p(2)])
  have pm: "?m \<le> p" "p < ?m + ?d"
    using blk_merge(1) [OF p(2)] blk_start [of p k] unfolding blk_def by auto
  have "start_pfn s \<le> ?m"
    using dvd_next_multiple [OF m d(1)] pm p(1) by (force simp: zone_def)
  moreover have "?m + ?d \<le> start_pfn s + zone_page_num s"
    using dvd_next_multiple [OF m d(2)] pm p(1) by (simp add: zone_def)
  ultimately show ?thesis by (auto simp: blk_def zone_def)
qed


section \<open>The invariant\<close>

text \<open>
  \<open>B\<close> is the set of blocks (first page, order) the zone is cut into: a ghost that the
  code does not store.  \<open>bcore Z s H f B\<close> says that \<open>B\<close> cuts up the pages \<open>Z\<close>
  into aligned blocks whose order is in the first page, and that the free lists hold exactly the
  first pages of the free blocks of their order.  \<open>H\<close> and \<open>f\<close> are the list heads and
  their contents; a page on any list is the first page of a block.
\<close>

definition bcore ::
    "nat set \<Rightarrow> 'z buddy_scheme \<Rightarrow> node set \<Rightarrow> (node \<Rightarrow> node list) \<Rightarrow> (nat \<times> nat) set \<Rightarrow> bool" where
  "bcore Z s H f B \<longleftrightarrow>
     zone_ok s \<and> Z \<subseteq> zone s \<and> part Z B \<and>
     (\<forall>p k. (p, k) \<in> B \<longrightarrow> k \<le> MAX_BUDDY_ORDER \<and> 2 ^ k dvd p \<and> bplevel (pages s p) = k) \<and>
     family dll (links s) H f \<and> FreeArea ` {..MAX_BUDDY_ORDER} \<subseteq> H \<and> H \<inter> range PageNode = {} \<and>
     (\<forall>k\<le>MAX_BUDDY_ORDER. set (f (FreeArea k)) =
        PageNode ` {p. (p, k) \<in> B \<and> used_info (pages s p) = BUDDY_FREE}) \<and>
     (\<forall>l\<in>H. \<forall>x. PageNode x \<in> set (f l) \<longrightarrow> (\<exists>k. (x, k) \<in> B))"

text \<open>The allocator between two operations, and while it holds one block in its hands.\<close>

definition buddy_inv ::
    "'z buddy_scheme \<Rightarrow> node set \<Rightarrow> (node \<Rightarrow> node list) \<Rightarrow> (nat \<times> nat) set \<Rightarrow> bool" where
  "buddy_inv s H f B \<longleftrightarrow> bcore (zone s) s H f B"

definition hand ::
    "'z buddy_scheme \<Rightarrow> node set \<Rightarrow> (node \<Rightarrow> node list) \<Rightarrow> (nat \<times> nat) set \<Rightarrow> nat \<Rightarrow> nat \<Rightarrow> bool" where
  "hand s H f B p k \<longleftrightarrow> bcore (zone s - blk (p, k)) s H f B \<and> blk (p, k) \<subseteq> zone s \<and>
     k \<le> MAX_BUDDY_ORDER \<and> 2 ^ k dvd p"

definition unlisted :: "node \<Rightarrow> node set \<Rightarrow> (node \<Rightarrow> node list) \<Rightarrow> bool" where
  "unlisted n H f \<longleftrightarrow> (\<forall>l\<in>H. n \<notin> set (f l))"

definition allocd :: "'z buddy_scheme \<Rightarrow> (nat \<times> nat) set \<Rightarrow> (nat \<times> nat) set" where
  "allocd s B = {b \<in> B. used_info (pages s (fst b)) \<noteq> BUDDY_FREE}"

definition same_lists :: "(node \<Rightarrow> node list) \<Rightarrow> (node \<Rightarrow> node list) \<Rightarrow> bool" where
  "same_lists f g \<longleftrightarrow> (\<forall>l. l \<notin> range FreeArea \<longrightarrow> g l = f l)"

lemma zone_upd [simp]:
  "zone (s\<lparr>links := h\<rparr>) = zone s" "zone (upd_page p g s) = zone s"
  "zone_ok (s\<lparr>links := h\<rparr>) = zone_ok s" "zone_ok (upd_page p g s) = zone_ok s"
  by (simp_all add: zone_def zone_ok_def upd_page_def)

lemma upd_page_simps [simp]:
  "links (upd_page p g s) = links s" "start_pfn (upd_page p g s) = start_pfn s"
  "zone_page_num (upd_page p g s) = zone_page_num s"
  "pages (upd_page p g s) = (pages s)(p := g (pages s p))"
  by (simp_all add: upd_page_def)

lemma bcoreD:
  assumes "bcore Z s H f B"
  shows "zone_ok s" "part Z B" "family dll (links s) H f" "k \<le> MAX_BUDDY_ORDER \<Longrightarrow> FreeArea k \<in> H"
    "PageNode x \<notin> H" "Z \<subseteq> zone s"
    "(p, k) \<in> B \<Longrightarrow> k \<le> MAX_BUDDY_ORDER \<and> 2 ^ k dvd p \<and> bplevel (pages s p) = k"
    "k \<le> MAX_BUDDY_ORDER \<Longrightarrow> PageNode p \<in> set (f (FreeArea k)) \<longleftrightarrow>
       (p, k) \<in> B \<and> used_info (pages s p) = BUDDY_FREE"
    "k \<le> MAX_BUDDY_ORDER \<Longrightarrow> n \<in> set (f (FreeArea k)) \<Longrightarrow> n = PageNode (page_of n)"
    "l \<in> H \<Longrightarrow> PageNode x \<in> set (f l) \<Longrightarrow> \<exists>k. (x, k) \<in> B"
  using assms unfolding bcore_def by auto

lemma bcoreI:
  assumes "zone_ok s" "Z \<subseteq> zone s" "part Z B"
    "\<And>p k. (p, k) \<in> B \<Longrightarrow> k \<le> MAX_BUDDY_ORDER \<and> 2 ^ k dvd p \<and> bplevel (pages s p) = k"
    "family dll (links s) H f" "FreeArea ` {..MAX_BUDDY_ORDER} \<subseteq> H" "H \<inter> range PageNode = {}"
    "\<And>k. k \<le> MAX_BUDDY_ORDER \<Longrightarrow> set (f (FreeArea k)) =
        PageNode ` {p. (p, k) \<in> B \<and> used_info (pages s p) = BUDDY_FREE}"
    "\<And>l x. l \<in> H \<Longrightarrow> PageNode x \<in> set (f l) \<Longrightarrow> \<exists>k. (x, k) \<in> B"
  shows "bcore Z s H f B"
  unfolding bcore_def using assms by (intro conjI) blast+

lemma bcore_heads:
  "bcore Z s H f B \<Longrightarrow> FreeArea ` {..MAX_BUDDY_ORDER} \<subseteq> H \<and> H \<inter> range PageNode = {}"
  by (simp add: bcore_def)

lemma family_del_init:
  assumes "family dll h H f" and "l \<in> H" and "n \<in> set (f l)"
  shows "family dll (list_del_init n h) H (f(l := remove1 n (f l)))"
  unfolding list_del_init_def
  using kl.family_del [OF assms] kl.family_del_notin [OF assms] kl.family_head [OF assms(1,2)] assms(3)
  by (intro kl.family_init_frame) blast+

lemma hand_unlisted:
  assumes "hand s H f B p k" and "x \<in> blk (p, k)"
  shows "unlisted (PageNode x) H f" "x \<noteq> fst b \<or> b \<notin> B" "(x, j) \<notin> B"
proof -
  have *: "(x, j) \<notin> B" for j
    using assms part_sub [of "zone s - blk (p, k)" B "(x, j)"] blk_start [of x j] bcoreD(2)
    unfolding hand_def by blast
  then show "(x, j) \<notin> B" "x \<noteq> fst b \<or> b \<notin> B" by (metis, cases b, auto)
  show "unlisted (PageNode x) H f"
    using * assms bcoreD(10) unfolding hand_def unlisted_def by blast
qed

text \<open>Taking a listed block off its list, and dropping it after it was taken.\<close>

lemma take_free:
  assumes I: "bcore Z s H f B" and b: "(p, k) \<in> B" and u: "used_info (pages s p) = BUDDY_FREE"
  shows "bcore (Z - blk (p, k)) (s\<lparr>links := list_del_init (PageNode p) (links s)\<rparr>) H
    (f(FreeArea k := remove1 (PageNode p) (f (FreeArea k)))) (B - {(p, k)})"
proof -
  let ?f = "f(FreeArea k := remove1 (PageNode p) (f (FreeArea k)))"
  note D = bcoreD [OF I]
  have k: "k \<le> MAX_BUDDY_ORDER" and n: "PageNode p \<in> set (f (FreeArea k))"
    using D(7,8) b u by blast+
  have F: "family dll (list_del_init (PageNode p) (links s)) H ?f"
    using family_del_init [OF D(3) D(4) [OF k] n] .
  have dist: "distinct (f (FreeArea k))"
    using kl.family_distinct [OF D(3) D(4) [OF k]] by simp
  have out: "\<exists>j. (x, j) \<in> B - {(p, k)}" if "l \<in> H" "PageNode x \<in> set (?f l)" for l x
  proof -
    have "x \<noteq> p" using kl.family_del_notin [OF D(3) D(4) [OF k] n] that by blast
    moreover have "PageNode x \<in> set (f l)"
      using that set_remove1_subset by (cases "l = FreeArea k") fastforce+
    ultimately show ?thesis using D(10) that(1) by blast
  qed
  have lists: "set (?f (FreeArea j)) =
      PageNode ` {x. (x, j) \<in> B - {(p, k)} \<and> used_info (pages s x) = BUDDY_FREE}"
    if "j \<le> MAX_BUDDY_ORDER" for j
    using I that dist by (cases "j = k") (auto simp: bcore_def)
  show ?thesis
    using D(1,6,7) F out lists part_remove [OF D(2) b] bcore_heads [OF I] by (intro bcoreI) auto
qed

lemma drop_alloced:
  assumes I: "bcore Z s H f B" and b: "(p, k) \<in> B" and u: "used_info (pages s p) \<noteq> BUDDY_FREE"
    and n: "unlisted (PageNode p) H f"
  shows "bcore (Z - blk (p, k)) s H f (B - {(p, k)})"
proof -
  note D = bcoreD [OF I]
  have out: "\<exists>j. (x, j) \<in> B - {(p, k)}" if "l \<in> H" "PageNode x \<in> set (f l)" for l x
    using that n D(10) [OF that] by (auto simp: unlisted_def)
  have lists: "set (f (FreeArea j)) =
      PageNode ` {x. (x, j) \<in> B - {(p, k)} \<and> used_info (pages s x) = BUDDY_FREE}"
    if "j \<le> MAX_BUDDY_ORDER" for j
    using I that u by (auto simp: bcore_def)
  show ?thesis
    using D(1,3,6,7) out lists part_remove [OF D(2) b] bcore_heads [OF I] by (intro bcoreI) auto
qed


text \<open>Putting a block back, as a free one or as an allocated one.\<close>

lemma bcore_fresh:
  assumes "bcore (Z - blk (p, k)) s H f B"
  shows "(p, j) \<notin> B" "l \<in> H \<Longrightarrow> PageNode p \<notin> set (f l)"
proof -
  show *: "(p, j) \<notin> B" for j
    using part_sub [OF bcoreD(2) [OF assms], of "(p, j)"] blk_start [of p j] blk_start [of p k] by blast
  then show "PageNode p \<notin> set (f l)" if "l \<in> H"
    using bcoreD(10) [OF assms that] by blast
qed

lemma put_free:
  assumes I: "bcore (Z - blk (p, k)) s H f B" and Z: "blk (p, k) \<subseteq> Z" "Z \<subseteq> zone s"
    and k: "k \<le> MAX_BUDDY_ORDER" "2 ^ k dvd p"
    and s': "s' = (upd_page p (\<lambda>p. p\<lparr>bplevel := k, used_info := BUDDY_FREE\<rparr>) s)
      \<lparr>links := list_add_tail (PageNode p) (FreeArea k) (links s)\<rparr>"
  shows "bcore Z s' H (f(FreeArea k := f (FreeArea k) @ [PageNode p])) (insert (p, k) B)"
proof -
  let ?f = "f(FreeArea k := f (FreeArea k) @ [PageNode p])"
  note D = bcoreD [OF I] and new = bcore_fresh [OF I]
  have F: "family dll (links s') H ?f"
    using kl.family_add_tail [OF D(3) D(4) [OF k(1)] D(5)] new(2) by (simp add: s')
  have lists: "set (?f (FreeArea j)) =
      PageNode ` {x. (x, j) \<in> insert (p, k) B \<and> used_info (pages s' x) = BUDDY_FREE}"
    if "j \<le> MAX_BUDDY_ORDER" for j
    using I that new by (cases "j = k") (auto simp: bcore_def s')
  have out: "\<exists>j. (x, j) \<in> insert (p, k) B" if "l \<in> H" "PageNode x \<in> set (?f l)" for l x
    using that D(10) [of l x] by (cases "l = FreeArea k") auto
  show ?thesis
    using D(1,7) Z k F out lists part_insert [OF D(2) Z(1)] bcore_heads [OF I] new(1)
    by (intro bcoreI) (auto simp: s')
qed

lemma put_alloced:
  assumes I: "bcore (Z - blk (p, k)) s H f B" and Z: "blk (p, k) \<subseteq> Z" "Z \<subseteq> zone s"
    and k: "k \<le> MAX_BUDDY_ORDER" "2 ^ k dvd p"
    and g: "bplevel (g (pages s p)) = k" "used_info (g (pages s p)) \<noteq> BUDDY_FREE"
  shows "bcore Z (upd_page p g s) H f (insert (p, k) B)"
proof -
  note D = bcoreD [OF I] and new = bcore_fresh [OF I]
  have lists: "set (f (FreeArea j)) =
      PageNode ` {x. (x, j) \<in> insert (p, k) B \<and> used_info (pages (upd_page p g s) x) = BUDDY_FREE}"
    if "j \<le> MAX_BUDDY_ORDER" for j
    using I that new g by (auto simp: bcore_def)
  have out: "\<exists>j. (x, j) \<in> insert (p, k) B" if "l \<in> H" "PageNode x \<in> set (f l)" for l x
    using that D(10) [of l x] by auto
  show ?thesis
    using D(1,3,7) Z k g out lists part_insert [OF D(2) Z(1)] bcore_heads [OF I] new(1)
    by (intro bcoreI) auto
qed

section \<open>Freeing is correct\<close>

text \<open>The buddy of a block of order \<open>k\<close> is the first page of a block of order at most \<open>k\<close>.\<close>

lemma part_buddy:
  assumes z: "zone_ok s" and P: "part (zone s - blk (p, k)) B"
    and al: "\<And>r j. (r, j) \<in> B \<Longrightarrow> 2 ^ j dvd r"
    and p: "p \<in> zone s" "2 ^ k dvd p" and k: "k < MAX_BUDDY_ORDER"
  shows "\<exists>j\<le>k. (get_buddy_pgn p k, j) \<in> B"
proof -
  let ?q = "get_buddy_pgn p k" and ?m = "p AND get_buddy_pgn p k"
  note M = blk_merge [OF p(2)]
  have "?q \<in> zone s - blk (p, k)"
    using buddy_in_zone [OF z p k] M(1,2) blk_start [of ?q k] by blast
  then obtain r j where r: "(r, j) \<in> B" "?q \<in> blk (r, j)"
    using part_owner [OF P] by fastforce
  have "j \<le> k"
  proof (rule ccontr)
    assume "\<not> j \<le> k"
    then have "blk (?m, Suc k) \<subseteq> blk (r, j)"
      using M(1) r by (intro blk_nestedI [OF M(3) al [OF r(1)] _ _ r(2)]) auto
    then have "p \<in> blk (r, j)" using M(1) blk_start [of p k] by blast
    then show False using part_sub [OF P r(1)] blk_start [of p k] by blast
  qed
  then have "blk (r, j) \<subseteq> blk (?q, k)"
    by (rule blk_nestedI [OF al [OF r(1)] M(4) _ r(2) blk_start])
  then have "r = ?q" using r(2) blk_start [of r j] by (force simp: blk_def)
  then show ?thesis using r(1) \<open>j \<le> k\<close> by blast
qed

lemma buddy_block:
  assumes "hand s H f B p k" and k: "k < MAX_BUDDY_ORDER"
  shows "\<exists>j\<le>k. (get_buddy_pgn p k, j) \<in> B"
proof -
  from assms have I: "bcore (zone s - blk (p, k)) s H f B" and p: "p \<in> zone s" "2 ^ k dvd p"
    by (auto simp: hand_def blk_def)
  show ?thesis using bcoreD(7) [OF I] by (intro part_buddy [OF bcoreD(1,2) [OF I] _ p k]) blast
qed

lemma merge_step:
  assumes h: "hand s H f B p k" and k: "k < MAX_BUDDY_ORDER"
    and q: "(get_buddy_pgn p k, k) \<in> B" "used_info (pages s (get_buddy_pgn p k)) = BUDDY_FREE"
  shows "\<exists>f'. hand (s\<lparr>links := list_del_init (PageNode (get_buddy_pgn p k)) (links s)\<rparr>) H f'
      (B - {(get_buddy_pgn p k, k)}) (p AND get_buddy_pgn p k) (Suc k) \<and> same_lists f f'"
proof -
  from h have I: "bcore (zone s - blk (p, k)) s H f B" and p: "p \<in> zone s" "2 ^ k dvd p"
    by (auto simp: hand_def blk_def)
  note M = blk_merge [OF p(2)]
  have "zone s - blk (p, k) - blk (get_buddy_pgn p k, k) =
      zone s - blk (p AND get_buddy_pgn p k, Suc k)"
    using M(1) by blast
  then show ?thesis
    using take_free [OF I q] buddy_in_zone [OF bcoreD(1) [OF I] p k] M(3) k
    unfolding hand_def same_lists_def by (intro exI conjI) auto
qed


definition coalesced :: "'z buddy_scheme \<Rightarrow> (nat \<times> nat) set \<Rightarrow> bool" where
  "coalesced s B \<longleftrightarrow> (\<forall>p k. (p, k) \<in> B \<and> k < MAX_BUDDY_ORDER \<and> used_info (pages s p) = BUDDY_FREE \<longrightarrow>
     \<not> ((get_buddy_pgn p k, k) \<in> B \<and> used_info (pages s (get_buddy_pgn p k)) = BUDDY_FREE))"

lemma buddy_neq: "get_buddy_pgn p k \<noteq> p"
  by (metis get_buddy_pgn_def bit_xor_iff bit_push_bit_iff bit_1_0 diff_self_eq_0 le_refl possible_bit_def
      possible_bit_nat)

lemma coalesced_insert:
  assumes C: "coalesced s B" and B': "B' \<subseteq> B" and new: "p \<notin> fst ` B'"
    and nb: "k < MAX_BUDDY_ORDER \<Longrightarrow> used_info (pages t p) = BUDDY_FREE \<Longrightarrow>
       \<not> ((get_buddy_pgn p k, k) \<in> B' \<and> used_info (pages s (get_buddy_pgn p k)) = BUDDY_FREE)"
    and t: "\<And>x. x \<noteq> p \<Longrightarrow> pages t x = pages s x"
  shows "coalesced t (insert (p, k) B')"
  unfolding coalesced_def
proof (intro allI impI notI, elim conjE)
  fix x j
  assume x: "(x, j) \<in> insert (p, k) B'" "j < MAX_BUDDY_ORDER" "used_info (pages t x) = BUDDY_FREE"
    and y: "(get_buddy_pgn x j, j) \<in> insert (p, k) B'" "used_info (pages t (get_buddy_pgn x j)) = BUDDY_FREE"
  consider "(x, j) = (p, k)" | "x \<noteq> p" "get_buddy_pgn x j = p" "j = k" | "x \<noteq> p" "get_buddy_pgn x j \<noteq> p"
    using x(1) y(1) new by force
  then show False
  proof cases
    case 1
    then show False using nb x y t buddy_neq [of x j] by auto
  next
    case 2
    then have "get_buddy_pgn p k = x" using buddy_involution by metis
    then show False using nb x y t 2 by auto
  next
    case 3
    then show False using C B' x y t unfolding coalesced_def by (auto simp: subset_iff)
  qed
qed

lemma same_lists_refl [simp]: "same_lists f f"
  by (simp add: same_lists_def)

lemma same_lists_trans: "same_lists f g \<Longrightarrow> same_lists g h \<Longrightarrow> same_lists f h"
  by (simp add: same_lists_def)

lemma same_lists_upd [simp]: "same_lists f (f(FreeArea k := xs))"
  by (simp add: same_lists_def)

text \<open>What the merge loop leaves in the hand: a block with no free buddy.\<close>

lemma merge_loop_correct:
  assumes "hand s H f B p k"
  shows "\<exists>h f' B' p' k'. merge_loop s p k = (s\<lparr>links := h\<rparr>, p', k') \<and>
    hand (s\<lparr>links := h\<rparr>) H f' B' p' k' \<and> same_lists f f' \<and> B' \<subseteq> B \<and> allocd s B' = allocd s B \<and>
    (k' < MAX_BUDDY_ORDER \<longrightarrow> \<not> ((get_buddy_pgn p' k', k') \<in> B' \<and>
       used_info (pages s (get_buddy_pgn p' k')) = BUDDY_FREE))"
  using assms
proof (induction s p k arbitrary: f B rule: merge_loop.induct)
  case (1 s p k)
  let ?q = "get_buddy_pgn p k"
  show ?case
  proof (cases "k < MAX_BUDDY_ORDER \<and> k = bplevel (pages s ?q) \<and> used_info (pages s ?q) = BUDDY_FREE")
    case True
    obtain j where "(?q, j) \<in> B" using buddy_block [OF "1.prems"] True by blast
    then have q: "(?q, k) \<in> B"
      using "1.prems" True bcoreD(7) unfolding hand_def by metis
    let ?s = "s\<lparr>links := list_del_init (PageNode ?q) (links s)\<rparr>"
    obtain f1 where f1: "hand ?s H f1 (B - {(?q, k)}) (p AND ?q) (Suc k)" "same_lists f f1"
      using merge_step [OF "1.prems" _ q] True by blast
    have a: "allocd ?s (B - {(?q, k)}) = allocd s B" "\<And>B. allocd ?s B = allocd s B"
      using True by (auto simp: allocd_def)
    have eq: "merge_loop s p k = merge_loop ?s (p AND ?q) (Suc k)"
      using True by (subst merge_loop.simps) (simp add: Let_def)
    have "k < MAX_BUDDY_ORDER" "\<not> (k \<noteq> bplevel (pages s ?q) \<or> used_info (pages s ?q) \<noteq> BUDDY_FREE)"
      using True by auto
    note IH = "1.IH" [OF this(1) refl refl this(2)]
    obtain h f' B' p' k' where ih: "merge_loop ?s (p AND ?q) (Suc k) = (?s\<lparr>links := h\<rparr>, p', k')"
      "hand (?s\<lparr>links := h\<rparr>) H f' B' p' k'" "same_lists f1 f'" "B' \<subseteq> B - {(?q, k)}"
      "allocd ?s B' = allocd ?s (B - {(?q, k)})"
      "k' < MAX_BUDDY_ORDER \<longrightarrow> \<not> ((get_buddy_pgn p' k', k') \<in> B' \<and>
         used_info (pages ?s (get_buddy_pgn p' k')) = BUDDY_FREE)"
      using IH [of f1 "B - {(?q, k)}"] f1(1) by auto
    then show ?thesis
      unfolding eq using f1(2) a
      by (intro exI [of _ h] exI [of _ f'] exI [of _ B'] exI [of _ p'] exI [of _ k'])
        (auto intro: same_lists_trans)
  next
    case False
    then have eq: "merge_loop s p k = (s\<lparr>links := links s\<rparr>, p, k)"
      by (subst merge_loop.simps) (auto simp: Let_def)
    have "\<not> ((?q, k) \<in> B \<and> used_info (pages s ?q) = BUDDY_FREE)" if "k < MAX_BUDDY_ORDER"
      using False that "1.prems" bcoreD(7) unfolding hand_def by metis
    then show ?thesis
      using "1.prems" eq by (intro exI [of _ "links s"] exI [of _ f] exI [of _ B] exI [of _ p] exI [of _ k]) simp
  qed
qed


text \<open>
  The result of \<open>__free_pages\<close> on the first page of an allocated block that its owner has
  taken off its lists: the invariant, with this block and no other gone from the allocated ones.
\<close>

lemma free_pages_raw_correct:
  assumes I: "buddy_inv s H f B" and C: "coalesced s B"
    and b: "(p, k) \<in> B" and u: "used_info (pages s p) \<noteq> BUDDY_FREE" and n: "unlisted (PageNode p) H f"
  shows "\<exists>f' B' p' k' h. free_pages_raw s p =
      (upd_page p' (\<lambda>p. p\<lparr>bplevel := k', used_info := BUDDY_FREE\<rparr>) s)\<lparr>links := h\<rparr> \<and>
    buddy_inv (free_pages_raw s p) H f' B' \<and> coalesced (free_pages_raw s p) B' \<and>
    allocd (free_pages_raw s p) B' = allocd s B - {(p, k)} \<and> same_lists f f' \<and>
    p' \<notin> fst ` (allocd s B - {(p, k)})"
proof -
  note D = bcoreD [OF I [unfolded buddy_inv_def]]
  have z: "pgn_is_in_zone s p"
    using subsetD [OF part_sub [OF D(2) b] blk_start] by (simp add: zone_def pgn_is_in_zone_def)
  have h: "hand s H f (B - {(p, k)}) p k"
    using drop_alloced [OF I [unfolded buddy_inv_def] b u n] part_sub [OF D(2) b] D(7) [OF b]
    by (simp add: hand_def)
  obtain h' f' B' p' k' where m: "merge_loop s p k = (s\<lparr>links := h'\<rparr>, p', k')"
    and h': "hand (s\<lparr>links := h'\<rparr>) H f' B' p' k'" and f': "same_lists f f'"
    and B': "B' \<subseteq> B - {(p, k)}" "allocd s B' = allocd s (B - {(p, k)})"
    and nb: "k' < MAX_BUDDY_ORDER \<Longrightarrow> \<not> ((get_buddy_pgn p' k', k') \<in> B' \<and>
       used_info (pages s (get_buddy_pgn p' k')) = BUDDY_FREE)"
    using merge_loop_correct [OF h] by blast
  let ?h = "list_add_tail (PageNode p') (FreeArea k') h'"
  let ?t = "(upd_page p' (\<lambda>p. p\<lparr>bplevel := k', used_info := BUDDY_FREE\<rparr>) s)\<lparr>links := ?h\<rparr>"
  have eq: "free_pages_raw s p = ?t"
    using z u D(7) [OF b] m by (simp add: free_pages_raw_def Let_def upd_page_def)
  have new: "p' \<notin> fst ` B'"
    using hand_unlisted(2) [OF h' blk_start] by force
  have inv: "bcore (zone s) ?t H (f'(FreeArea k' := f' (FreeArea k') @ [PageNode p'])) (insert (p', k') B')"
    using h' by (intro put_free [where s = "s\<lparr>links := h'\<rparr>"]) (auto simp: hand_def upd_page_def)
  have co: "coalesced ?t (insert (p', k') B')"
    using B'(1) nb by (intro coalesced_insert [OF C _ new]) auto
  have al: "allocd ?t (insert (p', k') B') = allocd s B - {(p, k)}"
    using B' new by (auto simp: allocd_def image_iff)
  have "p' \<notin> fst ` (allocd s B - {(p, k)})"
    using B'(2) new by (auto simp: allocd_def image_iff)
  moreover have "same_lists f (f'(FreeArea k' := f' (FreeArea k') @ [PageNode p']))"
    using f' by (rule same_lists_trans) simp
  moreover have "zone ?t = zone s" by simp
  ultimately show ?thesis
    unfolding eq buddy_inv_def using inv co al by metis
qed


section \<open>Allocating is correct\<close>

lemma find_level_cases:
  "case find_level s i of
     None \<Rightarrow> \<forall>m. i \<le> m \<and> m \<le> MAX_BUDDY_ORDER \<longrightarrow> list_empty (FreeArea m) (links s)
   | Some j \<Rightarrow> i \<le> j \<and> j \<le> MAX_BUDDY_ORDER \<and> \<not> list_empty (FreeArea j) (links s) \<and>
       (\<forall>m. i \<le> m \<and> m < j \<longrightarrow> list_empty (FreeArea m) (links s))"
proof (induction s i rule: find_level.induct)
  case (1 s i)
  show ?case
  proof (cases "i \<le> MAX_BUDDY_ORDER \<and> list_empty (FreeArea i) (links s)")
    case True
    then have eq: "find_level s i = find_level s (i + 1)"
      by (subst find_level.simps) simp
    have "i \<le> m \<longleftrightarrow> m = i \<or> i + 1 \<le> m" for m by auto
    then show ?thesis
      using True "1.IH" unfolding eq by (auto split: option.splits)
  next
    case False
    then show ?thesis by (subst find_level.simps) auto
  qed
qed

lemma split_step:
  assumes h: "hand s H f B p (Suc k)" and C: "coalesced s B"
    and q: "q = get_buddy_pgn p k"
    and t: "t = (upd_page q (\<lambda>p. p\<lparr>bplevel := k, used_info := BUDDY_FREE\<rparr>) s)
      \<lparr>links := list_add_tail (PageNode q) (FreeArea k) (links s)\<rparr>"
  shows "hand t H (f(FreeArea k := f (FreeArea k) @ [PageNode q])) (insert (q, k) B) p k"
    and "coalesced t (insert (q, k) B)" and "allocd t (insert (q, k) B) = allocd s B"
    and "q \<in> blk (p, Suc k)" and "q \<noteq> p"
proof -
  have d: "2 ^ Suc k dvd p" using h by (simp add: hand_def)
  then have dk: "2 ^ k dvd p" by (meson dvd_trans le_imp_power_dvd le_SucI le_refl)
  from dk have q': "q = p + 2 ^ k"
  proof (cases rule: buddy_cases)
    case (high r)
    then have "2 ^ Suc k dvd (2 ^ k :: nat)" using d dvd_add_right_iff by blast
    then show ?thesis by (simp add: nat_dvd_not_less)
  qed (simp add: q)
  have sp: "blk (p, Suc k) = blk (p, k) \<union> blk (q, k)" "blk (p, k) \<inter> blk (q, k) = {}"
    unfolding q' by (rule blk_split)+
  have I: "bcore (zone s - blk (p, k) - blk (q, k)) s H f B"
    using h sp(1) by (simp add: hand_def Diff_eq Int_assoc)
  show q1: "q \<in> blk (p, Suc k)" and "q \<noteq> p" by (auto simp: sp q')
  show "hand t H (f(FreeArea k := f (FreeArea k) @ [PageNode q])) (insert (q, k) B) p k"
    using put_free [OF I _ _ _ _ t] h sp dk unfolding hand_def
    by (auto simp: t q' zone_def)
  have new: "q \<notin> fst ` B" using hand_unlisted(2) [OF h q1] by force
  have "(p, k) \<notin> B" using hand_unlisted(3) [OF h blk_start] .
  moreover have "get_buddy_pgn q k = p" unfolding q by (rule buddy_involution)
  ultimately show "coalesced t (insert (q, k) B)"
    by (intro coalesced_insert [OF C _ new]) (auto simp: t)
  show "allocd t (insert (q, k) B) = allocd s B"
    using new by (auto simp: allocd_def t image_iff)
qed


lemma split_loop_correct:
  assumes "hand s H f B p j" and "coalesced s B" and "k \<le> j"
  shows "\<exists>g h f' B'. split_loop s p k j = s\<lparr>pages := g, links := h\<rparr> \<and>
    hand (split_loop s p k j) H f' B' p k \<and> coalesced (split_loop s p k j) B' \<and>
    same_lists f f' \<and> allocd (split_loop s p k j) B' = allocd s B \<and>
    (\<forall>x. x \<notin> blk (p, j) - {p} \<longrightarrow> g x = pages s x)"
  using assms
proof (induction "j - k" arbitrary: s f B j)
  case 0
  then have "split_loop s p k j = s\<lparr>pages := pages s, links := links s\<rparr>"
    by (subst split_loop.simps) simp
  with 0 show ?case
    by (intro exI [of _ "pages s"] exI [of _ "links s"] exI [of _ f] exI [of _ B]) simp
next
  case (Suc n)
  then obtain i where j: "j = Suc i" "k \<le> i" "n = i - k" by (cases j) auto
  define q where "q = get_buddy_pgn p i"
  define t where "t = (upd_page q (\<lambda>p. p\<lparr>bplevel := i, used_info := BUDDY_FREE\<rparr>) s)
      \<lparr>links := list_add_tail (PageNode q) (FreeArea i) (links s)\<rparr>"
  have eq: "split_loop s p k j = split_loop t p k i"
    using j by (subst split_loop.simps) (simp add: t_def q_def Let_def)
  note S = split_step [OF Suc.prems(1) [unfolded j] Suc.prems(2) q_def t_def]
  obtain g h f' B' where ih: "split_loop t p k i = t\<lparr>pages := g, links := h\<rparr>"
      "hand (split_loop t p k i) H f' B' p k" "coalesced (split_loop t p k i) B'"
      "same_lists (f(FreeArea i := f (FreeArea i) @ [PageNode q])) f'"
      "allocd (split_loop t p k i) B' = allocd t (insert (q, i) B)"
      "\<forall>x. x \<notin> blk (p, i) - {p} \<longrightarrow> g x = pages t x"
    using Suc.hyps(1) [OF j(3) S(1,2) j(2)] by blast
  have "blk (p, i) \<subseteq> blk (p, j)" by (simp add: j blk_def)
  then have "\<forall>x. x \<notin> blk (p, j) - {p} \<longrightarrow> g x = pages s x"
    using ih(6) S(4,5) by (auto simp: t_def j)
  moreover have "split_loop t p k i = s\<lparr>pages := g, links := h\<rparr>"
    by (simp add: ih(1)) (simp add: t_def upd_page_def)
  ultimately show ?case
    unfolding eq using ih(2-5) S(3) same_lists_trans [OF same_lists_upd] by metis
qed

lemma alloc_pages_raw_None:
  assumes I: "buddy_inv s H f B" and r: "alloc_pages_raw s k type = (s', None)"
  shows "s' = s" and "(p, j) \<in> B \<Longrightarrow> k \<le> j \<Longrightarrow> used_info (pages s p) \<noteq> BUDDY_FREE"
proof -
  note D = bcoreD [OF I [unfolded buddy_inv_def]]
  show "s' = s" using r by (auto simp: alloc_pages_raw_def Let_def split: if_splits option.splits)
  assume b: "(p, j) \<in> B" "k \<le> j"
  then have j: "j \<le> MAX_BUDDY_ORDER" using D(7) by blast
  with b r have "find_level s k = None"
    by (auto simp: alloc_pages_raw_def Let_def split: if_splits option.splits)
  with j b(2) have "list_empty (FreeArea j) (links s)"
    using find_level_cases [of k s] by auto
  then have "f (FreeArea j) = []"
    using dll_empty [OF kl.familyD [OF D(3) D(4) [OF j]]] by simp
  then show "used_info (pages s p) \<noteq> BUDDY_FREE" using D(8) [OF j, of p] b(1) by auto
qed

lemma alloc_pages_raw_Some:
  assumes I: "buddy_inv s H f B" and C: "coalesced s B" and ty: "type \<noteq> BUDDY_FREE"
    and r: "alloc_pages_raw s k type = (s', Some p)"
  obtains g h f' B' j where
    "s' = s\<lparr>pages := g(p := (g p)\<lparr>bplevel := k, used_info := type, virt := 0, cachep := None\<rparr>), links := h\<rparr>"
    "buddy_inv s' H f' B'" "coalesced s' B'" "allocd s' B' = insert (p, k) (allocd s B)"
    "same_lists f f'" "unlisted (PageNode p) H f'"
    "(p, j) \<in> B" "used_info (pages s p) = BUDDY_FREE" "k \<le> j"
    "\<And>q i. (q, i) \<in> B \<Longrightarrow> used_info (pages s q) = BUDDY_FREE \<Longrightarrow> k \<le> i \<Longrightarrow> j \<le> i"
    "\<And>x. x \<notin> blk (p, j) - {p} \<Longrightarrow> g x = pages s x"
proof -
  note I' = I [unfolded buddy_inv_def] and D = bcoreD [OF I [unfolded buddy_inv_def]]
  from r obtain j where k: "k \<le> MAX_BUDDY_ORDER" and fl: "find_level s k = Some j"
    by (auto simp: alloc_pages_raw_def Let_def split: if_splits option.splits)
  have j: "k \<le> j" "j \<le> MAX_BUDDY_ORDER" "\<not> list_empty (FreeArea j) (links s)"
    "\<And>m. k \<le> m \<Longrightarrow> m < j \<Longrightarrow> list_empty (FreeArea m) (links s)"
    using find_level_cases [of k s] fl by auto
  have dl: "dll (links s) (FreeArea j) (f (FreeArea j))"
    using kl.familyD [OF D(3) D(4) [OF j(2)]] .
  then have ne: "f (FreeArea j) \<noteq> []" using dll_empty [OF dl] j(3) by simp
  then have last: "prev (links s) (FreeArea j) \<in> set (f (FreeArea j))"
    using dll_prev [OF dl] by simp
  define t where "t = s\<lparr>links := list_del_init (PageNode p) (links s)\<rparr>"
  have p: "prev (links s) (FreeArea j) = PageNode p" and
    s': "s' = upd_page p (\<lambda>p. p\<lparr>bplevel := k, used_info := type, virt := 0, cachep := None\<rparr>) (split_loop t p k j)"
    using r k fl D(9) [OF j(2) last] by (auto simp: alloc_pages_raw_def Let_def t_def)
  have b: "(p, j) \<in> B" "used_info (pages s p) = BUDDY_FREE"
    using D(8) [OF j(2)] last p by auto
  have h: "hand t H (f(FreeArea j := remove1 (PageNode p) (f (FreeArea j)))) (B - {(p, j)}) p j"
    using take_free [OF I' b] part_sub [OF D(2) b(1)] D(7) [OF b(1)] by (simp add: hand_def t_def)
  have co: "coalesced t (B - {(p, j)})" using C by (auto simp: coalesced_def t_def)
  obtain g h f' B' where L: "split_loop t p k j = t\<lparr>pages := g, links := h\<rparr>"
      "hand (split_loop t p k j) H f' B' p k" "coalesced (split_loop t p k j) B'"
      "same_lists (f(FreeArea j := remove1 (PageNode p) (f (FreeArea j)))) f'"
      "allocd (split_loop t p k j) B' = allocd t (B - {(p, j)})"
      "\<forall>x. x \<notin> blk (p, j) - {p} \<longrightarrow> g x = pages t x"
    using split_loop_correct [OF h co j(1)] by blast
  have new: "p \<notin> fst ` B'" using hand_unlisted(2) [OF L(2) blk_start] by force
  show thesis
  proof (rule that)
    show "s' = s\<lparr>pages := g(p := (g p)\<lparr>bplevel := k, used_info := type, virt := 0, cachep := None\<rparr>), links := h\<rparr>"
      by (simp add: s' L(1) upd_page_def) (simp add: t_def)
    show "buddy_inv s' H f' (insert (p, k) B')"
      unfolding buddy_inv_def s'
      using L(2) ty by (intro put_alloced) (auto simp: hand_def)
    show "coalesced s' (insert (p, k) B')"
      using ty by (intro coalesced_insert [OF L(3) _ new]) (auto simp: s')
    show "allocd s' (insert (p, k) B') = insert (p, k) (allocd s B)"
      using L(5) new ty b unfolding allocd_def s' by (auto simp: t_def image_iff)
    show "same_lists f f'" using same_lists_trans [OF same_lists_upd L(4)] .
    show "unlisted (PageNode p) H f'" using hand_unlisted(1) [OF L(2) blk_start] .
    show "(p, j) \<in> B" "used_info (pages s p) = BUDDY_FREE" "k \<le> j" by fact+
    show "j \<le> i" if q: "(q, i) \<in> B" "used_info (pages s q) = BUDDY_FREE" "k \<le> i" for q i
    proof (rule ccontr)
      assume "\<not> j \<le> i"
      then have i: "i \<le> MAX_BUDDY_ORDER" "list_empty (FreeArea i) (links s)" using j q by auto
      then have "f (FreeArea i) = []"
        using dll_empty [OF kl.familyD [OF D(3) D(4) [OF i(1)]]] by simp
      then show False using D(8) [OF i(1), of q] q by auto
    qed
    show "g x = pages s x" if "x \<notin> blk (p, j) - {p}" for x
      using L(6) that by (auto simp: t_def)
  qed
qed


section \<open>Maximal coalescing\<close>

text \<open>
  In a coalesced zone every aligned run of free pages lies inside one free block, so that the
  allocator fails only when there is no such run.
\<close>

lemma small_block_absurd:
  assumes I: "buddy_inv s H f B" and C: "coalesced s B"
    and R: "2 ^ k dvd q" "k \<le> MAX_BUDDY_ORDER" "blk (q, k) \<subseteq> zone s"
    and free: "\<And>b. b \<in> allocd s B \<Longrightarrow> blk b \<inter> blk (q, k) = {}"
    and b: "(p, j) \<in> B" "blk (p, j) \<subseteq> blk (q, k)"
  shows "\<not> j < k"
  using b
proof (induction j arbitrary: p rule: less_induct)
  case (less j)
  note D = bcoreD [OF I [unfolded buddy_inv_def]]
  have fr: "used_info (pages s x) = BUDDY_FREE" if "(x, i) \<in> B" "blk (x, i) \<subseteq> blk (q, k)" for x i
    using that free [of "(x, i)"] by (simp add: allocd_def) (metis blk_start disjoint_iff subsetD)
  have p: "p \<in> zone s" "2 ^ j dvd p"
    using D(7) less.prems part_sub [OF D(2) less.prems(1)] blk_start [of p j] by blast+
  let ?r = "get_buddy_pgn p j"
  show ?case
  proof
    assume jk: "j < k"
    then have jm: "j < MAX_BUDDY_ORDER" using R(2) by simp
    have al: "\<And>r i. (r, i) \<in> B - {(p, j)} \<Longrightarrow> 2 ^ i dvd r" using D(7) by blast
    obtain i where i: "i \<le> j" "(?r, i) \<in> B"
      using part_buddy [OF D(1) part_remove [OF D(2) less.prems(1)] al p jm] by blast
    have "blk (p AND ?r, Suc j) \<subseteq> blk (q, k)"
    proof (rule blk_nestedI [OF blk_merge(3) [OF p(2)] R(1), of p])
      show "p \<in> blk (p AND ?r, Suc j)" unfolding blk_merge(1) [OF p(2)] by simp
    qed (use jk less.prems(2) blk_start in auto)
    then have sub: "blk (?r, j) \<subseteq> blk (q, k)" using blk_merge(1) [OF p(2)] by blast
    have sub': "blk (?r, i) \<subseteq> blk (q, k)"
      using sub blk_mono [OF i(1)] by blast
    have "i = j" using less.IH [OF _ i(2) sub'] i(1) jk by force
    then have "used_info (pages s ?r) = BUDDY_FREE" "(?r, j) \<in> B" using fr i(2) sub by auto
    then show False using C jm less.prems fr unfolding coalesced_def by blast
  qed
qed

lemma free_run_in_block:
  assumes I: "buddy_inv s H f B" and C: "coalesced s B"
    and R: "2 ^ k dvd q" "k \<le> MAX_BUDDY_ORDER" "blk (q, k) \<subseteq> zone s"
    and free: "\<And>b. b \<in> allocd s B \<Longrightarrow> blk b \<inter> blk (q, k) = {}"
  obtains p j where "(p, j) \<in> B" "k \<le> j" "used_info (pages s p) = BUDDY_FREE" "blk (q, k) \<subseteq> blk (p, j)"
proof -
  note D = bcoreD [OF I [unfolded buddy_inv_def]]
  obtain p j where b: "(p, j) \<in> B" "q \<in> blk (p, j)"
    using part_owner [OF D(2)] R(3) blk_start [of q k] by fastforce
  then have d: "2 ^ j dvd p" using D(7) by blast
  have kj: "k \<le> j"
  proof (rule ccontr)
    assume "\<not> k \<le> j"
    moreover from this have "blk (p, j) \<subseteq> blk (q, k)"
      by (intro blk_nestedI [OF d R(1) _ b(2) blk_start]) auto
    ultimately show False using small_block_absurd [OF I C R free b(1)] by simp
  qed
  show thesis
  proof (rule that [OF b(1) kj])
    show "used_info (pages s p) = BUDDY_FREE"
      using free [of "(p, j)"] b by (simp add: allocd_def) (metis blk_start disjoint_iff)
    show "blk (q, k) \<subseteq> blk (p, j)"
      by (rule blk_nestedI [OF R(1) d kj blk_start b(2)])
  qed
qed


section \<open>The contract of a page allocator\<close>

text \<open>
  \<open>buddy_rep s H f A\<close> hides the blocks and the free lists: the allocator is in a good
  state, \<open>A\<close> is the set of blocks that are handed out, and \<open>f\<close> gives the contents of
  the lists the allocator does not own.
\<close>

definition buddy_rep ::
    "'z buddy_scheme \<Rightarrow> node set \<Rightarrow> (node \<Rightarrow> node list) \<Rightarrow> (nat \<times> nat) set \<Rightarrow> bool" where
  "buddy_rep s H f A \<longleftrightarrow>
     (\<exists>g B. buddy_inv s H g B \<and> coalesced s B \<and> same_lists f g \<and> A = allocd s B)"

definition unlisted_out :: "node \<Rightarrow> node set \<Rightarrow> (node \<Rightarrow> node list) \<Rightarrow> bool" where
  "unlisted_out n H f \<longleftrightarrow> (\<forall>l\<in>H - range FreeArea. n \<notin> set (f l))"

lemma alloced_unlisted:
  assumes I: "buddy_inv s H g B" and n: "unlisted_out (PageNode p) H f" "same_lists f g"
    and b: "(p, k) \<in> allocd s B" and H: "H \<inter> range FreeArea \<subseteq> FreeArea ` {..MAX_BUDDY_ORDER}"
  shows "unlisted (PageNode p) H g"
  unfolding unlisted_def
proof
  fix l assume l: "l \<in> H"
  show "PageNode p \<notin> set (g l)"
  proof (cases "l \<in> range FreeArea")
    case True
    then obtain j where "l = FreeArea j" "j \<le> MAX_BUDDY_ORDER" using l H by blast
    then show ?thesis using bcoreD(8) [OF I [unfolded buddy_inv_def]] b by (auto simp: allocd_def)
  next
    case False
    then show ?thesis using n l by (auto simp: unlisted_out_def same_lists_def)
  qed
qed

definition page_unchanged :: "'z buddy_scheme \<Rightarrow> 'z buddy_scheme \<Rightarrow> (nat \<times> nat) set \<Rightarrow> bool" where
  "page_unchanged s t A \<longleftrightarrow> (\<forall>p k. (p, k) \<in> A \<longrightarrow> pages t p = pages s p)"

lemma rep_free:
  assumes R: "buddy_rep s H f A" and b: "(p, k) \<in> A" and n: "unlisted_out (PageNode p) H f"
    and H: "H \<inter> range FreeArea \<subseteq> FreeArea ` {..MAX_BUDDY_ORDER}"
  shows "buddy_rep (free_pages_raw s p) H f (A - {(p, k)})"
    and "page_unchanged s (free_pages_raw s p) (A - {(p, k)})"
    and "\<exists>g h. free_pages_raw s p = s\<lparr>pages := g, links := h\<rparr>"
proof -
  obtain g B where G: "buddy_inv s H g B" "coalesced s B" "same_lists f g" "A = allocd s B"
    using R by (auto simp: buddy_rep_def)
  have b': "(p, k) \<in> B" "used_info (pages s p) \<noteq> BUDDY_FREE" using b G(4) by (auto simp: allocd_def)
  obtain f' B' p' k' h where r: "free_pages_raw s p =
      (upd_page p' (\<lambda>p. p\<lparr>bplevel := k', used_info := BUDDY_FREE\<rparr>) s)\<lparr>links := h\<rparr>"
    "buddy_inv (free_pages_raw s p) H f' B'" "coalesced (free_pages_raw s p) B'"
    "allocd (free_pages_raw s p) B' = allocd s B - {(p, k)}" "same_lists g f'"
    "p' \<notin> fst ` (allocd s B - {(p, k)})"
    using free_pages_raw_correct [OF G(1,2) b' alloced_unlisted [OF G(1) n G(3) b [unfolded G(4)] H]]
    by blast
  show "buddy_rep (free_pages_raw s p) H f (A - {(p, k)})"
    unfolding buddy_rep_def using r(2-5) G(3,4) same_lists_trans by metis
  show "page_unchanged s (free_pages_raw s p) (A - {(p, k)})"
    unfolding page_unchanged_def using r(1,6) G(4) by (force simp: image_iff)
  show "\<exists>g h. free_pages_raw s p = s\<lparr>pages := g, links := h\<rparr>"
    using r(1) by (auto simp: upd_page_def)
qed

lemma rep_blocks:
  assumes R: "buddy_rep s H f A" and b: "(p, k) \<in> A"
  shows "blk (p, k) \<subseteq> zone s" "k \<le> MAX_BUDDY_ORDER" "2 ^ k dvd p" "bplevel (pages s p) = k"
    "used_info (pages s p) \<noteq> BUDDY_FREE" "c \<in> A \<Longrightarrow> c \<noteq> (p, k) \<Longrightarrow> blk c \<inter> blk (p, k) = {}"
proof -
  obtain g B where G: "buddy_inv s H g B" "A = allocd s B"
    using R by (auto simp: buddy_rep_def)
  note D = bcoreD [OF G(1) [unfolded buddy_inv_def]]
  have b': "(p, k) \<in> B" "used_info (pages s p) \<noteq> BUDDY_FREE" using b G(2) by (auto simp: allocd_def)
  show "blk (p, k) \<subseteq> zone s" using part_sub [OF D(2) b'(1)] .
  show "k \<le> MAX_BUDDY_ORDER" "2 ^ k dvd p" "bplevel (pages s p) = k" using D(7) [OF b'(1)] by auto
  show "used_info (pages s p) \<noteq> BUDDY_FREE" by fact
  show "blk c \<inter> blk (p, k) = {}" if "c \<in> A" "c \<noteq> (p, k)"
    using that D(2) b'(1) G(2) by (auto simp: part_def allocd_def)
qed

lemma rep_alloc_Some:
  assumes R: "buddy_rep s H f A" and ty: "type \<noteq> BUDDY_FREE"
    and r: "alloc_pages_raw s k type = (s', Some p)"
  shows "buddy_rep s' H f (insert (p, k) A)" "unlisted_out (PageNode p) H f"
    "page_unchanged s s' A" "\<And>c. c \<in> A \<Longrightarrow> blk c \<inter> blk (p, k) = {}"
    "pages s' p = (pages s p)\<lparr>bplevel := k, used_info := type, virt := 0, cachep := None\<rparr>"
    "\<exists>g h. s' = s\<lparr>pages := g, links := h\<rparr>"
proof -
  obtain g B where G: "buddy_inv s H g B" "coalesced s B" "same_lists f g" "A = allocd s B"
    using R by (auto simp: buddy_rep_def)
  note D = bcoreD [OF G(1) [unfolded buddy_inv_def]]
  obtain g' h f' B' j where E:
    "s' = s\<lparr>pages := g'(p := (g' p)\<lparr>bplevel := k, used_info := type, virt := 0, cachep := None\<rparr>), links := h\<rparr>"
    "buddy_inv s' H f' B'" "coalesced s' B'" "allocd s' B' = insert (p, k) (allocd s B)"
    "same_lists g f'" "unlisted (PageNode p) H f'"
    "(p, j) \<in> B" "used_info (pages s p) = BUDDY_FREE" "k \<le> j"
    "\<And>x. x \<notin> blk (p, j) - {p} \<Longrightarrow> g' x = pages s x"
    using alloc_pages_raw_Some [OF G(1,2) ty r] by metis
  show "buddy_rep s' H f (insert (p, k) A)"
    unfolding buddy_rep_def using E(2-5) G(3,4) same_lists_trans by metis
  show "unlisted_out (PageNode p) H f"
    using E(5,6) G(3) by (auto simp: unlisted_out_def unlisted_def same_lists_def)
  show "\<exists>g h. s' = s\<lparr>pages := g, links := h\<rparr>" using E(1) by blast
  have dis: "blk c \<inter> blk (p, j) = {}" if "c \<in> A" for c
    using that D(2) E(7,8) G(4) unfolding part_def allocd_def by force
  have "blk (p, k) \<subseteq> blk (p, j)"
    by (rule blk_mono [OF E(9)])
  then show "blk c \<inter> blk (p, k) = {}" if "c \<in> A" for c using dis [OF that] by blast
  have "pages s' x = pages s x" if x: "(x, i) \<in> A" for x i
  proof -
    have "x \<notin> blk (p, j)" using dis [OF x] blk_start [of x i] by blast
    moreover have "x \<noteq> p" using x E(8) G(4) by (auto simp: allocd_def)
    ultimately show ?thesis using E(1,10) by simp
  qed
  then show "page_unchanged s s' A" by (simp add: page_unchanged_def)
  show "pages s' p = (pages s p)\<lparr>bplevel := k, used_info := type, virt := 0, cachep := None\<rparr>"
    using E(1,10) by simp
qed

lemma rep_alloc_None:
  assumes R: "buddy_rep s H f A" and k: "k \<le> MAX_BUDDY_ORDER" and q: "2 ^ k dvd q" "blk (q, k) \<subseteq> zone s"
    and free: "\<And>b. b \<in> A \<Longrightarrow> blk b \<inter> blk (q, k) = {}"
  shows "\<exists>s' p. alloc_pages_raw s k type = (s', Some p)"
proof -
  obtain g B where G: "buddy_inv s H g B" "coalesced s B" "A = allocd s B"
    using R by (auto simp: buddy_rep_def)
  obtain p j where b: "(p, j) \<in> B" "k \<le> j" "used_info (pages s p) = BUDDY_FREE"
    using free_run_in_block [OF G(1,2) q(1) k q(2) free [unfolded G(3)]] by blast
  obtain s' r where e: "alloc_pages_raw s k type = (s', r)" by fastforce
  then have "r \<noteq> None" using alloc_pages_raw_None(2) [OF G(1) _ b(1,2)] b(3) by metis
  with e show ?thesis by auto
qed


section \<open>Initialisation is correct\<close>

lemma init_pages_loop_eq:
  "\<exists>h. init_pages_loop n s = s\<lparr>pages := (\<lambda>x. if x < n
     then (pages s x)\<lparr>bplevel := 0, used_info := BUDDY_RESERVED\<rparr> else pages s x), links := h\<rparr>"
proof (induction n)
  case 0
  show ?case by (intro exI [of _ "links s"]) simp
next
  case (Suc n)
  then obtain h where h: "init_pages_loop n s = s\<lparr>pages := (\<lambda>x. if x < n
     then (pages s x)\<lparr>bplevel := 0, used_info := BUDDY_RESERVED\<rparr> else pages s x), links := h\<rparr>" ..
  have "(\<lambda>x. if x < Suc n then (pages s x)\<lparr>bplevel := 0, used_info := BUDDY_RESERVED\<rparr> else pages s x) =
    (\<lambda>x. if x < n then (pages s x)\<lparr>bplevel := 0, used_info := BUDDY_RESERVED\<rparr> else pages s x)
      (n := (pages s n)\<lparr>bplevel := 0, used_info := BUDDY_RESERVED\<rparr>)"
    by (auto simp: fun_eq_iff less_Suc_eq)
  then show ?case
    by (intro exI [of _ "INIT_LIST_HEAD (PageNode n) h"]) (simp add: h Let_def upd_page_def)
qed

lemma init_areas_loop_eq:
  "\<exists>h. init_areas_loop n s = s\<lparr>links := h\<rparr> \<and> family dll h (FreeArea ` {..<n}) (\<lambda>_. [])"
proof (induction n)
  case 0
  show ?case by (intro exI [of _ "links s"]) (simp add: family_def)
next
  case (Suc n)
  then obtain h where h: "init_areas_loop n s = s\<lparr>links := h\<rparr>" "family dll h (FreeArea ` {..<n}) (\<lambda>_. [])"
    by blast
  have "family dll (INIT_LIST_HEAD (FreeArea n) h) (insert (FreeArea n) (FreeArea ` {..<n})) ((\<lambda>_. [])(FreeArea n := []))"
    using h(2) by (intro kl.family_init_new) auto
  moreover have "(\<lambda>_. [])(FreeArea n := []) = (\<lambda>_. [] :: node list)" by auto
  ultimately have "family dll (INIT_LIST_HEAD (FreeArea n) h) (insert (FreeArea n) (FreeArea ` {..<n})) (\<lambda>_. [])"
    by simp
  then show ?case
    by (intro exI [of _ "INIT_LIST_HEAD (FreeArea n) h"]) (simp add: h(1) Let_def lessThan_Suc)
qed

lemma init_pages_loop_zone:
  "(init_pages_loop n mm)\<lparr>start_pfn := a, zone_page_num := b\<rparr> =
     init_pages_loop n (mm\<lparr>start_pfn := a, zone_page_num := b\<rparr>)"
proof (induction n)
  case (Suc n)
  show ?case by (simp add: Let_def upd_page_def Suc.IH [symmetric])
qed simp

lemma loops_frame:
  "zone_page_num (init_pages_loop n mm) = zone_page_num mm"
  "zone_page_num (init_areas_loop m mm) = zone_page_num mm"
  using init_pages_loop_eq [of n mm] init_areas_loop_eq [of m mm] by auto

lemma rep_reserved:
  assumes "zone_ok s" and "family dll (links s) (FreeArea ` {..MAX_BUDDY_ORDER}) (\<lambda>_. [])"
    and "\<And>x. x \<in> zone s \<Longrightarrow> bplevel (pages s x) = 0 \<and> used_info (pages s x) = BUDDY_RESERVED"
  shows "buddy_rep s (FreeArea ` {..MAX_BUDDY_ORDER}) (\<lambda>_. []) {(p, 0) | p. p \<in> zone s}"
proof -
  let ?B = "{(p, 0) | p. p \<in> zone s}"
  have "part (zone s) ?B" by (auto simp: part_def blk_def)
  then have "buddy_inv s (FreeArea ` {..MAX_BUDDY_ORDER}) (\<lambda>_. []) ?B"
    unfolding buddy_inv_def using assms by (intro bcoreI) auto
  moreover have "coalesced s ?B" "?B = allocd s ?B"
    using assms(3) by (auto simp: coalesced_def allocd_def)
  ultimately show ?thesis
    unfolding buddy_rep_def by (intro exI [of _ "\<lambda>_. []"] exI [of _ ?B] conjI same_lists_refl)
qed

lemma init_free_loop_rep:
  assumes "buddy_rep s (FreeArea ` {..MAX_BUDDY_ORDER}) (\<lambda>_. []) {(p, 0) | p. p \<in> zone s}"
    and "n \<le> zone_page_num s"
  shows "(\<exists>g h. init_free_loop n s = s\<lparr>pages := g, links := h\<rparr>) \<and>
    buddy_rep (init_free_loop n s) (FreeArea ` {..MAX_BUDDY_ORDER}) (\<lambda>_. [])
      {(p, 0) | p. p \<in> zone s \<and> start_pfn s + n \<le> p}"
  using assms(2)
proof (induction n)
  case 0
  have e: "{(p, 0::nat) | p. p \<in> zone s \<and> start_pfn s + 0 \<le> p} = {(p, 0) | p. p \<in> zone s}"
    by (auto simp: zone_def)
  have "\<exists>g h. init_free_loop 0 s = s\<lparr>pages := g, links := h\<rparr>"
    by (intro exI [of _ "pages s"] exI [of _ "links s"]) simp
  then show ?case unfolding e using assms(1) by simp
next
  case (Suc n)
  let ?t = "init_free_loop n s" and ?p = "start_pfn s + n"
  let ?A = "{(p, 0) | p. p \<in> zone s \<and> start_pfn s + n \<le> p}"
  have ih: "\<exists>g h. ?t = s\<lparr>pages := g, links := h\<rparr>" "buddy_rep ?t (FreeArea ` {..MAX_BUDDY_ORDER}) (\<lambda>_. []) ?A"
    using Suc by auto
  have p: "(?p, 0) \<in> ?A" using Suc.prems by (simp add: zone_def)
  have eq: "init_free_loop (Suc n) s = free_pages_raw ?t ?p" using ih(1) by (auto simp: Let_def)
  have a: "?A - {(?p, 0)} = {(p, 0) | p. p \<in> zone s \<and> start_pfn s + Suc n \<le> p}"
    by auto
  have u: "unlisted_out (PageNode ?p) (FreeArea ` {..MAX_BUDDY_ORDER}) (\<lambda>_. [])"
    by (simp add: unlisted_out_def)
  note F = rep_free [OF ih(2) p u]
  obtain g h g' h' where "?t = s\<lparr>pages := g, links := h\<rparr>"
    "free_pages_raw ?t ?p = ?t\<lparr>pages := g', links := h'\<rparr>"
    using ih(1) F(3) by blast
  then have "free_pages_raw ?t ?p = s\<lparr>pages := g', links := h'\<rparr>" by simp
  then show ?case unfolding eq a [symmetric] using F(1) by blast
qed

lemma fresh_zone_rep:
  assumes z: "zone_ok s" "zone s \<subseteq> {..<n}"
    and t: "t = init_free_loop (zone_page_num s) (init_areas_loop (MAX_BUDDY_ORDER + 1) (init_pages_loop n s))"
  shows "buddy_rep t (FreeArea ` {..MAX_BUDDY_ORDER}) (\<lambda>_. []) {} \<and> (\<exists>g h. t = s\<lparr>pages := g, links := h\<rparr>)"
proof -
  obtain h where h: "init_pages_loop n s = s\<lparr>pages := (\<lambda>x. if x < n
     then (pages s x)\<lparr>bplevel := 0, used_info := BUDDY_RESERVED\<rparr> else pages s x), links := h\<rparr>"
    using init_pages_loop_eq by blast
  obtain h' where h': "init_areas_loop (MAX_BUDDY_ORDER + 1) (init_pages_loop n s) = (init_pages_loop n s)\<lparr>links := h'\<rparr>"
      "family dll h' (FreeArea ` {..<MAX_BUDDY_ORDER + 1}) (\<lambda>_. [])"
    using init_areas_loop_eq by blast
  define u where "u = (init_pages_loop n s)\<lparr>links := h'\<rparr>"
  have u: "zone u = zone s" "zone_ok u = zone_ok s" "start_pfn u = start_pfn s" "zone_page_num u = zone_page_num s"
    by (simp_all add: u_def h zone_def zone_ok_def)
  have "buddy_rep u (FreeArea ` {..MAX_BUDDY_ORDER}) (\<lambda>_. []) {(p, 0) | p. p \<in> zone u}"
    using z h'(2) u(1,2)
    by (intro rep_reserved) (auto simp: u_def h lessThan_Suc_atMost subset_iff)
  note F = init_free_loop_rep [OF this, of "zone_page_num s", unfolded u]
  have e: "{(p, 0::nat) | p. p \<in> zone s \<and> start_pfn s + zone_page_num s \<le> p} = {}"
    by (auto simp: zone_def)
  have t': "t = init_free_loop (zone_page_num s) u" unfolding t h'(1) u_def ..
  obtain g l where "t = u\<lparr>pages := g, links := l\<rparr>" using F t' by auto
  then have "t = s\<lparr>pages := g, links := l\<rparr>" by (simp add: u_def h)
  then show ?thesis using F unfolding e t' by blast
qed

lemma all_free_max_order:
  assumes R: "buddy_inv s H f B" "coalesced s B" and A: "allocd s B = {}" and b: "(p, k) \<in> B"
  shows "k = MAX_BUDDY_ORDER"
proof -
  note D = bcoreD [OF R(1) [unfolded buddy_inv_def]]
  define q where "q = p div 2 ^ MAX_BUDDY_ORDER * 2 ^ MAX_BUDDY_ORDER"
  have q: "2 ^ MAX_BUDDY_ORDER dvd q" by (simp add: q_def)
  have pq: "p \<in> blk (q, MAX_BUDDY_ORDER)"
    unfolding q_def using div_mult_mod_eq [of p "2 ^ MAX_BUDDY_ORDER"] mod_less_divisor [of "2 ^ MAX_BUDDY_ORDER" p]
    by (simp add: blk_def del: mod_less_divisor)
  have pz: "p \<in> zone s" using part_sub [OF D(2) b] blk_start by blast
  have k: "k \<le> MAX_BUDDY_ORDER" "2 ^ k dvd p" using D(7) [OF b] by auto
  have "blk (q, MAX_BUDDY_ORDER) \<subseteq> zone s"
  proof -
    have d: "2 ^ MAX_BUDDY_ORDER dvd start_pfn s" "2 ^ MAX_BUDDY_ORDER dvd start_pfn s + zone_page_num s"
      using D(1) by (auto simp: zone_ok_def)
    show ?thesis
      using dvd_next_multiple [OF q d(1)] dvd_next_multiple [OF q d(2)] pq pz
      by (simp add: blk_def zone_def) force
  qed
  moreover have "blk (p, k) \<subseteq> blk (q, MAX_BUDDY_ORDER)"
    by (rule blk_nestedI [OF k(2) q k(1) blk_start pq])
  ultimately have "\<not> k < MAX_BUDDY_ORDER"
    using small_block_absurd [OF R q order.refl _ _ b] A by auto
  with k show ?thesis by simp
qed


text \<open>
  After \<open>init_buddy\<close> the zone is what lies between the first memory region of the boot
  allocator and the end of memory, cut to multiples of sixteen pages, and nothing is allocated.
\<close>

lemma init_buddy_correct:
  assumes al: "bootmm_alloc_page boot (page_num boot * sizeof_page) MMINFO_TYPE_KERNEL
      (push_bit PAGE_SHIFT 1) = Some (boot', base)"
    and n: "n = unat (page_num boot')" "n \<le> 2 ^ 20"
    and r: "r = unat (start_addr (info boot' 0)) + unat (info_length (info boot' 0))" "r + 2 ^ 12 \<le> 2 ^ 32"
    and st: "st = round_up 16 (round_up 4096 r div 4096)" "st \<le> n"
  shows "\<exists>mm'. init_buddy boot mm = Some (boot', mm') \<and>
    start_pfn mm' = st \<and> zone_page_num mm' = (n - st) div 16 * 16 \<and>
    buddy_rep mm' (FreeArea ` {..MAX_BUDDY_ORDER}) (\<lambda>_. []) {}"
proof -
  let ?w = "start_addr (info boot' 0) + info_length (info boot' 0)"
  let ?rp = "drop_bit PAGE_SHIFT (upper_align ?w (push_bit PAGE_SHIFT 1))"
  let ?st = "upper_align ?rp (push_bit MAX_BUDDY_ORDER 1)"
  let ?num = "lower_align (page_num boot' - ?st) (push_bit MAX_BUDDY_ORDER 1)"
  have w: "unat ?w = r" using r by (simp add: unat_word_ariths)
  have rp: "unat ?rp = round_up 4096 r div 4096"
    using unat_upper_align_round [of 12 ?w] w r(2)
    by (simp only: PAGE_SHIFT_def unat_drop_bit_u32) (simp add: push_bit_eq_mult)
  have rpst: "round_up 4096 r div 4096 \<le> st"
    unfolding st(1) by (rule round_up_ge) simp
  have ust: "unat ?st = st"
    using unat_upper_align_round [of 4 ?rp] rp rpst st n by (simp add: os_const push_bit_eq_mult)
  have num: "unat ?num = (n - st) div 16 * 16"
  proof -
    have "unat (page_num boot' - ?st) = n - st"
      using ust st(2) n by (simp add: unat_sub word_le_nat_alt)
    then show ?thesis using unat_lower_align [of "page_num boot' - ?st" 4]
      by (simp add: os_const push_bit_eq_mult)
  qed
  define s where "s = mm\<lparr>all_pages := get_kernel_vaddr base, start_pfn := st,
    zone_page_num := (n - st) div 16 * 16\<rparr>"
  have "st + (n - st) div 16 * 16 \<le> n"
    using st(2) div_times_less_eq_dividend [of "n - st" 16] by linarith
  then have z: "zone s \<subseteq> {..<n}" by (auto simp: zone_def s_def)
  have z': "zone_ok s" using round_up_dvd [of 16] by (simp add: zone_ok_def os_const st(1) s_def)
  define t where "t = init_free_loop (zone_page_num s) (init_areas_loop (MAX_BUDDY_ORDER + 1) (init_pages_loop n s))"
  note F = fresh_zone_rep [OF z' z t_def]
  have c: "(init_pages_loop n (mm\<lparr>all_pages := get_kernel_vaddr base\<rparr>))
      \<lparr>start_pfn := st, zone_page_num := (n - st) div 16 * 16\<rparr> = init_pages_loop n s"
    unfolding s_def init_pages_loop_zone [symmetric] ..
  have zp: "zone_page_num (init_areas_loop (MAX_BUDDY_ORDER + 1) (init_pages_loop n s)) = (n - st) div 16 * 16"
    unfolding loops_frame by (simp add: s_def)
  have "init_buddy boot mm = Some (boot', t)"
    unfolding init_buddy_def al option.case prod.case Let_def n(1) [symmetric] ust num c zp t_def
    by (simp add: s_def)
  then show ?thesis using F by (auto simp: s_def)
qed


section \<open>Clients of a page allocator\<close>

text \<open>
  A client asks for a block of some order or gives back a block it holds; \<open>run_reqs\<close> runs
  a sequence of such requests and keeps the list of the blocks held.
\<close>

datatype req = Alloc nat | Free nat

fun run_reqs :: "('s \<Rightarrow> nat \<Rightarrow> 's \<times> nat option) \<Rightarrow> ('s \<Rightarrow> nat \<Rightarrow> 's) \<Rightarrow>
    's \<Rightarrow> (nat \<times> nat) list \<Rightarrow> req list \<Rightarrow> 's \<times> (nat \<times> nat) list" where
  "run_reqs alloc free s hs [] = (s, hs)"
| "run_reqs alloc free s hs (Alloc k # rs) =
     (case alloc s k of
        (s', Some p) \<Rightarrow> run_reqs alloc free s' ((p, k) # hs) rs
      | (s', None) \<Rightarrow> run_reqs alloc free s' hs rs)"
| "run_reqs alloc free s hs (Free i # rs) =
     (if i < length hs then run_reqs alloc free (free s (fst (hs ! i))) (remove1 (hs ! i) hs) rs
      else run_reqs alloc free s hs rs)"

locale page_allocator =
  fixes inv :: "'s \<Rightarrow> (nat \<times> nat) set \<Rightarrow> bool"
    and alloc :: "'s \<Rightarrow> nat \<Rightarrow> 's \<times> nat option"
    and free :: "'s \<Rightarrow> nat \<Rightarrow> 's"
  assumes alloc_Some: "inv s A \<Longrightarrow> alloc s k = (s', Some p) \<Longrightarrow> inv s' (insert (p, k) A) \<and> (p, k) \<notin> A"
    and alloc_None: "inv s A \<Longrightarrow> alloc s k = (s', None) \<Longrightarrow> inv s' A"
    and free_block: "inv s A \<Longrightarrow> (p, k) \<in> A \<Longrightarrow> inv (free s p) (A - {(p, k)})"
    and disjoint_blocks: "inv s A \<Longrightarrow> b \<in> A \<Longrightarrow> c \<in> A \<Longrightarrow> b \<noteq> c \<Longrightarrow> blk b \<inter> blk c = {}"
begin

lemma run_inv:
  assumes "inv s (set hs)" and "distinct hs" and "run_reqs alloc free s hs rs = (s', hs')"
  shows "inv s' (set hs') \<and> distinct hs'"
  using assms
proof (induction rs arbitrary: s hs)
  case (Cons r rs)
  show ?case
  proof (cases r)
    case (Alloc k)
    obtain s1 x where a: "alloc s k = (s1, x)" by fastforce
    show ?thesis
    proof (cases x)
      case None
      then show ?thesis using Cons.IH [of s1 hs] Cons.prems alloc_None a Alloc by simp
    next
      case (Some p)
      with a have *: "inv s1 (set ((p, k) # hs)) \<and> (p, k) \<notin> set hs"
        using alloc_Some Cons.prems(1) by simp
      then have "distinct ((p, k) # hs)" using Cons.prems(2) by simp
      with * show ?thesis
        using Cons.IH [of s1 "(p, k) # hs"] Cons.prems(3) a Some Alloc by simp
    qed
  next
    case (Free i)
    show ?thesis
    proof (cases "i < length hs")
      case True
      then have "inv (free s (fst (hs ! i))) (set (remove1 (hs ! i) hs))"
        using free_block [of s "set hs" "fst (hs ! i)" "snd (hs ! i)"] Cons.prems(1,2) by simp
      then show ?thesis
        using Cons.IH [of "free s (fst (hs ! i))" "remove1 (hs ! i) hs"] Cons.prems(2,3) Free True by simp
    next
      case False
      then show ?thesis using Cons.IH [of s hs] Cons.prems Free by simp
    qed
  qed
qed simp

lemma run_disjoint:
  assumes "inv s (set hs)" and "distinct hs" and "run_reqs alloc free s hs rs = (s', hs')"
    and "i < length hs'" and "j < length hs'" and "i \<noteq> j"
  shows "blk (hs' ! i) \<inter> blk (hs' ! j) = {}"
  using run_inv [OF assms(1-3)] assms(4-6) disjoint_blocks [of s' "set hs'" "hs' ! i" "hs' ! j"]
  by (simp add: nth_eq_iff_index_eq)

end

text \<open>
  The buddy allocator keeps the contract, for clients that keep the blocks they hold off the
  lists \<open>f\<close> of the heads \<open>H\<close>.
\<close>

definition heads_ok :: "node set \<Rightarrow> bool" where
  "heads_ok H \<longleftrightarrow> H \<inter> range FreeArea \<subseteq> FreeArea ` {..MAX_BUDDY_ORDER}"

definition buddy_client ::
    "node set \<Rightarrow> (node \<Rightarrow> node list) \<Rightarrow> 'z buddy_scheme \<Rightarrow> (nat \<times> nat) set \<Rightarrow> bool" where
  "buddy_client H f s A \<longleftrightarrow> buddy_rep s H f A \<and> heads_ok H \<and>
     (\<forall>p k. (p, k) \<in> A \<longrightarrow> unlisted_out (PageNode p) H f)"

lemma alloc_fresh:
  assumes "buddy_rep s H f A" and "alloc_pages_raw s k type = (s', Some p)" and "type \<noteq> BUDDY_FREE"
  shows "(p, k) \<notin> A"
  using rep_alloc_Some(4) [OF assms(1,3,2), of "(p, k)"] blk_nonempty [of "(p, k)"] by blast

interpretation bp: page_allocator "buddy_client H f" "\<lambda>s k. alloc_pages_raw s k BUDDY_ALLOCED" free_pages_raw
  for H :: "node set" and f :: "node \<Rightarrow> node list"
proof
  fix s :: "'z buddy_scheme" and A k s' p
  assume I: "buddy_client H f s A"
  then have R: "buddy_rep s H f A" by (simp add: buddy_client_def)
  show "buddy_client H f s' (insert (p, k) A) \<and> (p, k) \<notin> A"
    if "alloc_pages_raw s k BUDDY_ALLOCED = (s', Some p)"
    using rep_alloc_Some(1,2) [OF R _ that] alloc_fresh [OF R that] I by (auto simp: buddy_client_def)
  show "buddy_client H f s' A" if r: "alloc_pages_raw s k BUDDY_ALLOCED = (s', None)"
  proof -
    have "s' = s" using r by (auto simp: alloc_pages_raw_def Let_def split: if_splits option.splits)
    with I show ?thesis by simp
  qed
  show "buddy_client H f (free_pages_raw s p) (A - {(p, k)})" if "(p, k) \<in> A"
    using rep_free(1) [OF R that] I that by (auto simp: buddy_client_def heads_ok_def)
  show "blk b \<inter> blk c = {}" if "b \<in> A" "c \<in> A" "b \<noteq> c" for b c
    using rep_blocks(6) [OF R, of "fst c" "snd c" b] that by simp
qed

section \<open>Addresses\<close>

lemma page_paddr:
  assumes "p < 2 ^ 20"
  shows "unat (get_page_paddr p) = p * 4096" "get_page_by_paddr (get_page_paddr p) = p"
    "get_low_bits (get_page_paddr p) 12 = 0"
proof -
  have u: "unat (of_nat p :: u32) = p" using assms by (simp add: unat_of_nat)
  show a: "unat (get_page_paddr p) = p * 4096"
    using assms u by (simp add: get_page_paddr_def os_const push_bit_eq_mult unat_word_ariths)
  show "get_page_by_paddr (get_page_paddr p) = p"
    unfolding get_page_by_paddr_def unat_drop_bit_u32 a by (simp add: os_const)
  have "push_bit 12 (of_nat p) AND mask 12 = (0 :: u32)"
    by (rule bit_word_eqI) (auto simp: bit_simps)
  then show "get_low_bits (get_page_paddr p) 12 = 0"
    by (simp add: get_low_bits_def get_page_paddr_def os_const mask_eq_exp_minus_1 push_bit_eq_mult
        mult.commute)
qed

lemma level_loop_spec:
  "n = 2 ^ l \<Longrightarrow> level_loop n l m = (LEAST k. l \<le> k \<and> m \<le> 2 ^ k)"
proof (induction n l m rule: level_loop.induct)
  case (1 n l m)
  show ?case
  proof (cases "n < m")
    case True
    then have "level_loop n l m = level_loop (n * 2) (l + 1) m"
      using "1.prems" by (subst level_loop.simps) simp
    also have "\<dots> = (LEAST k. l + 1 \<le> k \<and> m \<le> 2 ^ k)"
      using True "1.prems" by (intro "1.IH") auto
    also have "(\<lambda>k. l + 1 \<le> k \<and> m \<le> 2 ^ k) = (\<lambda>k. l \<le> k \<and> m \<le> 2 ^ k)"
      using True "1.prems" by (auto simp: fun_eq_iff Suc_le_eq le_less)
    finally show ?thesis .
  next
    case False
    then have "level_loop n l m = l" by (subst level_loop.simps) auto
    also have "\<dots> = (LEAST k. l \<le> k \<and> m \<le> 2 ^ k)"
      using False "1.prems" by (intro Least_equality [symmetric]) auto
    finally show ?thesis .
  qed
qed

lemma level_loop_least:
  "m \<le> 2 ^ level_loop 1 0 m" "m \<le> 2 ^ k \<Longrightarrow> level_loop 1 0 m \<le> k"
proof -
  have e: "level_loop 1 0 m = (LEAST k. m \<le> 2 ^ k)"
    using level_loop_spec [of 1 0 m] by simp
  have "m \<le> 2 ^ m" by (simp add: less_imp_le)
  then show "m \<le> 2 ^ level_loop 1 0 m" unfolding e by (rule LeastI)
  show "m \<le> 2 ^ k \<Longrightarrow> level_loop 1 0 m \<le> k" unfolding e by (rule Least_le)
qed


lemma alloc_pages_eq:
  assumes "unat sz \<le> 2 ^ 32 - 2 ^ 12"
  shows "alloc_pages s sz =
    (case alloc_pages_raw s (level_loop 1 0 ((unat sz + 4095) div 4096)) BUDDY_ALLOCED of
       (s', Some p) \<Rightarrow> (s', get_page_paddr p) | (s', None) \<Rightarrow> (s', 0))"
  using assms unat_page_cnt [of sz] by (simp add: alloc_pages_def Let_def del: unat_drop_bit_u32)

lemma pages_cover: "(n + 4095) div 4096 \<le> m \<longleftrightarrow> n \<le> m * (4096::nat)"
proof -
  have "(n + 4095) div 4096 \<le> m \<longleftrightarrow> (n + 4095) div 4096 < m + 1" by linarith
  also have "\<dots> \<longleftrightarrow> n + 4095 < (m + 1) * 4096" by (simp add: div_less_iff_less_mult)
  finally show ?thesis by linarith
qed

text \<open>A page that is not on every list is reported as not free, and no page is on two lists.\<close>

lemma freelist_loop_False:
  assumes F: "family dll (links s) H f" and H: "FreeArea ` {..MAX_BUDDY_ORDER} \<subseteq> H"
  shows "freelist_loop s p 0 = Some False"
proof -
  have c: "list_contain_node (PageNode p) (FreeArea i) (links s) = Some (PageNode p \<in> set (f (FreeArea i)))"
    if "i \<le> MAX_BUDDY_ORDER" for i
    using F H that by (intro list_contain_node_dll kl.familyD [OF F]) auto
  have n: "\<not> (PageNode p \<in> set (f (FreeArea 0)) \<and> PageNode p \<in> set (f (FreeArea 1)))"
    using kl.family_owner [OF F subsetD [OF H] subsetD [OF H], of "FreeArea 0" "FreeArea 1" "PageNode p"]
    by (auto simp: os_const)
  show ?thesis
    using n c [of 0] c [of 1] by (simp add: freelist_loop.simps [of s p 0] freelist_loop.simps [of s p "Suc 0"] os_const)
qed

section \<open>A concrete zone\<close>

definition zone16 :: buddy where
  "zone16 = init_free_loop 16 (init_areas_loop 5 (init_pages_loop 32
     \<lparr>all_pages = 0, pages = \<lambda>_. \<lparr>used_info = BUDDY_RESERVED, virt = 0, bplevel = 0, cachep = None\<rparr>,
      start_pfn = 16, zone_page_num = 16, links = \<lparr>prev = id, next = id\<rparr>\<rparr>))"

abbreviation (input) area_heads :: "node set" where
  "area_heads \<equiv> FreeArea ` {..MAX_BUDDY_ORDER}"

lemma heads_ok_areas [simp]: "heads_ok area_heads"
  by (simp add: heads_ok_def)

lemma zone16_rep: "buddy_rep zone16 area_heads (\<lambda>_. []) {}" "zone zone16 = {16..<32}"
proof -
  define s :: buddy where "s = \<lparr>all_pages = 0,
     pages = \<lambda>_. \<lparr>used_info = BUDDY_RESERVED, virt = 0, bplevel = 0, cachep = None\<rparr>,
     start_pfn = 16, zone_page_num = 16, links = \<lparr>prev = id, next = id\<rparr>\<rparr>"
  have z: "zone_ok s" "zone s = {16..<32}" by (simp_all add: zone_ok_def zone_def s_def os_const)
  have "zone16 = init_free_loop (zone_page_num s) (init_areas_loop (MAX_BUDDY_ORDER + 1) (init_pages_loop 32 s))"
  proof -
    have "MAX_BUDDY_ORDER + 1 = 5" "zone_page_num s = 16" by (simp_all add: s_def os_const)
    then show ?thesis unfolding zone16_def s_def [symmetric] by (simp only:)
  qed
  then have F: "buddy_rep zone16 area_heads (\<lambda>_. []) {} \<and> (\<exists>g h. zone16 = s\<lparr>pages := g, links := h\<rparr>)"
    using z by (intro fresh_zone_rep) auto
  then show "buddy_rep zone16 area_heads (\<lambda>_. []) {}" ..
  from F obtain g h where e: "zone16 = s\<lparr>pages := g, links := h\<rparr>" by blast
  have "zone (s\<lparr>pages := g, links := h\<rparr>) = {16..<32}" using z(2) by (simp add: zone_def)
  then show "zone zone16 = {16..<32}" unfolding e .
qed

lemma zone16_alloc:
  assumes "k \<le> 4"
  shows "\<exists>s' p. alloc_pages_raw zone16 k type = (s', Some p)"
proof (rule rep_alloc_None [OF zone16_rep(1), of _ 16])
  show "k \<le> MAX_BUDDY_ORDER" using assms by (simp add: os_const)
  show "2 ^ k dvd (16::nat)" using le_imp_power_dvd [OF assms, of "2::nat"] by simp
  show "blk (16, k) \<subseteq> zone zone16"
    using blk_mono [OF assms, of 16] unfolding zone16_rep(2) by (simp add: blk_def)
qed simp

lemma zone16_alloc_two:
  "\<exists>s1 p s2 q. alloc_pages_raw zone16 2 BUDDY_ALLOCED = (s1, Some p) \<and>
     alloc_pages_raw s1 2 BUDDY_ALLOCED = (s2, Some q)"
proof -
  obtain s1 p where r: "alloc_pages_raw zone16 2 BUDDY_ALLOCED = (s1, Some p)"
    using zone16_alloc [of 2 BUDDY_ALLOCED] by auto
  have ty: "BUDDY_ALLOCED \<noteq> BUDDY_FREE" by simp
  note S = rep_alloc_Some [OF zone16_rep(1) ty r]
  obtain g h where "s1 = zone16\<lparr>pages := g, links := h\<rparr>" using S(6) by blast
  then have z: "zone s1 = {16..<32}" using zone16_rep(2) by (simp add: zone_def)
  have p: "4 dvd p" "blk (p, 2) \<subseteq> {16..<32}" using rep_blocks(1,3) [OF S(1), of p 2] z by auto
  define q :: nat where "q = (if p = 16 then 20 else 16)"
  have "p = 16 \<or> 20 \<le> p" using p dvd_next_multiple [of 4 16 p] by (auto simp: blk_def)
  then have "blk (p, 2) \<inter> blk (q, 2) = {}" by (auto simp: blk_def q_def)
  moreover have "2 ^ 2 dvd q" "blk (q, 2) \<subseteq> zone s1" by (auto simp: z blk_def q_def)
  ultimately show ?thesis
    using r rep_alloc_None [OF S(1), of 2 q BUDDY_ALLOCED] by (simp add: os_const)
qed

definition boot64 :: bootmm_sys where
  "boot64 = \<lparr>phymm_size = 0x40000, page_num = 64, page_map = (\<lambda>x. if x < 16 then PAGE_USED else PAGE_FREE),
     last_alloc_end = 15, info_cnt = 1,
     info = (\<lambda>_. zero_info)(0 := \<lparr>start_addr = 0, info_length = 0x10000, info_type = 0\<rparr>)\<rparr>"

lemma boot64_alloc:
  "map_option (\<lambda>(m, a). (a, info m 0, page_num m))
     (bootmm_alloc_page boot64 (page_num boot64 * sizeof_page) MMINFO_TYPE_KERNEL (push_bit PAGE_SHIFT 1)) =
   Some (65536, \<lparr>start_addr = 0, info_length = 67072, info_type = 0\<rparr>, 64)"
  by code_simp

section \<open>Properties\<close>

text \<open>
  C1.  A block that \<open>__alloc_pages\<close> hands out lies in the zone, is aligned to its order, is
  disjoint from every block handed out before, is on no list, and is recorded as handed out; the
  page structures of the other blocks and the lists of the other components stay as they are, and
  the free lists again describe exactly the maximal free blocks.
\<close>

theorem buddy_alloc_block:
  assumes "buddy_rep s H f A" and "type \<noteq> BUDDY_FREE" and "alloc_pages_raw s k type = (s', Some p)"
  shows "buddy_rep s' H f (insert (p, k) A) \<and> blk (p, k) \<subseteq> zone s \<and> 2 ^ k dvd p \<and>
    (\<forall>c\<in>A. blk c \<inter> blk (p, k) = {}) \<and> unlisted_out (PageNode p) H f \<and> page_unchanged s s' A \<and>
    pages s' p = (pages s p)\<lparr>bplevel := k, used_info := type, virt := 0, cachep := None\<rparr>"
proof -
  note S = rep_alloc_Some [OF assms]
  have "zone s' = zone s" using S(6) by (auto simp: zone_def)
  then show ?thesis using S rep_blocks(1,3) [OF S(1), of p k] by simp
qed

theorem buddy_alloc_block_witness:
  "\<exists>s' p. alloc_pages_raw zone16 2 BUDDY_SLAB = (s', Some p) \<and> blk (p, 2) \<subseteq> {16..<32} \<and>
     buddy_rep s' area_heads (\<lambda>_. []) {(p, 2)}"
  using zone16_alloc [of 2 BUDDY_SLAB] buddy_alloc_block [OF zone16_rep(1), of BUDDY_SLAB 2] zone16_rep(2)
  by fastforce

text \<open>
  C3.  Coalescing is maximal, so allocation is complete: \<open>__alloc_pages\<close> fails for an order
  exactly when the pages that are not handed out contain no aligned block of that order, and then
  it changes nothing.
\<close>

theorem buddy_alloc_complete:
  assumes "buddy_rep s H f A" and "k \<le> MAX_BUDDY_ORDER" and "type \<noteq> BUDDY_FREE"
  shows "alloc_pages_raw s k type = (s, None) \<longleftrightarrow>
    \<not> (\<exists>q. 2 ^ k dvd q \<and> blk (q, k) \<subseteq> zone s \<and> (\<forall>c\<in>A. blk c \<inter> blk (q, k) = {}))"
    (is "?l \<longleftrightarrow> \<not> (\<exists>q. ?P q)")
proof
  show "\<not> (\<exists>q. ?P q)" if ?l
    using rep_alloc_None [OF assms(1,2)] that by (metis option.distinct(1) prod.inject)
  show ?l if n: "\<not> (\<exists>q. ?P q)"
  proof -
    obtain s' r where r: "alloc_pages_raw s k type = (s', r)" by fastforce
    show ?thesis
    proof (cases r)
      case None
      with r show ?thesis
        by (auto simp: alloc_pages_raw_def Let_def split: if_splits option.splits)
    next
      case (Some p)
      note S = rep_alloc_Some [OF assms(1,3) r [unfolded Some]]
      have "zone s' = zone s" using S(6) by (auto simp: zone_def)
      then have "?P p" using S(4) rep_blocks(1,3) [OF S(1), of p k] by simp
      with n show ?thesis by blast
    qed
  qed
qed

theorem buddy_alloc_complete_witness:
  "alloc_pages_raw zone16 4 BUDDY_ALLOCED \<noteq> (zone16, None)"
proof -
  have "2 ^ 4 dvd (16::nat) \<and> blk (16, 4) \<subseteq> zone zone16 \<and> (\<forall>c\<in>{}. blk c \<inter> blk (16, 4) = {})"
    by (auto simp: zone16_rep(2) blk_def)
  then show ?thesis
    using buddy_alloc_complete [OF zone16_rep(1), of 4 BUDDY_ALLOCED] by (auto simp: os_const)
qed

text \<open>
  C2.  Freeing a block that is handed out, by its first page and after its owner took it off its
  lists, removes exactly this block from those handed out, whatever its order and however far the
  merge loop runs; the page structures of the other blocks and the other lists stay as they are.
\<close>

theorem buddy_free_block:
  assumes "buddy_rep s H f A" and "heads_ok H" and "(p, k) \<in> A" and "unlisted_out (PageNode p) H f"
  shows "buddy_rep (free_pages_raw s p) H f (A - {(p, k)}) \<and>
    page_unchanged s (free_pages_raw s p) (A - {(p, k)})"
  using rep_free(1,2) [OF assms(1,3,4)] assms(2) by (simp add: heads_ok_def)

theorem buddy_free_block_witness:
  "\<exists>s' p. alloc_pages_raw zone16 2 BUDDY_SLAB = (s', Some p) \<and>
     buddy_rep (free_pages_raw s' p) area_heads (\<lambda>_. []) {}"
proof -
  obtain s' p where r: "alloc_pages_raw zone16 2 BUDDY_SLAB = (s', Some p)"
    using zone16_alloc [of 2 BUDDY_SLAB] by auto
  then have "buddy_rep s' area_heads (\<lambda>_. []) {(p, 2)}"
    using rep_alloc_Some(1) [OF zone16_rep(1) _ r] by simp
  from buddy_free_block [OF this] r show ?thesis by (auto simp: unlisted_out_def)
qed

text \<open>
  C4.  Whatever sequence of requests a client makes, two blocks it holds at the end never overlap.
\<close>

theorem buddy_requests_disjoint:
  assumes "buddy_client H f s {}"
    and "run_reqs (\<lambda>s k. alloc_pages_raw s k BUDDY_ALLOCED) free_pages_raw s [] rs = (s', hs)"
    and "i < length hs" and "j < length hs" and "i \<noteq> j"
  shows "blk (hs ! i) \<inter> blk (hs ! j) = {}"
  using bp.run_disjoint [where hs = "[]", OF _ _ assms(2-5)] assms(1) by simp

theorem buddy_requests_disjoint_witness:
  "\<exists>s' b c. run_reqs (\<lambda>s k. alloc_pages_raw s k BUDDY_ALLOCED) free_pages_raw zone16 [] [Alloc 2, Alloc 2] =
       (s', [b, c]) \<and> blk b \<inter> blk c = {}"
proof -
  obtain s1 p s2 q where "alloc_pages_raw zone16 2 BUDDY_ALLOCED = (s1, Some p)"
     "alloc_pages_raw s1 2 BUDDY_ALLOCED = (s2, Some q)" using zone16_alloc_two by blast
  then have r: "run_reqs (\<lambda>s k. alloc_pages_raw s k BUDDY_ALLOCED) free_pages_raw zone16 []
      [Alloc 2, Alloc 2] = (s2, [(q, 2), (p, 2)])" by simp
  have "buddy_client area_heads (\<lambda>_. []) zone16 {}"
    using zone16_rep(1) by (simp add: buddy_client_def)
  from buddy_requests_disjoint [OF this r, of 0 1] r show ?thesis by auto
qed


text \<open>
  \<open>init_buddy\<close>, when the boot allocator finds room for the page structures, makes the
  zone start at the first multiple of sixteen pages behind the first memory region and end at the
  last one before the end of memory, with all its pages free and coalesced.
\<close>

theorem init_buddy_zone:
  assumes "bootmm_alloc_page boot (page_num boot * sizeof_page) MMINFO_TYPE_KERNEL
      (push_bit PAGE_SHIFT 1) = Some (boot', base)"
    and "n = unat (page_num boot')" and "n \<le> 2 ^ 20"
    and "r = unat (start_addr (info boot' 0)) + unat (info_length (info boot' 0))" and "r + 2 ^ 12 \<le> 2 ^ 32"
    and "st = round_up 16 (round_up 4096 r div 4096)" and "st \<le> n"
  shows "\<exists>mm'. init_buddy boot mm = Some (boot', mm') \<and> start_pfn mm' = st \<and>
    zone_page_num mm' = (n - st) div 16 * 16 \<and> buddy_rep mm' (FreeArea ` {..MAX_BUDDY_ORDER}) (\<lambda>_. []) {}"
  using init_buddy_correct [OF assms] .


theorem init_buddy_zone_witness:
  "\<exists>boot' mm'. init_buddy boot64 zone16 = Some (boot', mm') \<and> start_pfn mm' = 32 \<and> zone_page_num mm' = 32 \<and>
     buddy_rep mm' area_heads (\<lambda>_. []) {}"
proof -
  obtain boot' base where b: "bootmm_alloc_page boot64 (page_num boot64 * sizeof_page) MMINFO_TYPE_KERNEL
      (push_bit PAGE_SHIFT 1) = Some (boot', base)"
    and i: "info boot' 0 = \<lparr>start_addr = 0, info_length = 67072, info_type = 0\<rparr>" "page_num boot' = 64"
    using boot64_alloc by (auto simp: map_option_case split: option.splits)
  show ?thesis
    using init_buddy_zone [OF b refl _ refl _ refl, of zone16] by (simp add: i round_up_def) blast
qed

text \<open>
  C5.  \<open>alloc_pages\<close> on a size of at most \<open>2 ^ 32 - 2 ^ 12\<close> bytes either changes nothing and
  returns the null pointer, or returns the physical address of a fresh block of the smallest order
  that holds the size; passing that address to \<open>free_pages\<close> gives the block back.
\<close>

theorem alloc_pages_address:
  assumes R: "buddy_rep s H f A" and H: "heads_ok H" and z: "zone s \<subseteq> {0<..<2 ^ 20}"
    and sz: "unat sz \<le> 2 ^ 32 - 2 ^ 12" and r: "alloc_pages s sz = (s', a)"
  shows "if a = 0 then s' = s
    else \<exists>p k. unat a = p * 4096 \<and> buddy_rep s' H f (insert (p, k) A) \<and> (p, k) \<notin> A \<and>
      unat sz \<le> 2 ^ k * 4096 \<and> (\<forall>j. unat sz \<le> 2 ^ j * 4096 \<longrightarrow> k \<le> j) \<and>
      buddy_rep (free_pages s' a) H f A"
proof -
  define k where "k = level_loop 1 0 ((unat sz + 4095) div 4096)"
  have k: "unat sz \<le> 2 ^ k * 4096" "\<And>j. unat sz \<le> 2 ^ j * 4096 \<Longrightarrow> k \<le> j"
    using level_loop_least [of "(unat sz + 4095) div 4096"] unfolding k_def pages_cover by blast+
  obtain t x where t: "alloc_pages_raw s k BUDDY_ALLOCED = (t, x)" by fastforce
  show ?thesis
  proof (cases x)
    case None
    then have "a = 0" "s' = t" using r t by (simp_all add: alloc_pages_eq [OF sz] k_def)
    moreover have "t = s"
      using t None by (auto simp: alloc_pages_raw_def Let_def split: if_splits option.splits)
    ultimately show ?thesis by simp
  next
    case (Some p)
    have ty: "BUDDY_ALLOCED \<noteq> BUDDY_FREE" by simp
    note S = rep_alloc_Some [OF R ty t [unfolded Some]]
    have e: "s' = t" "a = get_page_paddr p" using r t Some by (simp_all add: alloc_pages_eq [OF sz] k_def)
    obtain g h where "t = s\<lparr>pages := g, links := h\<rparr>" using S(6) by blast
    then have "zone t = zone s" by (simp add: zone_def)
    then have "p \<in> zone s" using subsetD [OF rep_blocks(1) [OF S(1), of p k] blk_start] by simp
    then have p: "0 < p" "p < 2 ^ 20" using z by auto
    have fr: "(p, k) \<notin> A" using alloc_fresh [OF R t [unfolded Some] ty] .
    have "buddy_rep (free_pages t a) H f (insert (p, k) A - {(p, k)})"
      using rep_free(1) [OF S(1) insertI1 S(2)] H page_paddr(2,3) [OF p(2)]
      by (simp add: free_pages_def e heads_ok_def)
    then have "buddy_rep (free_pages t a) H f A" using fr by simp
    moreover have "a \<noteq> 0" using page_paddr(1) [OF p(2)] p(1) e(2) by (metis mult_is_0 not_gr_zero unat_0 zero_neq_numeral)
    ultimately show ?thesis
      using S(1) k fr page_paddr(1) [OF p(2)] unfolding e by auto
  qed
qed

theorem alloc_pages_address_witness:
  "\<exists>s' a. alloc_pages zone16 10000 = (s', a) \<and> a \<noteq> 0 \<and> buddy_rep (free_pages s' a) area_heads (\<lambda>_. []) {}"
proof -
  obtain t p where t: "alloc_pages_raw zone16 2 BUDDY_ALLOCED = (t, Some p)"
    using zone16_alloc [of 2 BUDDY_ALLOCED] by auto
  have ty: "BUDDY_ALLOCED \<noteq> BUDDY_FREE" by simp
  note S = rep_alloc_Some [OF zone16_rep(1) ty t]
  have "level_loop 1 0 3 = 2" by (simp add: level_loop.simps)
  then have r: "alloc_pages zone16 10000 = (t, get_page_paddr p)"
    using alloc_pages_eq [of 10000 zone16] t by simp
  obtain g h where "t = zone16\<lparr>pages := g, links := h\<rparr>" using S(6) by blast
  then have "zone t = {16..<32}" using zone16_rep(2) by (simp add: zone_def)
  then have "p \<in> {16..<32}" using subsetD [OF rep_blocks(1) [OF S(1), of p 2] blk_start] by simp
  then have a: "get_page_paddr p \<noteq> 0" using page_paddr(1) [of p] by auto
  have z: "zone zone16 \<subseteq> {0<..<2 ^ 20}" by (auto simp: zone16_rep(2))
  have sz: "unat (10000 :: u32) \<le> 2 ^ 32 - 2 ^ 12" by simp
  from alloc_pages_address [OF zone16_rep(1) heads_ok_areas z sz r] a r show ?thesis by auto
qed

text \<open>
  C9.  For a larger size the rounding of \<open>alloc_pages\<close> wraps around to zero pages: the caller
  gets what it would get for one byte, a single page.
\<close>

theorem alloc_pages_wraps:
  assumes "2 ^ 32 - 2 ^ 12 < unat sz"
  shows "alloc_pages s sz = alloc_pages s 1"
proof -
  have "level_loop 1 0 0 = 0" "level_loop 1 0 1 = 0" by (simp_all add: level_loop.simps)
  then show ?thesis
    using assms unat_page_cnt [of sz] unat_page_cnt [of 1] by (simp add: alloc_pages_def Let_def)
qed

theorem alloc_pages_wraps_witness:
  "alloc_pages zone16 0xFFFFF001 = alloc_pages zone16 1"
  by (rule alloc_pages_wraps) simp

text \<open>
  \<open>page_is_in_freelist\<close> answers no for every page of the zone, also for those on a
  free list, and yes for the pages outside it: it asks whether the page is on all the lists.
\<close>

theorem page_is_in_freelist_result:
  assumes "buddy_rep s H f A"
  shows "page_is_in_freelist s p = Some (\<not> pgn_is_in_zone s p)"
proof -
  obtain g B where "bcore (zone s) s H g B" using assms by (auto simp: buddy_rep_def buddy_inv_def)
  then show ?thesis
    using freelist_loop_False [OF bcoreD(3)] bcore_heads by (simp add: page_is_in_freelist_def) blast
qed

theorem page_is_in_freelist_result_witness:
  "page_is_in_freelist zone16 16 = Some False"
proof -
  have "pgn_is_in_zone zone16 16 \<longleftrightarrow> 16 \<in> zone zone16" by (simp add: pgn_is_in_zone_def zone_def)
  then show ?thesis using page_is_in_freelist_result [OF zone16_rep(1), of 16] zone16_rep(2) by simp
qed

end
