(* ===== verification/Interrupts.thy ===== *)
theory Interrupts
  imports Prelude
begin

text \<open>
  Coprocessor 0, the interrupt, exception and system-call tables:
  \<^verbatim>\<open>src/arch/mips32/intr.c\<close>, \<^verbatim>\<open>src/arch/mips32/exc.c\<close>, \<^verbatim>\<open>src/kernel/syscall/syscall.c\<close> and
  the register context of \<^verbatim>\<open>src/include/ouros/pc.h\<close>.  The registers of coprocessor 0 that the
  kernel uses are the record \<open>cp0\<close>.  A handler is a name of some type \<open>'h\<close>; the code it
  stands for is the argument \<open>run\<close> of the dispatchers, a function on the whole state, so that a
  handler may also change the tables.
\<close>

section \<open>Coprocessor 0\<close>

record cp0 =
  cp0_status :: u32
  cp0_cause :: u32
  cp0_count :: u32
  cp0_compare :: u32
  cp0_entryhi :: u32
  time_9 :: u32

definition init_interrupts :: "cp0 \<Rightarrow> cp0" where
  "init_interrupts c = c\<lparr>cp0_status := cp0_status c OR 1\<rparr>"

definition enable_interrupts :: "cp0 \<Rightarrow> cp0 \<times> u32" where
  "enable_interrupts c =
     (let old = cp0_status c AND 1
      in (c\<lparr>cp0_status := cp0_status c OR 1, cp0_count := time_9 c\<rparr>, old))"

definition disable_interrupts :: "cp0 \<Rightarrow> cp0 \<times> u32" where
  "disable_interrupts c =
     (let old = cp0_status c AND 1
      in (c\<lparr>cp0_status := cp0_status c AND 0xfffffffe, time_9 := cp0_count c\<rparr>, old))"

definition restore_interrupts :: "u32 \<Rightarrow> cp0 \<Rightarrow> cp0" where
  "restore_interrupts old c = (if old \<noteq> 0 then fst (enable_interrupts c) else c)"

section \<open>The register context\<close>

record regs_context =
  r_epc :: u32
  r_at :: u32
  r_v0 :: u32
  r_v1 :: u32
  r_a0 :: u32
  r_a1 :: u32
  r_a2 :: u32
  r_a3 :: u32
  r_t0 :: u32
  r_t1 :: u32
  r_t2 :: u32
  r_t3 :: u32
  r_t4 :: u32
  r_t5 :: u32
  r_t6 :: u32
  r_t7 :: u32
  r_s0 :: u32
  r_s1 :: u32
  r_s2 :: u32
  r_s3 :: u32
  r_s4 :: u32
  r_s5 :: u32
  r_s6 :: u32
  r_s7 :: u32
  r_t8 :: u32
  r_t9 :: u32
  r_hi :: u32
  r_lo :: u32
  r_gp :: u32
  r_sp :: u32
  r_fp :: u32
  r_ra :: u32

section \<open>The tables\<close>

text \<open>
  The tables are arrays of 8, 32 and 256 entries; the entry \<open>None\<close> is the null pointer.  The
  context that the assembly entry code saves is the field \<open>pt_context\<close>.
\<close>

record 'h vectors =
  cop0 :: cp0
  interrupts :: "nat \<Rightarrow> 'h option"
  exceptions :: "nat \<Rightarrow> 'h option"
  syscalls :: "nat \<Rightarrow> 'h option"
  pt_context :: regs_context

text \<open>
  The assembly of \<open>register_interrupt_handler\<close> names the mask as an output operand only, so the
  value it ors into the status register is what the allotted register happens to hold: the
  argument \<open>operand\<close>.
\<close>

definition register_interrupt_handler ::
    "u32 \<Rightarrow> nat \<Rightarrow> 'h \<Rightarrow> ('h, 'z) vectors_scheme \<Rightarrow> ('h, 'z) vectors_scheme" where
  "register_interrupt_handler operand index fn s =
     (let index = index AND 7;
          s = s\<lparr>interrupts := (interrupts s)(index := Some fn)\<rparr>
      in s\<lparr>cop0 := (cop0 s)\<lparr>cp0_status := cp0_status (cop0 s) OR operand\<rparr>\<rparr>)"

primrec intr_loop ::
    "('h \<Rightarrow> u32 \<Rightarrow> u32 \<Rightarrow> ('h, 'z) vectors_scheme \<Rightarrow> ('h, 'z) vectors_scheme) \<Rightarrow> u32 \<Rightarrow> u32 \<Rightarrow>
     nat \<Rightarrow> nat \<Rightarrow> u32 \<Rightarrow> ('h, 'z) vectors_scheme \<Rightarrow> ('h, 'z) vectors_scheme" where
  "intr_loop run status cause 0 i index s = s"
| "intr_loop run status cause (Suc n) i index s =
     (let s = (if index AND 1 \<noteq> 0
               then (case interrupts s i of Some fn \<Rightarrow> run fn status cause s | None \<Rightarrow> s)
               else s)
      in intr_loop run status cause n (i + 1) (drop_bit 1 index) s)"

definition do_interrupts ::
    "('h \<Rightarrow> u32 \<Rightarrow> u32 \<Rightarrow> ('h, 'z) vectors_scheme \<Rightarrow> ('h, 'z) vectors_scheme) \<Rightarrow> u32 \<Rightarrow> u32 \<Rightarrow>
     ('h, 'z) vectors_scheme \<Rightarrow> ('h, 'z) vectors_scheme" where
  "do_interrupts run status cause s = intr_loop run status cause 8 0 (drop_bit 8 cause) s"

primrec clear_exceptions :: "nat \<Rightarrow> ('h, 'z) vectors_scheme \<Rightarrow> ('h, 'z) vectors_scheme" where
  "clear_exceptions 0 s = s"
| "clear_exceptions (Suc i) s =
     (let s = clear_exceptions i s in s\<lparr>exceptions := (exceptions s)(i := None)\<rparr>)"

definition init_exception :: "('h, 'z) vectors_scheme \<Rightarrow> ('h, 'z) vectors_scheme" where
  "init_exception s =
     clear_exceptions 32 (s\<lparr>cop0 := (cop0 s)\<lparr>cp0_status := 0, cp0_cause := 0x800000\<rparr>\<rparr>)"

definition register_exception_handler :: "nat \<Rightarrow> 'h \<Rightarrow> ('h, 'z) vectors_scheme \<Rightarrow> ('h, 'z) vectors_scheme" where
  "register_exception_handler index fn s =
     s\<lparr>exceptions := (exceptions s)(index AND 31 := Some fn)\<rparr>"

text \<open>Without a handler the exception entry prints a report and spins: \<open>None\<close>.\<close>

definition do_exceptions ::
    "('h \<Rightarrow> u32 \<Rightarrow> u32 \<Rightarrow> ('h, 'z) vectors_scheme \<Rightarrow> ('h, 'z) vectors_scheme) \<Rightarrow> u32 \<Rightarrow> u32 \<Rightarrow>
     ('h, 'z) vectors_scheme \<Rightarrow> ('h, 'z) vectors_scheme option" where
  "do_exceptions run status cause s =
     (let (c, old) = disable_interrupts (cop0 s);
          s = s\<lparr>cop0 := c\<rparr>;
          index = unat (drop_bit 2 cause AND 0x1f)
      in case exceptions s index of
           None \<Rightarrow> None
         | Some fn \<Rightarrow>
             (let s = run fn status cause s in Some (s\<lparr>cop0 := restore_interrupts old (cop0 s)\<rparr>)))"

definition register_syscall :: "nat \<Rightarrow> 'h \<Rightarrow> ('h, 'z) vectors_scheme \<Rightarrow> ('h, 'z) vectors_scheme" where
  "register_syscall index fn s = s\<lparr>syscalls := (syscalls s)(index AND 255 := Some fn)\<rparr>"

text \<open>
  \<open>syscall\<close> indexes the table with register v0 as the user left it; beyond the 256 entries the
  source reads memory it does not own and calls what it finds there: \<open>None\<close>.
\<close>

definition syscall ::
    "('h \<Rightarrow> u32 \<Rightarrow> u32 \<Rightarrow> ('h, 'z) vectors_scheme \<Rightarrow> ('h, 'z) vectors_scheme) \<Rightarrow> u32 \<Rightarrow> u32 \<Rightarrow>
     ('h, 'z) vectors_scheme \<Rightarrow> ('h, 'z) vectors_scheme option" where
  "syscall run status cause s =
     (let code = r_v0 (pt_context s);
          s = s\<lparr>pt_context := (pt_context s)\<lparr>r_epc := r_epc (pt_context s) + 4\<rparr>\<rparr>
      in if unat code < 256
         then Some (case syscalls s (unat code) of Some fn \<Rightarrow> run fn status cause s | None \<Rightarrow> s)
         else None)"

definition init_syscall :: "'h \<Rightarrow> 'h \<Rightarrow> ('h, 'z) vectors_scheme \<Rightarrow> ('h, 'z) vectors_scheme" where
  "init_syscall syscall_fn syscall4_fn s =
     register_syscall 4 syscall4_fn (register_exception_handler 8 syscall_fn s)"

section \<open>Critical sections\<close>

definition irq_enabled :: "cp0 \<Rightarrow> bool" where
  "irq_enabled c \<longleftrightarrow> bit (cp0_status c) 0"

lemma and_1_u32: "x AND 1 = (if bit x 0 then 1 else 0)" for x :: u32
  by (rule bit_word_eqI) (auto simp: bit_simps intro: gr0I)

lemma mask_FE: "(0xfffffffe :: u32) = NOT 1"
  by code_simp

lemma disable_interrupts_eq:
  "snd (disable_interrupts c) = (if irq_enabled c then 1 else 0)"
  "\<not> irq_enabled (fst (disable_interrupts c))"
  "cp0_status (fst (disable_interrupts c)) = cp0_status c AND NOT 1"
proof -
  show "cp0_status (fst (disable_interrupts c)) = cp0_status c AND NOT 1"
    unfolding mask_FE [symmetric] by (simp add: disable_interrupts_def Let_def)
  then show "\<not> irq_enabled (fst (disable_interrupts c))"
    by (simp add: irq_enabled_def bit_simps)
  show "snd (disable_interrupts c) = (if irq_enabled c then 1 else 0)"
    by (simp add: disable_interrupts_def Let_def irq_enabled_def and_1_u32)
qed

text \<open>
  A section between \<open>disable_interrupts\<close> and the conditional \<open>enable_interrupts\<close> that does
  not touch the status register itself leaves this register as it was, also when sections nest.
\<close>

lemma restore_status:
  assumes "cp0_status c' = cp0_status (fst (disable_interrupts c))"
  shows "cp0_status (restore_interrupts (snd (disable_interrupts c)) c') = cp0_status c"
proof (cases "irq_enabled c")
  case True
  then have "bit (cp0_status c) 0" by (simp add: irq_enabled_def)
  then have "(cp0_status c AND NOT 1) OR 1 = cp0_status c"
    by (intro bit_word_eqI) (auto simp: bit_simps)
  with True assms show ?thesis
    by (simp add: restore_interrupts_def enable_interrupts_def Let_def disable_interrupts_eq)
next
  case False
  then have "\<not> bit (cp0_status c) 0" by (simp add: irq_enabled_def)
  then have "cp0_status c AND NOT 1 = cp0_status c"
    by (intro bit_word_eqI) (auto simp: bit_simps intro: gr0I)
  with False assms show ?thesis by (simp add: restore_interrupts_def disable_interrupts_eq)
qed


section \<open>Dispatching\<close>

definition pending :: "u32 \<Rightarrow> nat list" where
  "pending cause = filter (\<lambda>i. bit cause (i + 8)) [0..<8]"

lemma intr_loop_fold:
  assumes "\<And>fn s. interrupts (run fn status cause s) = interrupts s"
  shows "intr_loop run status cause n i index s =
    fold (\<lambda>j s. case interrupts s j of Some fn \<Rightarrow> run fn status cause s | None \<Rightarrow> s)
      (filter (\<lambda>j. bit index (j - i)) [i..<i + n]) s"
proof (induction n arbitrary: i index s)
  case (Suc n)
  have "[i..<i + Suc n] = i # [Suc i..<Suc i + n]" by (simp add: upt_conv_Cons)
  moreover have "filter (\<lambda>j. bit index (j - i)) [Suc i..<Suc i + n] =
      filter (\<lambda>j. bit (drop_bit 1 index) (j - Suc i)) [Suc i..<Suc i + n]"
    by (rule filter_cong) (auto simp: bit_simps Suc_diff_Suc Suc_le_eq)
  ultimately show ?case using Suc.IH by (simp add: Let_def and_1_u32)
qed simp

section \<open>Properties\<close>

text \<open>
  An interrupt runs the registered handlers of exactly the pending lines, in ascending order
  of the lines, for handlers that leave the table of handlers alone.
\<close>

theorem do_interrupts_pending:
  assumes "\<And>fn s. interrupts (run fn status cause s) = interrupts s"
  shows "do_interrupts run status cause s =
    fold (\<lambda>fn. run fn status cause) (List.map_filter (interrupts s) (pending cause)) s"
proof -
  let ?step = "\<lambda>j s. case interrupts s j of Some fn \<Rightarrow> run fn status cause s | None \<Rightarrow> s"
  have "fold ?step js s = fold (\<lambda>fn. run fn status cause) (List.map_filter (interrupts s) js) s" for js s
    using assms by (induction js arbitrary: s) (auto simp: List.map_filter_simps split: option.splits)
  moreover have "filter (\<lambda>j. bit (drop_bit 8 cause) (j - 0)) [0..<0 + 8] = pending cause"
    unfolding pending_def by (rule filter_cong) (auto simp: bit_simps add.commute)
  ultimately show ?thesis
    unfolding do_interrupts_def intr_loop_fold [where run = run, OF assms] by simp
qed

definition demo_vectors :: "u32 vectors" where
  "demo_vectors = \<lparr>cop0 = \<lparr>cp0_status = 0x8401, cp0_cause = 0, cp0_count = 0, cp0_compare = 0,
       cp0_entryhi = 0, time_9 = 0\<rparr>, interrupts = [2 \<mapsto> 5, 7 \<mapsto> 9], exceptions = [8 \<mapsto> 1], syscalls = [4 \<mapsto> 3],
     pt_context = undefined\<rparr>"

definition demo_run :: "u32 \<Rightarrow> u32 \<Rightarrow> u32 \<Rightarrow> u32 vectors \<Rightarrow> u32 vectors" where
  "demo_run fn status cause s = s\<lparr>cop0 := (cop0 s)\<lparr>cp0_compare := cp0_compare (cop0 s) * 16 + fn\<rparr>\<rparr>"

theorem do_interrupts_pending_witness:
  "do_interrupts demo_run 0 0x8400 demo_vectors =
     demo_vectors\<lparr>cop0 := (cop0 demo_vectors)\<lparr>cp0_compare := 0x59\<rparr>\<rparr>"
proof -
  have p: "pending 0x8400 = [2, 7]" by code_simp
  show ?thesis
    using do_interrupts_pending [where run = demo_run and status = 0 and cause = "0x8400" and s = demo_vectors]
    by (simp add: p) (simp add: demo_run_def demo_vectors_def List.map_filter_simps)
qed

text \<open>
  An exception with a registered handler that does not touch the interrupt-enable bit itself
  leaves the status register as it found it; without a handler the kernel stops.
\<close>

theorem do_exceptions_status:
  assumes "\<And>fn s. cp0_status (cop0 (run fn status cause s)) = cp0_status (cop0 s)"
  shows "case do_exceptions run status cause s of
      None \<Rightarrow> exceptions s (unat (drop_bit 2 cause AND 0x1f)) = None
    | Some s' \<Rightarrow> cp0_status (cop0 s') = cp0_status (cop0 s)"
proof -
  let ?c = "fst (disable_interrupts (cop0 s))"
  have "cp0_status (restore_interrupts (snd (disable_interrupts (cop0 s)))
      (cop0 (run fn status cause (s\<lparr>cop0 := ?c\<rparr>)))) = cp0_status (cop0 s)" for fn
    using assms by (intro restore_status) simp
  then show ?thesis
    by (cases "disable_interrupts (cop0 s)") (auto simp: do_exceptions_def Let_def split: option.splits)
qed

theorem do_exceptions_status_witness:
  "case do_exceptions demo_run 0 0x20 demo_vectors of
     None \<Rightarrow> False | Some s' \<Rightarrow> cp0_status (cop0 s') = 0x8401"
proof -
  have i: "unat (drop_bit 2 0x20 AND 0x1f :: u32) = 8" by code_simp
  show ?thesis
    using do_exceptions_status [where run = demo_run and status = 0 and cause = "0x20" and s = demo_vectors] i
    by (auto simp: demo_run_def demo_vectors_def split: option.splits)
qed

end
