(* ===== verification/Slab.thy ===== *)
theory Slab
  imports Buddy Interrupts
begin

text \<open>
  The slab allocator, \<^verbatim>\<open>src/kernel/mm/slab.c\<close>, \<^verbatim>\<open>src/kernel/mm/slab.h\<close> and
  \<^verbatim>\<open>src/include/ouros/slab.h\<close>.  A \<^verbatim>\<open>struct kmem_cache *\<close> is the index of the cache in
  \<^verbatim>\<open>kmem_caches\<close>; a \<^verbatim>\<open>struct slab_head *\<close> is the virtual address of its page.  The list nodes
  in a slab page are the nodes \<open>ObjNode a\<close> of the shared link store, named by their address
  \<open>a\<close>, on which the code does arithmetic.
\<close>

section \<open>Data\<close>

definition SLAB_ALIGN :: u32 where "SLAB_ALIGN = 4"
definition KMEM_CACHE_NUM :: nat where "KMEM_CACHE_NUM = 12"
definition sizeof_list_head :: u32 where "sizeof_list_head = 8"
definition sizeof_slab_head :: u32 where "sizeof_slab_head = 24"

definition kmem_cache_size :: "u32 list" where
  "kmem_cache_size = [8, 16, 32, 64, 96, 128, 192, 256, 512, 1024, 1536, 2048]"

lemmas slab_consts [os_const] =
  SLAB_ALIGN_def KMEM_CACHE_NUM_def sizeof_list_head_def sizeof_slab_head_def

record slab_head =
  alloc_num :: u32
  free_num :: u32

record kmem_cache =
  obj_step :: u32
  object_size :: u32
  capacity :: u32
  cpu_page :: "nat option"

record slab = buddy +
  kmem_caches :: "nat \<Rightarrow> kmem_cache"
  slab_heads :: "u32 \<Rightarrow> slab_head"
  cpu :: cp0

text \<open>
  The address of a list node that lies in a slab page: the two lists of the slab head come first
  in it, and an object node is named by its address.
\<close>

fun node_addr :: "node \<Rightarrow> u32" where
  "node_addr (SlabAlloc slabp) = slabp"
| "node_addr (SlabFree slabp) = slabp + sizeof_list_head"
| "node_addr (ObjNode a) = a"

definition get_page_by_slab :: "u32 \<Rightarrow> nat" where
  "get_page_by_slab slabp = get_page_by_paddr (get_kernel_paddr slabp)"

definition slab_is_full :: "'z slab_scheme \<Rightarrow> nat \<Rightarrow> u32 \<Rightarrow> bool" where
  "slab_is_full s ci slabp \<longleftrightarrow> alloc_num (slab_heads s slabp) = capacity (kmem_caches s ci)"

definition slab_is_empty :: "'z slab_scheme \<Rightarrow> u32 \<Rightarrow> bool" where
  "slab_is_empty s slabp \<longleftrightarrow> alloc_num (slab_heads s slabp) = 0"

definition upd_links :: "(node lheap \<Rightarrow> node lheap) \<Rightarrow> 'z buddy_scheme \<Rightarrow> 'z buddy_scheme" where
  "upd_links g s = s\<lparr>links := g (links s)\<rparr>"

definition upd_slab :: "u32 \<Rightarrow> (slab_head \<Rightarrow> slab_head) \<Rightarrow> 'z slab_scheme \<Rightarrow> 'z slab_scheme" where
  "upd_slab a g s = s\<lparr>slab_heads := (slab_heads s)(a := g (slab_heads s a))\<rparr>"

definition upd_cache :: "nat \<Rightarrow> (kmem_cache \<Rightarrow> kmem_cache) \<Rightarrow> 'z slab_scheme \<Rightarrow> 'z slab_scheme" where
  "upd_cache i g s = s\<lparr>kmem_caches := (kmem_caches s)(i := g (kmem_caches s i))\<rparr>"

section \<open>Caches\<close>

definition init_kmem_cache_node :: "nat \<Rightarrow> 'z slab_scheme \<Rightarrow> 'z slab_scheme" where
  "init_kmem_cache_node ci s =
     upd_links (INIT_LIST_HEAD (CachePartial ci))
       (upd_links (INIT_LIST_HEAD (CacheFull ci))
         (upd_links (INIT_LIST_HEAD (CacheFree ci)) s))"

definition init_kmem_cache :: "nat \<Rightarrow> u32 \<Rightarrow> 'z slab_scheme \<Rightarrow> 'z slab_scheme" where
  "init_kmem_cache ci sz s =
     (let osz = upper_align sz SLAB_ALIGN;
          step = upper_align (osz + sizeof_list_head) SLAB_ALIGN;
          cap = (PAGE_SIZE - sizeof_slab_head) div step
      in init_kmem_cache_node ci
           (upd_cache ci (\<lambda>_. \<lparr>obj_step = step, object_size = osz, capacity = cap, cpu_page = None\<rparr>) s))"

primrec init_caches_loop :: "nat \<Rightarrow> 'z slab_scheme \<Rightarrow> 'z slab_scheme" where
  "init_caches_loop 0 s = s"
| "init_caches_loop (Suc i) s = init_kmem_cache i (kmem_cache_size ! i) (init_caches_loop i s)"

definition init_slab :: "'z slab_scheme \<Rightarrow> 'z slab_scheme" where
  "init_slab s = init_caches_loop KMEM_CACHE_NUM s"

section \<open>Objects of a slab page\<close>

definition init_object_in_page :: "nat \<Rightarrow> nat \<Rightarrow> 'z slab_scheme \<Rightarrow> 'z slab_scheme" where
  "init_object_in_page ci pagep s =
     (let slabp = virt (pages s pagep);
          s = upd_links (INIT_LIST_HEAD (SlabAlloc slabp)) s;
          s = upd_slab slabp (\<lambda>h. h\<lparr>alloc_num := 0\<rparr>) s;
          s = upd_links (INIT_LIST_HEAD (SlabFree slabp)) s;
          first_free = slabp + sizeof_slab_head + obj_step (kmem_caches s ci);
          s = upd_links (list_add_tail (ObjNode first_free) (SlabFree slabp)) s
      in upd_slab slabp (\<lambda>h. h\<lparr>free_num := 1\<rparr>) s)"

definition alloc_new_object_in_page :: "nat \<Rightarrow> u32 \<Rightarrow> 'z slab_scheme \<Rightarrow> 'z slab_scheme" where
  "alloc_new_object_in_page ci slabp s =
     (let h = slab_heads s slabp in
      if alloc_num h + free_num h < capacity (kmem_caches s ci)
      then let next_free = node_addr (prev (links s) (SlabFree slabp)) + obj_step (kmem_caches s ci);
               s = upd_links (list_add_tail (ObjNode next_free) (SlabFree slabp)) s
           in upd_slab slabp (\<lambda>h. h\<lparr>free_num := free_num h + 1\<rparr>) s
      else s)"

definition alloc_object :: "nat \<Rightarrow> u32 \<Rightarrow> 'z slab_scheme \<Rightarrow> 'z slab_scheme \<times> u32" where
  "alloc_object ci slabp s =
     (let s = (if free_num (slab_heads s slabp) = 1 then alloc_new_object_in_page ci slabp s else s) in
      if free_num (slab_heads s slabp) \<noteq> 0
      then let alloc_node = next (links s) (SlabFree slabp);
               ret = node_addr alloc_node - object_size (kmem_caches s ci);
               s = upd_links (list_del alloc_node) s;
               s = upd_slab slabp (\<lambda>h. h\<lparr>free_num := free_num h - 1\<rparr>) s;
               s = upd_links (list_add alloc_node (SlabAlloc slabp)) s;
               s = upd_slab slabp (\<lambda>h. h\<lparr>alloc_num := alloc_num h + 1\<rparr>) s
           in (s, ret)
      else (s, 0))"

section \<open>Allocating and freeing in a cache\<close>

text \<open>
  The page to allocate from: the current page, else the first partial one, else the first free
  one, else a new page of the buddy allocator; None when that one has no page.
\<close>

definition slab_page :: "nat \<Rightarrow> 'z slab_scheme \<Rightarrow> 'z slab_scheme \<times> nat option" where
  "slab_page ci s =
     (let usable = (case cpu_page (kmem_caches s ci) of
                      None \<Rightarrow> None
                    | Some p \<Rightarrow> if slab_is_full s ci (virt (pages s p)) then None else Some p)
      in case usable of
        Some p \<Rightarrow> (s, Some p)
      | None \<Rightarrow>
          if \<not> list_empty (CachePartial ci) (links s)
          then let p = page_of (next (links s) (CachePartial ci))
               in (upd_cache ci (\<lambda>c. c\<lparr>cpu_page := Some p\<rparr>) s, Some p)
          else if \<not> list_empty (CacheFree ci) (links s)
          then let p = page_of (next (links s) (CacheFree ci))
               in (upd_cache ci (\<lambda>c. c\<lparr>cpu_page := Some p\<rparr>) s, Some p)
          else (case alloc_pages_raw s 0 BUDDY_SLAB of
                  (s, None) \<Rightarrow> (s, None)
                | (s, Some p) \<Rightarrow>
                    let s = upd_page p (\<lambda>pg. pg\<lparr>virt := get_kernel_vaddr (get_page_paddr p),
                              used_info := BUDDY_SLAB, cachep := Some ci\<rparr>) s;
                        s = upd_links (list_add (PageNode p) (CacheFree ci)) s;
                        s = init_object_in_page ci p s
                    in (upd_cache ci (\<lambda>c. c\<lparr>cpu_page := Some p\<rparr>) s, Some p)))"

definition move_page :: "nat \<Rightarrow> node \<Rightarrow> 'z slab_scheme \<Rightarrow> 'z slab_scheme" where
  "move_page p l s = upd_links (list_add (PageNode p) l) (upd_links (list_del (PageNode p)) s)"

definition kmem_cache_alloc :: "nat \<Rightarrow> 'z slab_scheme \<Rightarrow> 'z slab_scheme \<times> u32" where
  "kmem_cache_alloc ci s =
     (case slab_page ci s of
        (s, None) \<Rightarrow> (s, 0)
      | (s, Some p) \<Rightarrow>
          let page_slab = virt (pages s p);
              was_free = slab_is_empty s page_slab;
              (s, ret) = alloc_object ci page_slab s;
              s = (if slab_is_full s ci page_slab then move_page p (CacheFull ci) s
                   else if was_free then move_page p (CachePartial ci) s
                   else s)
          in (s, ret))"

definition kmem_cache_free :: "nat \<Rightarrow> u32 \<Rightarrow> 'z slab_scheme \<Rightarrow> 'z slab_scheme" where
  "kmem_cache_free ci objp s =
     (let slabp = lower_align objp PAGE_SIZE;
          p = get_page_by_slab slabp;
          obj_list = ObjNode (objp + object_size (kmem_caches s ci));
          was_full = slab_is_full s ci slabp;
          s = upd_links (list_del obj_list) s;
          s = upd_slab slabp (\<lambda>h. h\<lparr>alloc_num := alloc_num h - 1\<rparr>) s;
          s = upd_links (list_add obj_list (SlabFree slabp)) s;
          s = upd_slab slabp (\<lambda>h. h\<lparr>free_num := free_num h + 1\<rparr>) s
      in if alloc_num (slab_heads s slabp) = 0 then move_page p (CacheFree ci) s
         else if was_full then move_page p (CachePartial ci) s
         else s)"

definition kmem_cache_free_page :: "u32 \<Rightarrow> 'z slab_scheme \<Rightarrow> 'z slab_scheme" where
  "kmem_cache_free_page pagevp s =
     (let p = get_page_by_slab pagevp in
      if alloc_num (slab_heads s pagevp) \<noteq> 0 then s
      else free_pages_raw (upd_links (list_del (PageNode p)) s) p)"

section \<open>kmalloc and kfree\<close>

primrec find_cache :: "nat \<Rightarrow> nat \<Rightarrow> u32 \<Rightarrow> nat option" where
  "find_cache 0 i sz = None"
| "find_cache (Suc n) i sz = (if sz \<le> kmem_cache_size ! i then Some i else find_cache n (i + 1) sz)"

definition kmalloc :: "u32 \<Rightarrow> 'z slab_scheme \<Rightarrow> 'z slab_scheme \<times> u32" where
  "kmalloc sz s =
     (let (c, old) = disable_interrupts (cpu s);
          s = s\<lparr>cpu := c\<rparr>;
          (s, ret) =
            (if sz \<le> kmem_cache_size ! (KMEM_CACHE_NUM - 1)
             then (case find_cache KMEM_CACHE_NUM 0 sz of
                     Some i \<Rightarrow> kmem_cache_alloc i s
                   | None \<Rightarrow> (s, 0))
             else (case alloc_pages s sz of
                     (s, ret) \<Rightarrow> (s, if ret \<noteq> 0 then get_kernel_vaddr ret else ret)))
      in (s\<lparr>cpu := restore_interrupts old (cpu s)\<rparr>, ret))"

text \<open>
  \<open>kfree\<close> on a slab page whose cache pointer is null dereferences the null pointer: None.
\<close>

definition kfree :: "u32 \<Rightarrow> 'z slab_scheme \<Rightarrow> 'z slab_scheme option" where
  "kfree objp s =
     (let (c, old) = disable_interrupts (cpu s);
          s = s\<lparr>cpu := c\<rparr>;
          slabp = lower_align objp PAGE_SIZE;
          p = get_page_by_slab slabp;
          res = (if used_info (pages s p) = BUDDY_SLAB
                 then map_option (\<lambda>i. kmem_cache_free i objp s) (cachep (pages s p))
                 else Some (free_pages s (get_kernel_paddr objp)))
      in map_option (\<lambda>s. s\<lparr>cpu := restore_interrupts old (cpu s)\<rparr>) res)"


section \<open>Layout of a slab page\<close>

text \<open>
  What the code relies on of a cache: an object is followed by its list node, and as many pairs as
  the capacity says fit behind the slab head and the room of one node.
\<close>

definition cache_ok :: "kmem_cache \<Rightarrow> bool" where
  "cache_ok c \<longleftrightarrow> obj_step c = object_size c + 8 \<and> 8 \<le> unat (object_size c) \<and> unat (object_size c) \<le> 2048 \<and>
     0 < unat (capacity c) \<and> 32 + unat (capacity c) * unat (obj_step c) \<le> 4096"

definition obj_node :: "kmem_cache \<Rightarrow> u32 \<Rightarrow> nat \<Rightarrow> node" where
  "obj_node c slabp j = ObjNode (slabp + 24 + of_nat (Suc j) * obj_step c)"

definition obj_addr :: "kmem_cache \<Rightarrow> u32 \<Rightarrow> nat \<Rightarrow> u32" where
  "obj_addr c slabp j = slabp + 24 + of_nat (Suc j) * obj_step c - object_size c"

definition page_aligned :: "u32 \<Rightarrow> bool" where
  "page_aligned a \<longleftrightarrow> 4096 dvd unat a"

lemma page_aligned_room: "page_aligned a \<Longrightarrow> unat a + 4096 \<le> 2 ^ 32"
  using dvd_next_multiple [of 4096 "unat a" "2 ^ 32"] unsigned_less [of a, where ?'a = nat]
  by (simp add: page_aligned_def)

lemma cache_room:
  assumes "cache_ok c" and "j < unat (capacity c)"
  shows "32 + Suc j * unat (obj_step c) \<le> 4096"
proof -
  have "Suc j * unat (obj_step c) \<le> unat (capacity c) * unat (obj_step c)"
    using assms(2) by (intro mult_le_mono1) simp
  with assms(1) show ?thesis unfolding cache_ok_def by linarith
qed

lemma obj_step_unat: "cache_ok c \<Longrightarrow> unat (obj_step c) = unat (object_size c) + 8"
  by (simp add: cache_ok_def unat_word_ariths)

lemma unat_node:
  assumes c: "cache_ok c" and a: "page_aligned slabp" and j: "j < unat (capacity c)"
  shows "unat (slabp + 24 + of_nat (Suc j) * obj_step c) = unat slabp + 24 + Suc j * unat (obj_step c)"
proof -
  have r: "32 + Suc j * unat (obj_step c) \<le> 4096" by (rule cache_room [OF c j])
  have s8: "8 \<le> unat (obj_step c)" using obj_step_unat [OF c] by simp
  define x where "x = Suc j * unat (obj_step c)"
  have "Suc j * 8 \<le> x" unfolding x_def using s8 by (rule mult_le_mono2)
  then have sj: "Suc j < 4096" using r unfolding x_def [symmetric] by simp
  have "unat (of_nat (Suc j) * obj_step c) = Suc j * unat (obj_step c)"
    using r sj by (simp add: unat_word_ariths unat_of_nat del: of_nat_Suc)
  then show ?thesis
    using r page_aligned_room [OF a] by (simp add: unat_word_ariths del: of_nat_Suc)
qed

lemma unat_obj:
  assumes c: "cache_ok c" and a: "page_aligned slabp" and j: "j < unat (capacity c)"
  shows "unat (obj_addr c slabp j) = unat slabp + 32 + j * unat (obj_step c)"
proof -
  have "object_size c \<le> slabp + 24 + of_nat (Suc j) * obj_step c"
    using unat_node [OF assms] obj_step_unat [OF c] by (simp add: word_le_nat_alt del: of_nat_Suc)
  then show ?thesis
    using unat_node [OF assms] obj_step_unat [OF c]
    by (simp add: obj_addr_def unat_sub del: of_nat_Suc)
qed

lemma obj_node_inj:
  assumes "cache_ok c" and "page_aligned slabp" and "i < unat (capacity c)" and "j < unat (capacity c)"
    and "obj_node c slabp i = obj_node c slabp j"
  shows "i = j"
proof -
  have "unat (slabp + 24 + of_nat (Suc i) * obj_step c) = unat (slabp + 24 + of_nat (Suc j) * obj_step c)"
    using assms(5) by (simp add: obj_node_def del: of_nat_Suc)
  then have "Suc i * unat (obj_step c) = Suc j * unat (obj_step c)"
    using unat_node [OF assms(1,2,3)] unat_node [OF assms(1,2,4)] by simp
  then show ?thesis using obj_step_unat [OF assms(1)] by simp
qed

lemma init_kmem_cache_frame:
  "kmem_caches (init_kmem_cache i sz s) j = (if j = i then
     \<lparr>obj_step = upper_align (upper_align sz SLAB_ALIGN + sizeof_list_head) SLAB_ALIGN,
      object_size = upper_align sz SLAB_ALIGN,
      capacity = (PAGE_SIZE - sizeof_slab_head) div upper_align (upper_align sz SLAB_ALIGN + sizeof_list_head) SLAB_ALIGN,
      cpu_page = None\<rparr> else kmem_caches s j)"
  by (simp add: init_kmem_cache_def init_kmem_cache_node_def upd_links_def upd_cache_def Let_def)

definition std_cache :: "nat \<Rightarrow> kmem_cache" where
  "std_cache i = (let sz = kmem_cache_size ! i in
     \<lparr>obj_step = sz + 8, object_size = sz, capacity = 4072 div (sz + 8), cpu_page = None\<rparr>)"

lemma all_caches: "list_all (\<lambda>i. (let sz = kmem_cache_size ! i in
    upper_align sz SLAB_ALIGN = sz \<and> upper_align (sz + sizeof_list_head) SLAB_ALIGN = sz + 8 \<and>
    PAGE_SIZE - sizeof_slab_head = 4072 \<and>
    8 \<le> sz \<and> sz \<le> 2048 \<and> 4072 div (sz + 8) > 0 \<and>
    32 + unat (4072 div (sz + 8)) * unat (sz + 8) \<le> 4096)) [0..<KMEM_CACHE_NUM]"
  by code_simp

lemma init_slab_caches:
  "i < KMEM_CACHE_NUM \<Longrightarrow> kmem_caches (init_slab s) i = std_cache i"
proof -
  assume i: "i < KMEM_CACHE_NUM"
  have "kmem_caches (init_caches_loop n s) i = (if i < n then std_cache i else kmem_caches s i)"
    if "n \<le> KMEM_CACHE_NUM" for n
    using that
  proof (induction n)
    case (Suc n)
    then have "n \<in> set [0..<KMEM_CACHE_NUM]" by simp
    with all_caches have "let sz = kmem_cache_size ! n in
        upper_align sz SLAB_ALIGN = sz \<and> upper_align (sz + sizeof_list_head) SLAB_ALIGN = sz + 8 \<and>
        PAGE_SIZE - sizeof_slab_head = 4072"
      unfolding list_all_iff Let_def by blast
    then show ?case using Suc by (auto simp: init_kmem_cache_frame std_cache_def Let_def)
  qed simp
  with i show ?thesis by (simp add: init_slab_def)
qed

lemma std_cache_ok: "i < KMEM_CACHE_NUM \<Longrightarrow> cache_ok (std_cache i)"
proof -
  assume "i < KMEM_CACHE_NUM"
  then have "i \<in> set [0..<KMEM_CACHE_NUM]" by simp
  with all_caches have "let sz = kmem_cache_size ! i in 8 \<le> sz \<and> sz \<le> 2048 \<and> 4072 div (sz + 8) > 0 \<and>
    32 + unat (4072 div (sz + 8)) * unat (sz + 8) \<le> 4096"
    unfolding list_all_iff Let_def by blast
  then show ?thesis by (simp add: cache_ok_def std_cache_def Let_def word_le_nat_alt word_less_nat_alt)
qed


section \<open>One slab page\<close>

text \<open>
  The lists of a slab page hold exactly the object nodes carved so far, the first \<open>n\<close> ones;
  while there is room left, the free list is not empty and ends in the last carved node, which is
  where \<open>alloc_new_object_in_page\<close> carves the next one.
\<close>

definition carved :: "slab_head \<Rightarrow> nat" where
  "carved h = unat (alloc_num h) + unat (free_num h)"

definition slab_ok ::
    "kmem_cache \<Rightarrow> slab_head \<Rightarrow> node set \<Rightarrow> (node \<Rightarrow> node list) \<Rightarrow> u32 \<Rightarrow> bool" where
  "slab_ok c h H f slabp \<longleftrightarrow>
     cache_ok c \<and> page_aligned slabp \<and> SlabAlloc slabp \<in> H \<and> SlabFree slabp \<in> H \<and>
     length (f (SlabAlloc slabp)) = unat (alloc_num h) \<and> length (f (SlabFree slabp)) = unat (free_num h) \<and>
     set (f (SlabAlloc slabp)) \<union> set (f (SlabFree slabp)) = obj_node c slabp ` {..<carved h} \<and>
     carved h \<le> unat (capacity c) \<and>
     (carved h < unat (capacity c) \<longrightarrow>
        f (SlabFree slabp) \<noteq> [] \<and> last (f (SlabFree slabp)) = obj_node c slabp (carved h - 1)) \<and>
     (\<forall>j. carved h \<le> j \<and> j < unat (capacity c) \<longrightarrow>
        obj_node c slabp j \<notin> H \<and> (\<forall>l\<in>H. obj_node c slabp j \<notin> set (f l)))"

lemma slab_okD:
  assumes "slab_ok c h H f slabp"
  shows "cache_ok c" "page_aligned slabp" "SlabAlloc slabp \<in> H" "SlabFree slabp \<in> H"
    "length (f (SlabAlloc slabp)) = unat (alloc_num h)" "length (f (SlabFree slabp)) = unat (free_num h)"
    "set (f (SlabAlloc slabp)) \<union> set (f (SlabFree slabp)) = obj_node c slabp ` {..<carved h}"
    "carved h \<le> unat (capacity c)"
    "carved h < unat (capacity c) \<Longrightarrow> f (SlabFree slabp) \<noteq> []"
    "carved h < unat (capacity c) \<Longrightarrow> last (f (SlabFree slabp)) = obj_node c slabp (carved h - 1)"
    "carved h \<le> j \<Longrightarrow> j < unat (capacity c) \<Longrightarrow> l \<in> H \<Longrightarrow> obj_node c slabp j \<notin> set (f l)"
    "carved h \<le> j \<Longrightarrow> j < unat (capacity c) \<Longrightarrow> obj_node c slabp j \<notin> H"
  using assms unfolding slab_ok_def by blast+

lemma capacity_bound: "cache_ok c \<Longrightarrow> unat (capacity c) \<le> 508"
proof -
  assume c: "cache_ok c"
  then have "16 \<le> unat (obj_step c)" using obj_step_unat [OF c] by (simp add: cache_ok_def)
  then have "unat (capacity c) * 16 \<le> unat (capacity c) * unat (obj_step c)" by (rule mult_le_mono2)
  with c show ?thesis unfolding cache_ok_def by linarith
qed

lemma slab_upd_simps [simp]:
  "links (upd_links g s) = g (links s)" "pages (upd_links g s) = pages s"
  "links (upd_slab a k t) = links t" "slab_heads (upd_slab a k t) = (slab_heads t)(a := k (slab_heads t a))"
  "kmem_caches (upd_slab a k t) = kmem_caches t" "pages (upd_slab a k t) = pages t"
  by (simp_all add: upd_links_def upd_slab_def)

lemma slab_upd_simps' [simp]:
  "slab_heads (upd_links g s) = slab_heads s" "kmem_caches (upd_links g s) = kmem_caches s"
  "cpu (upd_links g s) = cpu s" "cpu (upd_slab a k s) = cpu s"
  for s :: "'z slab_scheme"
  by (simp_all add: upd_links_def upd_slab_def)

text \<open>Carving one more object.\<close>

lemma carve_ok:
  assumes F: "family dll (links s) H f" and O: "slab_ok c (slab_heads s slabp) H f slabp"
    and c: "c = kmem_caches s ci" and n: "n = carved (slab_heads s slabp)" and nc: "n < unat (capacity c)"
  defines "h' \<equiv> (slab_heads s slabp)\<lparr>free_num := free_num (slab_heads s slabp) + 1\<rparr>"
    and "f' \<equiv> f(SlabFree slabp := f (SlabFree slabp) @ [obj_node c slabp n])"
  shows "alloc_new_object_in_page ci slabp s =
      upd_slab slabp (\<lambda>h. h\<lparr>free_num := free_num h + 1\<rparr>)
        (upd_links (list_add_tail (obj_node c slabp n) (SlabFree slabp)) s)"
    and "family dll (list_add_tail (obj_node c slabp n) (SlabFree slabp) (links s)) H f'"
    and "slab_ok c h' H f' slabp" and "carved h' = Suc n"
proof -
  note D = slab_okD [OF O, folded n]
  let ?h = "slab_heads s slabp"
  have cap: "unat (capacity c) \<le> 508" by (rule capacity_bound [OF D(1)])
  have b: "unat (alloc_num ?h) + unat (free_num ?h) = n" by (simp add: n carved_def)
  then have u: "unat (alloc_num ?h + free_num ?h) = n" "unat (free_num ?h + 1) = Suc (unat (free_num ?h))"
    using nc cap by (simp_all add: unat_word_ariths)
  have pos: "0 < n" using D(6,9) nc b by auto
  have "prev (links s) (SlabFree slabp) = obj_node c slabp (n - 1)"
    using dll_prev [OF kl.familyD [OF F D(4)]] D(9,10) nc by simp
  moreover have "node_addr (obj_node c slabp (n - 1)) + obj_step c = node_addr (obj_node c slabp n)"
    using pos by (simp add: obj_node_def algebra_simps)
  ultimately have "ObjNode (node_addr (prev (links s) (SlabFree slabp)) + obj_step c) = obj_node c slabp n"
    by (simp add: obj_node_def)
  then show "alloc_new_object_in_page ci slabp s =
      upd_slab slabp (\<lambda>h. h\<lparr>free_num := free_num h + 1\<rparr>)
        (upd_links (list_add_tail (obj_node c slabp n) (SlabFree slabp)) s)"
    using nc u(1) by (simp add: alloc_new_object_in_page_def Let_def c word_less_nat_alt)
  show F': "family dll (list_add_tail (obj_node c slabp n) (SlabFree slabp) (links s)) H f'"
    unfolding f'_def using D(11,12) [of n] nc by (intro kl.family_add_tail [OF F D(4)]) auto
  show cv: "carved h' = Suc n" using u(2) b by (simp add: h'_def carved_def)
  have fresh: "obj_node c slabp j \<notin> set (f' l)" if "Suc n \<le> j" "j < unat (capacity c)" "l \<in> H" for j l
  proof -
    have "obj_node c slabp j \<noteq> obj_node c slabp n"
      using obj_node_inj [OF D(1,2) that(2) nc] that(1) by auto
    then show ?thesis using D(11) [of j l] that by (auto simp: f'_def)
  qed
  show "slab_ok c h' H f' slabp"
    unfolding slab_ok_def cv
    using D(1-4,5,6,7,12) u(2) nc fresh
    by (auto simp: f'_def h'_def lessThan_Suc)
qed


text \<open>Moving the first free object to the allocated ones, and back.\<close>

lemma obj_of_node: "node_addr (obj_node c slabp j) - object_size c = obj_addr c slabp j"
  by (simp add: obj_node_def obj_addr_def)

lemma take_ok:
  assumes F: "family dll h H f" and O: "slab_ok c sh H f slabp"
    and x: "f (SlabFree slabp) = x # xs"
    and tail: "carved sh < unat (capacity c) \<Longrightarrow> xs \<noteq> []"
  defines "sh' \<equiv> sh\<lparr>free_num := free_num sh - 1, alloc_num := alloc_num sh + 1\<rparr>"
    and "f' \<equiv> f(SlabFree slabp := xs, SlabAlloc slabp := x # f (SlabAlloc slabp))"
  shows "family dll (list_add x (SlabAlloc slabp) (list_del x h)) H f'"
    and "slab_ok c sh' H f' slabp" and "carved sh' = carved sh"
    and "\<exists>j<unat (capacity c). x = obj_node c slabp j" and "x \<notin> set (f (SlabAlloc slabp))"
    and "unat (alloc_num sh') = Suc (unat (alloc_num sh))"
proof -
  note D = slab_okD [OF O]
  have cap: "unat (capacity c) \<le> 508" by (rule capacity_bound [OF D(1)])
  have free: "unat (free_num sh) = Suc (length xs)" using D(6) x by simp
  then have u: "unat (free_num sh - 1) = unat (free_num sh) - 1"
    by (simp add: unat_sub word_le_nat_alt)
  have u2: "unat (alloc_num sh + 1) = Suc (unat (alloc_num sh))"
    using D(8) cap free by (simp add: carved_def unat_word_ariths)
  show "unat (alloc_num sh') = Suc (unat (alloc_num sh))" using u2 by (simp add: sh'_def)
  show cv: "carved sh' = carved sh" using u u2 free by (simp add: sh'_def carved_def)
  show "\<exists>j<unat (capacity c). x = obj_node c slabp j"
    using D(7,8) x by (auto simp: image_iff) (metis (no_types, lifting) D(7) UnI2 imageE lessThan_iff list.set_intros(1) order_less_le_trans)
  have "x \<in> set (f (SlabFree slabp))" using x by simp
  then show "x \<notin> set (f (SlabAlloc slabp))"
    using kl.family_owner [OF F D(3,4)] by auto
  have g: "(f(SlabFree slabp := remove1 x (f (SlabFree slabp))))
      (SlabAlloc slabp := x # (f(SlabFree slabp := remove1 x (f (SlabFree slabp)))) (SlabAlloc slabp)) = f'"
    by (simp add: f'_def x)
  show F': "family dll (list_add x (SlabAlloc slabp) (list_del x h)) H f'"
    using klh.family_move [OF F D(4) _ D(3), of x] x unfolding g by simp
  have sub: "set (f' l) \<subseteq> set (f l) \<union> {x}" for l by (auto simp: f'_def x)
  have "obj_node c slabp j \<notin> set (f' l)" if "carved sh \<le> j" "j < unat (capacity c)" "l \<in> H" for j l
    using sub [of l] D(11) [of j l] D(11) [of j "SlabFree slabp"] D(4) that x by auto
  then show "slab_ok c sh' H f' slabp"
    unfolding slab_ok_def cv
    using D(1-8,12) u u2 free x tail D(9,10) by (auto simp: f'_def sh'_def)
qed

lemma alloc_object_ok:
  assumes F: "family dll (links s) H f" and O: "slab_ok c (slab_heads s slabp) H f slabp"
    and c: "c = kmem_caches s ci" and nf: "alloc_num (slab_heads s slabp) < capacity c"
  obtains h sh f' j where
    "alloc_object ci slabp s = (s\<lparr>links := h, slab_heads := (slab_heads s)(slabp := sh)\<rparr>, obj_addr c slabp j)"
    "family dll h H f'" "slab_ok c sh H f' slabp" "j < unat (capacity c)"
    "obj_node c slabp j \<notin> set (f (SlabAlloc slabp))"
    "f' (SlabAlloc slabp) = obj_node c slabp j # f (SlabAlloc slabp)"
    "\<And>l. l \<noteq> SlabAlloc slabp \<Longrightarrow> l \<noteq> SlabFree slabp \<Longrightarrow> f' l = f l"
    "unat (alloc_num sh) = Suc (unat (alloc_num (slab_heads s slabp)))"
proof -
  define n where "n = carved (slab_heads s slabp)"
  define s1 where "s1 = (if free_num (slab_heads s slabp) = 1 then alloc_new_object_in_page ci slabp s else s)"
  note D = slab_okD [OF O]
  have "\<exists>h1 sh1 f1. s1 = s\<lparr>links := h1, slab_heads := (slab_heads s)(slabp := sh1)\<rparr> \<and> family dll h1 H f1 \<and>
      slab_ok c sh1 H f1 slabp \<and> alloc_num sh1 = alloc_num (slab_heads s slabp) \<and>
      (carved sh1 < unat (capacity c) \<longrightarrow> 2 \<le> length (f1 (SlabFree slabp))) \<and> f1 (SlabFree slabp) \<noteq> [] \<and>
      (\<forall>l. l \<noteq> SlabFree slabp \<longrightarrow> f1 l = f l)"
  proof (cases "free_num (slab_heads s slabp) = 1 \<and> n < unat (capacity c)")
    case True
    note C = carve_ok [OF F O c n_def]
    have "2 \<le> length (f (SlabFree slabp) @ [obj_node c slabp n])" using D(6) True by simp
    with True C show ?thesis
      by (intro exI [of _ "list_add_tail (obj_node c slabp n) (SlabFree slabp) (links s)"]
          exI [of _ "(slab_heads s slabp)\<lparr>free_num := free_num (slab_heads s slabp) + 1\<rparr>"]
          exI [of _ "f(SlabFree slabp := f (SlabFree slabp) @ [obj_node c slabp n])"])
        (auto simp: s1_def upd_slab_def upd_links_def)
  next
    case False
    have ne: "f (SlabFree slabp) \<noteq> []"
    proof (cases "n < unat (capacity c)")
      case True
      then show ?thesis using D(9) by (simp add: n_def)
    next
      case False
      then have "unat (free_num (slab_heads s slabp)) \<noteq> 0"
        using D(8) nf by (simp add: n_def carved_def word_less_nat_alt)
      then show ?thesis using D(6) by auto
    qed
    have "unat (alloc_num (slab_heads s slabp) + free_num (slab_heads s slabp)) = n"
      using D(8) capacity_bound [OF D(1)] by (simp add: n_def carved_def unat_word_ariths)
    then have "s1 = s"
      using False c by (auto simp: s1_def alloc_new_object_in_page_def Let_def word_less_nat_alt)
    moreover have "2 \<le> length (f (SlabFree slabp))" if "n < unat (capacity c)"
    proof -
      have "free_num (slab_heads s slabp) \<noteq> 1" using False that by simp
      then have "unat (free_num (slab_heads s slabp)) \<noteq> 1" by (metis unat_1 word_unat_eq_iff)
      moreover have "length (f (SlabFree slabp)) \<noteq> 0" using ne by simp
      ultimately show ?thesis using D(6) by linarith
    qed
    ultimately show ?thesis
      using ne F O by (intro exI [of _ "links s"] exI [of _ "slab_heads s slabp"] exI [of _ f]) (auto simp: n_def)
  qed
  then obtain h1 sh1 f1 where s1: "s1 = s\<lparr>links := h1, slab_heads := (slab_heads s)(slabp := sh1)\<rparr>"
    and F1: "family dll h1 H f1" and O1: "slab_ok c sh1 H f1 slabp"
    and a1: "alloc_num sh1 = alloc_num (slab_heads s slabp)"
    and l1: "carved sh1 < unat (capacity c) \<Longrightarrow> 2 \<le> length (f1 (SlabFree slabp))"
    and ne: "f1 (SlabFree slabp) \<noteq> []" and f1: "\<And>l. l \<noteq> SlabFree slabp \<Longrightarrow> f1 l = f l"
    by blast
  obtain x xs where x: "f1 (SlabFree slabp) = x # xs" using ne by (cases "f1 (SlabFree slabp)") auto
  have t: "carved sh1 < unat (capacity c) \<Longrightarrow> xs \<noteq> []" using l1 x by auto
  note T = take_ok [OF F1 O1 x t]
  obtain j where j: "j < unat (capacity c)" "x = obj_node c slabp j" using T(4) by blast
  have fn: "free_num sh1 \<noteq> 0" using slab_okD(6) [OF O1] x by auto
  have nx: "next h1 (SlabFree slabp) = x"
    using dll_next [OF kl.familyD [OF F1 slab_okD(4) [OF O1]]] x by simp
  show thesis
  proof (rule that)
    show "alloc_object ci slabp s = (s\<lparr>links := list_add x (SlabAlloc slabp) (list_del x h1),
        slab_heads := (slab_heads s)(slabp := sh1\<lparr>free_num := free_num sh1 - 1, alloc_num := alloc_num sh1 + 1\<rparr>)\<rparr>,
        obj_addr c slabp j)"
      unfolding alloc_object_def s1_def [symmetric] Let_def s1
      by (simp add: fn nx j(2) c [symmetric] obj_of_node upd_links_def upd_slab_def)
    let ?f = "f1(SlabFree slabp := xs, SlabAlloc slabp := x # f1 (SlabAlloc slabp))"
    show "family dll (list_add x (SlabAlloc slabp) (list_del x h1)) H ?f" by (rule T(1))
    show "slab_ok c (sh1\<lparr>free_num := free_num sh1 - 1, alloc_num := alloc_num sh1 + 1\<rparr>) H ?f slabp" by (rule T(2))
    show "j < unat (capacity c)" by (rule j(1))
    show "obj_node c slabp j \<notin> set (f (SlabAlloc slabp))" using T(5) j(2) f1 by simp
    show "?f (SlabAlloc slabp) = obj_node c slabp j # f (SlabAlloc slabp)" using j(2) f1 by simp
    show "?f l = f l" if "l \<noteq> SlabAlloc slabp" "l \<noteq> SlabFree slabp" for l using that f1 by simp
    show "unat (alloc_num (sh1\<lparr>free_num := free_num sh1 - 1, alloc_num := alloc_num sh1 + 1\<rparr>)) =
        Suc (unat (alloc_num (slab_heads s slabp)))" using T(6) a1 by simp
  qed
qed


lemma give_back_ok:
  assumes F: "family dll h H f" and O: "slab_ok c sh H f slabp" and x: "x \<in> set (f (SlabAlloc slabp))"
  defines "sh' \<equiv> sh\<lparr>alloc_num := alloc_num sh - 1, free_num := free_num sh + 1\<rparr>"
    and "f' \<equiv> f(SlabAlloc slabp := remove1 x (f (SlabAlloc slabp)), SlabFree slabp := x # f (SlabFree slabp))"
  shows "family dll (list_add x (SlabFree slabp) (list_del x h)) H f'"
    and "slab_ok c sh' H f' slabp"
    and "Suc (unat (alloc_num sh')) = unat (alloc_num sh)"
proof -
  note D = slab_okD [OF O]
  have cap: "unat (capacity c) \<le> 508" by (rule capacity_bound [OF D(1)])
  have "0 < length (f (SlabAlloc slabp))" using x by (cases "f (SlabAlloc slabp)") auto
  then have pos: "0 < unat (alloc_num sh)" using D(5) by simp
  then have u: "unat (alloc_num sh - 1) = unat (alloc_num sh) - 1"
    by (simp add: unat_sub word_le_nat_alt)
  have u2: "unat (free_num sh + 1) = Suc (unat (free_num sh))"
    using D(8) cap pos by (simp add: carved_def unat_word_ariths)
  show "Suc (unat (alloc_num sh')) = unat (alloc_num sh)" using u pos by (simp add: sh'_def)
  have cv: "carved sh' = carved sh" using u u2 pos by (simp add: sh'_def carved_def)
  have g: "(f(SlabAlloc slabp := remove1 x (f (SlabAlloc slabp))))
      (SlabFree slabp := x # (f(SlabAlloc slabp := remove1 x (f (SlabAlloc slabp)))) (SlabFree slabp)) = f'"
    by (simp add: f'_def)
  show "family dll (list_add x (SlabFree slabp) (list_del x h)) H f'"
    using klh.family_move [OF F D(3) x D(4)] unfolding g .
  have dist: "distinct (f (SlabAlloc slabp))" using kl.family_distinct [OF F D(3)] by simp
  have sub: "set (f' l) \<subseteq> set (f l) \<union> {x}" for l
    using set_remove1_subset [of x "f (SlabAlloc slabp)"] by (auto simp: f'_def)
  have "obj_node c slabp j \<notin> set (f' l)" if "carved sh \<le> j" "j < unat (capacity c)" "l \<in> H" for j l
    using sub [of l] D(11) [of j l] D(11) [of j "SlabAlloc slabp"] D(3) that x by auto
  moreover have "set (f' (SlabAlloc slabp)) \<union> set (f' (SlabFree slabp)) =
      set (f (SlabAlloc slabp)) \<union> set (f (SlabFree slabp))"
    using dist x by (auto simp: f'_def)
  ultimately show "slab_ok c sh' H f' slabp"
    unfolding slab_ok_def cv
    using D(1-10,12) u u2 x by (auto simp: f'_def sh'_def length_remove1)
qed

section \<open>Kernel addresses of pages\<close>

definition vaddr :: "nat \<Rightarrow> u32" where
  "vaddr p = get_kernel_vaddr (get_page_paddr p)"

lemma vaddr_facts:
  assumes "p < 2 ^ 17"
  shows "unat (vaddr p) = 2 ^ 31 + p * 4096" "get_page_by_slab (vaddr p) = p"
    "get_kernel_paddr (vaddr p) = get_page_paddr p" "page_aligned (vaddr p)"
proof -
  have u: "unat (get_page_paddr p) = p * 4096" using page_paddr(1) [of p] assms by simp
  have lt: "unat (get_page_paddr p) < 2 ^ 29" using u assms by simp
  have nb: "\<not> bit (get_page_paddr p) 31"
  proof -
    have "unat (get_page_paddr p) div 2 ^ 31 = 0" using lt by simp
    then have "\<not> bit (unat (get_page_paddr p)) 31" unfolding bit_iff_odd by simp
    then show ?thesis by (simp add: bit_unsigned_iff)
  qed
  have k: "KERNEL_ENTRY = push_bit 31 1" by (simp add: os_const)
  have bk: "bit KERNEL_ENTRY n \<longleftrightarrow> n = 31" for n
    unfolding k by (simp only: push_bit_of_1 bit_exp_iff) (auto simp: possible_bit_word)
  have d: "get_page_paddr p AND KERNEL_ENTRY = 0"
    by (rule bit_word_eqI) (use nb bk in \<open>auto simp: bit_and_iff\<close>)
  have "vaddr p = get_page_paddr p + KERNEL_ENTRY"
    using word_plus_and_or [of "get_page_paddr p" KERNEL_ENTRY] d
    by (simp only: vaddr_def get_kernel_vaddr_def add_0)
  then show a: "unat (vaddr p) = 2 ^ 31 + p * 4096"
    using u assms by (simp add: os_const unat_word_ariths)
  show b: "get_kernel_paddr (vaddr p) = get_page_paddr p"
    unfolding get_kernel_paddr_def vaddr_def get_kernel_vaddr_def
    by (rule bit_word_eqI) (use nb bk in \<open>auto simp: bit_and_iff bit_or_iff bit_not_iff\<close>)
  show "get_page_by_slab (vaddr p) = p"
    unfolding get_page_by_slab_def b using page_paddr(2) [of p] assms by simp
  show "page_aligned (vaddr p)"
    unfolding page_aligned_def a by (simp add: dvd_add)
qed

lemma vaddr_inj: "p < 2 ^ 17 \<Longrightarrow> q < 2 ^ 17 \<Longrightarrow> vaddr p = vaddr q \<Longrightarrow> p = q"
  using vaddr_facts(2) by metis

lemma lower_align_page:
  assumes "page_aligned a" and "unat a \<le> unat x" and "unat x < unat a + 4096"
  shows "lower_align x PAGE_SIZE = a"
proof -
  have "unat (lower_align x (2 ^ 12)) = unat x div 4096 * 4096" using unat_lower_align [of x 12] by simp
  also have "unat x div 4096 * 4096 = unat a"
  proof -
    obtain q where q: "unat a = 4096 * q" using assms(1) by (auto simp: page_aligned_def)
    have "unat x div 4096 = q" using assms(2,3) q by (intro div_nat_eqI) simp_all
    then show ?thesis using q by simp
  qed
  finally show ?thesis by (simp add: os_const word_unat_eq_iff)
qed

lemma lower_align_node:
  assumes "cache_ok c" and "page_aligned a" and "j < unat (capacity c)"
  shows "lower_align (a + 24 + of_nat (Suc j) * obj_step c) PAGE_SIZE = a"
    and "lower_align (obj_addr c a j) PAGE_SIZE = a"
proof -
  have r: "32 + Suc j * unat (obj_step c) \<le> 4096" by (rule cache_room [OF assms(1,3)])
  show "lower_align (a + 24 + of_nat (Suc j) * obj_step c) PAGE_SIZE = a"
    using unat_node [OF assms] r by (intro lower_align_page) (simp_all add: assms(2))
  show "lower_align (obj_addr c a j) PAGE_SIZE = a"
    using unat_obj [OF assms] r obj_step_unat [OF assms(1)] by (intro lower_align_page) (simp_all add: assms(2))
qed


section \<open>The invariant of the kernel heap\<close>

definition buddy_full :: "'z buddy_scheme \<Rightarrow> node set \<Rightarrow> (node \<Rightarrow> node list) \<Rightarrow> (nat \<times> nat) set \<Rightarrow> bool" where
  "buddy_full s H f A \<longleftrightarrow> (\<exists>B. buddy_inv s H f B \<and> coalesced s B \<and> A = allocd s B)"

text \<open>What other components may change under the feet of the buddy allocator.\<close>

lemma buddy_full_frame:
  assumes "buddy_full s H f A" and h: "family dll (links t) H' f'"
    and f: "\<And>k. k \<le> MAX_BUDDY_ORDER \<Longrightarrow> f' (FreeArea k) = f (FreeArea k)"
    and H: "area_heads \<subseteq> H'" "H' \<inter> range PageNode = {}"
    and l: "\<And>l x. l \<in> H' \<Longrightarrow> PageNode x \<in> set (f' l) \<Longrightarrow>
      (\<exists>k. (x, k) \<in> A) \<or> (\<exists>l'\<in>H. PageNode x \<in> set (f l'))"
    and t: "start_pfn t = start_pfn s" "zone_page_num t = zone_page_num s"
      "\<And>p. bplevel (pages t p) = bplevel (pages s p)"
      "\<And>p. used_info (pages t p) = BUDDY_FREE \<longleftrightarrow> used_info (pages s p) = BUDDY_FREE"
  shows "buddy_full t H' f' A"
proof -
  obtain B where B: "buddy_inv s H f B" "coalesced s B" "A = allocd s B"
    using assms(1) by (auto simp: buddy_full_def)
  note D = bcoreD [OF B(1) [unfolded buddy_inv_def]]
  have z: "zone t = zone s" "zone_ok t = zone_ok s" using t(1,2) by (simp_all add: zone_def zone_ok_def)
  have "buddy_inv t H' f' B"
    unfolding buddy_inv_def z(1)
  proof (rule bcoreI)
    show "zone_ok t" using D(1) z(2) by simp
    show "set (f' (FreeArea k)) = PageNode ` {p. (p, k) \<in> B \<and> used_info (pages t p) = BUDDY_FREE}"
      if "k \<le> MAX_BUDDY_ORDER" for k
      using B(1) f that t(4) by (simp add: buddy_inv_def bcore_def)
    show "\<exists>k. (x, k) \<in> B" if "l \<in> H'" "PageNode x \<in> set (f' l)" for l x
      using l [OF that] D(10) B(3) by (auto simp: allocd_def)
  qed (use D(2,6,7) h H t z in auto)
  moreover have "coalesced t B" using B(2) t(4) by (simp add: coalesced_def)
  moreover have "A = allocd t B" using B(3) t(4) by (simp add: allocd_def)
  ultimately show ?thesis by (auto simp: buddy_full_def)
qed

definition slab_pages :: "'z buddy_scheme \<Rightarrow> (nat \<times> nat) set \<Rightarrow> nat set" where
  "slab_pages s A = {p. (p, 0) \<in> A \<and> used_info (pages s p) = BUDDY_SLAB}"

definition cache_lists :: "nat \<Rightarrow> node set" where
  "cache_lists i = {CachePartial i, CacheFull i, CacheFree i}"

definition kheads :: "nat set \<Rightarrow> node set" where
  "kheads P = area_heads \<union> (\<Union>i<KMEM_CACHE_NUM. cache_lists i) \<union>
     (\<Union>p\<in>P. {SlabAlloc (vaddr p), SlabFree (vaddr p)})"

definition obj_home :: "node set \<Rightarrow> (node \<Rightarrow> node list) \<Rightarrow> bool" where
  "obj_home H f \<longleftrightarrow> (\<forall>l\<in>H. \<forall>a. ObjNode a \<in> set (f l) \<longrightarrow>
     l \<in> {SlabAlloc (lower_align a PAGE_SIZE), SlabFree (lower_align a PAGE_SIZE)})"

text \<open>
  \<open>kinv s f A pl\<close>: the buddy allocator is well formed with the blocks \<open>A\<close> handed out, its
  one-page blocks of type slab are the slab pages, every slab page belongs to a cache, its lists
  are well formed, and it is on the list \<open>pl p\<close> of its cache.
\<close>

definition kinv :: "'z slab_scheme \<Rightarrow> (node \<Rightarrow> node list) \<Rightarrow> (nat \<times> nat) set \<Rightarrow> (nat \<Rightarrow> node) \<Rightarrow> bool" where
  "kinv s f A pl \<longleftrightarrow>
     buddy_full s (kheads (slab_pages s A)) f A \<and> zone s \<subseteq> {0<..<2 ^ 17} \<and>
     obj_home (kheads (slab_pages s A)) f \<and>
     (\<forall>i<KMEM_CACHE_NUM. cache_ok (kmem_caches s i) \<and>
        (\<forall>p. cpu_page (kmem_caches s i) = Some p \<longrightarrow> p \<in> slab_pages s A \<and> cachep (pages s p) = Some i)) \<and>
     (\<forall>p\<in>slab_pages s A. virt (pages s p) = vaddr p \<and>
        (\<exists>i<KMEM_CACHE_NUM. cachep (pages s p) = Some i \<and> pl p \<in> cache_lists i \<and>
           slab_ok (kmem_caches s i) (slab_heads s (vaddr p)) (kheads (slab_pages s A)) f (vaddr p))) \<and>
     (\<forall>i<KMEM_CACHE_NUM. \<forall>l\<in>cache_lists i. set (f l) = PageNode ` {p \<in> slab_pages s A. pl p = l})"

lemma kheads_mem [simp]:
  "i < KMEM_CACHE_NUM \<Longrightarrow> l \<in> cache_lists i \<Longrightarrow> l \<in> kheads P"
  "p \<in> P \<Longrightarrow> SlabAlloc (vaddr p) \<in> kheads P" "p \<in> P \<Longrightarrow> SlabFree (vaddr p) \<in> kheads P"
  "PageNode x \<notin> kheads P" "ObjNode a \<notin> kheads P" "k \<le> MAX_BUDDY_ORDER \<Longrightarrow> FreeArea k \<in> kheads P"
  by (auto simp: kheads_def cache_lists_def)

lemma kheads_areas: "area_heads \<subseteq> kheads P" "kheads P \<inter> range PageNode = {}"
  "heads_ok (kheads P)"
  by (auto simp: heads_ok_def) (auto simp: kheads_def cache_lists_def)

lemma slab_ok_frame:
  assumes O: "slab_ok c sh H f v" and f: "f' (SlabAlloc v) = f (SlabAlloc v)" "f' (SlabFree v) = f (SlabFree v)"
    and H: "SlabAlloc v \<in> H'" "SlabFree v \<in> H'" "\<And>a. ObjNode a \<notin> H'" and home: "obj_home H' f'"
    and H0: "SlabAlloc v \<in> H" "SlabFree v \<in> H"
  shows "slab_ok c sh H' f' v"
proof -
  note D = slab_okD [OF O]
  have "obj_node c v j \<notin> set (f' l)" if j: "carved sh \<le> j" "j < unat (capacity c)" and l: "l \<in> H'" for j l
  proof
    assume "obj_node c v j \<in> set (f' l)"
    moreover have "lower_align (v + 24 + of_nat (Suc j) * obj_step c) PAGE_SIZE = v"
      by (rule lower_align_node(1) [OF D(1,2) j(2)])
    ultimately have "l = SlabAlloc v \<or> l = SlabFree v"
      using home l unfolding obj_home_def obj_node_def by fastforce
    then show False
      using \<open>obj_node c v j \<in> set (f' l)\<close> f D(11) [OF j] H0 by auto
  qed
  then show ?thesis
    using D f H unfolding slab_ok_def by (auto simp: obj_node_def)
qed


lemma kinvD:
  assumes "kinv s f A pl"
  shows "buddy_full s (kheads (slab_pages s A)) f A" "zone s \<subseteq> {0<..<2 ^ 17}"
    "obj_home (kheads (slab_pages s A)) f" "family dll (links s) (kheads (slab_pages s A)) f"
    "i < KMEM_CACHE_NUM \<Longrightarrow> cache_ok (kmem_caches s i)"
    "i < KMEM_CACHE_NUM \<Longrightarrow> cpu_page (kmem_caches s i) = Some p \<Longrightarrow>
       p \<in> slab_pages s A \<and> cachep (pages s p) = Some i"
    "p \<in> slab_pages s A \<Longrightarrow> virt (pages s p) = vaddr p"
    "p \<in> slab_pages s A \<Longrightarrow> \<exists>i<KMEM_CACHE_NUM. cachep (pages s p) = Some i \<and> pl p \<in> cache_lists i \<and>
       slab_ok (kmem_caches s i) (slab_heads s (vaddr p)) (kheads (slab_pages s A)) f (vaddr p)"
    "i < KMEM_CACHE_NUM \<Longrightarrow> l \<in> cache_lists i \<Longrightarrow> set (f l) = PageNode ` {p \<in> slab_pages s A. pl p = l}"
    "p \<in> slab_pages s A \<Longrightarrow> p < 2 ^ 17"
proof -
  show b: "buddy_full s (kheads (slab_pages s A)) f A" and z: "zone s \<subseteq> {0<..<2 ^ 17}"
    using assms by (simp_all add: kinv_def)
  obtain B where B: "buddy_inv s (kheads (slab_pages s A)) f B" "A = allocd s B"
    using b by (auto simp: buddy_full_def)
  note D = bcoreD [OF B(1) [unfolded buddy_inv_def]]
  show "family dll (links s) (kheads (slab_pages s A)) f" using D(3) .
  show "p < 2 ^ 17" if "p \<in> slab_pages s A"
  proof -
    have "(p, 0) \<in> B" using that B(2) by (auto simp: slab_pages_def allocd_def)
    then have "p \<in> zone s" using part_sub [OF D(2)] blk_start by blast
    then show ?thesis using z by auto
  qed
qed (use assms in \<open>auto simp: kinv_def\<close>)

lemma page_node_listed:
  assumes K: "kinv s f A pl" and l: "l \<in> kheads (slab_pages s A)" and x: "PageNode x \<in> set (f l)"
  shows "l \<in> area_heads \<or> x \<in> slab_pages s A \<and> l = pl x"
proof -
  note D = kinvD [OF K]
  consider "l \<in> area_heads" | i where "i < KMEM_CACHE_NUM" "l \<in> cache_lists i"
    | p where "p \<in> slab_pages s A" "l \<in> {SlabAlloc (vaddr p), SlabFree (vaddr p)}"
    using l unfolding kheads_def by blast
  then show ?thesis
  proof cases
    case 2
    then show ?thesis using D(9) x by auto
  next
    case (3 p)
    obtain i where "slab_ok (kmem_caches s i) (slab_heads s (vaddr p)) (kheads (slab_pages s A)) f (vaddr p)"
      using D(8) [OF 3(1)] by blast
    from slab_okD(7) [OF this] 3(2) x show ?thesis by (auto simp: obj_node_def)
  qed simp
qed

text \<open>The lists of the other slab pages survive a change of two lists of one page.\<close>

lemma kinv_update:
  assumes K: "kinv s f A pl" and F: "family dll (links t) (kheads (slab_pages s A)) f'"
    and home: "obj_home (kheads (slab_pages s A)) f'"
    and f: "\<And>k. k \<le> MAX_BUDDY_ORDER \<Longrightarrow> f' (FreeArea k) = f (FreeArea k)"
    and t: "pages t = pages s" "start_pfn t = start_pfn s" "zone_page_num t = zone_page_num s"
      "kmem_caches t = kmem_caches s"
    and pl: "\<And>p i. p \<in> slab_pages s A \<Longrightarrow> i < KMEM_CACHE_NUM \<Longrightarrow> cachep (pages s p) = Some i \<Longrightarrow> pl' p \<in> cache_lists i"
    and ok: "\<And>p i. p \<in> slab_pages s A \<Longrightarrow> i < KMEM_CACHE_NUM \<Longrightarrow> cachep (pages s p) = Some i \<Longrightarrow>
      slab_ok (kmem_caches s i) (slab_heads t (vaddr p)) (kheads (slab_pages s A)) f' (vaddr p)"
    and lists: "\<And>i l. i < KMEM_CACHE_NUM \<Longrightarrow> l \<in> cache_lists i \<Longrightarrow>
      set (f' l) = PageNode ` {p \<in> slab_pages s A. pl' p = l}"
  shows "kinv t f' A pl'"
proof -
  note D = kinvD [OF K]
  have sp: "slab_pages t A = slab_pages s A" by (simp add: slab_pages_def t(1))
  have listed: "(\<exists>k. (x, k) \<in> A) \<or> (\<exists>l'\<in>kheads (slab_pages s A). PageNode x \<in> set (f l'))"
    if l: "l \<in> kheads (slab_pages s A)" and x: "PageNode x \<in> set (f' l)" for l x
  proof -
    consider k where "l = FreeArea k" "k \<le> MAX_BUDDY_ORDER" | i where "i < KMEM_CACHE_NUM" "l \<in> cache_lists i"
      | p where "p \<in> slab_pages s A" "l \<in> {SlabAlloc (vaddr p), SlabFree (vaddr p)}"
      using l unfolding kheads_def by blast
    then show ?thesis
    proof cases
      case 1
      then show ?thesis using f x l by auto
    next
      case 2
      then have "x \<in> slab_pages s A" using lists x by auto
      then show ?thesis by (auto simp: slab_pages_def)
    next
      case (3 p)
      obtain i where "i < KMEM_CACHE_NUM" "cachep (pages s p) = Some i" using D(8) [OF 3(1)] by blast
      from slab_okD(7) [OF ok [OF 3(1) this]] 3(2) x show ?thesis by (auto simp: obj_node_def)
    qed
  qed
  have "buddy_full t (kheads (slab_pages s A)) f' A"
    by (rule buddy_full_frame [OF D(1) F f kheads_areas(1,2) listed]) (use t in auto)
  moreover have "zone t = zone s" using t(2,3) by (simp add: zone_def)
  moreover have "virt (pages s p) = vaddr p \<and> (\<exists>i<KMEM_CACHE_NUM. cachep (pages s p) = Some i \<and> pl' p \<in> cache_lists i \<and>
       slab_ok (kmem_caches s i) (slab_heads t (vaddr p)) (kheads (slab_pages s A)) f' (vaddr p))"
    if "p \<in> slab_pages s A" for p
    using D(7,8) [OF that] pl ok that by blast
  ultimately show ?thesis
    unfolding kinv_def sp t(1,4) using D(2,5,6) home lists by simp
qed


lemma move_page_kinv:
  assumes K: "kinv s f A pl" and p: "p \<in> slab_pages s A" and i: "i < KMEM_CACHE_NUM"
    and c: "cachep (pages s p) = Some i" and l: "l \<in> cache_lists i"
  obtains f' where "kinv (move_page p l s) f' A (pl(p := l))" "\<And>v. f' (SlabAlloc v) = f (SlabAlloc v)"
proof -
  note D = kinvD [OF K]
  let ?H = "kheads (slab_pages s A)" and ?n = "PageNode p"
  have plp: "pl p \<in> cache_lists i" using D(8) [OF p] c by auto
  have on: "?n \<in> set (f (pl p))" using D(9) [OF i plp] p by auto
  define g where "g = f(pl p := remove1 ?n (f (pl p)))"
  define f' where "f' = g(l := ?n # g l)"
  have F: "family dll (links (move_page p l s)) ?H f'"
    using klh.family_move [OF D(4) kheads_mem(1) [OF i plp] on kheads_mem(1) [OF i l]]
    by (simp add: move_page_def g_def f'_def)
  have same: "f' x = f x" if "x \<notin> cache_lists i" for x
    using that plp l by (auto simp: f'_def g_def)
  have dist: "distinct (f (pl p))" using kl.family_distinct [OF D(4) kheads_mem(1) [OF i plp]] by simp
  have only: "?n \<in> set (f x) \<Longrightarrow> x = pl p" if "j < KMEM_CACHE_NUM" "x \<in> cache_lists j" for x j
    using kl.family_owner [OF D(4) kheads_mem(1) [OF that] kheads_mem(1) [OF i plp] _ on] by simp
  have setg: "set (g x) = set (f x) - {?n}" if "j < KMEM_CACHE_NUM" "x \<in> cache_lists j" for x j
    using dist only [OF that] by (auto simp: g_def)
  have lists: "set (f' x) = PageNode ` {q \<in> slab_pages s A. (pl(p := l)) q = x}"
    if x: "j < KMEM_CACHE_NUM" "x \<in> cache_lists j" for j x
  proof -
    have "set (f' x) = (if x = l then insert ?n (set (g x)) else set (g x))" by (simp add: f'_def)
    then show ?thesis using setg [OF x] D(9) [OF x] p by (auto simp: image_iff)
  qed
  have home: "obj_home ?H f'"
    unfolding obj_home_def
  proof (intro ballI allI impI)
    fix x a assume x: "x \<in> ?H" and a: "ObjNode a \<in> set (f' x)"
    have "ObjNode a \<in> set (f x)"
    proof (cases "x \<in> cache_lists i")
      case True
      then show ?thesis using lists [OF i True] a by auto
    qed (use same a in auto)
    then show "x \<in> {SlabAlloc (lower_align a PAGE_SIZE), SlabFree (lower_align a PAGE_SIZE)}"
      using D(3) x by (simp add: obj_home_def)
  qed
  have sl: "f' (SlabAlloc v) = f (SlabAlloc v)" "f' (SlabFree v) = f (SlabFree v)" "f' (FreeArea k) = f (FreeArea k)" for v k
    by (intro same; simp add: cache_lists_def)+
  have "kinv (move_page p l s) f' A (pl(p := l))"
  proof (rule kinv_update [OF K F home])
    show "slab_ok (kmem_caches s j) (slab_heads (move_page p l s) (vaddr q)) ?H f' (vaddr q)"
      if q: "q \<in> slab_pages s A" "cachep (pages s q) = Some j" for q j
    proof -
      have "slab_ok (kmem_caches s j) (slab_heads s (vaddr q)) ?H f (vaddr q)" using D(8) [OF q(1)] q(2) by auto
      then show ?thesis
        using q(1) by (simp add: move_page_def) (rule slab_ok_frame [OF _ sl(1,2) _ _ _ home], auto)
    qed
    show "(pl(p := l)) q \<in> cache_lists j" if "q \<in> slab_pages s A" "cachep (pages s q) = Some j" for q j
      using D(8) [OF that(1)] that(2) c l by auto
  qed (use sl lists in \<open>auto simp: move_page_def upd_links_def\<close>)
  with sl(1) that show thesis by blast
qed


section \<open>Objects in use\<close>

definition page_objs :: "'z slab_scheme \<Rightarrow> (node \<Rightarrow> node list) \<Rightarrow> nat \<Rightarrow> (u32 \<times> u32) set" where
  "page_objs s f p = (let c = kmem_caches s (the (cachep (pages s p))) in
     (\<lambda>x. (node_addr x - object_size c, object_size c)) ` set (f (SlabAlloc (vaddr p))))"

definition kobjs :: "'z slab_scheme \<Rightarrow> (node \<Rightarrow> node list) \<Rightarrow> (nat \<times> nat) set \<Rightarrow> (u32 \<times> u32) set" where
  "kobjs s f A = (\<Union>p\<in>slab_pages s A. page_objs s f p)"

lemma page_objE:
  assumes K: "kinv s f A pl" and p: "p \<in> slab_pages s A" and o: "(a, n) \<in> page_objs s f p"
  obtains i j where "i < KMEM_CACHE_NUM" "cachep (pages s p) = Some i" "j < unat (capacity (kmem_caches s i))"
    "a = obj_addr (kmem_caches s i) (vaddr p) j" "n = object_size (kmem_caches s i)"
    "obj_node (kmem_caches s i) (vaddr p) j \<in> set (f (SlabAlloc (vaddr p)))"
    "lower_align a PAGE_SIZE = vaddr p"
proof -
  note D = kinvD [OF K]
  obtain i where i: "i < KMEM_CACHE_NUM" "cachep (pages s p) = Some i"
    and O: "slab_ok (kmem_caches s i) (slab_heads s (vaddr p)) (kheads (slab_pages s A)) f (vaddr p)"
    using D(8) [OF p] by blast
  obtain x where x: "x \<in> set (f (SlabAlloc (vaddr p)))" "a = node_addr x - object_size (kmem_caches s i)"
    "n = object_size (kmem_caches s i)"
    using o i(2) by (auto simp: page_objs_def Let_def)
  obtain j where j: "j < carved (slab_heads s (vaddr p))" "x = obj_node (kmem_caches s i) (vaddr p) j"
    using slab_okD(7) [OF O] x(1) by blast
  then have jc: "j < unat (capacity (kmem_caches s i))" using slab_okD(8) [OF O] by simp
  show thesis
    using that [OF i jc _ x(3)] x j lower_align_node(2) [OF slab_okD(1,2) [OF O] jc]
    by (simp add: obj_of_node)
qed

text \<open>An object lies behind the slab head of its page and does not reach the end of the page.\<close>

lemma obj_in_page:
  assumes K: "kinv s f A pl" and p: "p \<in> slab_pages s A" and o: "(a, n) \<in> page_objs s f p"
  shows "unat (vaddr p) + 32 \<le> unat a" "unat a + unat n + 8 \<le> unat (vaddr p) + 4096"
proof -
  from page_objE [OF K p o] obtain i j where i: "i < KMEM_CACHE_NUM" "j < unat (capacity (kmem_caches s i))"
    "a = obj_addr (kmem_caches s i) (vaddr p) j" "n = object_size (kmem_caches s i)" by metis
  note C = kinvD(5) [OF K i(1)] and V = vaddr_facts(4) [OF kinvD(10) [OF K p]]
  show "unat (vaddr p) + 32 \<le> unat a" using unat_obj [OF C V i(2)] i(3) by simp
  show "unat a + unat n + 8 \<le> unat (vaddr p) + 4096"
    using unat_obj [OF C V i(2)] i(3,4) cache_room [OF C i(2)] obj_step_unat [OF C] by simp
qed

lemma objs_disjoint:
  assumes K: "kinv s f A pl" and a: "(a, n) \<in> kobjs s f A" and b: "(b, m) \<in> kobjs s f A" and ne: "(a, n) \<noteq> (b, m)"
  shows "unat a + unat n \<le> unat b \<or> unat b + unat m \<le> unat a"
proof -
  obtain p q where p: "p \<in> slab_pages s A" "(a, n) \<in> page_objs s f p"
    and q: "q \<in> slab_pages s A" "(b, m) \<in> page_objs s f q"
    using a b by (auto simp: kobjs_def)
  note D = kinvD [OF K]
  show ?thesis
  proof (cases "p = q")
    case True
    obtain i j where i: "i < KMEM_CACHE_NUM" "cachep (pages s p) = Some i" "j < unat (capacity (kmem_caches s i))"
      "a = obj_addr (kmem_caches s i) (vaddr p) j" "n = object_size (kmem_caches s i)"
      using page_objE [OF K p] by metis
    obtain i' k where k': "cachep (pages s q) = Some i'" "k < unat (capacity (kmem_caches s i'))"
      "b = obj_addr (kmem_caches s i') (vaddr q) k" "m = object_size (kmem_caches s i')"
      using page_objE [OF K q] by metis
    moreover have "i' = i" using k'(1) i(2) True by simp
    ultimately have k: "k < unat (capacity (kmem_caches s i))"
      "b = obj_addr (kmem_caches s i) (vaddr p) k" "m = object_size (kmem_caches s i)"
      using True by simp_all
    note C = D(5) [OF i(1)] and V = vaddr_facts(4) [OF D(10) [OF p(1)]]
    have "j \<noteq> k" using ne i k by auto
    then have "Suc j * unat (obj_step (kmem_caches s i)) \<le> k * unat (obj_step (kmem_caches s i)) \<or>
        Suc k * unat (obj_step (kmem_caches s i)) \<le> j * unat (obj_step (kmem_caches s i))"
      by (metis Suc_leI linorder_neqE_nat mult_le_mono1)
    then show ?thesis
      using unat_obj [OF C V i(3)] unat_obj [OF C V k(1)] i(4,5) k(2,3) obj_step_unat [OF C] by auto
  next
    case False
    have "unat (vaddr p) + 4096 \<le> unat (vaddr q) \<or> unat (vaddr q) + 4096 \<le> unat (vaddr p)"
      using False vaddr_facts(1) [OF D(10) [OF p(1)]] vaddr_facts(1) [OF D(10) [OF q(1)]] by auto
    then show ?thesis using obj_in_page [OF K p] obj_in_page [OF K q] by linarith
  qed
qed

text \<open>An operation that only touches the two lists of one slab page keeps the heap invariant.\<close>

lemma kinv_slab_change:
  assumes K: "kinv s f A pl" and p: "p \<in> slab_pages s A" and c: "cachep (pages s p) = Some i"
    and F: "family dll h (kheads (slab_pages s A)) f'"
    and O: "slab_ok (kmem_caches s i) sh (kheads (slab_pages s A)) f' (vaddr p)"
    and same: "\<And>l. l \<noteq> SlabAlloc (vaddr p) \<Longrightarrow> l \<noteq> SlabFree (vaddr p) \<Longrightarrow> f' l = f l"
  shows "kinv (s\<lparr>links := h, slab_heads := (slab_heads s)(vaddr p := sh)\<rparr>) f' A pl"
    and "\<And>q. q \<in> slab_pages s A \<Longrightarrow> q \<noteq> p \<Longrightarrow> page_objs s f' q = page_objs s f q"
proof -
  note D = kinvD [OF K]
  let ?H = "kheads (slab_pages s A)" and ?c = "kmem_caches s i" and ?v = "vaddr p"
  have home: "obj_home ?H f'"
    unfolding obj_home_def
  proof (intro ballI allI impI)
    fix l a assume l: "l \<in> ?H" and a: "ObjNode a \<in> set (f' l)"
    show "l \<in> {SlabAlloc (lower_align a PAGE_SIZE), SlabFree (lower_align a PAGE_SIZE)}"
    proof (cases "l = SlabAlloc ?v \<or> l = SlabFree ?v")
      case True
      then obtain k where "k < carved sh" "ObjNode a = obj_node ?c ?v k"
        using slab_okD(7) [OF O] a by blast
      then have "lower_align a PAGE_SIZE = ?v"
        using lower_align_node(1) [OF slab_okD(1,2) [OF O], of k] slab_okD(8) [OF O] by (simp add: obj_node_def)
      then show ?thesis using True by auto
    next
      case False
      then show ?thesis using same a D(3) l by (auto simp: obj_home_def)
    qed
  qed
  have other: "f' (SlabAlloc (vaddr q)) = f (SlabAlloc (vaddr q))" "f' (SlabFree (vaddr q)) = f (SlabFree (vaddr q))"
    "vaddr q \<noteq> ?v" if "q \<in> slab_pages s A" "q \<noteq> p" for q
    using vaddr_inj [OF D(10) [OF that(1)] D(10) [OF p]] that(2) same by auto
  then show "page_objs s f' q = page_objs s f q" if "q \<in> slab_pages s A" "q \<noteq> p" for q
    using that by (simp add: page_objs_def)
  let ?t = "s\<lparr>links := h, slab_heads := (slab_heads s)(?v := sh)\<rparr>"
  show "kinv ?t f' A pl"
  proof (rule kinv_update [OF K _ home])
    show "slab_ok (kmem_caches s k) (slab_heads ?t (vaddr q)) ?H f' (vaddr q)"
      if q: "q \<in> slab_pages s A" "cachep (pages s q) = Some k" for q k
    proof (cases "q = p")
      case True
      then show ?thesis using O q c by simp
    next
      case False
      have "slab_ok (kmem_caches s k) (slab_heads s (vaddr q)) ?H f (vaddr q)" using D(8) [OF q(1)] q(2) by auto
      then show ?thesis
        using q(1) other [OF q(1) False]
        by simp (rule slab_ok_frame [OF _ other(1,2) [OF q(1) False] _ _ _ home], auto)
    qed
    show "pl q \<in> cache_lists k" if "q \<in> slab_pages s A" "cachep (pages s q) = Some k" for q k
      using D(8) [OF that(1)] that(2) by auto
    show "set (f' l) = PageNode ` {q \<in> slab_pages s A. pl q = l}" if "k < KMEM_CACHE_NUM" "l \<in> cache_lists k" for k l
      using D(9) [OF that] same [of l] that(2) by (auto simp: cache_lists_def)
  qed (use F same in auto)
qed

lemma alloc_object_kinv:
  assumes K: "kinv s f A pl" and p: "p \<in> slab_pages s A" and i: "i < KMEM_CACHE_NUM"
    and c: "cachep (pages s p) = Some i"
    and nf: "alloc_num (slab_heads s (vaddr p)) < capacity (kmem_caches s i)"
  obtains h sh f' a where
    "alloc_object i (vaddr p) s = (s\<lparr>links := h, slab_heads := (slab_heads s)(vaddr p := sh)\<rparr>, a)"
    "kinv (s\<lparr>links := h, slab_heads := (slab_heads s)(vaddr p := sh)\<rparr>) f' A pl"
    "page_objs s f' p = insert (a, object_size (kmem_caches s i)) (page_objs s f p)"
    "\<And>q. q \<in> slab_pages s A \<Longrightarrow> q \<noteq> p \<Longrightarrow> page_objs s f' q = page_objs s f q"
    "(a, object_size (kmem_caches s i)) \<notin> page_objs s f p"
    "unat (alloc_num sh) = Suc (unat (alloc_num (slab_heads s (vaddr p))))"
proof -
  note D = kinvD [OF K]
  let ?H = "kheads (slab_pages s A)" and ?c = "kmem_caches s i" and ?v = "vaddr p"
  have O: "slab_ok ?c (slab_heads s ?v) ?H f ?v" using D(8) [OF p] c by auto
  obtain h sh f' j where r:
    "alloc_object i ?v s = (s\<lparr>links := h, slab_heads := (slab_heads s)(?v := sh)\<rparr>, obj_addr ?c ?v j)"
    "family dll h ?H f'" "slab_ok ?c sh ?H f' ?v" "j < unat (capacity ?c)"
    "obj_node ?c ?v j \<notin> set (f (SlabAlloc ?v))"
    "f' (SlabAlloc ?v) = obj_node ?c ?v j # f (SlabAlloc ?v)"
    "\<And>l. l \<noteq> SlabAlloc ?v \<Longrightarrow> l \<noteq> SlabFree ?v \<Longrightarrow> f' l = f l"
    "unat (alloc_num sh) = Suc (unat (alloc_num (slab_heads s ?v)))"
    by (rule alloc_object_ok [OF D(4) O refl nf]) (rule that; assumption)
  note C = kinv_slab_change [OF K p c r(2,3,7)]
  show thesis
  proof (rule that [OF r(1)])
    show "page_objs s f' p = insert (obj_addr ?c ?v j, object_size ?c) (page_objs s f p)"
      by (simp add: page_objs_def Let_def c r(6) obj_of_node)
    show "(obj_addr ?c ?v j, object_size ?c) \<notin> page_objs s f p"
    proof
      assume "(obj_addr ?c ?v j, object_size ?c) \<in> page_objs s f p"
      from page_objE [OF K p this] obtain i' k where k: "cachep (pages s p) = Some i'"
        "obj_addr ?c ?v j = obj_addr (kmem_caches s i') ?v k"
        "obj_node (kmem_caches s i') ?v k \<in> set (f (SlabAlloc ?v))" by metis
      then have "i' = i" using c by simp
      with k(2,3) show False
        using r(5) by (simp add: obj_addr_def obj_node_def)
    qed
  qed (use r(8) C in auto)
qed

lemma image_remove: "(\<And>y. y \<in> X \<Longrightarrow> g y = g x \<Longrightarrow> y = x) \<Longrightarrow> g ` (X - {x}) = g ` X - {g x}"
  by auto

text \<open>The first half of \<open>kmem_cache_free\<close>: the object goes back to the free list of its page.\<close>

lemma give_back_kinv:
  assumes K: "kinv s f A pl" and p: "p \<in> slab_pages s A" and o: "(a, n) \<in> page_objs s f p"
    and c: "cachep (pages s p) = Some i"
  defines "x \<equiv> ObjNode (a + object_size (kmem_caches s i))" and "v \<equiv> vaddr p"
  defines "sh \<equiv> (slab_heads s v)\<lparr>alloc_num := alloc_num (slab_heads s v) - 1, free_num := free_num (slab_heads s v) + 1\<rparr>"
  obtains f' where
    "kinv (s\<lparr>links := list_add x (SlabFree v) (list_del x (links s)), slab_heads := (slab_heads s)(v := sh)\<rparr>) f' A pl"
    "page_objs s f' p = page_objs s f p - {(a, n)}"
    "\<And>q. q \<in> slab_pages s A \<Longrightarrow> q \<noteq> p \<Longrightarrow> page_objs s f' q = page_objs s f q"
    "Suc (unat (alloc_num sh)) = unat (alloc_num (slab_heads s v))"
proof -
  note D = kinvD [OF K]
  let ?H = "kheads (slab_pages s A)" and ?c = "kmem_caches s i"
  have O: "slab_ok ?c (slab_heads s v) ?H f v" using D(8) [OF p] c by (auto simp: v_def)
  from page_objE [OF K p o] obtain i' j where j: "cachep (pages s p) = Some i'" "j < unat (capacity (kmem_caches s i'))"
    "a = obj_addr (kmem_caches s i') v j" "n = object_size (kmem_caches s i')"
    "obj_node (kmem_caches s i') v j \<in> set (f (SlabAlloc v))" unfolding v_def by metis
  have i': "i' = i" using j(1) c by simp
  have x: "x = obj_node ?c v j" unfolding x_def j(3) i' by (simp add: obj_addr_def obj_node_def)
  then have xin: "x \<in> set (f (SlabAlloc v))" using j(5) i' by simp
  note G = give_back_ok [OF D(4) O xin, folded sh_def]
  let ?f = "f(SlabAlloc v := remove1 x (f (SlabAlloc v)), SlabFree v := x # f (SlabFree v))"
  have sl: "?f l = f l" if "l \<noteq> SlabAlloc v" "l \<noteq> SlabFree v" for l
    using that by simp
  note C = kinv_slab_change [OF K p c, folded v_def, OF G(1,2) sl]
  have dist: "distinct (f (SlabAlloc v))" using kl.family_distinct [OF D(4) slab_okD(3) [OF O]] by simp
  have inj: "y = x" if y: "y \<in> set (f (SlabAlloc v))" "node_addr y - object_size ?c = a" for y
  proof -
    obtain k where "y = obj_node ?c v k" using slab_okD(7) [OF O] y(1) by blast
    then show ?thesis unfolding x_def y(2) [symmetric] by (simp add: obj_node_def)
  qed
  define g where "g = (\<lambda>y. (node_addr y - object_size ?c, object_size ?c))"
  have po: "page_objs s f p = g ` set (f (SlabAlloc v))" "page_objs s ?f p = g ` (set (f (SlabAlloc v)) - {x})"
    using dist c by (simp_all add: page_objs_def Let_def v_def [symmetric] g_def)
  have gx: "g x = (a, n)" using j(3,4) i' unfolding x g_def by (simp add: obj_of_node)
  have u: "g y = g x \<Longrightarrow> y = x" if "y \<in> set (f (SlabAlloc v))" for y
    using inj [OF that] gx unfolding g_def by (metis prod.inject)
  have "page_objs s ?f p = page_objs s f p - {(a, n)}"
    unfolding po gx [symmetric] using u by (rule image_remove)
  from that [OF C(1) this C(2) G(3)] show thesis .
qed


section \<open>Choosing a page\<close>

lemma slab_ok_cpu [simp]: "slab_ok (c\<lparr>cpu_page := x\<rparr>) sh H f v = slab_ok c sh H f v"
  by (simp add: slab_ok_def cache_ok_def obj_node_def)

lemma cache_ok_cpu [simp]: "cache_ok (c\<lparr>cpu_page := x\<rparr>) = cache_ok c"
  by (simp add: cache_ok_def)

lemma set_cpu_kinv:
  assumes K: "kinv s f A pl" and p: "p \<in> slab_pages s A" and c: "cachep (pages s p) = Some i"
  shows "kinv (upd_cache i (\<lambda>c. c\<lparr>cpu_page := Some p\<rparr>) s) f A pl"
    and "page_objs (upd_cache i (\<lambda>c. c\<lparr>cpu_page := Some p\<rparr>) s) f q = page_objs s f q"
proof -
  let ?t = "upd_cache i (\<lambda>c. c\<lparr>cpu_page := Some p\<rparr>) s"
  note D = kinvD [OF K]
  have e: "links ?t = links s" "pages ?t = pages s" "slab_heads ?t = slab_heads s" "start_pfn ?t = start_pfn s"
    "zone_page_num ?t = zone_page_num s" "slab_pages ?t A = slab_pages s A" "zone ?t = zone s"
    "kmem_caches ?t = (kmem_caches s)(i := (kmem_caches s i)\<lparr>cpu_page := Some p\<rparr>)"
    by (simp_all add: upd_cache_def slab_pages_def zone_def)
  have "buddy_full ?t (kheads (slab_pages s A)) f A"
    by (rule buddy_full_frame [OF D(1) _ _ kheads_areas(1,2)]) (use D(4) e in auto)
  then show "kinv ?t f A pl"
    using K p c unfolding kinv_def e(2,3,6,7,8) by (auto split: if_splits)
  show "page_objs ?t f q = page_objs s f q"
    by (simp add: page_objs_def e Let_def)
qed

lemma kinv_nodes:
  assumes K: "kinv s f A pl" and l: "l \<in> kheads (slab_pages s A)" and x: "x \<in> set (f l)"
  shows "x \<in> range PageNode \<union> range ObjNode"
proof -
  note D = kinvD [OF K]
  consider k where "l = FreeArea k" "k \<le> MAX_BUDDY_ORDER" | i where "i < KMEM_CACHE_NUM" "l \<in> cache_lists i"
    | p where "p \<in> slab_pages s A" "l \<in> {SlabAlloc (vaddr p), SlabFree (vaddr p)}"
    using l unfolding kheads_def by blast
  then show ?thesis
  proof cases
    case 1
    then show ?thesis using D(1) x bcoreD(9) by (fastforce simp: buddy_full_def buddy_inv_def)
  next
    case 2
    then show ?thesis using D(9) x by auto
  next
    case (3 p)
    obtain i where "slab_ok (kmem_caches s i) (slab_heads s (vaddr p)) (kheads (slab_pages s A)) f (vaddr p)"
      using D(8) [OF 3(1)] by blast
    from slab_okD(7) [OF this] 3(2) x show ?thesis by (auto simp: obj_node_def)
  qed
qed

text \<open>The lists of a page that \<open>init_object_in_page\<close> turns into a slab.\<close>

lemma new_slab_family:
  assumes F: "family dll h H f" and l: "l \<in> H" and pn: "PageNode p \<notin> H" "unlisted (PageNode p) H f"
    and v: "SlabAlloc v \<notin> H" "SlabFree v \<notin> H" "ObjNode a \<notin> H"
    and nodes: "\<And>l x. l \<in> H \<Longrightarrow> x \<in> set (f l) \<Longrightarrow> x \<in> range PageNode \<union> (range ObjNode - {ObjNode a})"
  shows "family dll
      (list_add_tail (ObjNode a) (SlabFree v) (INIT_LIST_HEAD (SlabFree v) (INIT_LIST_HEAD (SlabAlloc v)
        (list_add (PageNode p) l h)))) (insert (SlabFree v) (insert (SlabAlloc v) H))
      (f(l := PageNode p # f l, SlabAlloc v := [], SlabFree v := [ObjNode a]))"
proof -
  define g where "g = f(l := PageNode p # f l)"
  define h1 where "h1 = list_add (PageNode p) l h"
  have F1: "family dll h1 H g"
    using klh.family_add [OF F l pn(1)] pn(2) by (simp add: unlisted_def g_def h1_def)
  have n1: "x \<in> range PageNode \<union> (range ObjNode - {ObjNode a})" if "l' \<in> H" "x \<in> set (g l')" for l' x
    using nodes [of l'] that l by (auto simp: g_def split: if_splits)
  then have out: "SlabAlloc v \<notin> set (g l')" "SlabFree v \<notin> set (g l')" "ObjNode a \<notin> set (g l')" if "l' \<in> H" for l'
    using that by fastforce+
  have F2: "family dll (INIT_LIST_HEAD (SlabAlloc v) h1) (insert (SlabAlloc v) H) (g(SlabAlloc v := []))"
    using out(1) by (intro kl.family_init_new [OF F1 v(1)]) simp
  have F3: "family dll (INIT_LIST_HEAD (SlabFree v) (INIT_LIST_HEAD (SlabAlloc v) h1))
      (insert (SlabFree v) (insert (SlabAlloc v) H)) (g(SlabAlloc v := [], SlabFree v := []))"
    using v(2) out(2) by (intro kl.family_init_new [OF F2]) auto
  have "\<forall>l'\<in>insert (SlabFree v) (insert (SlabAlloc v) H).
      ObjNode a \<notin> set ((g(SlabAlloc v := [], SlabFree v := [])) l')"
    using out(3) by auto
  from kl.family_add_tail [OF F3 _ _ this, of "SlabFree v"] show ?thesis
    using v(3) by (simp add: g_def h1_def) (simp add: fun_upd_def cong: if_cong)
qed


lemma new_page_kinv:
  assumes K: "kinv s f A pl" and i: "i < KMEM_CACHE_NUM"
    and r: "alloc_pages_raw s 0 BUDDY_SLAB = (s1, Some p)"
  defines "s2 \<equiv> upd_page p (\<lambda>pg. pg\<lparr>virt := get_kernel_vaddr (get_page_paddr p),
      used_info := BUDDY_SLAB, cachep := Some i\<rparr>) s1"
  defines "t \<equiv> init_object_in_page i p (upd_links (list_add (PageNode p) (CacheFree i)) s2)"
  obtains f' where "kinv t f' (insert (p, 0) A) (pl(p := CacheFree i))" "(p, 0) \<notin> A" "p \<in> slab_pages t (insert (p, 0) A)"
    "slab_pages t (insert (p, 0) A) = insert p (slab_pages s A)"
    "cachep (pages t p) = Some i" "alloc_num (slab_heads t (vaddr p)) = 0" "kmem_caches t = kmem_caches s"
    "page_objs t f' p = {}" "\<And>q. q \<in> slab_pages s A \<Longrightarrow> page_objs t f' q = page_objs s f q"
    "cpu t = cpu s"
proof -
  note D = kinvD [OF K]
  let ?P = "slab_pages s A" and ?A = "insert (p, 0) A" and ?v = "vaddr p" and ?c = "kmem_caches s i"
  obtain B where B: "buddy_inv s (kheads ?P) f B" "coalesced s B" "A = allocd s B"
    using D(1) by (auto simp: buddy_full_def)
  have ty: "BUDDY_SLAB \<noteq> BUDDY_FREE" by simp
  obtain g h f1 B1 j where
    s1: "s1 = s\<lparr>pages := g(p := (g p)\<lparr>bplevel := 0, used_info := BUDDY_SLAB, virt := 0, cachep := None\<rparr>), links := h\<rparr>"
    and B1: "buddy_inv s1 (kheads ?P) f1 B1" "coalesced s1 B1" "allocd s1 B1 = ?A"
    and f1: "same_lists f f1" "unlisted (PageNode p) (kheads ?P) f1"
    and pj: "(p, j) \<in> B" "used_info (pages s p) = BUDDY_FREE" "\<And>x. x \<notin> blk (p, j) - {p} \<Longrightarrow> g x = pages s x"
    using alloc_pages_raw_Some [OF B(1,2) ty r] B(3) by metis
  have rep: "buddy_rep s (kheads ?P) f A" using B unfolding buddy_rep_def by (metis same_lists_refl)
  note S = rep_alloc_Some [OF rep ty r]
  have pA: "(p, 0) \<notin> A" using pj(2) B(3) by (auto simp: allocd_def)
  have unch: "pages s1 q = pages s q" if "(q, k) \<in> A" for q k
    using S(3) that by (auto simp: page_unchanged_def)
  have z1: "zone s1 = zone s" by (simp add: s1 zone_def)
  have p17: "p < 2 ^ 17"
    using subsetD [OF rep_blocks(1) [OF S(1), of p 0] blk_start] z1 D(2) by auto
  note V = vaddr_facts [OF p17]
  have vnew: "SlabAlloc ?v \<notin> kheads ?P" "SlabFree ?v \<notin> kheads ?P"
    using vaddr_inj [OF p17 D(10)] pA unfolding kheads_def cache_lists_def by (auto simp: slab_pages_def)
  have kh: "kheads (insert p ?P) = insert (SlabFree ?v) (insert (SlabAlloc ?v) (kheads ?P))"
    by (auto simp: kheads_def)
  have f1nodes: "x \<in> range PageNode \<union> (range ObjNode - {obj_node ?c ?v 0})"
    if l: "l \<in> kheads ?P" "x \<in> set (f1 l)" for l x
  proof (cases "l \<in> range FreeArea")
    case True
    then obtain k where k: "l = FreeArea k" "k \<le> MAX_BUDDY_ORDER"
      using kheads_areas(3) [of ?P] l(1) unfolding heads_ok_def by fastforce
    then show ?thesis using bcoreD(9) [OF B1(1) [unfolded buddy_inv_def] k(2)] l(2) by auto
  next
    case False
    then have x: "x \<in> set (f l)" using f1(1) l(2) by (auto simp: same_lists_def)
    have "x \<noteq> obj_node ?c ?v 0"
    proof
      assume e: "x = obj_node ?c ?v 0"
      have "lower_align (?v + 24 + of_nat (Suc 0) * obj_step ?c) PAGE_SIZE = ?v"
        using D(5) [OF i] by (intro lower_align_node(1) [OF _ V(4)]) (auto simp: cache_ok_def)
      then have "l \<in> {SlabAlloc ?v, SlabFree ?v}"
        using D(3) l(1) x e unfolding obj_home_def obj_node_def by fastforce
      then show False using vnew l(1) by auto
    qed
    then show ?thesis using kinv_nodes [OF K l(1) x] by auto
  qed
  define f' where "f' = f1(CacheFree i := PageNode p # f1 (CacheFree i), SlabAlloc ?v := [], SlabFree ?v := [obj_node ?c ?v 0])"
  have cf: "CacheFree i \<in> kheads ?P" using kheads_mem(1) [OF i, of "CacheFree i"] by (simp add: cache_lists_def)
  have F: "family dll (list_add_tail (obj_node ?c ?v 0) (SlabFree ?v) (INIT_LIST_HEAD (SlabFree ?v)
      (INIT_LIST_HEAD (SlabAlloc ?v) (list_add (PageNode p) (CacheFree i) (links s1))))) (kheads (insert p ?P)) f'"
    unfolding kh f'_def obj_node_def
    by (rule new_slab_family) (use f1(2) vnew cf f1nodes bcoreD(3) [OF B1(1) [unfolded buddy_inv_def]]
        in \<open>auto simp: obj_node_def\<close>)
  let ?pg = "(pages s1 p)\<lparr>virt := ?v, used_info := BUDDY_SLAB, cachep := Some i\<rparr>"
  let ?sh = "(slab_heads s ?v)\<lparr>alloc_num := 0, free_num := 1\<rparr>"
  have t: "links t = list_add_tail (obj_node ?c ?v 0) (SlabFree ?v) (INIT_LIST_HEAD (SlabFree ?v)
      (INIT_LIST_HEAD (SlabAlloc ?v) (list_add (PageNode p) (CacheFree i) (links s1))))"
    "pages t = (pages s1)(p := ?pg)" "slab_heads t = (slab_heads s)(?v := ?sh)" "kmem_caches t = kmem_caches s"
    "start_pfn t = start_pfn s1" "zone_page_num t = zone_page_num s1" "cpu t = cpu s"
    unfolding t_def s2_def
    by (simp_all add: init_object_in_page_def Let_def upd_links_def upd_slab_def upd_page_def s1 vaddr_def [symmetric]
        obj_node_def os_const algebra_simps)
  have sp: "slab_pages t ?A = insert p ?P"
    using unch by (auto simp: slab_pages_def t(2))
  have pP: "p \<notin> ?P" using pA by (simp add: slab_pages_def)
  have home: "obj_home (kheads (insert p ?P)) f'"
    unfolding obj_home_def
  proof (intro ballI allI impI)
    fix l a assume l: "l \<in> kheads (insert p ?P)" and a: "ObjNode a \<in> set (f' l)"
    show "l \<in> {SlabAlloc (lower_align a PAGE_SIZE), SlabFree (lower_align a PAGE_SIZE)}"
    proof (cases "l = SlabAlloc ?v \<or> l = SlabFree ?v")
      case True
      then have "ObjNode a = obj_node ?c ?v 0" using a by (auto simp: f'_def split: if_splits)
      then have "lower_align a PAGE_SIZE = ?v"
        using lower_align_node(1) [OF D(5) [OF i] V(4), of 0] D(5) [OF i] by (auto simp: obj_node_def cache_ok_def)
      then show ?thesis using True by auto
    next
      case False
      then have l': "l \<in> kheads ?P" and a': "ObjNode a \<in> set (f1 l)"
        using l a by (auto simp: kh f'_def split: if_splits)
      moreover have "l \<notin> range FreeArea"
      proof
        assume "l \<in> range FreeArea"
        then obtain k where "l = FreeArea k" "k \<le> MAX_BUDDY_ORDER"
          using kheads_areas(3) [of ?P] l' unfolding heads_ok_def by fastforce
        then show False using bcoreD(9) [OF B1(1) [unfolded buddy_inv_def]] a' by fastforce
      qed
      ultimately show ?thesis using D(3) f1(1) by (auto simp: obj_home_def same_lists_def)
    qed
  qed
  have same: "f' l = f l" if "l \<notin> range FreeArea" "l \<noteq> CacheFree i" "l \<noteq> SlabAlloc ?v" "l \<noteq> SlabFree ?v" for l
    using that f1(1) by (simp add: f'_def same_lists_def)
  have "f1 (CacheFree i) = f (CacheFree i)" using f1(1) by (auto simp: same_lists_def)
  then have f'v: "f' (CacheFree i) = PageNode p # f (CacheFree i)" "f' (SlabAlloc ?v) = []"
    "f' (SlabFree ?v) = [obj_node ?c ?v 0]" by (simp_all add: f'_def)
  have vq: "vaddr q \<noteq> ?v" if "q \<in> ?P" for q
    using vaddr_inj [OF D(10) [OF that] p17] pP that by auto
  have listed: "(\<exists>k. (x, k) \<in> ?A) \<or> (\<exists>l'\<in>kheads ?P. PageNode x \<in> set (f1 l'))"
    if "l \<in> kheads (insert p ?P)" "PageNode x \<in> set (f' l)" for l x
    using that by (auto simp: kh f'_def obj_node_def split: if_splits)
  have "buddy_full s1 (kheads ?P) f1 ?A" using B1 by (auto simp: buddy_full_def)
  then have bf: "buddy_full t (kheads (insert p ?P)) f' ?A"
    by (rule buddy_full_frame [OF _ _ _ kheads_areas(1,2) listed])
      (use F t S(5) in \<open>auto simp: f'_def\<close>)
  have pgq: "pages t q = pages s q" if "q \<in> ?P" for q
    using unch [of q 0] that pP by (auto simp: t(2) slab_pages_def)
  have okp: "slab_ok ?c ?sh (kheads (insert p ?P)) f' ?v"
    unfolding slab_ok_def
  proof (intro conjI allI impI ballI)
    show "cache_ok ?c" by (rule D(5) [OF i])
    then show "carved ?sh \<le> unat (capacity ?c)" by (simp add: carved_def cache_ok_def)
    show "obj_node ?c ?v k \<notin> set (f' l)" if k: "carved ?sh \<le> k \<and> k < unat (capacity ?c)" and l: "l \<in> kheads (insert p ?P)" for k l
    proof
      assume x: "obj_node ?c ?v k \<in> set (f' l)"
      have "lower_align (?v + 24 + of_nat (Suc k) * obj_step ?c) PAGE_SIZE = ?v"
        using k by (intro lower_align_node(1) [OF D(5) [OF i] V(4)]) simp
      then have "l \<in> {SlabAlloc ?v, SlabFree ?v}"
        using home l x unfolding obj_home_def obj_node_def by fastforce
      then have "obj_node ?c ?v k = obj_node ?c ?v 0" using x f'v by auto
      then have "k = 0" using obj_node_inj [OF D(5) [OF i] V(4), of k 0] k by auto
      then show False using k by (simp add: carved_def)
    qed
  qed (use f'v V(4) in \<open>auto simp: carved_def obj_node_def\<close>)
  have okq: "slab_ok (kmem_caches s k) (slab_heads t (vaddr q)) (kheads (insert p ?P)) f' (vaddr q)"
    if q: "q \<in> ?P" "cachep (pages s q) = Some k" for q k
  proof -
    have "slab_ok (kmem_caches s k) (slab_heads s (vaddr q)) (kheads ?P) f (vaddr q)" using D(8) [OF q(1)] q(2) by auto
    moreover have "f' (SlabAlloc (vaddr q)) = f (SlabAlloc (vaddr q))" "f' (SlabFree (vaddr q)) = f (SlabFree (vaddr q))"
      using vq [OF q(1)] by (auto intro!: same)
    ultimately have "slab_ok (kmem_caches s k) (slab_heads s (vaddr q)) (kheads (insert p ?P)) f' (vaddr q)"
      using q(1) by (intro slab_ok_frame [OF _ _ _ _ _ _ home]) auto
    then show ?thesis using vq [OF q(1)] by (simp add: t(3))
  qed
  have lists: "set (f' l) = PageNode ` {q \<in> insert p ?P. (pl(p := CacheFree i)) q = l}"
    if l: "k < KMEM_CACHE_NUM" "l \<in> cache_lists k" for k l
  proof (cases "l = CacheFree i")
    case True
    then show ?thesis using D(9) [OF l] f'v(1) pP by auto
  next
    case False
    then have "f' l = f l" using l(2) by (intro same) (auto simp: cache_lists_def)
    then show ?thesis using D(9) [OF l] False pP by auto
  qed
  have "kinv t f' ?A (pl(p := CacheFree i))"
    unfolding kinv_def sp
  proof (intro conjI allI impI ballI)
    show "zone t \<subseteq> {0<..<2 ^ 17}" using D(2) by (simp add: zone_def t(5,6) s1)
    show "cache_ok (kmem_caches t k)" if "k < KMEM_CACHE_NUM" for k using D(5) [OF that] t(4) by simp
    show "q \<in> insert p ?P" "cachep (pages t q) = Some k"
      if "k < KMEM_CACHE_NUM" "cpu_page (kmem_caches t k) = Some q" for k q
      using D(6) [OF that(1)] that(2) pgq [of q] by (auto simp: t(4))
    show "virt (pages t q) = vaddr q" if "q \<in> insert p ?P" for q
      using that D(7) [of q] pgq [of q] by (cases "q = p") (auto simp: t(2))
    show "\<exists>k<KMEM_CACHE_NUM. cachep (pages t q) = Some k \<and> (pl(p := CacheFree i)) q \<in> cache_lists k \<and>
        slab_ok (kmem_caches t k) (slab_heads t (vaddr q)) (kheads (insert p ?P)) f' (vaddr q)"
      if q: "q \<in> insert p ?P" for q
    proof (cases "q = p")
      case True
      then show ?thesis using okp i by (auto simp: t(2,3,4) cache_lists_def)
    next
      case False
      then show ?thesis using q D(8) [of q] okq pgq [of q] by (auto simp: t(4))
    qed
  qed (use bf home lists in auto)
  moreover have "page_objs t f' p = {}" using f'v(2) by (simp add: page_objs_def)
  moreover have "page_objs t f' q = page_objs s f q" if "q \<in> ?P" for q
  proof -
    have "f' (SlabAlloc (vaddr q)) = f (SlabAlloc (vaddr q))" using vq [OF that] by (intro same) auto
    then show ?thesis by (simp add: page_objs_def t(4) pgq [OF that])
  qed
  ultimately show thesis
    using that pA sp t by simp
qed


section \<open>Allocation and freeing in a cache\<close>

text \<open>Between two operations a page is on the list that its number of objects in use tells.\<close>

definition page_list :: "'z slab_scheme \<Rightarrow> nat \<Rightarrow> node" where
  "page_list s p = (let i = the (cachep (pages s p)); n = alloc_num (slab_heads s (vaddr p)) in
     if n = 0 then CacheFree i else if n = capacity (kmem_caches s i) then CacheFull i else CachePartial i)"

definition kheap :: "'z slab_scheme \<Rightarrow> (node \<Rightarrow> node list) \<Rightarrow> (nat \<times> nat) set \<Rightarrow> bool" where
  "kheap s f A \<longleftrightarrow> kinv s f A (page_list s)"

lemma kinv_cong:
  "(\<And>p. p \<in> slab_pages s A \<Longrightarrow> pl p = pl' p) \<Longrightarrow> kinv s f A pl = kinv s f A pl'"
  unfolding kinv_def by (intro arg_cong2 [of _ _ _ _ "(\<and>)"] refl) (auto intro!: ball_cong)

lemma alloc_num_le:
  assumes K: "kinv s f A pl" and p: "p \<in> slab_pages s A" and c: "cachep (pages s p) = Some i"
  shows "alloc_num (slab_heads s (vaddr p)) \<le> capacity (kmem_caches s i)" "i < KMEM_CACHE_NUM"
    "capacity (kmem_caches s i) \<noteq> 0"
proof -
  obtain O: "slab_ok (kmem_caches s i) (slab_heads s (vaddr p)) (kheads (slab_pages s A)) f (vaddr p)"
    and i: "i < KMEM_CACHE_NUM" using kinvD(8) [OF K p] c by auto
  show "i < KMEM_CACHE_NUM" by (rule i)
  show "alloc_num (slab_heads s (vaddr p)) \<le> capacity (kmem_caches s i)"
    using slab_okD(8) [OF O] by (simp add: carved_def word_le_nat_alt)
  show "capacity (kmem_caches s i) \<noteq> 0"
    using slab_okD(1) [OF O] by (auto simp: cache_ok_def)
qed

lemma page_of_first:
  assumes K: "kheap s f A" and i: "i < KMEM_CACHE_NUM" and l: "l \<in> cache_lists i" and ne: "\<not> list_empty l (links s)"
  shows "page_of (next (links s) l) \<in> slab_pages s A" "page_list s (page_of (next (links s) l)) = l"
proof -
  note D = kinvD [OF K [unfolded kheap_def]]
  have d: "dll (links s) l (f l)" using kl.familyD [OF D(4) kheads_mem(1) [OF i l]] .
  then have "next (links s) l \<in> set (f l)" using ne dll_empty [OF d] dll_next [OF d] by (cases "f l") auto
  then obtain p where "p \<in> slab_pages s A" "page_list s p = l" "next (links s) l = PageNode p"
    using D(9) [OF i l] by auto
  then show "page_of (next (links s) l) \<in> slab_pages s A" "page_list s (page_of (next (links s) l)) = l" by auto
qed

lemma page_list_cache:
  assumes K: "kheap s f A" and p: "p \<in> slab_pages s A" and l: "page_list s p \<in> cache_lists i"
  shows "cachep (pages s p) = Some i"
proof -
  obtain k where "cachep (pages s p) = Some k" using kinvD(8) [OF K [unfolded kheap_def] p] by blast
  then show ?thesis using l by (auto simp: page_list_def cache_lists_def Let_def split: if_splits)
qed

text \<open>The page that \<open>slab_page\<close> finds or makes has room, and nothing in use has changed.\<close>

definition same_use ::
    "'z slab_scheme \<Rightarrow> (node \<Rightarrow> node list) \<Rightarrow> (nat \<times> nat) set \<Rightarrow>
     'z slab_scheme \<Rightarrow> (node \<Rightarrow> node list) \<Rightarrow> (nat \<times> nat) set \<Rightarrow> bool" where
  "same_use s f A s' f' A' \<longleftrightarrow> kobjs s' f' A' = kobjs s f A \<and> cpu s' = cpu s \<and>
     {b \<in> A'. used_info (pages s' (fst b)) \<noteq> BUDDY_SLAB} = {b \<in> A. used_info (pages s (fst b)) \<noteq> BUDDY_SLAB} \<and>
     (\<forall>i. object_size (kmem_caches s' i) = object_size (kmem_caches s i))"

lemma cpu_use:
  assumes K: "kheap s f A" and p: "p \<in> slab_pages s A" and c: "cachep (pages s p) = Some i"
  defines "t \<equiv> upd_cache i (\<lambda>c. c\<lparr>cpu_page := Some p\<rparr>) s"
  shows "kheap t f A" "same_use s f A t f A" "p \<in> slab_pages t A" "cachep (pages t p) = Some i"
    "slab_heads t = slab_heads s" "capacity (kmem_caches t i) = capacity (kmem_caches s i)" "zone t = zone s"
proof -
  note C = set_cpu_kinv [OF K [unfolded kheap_def] p c, folded t_def]
  have e: "pages t = pages s" "slab_heads t = slab_heads s" "cpu t = cpu s"
    "kmem_caches t = (kmem_caches s)(i := (kmem_caches s i)\<lparr>cpu_page := Some p\<rparr>)"
    by (simp_all add: t_def upd_cache_def)
  have "page_list t = page_list s" by (auto simp: page_list_def fun_eq_iff e Let_def)
  then show "kheap t f A" using C(1) by (simp add: kheap_def)
  show "same_use s f A t f A" using C(2) by (simp add: same_use_def kobjs_def slab_pages_def e)
  show "p \<in> slab_pages t A" "cachep (pages t p) = Some i" using p c by (simp_all add: slab_pages_def e)
  show "slab_heads t = slab_heads s" "capacity (kmem_caches t i) = capacity (kmem_caches s i)" by (simp_all add: e)
  show "zone t = zone s" by (simp add: t_def upd_cache_def zone_def)
qed


lemma new_page_use:
  assumes K: "kheap s f A" and i: "i < KMEM_CACHE_NUM"
    and r: "alloc_pages_raw s 0 BUDDY_SLAB = (s1, Some p)"
  defines "t \<equiv> init_object_in_page i p (upd_links (list_add (PageNode p) (CacheFree i))
      (upd_page p (\<lambda>pg. pg\<lparr>virt := get_kernel_vaddr (get_page_paddr p),
        used_info := BUDDY_SLAB, cachep := Some i\<rparr>) s1))"
  obtains f' where "kheap t f' (insert (p, 0) A)" "same_use s f A t f' (insert (p, 0) A)"
    "p \<in> slab_pages t (insert (p, 0) A)" "cachep (pages t p) = Some i" "alloc_num (slab_heads t (vaddr p)) = 0"
    "zone t = zone s"
proof -
  note K' = K [unfolded kheap_def]
  obtain f' where N: "kinv t f' (insert (p, 0) A) ((page_list s)(p := CacheFree i))" "(p, 0) \<notin> A"
    "p \<in> slab_pages t (insert (p, 0) A)" "slab_pages t (insert (p, 0) A) = insert p (slab_pages s A)"
    "cachep (pages t p) = Some i" "alloc_num (slab_heads t (vaddr p)) = 0" "kmem_caches t = kmem_caches s"
    "page_objs t f' p = {}" "\<And>q. q \<in> slab_pages s A \<Longrightarrow> page_objs t f' q = page_objs s f q"
    "cpu t = cpu s"
    by (rule new_page_kinv [OF K' i r, folded t_def]) (rule that; assumption)
  have ty: "BUDDY_SLAB \<noteq> BUDDY_FREE" by simp
  obtain B where B: "buddy_inv s (kheads (slab_pages s A)) f B" "coalesced s B" "A = allocd s B"
    using kinvD(1) [OF K'] by (auto simp: buddy_full_def)
  have "buddy_rep s (kheads (slab_pages s A)) f A" using B unfolding buddy_rep_def by (metis same_lists_refl)
  note S = rep_alloc_Some [OF this ty r]
  have pA: "(p, k) \<notin> A" for k
    using S(4) [of "(p, k)"] blk_start [of p k] blk_start [of p 0] by blast
  have pg: "pages t q = pages s q" if "(q, k) \<in> A" for q k
  proof -
    have "q \<noteq> p" using pA that by auto
    moreover have "pages s1 q = pages s q" using S(3) that by (auto simp: page_unchanged_def)
    ultimately show ?thesis
      by (simp add: t_def init_object_in_page_def Let_def upd_links_def upd_slab_def upd_page_def)
  qed
  have sh: "slab_heads t (vaddr q) = slab_heads s (vaddr q)" if "q \<in> slab_pages s A" for q
  proof -
    have "q < 2 ^ 17" "p < 2 ^ 17" using kinvD(10) [OF K' that] kinvD(10) [OF N(1,3)] by auto
    moreover have "q \<noteq> p" using that pA by (auto simp: slab_pages_def)
    ultimately have "vaddr q \<noteq> vaddr p" using vaddr_inj by blast
    moreover obtain g h where "s1 = s\<lparr>pages := g, links := h\<rparr>" using S(6) by blast
    ultimately show ?thesis
      by (simp add: t_def init_object_in_page_def Let_def upd_links_def upd_slab_def upd_page_def vaddr_def)
  qed
  have pl: "page_list t q = ((page_list s)(p := CacheFree i)) q" if "q \<in> slab_pages t (insert (p, 0) A)" for q
  proof (cases "q = p")
    case True
    then show ?thesis using N(5,6) by (simp add: page_list_def)
  next
    case False
    then have "q \<in> slab_pages s A" using that N(4) by auto
    then show ?thesis using False sh pg [of q 0] N(7) by (auto simp: page_list_def slab_pages_def Let_def)
  qed
  have "kheap t f' (insert (p, 0) A)"
    unfolding kheap_def
    by (subst kinv_cong [where pl' = "(page_list s)(p := CacheFree i)"]) (use N(1) pl in auto)
  moreover have "same_use s f A t f' (insert (p, 0) A)"
    unfolding same_use_def
  proof (intro conjI allI)
    show "kobjs t f' (insert (p, 0) A) = kobjs s f A" using N(4,8,9) by (simp add: kobjs_def)
    have "used_info (pages t p) = BUDDY_SLAB" using N(3) by (simp add: slab_pages_def)
    then show "{b \<in> insert (p, 0) A. used_info (pages t (fst b)) \<noteq> BUDDY_SLAB} =
        {b \<in> A. used_info (pages s (fst b)) \<noteq> BUDDY_SLAB}"
      using pg by fastforce
  qed (use N(7,10) in auto)
  moreover have "zone t = zone s"
  proof -
    obtain g h where "s1 = s\<lparr>pages := g, links := h\<rparr>" using S(6) by blast
    then show ?thesis by (simp add: t_def init_object_in_page_def Let_def upd_links_def upd_slab_def upd_page_def zone_def)
  qed
  ultimately show thesis using that N(3,5,6) by blast
qed

lemma same_use_trans: "same_use s f A s1 f1 A1 \<Longrightarrow> same_use s1 f1 A1 s2 f2 A2 \<Longrightarrow> same_use s f A s2 f2 A2"
  by (simp add: same_use_def)

lemma slab_page_use:
  assumes K: "kheap s f A" and i: "i < KMEM_CACHE_NUM" and r: "slab_page i s = (s', Some p)"
  obtains f' A' where "kheap s' f' A'" "same_use s f A s' f' A'" "p \<in> slab_pages s' A'"
    "cachep (pages s' p) = Some i" "alloc_num (slab_heads s' (vaddr p)) < capacity (kmem_caches s' i)"
    "zone s' = zone s" "A' = A \<or> A' = insert (p, 0) A"
proof -
  note goal = that
  note K' = K [unfolded kheap_def]
  have su: "same_use s f A s f A" by (simp add: same_use_def)
  have room: "alloc_num (slab_heads s (vaddr q)) < capacity (kmem_caches s i)"
    if "q \<in> slab_pages s A" "cachep (pages s q) = Some i" "page_list s q \<noteq> CacheFull i \<or> \<not> slab_is_full s i (vaddr q)" for q
    using alloc_num_le [OF K' that(1,2)] that(2,3)
    by (auto simp: page_list_def slab_is_full_def Let_def order.strict_iff_order split: if_splits)
  have listed: thesis if q: "q = page_of (next (links s) l)" "l \<in> {CachePartial i, CacheFree i}" "\<not> list_empty l (links s)"
    "(s', Some p) = (upd_cache i (\<lambda>c. c\<lparr>cpu_page := Some q\<rparr>) s, Some q)" for q l
  proof -
    have li: "l \<in> cache_lists i" using q(2) by (auto simp: cache_lists_def)
    note P = page_of_first [OF K i li q(3), folded q(1)]
    have c: "cachep (pages s q) = Some i" using page_list_cache [OF K P(1)] P(2) li by simp
    note U = cpu_use [OF K P(1) c]
    have "alloc_num (slab_heads s (vaddr q)) < capacity (kmem_caches s i)"
      using P q(2) by (intro room [OF P(1) c]) auto
    then show thesis using U q(4) by (intro goal) auto
  qed
  define u where "u = (case cpu_page (kmem_caches s i) of None \<Rightarrow> None
      | Some p \<Rightarrow> if slab_is_full s i (virt (pages s p)) then None else Some p)"
  show thesis
  proof (cases u)
    case (Some q)
    then have q: "cpu_page (kmem_caches s i) = Some q" "\<not> slab_is_full s i (virt (pages s q))"
      by (auto simp: u_def split: option.splits if_splits)
    then have e: "s' = s" "p = q" using r Some by (auto simp: slab_page_def Let_def u_def [symmetric])
    have P: "q \<in> slab_pages s A" "cachep (pages s q) = Some i" using kinvD(6) [OF K' i q(1)] by auto
    then have "alloc_num (slab_heads s (vaddr q)) < capacity (kmem_caches s i)"
      using q(2) kinvD(7) [OF K' P(1)] by (intro room) auto
    then show thesis using K su P e by (intro that) auto
  next
    case None
    consider (part) "\<not> list_empty (CachePartial i) (links s)"
      | (free) "list_empty (CachePartial i) (links s)" "\<not> list_empty (CacheFree i) (links s)"
      | (new) "list_empty (CachePartial i) (links s)" "list_empty (CacheFree i) (links s)" by blast
    then show thesis
    proof cases
      case part
      then show thesis using r None
        by (intro listed [OF refl, of "CachePartial i"]) (auto simp: slab_page_def Let_def u_def [symmetric])
    next
      case free
      then show thesis using r None
        by (intro listed [OF refl, of "CacheFree i"]) (auto simp: slab_page_def Let_def u_def [symmetric])
    next
      case new
      obtain s1 x where a: "alloc_pages_raw s 0 BUDDY_SLAB = (s1, x)" by fastforce
      define t where "t = init_object_in_page i p (upd_links (list_add (PageNode p) (CacheFree i))
        (upd_page p (\<lambda>pg. pg\<lparr>virt := get_kernel_vaddr (get_page_paddr p),
          used_info := BUDDY_SLAB, cachep := Some i\<rparr>) s1))"
      have e: "x = Some p" "s' = upd_cache i (\<lambda>c. c\<lparr>cpu_page := Some p\<rparr>) t"
        using r a None new by (auto simp: slab_page_def Let_def u_def [symmetric] t_def split: option.splits)
      obtain f' where N: "kheap t f' (insert (p, 0) A)" "same_use s f A t f' (insert (p, 0) A)"
        "p \<in> slab_pages t (insert (p, 0) A)" "cachep (pages t p) = Some i" "alloc_num (slab_heads t (vaddr p)) = 0"
        "zone t = zone s"
        by (rule new_page_use [OF K i a [unfolded e(1)], folded t_def])
      note U = cpu_use [OF N(1,3,4), folded e(2)]
      have "0 < capacity (kmem_caches t i)"
        using alloc_num_le(3) [OF N(1) [unfolded kheap_def] N(3,4)] by (simp add: word_gt_0)
      then show thesis
        using U N(5,6) same_use_trans [OF N(2) U(2)] by (intro that [OF U(1) _ U(3,4)]) auto
    qed
  qed
qed


lemma kobjs_split:
  "p \<in> slab_pages s A \<Longrightarrow> kobjs s f A = page_objs s f p \<union> (\<Union>q\<in>slab_pages s A - {p}. page_objs s f q)"
  by (auto simp: kobjs_def)

lemma obj_other_page:
  assumes K: "kinv s f A pl" and p: "p \<in> slab_pages s A" "(a, n) \<in> page_objs s f p"
    and q: "q \<in> slab_pages s A" "(a, m) \<in> page_objs s f q"
  shows "p = q"
proof -
  have "lower_align a PAGE_SIZE = vaddr p" using page_objE [OF K p] by metis
  moreover have "lower_align a PAGE_SIZE = vaddr q" using page_objE [OF K q] by metis
  ultimately show ?thesis using vaddr_inj [OF kinvD(10) [OF K p(1)] kinvD(10) [OF K q(1)]] by simp
qed

text \<open>The move of a page at the end of an allocation or a free puts it on the list it belongs to.\<close>

lemma finish_move:
  assumes K: "kinv s f A pl" and p: "p \<in> slab_pages s A" and c: "cachep (pages s p) = Some i"
    and pl: "\<And>q. q \<in> slab_pages s A \<Longrightarrow> q \<noteq> p \<Longrightarrow> pl q = page_list s q"
    and t: "t = (if move then move_page p (page_list s p) s else s)" and stay: "\<not> move \<Longrightarrow> pl p = page_list s p"
  obtains f' where "kheap t f' A" "\<And>v. f' (SlabAlloc v) = f (SlabAlloc v)"
    "pages t = pages s" "kmem_caches t = kmem_caches s" "slab_heads t = slab_heads s" "cpu t = cpu s"
proof -
  have e: "pages t = pages s" "kmem_caches t = kmem_caches s" "slab_heads t = slab_heads s" "cpu t = cpu s"
    by (simp_all add: t move_page_def)
  have sp: "slab_pages t A = slab_pages s A" "page_list t = page_list s"
    by (simp_all add: slab_pages_def page_list_def fun_eq_iff e Let_def)
  show thesis
  proof (cases move)
    case True
    have i: "i < KMEM_CACHE_NUM" using alloc_num_le(2) [OF K p c] .
    have l: "page_list s p \<in> cache_lists i" by (simp add: page_list_def cache_lists_def c Let_def)
    obtain f' where M: "kinv (move_page p (page_list s p) s) f' A (pl(p := page_list s p))"
        "\<And>v. f' (SlabAlloc v) = f (SlabAlloc v)"
      by (rule move_page_kinv [OF K p i c l]) (rule that; assumption)
    have "kheap t f' A"
      unfolding kheap_def sp(2)
      by (subst kinv_cong [where pl' = "pl(p := page_list s p)"]) (use M(1) True t pl sp in auto)
    then show thesis using that M(2) e by blast
  next
    case False
    have "page_list s q = pl q" if "q \<in> slab_pages s A" for q
      using pl [OF that] stay [OF False] by (cases "q = p") auto
    then have "kheap t f A"
      unfolding kheap_def sp(2)
      by (subst kinv_cong [where pl' = pl]) (use K False t sp in auto)
    then show thesis using that e by blast
  qed
qed

lemma kmem_cache_alloc_use:
  assumes K: "kheap s f A" and i: "i < KMEM_CACHE_NUM" and r: "kmem_cache_alloc i s = (s', a)" and a: "a \<noteq> 0"
  obtains f' A' where "kheap s' f' A'"
    "kobjs s' f' A' = insert (a, object_size (kmem_caches s i)) (kobjs s f A)"
    "(a, object_size (kmem_caches s i)) \<notin> kobjs s f A" "cpu s' = cpu s"
    "\<And>i. object_size (kmem_caches s' i) = object_size (kmem_caches s i)"
    "{b \<in> A'. used_info (pages s' (fst b)) \<noteq> BUDDY_SLAB} = {b \<in> A. used_info (pages s (fst b)) \<noteq> BUDDY_SLAB}"
    "zone s' = zone s" "A' = A \<or> (\<exists>p. A' = insert (p, 0) A)"
proof -
  obtain s1 x where sp: "slab_page i s = (s1, x)" by fastforce
  then obtain p where x: "x = Some p" using r a by (cases x) (auto simp: kmem_cache_alloc_def)
  obtain f1 A1 where U: "kheap s1 f1 A1" "same_use s f A s1 f1 A1" "p \<in> slab_pages s1 A1"
    "cachep (pages s1 p) = Some i" "alloc_num (slab_heads s1 (vaddr p)) < capacity (kmem_caches s1 i)"
    "zone s1 = zone s" "A1 = A \<or> A1 = insert (p, 0) A"
    by (rule slab_page_use [OF K i sp [unfolded x]])
  note K1 = U(1) [unfolded kheap_def]
  let ?c = "kmem_caches s1 i" and ?v = "vaddr p"
  have v: "virt (pages s1 p) = ?v" by (rule kinvD(7) [OF K1 U(3)])
  obtain h sh f2 ad where O: "alloc_object i ?v s1 = (s1\<lparr>links := h, slab_heads := (slab_heads s1)(?v := sh)\<rparr>, ad)"
    "kinv (s1\<lparr>links := h, slab_heads := (slab_heads s1)(?v := sh)\<rparr>) f2 A1 (page_list s1)"
    "page_objs s1 f2 p = insert (ad, object_size ?c) (page_objs s1 f1 p)"
    "\<And>q. q \<in> slab_pages s1 A1 \<Longrightarrow> q \<noteq> p \<Longrightarrow> page_objs s1 f2 q = page_objs s1 f1 q"
    "(ad, object_size ?c) \<notin> page_objs s1 f1 p"
    "unat (alloc_num sh) = Suc (unat (alloc_num (slab_heads s1 ?v)))"
    by (rule alloc_object_kinv [OF K1 U(3) i U(4,5)]) (rule that; assumption)
  define s2 where "s2 = s1\<lparr>links := h, slab_heads := (slab_heads s1)(?v := sh)\<rparr>"
  have e2: "pages s2 = pages s1" "kmem_caches s2 = kmem_caches s1" "cpu s2 = cpu s1" "slab_pages s2 A1 = slab_pages s1 A1"
    "slab_heads s2 = (slab_heads s1)(?v := sh)" "\<And>f q. page_objs s2 f q = page_objs s1 f q"
    by (simp_all add: s2_def slab_pages_def page_objs_def)
  have n0: "alloc_num sh \<noteq> 0" using O(6) by auto
  define full where "full \<longleftrightarrow> alloc_num sh = capacity ?c"
  define free where "free \<longleftrightarrow> alloc_num (slab_heads s1 ?v) = 0"
  have pl2: "page_list s2 p = (if full then CacheFull i else CachePartial i)"
    using n0 by (simp add: page_list_def e2 U(4) full_def)
  have s': "s' = (if full \<or> free then move_page p (page_list s2 p) s2 else s2)" "a = ad"
    using r O(1) unfolding kmem_cache_alloc_def sp x pl2
    by (auto simp: v Let_def slab_is_empty_def slab_is_full_def s2_def full_def free_def split: if_splits)
  have vq: "vaddr q \<noteq> ?v" if "q \<in> slab_pages s1 A1" "q \<noteq> p" for q
    using vaddr_inj [OF kinvD(10) [OF K1 that(1)] kinvD(10) [OF K1 U(3)]] that(2) by auto
  have same: "page_list s1 q = page_list s2 q" if "q \<in> slab_pages s2 A1" "q \<noteq> p" for q
    using that vq [of q] by (simp add: page_list_def e2 Let_def)
  have stay: "page_list s1 p = page_list s2 p" if "\<not> (full \<or> free)"
    unfolding pl2 using that U(4,5) by (auto simp: page_list_def free_def Let_def)
  obtain f3 where M: "kheap s' f3 A1" "\<And>v. f3 (SlabAlloc v) = f2 (SlabAlloc v)"
    "pages s' = pages s2" "kmem_caches s' = kmem_caches s2" "slab_heads s' = slab_heads s2" "cpu s' = cpu s2"
    by (rule finish_move [OF O(2) [folded s2_def] _ _ same s'(1) stay]) (use U(3,4) e2 in auto)
  have po: "page_objs s' f3 q = page_objs s1 f2 q" for q
    by (simp add: page_objs_def M e2)
  have sl: "slab_pages s' A1 = slab_pages s1 A1" by (simp add: slab_pages_def M e2)
  have osz: "object_size ?c = object_size (kmem_caches s i)" using U(2) by (simp add: same_use_def)
  show thesis
  proof (rule that [OF M(1)])
    show "kobjs s' f3 A1 = insert (a, object_size (kmem_caches s i)) (kobjs s f A)"
    proof -
      have "kobjs s' f3 A1 = insert (ad, object_size ?c) (kobjs s1 f1 A1)"
        using U(3) O(3,4) by (auto simp: kobjs_def sl po)
      then show ?thesis using U(2) osz s'(2) by (simp add: same_use_def)
    qed
    show "(a, object_size (kmem_caches s i)) \<notin> kobjs s f A"
    proof
      assume "(a, object_size (kmem_caches s i)) \<in> kobjs s f A"
      then have "(ad, object_size ?c) \<in> kobjs s1 f1 A1" using U(2) osz s'(2) by (simp add: same_use_def)
      then obtain q where q: "q \<in> slab_pages s1 A1" "(ad, object_size ?c) \<in> page_objs s1 f1 q"
        by (auto simp: kobjs_def)
      have "q \<noteq> p" using q O(5) by auto
      moreover have "(ad, object_size ?c) \<in> page_objs s' f3 q" "(ad, object_size ?c) \<in> page_objs s' f3 p"
        using q O(3,4) calculation by (auto simp: po)
      ultimately show False
        using obj_other_page [OF M(1) [unfolded kheap_def], of p] U(3) q(1) sl by blast
    qed
    show "cpu s' = cpu s" using M(6) e2(3) U(2) by (simp add: same_use_def)
    show "object_size (kmem_caches s' i) = object_size (kmem_caches s i)" for i
      using M(4) e2(2) U(2) by (simp add: same_use_def)
    show "{b \<in> A1. used_info (pages s' (fst b)) \<noteq> BUDDY_SLAB} = {b \<in> A. used_info (pages s (fst b)) \<noteq> BUDDY_SLAB}"
      using M(3) e2(1) U(2) by (simp add: same_use_def)
    show "A1 = A \<or> (\<exists>p. A1 = insert (p, 0) A)" using U(7) by blast
    have "zone s' = zone s2" by (simp add: s'(1) move_page_def upd_links_def zone_def)
    then show "zone s' = zone s" using U(6) by (simp add: s2_def zone_def)
  qed
qed


lemma kmem_cache_alloc_null:
  assumes K: "kheap s f A" and i: "i < KMEM_CACHE_NUM" and r: "kmem_cache_alloc i s = (s', 0)"
  shows "s' = s" "snd (slab_page i s) = None"
proof -
  obtain s1 x where sp: "slab_page i s = (s1, x)" by fastforce
  have "s' = s \<and> x = None"
  proof (cases x)
    case None
    then have "s1 = s"
      using sp by (auto simp: slab_page_def Let_def alloc_pages_raw_def split: option.splits if_splits)
    then show ?thesis using r None sp by (simp add: kmem_cache_alloc_def)
  next
    case (Some p)
    obtain f1 A1 where U: "kheap s1 f1 A1" "p \<in> slab_pages s1 A1"
      "cachep (pages s1 p) = Some i" "alloc_num (slab_heads s1 (vaddr p)) < capacity (kmem_caches s1 i)"
      by (rule slab_page_use [OF K i sp [unfolded Some]]) (rule that; assumption)
    note K1 = U(1) [unfolded kheap_def]
    obtain h sh f2 ad where O: "alloc_object i (vaddr p) s1 = (s1\<lparr>links := h, slab_heads := (slab_heads s1)(vaddr p := sh)\<rparr>, ad)"
      "kinv (s1\<lparr>links := h, slab_heads := (slab_heads s1)(vaddr p := sh)\<rparr>) f2 A1 (page_list s1)"
      "page_objs s1 f2 p = insert (ad, object_size (kmem_caches s1 i)) (page_objs s1 f1 p)"
      by (rule alloc_object_kinv [OF K1 U(2) i U(3,4)]) (rule that; assumption)
    let ?t = "s1\<lparr>links := h, slab_heads := (slab_heads s1)(vaddr p := sh)\<rparr>"
    have "p \<in> slab_pages ?t A1" "(ad, object_size (kmem_caches s1 i)) \<in> page_objs ?t f2 p"
      using U(2) O(3) by (simp_all add: slab_pages_def page_objs_def)
    then have "0 < unat ad" using obj_in_page(1) [OF O(2)] by fastforce
    then have "ad \<noteq> 0" by auto
    moreover have "ad = 0"
      using r sp Some O(1) kinvD(7) [OF K1 U(2)] by (auto simp: kmem_cache_alloc_def Let_def)
    ultimately show ?thesis by simp
  qed
  then show "s' = s" "snd (slab_page i s) = None" using sp by simp_all
qed

lemma kmem_cache_free_use:
  assumes K: "kheap s f A" and o: "(a, n) \<in> kobjs s f A"
  obtains f' p i where "p \<in> slab_pages s A" "cachep (pages s p) = Some i" "lower_align a PAGE_SIZE = vaddr p"
    "kheap (kmem_cache_free i a s) f' A" "kobjs (kmem_cache_free i a s) f' A = kobjs s f A - {(a, n)}"
    "cpu (kmem_cache_free i a s) = cpu s" "pages (kmem_cache_free i a s) = pages s"
    "kmem_caches (kmem_cache_free i a s) = kmem_caches s"
proof -
  note K' = K [unfolded kheap_def]
  obtain p where p: "p \<in> slab_pages s A" "(a, n) \<in> page_objs s f p" using o by (auto simp: kobjs_def)
  from page_objE [OF K' p] obtain i where c: "cachep (pages s p) = Some i" and al: "lower_align a PAGE_SIZE = vaddr p"
    by metis
  let ?v = "vaddr p" and ?c = "kmem_caches s i"
  let ?x = "ObjNode (a + object_size ?c)"
  define sh where "sh = (slab_heads s ?v)\<lparr>alloc_num := alloc_num (slab_heads s ?v) - 1, free_num := free_num (slab_heads s ?v) + 1\<rparr>"
  define s1 where "s1 = s\<lparr>links := list_add ?x (SlabFree ?v) (list_del ?x (links s)), slab_heads := (slab_heads s)(?v := sh)\<rparr>"
  obtain f1 where G: "kinv s1 f1 A (page_list s)" "page_objs s f1 p = page_objs s f p - {(a, n)}"
    "\<And>q. q \<in> slab_pages s A \<Longrightarrow> q \<noteq> p \<Longrightarrow> page_objs s f1 q = page_objs s f q"
    "Suc (unat (alloc_num sh)) = unat (alloc_num (slab_heads s ?v))"
    by (rule give_back_kinv [OF K' p c, folded sh_def, folded s1_def]) (rule that; assumption)
  have e1: "pages s1 = pages s" "kmem_caches s1 = kmem_caches s" "cpu s1 = cpu s" "slab_pages s1 A = slab_pages s A"
    "slab_heads s1 = (slab_heads s)(?v := sh)" by (simp_all add: s1_def slab_pages_def)
  have pg: "get_page_by_slab ?v = p" by (rule vaddr_facts(2) [OF kinvD(10) [OF K' p(1)]])
  define full where "full \<longleftrightarrow> alloc_num (slab_heads s ?v) = capacity ?c"
  have lt: "alloc_num sh \<noteq> capacity ?c" "alloc_num (slab_heads s ?v) \<noteq> 0"
    using alloc_num_le(1) [OF K' p(1) c] G(4) by (auto simp: word_le_nat_alt)
  have pl: "page_list s1 p = (if alloc_num sh = 0 then CacheFree i else CachePartial i)"
    using lt(1) by (simp add: page_list_def e1 c Let_def)
  have mid: "(let slabp = ?v; obj_list = ?x;
        t = upd_links (list_del obj_list) s;
        t = upd_slab slabp (\<lambda>h. h\<lparr>alloc_num := alloc_num h - 1\<rparr>) t;
        t = upd_links (list_add obj_list (SlabFree slabp)) t
      in upd_slab slabp (\<lambda>h. h\<lparr>free_num := free_num h + 1\<rparr>) t) = s1"
    by (simp add: s1_def sh_def upd_links_def upd_slab_def Let_def)
  have t: "kmem_cache_free i a s =
      (if alloc_num sh = 0 \<or> full then move_page p (page_list s1 p) s1 else s1)"
    using mid unfolding kmem_cache_free_def Let_def al pg pl
    by (auto simp: slab_is_full_def full_def e1(5))
  have same: "page_list s q = page_list s1 q" if "q \<in> slab_pages s1 A" "q \<noteq> p" for q
  proof -
    have "vaddr q \<noteq> ?v" using vaddr_inj [OF kinvD(10) [OF K', of q] kinvD(10) [OF K' p(1)]] that e1(4) by auto
    then show ?thesis by (simp add: page_list_def e1 Let_def)
  qed
  have stay: "page_list s p = page_list s1 p" if "\<not> (alloc_num sh = 0 \<or> full)"
    unfolding pl using that lt(2) c by (auto simp: page_list_def full_def Let_def)
  obtain f' where M: "kheap (kmem_cache_free i a s) f' A" "\<And>v. f' (SlabAlloc v) = f1 (SlabAlloc v)"
    "pages (kmem_cache_free i a s) = pages s1" "kmem_caches (kmem_cache_free i a s) = kmem_caches s1"
    "slab_heads (kmem_cache_free i a s) = slab_heads s1" "cpu (kmem_cache_free i a s) = cpu s1"
    by (rule finish_move [OF G(1) _ _ same t stay]) (use p c e1 in auto)
  have po: "page_objs (kmem_cache_free i a s) f' q = page_objs s f1 q" for q
    by (simp add: page_objs_def M e1)
  have sl: "slab_pages (kmem_cache_free i a s) A = slab_pages s A" by (simp add: slab_pages_def M e1)
  have no: "(a, n) \<notin> page_objs s f q" if "q \<in> slab_pages s A" "q \<noteq> p" for q
    using obj_other_page [OF K' p that(1)] that(2) by blast
  have "kobjs (kmem_cache_free i a s) f' A = kobjs s f A - {(a, n)}"
  proof -
    have "kobjs (kmem_cache_free i a s) f' A = (\<Union>q\<in>slab_pages s A. page_objs s f q - {(a, n)})"
      unfolding kobjs_def sl po using G(2,3) no by (intro SUP_cong) auto
    then show ?thesis by (auto simp: kobjs_def)
  qed
  then show thesis using that [OF p(1) c al M(1)] M e1 by simp
qed


section \<open>Blocks of pages beside the slabs\<close>

text \<open>An operation of the buddy allocator that leaves the slab pages alone keeps the heap.\<close>

lemma kinv_buddy:
  assumes K: "kinv s f A pl" and P: "slab_pages t A' = slab_pages s A"
    and B: "buddy_full t (kheads (slab_pages s A)) f' A'" and f: "same_lists f f'"
    and t: "t = s\<lparr>pages := g, links := h\<rparr>"
    and g: "\<And>p. p \<in> slab_pages s A \<Longrightarrow> g p = pages s p"
  shows "kinv t f' A' pl" "kobjs t f' A' = kobjs s f A"
proof -
  note D = kinvD [OF K]
  let ?P = "slab_pages s A"
  have fs: "f' (SlabAlloc v) = f (SlabAlloc v)" "f' (SlabFree v) = f (SlabFree v)" "l \<in> cache_lists i \<Longrightarrow> f' l = f l"
    for v l i using f by (auto simp: same_lists_def cache_lists_def)
  have home: "obj_home (kheads ?P) f'"
    unfolding obj_home_def
  proof (intro ballI allI impI)
    fix l a assume l: "l \<in> kheads ?P" and a: "ObjNode a \<in> set (f' l)"
    have "l \<notin> range FreeArea"
    proof
      assume "l \<in> range FreeArea"
      then obtain k where "l = FreeArea k" "k \<le> MAX_BUDDY_ORDER"
        using kheads_areas(3) [of ?P] l unfolding heads_ok_def by fastforce
      then show False using B a bcoreD(9) by (fastforce simp: buddy_full_def buddy_inv_def)
    qed
    then show "l \<in> {SlabAlloc (lower_align a PAGE_SIZE), SlabFree (lower_align a PAGE_SIZE)}"
      using D(3) l a f by (auto simp: obj_home_def same_lists_def)
  qed
  have e: "kmem_caches t = kmem_caches s" "slab_heads t = slab_heads s" "zone t = zone s"
    "\<And>p. p \<in> ?P \<Longrightarrow> pages t p = pages s p" using g by (simp_all add: t zone_def)
  have ok: "slab_ok c sh (kheads ?P) f' (vaddr p)" if "p \<in> ?P" "slab_ok c sh (kheads ?P) f (vaddr p)" for p c sh
    using that by (intro slab_ok_frame [OF that(2) fs(1,2) _ _ _ home]) auto
  show "kinv t f' A' pl"
    unfolding kinv_def P e(1,2,3)
  proof (intro conjI allI impI ballI)
    show "q \<in> ?P" "cachep (pages t q) = Some i" if "i < KMEM_CACHE_NUM" "cpu_page (kmem_caches s i) = Some q" for i q
      using D(6) [OF that] e(4) by auto
    show "virt (pages t p) = vaddr p" if "p \<in> ?P" for p using D(7) that e(4) by simp
    show "\<exists>i<KMEM_CACHE_NUM. cachep (pages t p) = Some i \<and> pl p \<in> cache_lists i \<and>
        slab_ok (kmem_caches s i) (slab_heads s (vaddr p)) (kheads ?P) f' (vaddr p)" if "p \<in> ?P" for p
      using D(8) [OF that] ok [OF that] e(4) [OF that] by auto
    show "set (f' l) = PageNode ` {p \<in> ?P. pl p = l}" if "i < KMEM_CACHE_NUM" "l \<in> cache_lists i" for i l
      using D(9) [OF that] fs(3) [OF that(2)] by simp
  qed (use B home D(2,5) in auto)
  show "kobjs t f' A' = kobjs s f A"
    unfolding kobjs_def P by (intro SUP_cong) (auto simp: page_objs_def e fs)
qed

lemma page_list_buddy:
  assumes "t = s\<lparr>pages := g, links := h\<rparr>" and "g p = pages s p"
  shows "page_list t p = page_list s p"
  using assms by (simp add: page_list_def Let_def)

lemma alloc_block_use:
  assumes K: "kheap s f A" and r: "alloc_pages_raw s k BUDDY_ALLOCED = (t, Some p)"
  obtains f' where "kheap t f' (insert (p, k) A)" "kobjs t f' (insert (p, k) A) = kobjs s f A"
    "p \<in> zone s" "\<And>c. c \<in> A \<Longrightarrow> blk c \<inter> blk (p, k) = {}" "\<And>q j. (q, j) \<in> A \<Longrightarrow> pages t q = pages s q"
    "used_info (pages t p) = BUDDY_ALLOCED" "kmem_caches t = kmem_caches s" "cpu t = cpu s"
proof -
  note K' = K [unfolded kheap_def]
  note D = kinvD [OF K']
  obtain B where B: "buddy_inv s (kheads (slab_pages s A)) f B" "coalesced s B" "A = allocd s B"
    using D(1) by (auto simp: buddy_full_def)
  have ty: "BUDDY_ALLOCED \<noteq> BUDDY_FREE" by simp
  obtain g h f1 B1 j where
    t: "t = s\<lparr>pages := g(p := (g p)\<lparr>bplevel := k, used_info := BUDDY_ALLOCED, virt := 0, cachep := None\<rparr>), links := h\<rparr>"
    and B1: "buddy_inv t (kheads (slab_pages s A)) f1 B1" "coalesced t B1" "allocd t B1 = insert (p, k) A"
    and f1: "same_lists f f1"
    using alloc_pages_raw_Some [OF B(1,2) ty r] B(3) by metis
  have "buddy_rep s (kheads (slab_pages s A)) f A" using B unfolding buddy_rep_def by (metis same_lists_refl)
  note S = rep_alloc_Some [OF this ty r]
  have unch: "pages t q = pages s q" if "(q, j) \<in> A" for q j using S(3) that by (auto simp: page_unchanged_def)
  have pu: "used_info (pages t p) = BUDDY_ALLOCED" by (simp add: t)
  have pA: "(p, j) \<notin> A" for j
    using S(4) [of "(p, j)"] blk_start [of p j] blk_start [of p k] by blast
  have sp: "slab_pages t (insert (p, k) A) = slab_pages s A"
    using unch pu by (auto simp: slab_pages_def)
  have "buddy_full t (kheads (slab_pages s A)) f1 (insert (p, k) A)" using B1 by (auto simp: buddy_full_def)
  note C = kinv_buddy [OF K' sp this f1 t]
  have gq: "pages t q = pages s q" if "q \<in> slab_pages s A" for q using unch [of q 0] that by (simp add: slab_pages_def)
  then have "kinv t f1 (insert (p, k) A) (page_list s)" "kobjs t f1 (insert (p, k) A) = kobjs s f A"
    using C by (auto simp: t)
  moreover have "page_list t q = page_list s q" if "q \<in> slab_pages s A" for q
    using page_list_buddy [OF t] gq [OF that] by (simp add: t)
  ultimately have "kheap t f1 (insert (p, k) A)"
    unfolding kheap_def by (subst kinv_cong [where pl' = "page_list s"]) (use sp in auto)
  moreover have "zone t = zone s" by (simp add: t zone_def)
  then have "p \<in> zone s" using subsetD [OF rep_blocks(1) [OF S(1), of p k] blk_start] by simp
  ultimately show thesis
    using that \<open>kobjs t f1 (insert (p, k) A) = kobjs s f A\<close> S(4) unch pu by (simp add: t)
qed

lemma free_block_use:
  assumes K: "kheap s f A" and b: "(p, k) \<in> A" and u: "used_info (pages s p) \<noteq> BUDDY_SLAB"
  obtains f' where "kheap (free_pages_raw s p) f' (A - {(p, k)})" "kobjs (free_pages_raw s p) f' (A - {(p, k)}) = kobjs s f A"
    "\<And>q j. (q, j) \<in> A \<Longrightarrow> (q, j) \<noteq> (p, k) \<Longrightarrow> pages (free_pages_raw s p) q = pages s q"
    "kmem_caches (free_pages_raw s p) = kmem_caches s" "cpu (free_pages_raw s p) = cpu s"
proof -
  note K' = K [unfolded kheap_def]
  note D = kinvD [OF K']
  obtain B where B: "buddy_inv s (kheads (slab_pages s A)) f B" "coalesced s B" "A = allocd s B"
    using D(1) by (auto simp: buddy_full_def)
  have bB: "(p, k) \<in> B" "used_info (pages s p) \<noteq> BUDDY_FREE" using b B(3) by (auto simp: allocd_def)
  have un: "unlisted (PageNode p) (kheads (slab_pages s A)) f"
    unfolding unlisted_def
  proof (intro ballI notI)
    fix l assume l: "l \<in> kheads (slab_pages s A)" "PageNode p \<in> set (f l)"
    from page_node_listed [OF K' l] show False
    proof
      assume "l \<in> area_heads"
      then obtain j where "l = FreeArea j" "j \<le> MAX_BUDDY_ORDER" by auto
      then show False using bcoreD(8) [OF B(1) [unfolded buddy_inv_def]] l(2) bB(2) by auto
    qed (use u in \<open>simp add: slab_pages_def\<close>)
  qed
  obtain f' B' p' k' h where
    t: "free_pages_raw s p = (upd_page p' (\<lambda>p. p\<lparr>bplevel := k', used_info := BUDDY_FREE\<rparr>) s)\<lparr>links := h\<rparr>"
    and I: "buddy_inv (free_pages_raw s p) (kheads (slab_pages s A)) f' B'" "coalesced (free_pages_raw s p) B'"
    "allocd (free_pages_raw s p) B' = A - {(p, k)}" "same_lists f f'" "p' \<notin> fst ` (A - {(p, k)})"
    using free_pages_raw_correct [OF B(1,2) bB un] B(3) by metis
  have unch: "pages (free_pages_raw s p) q = pages s q" if "(q, j) \<in> A" "(q, j) \<noteq> (p, k)" for q j
    using I(5) that by (force simp: t image_iff)
  have sp: "slab_pages (free_pages_raw s p) (A - {(p, k)}) = slab_pages s A"
    using unch u by (auto simp: slab_pages_def) (metis)+
  have bf: "buddy_full (free_pages_raw s p) (kheads (slab_pages s A)) f' (A - {(p, k)})"
    using I by (auto simp: buddy_full_def)
  have t': "free_pages_raw s p = s\<lparr>pages := pages (free_pages_raw s p), links := links (free_pages_raw s p)\<rparr>"
    by (simp add: t upd_page_def)
  have gq: "pages (free_pages_raw s p) q = pages s q" if "q \<in> slab_pages s A" for q
    using unch [of q 0] that u by (auto simp: slab_pages_def)
  note C = kinv_buddy [OF K' sp bf I(4) t' gq]
  have "kheap (free_pages_raw s p) f' (A - {(p, k)})"
    unfolding kheap_def
    by (subst kinv_cong [where pl' = "page_list s"]) (use C(1) sp page_list_buddy [OF t'] gq in auto)
  then show thesis using that C(2) unch by (simp add: t upd_page_def)
qed

end
