(* ===== verification/Kmalloc.thy ===== *)
theory Kmalloc
  imports Slab
begin

text \<open>
  What \<open>kmalloc\<close> and \<open>kfree\<close> of \<open>src/kernel/mm/slab.c\<close> promise their callers: the kernel heap is
  a set of regions of bytes in use, no two of which overlap; \<open>kmalloc\<close> adds a region that is large
  enough, \<open>kfree\<close> takes the region of its argument away, and both leave the interrupt state as it
  was.  The locale \<open>region_heap\<close> is that promise; it is interpreted on the two operations, and the
  clients of the heap rest on it.
\<close>

section \<open>Regions\<close>

type_synonym region = "nat \<times> nat"

definition apart :: "region \<Rightarrow> region \<Rightarrow> bool" where
  "apart r q \<longleftrightarrow> fst r + snd r \<le> fst q \<or> fst q + snd q \<le> fst r"

definition obj_region :: "u32 \<times> u32 \<Rightarrow> region" where
  "obj_region o' = (unat (fst o'), unat (snd o'))"

definition blk_region :: "nat \<times> nat \<Rightarrow> region" where
  "blk_region b = (unat (vaddr (fst b)), 2 ^ snd b * 4096)"

definition kblocks :: "'z slab_scheme \<Rightarrow> (nat \<times> nat) set \<Rightarrow> (nat \<times> nat) set" where
  "kblocks s A = {b \<in> A. used_info (pages s (fst b)) \<noteq> BUDDY_SLAB}"

definition heap :: "'z slab_scheme \<Rightarrow> region set \<Rightarrow> bool" where
  "heap s R \<longleftrightarrow> (\<exists>f A. kheap s f A \<and>
     (\<forall>i<KMEM_CACHE_NUM. object_size (kmem_caches s i) = kmem_cache_size ! i) \<and>
     R = obj_region ` kobjs s f A \<union> blk_region ` kblocks s A)"

lemma obj_region_inj: "inj obj_region"
  by (rule injI) (auto simp: obj_region_def prod_eq_iff word_unat_eq_iff)

lemma cpu_frame [simp]:
  "kheap (s\<lparr>cpu := c\<rparr>) f A = kheap s f A" "kobjs (s\<lparr>cpu := c\<rparr>) f A = kobjs s f A"
  "kblocks (s\<lparr>cpu := c\<rparr>) A = kblocks s A"
  by (simp_all add: kheap_def kinv_def kobjs_def kblocks_def page_objs_def page_list_def [abs_def] slab_pages_def
      buddy_full_def buddy_inv_def bcore_def coalesced_def allocd_def zone_def zone_ok_def Let_def)

text \<open>\<open>room s R n\<close>: moreover at least \<open>n\<close> pages of the zone are in no block that is handed out.\<close>

definition room :: "'z slab_scheme \<Rightarrow> region set \<Rightarrow> nat \<Rightarrow> bool" where
  "room s R n \<longleftrightarrow> (\<exists>f A. kheap s f A \<and>
     (\<forall>i<KMEM_CACHE_NUM. object_size (kmem_caches s i) = kmem_cache_size ! i) \<and>
     R = obj_region ` kobjs s f A \<union> blk_region ` kblocks s A \<and> n \<le> card (zone s - \<Union> (blk ` A)))"

lemma heap_room: "heap s R \<longleftrightarrow> room s R 0"
  by (simp add: heap_def room_def)

lemma room_heap: "room s R n \<Longrightarrow> heap s R"
  by (auto simp: heap_def room_def)

lemma zone_cpu [simp]: "zone (s\<lparr>cpu := c\<rparr>) = zone s"
  by (simp add: zone_def)

lemma heap_cpu [simp]: "heap (s\<lparr>cpu := c\<rparr>) R = heap s R" "room (s\<lparr>cpu := c\<rparr>) R n = room s R n"
  by (simp_all add: heap_def room_def)

lemma finite_zone [simp]: "finite (zone s)"
  by (simp add: zone_def)

lemma free_pages_less:
  assumes "finite Z" and "n \<le> card (Z - \<Union> (blk ` A))"
  shows "n - 2 ^ k \<le> card (Z - \<Union> (blk ` insert (p, k) A))"
proof -
  have e: "Z - \<Union> (blk ` insert (p, k) A) = (Z - \<Union> (blk ` A)) - blk (p, k)" by auto
  have "card (Z - \<Union> (blk ` A)) - card (blk (p, k)) \<le> card ((Z - \<Union> (blk ` A)) - blk (p, k))"
    by (intro diff_card_le_card_Diff) (simp add: blk_def)
  moreover have "card (blk (p, k)) = 2 ^ k" by (simp add: blk_def)
  ultimately show ?thesis using assms(2) unfolding e by simp
qed

lemma kheap_rep: "kheap s f A \<Longrightarrow> buddy_rep s (kheads (slab_pages s A)) f A"
  using kinvD(1) [of s f A "page_list s"] unfolding kheap_def buddy_full_def buddy_rep_def
  by (metis same_lists_refl)

text \<open>The bytes of a block of pages.\<close>

lemma blk_bound:
  assumes K: "kheap s f A" and b: "(p, k) \<in> A"
  shows "p + 2 ^ k \<le> 2 ^ 17" "0 < p" "p < 2 ^ 17" "unat (vaddr p) = 2 ^ 31 + p * 4096"
proof -
  have "blk (p, k) \<subseteq> {0<..<2 ^ 17}"
    using rep_blocks(1) [OF kheap_rep [OF K] b] kinvD(2) [OF K [unfolded kheap_def]] by simp
  moreover have "p \<in> blk (p, k)" "p + 2 ^ k - 1 \<in> blk (p, k)" 
    using zero_less_power [of "2 :: nat" k] unfolding blk_def fst_conv snd_conv atLeastLessThan_iff by linarith+
  ultimately have "p \<in> {0<..<2 ^ 17}" "p + 2 ^ k - 1 \<in> {0<..<2 ^ 17}" by blast+
  then show "p + 2 ^ k \<le> 2 ^ 17" "0 < p" "p < 2 ^ 17" by auto
  then show "unat (vaddr p) = 2 ^ 31 + p * 4096" using vaddr_facts(1) [of p] by simp
qed

lemma blk_apart_iff:
  assumes "unat (vaddr p) = 2 ^ 31 + p * 4096" "unat (vaddr q) = 2 ^ 31 + q * 4096"
    and "blk (p, k) \<inter> blk (q, j) = {}"
  shows "apart (blk_region (p, k)) (blk_region (q, j))"
proof -
  have "p + 2 ^ k \<le> q \<or> q + 2 ^ j \<le> p"
  proof (rule ccontr)
    assume "\<not> ?thesis"
    then have "max p q \<in> blk (p, k) \<inter> blk (q, j)" by (auto simp: blk_def max_def)
    with assms(3) show False by blast
  qed
  then have "(p + 2 ^ k) * 4096 \<le> q * 4096 \<or> (q + 2 ^ j) * 4096 \<le> p * 4096" by auto
  then show ?thesis using assms(1,2) by (auto simp: apart_def blk_region_def algebra_simps)
qed

text \<open>Two regions of the heap do not overlap, and none is empty.\<close>

lemma obj_blk_apart:
  assumes K: "kheap s f A" and o: "(a, n) \<in> kobjs s f A" and b: "(q, j) \<in> kblocks s A"
  shows "apart (obj_region (a, n)) (blk_region (q, j))"
proof -
  obtain p where p: "p \<in> slab_pages s A" "(a, n) \<in> page_objs s f p" using o by (auto simp: kobjs_def)
  then have pA: "(p, 0) \<in> A" "used_info (pages s p) = BUDDY_SLAB" by (auto simp: slab_pages_def)
  have qA: "(q, j) \<in> A" "(p, 0) \<noteq> (q, j)" using b pA by (auto simp: kblocks_def)
  have "apart (blk_region (p, 0)) (blk_region (q, j))"
    using blk_bound(4) [OF K pA(1)] blk_bound(4) [OF K qA(1)] rep_blocks(6) [OF kheap_rep [OF K] qA(1) pA(1) qA(2)]
    by (intro blk_apart_iff)
  then show ?thesis
    using obj_in_page [OF K [unfolded kheap_def] p] by (auto simp: apart_def obj_region_def blk_region_def)
qed

lemma obj_pos:
  assumes K: "kheap s f A" and o: "(a, n) \<in> kobjs s f A"
  shows "0 < unat n" "a \<noteq> 0"
proof -
  note K' = K [unfolded kheap_def]
  obtain p where p: "p \<in> slab_pages s A" "(a, n) \<in> page_objs s f p" using o by (auto simp: kobjs_def)
  then obtain i where "i < KMEM_CACHE_NUM" "n = object_size (kmem_caches s i)" using page_objE [OF K' p] by metis
  then show "0 < unat n" using kinvD(5) [OF K', of i] by (simp add: cache_ok_def)
  show "a \<noteq> 0" using obj_in_page(1) [OF K' p] by auto
qed

lemma obj_ne_blk:
  assumes K: "kheap s f A" and o: "x \<in> kobjs s f A" and b: "b \<in> kblocks s A"
  shows "obj_region x \<noteq> blk_region b"
proof
  assume e: "obj_region x = blk_region b"
  have "0 < snd (obj_region x)" using obj_pos(1) [OF K, of "fst x" "snd x"] o by (simp add: obj_region_def)
  then show False
    using obj_blk_apart [OF K, of "fst x" "snd x" "fst b" "snd b"] o b e by (simp add: apart_def)
qed

lemma apart_sym: "apart r q \<Longrightarrow> apart q r"
  by (auto simp: apart_def)

lemma heap_apart:
  assumes "heap s R" and r: "r \<in> R" and q: "q \<in> R" and ne: "r \<noteq> q"
  shows "apart r q"
proof -
  obtain f A where K: "kheap s f A" and R: "R = obj_region ` kobjs s f A \<union> blk_region ` kblocks s A"
    using assms(1) by (auto simp: heap_def)
  have oo: "apart (obj_region x) (obj_region y)"
    if "x \<in> kobjs s f A" "y \<in> kobjs s f A" "obj_region x \<noteq> obj_region y" for x y
    using objs_disjoint [OF K [unfolded kheap_def], of "fst x" "snd x" "fst y" "snd y"] that
    by (auto simp: apart_def obj_region_def)
  have bb: "apart (blk_region x) (blk_region y)"
    if "x \<in> kblocks s A" "y \<in> kblocks s A" "blk_region x \<noteq> blk_region y" for x y
    using that blk_bound(4) [OF K, of "fst x" "snd x"] blk_bound(4) [OF K, of "fst y" "snd y"]
      rep_blocks(6) [OF kheap_rep [OF K], of "fst y" "snd y" x]
      blk_apart_iff [of "fst x" "fst y" "snd x" "snd y"]
    by (auto simp: kblocks_def)
  have ob: "apart (obj_region x) (blk_region y)" if "x \<in> kobjs s f A" "y \<in> kblocks s A" for x y
    using obj_blk_apart [OF K, of "fst x" "snd x" "fst y" "snd y"] that by simp
  show ?thesis using r q ne unfolding R by (auto intro: oo bb ob apart_sym)
qed

lemma heap_pos: "heap s R \<Longrightarrow> r \<in> R \<Longrightarrow> 0 < snd r"
  using obj_pos(1) by (fastforce simp: heap_def obj_region_def blk_region_def)

lemma heap_range:
  assumes "heap s R" and "(a, n) \<in> R"
  shows "2 ^ 31 \<le> a" "a + n \<le> 2 ^ 31 + 2 ^ 29"
proof -
  obtain f A where K: "kheap s f A" and R: "R = obj_region ` kobjs s f A \<union> blk_region ` kblocks s A"
    using assms(1) by (auto simp: heap_def)
  have "2 ^ 31 \<le> a \<and> a + n \<le> 2 ^ 31 + 2 ^ 29"
  proof (cases "(a, n) \<in> blk_region ` kblocks s A")
    case True
    then obtain p k where "(p, k) \<in> A" "(a, n) = blk_region (p, k)" by (auto simp: kblocks_def)
    then show ?thesis using blk_bound [OF K, of p k] by (simp add: blk_region_def)
  next
    case False
    then obtain x m where o: "(x, m) \<in> kobjs s f A" "a = unat x" "n = unat m"
      using assms(2) by (auto simp: R obj_region_def)
    then obtain p where p: "p \<in> slab_pages s A" "(x, m) \<in> page_objs s f p" by (auto simp: kobjs_def)
    then have "(p, 0) \<in> A" by (simp add: slab_pages_def)
    then show ?thesis
      using blk_bound [OF K, of p 0] obj_in_page [OF K [unfolded kheap_def] p] o(2,3) by simp
  qed
  then show "2 ^ 31 \<le> a" "a + n \<le> 2 ^ 31 + 2 ^ 29" by simp_all
qed


section \<open>The two operations\<close>

lemma find_cache_least:
  assumes "unat sz \<le> 2048"
  obtains i where "find_cache KMEM_CACHE_NUM 0 sz = Some i" "i < KMEM_CACHE_NUM" "sz \<le> kmem_cache_size ! i"
    "\<And>j. j < i \<Longrightarrow> kmem_cache_size ! j < sz"
proof -
  have gen: "case find_cache n i sz of
      None \<Rightarrow> (\<forall>j\<in>{i..<i + n}. kmem_cache_size ! j < sz)
    | Some k \<Rightarrow> i \<le> k \<and> k < i + n \<and> sz \<le> kmem_cache_size ! k \<and> (\<forall>j\<in>{i..<k}. kmem_cache_size ! j < sz)" for n i :: nat
  proof (induction n arbitrary: i)
    case (Suc n)
    show ?case
    proof (cases "sz \<le> kmem_cache_size ! i")
      case False
      have "{i..<k} = insert i {i + 1..<k}" if "i < k" for k using that by auto
      with False show ?thesis using Suc [of "i + 1"] by (auto split: option.splits simp: not_le)
    qed simp
  qed simp
  have "sz \<le> kmem_cache_size ! 11" using assms by (simp add: kmem_cache_size_def word_le_nat_alt)
  moreover have "11 \<in> {0..<0 + KMEM_CACHE_NUM}" by (simp add: KMEM_CACHE_NUM_def)
  ultimately have "\<not> (\<forall>j\<in>{0..<0 + KMEM_CACHE_NUM}. kmem_cache_size ! j < sz)" by (metis leD)
  then have "find_cache KMEM_CACHE_NUM 0 sz \<noteq> None"
    using gen [where i = 0 and n = KMEM_CACHE_NUM] by (cases "find_cache KMEM_CACHE_NUM 0 sz") auto
  then obtain k where "find_cache KMEM_CACHE_NUM 0 sz = Some k" by blast
  then show thesis using that [of k] gen [where i = 0 and n = KMEM_CACHE_NUM] by simp
qed

lemma alloc_cache_room:
  assumes "room s R n" and i: "i < KMEM_CACHE_NUM" and r: "kmem_cache_alloc i s = (s', a)"
  shows "cpu s' = cpu s \<and> zone s' = zone s \<and> (if a = 0 then s' = s else
    room s' (insert (unat a, unat (kmem_cache_size ! i)) R) (n - 1) \<and> (unat a, unat (kmem_cache_size ! i)) \<notin> R)"
proof (cases "a = 0")
  case True
  obtain f A where "kheap s f A" using assms(1) by (auto simp: room_def)
  then show ?thesis using kmem_cache_alloc_null(1) [OF _ i] r True by auto
next
  case False
  obtain f A where K: "kheap s f A" and S: "\<And>i. i < KMEM_CACHE_NUM \<Longrightarrow> object_size (kmem_caches s i) = kmem_cache_size ! i"
    and R: "R = obj_region ` kobjs s f A \<union> blk_region ` kblocks s A" and n: "n \<le> card (zone s - \<Union> (blk ` A))"
    using assms(1) by (auto simp: room_def)
  let ?o = "(a, kmem_cache_size ! i)"
  let ?q = "(a, object_size (kmem_caches s i))"
  obtain f' A' where U0: "kheap s' f' A'" "kobjs s' f' A' = insert ?q (kobjs s f A)" "?q \<notin> kobjs s f A" "cpu s' = cpu s"
    "\<And>i. object_size (kmem_caches s' i) = object_size (kmem_caches s i)"
    "{b \<in> A'. used_info (pages s' (fst b)) \<noteq> BUDDY_SLAB} = {b \<in> A. used_info (pages s (fst b)) \<noteq> BUDDY_SLAB}"
    and Z: "zone s' = zone s" "A' = A \<or> (\<exists>p. A' = insert (p, 0) A)"
    by (rule kmem_cache_alloc_use [OF K i r False]) (rule that; assumption)
  note U = U0 [folded kblocks_def, unfolded S [OF i]]
  have "obj_region ?o \<notin> obj_region ` kobjs s f A" using U(3) by (simp add: inj_image_mem_iff [OF obj_region_inj])
  moreover have "obj_region ?o \<noteq> blk_region b" if b: "b \<in> kblocks s A" for b
    using obj_ne_blk [OF U(1)] U(2,6) b by simp
  ultimately have "obj_region ?o \<notin> R" unfolding R by auto
  moreover have "n - 1 \<le> card (zone s' - \<Union> (blk ` A'))"
  proof (cases "A' = A")
    case True
    then show ?thesis using n Z(1) by simp
  next
    case False
    then obtain p where "A' = insert (p, 0) A" using Z(2) by blast
    then show ?thesis using free_pages_less [OF finite_zone n, of 0 p] Z(1) by simp
  qed
  then have "room s' (insert (obj_region ?o) R) (n - 1)"
    unfolding room_def R by (intro exI [of _ f'] exI [of _ A']) (use U S in auto)
  ultimately show ?thesis using False U(4) Z(1) by (simp add: obj_region_def)
qed

lemma alloc_block_room:
  assumes "room s R n" and sz: "unat sz \<le> 2 ^ 32 - 2 ^ 12" and r: "alloc_pages s sz = (s', a)"
  defines "k \<equiv> level_loop 1 0 ((unat sz + 4095) div 4096)"
  shows "cpu s' = cpu s \<and> zone s' = zone s \<and> (if a = 0 then s' = s else
    (\<exists>m. unat sz \<le> m \<and> get_kernel_vaddr a \<noteq> 0 \<and> room s' (insert (unat (get_kernel_vaddr a), m) R) (n - 2 ^ k) \<and>
      (unat (get_kernel_vaddr a), m) \<notin> R))"
proof -
  obtain f A where K: "kheap s f A" and S: "\<And>i. i < KMEM_CACHE_NUM \<Longrightarrow> object_size (kmem_caches s i) = kmem_cache_size ! i"
    and R: "R = obj_region ` kobjs s f A \<union> blk_region ` kblocks s A" and n: "n \<le> card (zone s - \<Union> (blk ` A))"
    using assms(1) by (auto simp: room_def)
  have k: "unat sz \<le> 2 ^ k * 4096"
    using level_loop_least [of "(unat sz + 4095) div 4096"] unfolding k_def pages_cover by blast
  obtain t x where t: "alloc_pages_raw s k BUDDY_ALLOCED = (t, x)" by fastforce
  show ?thesis
  proof (cases x)
    case None
    then have "a = 0" "s' = t" using r t by (simp_all add: alloc_pages_eq [OF sz] k_def)
    moreover have "t = s"
      using t None by (auto simp: alloc_pages_raw_def Let_def split: if_splits option.splits)
    ultimately show ?thesis by simp
  next
    case (Some p)
    have e: "s' = t" "a = get_page_paddr p" using r t Some by (simp_all add: alloc_pages_eq [OF sz] k_def)
    obtain f' where U: "kheap t f' (insert (p, k) A)" "kobjs t f' (insert (p, k) A) = kobjs s f A"
      "\<And>c. c \<in> A \<Longrightarrow> blk c \<inter> blk (p, k) = {}" "\<And>q j. (q, j) \<in> A \<Longrightarrow> pages t q = pages s q"
      "used_info (pages t p) = BUDDY_ALLOCED" "kmem_caches t = kmem_caches s" "cpu t = cpu s"
      using alloc_block_use [OF K t [unfolded Some]] by metis
    have "\<exists>g h. t = s\<lparr>pages := g, links := h\<rparr>"
      using rep_alloc_Some(6) [OF kheap_rep [OF K] _ t [unfolded Some]] by simp
    then have z: "zone t = zone s" by (auto simp: zone_def)
    have bl: "kblocks t (insert (p, k) A) = insert (p, k) (kblocks s A)" using U(4,5) by (auto simp: kblocks_def)
    have heap: "room t (insert (blk_region (p, k)) R) (n - 2 ^ k)"
      unfolding room_def R
      by (intro exI [of _ f'] exI [of _ "insert (p, k) A"] conjI free_pages_less) (use U S bl n z in auto)
    have "blk_region (p, k) \<noteq> blk_region b" if b: "b \<in> A" for b
    proof
      assume "blk_region (p, k) = blk_region b"
      then have "p = fst b"
        using blk_bound(4) [OF U(1), of p k] blk_bound(4) [OF K, of "fst b" "snd b"] b by (simp add: blk_region_def)
      then show False using U(3) [OF b] blk_start [of p k] blk_start [of "fst b" "snd b"] by auto
    qed
    moreover have "blk_region (p, k) \<noteq> obj_region o'" if "o' \<in> kobjs s f A" for o'
      using obj_ne_blk [OF U(1), of o' "(p, k)"] U(2) bl that by auto
    ultimately have new: "blk_region (p, k) \<notin> R" unfolding R kblocks_def by blast
    have p: "0 < p" "p < 2 ^ 17" using blk_bound(2,3) [OF U(1), of p k] by auto
    then have "a \<noteq> 0" using page_paddr(1) [of p] e(2) by auto
    moreover have "get_kernel_vaddr a = vaddr p" by (simp add: e(2) vaddr_def)
    moreover have "vaddr p \<noteq> 0" using vaddr_facts(1) [OF p(2)] by auto
    ultimately show ?thesis using k heap new U(7) z by (auto simp: e(1) blk_region_def)
  qed
qed

text \<open>The pages that a request takes at most.\<close>

definition pages_for :: "u32 \<Rightarrow> nat" where
  "pages_for sz = (if unat sz \<le> 2048 then 1 else 2 ^ level_loop 1 0 ((unat sz + 4095) div 4096))"

lemma kmalloc_room:
  assumes H: "room s R n" and sz: "unat sz \<le> 2 ^ 32 - 2 ^ 12" and r: "kmalloc sz s = (s', a)"
  shows "cp0_status (cpu s') = cp0_status (cpu s)" and "zone s' = zone s"
    and "a = 0 \<Longrightarrow> room s' R n"
    and "a \<noteq> 0 \<Longrightarrow> \<exists>m. unat sz \<le> m \<and> room s' (insert (unat a, m) R) (n - pages_for sz) \<and> (unat a, m) \<notin> R"
proof -
  obtain c old where d: "disable_interrupts (cpu s) = (c, old)" by fastforce
  let ?s = "s\<lparr>cpu := c\<rparr>"
  have H': "room ?s R n" using H by simp
  have "\<exists>t. s' = t\<lparr>cpu := restore_interrupts old (cpu t)\<rparr> \<and> cpu t = c \<and> zone t = zone s \<and>
    (if a = 0 then room t R n
     else \<exists>m. unat sz \<le> m \<and> room t (insert (unat a, m) R) (n - pages_for sz) \<and> (unat a, m) \<notin> R)"
  proof (cases "unat sz \<le> 2048")
    case True
    obtain i where i: "find_cache KMEM_CACHE_NUM 0 sz = Some i" "i < KMEM_CACHE_NUM" "sz \<le> kmem_cache_size ! i"
      using find_cache_least [OF True] by metis
    have "sz \<le> kmem_cache_size ! (KMEM_CACHE_NUM - 1)"
      using True by (simp add: kmem_cache_size_def KMEM_CACHE_NUM_def word_le_nat_alt)
    moreover obtain t b where t: "kmem_cache_alloc i ?s = (t, b)" by fastforce
    ultimately have "s' = t\<lparr>cpu := restore_interrupts old (cpu t)\<rparr>" "a = b"
      using r d i(1) by (simp_all add: kmalloc_def)
    then show ?thesis
      using alloc_cache_room [OF H' i(2) t] H' i(3) True
      by (intro exI [of _ t]) (auto simp: word_le_nat_alt pages_for_def split: if_splits)
  next
    case False
    then have "\<not> sz \<le> kmem_cache_size ! (KMEM_CACHE_NUM - 1)"
      by (simp add: kmem_cache_size_def KMEM_CACHE_NUM_def word_le_nat_alt)
    moreover obtain t b where t: "alloc_pages ?s sz = (t, b)" by fastforce
    ultimately have e: "s' = t\<lparr>cpu := restore_interrupts old (cpu t)\<rparr>" "a = (if b \<noteq> 0 then get_kernel_vaddr b else 0)"
      using r d by (auto simp: kmalloc_def)
    show ?thesis
      using alloc_block_room [OF H' sz t] H' e False
      by (intro exI [of _ t]) (auto simp: pages_for_def split: if_splits)
  qed
  then obtain t where t: "s' = t\<lparr>cpu := restore_interrupts old (cpu t)\<rparr>" "cpu t = c" "zone t = zone s"
    "if a = 0 then room t R n
     else \<exists>m. unat sz \<le> m \<and> room t (insert (unat a, m) R) (n - pages_for sz) \<and> (unat a, m) \<notin> R"
    by metis
  show "cp0_status (cpu s') = cp0_status (cpu s)"
    using restore_status [of c "cpu s"] d t(1,2) by simp
  show "zone s' = zone s" using t(1,3) by simp
  show "a = 0 \<Longrightarrow> room s' R n"
    "a \<noteq> 0 \<Longrightarrow> \<exists>m. unat sz \<le> m \<and> room s' (insert (unat a, m) R) (n - pages_for sz) \<and> (unat a, m) \<notin> R"
    using t(1,4) by simp_all
qed

lemma kmalloc_heap:
  assumes H: "heap s R" and sz: "unat sz \<le> 2 ^ 32 - 2 ^ 12" and r: "kmalloc sz s = (s', a)"
  shows "cp0_status (cpu s') = cp0_status (cpu s)"
    and "a = 0 \<Longrightarrow> heap s' R"
    and "a \<noteq> 0 \<Longrightarrow> \<exists>n. unat sz \<le> n \<and> heap s' (insert (unat a, n) R) \<and> (unat a, n) \<notin> R"
  using kmalloc_room [OF H [unfolded heap_room] sz r] by (auto simp: heap_room)

lemma heap_unique: "heap s R \<Longrightarrow> (a, n) \<in> R \<Longrightarrow> (a, m) \<in> R \<Longrightarrow> n = m"
  using heap_apart [of s R "(a, n)" "(a, m)"] heap_pos [of s R "(a, n)"] heap_pos [of s R "(a, m)"]
  by (auto simp: apart_def)

lemma image_minus: "\<lbrakk>x \<in> X; inj_on g X\<rbrakk> \<Longrightarrow> g ` (X - {x}) = g ` X - {g x}"
  by (auto simp: inj_on_def)

text \<open>An operation that takes one object or one block away.\<close>

lemma heap_less_obj:
  assumes "heap s R" and "kheap s f A" and "R = obj_region ` kobjs s f A \<union> blk_region ` kblocks s A"
    and o: "(a, m) \<in> kobjs s f A" and t: "kheap t f' A" "kobjs t f' A = kobjs s f A - {(a, m)}" "pages t = pages s"
    "kmem_caches t = kmem_caches s"
  shows "heap t (R - {obj_region (a, m)})"
proof -
  have "obj_region (a, m) \<notin> blk_region ` kblocks s A"
    using obj_ne_blk [OF assms(2) o] by auto
  moreover have "kblocks t A = kblocks s A" using t(3) by (simp add: kblocks_def)
  ultimately have "R - {obj_region (a, m)} = obj_region ` kobjs t f' A \<union> blk_region ` kblocks t A"
    using assms(3) t(2) image_minus [OF o inj_on_subset [OF obj_region_inj subset_UNIV]]
    by (simp add: Un_Diff)
  moreover have "\<forall>i<KMEM_CACHE_NUM. object_size (kmem_caches t i) = kmem_cache_size ! i"
    using assms(1) t(4) by (auto simp: heap_def)
  ultimately show ?thesis using t(1) by (auto simp: heap_def)
qed

lemma heap_less_block:
  assumes "heap s R" and K: "kheap s f A" and "R = obj_region ` kobjs s f A \<union> blk_region ` kblocks s A"
    and b: "(p, k) \<in> kblocks s A" and t: "kheap t f' (A - {(p, k)})" "kobjs t f' (A - {(p, k)}) = kobjs s f A"
    "\<And>q j. (q, j) \<in> A \<Longrightarrow> (q, j) \<noteq> (p, k) \<Longrightarrow> pages t q = pages s q" "kmem_caches t = kmem_caches s"
  shows "heap t (R - {blk_region (p, k)})"
proof -
  have "blk_region (p, k) \<notin> obj_region ` kobjs s f A"
    using obj_ne_blk [OF K _ b] by force
  moreover have "kblocks t (A - {(p, k)}) = kblocks s A - {(p, k)}" using t(3) by (force simp: kblocks_def)
  moreover have i: "inj_on blk_region (kblocks s A)"
    by (rule inj_onI) (use blk_bound(4) [OF K] in \<open>auto simp: blk_region_def kblocks_def\<close>)
  ultimately have "R - {blk_region (p, k)} =
      obj_region ` kobjs t f' (A - {(p, k)}) \<union> blk_region ` kblocks t (A - {(p, k)})"
    unfolding assms(3) t(2) using image_minus [OF b i] by (simp add: Un_Diff)
  moreover have "\<forall>i<KMEM_CACHE_NUM. object_size (kmem_caches t i) = kmem_cache_size ! i"
    using assms(1) t(4) by (auto simp: heap_def)
  ultimately show ?thesis using t(1) by (auto simp: heap_def)
qed


lemma kfree_heap:
  assumes H: "heap s R" and r: "(unat a, n) \<in> R"
  shows "\<exists>s'. kfree a s = Some s' \<and> heap s' (R - {(unat a, n)}) \<and> cp0_status (cpu s') = cp0_status (cpu s)"
proof -
  obtain c old where d: "disable_interrupts (cpu s) = (c, old)" by fastforce
  define s1 where "s1 = s\<lparr>cpu := c\<rparr>"
  have H': "heap s1 R" using H by (simp add: s1_def)
  then obtain f A where K: "kheap s1 f A" and R: "R = obj_region ` kobjs s1 f A \<union> blk_region ` kblocks s1 A"
    by (auto simp: heap_def)
  let ?p = "get_page_by_slab (lower_align a PAGE_SIZE)"
  have "\<exists>t. (if used_info (pages s1 ?p) = BUDDY_SLAB then map_option (\<lambda>i. kmem_cache_free i a s1) (cachep (pages s1 ?p))
      else Some (free_pages s1 (get_kernel_paddr a))) = Some t \<and> heap t (R - {(unat a, n)}) \<and> cpu t = c"
    using r [unfolded R]
  proof
    assume "(unat a, n) \<in> obj_region ` kobjs s1 f A"
    then obtain m where o: "(a, m) \<in> kobjs s1 f A" "n = unat m" by (auto simp: obj_region_def simp flip: word_unat_eq_iff)
    from kmem_cache_free_use [OF K o(1)] obtain f' p i where
      F: "p \<in> slab_pages s1 A" "cachep (pages s1 p) = Some i" "lower_align a PAGE_SIZE = vaddr p"
      "kheap (kmem_cache_free i a s1) f' A" "kobjs (kmem_cache_free i a s1) f' A = kobjs s1 f A - {(a, m)}"
      "cpu (kmem_cache_free i a s1) = cpu s1" "pages (kmem_cache_free i a s1) = pages s1"
      "kmem_caches (kmem_cache_free i a s1) = kmem_caches s1" .
    have "?p = p" using F(3) vaddr_facts(2) [OF kinvD(10) [OF K [unfolded kheap_def] F(1)]] by simp
    moreover have "used_info (pages s1 p) = BUDDY_SLAB" using F(1) by (simp add: slab_pages_def)
    ultimately show ?thesis
      using F(2,6) heap_less_obj [OF H' K R o(1) F(4,5,7,8)] o(2) by (simp add: s1_def obj_region_def R)
  next
    assume "(unat a, n) \<in> blk_region ` kblocks s1 A"
    then obtain p k where b: "(p, k) \<in> kblocks s1 A" "a = vaddr p" "n = 2 ^ k * 4096"
      by (auto simp: blk_region_def simp flip: word_unat_eq_iff)
    then have bA: "(p, k) \<in> A" "used_info (pages s1 p) \<noteq> BUDDY_SLAB" by (auto simp: kblocks_def)
    note V = vaddr_facts [OF blk_bound(3) [OF K bA(1)]]
    have p: "?p = p" using lower_align_page [OF V(4), of a] V(2) b(2) by simp
    have fp: "free_pages s1 (get_kernel_paddr a) = free_pages_raw s1 p"
      using V(3) page_paddr(2,3) [of p] blk_bound(3) [OF K bA(1)] b(2) by (simp add: free_pages_def)
    obtain f' where
      F: "kheap (free_pages_raw s1 p) f' (A - {(p, k)})" "kobjs (free_pages_raw s1 p) f' (A - {(p, k)}) = kobjs s1 f A"
      "\<And>q j. (q, j) \<in> A \<Longrightarrow> (q, j) \<noteq> (p, k) \<Longrightarrow> pages (free_pages_raw s1 p) q = pages s1 q"
      "kmem_caches (free_pages_raw s1 p) = kmem_caches s1" "cpu (free_pages_raw s1 p) = cpu s1"
      by (rule free_block_use [OF K bA]) (rule that; assumption)
    show ?thesis
      using heap_less_block [OF H' K R b(1) F(1-4)] F(5) p bA(2) fp b(2,3)
      by (simp add: s1_def blk_region_def R)
  qed
  then obtain t where t: "(if used_info (pages s1 ?p) = BUDDY_SLAB
      then map_option (\<lambda>i. kmem_cache_free i a s1) (cachep (pages s1 ?p))
      else Some (free_pages s1 (get_kernel_paddr a))) = Some t" "heap t (R - {(unat a, n)})" "cpu t = c"
    by blast
  have "kfree a s = Some (t\<lparr>cpu := restore_interrupts old (cpu t)\<rparr>)"
    unfolding kfree_def Let_def d prod.case s1_def [symmetric] t(1) by simp
  then show ?thesis using restore_status [of c "cpu s"] d t(2,3) by simp
qed


section \<open>The heap at boot\<close>

lemma init_kmem_cache_links:
  "links (init_kmem_cache i sz s) = INIT_LIST_HEAD (CachePartial i) (INIT_LIST_HEAD (CacheFull i)
     (INIT_LIST_HEAD (CacheFree i) (links s)))"
  "\<exists>h c. init_kmem_cache i sz s = s\<lparr>kmem_caches := c, links := h\<rparr>"
  by (auto simp: init_kmem_cache_def init_kmem_cache_node_def upd_links_def upd_cache_def Let_def)

lemma init_caches_frame: "\<exists>h c. init_caches_loop n s = s\<lparr>kmem_caches := c, links := h\<rparr>"
proof (induction n)
  case 0
  show ?case by (intro exI [of _ "links s"] exI [of _ "kmem_caches s"]) simp
next
  case (Suc n)
  then obtain h c where e: "init_caches_loop n s = s\<lparr>kmem_caches := c, links := h\<rparr>" by blast
  obtain h' c' where "init_kmem_cache n (kmem_cache_size ! n) (init_caches_loop n s) =
      (init_caches_loop n s)\<lparr>kmem_caches := c', links := h'\<rparr>"
    using init_kmem_cache_links(2) by blast
  then show ?case unfolding init_caches_loop.simps e by auto
qed

lemma init_caches_family:
  assumes F: "family dll (links s) area_heads f" and f: "\<And>l. l \<notin> range FreeArea \<Longrightarrow> f l = []"
    and pn: "\<And>l. l \<in> area_heads \<Longrightarrow> set (f l) \<subseteq> range PageNode"
  shows "family dll (links (init_caches_loop n s)) (area_heads \<union> (\<Union>i<n. cache_lists i)) f"
proof (induction n)
  case (Suc n)
  let ?H = "area_heads \<union> (\<Union>i<n. cache_lists i)"
  have step: "family dll (INIT_LIST_HEAD l h) (insert l H) f"
    if "family dll h H f" "l \<notin> H" "l \<in> cache_lists i" "H \<subseteq> area_heads \<union> (\<Union>i. cache_lists i)" for h H l i
  proof -
    have l: "l \<notin> range FreeArea" "l \<notin> range PageNode" using that(3) by (auto simp: cache_lists_def)
    have "\<forall>l'\<in>H. l \<notin> set (f l')"
    proof
      fix l' assume "l' \<in> H"
      then have "set (f l') \<subseteq> range PageNode"
        using that(4) pn [of l'] f [of l'] by (cases "l' \<in> range FreeArea") (auto simp: cache_lists_def)
      with l(2) show "l \<notin> set (f l')" by blast
    qed
    from kl.family_init_new [OF that(1,2) this] show ?thesis using fun_upd_idem [of f l "[]"] f [OF l(1)] by simp
  qed
  have "family dll (links (init_caches_loop (Suc n) s))
      (insert (CachePartial n) (insert (CacheFull n) (insert (CacheFree n) ?H))) f"
    unfolding init_caches_loop.simps init_kmem_cache_links(1)
    by (intro step [where i = n] Suc) (auto simp: cache_lists_def)
  moreover have "insert (CachePartial n) (insert (CacheFull n) (insert (CacheFree n) ?H)) =
      area_heads \<union> (\<Union>i<Suc n. cache_lists i)"
    unfolding lessThan_Suc by (auto simp: cache_lists_def)
  ultimately show ?case by simp
qed (simp add: F)

lemma init_slab_kheap:
  assumes R: "buddy_rep s area_heads (\<lambda>_. []) {}" and z: "zone s \<subseteq> {0<..<2 ^ 17}"
  shows "\<exists>f. kheap (init_slab s) f {}" "zone (init_slab s) = zone s"
proof -
  obtain f B where B: "buddy_inv s area_heads f B" "coalesced s B" "allocd s B = {}"
    and f: "\<And>l. l \<notin> range FreeArea \<Longrightarrow> f l = []"
    using R by (auto simp: buddy_rep_def same_lists_def)
  note D = bcoreD [OF B(1) [unfolded buddy_inv_def]]
  have pn: "set (f l) \<subseteq> range PageNode" if "l \<in> area_heads" for l using that D(9) by auto
  obtain h c where e: "init_slab s = s\<lparr>kmem_caches := c, links := h\<rparr>"
    using init_caches_frame unfolding init_slab_def by blast
  have kh: "kheads {} = area_heads \<union> (\<Union>i<KMEM_CACHE_NUM. cache_lists i)" by (simp add: kheads_def)
  have "family dll (links (init_slab s)) (kheads {}) f"
    unfolding kh init_slab_def by (rule init_caches_family [OF D(3) f pn])
  moreover have "buddy_full s area_heads f {}" using B by (auto simp: buddy_full_def)
  moreover have fc: "f l = []" if "l \<in> cache_lists i" for l i using that by (intro f) (auto simp: cache_lists_def)
  ultimately have bf: "buddy_full (init_slab s) (kheads {}) f {}"
  proof (rule_tac buddy_full_frame)
    show "(\<exists>k. (x, k) \<in> {}) \<or> (\<exists>l'\<in>area_heads. PageNode x \<in> set (f l'))"
      if "l \<in> kheads {}" "PageNode x \<in> set (f l)" for l x
      using that fc by (fastforce simp: kh)
  qed (auto simp: e kheads_areas)
  have obj: "ObjNode a \<notin> set (f l)" if "l \<in> kheads {}" for l a
    using that pn [of l] fc by (fastforce simp: kh)
  have "kinv (init_slab s) f {} (page_list (init_slab s))"
    unfolding kinv_def slab_pages_def
    using bf z obj std_cache_ok init_slab_caches [of _ s]
    by (auto simp: obj_home_def fc std_cache_def Let_def zone_def e)
  then show "\<exists>f. kheap (init_slab s) f {}" unfolding kheap_def by blast
  show "zone (init_slab s) = zone s" by (simp add: e zone_def)
qed

lemma init_slab_heap:
  assumes "buddy_rep s area_heads (\<lambda>_. []) {}" and "zone s \<subseteq> {0<..<2 ^ 17}"
  shows "heap (init_slab s) {}"
proof -
  obtain f where "kheap (init_slab s) f {}" using init_slab_kheap(1) [OF assms] by blast
  then show ?thesis
    unfolding heap_def using init_slab_caches [of _ s]
    by (intro exI [of _ f] exI [of _ "{}"]) (auto simp: kobjs_def slab_pages_def kblocks_def std_cache_def Let_def)
qed

text \<open>A large request succeeds when an aligned run of pages that is large enough is free.\<close>

lemma kmalloc_block_ok:
  assumes K: "kheap s f A" and sz: "2048 < unat sz" "unat sz \<le> 2 ^ k * 4096" "unat sz \<le> 2 ^ 32 - 2 ^ 12"
    and q: "2 ^ k dvd q" "blk (q, k) \<subseteq> zone s" "k \<le> MAX_BUDDY_ORDER"
    and free: "\<And>b. b \<in> A \<Longrightarrow> blk b \<inter> blk (q, k) = {}"
  obtains s' f' p j where "kmalloc sz s = (s', vaddr p)" "vaddr p \<noteq> 0" "kheap s' f' (insert (p, j) A)" "zone s' = zone s"
    "j \<le> k"
proof -
  obtain c old where d: "disable_interrupts (cpu s) = (c, old)" by fastforce
  define s1 where "s1 = s\<lparr>cpu := c\<rparr>"
  have K1: "kheap s1 f A" using K by (simp add: s1_def)
  define j where "j = level_loop 1 0 ((unat sz + 4095) div 4096)"
  have j: "j \<le> k"
    using level_loop_least [of "(unat sz + 4095) div 4096"] sz(2) unfolding j_def pages_cover by blast
  have "2 ^ j dvd q" using dvd_trans [OF le_imp_power_dvd [OF j] q(1)] by simp
  moreover have "blk (q, j) \<subseteq> zone s1" using q(2) blk_mono [OF j, of q] by (auto simp: s1_def zone_def)
  moreover have "blk b \<inter> blk (q, j) = {}" if "b \<in> A" for b using free [OF that] blk_mono [OF j, of q] by blast
  ultimately obtain t p where t: "alloc_pages_raw s1 j BUDDY_ALLOCED = (t, Some p)"
    using rep_alloc_None [OF kheap_rep [OF K1], of j q BUDDY_ALLOCED] j q(3) by auto
  obtain f' where F: "kheap t f' (insert (p, j) A)"
    by (rule alloc_block_use [OF K1 t]) (rule that; assumption)
  have "\<exists>g h. t = s1\<lparr>pages := g, links := h\<rparr>"
    using rep_alloc_Some(6) [OF kheap_rep [OF K1] _ t] by simp
  then have z: "zone t = zone s" by (auto simp: zone_def s1_def)
  have "\<not> sz \<le> kmem_cache_size ! (KMEM_CACHE_NUM - 1)"
    using sz(1) by (simp add: kmem_cache_size_def KMEM_CACHE_NUM_def word_le_nat_alt)
  moreover have pp: "0 < p" "p < 2 ^ 17" using blk_bound(2,3) [OF F, of p j] by auto
  then have "get_page_paddr p \<noteq> 0" using page_paddr(1) [of p] by auto
  moreover have "alloc_pages s1 sz = (t, get_page_paddr p)" using t by (simp add: alloc_pages_eq [OF sz(3)] j_def)
  ultimately have "kmalloc sz s = (t\<lparr>cpu := restore_interrupts old (cpu t)\<rparr>, vaddr p)"
    by (simp add: kmalloc_def d s1_def [symmetric] vaddr_def)
  moreover have "vaddr p \<noteq> 0" using vaddr_facts(1) [OF pp(2)] by auto
  moreover have "zone (t\<lparr>cpu := restore_interrupts old (cpu t)\<rparr>) = zone s" using z by (simp add: zone_def)
  ultimately show thesis using that F j by simp
qed


text \<open>A small request succeeds when a page of the zone is free.\<close>

lemma kmalloc_small_ok:
  assumes K: "kheap s f A" and sz: "unat sz \<le> 2048" and q: "q \<in> zone s" "\<And>b. b \<in> A \<Longrightarrow> q \<notin> blk b"
  shows "snd (kmalloc sz s) \<noteq> 0"
proof
  assume z: "snd (kmalloc sz s) = 0"
  obtain c old where d: "disable_interrupts (cpu s) = (c, old)" by fastforce
  obtain i where i: "find_cache KMEM_CACHE_NUM 0 sz = Some i" "i < KMEM_CACHE_NUM"
    using find_cache_least [OF sz] by metis
  let ?s = "s\<lparr>cpu := c\<rparr>"
  have K': "kheap ?s f A" using K by simp
  have "sz \<le> kmem_cache_size ! (KMEM_CACHE_NUM - 1)"
    using sz by (simp add: kmem_cache_size_def KMEM_CACHE_NUM_def word_le_nat_alt)
  then obtain t where "kmem_cache_alloc i ?s = (t, 0)"
    using z d i(1) by (cases "kmem_cache_alloc i ?s") (simp add: kmalloc_def)
  from kmem_cache_alloc_null(2) [OF K' i(2) this]
  have "snd (alloc_pages_raw ?s 0 BUDDY_SLAB) = None"
    by (auto simp: slab_page_def Let_def split: option.splits if_splits prod.splits)
  moreover have "blk b \<inter> blk (q, 0) = {}" if "b \<in> A" for b using q(2) [OF that] by (auto simp: blk_def [of "(q, 0)"])
  then have "\<exists>s' p. alloc_pages_raw ?s 0 BUDDY_SLAB = (s', Some p)"
    using rep_alloc_None [OF kheap_rep [OF K'], of 0 q BUDDY_SLAB] q(1) by (auto simp: blk_def zone_def)
  ultimately show False by auto
qed

text \<open>A request of at most one page succeeds when a page is free, and takes at most one.\<close>

lemma kmalloc_page:
  assumes H: "room s R (Suc n)" and sz: "unat sz \<le> 4096"
  obtains s' a m where "kmalloc sz s = (s', a)" "a \<noteq> 0" "unat sz \<le> m" "room s' (insert (unat a, m) R) n"
    "(unat a, m) \<notin> R" "zone s' = zone s" "cp0_status (cpu s') = cp0_status (cpu s)"
proof -
  obtain f A where K: "kheap s f A" and "Suc n \<le> card (zone s - \<Union> (blk ` A))" using H by (auto simp: room_def)
  then have "zone s - \<Union> (blk ` A) \<noteq> {}" by (metis card.empty Suc_n_not_le_n le0 le_trans not_less_eq_eq)
  then obtain q where q: "q \<in> zone s" "\<And>b. b \<in> A \<Longrightarrow> q \<notin> blk b" by blast
  have "(unat sz + 4095) div 4096 \<le> 1" using sz by simp
  then have "level_loop 1 0 ((unat sz + 4095) div 4096) = 0" by (subst level_loop.simps) simp
  then have p: "pages_for sz = 1" by (simp add: pages_for_def)
  obtain s' a where r: "kmalloc sz s = (s', a)" by fastforce
  have "a \<noteq> 0"
  proof (cases "unat sz \<le> 2048")
    case True
    then show ?thesis using kmalloc_small_ok [OF K True q] r by simp
  next
    case False
    have "blk b \<inter> blk (q, 0) = {}" if "b \<in> A" for b using q(2) [OF that] by (auto simp: blk_def [of "(q, 0)"])
    moreover have "blk (q, 0) \<subseteq> zone s" using q(1) by (auto simp: blk_def)
    ultimately obtain t p where "kmalloc sz s = (t, vaddr p)" "vaddr p \<noteq> 0"
      using False sz by (rule_tac kmalloc_block_ok [OF K, of sz 0 q]) auto
    then show ?thesis using r by simp
  qed
  then show thesis using that r kmalloc_room [OF H _ r] sz p by fastforce
qed

text \<open>The regions lie in the pages of the zone.\<close>

lemma region_in_zone:
  assumes "heap s R" and "(a, n) \<in> R"
  shows "\<exists>p\<in>zone s. unat (vaddr p) \<le> a"
proof -
  obtain f A where K: "kheap s f A" and R: "R = obj_region ` kobjs s f A \<union> blk_region ` kblocks s A"
    using assms(1) by (auto simp: heap_def)
  have z: "p \<in> zone s" if "(p, k) \<in> A" for p k
    using rep_blocks(1) [OF kheap_rep [OF K] that] blk_start by blast
  show ?thesis
  proof (cases "(a, n) \<in> blk_region ` kblocks s A")
    case True
    then obtain p k where "(p, k) \<in> A" "(a, n) = blk_region (p, k)" by (auto simp: kblocks_def)
    then show ?thesis using z by (auto simp: blk_region_def)
  next
    case False
    then obtain x m where o: "(x, m) \<in> kobjs s f A" "a = unat x" using assms(2) by (auto simp: R obj_region_def)
    then obtain p where p: "p \<in> slab_pages s A" "(x, m) \<in> page_objs s f p" by (auto simp: kobjs_def)
    then have "(p, 0) \<in> A" by (simp add: slab_pages_def)
    then show ?thesis using z obj_in_page [OF K [unfolded kheap_def] p] o(2) by force
  qed
qed

section \<open>The contract\<close>

text \<open>
  An allocator of regions, as a client of the heap sees it: the abstract state is the set of the
  regions in use.
\<close>

primrec alloc_all :: "(u32 \<Rightarrow> 's \<Rightarrow> 's \<times> u32) \<Rightarrow> u32 list \<Rightarrow> 's \<Rightarrow> 's \<times> u32 list" where
  "alloc_all alloc [] s = (s, [])"
| "alloc_all alloc (sz # szs) s =
     (let (s, a) = alloc sz s; (s, as) = alloc_all alloc szs s in (s, a # as))"

locale region_heap =
  fixes inv :: "'s \<Rightarrow> region set \<Rightarrow> bool"
    and alloc :: "u32 \<Rightarrow> 's \<Rightarrow> 's \<times> u32"
    and free :: "u32 \<Rightarrow> 's \<Rightarrow> 's option"
    and limit :: nat
  assumes alloc_null: "inv s R \<Longrightarrow> unat sz \<le> limit \<Longrightarrow> alloc sz s = (s', 0) \<Longrightarrow> inv s' R"
    and alloc_region: "inv s R \<Longrightarrow> unat sz \<le> limit \<Longrightarrow> alloc sz s = (s', a) \<Longrightarrow> a \<noteq> 0 \<Longrightarrow>
      \<exists>n. unat sz \<le> n \<and> inv s' (insert (unat a, n) R) \<and> (unat a, n) \<notin> R"
    and free_region: "inv s R \<Longrightarrow> (unat a, n) \<in> R \<Longrightarrow> \<exists>s'. free a s = Some s' \<and> inv s' (R - {(unat a, n)})"
    and regions_apart: "inv s R \<Longrightarrow> r \<in> R \<Longrightarrow> q \<in> R \<Longrightarrow> r \<noteq> q \<Longrightarrow> apart r q"
begin

lemma alloc_apart:
  assumes "inv s R" and "unat sz \<le> limit" and "alloc sz s = (s', a)" and "a \<noteq> 0"
  shows "\<exists>n. unat sz \<le> n \<and> inv s' (insert (unat a, n) R) \<and> (\<forall>r\<in>R. apart (unat a, n) r)"
  using alloc_region [OF assms] regions_apart [of s' "insert (unat a, _) R"] by blast

lemma alloc_free:
  assumes "inv s R" and "unat sz \<le> limit" and "alloc sz s = (s', a)" and "a \<noteq> 0"
  shows "\<exists>s''. free a s' = Some s'' \<and> inv s'' R"
proof -
  obtain n where n: "inv s' (insert (unat a, n) R)" "(unat a, n) \<notin> R" using alloc_region [OF assms] by blast
  then have "insert (unat a, n) R - {(unat a, n)} = R" by blast
  then show ?thesis using free_region [OF n(1), of a n] by auto
qed

lemma alloc_all_inv:
  assumes "inv s R" and "\<forall>sz\<in>set szs. unat sz \<le> limit" and "alloc_all alloc szs s = (s', as)" and "0 \<notin> set as"
  shows "\<exists>ns. length ns = length szs \<and> length as = length szs \<and> (\<forall>i<length szs. unat (szs ! i) \<le> ns ! i) \<and>
    inv s' (set (zip (map unat as) ns) \<union> R) \<and> set (zip (map unat as) ns) \<inter> R = {} \<and> distinct (zip (map unat as) ns)"
  using assms
proof (induction szs arbitrary: s R as)
  case (Cons sz szs)
  obtain s1 a where a: "alloc sz s = (s1, a)" by fastforce
  obtain bs where b: "alloc_all alloc szs s1 = (s', bs)" "as = a # bs"
    using Cons.prems(3) a by (auto split: prod.splits)
  obtain n where n: "unat sz \<le> n" "inv s1 (insert (unat a, n) R)" "(unat a, n) \<notin> R"
    using alloc_region [OF Cons.prems(1) _ a] Cons.prems(2,4) b(2) by auto
  obtain ns where ns: "length ns = length szs" "length bs = length szs" "\<forall>i<length szs. unat (szs ! i) \<le> ns ! i"
    "inv s' (set (zip (map unat bs) ns) \<union> insert (unat a, n) R)"
    "set (zip (map unat bs) ns) \<inter> insert (unat a, n) R = {}" "distinct (zip (map unat bs) ns)"
    using Cons.IH [OF n(2) _ b(1)] Cons.prems(2,4) b(2) by auto
  show ?case
    using ns n b(2) by (intro exI [of _ "n # ns"]) (auto simp: nth_Cons split: nat.splits)
qed simp

lemma alloc_all_apart:
  assumes "inv s R" and "\<forall>sz\<in>set szs. unat sz \<le> limit" and "alloc_all alloc szs s = (s', as)" and "0 \<notin> set as"
    and "i < length szs" and "j < length szs" and "i \<noteq> j"
  shows "apart (unat (as ! i), unat (szs ! i)) (unat (as ! j), unat (szs ! j))"
proof -
  obtain ns where ns: "length ns = length szs" "length as = length szs" "\<forall>i<length szs. unat (szs ! i) \<le> ns ! i"
    "inv s' (set (zip (map unat as) ns) \<union> R)" "distinct (zip (map unat as) ns)"
    using alloc_all_inv [OF assms(1-4)] by blast
  let ?z = "zip (map unat as) ns"
  have z: "?z ! k = (unat (as ! k), ns ! k)" "?z ! k \<in> set ?z" if "k < length szs" for k
    using that ns(1,2) nth_mem [of k ?z] by (auto simp del: nth_mem)
  have "?z ! i \<noteq> ?z ! j" using ns assms(5-7) by (simp add: nth_eq_iff_index_eq del: nth_zip)
  then have "apart (?z ! i) (?z ! j)" using regions_apart [OF ns(4)] z assms(5,6) by blast
  then show ?thesis using z(1) ns(3) assms(5,6) by (fastforce simp: apart_def)
qed

end

interpretation km: region_heap heap kmalloc kfree "2 ^ 32 - 2 ^ 12"
proof
  fix s :: "'z slab_scheme" and R sz s' a n r q
  assume H: "heap s R"
  show "heap s' R" if "unat sz \<le> 2 ^ 32 - 2 ^ 12" "kmalloc sz s = (s', 0)"
    using kmalloc_heap(2) [OF H that] by simp
  show "\<exists>n. unat sz \<le> n \<and> heap s' (insert (unat a, n) R) \<and> (unat a, n) \<notin> R"
    if "unat sz \<le> 2 ^ 32 - 2 ^ 12" "kmalloc sz s = (s', a)" "a \<noteq> 0"
    using kmalloc_heap(3) [OF H that] .
  show "\<exists>s'. kfree a s = Some s' \<and> heap s' (R - {(unat a, n)})" if "(unat a, n) \<in> R"
    using kfree_heap [OF H that] by blast
  show "apart r q" if "r \<in> R" "q \<in> R" "r \<noteq> q"
    using heap_apart [OF H that] .
qed

section \<open>Properties\<close>

definition demo_heap :: slab where
  "demo_heap = init_slab (buddy.extend zone16
     \<lparr>kmem_caches = \<lambda>_. \<lparr>obj_step = 0, object_size = 0, capacity = 0, cpu_page = None\<rparr>,
      slab_heads = \<lambda>_. \<lparr>alloc_num = 0, free_num = 0\<rparr>,
      cpu = \<lparr>cp0_status = 0x8401, cp0_cause = 0, cp0_count = 0, cp0_compare = 0, cp0_entryhi = 0, time_9 = 0\<rparr>\<rparr>)"

text \<open>
  Starting the slab allocator on a buddy zone with nothing handed out gives the empty kernel
  heap: twelve caches, each with the object size of the table, and no region in use.
\<close>

theorem init_slab_empty:
  assumes "buddy_rep s area_heads (\<lambda>_. []) {}" and "zone s \<subseteq> {0<..<2 ^ 17}"
  shows "heap (init_slab s) {} \<and> (\<forall>i<KMEM_CACHE_NUM. kmem_caches (init_slab s) i = std_cache i)"
  using init_slab_heap [OF assms] init_slab_caches by blast


lemma buddy_extend:
  "buddy_rep (buddy.extend s x) H f A = buddy_rep s H f A" "zone (buddy.extend s x) = zone s"
  "links (buddy.extend s x) = links s" "pages (buddy.extend s x) = pages s"
  by (simp_all add: buddy_rep_def buddy_inv_def bcore_def coalesced_def allocd_def zone_def zone_ok_def buddy.defs)

lemma demo_heap_heap: "heap demo_heap {}"
proof -
  have "zone zone16 \<subseteq> {0<..<2 ^ 17}" using zone16_rep(2) by auto
  then show ?thesis
    unfolding demo_heap_def using zone16_rep(1) by (intro init_slab_heap) (simp_all add: buddy_extend)
qed

lemma demo_two:
  obtains s1 p s2 q where "kmalloc 10000 demo_heap = (s1, vaddr p)" "vaddr p \<noteq> 0"
    "kmalloc 16000 s1 = (s2, vaddr q)" "vaddr q \<noteq> 0"
proof -
  have "zone zone16 \<subseteq> {0<..<2 ^ 17}" using zone16_rep(2) by auto
  then have z: "zone demo_heap = {16..<32}" and "\<exists>f. kheap demo_heap f {}"
    using init_slab_kheap [of "buddy.extend zone16 _"] zone16_rep
    unfolding demo_heap_def by (simp_all add: buddy_extend)
  then obtain f where K: "kheap demo_heap f {}" by blast
  have k: "2 \<le> MAX_BUDDY_ORDER" by (simp add: os_const)
  obtain s1 f1 p j where 1: "kmalloc 10000 demo_heap = (s1, vaddr p)" "vaddr p \<noteq> 0" "kheap s1 f1 {(p, j)}"
    "zone s1 = {16..<32}" "j \<le> 2"
    by (rule kmalloc_block_ok [OF K, of 10000 2 16]) (use k z in \<open>auto simp: blk_def\<close>)
  define q where "q = (if p < 20 then 20 else 16 :: nat)"
  have q: "2 ^ 2 dvd q" "blk (q, 2) \<subseteq> zone s1" by (auto simp: q_def 1(4) blk_def)
  have "2 ^ j dvd p" "p \<in> zone s1"
    using rep_blocks(1,3) [OF kheap_rep [OF 1(3)], of p j] blk_start by blast+
  moreover have "j = 0 \<or> j = 1 \<or> j = 2" using 1(5) by auto
  moreover have "p = 16 \<or> p = 17 \<or> p = 18 \<or> p = 19 \<or> 20 \<le> p" using \<open>p \<in> zone s1\<close> 1(4) by auto
  ultimately have "p < 20 \<Longrightarrow> p + 2 ^ j \<le> 20" by (elim disjE) simp_all
  then have "blk (p, j) \<inter> blk (q, 2) = {}" by (auto simp: q_def blk_def)
  then obtain s2 r where "kmalloc 16000 s1 = (s2, vaddr r)" "vaddr r \<noteq> 0"
    by (rule_tac kmalloc_block_ok [OF 1(3), of 16000 2 q]) (use k q in auto)
  with 1(1,2) show thesis by (rule that)
qed

lemma demo_kmalloc: "snd (kmalloc 10000 demo_heap) \<noteq> 0"
  using demo_two by fastforce

theorem init_slab_empty_witness:
  "heap demo_heap {} \<and> capacity (kmem_caches demo_heap 0) = 254 \<and> capacity (kmem_caches demo_heap 5) = 29 \<and>
     capacity (kmem_caches demo_heap 11) = 1"
proof -
  have "zone zone16 \<subseteq> {0<..<2 ^ 17}" using zone16_rep(2) by auto
  moreover have "capacity (std_cache 0) = 254" "capacity (std_cache 5) = 29" "capacity (std_cache 11) = 1" by code_simp+
  moreover from calculation(1) have "heap demo_heap {} \<and> (\<forall>i\<le>11. kmem_caches demo_heap i = std_cache i)"
    unfolding demo_heap_def using zone16_rep(1) init_slab_empty [of "buddy.extend zone16 _"]
    by (auto simp: buddy_extend KMEM_CACHE_NUM_def)
  ultimately show ?thesis by simp
qed

text \<open>
  C10.  A successful \<open>kmalloc\<close> returns the address of a region that has room for the requested
  bytes and overlaps no region in use, and adds just that region to the ones in use; a failed one
  adds none; in both cases the interrupts are as enabled as they were.  This holds for every size
  up to \<open>2 ^ 32 - 2 ^ 12\<close>, beyond which the rounding of \<open>alloc_pages\<close> wraps around.
\<close>

theorem kmalloc_region:
  assumes "heap s R" and "unat sz \<le> 2 ^ 32 - 2 ^ 12" and "kmalloc sz s = (s', a)"
  shows "cp0_status (cpu s') = cp0_status (cpu s) \<and>
    (if a = 0 then heap s' R
     else \<exists>n. unat sz \<le> n \<and> heap s' (insert (unat a, n) R) \<and> (\<forall>r\<in>R. apart (unat a, n) r))"
  using kmalloc_heap(1,2) [OF assms] km.alloc_apart [OF assms] by auto

theorem kmalloc_region_witness:
  "\<exists>s' a n. kmalloc 10000 demo_heap = (s', a) \<and> 10000 \<le> n \<and> heap s' {(unat a, n)} \<and> cp0_status (cpu s') = cp0_status (cpu demo_heap)"
proof -
  obtain s' a where r: "kmalloc 10000 demo_heap = (s', a)" by fastforce
  then have "a \<noteq> 0" using demo_kmalloc by simp
  then show ?thesis using kmalloc_region [OF demo_heap_heap _ r] r by auto
qed

text \<open>
  C11.  \<open>kfree\<close> on the address of a region in use, an object of a slab page or a block of pages,
  succeeds, takes away that region and no other, and leaves the interrupts as they were.
\<close>

theorem kfree_region:
  assumes "heap s R" and "(unat a, n) \<in> R"
  shows "\<exists>s'. kfree a s = Some s' \<and> heap s' (R - {(unat a, n)}) \<and> cp0_status (cpu s') = cp0_status (cpu s)"
  by (rule kfree_heap [OF assms])

theorem kfree_region_witness:
  "\<exists>s1 a s2. kmalloc 10000 demo_heap = (s1, a) \<and> kfree a s1 = Some s2 \<and> heap s2 {} \<and> cp0_status (cpu s2) = cp0_status (cpu s1)"
proof -
  obtain s' a where r: "kmalloc 10000 demo_heap = (s', a)" by fastforce
  then have "a \<noteq> 0" using demo_kmalloc by simp
  then obtain n where "heap s' {(unat a, n)}" using kmalloc_heap(3) [OF demo_heap_heap _ r] by auto
  then show ?thesis using kfree_region [of s' "{(unat a, n)}" a n] r by auto
qed

text \<open>\<open>kfree\<close> undoes \<open>kmalloc\<close>: the regions in use are again those before the two calls.\<close>

theorem kmalloc_kfree_roundtrip:
  assumes "heap s R" and "unat sz \<le> 2 ^ 32 - 2 ^ 12" and "kmalloc sz s = (s', a)" and "a \<noteq> 0"
  shows "\<exists>s''. kfree a s' = Some s'' \<and> heap s'' R"
  by (rule km.alloc_free [OF assms])

theorem kmalloc_kfree_roundtrip_witness:
  "\<exists>s' a s''. kmalloc 10000 demo_heap = (s', a) \<and> kfree a s' = Some s'' \<and> heap s'' {}"
proof -
  obtain s' a where r: "kmalloc 10000 demo_heap = (s', a)" by fastforce
  then have "a \<noteq> 0" using demo_kmalloc by simp
  then show ?thesis using kmalloc_kfree_roundtrip [OF demo_heap_heap _ r] r by auto
qed

text \<open>The buffers of any sequence of successful \<open>kmalloc\<close> calls are pairwise disjoint.\<close>

theorem kmalloc_all_apart:
  assumes "heap s R" and "\<forall>sz\<in>set szs. unat sz \<le> 2 ^ 32 - 2 ^ 12" and "alloc_all kmalloc szs s = (s', as)"
    and "0 \<notin> set as" and "i < length szs" and "j < length szs" and "i \<noteq> j"
  shows "apart (unat (as ! i), unat (szs ! i)) (unat (as ! j), unat (szs ! j))"
  by (rule km.alloc_all_apart [OF assms])

theorem kmalloc_all_apart_witness:
  "\<exists>s' a b. alloc_all kmalloc [10000, 16000] demo_heap = (s', [a, b]) \<and> apart (unat a, 10000) (unat b, 16000)"
proof (rule demo_two)
  fix s1 p s2 q assume D: "kmalloc 10000 demo_heap = (s1, vaddr p)" "vaddr p \<noteq> 0"
    "kmalloc 16000 s1 = (s2, vaddr q)" "vaddr q \<noteq> 0"
  then have r: "alloc_all kmalloc [10000, 16000] demo_heap = (s2, [vaddr p, vaddr q])" by simp
  from kmalloc_all_apart [OF demo_heap_heap _ r, of 0 1] D show ?thesis by (auto simp: r)
qed

end
