(* ===== verification/Vm.thy ===== *)
theory Vm
  imports Kmalloc
begin

text \<open>
  Address spaces: the two-level page tables, page faults and page replacement of
  \<^verbatim>\<open>src/kernel/vm/vm.c\<close>, the TLB handlers of \<^verbatim>\<open>src/arch/mips32/tlb.c\<close>, the swap pool of
  \<^verbatim>\<open>src/kernel/vm/pageswap.c\<close> and shared memory, \<^verbatim>\<open>src/kernel/vm/shm.c\<close>.

  Tables and descriptors live in memory that \<open>kmalloc\<close> hands out; the state maps their addresses to
  their contents.  A pointer to a page table entry is the address of its table with an index.
  \<open>None\<close> is a write through the null pointer.  The TLB has 32 entries; \<open>tlbp\<close>, \<open>tlbr\<close>, \<open>tlbwi\<close> and
  \<open>tlbwr\<close> are the instructions of the processor as the comments of \<^verbatim>\<open>tlb.h\<close> describe them.
\<close>

section \<open>Data\<close>

record pte =
  tlb_entry :: u32
  pte_info :: u32

record mm_struct =
  mm_pgd :: u32
  mm_asid :: u32
  pf_num :: u32

record tlb_line =
  tlb_lo0 :: u32
  tlb_lo1 :: u32
  tlb_hi :: u32

record page_pool_struct =
  pool_page_num :: u32
  pool_next_free :: u32
  pool_entry :: "nat \<Rightarrow> u32"
  pool_block :: "nat \<Rightarrow> u32"

record shm_struct =
  pfn_start :: u32
  pfn_num :: u32
  shm_count :: u32

record vm = slab +
  mms :: "u32 \<Rightarrow> mm_struct"
  pgds :: "u32 \<Rightarrow> nat \<Rightarrow> u32"
  ptes :: "u32 \<Rightarrow> nat \<Rightarrow> pte"
  mm_current :: u32
  page_fault_debug :: bool
  tlb :: "nat \<Rightarrow> tlb_line"
  cp0_index :: u32
  cp0_random :: u32
  cp0_entrylo0 :: u32
  cp0_entrylo1 :: u32
  cp0_badvaddr :: u32
  page_pool :: page_pool_struct
  shm_pool :: "nat \<Rightarrow> u32"
  shms :: "u32 \<Rightarrow> shm_struct"

type_synonym pte_ptr = "u32 \<times> nat"

definition PGD_NUM :: nat where "PGD_NUM = 1024"
definition PTE_NUM :: nat where "PTE_NUM = 1024"
definition MAX_PFN_PER_PROCESS :: u32 where "MAX_PFN_PER_PROCESS = MACHINE_PAGE_NUM"
definition MAX_SHM_NUM :: nat where "MAX_SHM_NUM = 8"
definition sizeof_mm_struct :: u32 where "sizeof_mm_struct = 28"
definition sizeof_shm_struct :: u32 where "sizeof_shm_struct = 12"

lemmas vm_consts [os_const] = PGD_NUM_def PTE_NUM_def MAX_PFN_PER_PROCESS_def MAX_SHM_NUM_def
  sizeof_mm_struct_def sizeof_shm_struct_def

subsection \<open>The bit fields of EntryLo and EntryHi\<close>

definition lo_G :: "u32 \<Rightarrow> bool" where "lo_G e \<longleftrightarrow> bit e 0"
definition lo_V :: "u32 \<Rightarrow> bool" where "lo_V e \<longleftrightarrow> bit e 1"
definition lo_PFN :: "u32 \<Rightarrow> u32" where "lo_PFN e = take_bit 24 (drop_bit 6 e)"
definition set_bit_to :: "nat \<Rightarrow> bool \<Rightarrow> u32 \<Rightarrow> u32" where
  "set_bit_to n b e = (if b then set_bit n e else unset_bit n e)"
definition set_lo_G :: "bool \<Rightarrow> u32 \<Rightarrow> u32" where "set_lo_G b e = set_bit_to 0 b e"
definition set_lo_V :: "bool \<Rightarrow> u32 \<Rightarrow> u32" where "set_lo_V b e = set_bit_to 1 b e"
definition set_lo_D :: "bool \<Rightarrow> u32 \<Rightarrow> u32" where "set_lo_D b e = set_bit_to 2 b e"
definition set_lo_PFN :: "u32 \<Rightarrow> u32 \<Rightarrow> u32" where
  "set_lo_PFN p e = (e AND NOT (push_bit 6 (mask 24))) OR push_bit 6 (take_bit 24 p)"

definition hi_ASID :: "u32 \<Rightarrow> u32" where "hi_ASID e = take_bit 8 e"
definition hi_VPN2 :: "u32 \<Rightarrow> u32" where "hi_VPN2 e = drop_bit 13 e"

definition get_entry_hi :: "u32 \<Rightarrow> u32 \<Rightarrow> u32" where
  "get_entry_hi va asid = push_bit 13 (take_bit 19 (drop_bit 13 va)) OR take_bit 8 asid"

definition addr_bind_to_lo1 :: "u32 \<Rightarrow> u32" where
  "addr_bind_to_lo1 addr = drop_bit 31 (push_bit 19 addr)"

section \<open>Page tables\<close>

definition upd_pte :: "pte_ptr \<Rightarrow> (pte \<Rightarrow> pte) \<Rightarrow> 'z vm_scheme \<Rightarrow> 'z vm_scheme" where
  "upd_pte q g s = s\<lparr>ptes := (ptes s)(fst q := (ptes s (fst q))(snd q := g (ptes s (fst q) (snd q))))\<rparr>"

definition the_pte :: "'z vm_scheme \<Rightarrow> pte_ptr \<Rightarrow> pte" where
  "the_pte s q = ptes s (fst q) (snd q)"

definition create_pt :: "'z vm_scheme \<Rightarrow> ('z vm_scheme \<times> u32) option" where
  "create_pt s =
     (let (s, ret) = kmalloc (4 * of_nat PGD_NUM) s in
      if ret = 0 then None else Some (s\<lparr>pgds := (pgds s)(ret := \<lambda>_. 0)\<rparr>, ret))"

definition create_mm_struct :: "u32 \<Rightarrow> 'z vm_scheme \<Rightarrow> ('z vm_scheme \<times> u32) option" where
  "create_mm_struct asid s =
     (let (s, mm) = kmalloc sizeof_mm_struct s in
      case create_pt s of
        None \<Rightarrow> None
      | Some (s, pgd) \<Rightarrow>
          if mm = 0 then None
          else let s = s\<lparr>mms := (mms s)(mm := \<lparr>mm_pgd = pgd, mm_asid = asid, pf_num = 0\<rparr>)\<rparr>
               in Some (upd_links (INIT_LIST_HEAD (Fifo mm)) s, mm))"

definition get_pte :: "u32 \<Rightarrow> u32 \<Rightarrow> 'z vm_scheme \<Rightarrow> ('z vm_scheme \<times> pte_ptr) option" where
  "get_pte pgd va s =
     (let pgd_idx = unat (drop_bit 22 va);
          pte_idx = unat (drop_bit 22 (push_bit 10 va))
      in if pgds s pgd pgd_idx = 0
         then let (s, t) = kmalloc (8 * of_nat PTE_NUM) s in
              if t = 0 then None
              else let s = s\<lparr>pgds := (pgds s)(pgd := (pgds s pgd)(pgd_idx := t))\<rparr>;
                       s = s\<lparr>ptes := (ptes s)(t := \<lambda>_. \<lparr>tlb_entry = 0, pte_info = 0\<rparr>)\<rparr>
                   in Some (s, (t, pte_idx))
         else Some (s, (pgds s pgd pgd_idx, pte_idx)))"

definition pte_is_valid :: "'z vm_scheme \<Rightarrow> pte_ptr \<Rightarrow> bool" where
  "pte_is_valid s q \<longleftrightarrow> lo_V (tlb_entry (the_pte s q))"

definition get_pte_tlb_entry :: "'z vm_scheme \<Rightarrow> pte_ptr \<Rightarrow> u32" where
  "get_pte_tlb_entry s q = tlb_entry (the_pte s q)"

definition set_pte_tlb_entry :: "pte_ptr \<Rightarrow> u32 \<Rightarrow> 'z vm_scheme \<Rightarrow> 'z vm_scheme" where
  "set_pte_tlb_entry q v s = upd_pte q (\<lambda>e. e\<lparr>tlb_entry := v\<rparr>) s"

definition find_vma :: "u32 \<Rightarrow> u32 \<Rightarrow> bool" where
  "find_vma mm va = True"

section \<open>The TLB\<close>

definition cur_asid :: "'z vm_scheme \<Rightarrow> u32" where
  "cur_asid s = hi_ASID (cp0_entryhi (cpu s))"

definition set_entryhi :: "u32 \<Rightarrow> 'z vm_scheme \<Rightarrow> 'z vm_scheme" where
  "set_entryhi v s = s\<lparr>cpu := (cpu s)\<lparr>cp0_entryhi := v\<rparr>\<rparr>"

definition tlb_match :: "u32 \<Rightarrow> tlb_line \<Rightarrow> bool" where
  "tlb_match hi l \<longleftrightarrow> hi_VPN2 (tlb_hi l) = hi_VPN2 hi \<and>
     (lo_G (tlb_lo0 l) \<and> lo_G (tlb_lo1 l) \<or> hi_ASID (tlb_hi l) = hi_ASID hi)"

definition tlbp :: "'z vm_scheme \<Rightarrow> 'z vm_scheme" where
  "tlbp s = s\<lparr>cp0_index :=
     (case filter (\<lambda>i. tlb_match (cp0_entryhi (cpu s)) (tlb s i)) [0..<32] of
        [] \<Rightarrow> 0x80000000 | i # _ \<Rightarrow> of_nat i)\<rparr>"

definition tlbr :: "'z vm_scheme \<Rightarrow> 'z vm_scheme" where
  "tlbr s = (let l = tlb s (unat (cp0_index s) mod 32)
             in (set_entryhi (tlb_hi l) s)\<lparr>cp0_entrylo0 := tlb_lo0 l, cp0_entrylo1 := tlb_lo1 l\<rparr>)"

definition tlb_write :: "nat \<Rightarrow> 'z vm_scheme \<Rightarrow> 'z vm_scheme" where
  "tlb_write i s = s\<lparr>tlb := (tlb s)(i := \<lparr>tlb_lo0 = cp0_entrylo0 s, tlb_lo1 = cp0_entrylo1 s,
      tlb_hi = cp0_entryhi (cpu s)\<rparr>)\<rparr>"

definition tlbwi :: "'z vm_scheme \<Rightarrow> 'z vm_scheme" where
  "tlbwi s = tlb_write (unat (cp0_index s) mod 32) s"

definition tlbwr :: "'z vm_scheme \<Rightarrow> 'z vm_scheme" where
  "tlbwr s = tlb_write (unat (cp0_random s) mod 32) s"

primrec init_tlb_loop :: "nat \<Rightarrow> 'z vm_scheme \<Rightarrow> 'z vm_scheme" where
  "init_tlb_loop 0 s = s"
| "init_tlb_loop (Suc i) s =
     (let s = init_tlb_loop i s;
          s = s\<lparr>cp0_index := of_nat i\<rparr>;
          s = set_entryhi (0x80000000 + of_nat i * 0x2000) s
      in tlbwi s)"

definition init_tlb ::
    "'h \<Rightarrow> 'h \<Rightarrow> 'z vm_scheme \<Rightarrow> ('h, 'y) vectors_scheme \<Rightarrow> 'z vm_scheme \<times> ('h, 'y) vectors_scheme" where
  "init_tlb read_fn write_fn s v =
     (init_tlb_loop 32 (s\<lparr>cp0_entrylo0 := 0, cp0_entrylo1 := 0\<rparr>),
      register_exception_handler 3 write_fn (register_exception_handler 2 read_fn v))"

definition tlb_reset :: "u32 \<Rightarrow> u32 \<Rightarrow> 'z vm_scheme \<Rightarrow> 'z vm_scheme option" where
  "tlb_reset mm va s =
     (let s = set_entryhi (get_entry_hi va (mm_asid (mms s mm))) s;
          s = tlbp s
      in if drop_bit 31 (cp0_index s) \<noteq> 0 then Some s
         else let s = tlbr s in
              case get_pte (mm_pgd (mms s mm)) va s of
                None \<Rightarrow> None
              | Some (s, pte) \<Rightarrow>
                  let entrylo = get_pte_tlb_entry s pte;
                      s = (if addr_bind_to_lo1 va = 0 then s\<lparr>cp0_entrylo0 := entrylo\<rparr>
                           else s\<lparr>cp0_entrylo1 := entrylo\<rparr>)
                  in Some (tlbwi s))"

section \<open>The swap pool\<close>

text \<open>
  The operations of the file system that the swap pool calls, on a state that contains this one:
  open a path, seek, read and write a buffer at a virtual address, close.
\<close>

record 's file_ops =
  op_open :: "string \<Rightarrow> u32 \<Rightarrow> 's \<Rightarrow> 's \<times> u32"
  op_seek :: "u32 \<Rightarrow> u32 \<Rightarrow> u32 \<Rightarrow> 's \<Rightarrow> 's"
  op_write :: "u32 \<Rightarrow> u32 \<Rightarrow> u32 \<Rightarrow> 's \<Rightarrow> 's"
  op_read :: "u32 \<Rightarrow> u32 \<Rightarrow> u32 \<Rightarrow> 's \<Rightarrow> 's"
  op_close :: "u32 \<Rightarrow> 's \<Rightarrow> 's"

definition F_MODE_READ :: u32 where "F_MODE_READ = 1"
definition F_MODE_READ_WRITE :: u32 where "F_MODE_READ_WRITE = 3"
definition SEEK_HEAD :: u32 where "SEEK_HEAD = 1"

definition init_page_pool :: "'z vm_scheme \<Rightarrow> 'z vm_scheme" where
  "init_page_pool s = s\<lparr>page_pool := \<lparr>pool_page_num = 0, pool_next_free = 1,
     pool_entry = \<lambda>i. if i < unat MACHINE_PAGE_NUM then 0 else pool_entry (page_pool s) i,
     pool_block = \<lambda>i. if i < unat MACHINE_PAGE_NUM then 0 else pool_block (page_pool s) i\<rparr>\<rparr>"

definition alloc_block :: "page_pool_struct \<Rightarrow> page_pool_struct \<times> u32" where
  "alloc_block p =
     (let block_num = pool_next_free p;
          next_next_free = pool_entry p (unat (pool_next_free p - 1))
      in (if next_next_free \<noteq> 0 then p\<lparr>pool_next_free := next_next_free\<rparr>
          else p\<lparr>pool_next_free := pool_next_free p + 1, pool_page_num := pool_page_num p + 1\<rparr>, block_num))"

definition write_page_to_disk ::
    "'z vm_scheme file_ops \<Rightarrow> u32 \<Rightarrow> u32 \<Rightarrow> 'z vm_scheme \<Rightarrow> 'z vm_scheme \<times> u32" where
  "write_page_to_disk ops va block_num s =
     (let (p, block_num) = (if block_num = 0 then alloc_block (page_pool s) else (page_pool s, block_num));
          s = s\<lparr>page_pool := p\<rparr>;
          (s, fp) = op_open ops ''/pages'' F_MODE_READ_WRITE s;
          s = op_seek ops fp SEEK_HEAD ((block_num - 1) * PAGE_SIZE) s;
          s = op_write ops fp va PAGE_SIZE s;
          s = op_close ops fp s
      in (s, block_num))"

definition load_page_from_disk :: "'z vm_scheme file_ops \<Rightarrow> u32 \<Rightarrow> u32 \<Rightarrow> 'z vm_scheme \<Rightarrow> 'z vm_scheme" where
  "load_page_from_disk ops va block_num s =
     (if block_num = 0 then s
      else let (s, fp) = op_open ops ''/pages'' F_MODE_READ s;
               s = op_seek ops fp SEEK_HEAD ((block_num - 1) * PAGE_SIZE) s;
               s = op_read ops fp va PAGE_SIZE s
           in op_close ops fp s)"

definition delete_page_on_disk :: "u32 \<Rightarrow> 'z vm_scheme \<Rightarrow> 'z vm_scheme option" where
  "delete_page_on_disk block_num s =
     (case kfree (pool_block (page_pool s) (unat (block_num - 1))) s of
        None \<Rightarrow> None
      | Some s \<Rightarrow>
          let p = page_pool s
          in Some (s\<lparr>page_pool := p\<lparr>pool_entry := (pool_entry p)(unat (block_num - 1) := pool_next_free p),
               pool_next_free := block_num\<rparr>\<rparr>))"

section \<open>Page faults\<close>

definition swap_one_page ::
    "'z vm_scheme file_ops \<Rightarrow> u32 \<Rightarrow> u32 \<Rightarrow> 'z vm_scheme \<Rightarrow> ('z vm_scheme \<times> u32) option" where
  "swap_one_page ops mm va s =
     (let pagep = page_of (next (links s) (Fifo mm));
          vaddr_out = virt (pages s pagep)
      in case get_pte (mm_pgd (mms s mm)) vaddr_out s of
           None \<Rightarrow> None
         | Some (s, pte) \<Rightarrow>
             let paddr = push_bit PAGE_SHIFT (lo_PFN (tlb_entry (the_pte s pte)));
                 (s, bn) = write_page_to_disk ops vaddr_out (pte_info (the_pte s pte)) s;
                 s = upd_pte pte (\<lambda>e. e\<lparr>pte_info := bn\<rparr>) s
             in case get_pte (mm_pgd (mms s mm)) va s of
                  None \<Rightarrow> None
                | Some (s, pte_in) \<Rightarrow>
                    let s = load_page_from_disk ops vaddr_out (pte_info (the_pte s pte_in)) s;
                        s = upd_pte pte (\<lambda>e. e\<lparr>tlb_entry := set_lo_V False (tlb_entry e)\<rparr>) s
                    in case tlb_reset mm vaddr_out s of
                         None \<Rightarrow> None
                       | Some s \<Rightarrow>
                           let s = upd_page pagep (\<lambda>p. p\<lparr>virt := va\<rparr>) s;
                               s = upd_links (list_del (PageNode pagep)) s;
                               s = upd_links (list_add_tail (PageNode pagep) (Fifo mm)) s
                           in Some (s, paddr))"

definition do_pagefault :: "'z vm_scheme file_ops \<Rightarrow> u32 \<Rightarrow> 'z vm_scheme \<Rightarrow> 'z vm_scheme option" where
  "do_pagefault ops va s =
     (let mm = mm_current s in
      if \<not> find_vma mm va then Some s
      else if mm = 0 then None
      else case get_pte (mm_pgd (mms s mm)) va s of
        None \<Rightarrow> None
      | Some (s, pte) \<Rightarrow>
          let max = (if page_fault_debug s then 3 else MAX_PFN_PER_PROCESS);
              swap = swap_one_page ops mm va;
              r = (if pf_num (mms s mm) < max
                   then (case alloc_one_page s of (t, paddr) \<Rightarrow>
                           if paddr \<noteq> 0
                           then let pagep = get_page_by_paddr paddr;
                                    t = upd_page pagep (\<lambda>p. p\<lparr>virt := va\<rparr>) t;
                                    t = upd_links (list_add_tail (PageNode pagep) (Fifo mm)) t;
                                    t = t\<lparr>mms := (mms t)(mm := (mms t mm)\<lparr>pf_num := pf_num (mms t mm) + 1\<rparr>)\<rparr>
                                in Some (t, paddr)
                           else swap t)
                   else swap s)
          in case r of
               None \<Rightarrow> None
             | Some (s, paddr) \<Rightarrow>
                 let lo = push_bit 6 (drop_bit PAGE_SHIFT paddr) OR 0x1f
                 in Some (set_pte_tlb_entry pte lo s))"

definition tlb_refill_raw :: "'z vm_scheme file_ops \<Rightarrow> bool \<Rightarrow> 'z vm_scheme \<Rightarrow> 'z vm_scheme option" where
  "tlb_refill_raw ops random s =
     (let bad_vaddr = cp0_badvaddr s in
      if mm_current s = 0 then None
      else case get_pte (mm_pgd (mms s (mm_current s))) bad_vaddr s of
        None \<Rightarrow> None
      | Some (s, (t, i)) \<Rightarrow>
          let (entrylo0, entrylo1) =
                (if addr_bind_to_lo1 bad_vaddr = 0
                 then (get_pte_tlb_entry s (t, i), get_pte_tlb_entry s (t, i + 1))
                 else (get_pte_tlb_entry s (t, i - 1), get_pte_tlb_entry s (t, i)))
          in if pte_is_valid s (t, i)
             then let s = s\<lparr>cp0_entrylo0 := entrylo0, cp0_entrylo1 := entrylo1\<rparr>
                  in Some (if random then tlbwr s else tlbwi s)
             else do_pagefault ops bad_vaddr s)"

definition tlb_refill :: "'z vm_scheme file_ops \<Rightarrow> 'z vm_scheme \<Rightarrow> 'z vm_scheme option" where
  "tlb_refill ops s =
     (let (c, old) = disable_interrupts (cpu s) in
      map_option (\<lambda>s. s\<lparr>cpu := restore_interrupts old (cpu s)\<rparr>) (tlb_refill_raw ops True (s\<lparr>cpu := c\<rparr>)))"

definition tlb_read_handler :: "'z vm_scheme file_ops \<Rightarrow> 'z vm_scheme \<Rightarrow> 'z vm_scheme option" where
  "tlb_read_handler ops s =
     (let s = tlbp s in
      if drop_bit 31 (cp0_index s) \<noteq> 0 then tlb_refill ops s else tlb_refill_raw ops False s)"

definition tlb_write_handler :: "'z vm_scheme file_ops \<Rightarrow> 'z vm_scheme \<Rightarrow> 'z vm_scheme option" where
  "tlb_write_handler ops s =
     (let s = tlbp s in
      if drop_bit 31 (cp0_index s) \<noteq> 0 then tlb_refill ops s else tlb_refill_raw ops False s)"

text \<open>
  The release of an address space walks its FIFO; on a damaged list the walk may not end, so the
  loop is a partial function, in which \<open>None\<close> is also a failed \<open>get_pte\<close>.
\<close>

partial_function (option) free_fifo_loop :: "u32 \<Rightarrow> node \<Rightarrow> 'z vm_scheme \<Rightarrow> 'z vm_scheme option" where
  "free_fifo_loop mm p s =
     (if p = Fifo mm then Some s
      else let nxt = next (links s) p; pagep = page_of p in
           case get_pte (mm_pgd (mms s mm)) (virt (pages s pagep)) s of
             None \<Rightarrow> None
           | Some (s, pte) \<Rightarrow>
               (case tlb_reset mm (virt (pages s pagep))
                  (upd_pte pte (\<lambda>e. e\<lparr>tlb_entry := set_lo_V False (tlb_entry e)\<rparr>) s) of
                  None \<Rightarrow> None
                | Some s \<Rightarrow> free_fifo_loop mm nxt (free_pages (upd_links (list_del p) s) (get_page_paddr pagep))))"

primrec free_tables_loop :: "nat \<Rightarrow> u32 \<Rightarrow> 'z vm_scheme \<Rightarrow> 'z vm_scheme option" where
  "free_tables_loop 0 pgd s = Some s"
| "free_tables_loop (Suc i) pgd s =
     (case free_tables_loop i pgd s of
        None \<Rightarrow> None
      | Some s \<Rightarrow> if pgds s pgd i \<noteq> 0 then kfree (pgds s pgd i) s else Some s)"

definition free_mm_struct :: "u32 \<Rightarrow> 'z vm_scheme \<Rightarrow> 'z vm_scheme option" where
  "free_mm_struct mm s =
     (case free_fifo_loop mm (next (links s) (Fifo mm)) s of
        None \<Rightarrow> None
      | Some s \<Rightarrow>
          (case free_tables_loop PGD_NUM (mm_pgd (mms s mm)) s of
             None \<Rightarrow> None
           | Some s \<Rightarrow>
               (case kfree (mm_pgd (mms s mm)) s of None \<Rightarrow> None | Some s \<Rightarrow> kfree mm s)))"

section \<open>Shared memory\<close>

definition init_shm_pool :: "'z vm_scheme \<Rightarrow> 'z vm_scheme" where
  "init_shm_pool s = s\<lparr>shm_pool := \<lambda>i. if i < MAX_SHM_NUM then 0 else shm_pool s i\<rparr>"

text \<open>The counter of a new region is not set: it is what the memory held.\<close>

definition shmget :: "int \<Rightarrow> u32 \<Rightarrow> 'z vm_scheme \<Rightarrow> ('z vm_scheme \<times> int) option" where
  "shmget key sz s =
     (if sz = 0 \<or> key < 0 \<or> key \<ge> int MAX_SHM_NUM then Some (s, - 1)
      else if shm_pool s (nat key) \<noteq> 0 then Some (s, key)
      else case alloc_pages s sz of (s, paddr) \<Rightarrow>
        if paddr = 0 then Some (s, - 1)
        else let (s, shm) = kmalloc sizeof_shm_struct s in
             if shm = 0 then None
             else let s = s\<lparr>shms := (shms s)(shm := (shms s shm)\<lparr>
                             pfn_start := of_nat (get_page_by_paddr paddr),
                             pfn_num := drop_bit PAGE_SHIFT (upper_align sz (push_bit PAGE_SHIFT 1))\<rparr>)\<rparr>
                  in Some (s\<lparr>shm_pool := (shm_pool s)(nat key := shm)\<rparr>, key))"

primrec shmat_loop :: "nat \<Rightarrow> nat \<Rightarrow> u32 \<Rightarrow> u32 \<Rightarrow> 'z vm_scheme \<Rightarrow> 'z vm_scheme option" where
  "shmat_loop 0 i shm p s = Some s"
| "shmat_loop (Suc n) i shm p s =
     (if mm_current s = 0 then None
      else case get_pte (mm_pgd (mms s (mm_current s))) p s of
        None \<Rightarrow> None
      | Some (s, pte) \<Rightarrow>
          let s = upd_pte pte (\<lambda>e. e\<lparr>tlb_entry := set_lo_V True (set_lo_D True (set_lo_G False
                    (set_lo_PFN (pfn_start (shms s shm) + of_nat i) (tlb_entry e))))\<rparr>) s
          in shmat_loop n (i + 1) shm (p + of_nat i * PAGE_SIZE) s)"

definition shmat :: "int \<Rightarrow> u32 \<Rightarrow> 'z vm_scheme \<Rightarrow> 'z vm_scheme option" where
  "shmat shmid va s =
     (if shmid < 0 \<or> shmid \<ge> int MAX_SHM_NUM \<or> shm_pool s (nat shmid) = 0 then Some s
      else let shm = shm_pool s (nat shmid);
               p = lower_align va (push_bit PAGE_SHIFT 1)
           in case shmat_loop (unat (pfn_num (shms s shm))) 0 shm p s of
                None \<Rightarrow> None
              | Some s \<Rightarrow>
                  Some (s\<lparr>shms := (shms s)(shm := (shms s shm)\<lparr>shm_count := shm_count (shms s shm) + 1\<rparr>)\<rparr>))"


section \<open>What the allocators leave alone\<close>

lemma split_loop_more: "buddy.more (split_loop s p k j) = buddy.more s"
proof (induction s p k j rule: split_loop.induct)
  case (1 s p k j)
  show ?case
    by (subst split_loop.simps) (use 1 in \<open>auto simp: Let_def upd_page_def\<close>)
qed

lemma merge_loop_more: "buddy.more (fst (merge_loop s p k)) = buddy.more s"
proof (induction s p k rule: merge_loop.induct)
  case (1 s p k)
  show ?case
    by (subst merge_loop.simps) (use 1 in \<open>auto simp: Let_def\<close>)
qed

lemma buddy_ops_more:
  "buddy.more (fst (alloc_pages_raw s k ty)) = buddy.more s"
  "buddy.more (fst (alloc_pages s sz)) = buddy.more s"
  "buddy.more (free_pages_raw s p) = buddy.more s"
proof -
  show *: "buddy.more (fst (alloc_pages_raw s k ty)) = buddy.more s" for k ty
    by (auto simp: alloc_pages_raw_def Let_def upd_page_def split_loop_more split: option.splits)
  show "buddy.more (fst (alloc_pages s sz)) = buddy.more s"
    using * [of "level_loop 1 0 (unat (drop_bit PAGE_SHIFT (upper_align sz (push_bit PAGE_SHIFT 1))))" BUDDY_ALLOCED]
    by (auto simp: alloc_pages_def Let_def split: prod.splits option.splits)
  show "buddy.more (free_pages_raw s p) = buddy.more s"
    using merge_loop_more [of s p "bplevel (pages s p)"]
    by (auto simp: free_pages_raw_def Let_def upd_page_def split: prod.splits)
qed

lemma slab_of_buddy_more: "buddy.more t = buddy.more s \<Longrightarrow> slab.more t = slab.more s"
  by (cases s, cases t) simp

lemma upd_more [simp]:
  "slab.more (upd_links g s) = slab.more s" "slab.more (upd_slab a k s) = slab.more s"
  "slab.more (upd_cache i c s) = slab.more s" "slab.more (upd_page p h s) = slab.more s"
  by (simp_all add: upd_links_def upd_slab_def upd_cache_def upd_page_def)

lemma kmem_cache_alloc_more: "slab.more (fst (kmem_cache_alloc i s)) = slab.more s"
proof -
  have a: "slab.more t = slab.more s" if "alloc_pages_raw s 0 BUDDY_SLAB = (t, x)" for t x
    using slab_of_buddy_more [OF buddy_ops_more(1) [of s 0 BUDDY_SLAB]] that by simp
  have o: "slab.more (fst (alloc_object i p s)) = slab.more s" for p and s :: "'a slab_scheme"
    by (simp add: alloc_object_def alloc_new_object_in_page_def Let_def)
  have sp: "slab.more (fst (slab_page i s)) = slab.more s"
    using a by (auto simp: slab_page_def init_object_in_page_def Let_def split: option.splits prod.splits)
  obtain t x where t: "slab_page i s = (t, x)" by fastforce
  show ?thesis
  proof (cases x)
    case (Some p)
    obtain u r where "alloc_object i (virt (pages t p)) t = (u, r)" by fastforce
    with o [of "virt (pages t p)" t] sp t Some show ?thesis
      by (simp add: kmem_cache_alloc_def Let_def move_page_def)
  qed (use sp t in \<open>simp add: kmem_cache_alloc_def\<close>)
qed

lemma kmalloc_more: "slab.more (fst (kmalloc sz s)) = slab.more s"
proof -
  have b: "slab.more t = slab.more s" if "alloc_pages s sz = (t, x)" for t x and s :: "'a slab_scheme"
    using slab_of_buddy_more [OF buddy_ops_more(2) [of s sz]] that by simp
  have c: "slab.more t = slab.more s" if "kmem_cache_alloc i s = (t, x)" for i t x and s :: "'a slab_scheme"
    using kmem_cache_alloc_more [of i s] that by simp
  show ?thesis
    by (auto simp: kmalloc_def Let_def split: prod.splits option.splits if_splits dest!: b c)
qed

lemma vm_of_slab_more:
  assumes "slab.more t = slab.more s"
  shows "mms t = mms s" "pgds t = pgds s" "ptes t = ptes s" "mm_current t = mm_current s"
    "page_fault_debug t = page_fault_debug s" "tlb t = tlb s" "page_pool t = page_pool s"
    "shm_pool t = shm_pool s" "shms t = shms s"
  using assms by (cases s, cases t, simp)+

lemmas kmalloc_frame = vm_of_slab_more [OF kmalloc_more]


section \<open>A page table is a map from page numbers to entries\<close>

definition page_no :: "u32 \<Rightarrow> u32" where
  "page_no va = drop_bit 12 va"

definition pgd_idx :: "u32 \<Rightarrow> nat" where
  "pgd_idx va = unat (drop_bit 22 va)"

definition pte_idx :: "u32 \<Rightarrow> nat" where
  "pte_idx va = unat (drop_bit 22 (push_bit 10 va))"

lemma pte_idx_eq: "pte_idx va = unat (take_bit 10 (page_no va))"
proof -
  have "drop_bit 22 (push_bit 10 va) = take_bit 10 (page_no va)"
    by (rule bit_word_eqI) (auto simp: page_no_def bit_simps)
  then show ?thesis by (simp only: pte_idx_def)
qed

lemma pgd_idx_eq: "pgd_idx va = unat (drop_bit 10 (page_no va))"
  by (simp add: page_no_def pgd_idx_def)

lemma idx_less: "pgd_idx va < PGD_NUM" "pte_idx va < PTE_NUM"
proof -
  show "pte_idx va < PTE_NUM"
    unfolding pte_idx_eq unat_take_bit_u32 by (simp add: PTE_NUM_def)
  have "unat va < 2 ^ 32" using unsigned_less [of va] by simp
  then show "pgd_idx va < PGD_NUM"
    unfolding pgd_idx_def unat_drop_bit_u32 by (simp add: PGD_NUM_def less_mult_imp_div_less)
qed

lemma idx_inj: "pgd_idx va = pgd_idx vb \<and> pte_idx va = pte_idx vb \<longleftrightarrow> page_no va = page_no vb"
proof
  assume "pgd_idx va = pgd_idx vb \<and> pte_idx va = pte_idx vb"
  then have u: "unat (drop_bit 10 (page_no va)) = unat (drop_bit 10 (page_no vb))"
      "unat (take_bit 10 (page_no va)) = unat (take_bit 10 (page_no vb))"
    unfolding pte_idx_eq pgd_idx_eq by (rule conjunct1, rule conjunct2)
  then have "drop_bit 10 (page_no va) = drop_bit 10 (page_no vb)" "take_bit 10 (page_no va) = take_bit 10 (page_no vb)"
    unfolding word_unat_eq_iff .
  then show "page_no va = page_no vb" by (metis bits_ident)
qed (simp only: pte_idx_eq pgd_idx_eq)

definition pt_view :: "'z vm_scheme \<Rightarrow> u32 \<Rightarrow> u32 \<Rightarrow> pte" where
  "pt_view s pgd va =
     (let t = pgds s pgd (pgd_idx va)
      in if t = 0 then \<lparr>tlb_entry = 0, pte_info = 0\<rparr> else ptes s t (pte_idx va))"

text \<open>The second-level tables of one page table are different regions of the heap.\<close>

definition pt_wf :: "'z vm_scheme \<Rightarrow> region set \<Rightarrow> u32 \<Rightarrow> bool" where
  "pt_wf s R pgd \<longleftrightarrow> heap s R \<and>
     (\<forall>i<PGD_NUM. pgds s pgd i \<noteq> 0 \<longrightarrow>
        (\<exists>n. 0 < n \<and> (unat (pgds s pgd i), n) \<in> R) \<and> (\<forall>j<PGD_NUM. pgds s pgd j = pgds s pgd i \<longrightarrow> j = i))"

lemma get_pte_hit:
  "pgds s pgd (pgd_idx va) \<noteq> 0 \<Longrightarrow> get_pte pgd va s = Some (s, (pgds s pgd (pgd_idx va), pte_idx va))"
  by (simp add: get_pte_def pgd_idx_def pte_idx_def)

lemma get_pte_miss:
  assumes "pgds s pgd (pgd_idx va) = 0" and "get_pte pgd va s = Some (s', q)"
  obtains s1 t where "kmalloc 8192 s = (s1, t)" "t \<noteq> 0" "q = (t, pte_idx va)"
    "s' = s1\<lparr>pgds := (pgds s1)(pgd := (pgds s1 pgd)(pgd_idx va := t)),
             ptes := (ptes s1)(t := \<lambda>_. \<lparr>tlb_entry = 0, pte_info = 0\<rparr>)\<rparr>"
proof -
  obtain s1 t where k: "kmalloc 8192 s = (s1, t)" by fastforce
  with assms have "t \<noteq> 0" "q = (t, pte_idx va)"
    "s' = s1\<lparr>pgds := (pgds s1)(pgd := (pgds s1 pgd)(pgd_idx va := t)),
             ptes := (ptes s1)(t := \<lambda>_. \<lparr>tlb_entry = 0, pte_info = 0\<rparr>)\<rparr>"
    by (auto simp: get_pte_def pgd_idx_def pte_idx_def PTE_NUM_def Let_def split: if_splits)
  with k that show thesis by blast
qed

lemma heap_vm [simp]:
  "kheap (s\<lparr>pgds := x\<rparr>) f A = kheap s f A"
  "heap (s\<lparr>pgds := x\<rparr>) R = heap s R" "heap (s\<lparr>ptes := y\<rparr>) R = heap s R" "heap (s\<lparr>mms := z\<rparr>) R = heap s R"
  by (simp_all add: heap_def kheap_def kinv_def kobjs_def kblocks_def page_objs_def page_list_def [abs_def] slab_pages_def
      buddy_full_def buddy_inv_def bcore_def coalesced_def allocd_def zone_def zone_ok_def Let_def)

lemma get_pte_correct:
  assumes W: "pt_wf s R pgd" and g: "get_pte pgd va s = Some (s', q)"
  shows "\<exists>R'. R \<subseteq> R' \<and> pt_wf s' R' pgd"
    and "\<And>vb. pt_view s' pgd vb = pt_view s pgd vb"
    and "q = (pgds s' pgd (pgd_idx va), pte_idx va)" "pgds s' pgd (pgd_idx va) \<noteq> 0"
proof -
  have "(\<exists>R'. R \<subseteq> R' \<and> pt_wf s' R' pgd) \<and> (\<forall>vb. pt_view s' pgd vb = pt_view s pgd vb) \<and>
      q = (pgds s' pgd (pgd_idx va), pte_idx va) \<and> pgds s' pgd (pgd_idx va) \<noteq> 0"
  proof (cases "pgds s pgd (pgd_idx va) = 0")
    case False
    then have "s' = s" "q = (pgds s pgd (pgd_idx va), pte_idx va)" using g get_pte_hit [OF False] by auto
    with False W show ?thesis by auto
  next
    case True
    obtain s1 t where k: "kmalloc 8192 s = (s1, t)" "t \<noteq> 0" "q = (t, pte_idx va)"
      "s' = s1\<lparr>pgds := (pgds s1)(pgd := (pgds s1 pgd)(pgd_idx va := t)),
               ptes := (ptes s1)(t := \<lambda>_. \<lparr>tlb_entry = 0, pte_info = 0\<rparr>)\<rparr>"
      by (rule get_pte_miss [OF True g])
    have H: "heap s R" using W by (simp add: pt_wf_def)
    obtain n where n: "8192 \<le> n" "heap s1 (insert (unat t, n) R)" "(unat t, n) \<notin> R"
      using km.alloc_region [OF H _ k(1,2)] by auto
    have fr: "pgds s1 = pgds s" "ptes s1 = ptes s" using kmalloc_frame(2,3) [of 8192 s] k(1) by simp_all
    have new: "pgds s pgd i \<noteq> t" if "i < PGD_NUM" for i
    proof
      assume e: "pgds s pgd i = t"
      have "\<exists>m>0. (unat (pgds s pgd i), m) \<in> R" using W that k(2) e unfolding pt_wf_def by blast
      then obtain m where m: "0 < m" "(unat t, m) \<in> R" using e by auto
      then show False using heap_unique [OF n(2), of "unat t" m n] n(3) by simp
    qed
    have "pt_wf s' (insert (unat t, n) R) pgd"
      unfolding pt_wf_def
    proof (intro conjI allI impI)
      fix i j assume i: "i < PGD_NUM" "pgds s' pgd i \<noteq> 0"
      show "\<exists>n'>0. (unat (pgds s' pgd i), n') \<in> insert (unat t, n) R"
        using i n(1) W by (cases "i = pgd_idx va") (auto simp: k(4) fr pt_wf_def intro: exI [of _ n])
      assume "j < PGD_NUM" "pgds s' pgd j = pgds s' pgd i"
      then show "j = i" using i new W idx_less(1) by (auto simp: k(4) fr pt_wf_def split: if_splits)
    qed (use n(2) in \<open>simp add: k(4)\<close>)
    moreover have "pt_view s' pgd vb = pt_view s pgd vb" for vb
      using new [OF idx_less(1), of vb] True k(2) by (auto simp: pt_view_def k(4) fr Let_def)
    ultimately show ?thesis using k(2,3,4) by auto
  qed
  then show "\<exists>R'. R \<subseteq> R' \<and> pt_wf s' R' pgd" "\<And>vb. pt_view s' pgd vb = pt_view s pgd vb"
    "q = (pgds s' pgd (pgd_idx va), pte_idx va)" "pgds s' pgd (pgd_idx va) \<noteq> 0"
    by auto
qed

lemma upd_pte_view:
  assumes W: "pt_wf s R pgd" and q: "q = (pgds s pgd (pgd_idx va), pte_idx va)" "pgds s pgd (pgd_idx va) \<noteq> 0"
  shows "pt_view (upd_pte q g s) pgd vb = (if page_no vb = page_no va then g (pt_view s pgd va) else pt_view s pgd vb)"
    and "pt_wf (upd_pte q g s) R pgd" "the_pte s q = pt_view s pgd va"
proof -
  have "pgds s pgd (pgd_idx vb) = pgds s pgd (pgd_idx va) \<longleftrightarrow> pgd_idx vb = pgd_idx va"
    using W q(2) idx_less(1) by (auto simp: pt_wf_def)
  then show "pt_view (upd_pte q g s) pgd vb =
      (if page_no vb = page_no va then g (pt_view s pgd va) else pt_view s pgd vb)"
    using q(2) idx_inj [of vb va] by (auto simp: pt_view_def upd_pte_def q(1) Let_def)
  show "pt_wf (upd_pte q g s) R pgd" using W by (simp add: pt_wf_def upd_pte_def)
  show "the_pte s q = pt_view s pgd va" using q by (simp add: the_pte_def pt_view_def Let_def)
qed


section \<open>The free chain of the swap pool\<close>

text \<open>
  Deleted blocks form a chain through \<open>entry\<close> that starts at \<open>next_free\<close> and ends at the first
  block that was never used, one above the number of blocks in use or in the chain.
\<close>

primrec chain :: "(nat \<Rightarrow> u32) \<Rightarrow> u32 \<Rightarrow> u32 list \<Rightarrow> u32 \<Rightarrow> bool" where
  "chain e a [] m \<longleftrightarrow> a = m"
| "chain e a (b # bs) m \<longleftrightarrow> a = b \<and> e (unat (b - 1)) \<noteq> 0 \<and> chain e (e (unat (b - 1))) bs m"

definition pool_rep :: "page_pool_struct \<Rightarrow> u32 set \<Rightarrow> bool" where
  "pool_rep p U \<longleftrightarrow> (\<exists>bs. chain (pool_entry p) (pool_next_free p) bs (pool_page_num p + 1) \<and>
     pool_page_num p \<le> MACHINE_PAGE_NUM \<and>
     (\<forall>i. unat (pool_page_num p) \<le> i \<longrightarrow> i < unat MACHINE_PAGE_NUM \<longrightarrow> pool_entry p i = 0) \<and>
     distinct bs \<and> set bs \<inter> U = {} \<and> set bs \<union> U = {1..pool_page_num p})"

lemma chain_upd: "(\<And>b. b \<in> set bs \<Longrightarrow> unat (b - 1) \<noteq> i) \<Longrightarrow> chain (e(i := v)) a bs m = chain e a bs m"
  by (induction bs arbitrary: a) auto

lemma machine_pages: "unat MACHINE_PAGE_NUM = 2 ^ 17" "MACHINE_PAGE_NUM = 2 ^ 17"
  by (simp_all add: os_const unat_drop_bit_u32)

lemma init_pool_rep: "pool_rep (page_pool (init_page_pool s)) {}"
  unfolding pool_rep_def by (intro exI [of _ "[]"]) (auto simp: init_page_pool_def)

lemma alloc_block_rep:
  assumes R: "pool_rep p U" and room: "pool_page_num p < MACHINE_PAGE_NUM" and r: "alloc_block p = (p', b)"
  shows "b \<notin> U" "b \<noteq> 0" "pool_rep p' (insert b U)"
proof -
  obtain bs where c: "chain (pool_entry p) (pool_next_free p) bs (pool_page_num p + 1)"
    and z: "\<forall>i. unat (pool_page_num p) \<le> i \<longrightarrow> i < unat MACHINE_PAGE_NUM \<longrightarrow> pool_entry p i = 0"
    and d: "distinct bs" "set bs \<inter> U = {}" "set bs \<union> U = {1..pool_page_num p}"
    using R by (auto simp: pool_rep_def)
  let ?n = "pool_page_num p"
  have u: "unat (?n + 1) = unat ?n + 1" and le: "?n + 1 \<le> MACHINE_PAGE_NUM"
    using unat_Suc_less [OF room] room by (simp_all add: word_le_nat_alt word_less_nat_alt)
  have "b \<notin> U \<and> b \<noteq> 0 \<and> pool_rep p' (insert b U)"
  proof (cases bs)
    case Nil
    then have nf: "pool_next_free p = ?n + 1" using c by simp
    moreover have "pool_entry p (unat ?n) = 0" using z room by (simp add: word_less_nat_alt)
    ultimately have p': "p' = p\<lparr>pool_next_free := ?n + 2, pool_page_num := ?n + 1\<rparr>" "b = ?n + 1"
      using r by (auto simp: alloc_block_def Let_def)
    have "insert (?n + 1) {1..?n} = {1..?n + 1}" using u by (auto simp: word_le_nat_alt word_unat_eq_iff)
    then have "pool_rep p' (insert b U)"
      unfolding pool_rep_def using p' z d Nil le u by (intro exI [of _ "[]"]) auto
    moreover have "b \<notin> U" using d(3) Nil p'(2) u by (auto simp: word_le_nat_alt)
    moreover have "b \<noteq> 0" using u p'(2) by auto
    ultimately show ?thesis by blast
  next
    case (Cons a as)
    then have p': "p' = p\<lparr>pool_next_free := pool_entry p (unat (a - 1))\<rparr>" "b = a"
      using r c by (auto simp: alloc_block_def Let_def)
    have "pool_rep p' (insert b U)"
      unfolding pool_rep_def using p' z d Cons c room by (intro exI [of _ as]) auto
    moreover have "b \<notin> U" "b \<in> {1..?n}" using d Cons p'(2) by auto
    ultimately show ?thesis by auto
  qed
  then show "b \<notin> U" "b \<noteq> 0" "pool_rep p' (insert b U)" by auto
qed

lemma free_block_rep:
  assumes R: "pool_rep p U" and b: "b \<in> U"
  shows "pool_rep (p\<lparr>pool_entry := (pool_entry p)(unat (b - 1) := pool_next_free p), pool_next_free := b\<rparr>) (U - {b})"
proof -
  obtain bs where c: "chain (pool_entry p) (pool_next_free p) bs (pool_page_num p + 1)"
    and le: "pool_page_num p \<le> MACHINE_PAGE_NUM"
    and z: "\<forall>i. unat (pool_page_num p) \<le> i \<longrightarrow> i < unat MACHINE_PAGE_NUM \<longrightarrow> pool_entry p i = 0"
    and d: "distinct bs" "set bs \<inter> U = {}" "set bs \<union> U = {1..pool_page_num p}"
    using R by (auto simp: pool_rep_def)
  have b1: "b \<in> {1..pool_page_num p}" "b \<notin> set bs" using b d by auto
  have pos: "0 < unat x" "unat (x - 1) = unat x - 1" if "x \<in> {1..pool_page_num p}" for x
    using that by (auto simp: word_le_nat_alt unat_sub)
  have ne: "unat (x - 1) \<noteq> unat (b - 1)" if "x \<in> set bs" for x
  proof -
    have "x \<in> {1..pool_page_num p}" "x \<noteq> b" using that d b1(2) by auto
    then show ?thesis using pos [of x] pos [OF b1(1)] by (auto simp: word_unat_eq_iff)
  qed
  have "pool_next_free p \<noteq> 0"
  proof (cases bs)
    case Nil
    have "pool_page_num p \<noteq> - 1"
      using le by (auto simp: word_le_nat_alt machine_pages unat_minus_1_u32)
    then show ?thesis using c Nil by (simp add: add_eq_0_iff2)
  next
    case (Cons x xs)
    then have "pool_next_free p \<in> {1..pool_page_num p}" using c d(3) by auto
    then show ?thesis by auto
  qed
  moreover have "\<forall>i. unat (pool_page_num p) \<le> i \<longrightarrow> i \<noteq> unat (b - 1)"
    using pos [OF b1(1)] b1(1) by (auto simp: word_le_nat_alt)
  moreover have "insert b (set bs) \<union> (U - {b}) = {1..pool_page_num p}" using d(3) b by auto
  ultimately show ?thesis
    unfolding pool_rep_def using c d le z b1 ne by (intro exI [of _ "b # bs"]) (auto simp: chain_upd)
qed


lemma kmem_cache_free_more: "slab.more (kmem_cache_free i a s) = slab.more s"
  by (simp add: kmem_cache_free_def move_page_def Let_def)

lemma kfree_more: "kfree a s = Some t \<Longrightarrow> slab.more t = slab.more s"
proof -
  assume k: "kfree a s = Some t"
  have f: "slab.more (free_pages s x) = slab.more s" for s :: "'a slab_scheme" and x
    using slab_of_buddy_more [OF buddy_ops_more(3)] by (auto simp: free_pages_def)
  from k show ?thesis
    by (auto simp: kfree_def Let_def kmem_cache_free_more f split: prod.splits if_splits)
qed

lemma delete_page_rep:
  assumes "pool_rep (page_pool s) U" and "b \<in> U" and "delete_page_on_disk b s = Some s'"
  shows "pool_rep (page_pool s') (U - {b})"
  using assms free_block_rep [OF assms(1,2)]
  by (auto simp: delete_page_on_disk_def Let_def split: option.splits dest!: kfree_more vm_of_slab_more(7))

section \<open>Refilling the TLB\<close>

text \<open>
  The line of the TLB that a refill writes serves the page of the faulting address: the half
  that bit 12 of the address selects is the entry of that page.
\<close>

lemma lo1_bit: "addr_bind_to_lo1 va = (if bit va 12 then 1 else 0)"
  by (rule bit_word_eqI) (auto simp: addr_bind_to_lo1_def bit_simps)

lemma pte_idx_parity: "odd (pte_idx va) \<longleftrightarrow> bit va 12"
proof -
  have "odd (pte_idx va) \<longleftrightarrow> bit (take_bit 10 (page_no va)) 0"
    unfolding pte_idx_eq by (simp add: bit_unsigned_iff flip: bit_0)
  then show ?thesis by (simp add: page_no_def bit_simps)
qed

definition tlb_half :: "u32 \<Rightarrow> tlb_line \<Rightarrow> u32" where
  "tlb_half va l = (if bit va 12 then tlb_lo1 l else tlb_lo0 l)"


lemma pair_idx:
  assumes "drop_bit 13 vb = drop_bit 13 va"
  shows "pgd_idx vb = pgd_idx va"
    and "pte_idx vb = (if bit va 12 = bit vb 12 then pte_idx va else if bit va 12 then pte_idx va - 1 else pte_idx va + 1)"
proof -
  have "drop_bit 22 v = drop_bit 9 (drop_bit 13 v)" for v :: u32 by simp
  then show "pgd_idx vb = pgd_idx va" using assms unfolding pgd_idx_def by metis
  have half: "pte_idx v div 2 = unat (take_bit 9 (drop_bit 13 v))" for v
  proof -
    have "drop_bit 1 (take_bit 10 (page_no v)) = take_bit 9 (drop_bit 13 v)"
      by (rule bit_word_eqI) (auto simp: page_no_def bit_simps)
    then show ?thesis using unat_drop_bit_u32 [of 1 "take_bit 10 (page_no v)"] by (simp add: pte_idx_eq)
  qed
  have d: "pte_idx vb div 2 = pte_idx va div 2" unfolding half assms ..
  let ?x = "pte_idx vb" and ?y = "pte_idx va"
  show "?x = (if bit va 12 = bit vb 12 then ?y else if bit va 12 then ?y - 1 else ?y + 1)"
  proof (cases "odd ?x"; cases "odd ?y")
    assume "odd ?x" "\<not> odd ?y"
    then show ?thesis using odd_two_times_div_two_succ [of ?x] even_two_times_div_two [of ?y] d by (simp flip: pte_idx_parity)
  next
    assume "\<not> odd ?x" "odd ?y"
    then show ?thesis using odd_two_times_div_two_nat [of ?y] even_two_times_div_two [of ?x] d by (simp flip: pte_idx_parity)
  next
    assume "odd ?x" "odd ?y"
    then have "?x = ?y" using d by (metis odd_two_times_div_two_succ)
    moreover from this have "bit va 12 = bit vb 12" using pte_idx_parity by metis
    ultimately show ?thesis by simp
  next
    assume "\<not> odd ?x" "\<not> odd ?y"
    then have "?x = ?y" using d by (metis even_two_times_div_two)
    moreover from this have "bit va 12 = bit vb 12" using pte_idx_parity by metis
    ultimately show ?thesis by simp
  qed
qed

lemma refill_line:
  assumes mm: "mm_current s \<noteq> 0" "pgd = mm_pgd (mms s (mm_current s))" and va: "va = cp0_badvaddr s"
    and t: "pgds s pgd (pgd_idx va) \<noteq> 0" and v: "lo_V (tlb_entry (pt_view s pgd va))"
    and i: "i = unat (if random then cp0_random s else cp0_index s) mod 32"
  obtains l where "tlb_refill_raw ops random s = Some (s\<lparr>cp0_entrylo0 := tlb_lo0 l, cp0_entrylo1 := tlb_lo1 l, tlb := (tlb s)(i := l)\<rparr>)"
    "tlb_hi l = cp0_entryhi (cpu s)"
    "\<And>vb. drop_bit 13 vb = drop_bit 13 va \<Longrightarrow> tlb_half vb l = tlb_entry (pt_view s pgd vb)"
proof -
  let ?t = "pgds s pgd (pgd_idx va)"
  define l where "l = \<lparr>tlb_lo0 = tlb_entry (ptes s ?t (if bit va 12 then pte_idx va - 1 else pte_idx va)),
    tlb_lo1 = tlb_entry (ptes s ?t (if bit va 12 then pte_idx va else pte_idx va + 1)), tlb_hi = cp0_entryhi (cpu s)\<rparr>"
  have "tlb_half vb l = tlb_entry (pt_view s pgd vb)" if "drop_bit 13 vb = drop_bit 13 va" for vb
    using pair_idx [OF that] t by (simp add: tlb_half_def l_def pt_view_def Let_def)
  moreover have "tlb_refill_raw ops random s =
      Some (s\<lparr>cp0_entrylo0 := tlb_lo0 l, cp0_entrylo1 := tlb_lo1 l, tlb := (tlb s)(i := l)\<rparr>)"
    using v t get_pte_hit [OF t] mm va
    by (auto simp: tlb_refill_raw_def lo1_bit pte_is_valid_def the_pte_def pt_view_def get_pte_tlb_entry_def l_def i
        tlbwr_def tlbwi_def tlb_write_def Let_def)
  ultimately show thesis using that [of l] by (simp add: l_def)
qed

section \<open>Attaching shared memory\<close>

lemma lo_fields:
  "lo_PFN (set_lo_V a (set_lo_D b (set_lo_G c (set_lo_PFN p e)))) = take_bit 24 p"
  "lo_V (set_lo_V a e) = a"
proof -
  show "lo_V (set_lo_V a e) = a" by (simp add: lo_V_def set_lo_V_def set_bit_to_def bit_simps)
  show "lo_PFN (set_lo_V a (set_lo_D b (set_lo_G c (set_lo_PFN p e)))) = take_bit 24 p"
    by (rule bit_word_eqI)
      (auto simp: lo_PFN_def set_lo_V_def set_lo_D_def set_lo_G_def set_bit_to_def set_lo_PFN_def bit_simps)
qed


section \<open>The frames of an address space\<close>

text \<open>
  \<open>aspace s R mm ps\<close>: the heap has the regions \<open>R\<close> in use, and the FIFO of the address space \<open>mm\<close>
  lists the pages \<open>ps\<close>, which are allocated and on no other list.
\<close>

definition aspace :: "'z vm_scheme \<Rightarrow> region set \<Rightarrow> u32 \<Rightarrow> nat list \<Rightarrow> bool" where
  "aspace s R mm ps \<longleftrightarrow> (\<exists>f A. kheap s f A \<and>
     (\<forall>i<KMEM_CACHE_NUM. object_size (kmem_caches s i) = kmem_cache_size ! i) \<and>
     R = obj_region ` kobjs s f A \<union> blk_region ` kblocks s A \<and>
     family dll (links s) (insert (Fifo mm) (kheads (slab_pages s A))) (f(Fifo mm := map PageNode ps)) \<and>
     (\<forall>p\<in>set ps. \<exists>k. (p, k) \<in> A \<and> used_info (pages s p) = BUDDY_ALLOCED))"

lemma aspace_heap: "aspace s R mm ps \<Longrightarrow> heap s R"
  by (auto simp: aspace_def heap_def)

lemma family_cong: "family R h H f \<Longrightarrow> H' \<subseteq> H \<Longrightarrow> (\<And>l. l \<in> H' \<Longrightarrow> f' l = f l) \<Longrightarrow> family R h H' f'"
  unfolding family_def by (metis subsetD)

lemma fifo_not_head [simp]: "Fifo mm \<notin> kheads P" "Fifo mm \<notin> range FreeArea"
  by (auto simp: kheads_def cache_lists_def)

lemma kinv_full:
  assumes K: "kheap s f A" and F: "family dll (links s) (insert (Fifo mm) (kheads (slab_pages s A))) (f(Fifo mm := map PageNode ps))"
    and ps: "\<forall>p\<in>set ps. \<exists>k. (p, k) \<in> A \<and> used_info (pages s p) = BUDDY_ALLOCED"
  shows "buddy_full s (insert (Fifo mm) (kheads (slab_pages s A))) (f(Fifo mm := map PageNode ps)) A"
  using kinvD(1) [OF K [unfolded kheap_def]] F
proof (rule buddy_full_frame)
  fix l x assume "l \<in> insert (Fifo mm) (kheads (slab_pages s A))" "PageNode x \<in> set ((f(Fifo mm := map PageNode ps)) l)"
  then show "(\<exists>k. (x, k) \<in> A) \<or> (\<exists>l'\<in>kheads (slab_pages s A). PageNode x \<in> set (f l'))"
    using ps by (auto split: if_splits)
qed (use kheads_areas [of "slab_pages s A"] in auto)

lemma kinv_part:
  assumes B: "buddy_full s (insert (Fifo mm) (kheads P)) f A" and f: "\<And>l. l \<noteq> Fifo mm \<Longrightarrow> f' l = f l"
  shows "buddy_full s (kheads P) f' A"
proof -
  obtain C where C: "buddy_inv s (insert (Fifo mm) (kheads P)) f C" using B by (auto simp: buddy_full_def)
  have F: "family dll (links s) (kheads P) f'"
    using bcoreD(3) [OF C [unfolded buddy_inv_def]] by (rule family_cong) (auto intro: f)
  have e: "f' l = f l" if "l \<in> kheads P" for l using that by (intro f) auto
  show ?thesis
    by (rule buddy_full_frame [OF B F]) (use e kheads_areas [of P] in \<open>auto intro: f\<close>)
qed

text \<open>A fresh page joins the FIFO; its page descriptor gets the virtual address.\<close>

lemma alloc_one_page_eq:
  "alloc_one_page s = (case alloc_pages_raw s 0 BUDDY_ALLOCED of
     (s', Some p) \<Rightarrow> (s', get_page_paddr p) | (s', None) \<Rightarrow> (s', 0))"
proof -
  have "unat PAGE_SIZE = 4096" by (simp add: os_const)
  moreover have "level_loop 1 0 1 = 0" by (simp add: level_loop.simps)
  ultimately show ?thesis
    using alloc_pages_eq [of PAGE_SIZE s] by (simp add: alloc_one_page_def)
qed

definition take_page :: "u32 \<Rightarrow> u32 \<Rightarrow> nat \<Rightarrow> 'z vm_scheme \<Rightarrow> 'z vm_scheme" where
  "take_page mm va p s =
     upd_links (list_add_tail (PageNode p) (Fifo mm)) (upd_page p (\<lambda>pg. pg\<lparr>virt := va\<rparr>) s)"

lemma take_page_aspace:
  assumes S: "aspace s R mm ps" and r: "alloc_pages_raw s 0 BUDDY_ALLOCED = (t, Some p)"
  shows "aspace (take_page mm va p t) (insert (blk_region (p, 0)) R) mm (ps @ [p]) \<and> blk_region (p, 0) \<notin> R \<and>
    p \<in> {0<..<2 ^ 17} \<and> (\<exists>g h. t = s\<lparr>pages := g, links := h\<rparr>)"
proof -
  obtain f A where K: "kheap s f A" and sz: "\<forall>i<KMEM_CACHE_NUM. object_size (kmem_caches s i) = kmem_cache_size ! i"
    and R: "R = obj_region ` kobjs s f A \<union> blk_region ` kblocks s A"
    and F: "family dll (links s) (insert (Fifo mm) (kheads (slab_pages s A))) (f(Fifo mm := map PageNode ps))"
    and ps: "\<forall>p\<in>set ps. \<exists>k. (p, k) \<in> A \<and> used_info (pages s p) = BUDDY_ALLOCED"
    using S by (auto simp: aspace_def)
  let ?P = "slab_pages s A"
  let ?H = "insert (Fifo mm) (kheads ?P)" and ?A = "insert (p, 0) A" and ?f = "f(Fifo mm := map PageNode ps)"
  have ty: "BUDDY_ALLOCED \<noteq> BUDDY_FREE" by simp
  obtain B where B: "buddy_inv s ?H ?f B" "coalesced s B" "A = allocd s B"
    using kinv_full [OF K F ps] by (auto simp: buddy_full_def)
  obtain g h f1 B1 where
    t: "t = s\<lparr>pages := g(p := (g p)\<lparr>bplevel := 0, used_info := BUDDY_ALLOCED, virt := 0, cachep := None\<rparr>), links := h\<rparr>"
    and B1: "buddy_inv t ?H f1 B1" "coalesced t B1" "allocd t B1 = ?A" and f1: "same_lists ?f f1"
    and un: "unlisted (PageNode p) ?H f1"
    using alloc_pages_raw_Some [OF B(1,2) ty r] B(3) by metis
  have rep: "buddy_rep s ?H ?f A" using B unfolding buddy_rep_def by (metis same_lists_refl)
  have pA: "(p, j) \<notin> A" for j
    using rep_alloc_Some(4) [OF rep ty r, of "(p, j)"] blk_start [of p j] blk_start [of p 0] by blast
  let ?u = "take_page mm va p t"
  have pu: "pages ?u q = pages s q" if "(q, j) \<in> A" for q j
    using rep_alloc_Some(3) [OF rep ty r] that pA
    by (auto simp: page_unchanged_def take_page_def upd_links_def upd_page_def)
  have pp: "used_info (pages ?u p) = BUDDY_ALLOCED" by (simp add: t take_page_def upd_links_def upd_page_def)
  have sp: "slab_pages ?u ?A = ?P" using pu pp by (auto simp: slab_pages_def)
  have fF: "f1 (Fifo mm) = map PageNode ps" using f1 fifo_not_head(2) unfolding same_lists_def by (metis fun_upd_same)
  define f2 where "f2 = f1(Fifo mm := map PageNode (ps @ [p]))"
  have nH: "PageNode p \<notin> ?H" using kheads_areas(2) [of ?P] by blast
  have "family dll (list_add_tail (PageNode p) (Fifo mm) (links t)) ?H f2"
    using kl.family_add_tail [OF bcoreD(3) [OF B1(1) [unfolded buddy_inv_def]], of "Fifo mm" "PageNode p"] nH un
    by (simp add: f2_def unlisted_def fF)
  then have F2: "family dll (links ?u) ?H f2" by (simp add: take_page_def upd_links_def upd_page_def)
  have fr: "buddy_full ?u ?H f2 ?A"
  proof (rule buddy_full_frame [OF _ F2])
    show "buddy_full t ?H f1 ?A" using B1 by (auto simp: buddy_full_def)
    show "(\<exists>k. (x, k) \<in> ?A) \<or> (\<exists>l'\<in>?H. PageNode x \<in> set (f1 l'))" if "l \<in> ?H" "PageNode x \<in> set (f2 l)" for l x
      using that ps by (auto simp: f2_def split: if_splits)
  qed (use kheads_areas [of ?P] in \<open>auto simp: f2_def take_page_def upd_links_def upd_page_def\<close>)
  define f3 where "f3 = f2(Fifo mm := f (Fifo mm))"
  have full: "buddy_full ?u (kheads ?P) f3 ?A" by (rule kinv_part [OF fr]) (simp add: f3_def)
  have same: "same_lists f f3" using f1 by (auto simp: same_lists_def f3_def f2_def)
  have u: "?u = s\<lparr>pages := pages ?u, links := links ?u\<rparr>" by (simp add: t take_page_def upd_links_def upd_page_def)
  have gq: "pages ?u q = pages s q" if "q \<in> ?P" for q using pu [of q 0] that by (simp add: slab_pages_def)
  note C = kinv_buddy [OF K [unfolded kheap_def] sp full same u gq]
  have pl: "page_list ?u q = page_list s q" if "q \<in> ?P" for q using page_list_buddy [OF u gq [OF that]] .
  have Ku: "kheap ?u f3 ?A"
    unfolding kheap_def by (subst kinv_cong [where pl' = "page_list s"]) (use C(1) sp pl in auto)
  have bl: "kblocks ?u ?A = insert (p, 0) (kblocks s A)" using pu pp by (auto simp: kblocks_def)
  have cs: "kmem_caches ?u = kmem_caches s" by (subst u) simp
  have f3: "f3(Fifo mm := map PageNode (ps @ [p])) = f2" by (simp add: f3_def f2_def)
  have "aspace ?u (insert (blk_region (p, 0)) R) mm (ps @ [p])"
    unfolding aspace_def
    by (intro exI [of _ f3] exI [of _ ?A] conjI)
      (use Ku sz cs R C(2) bl sp F2 f3 ps pu pp in \<open>auto simp del: map_append\<close>)
  moreover have "blk_region (p, 0) \<notin> R"
  proof -
    have "blk_region (p, 0) \<noteq> blk_region b" if "b \<in> A" for b
      using blk_bound(4) [OF Ku, of p 0] blk_bound(4) [OF K, of "fst b" "snd b"] that pA [of "snd b"]
      by (auto simp: blk_region_def)
    moreover have "blk_region (p, 0) \<noteq> obj_region o'" if "o' \<in> kobjs s f A" for o'
      using obj_ne_blk [OF Ku, of o' "(p, 0)"] C(2) bl that by auto
    ultimately show ?thesis unfolding R kblocks_def by blast
  qed
  moreover have "p \<in> {0<..<2 ^ 17}" using blk_bound(2,3) [OF Ku, of p 0] by simp
  ultimately show ?thesis using t by blast
qed


lemma fifo_init:
  fixes mm :: u32
  assumes K: "kheap s f A"
  defines "u \<equiv> upd_links (INIT_LIST_HEAD (Fifo mm)) s"
  shows "kheap u f A" "kobjs u f A = kobjs s f A" "slab_pages u A = slab_pages s A" "kblocks u A = kblocks s A"
    "family dll (links u) (insert (Fifo mm) (kheads (slab_pages s A))) (f(Fifo mm := []))"
proof -
  have u: "u = s\<lparr>pages := pages s, links := links u\<rparr>" by (simp add: upd_links_def u_def)
  show e: "slab_pages u A = slab_pages s A" by (simp add: slab_pages_def upd_links_def u_def)
  show "kblocks u A = kblocks s A" by (simp add: kblocks_def upd_links_def u_def)
  have n: "\<forall>l\<in>kheads (slab_pages s A). Fifo mm \<notin> set (f l)"
    using kinv_nodes [OF K [unfolded kheap_def]] by fastforce
  note F0 = kinvD(4) [OF K [unfolded kheap_def]]
  show "family dll (links u) (insert (Fifo mm) (kheads (slab_pages s A))) (f(Fifo mm := []))"
    using kl.family_init_new [OF F0 _ n] by (simp add: upd_links_def u_def)
  have F1: "family dll (links u) (kheads (slab_pages s A)) f"
    using kl.family_init_frame [OF F0 _ n] by (simp add: upd_links_def u_def)
  have "buddy_full u (kheads (slab_pages s A)) f A"
    by (rule buddy_full_frame [OF kinvD(1) [OF K [unfolded kheap_def]] F1])
      (use kheads_areas [of "slab_pages s A"] in \<open>auto simp: upd_links_def u_def\<close>)
  note C = kinv_buddy [OF K [unfolded kheap_def] e this same_lists_refl u refl]
  have pl: "page_list u q = page_list s q" for q using page_list_buddy [OF u refl] .
  show "kheap u f A"
    unfolding kheap_def by (subst kinv_cong [where pl' = "page_list s"]) (use C(1) pl in auto)
  show "kobjs u f A = kobjs s f A" by (rule C(2))
qed

lemma aspace_init:
  assumes "heap s R"
  shows "aspace (upd_links (INIT_LIST_HEAD (Fifo mm)) s) R mm []"
proof -
  obtain f A where K: "kheap s f A" and sz: "\<forall>i<KMEM_CACHE_NUM. object_size (kmem_caches s i) = kmem_cache_size ! i"
    and R: "R = obj_region ` kobjs s f A \<union> blk_region ` kblocks s A"
    using assms by (auto simp: heap_def)
  have "kmem_caches (upd_links (INIT_LIST_HEAD (Fifo mm)) s) = kmem_caches s" by (simp add: upd_links_def)
  then show ?thesis
    unfolding aspace_def by (intro exI [of _ f] exI [of _ A]) (use fifo_init [OF K, of mm] sz R in auto)
qed

lemma alloc_one_page_ok:
  assumes K: "kheap s f A" and q: "q \<in> zone s" "\<And>b. b \<in> A \<Longrightarrow> q \<notin> blk b"
  shows "snd (alloc_one_page s) \<noteq> 0"
proof -
  have "blk b \<inter> blk (q, 0) = {}" if "b \<in> A" for b using q(2) [OF that] by (auto simp: blk_def [of "(q, 0)"])
  then obtain t p where r: "alloc_pages_raw s 0 BUDDY_ALLOCED = (t, Some p)"
    using rep_alloc_None [OF kheap_rep [OF K], of 0 q BUDDY_ALLOCED] q(1) by (auto simp: blk_def)
  obtain f' where "kheap t f' (insert (p, 0) A)" by (rule alloc_block_use [OF K r]) (rule that; assumption)
  then have "0 < p" "p < 2 ^ 17" using blk_bound(2,3) [of t f' "insert (p, 0) A" p 0] by auto
  then have "get_page_paddr p \<noteq> 0" using page_paddr(1) [of p] by auto
  then show ?thesis using r by (simp add: alloc_one_page_eq)
qed

lemma aspace_vm [simp]:
  "aspace (s\<lparr>pgds := x\<rparr>) R mm ps = aspace s R mm ps" "aspace (s\<lparr>ptes := y\<rparr>) R mm ps = aspace s R mm ps"
  "aspace (s\<lparr>mms := z\<rparr>) R mm ps = aspace s R mm ps" "aspace (s\<lparr>mm_current := m\<rparr>) R mm ps = aspace s R mm ps"
  by (simp_all add: aspace_def kheap_def kinv_def kobjs_def kblocks_def page_objs_def page_list_def [abs_def] slab_pages_def
      buddy_full_def buddy_inv_def bcore_def coalesced_def allocd_def zone_def zone_ok_def Let_def)

lemma frame_lo:
  assumes "p < 2 ^ 17"
  shows "push_bit PAGE_SHIFT (lo_PFN (push_bit 6 (drop_bit PAGE_SHIFT (get_page_paddr p)) OR 0x1f)) = get_page_paddr p"
    "lo_V (push_bit 6 x OR 0x1f)"
proof -
  have f: "(0x1f :: u32) = mask 5" by (simp add: mask_eq_exp_minus_1)
  show "lo_V (push_bit 6 x OR 0x1f)" unfolding f by (simp add: lo_V_def bit_simps)
  have "unat (get_page_paddr p) < 2 ^ 29" using page_paddr(1) [of p] assms by simp
  then have "get_page_paddr p = take_bit 29 (get_page_paddr p)" by (simp add: word_unat_eq_iff unat_take_bit_u32)
  then have hi: "n < 29" if "bit (get_page_paddr p) n" for n using that bit_take_bit_iff [of 29 "get_page_paddr p" n] by metis
  have lo: "12 \<le> n" if "bit (get_page_paddr p) n" for n
    using that by (auto simp: get_page_paddr_def PAGE_SHIFT_def bit_simps)
  show "push_bit PAGE_SHIFT (lo_PFN (push_bit 6 (drop_bit PAGE_SHIFT (get_page_paddr p)) OR 0x1f)) = get_page_paddr p"
    unfolding f
    by (rule bit_word_eqI) (use hi lo in \<open>force simp: lo_PFN_def PAGE_SHIFT_def bit_simps\<close>)
qed


lemma do_pagefault_frame:
  assumes S: "aspace s R mm ps" and W: "pt_wf s R pgd"
    and mm: "mm = mm_current s" "mm \<noteq> 0" "pgd = mm_pgd (mms s mm)"
    and t: "pgds s pgd (pgd_idx va) \<noteq> 0" and n: "pf_num (mms s mm) < (if page_fault_debug s then 3 else MAX_PFN_PER_PROCESS)"
    and a: "alloc_one_page s = (s1, paddr)" "paddr \<noteq> 0"
  shows "\<exists>s' p lo. do_pagefault ops va s = Some s' \<and> aspace s' (insert (unat (vaddr p), 4096) R) mm (ps @ [p]) \<and>
    (unat (vaddr p), 4096) \<notin> R \<and> paddr = get_page_paddr p \<and> virt (pages s' p) = va \<and>
    pf_num (mms s' mm) = pf_num (mms s mm) + 1 \<and> lo_V lo \<and> push_bit PAGE_SHIFT (lo_PFN lo) = paddr \<and>
    (\<forall>vb. pt_view s' pgd vb = (if page_no vb = page_no va then (pt_view s pgd va)\<lparr>tlb_entry := lo\<rparr> else pt_view s pgd vb))"
proof -
  let ?q = "(pgds s pgd (pgd_idx va), pte_idx va)"
  obtain p where r: "alloc_pages_raw s 0 BUDDY_ALLOCED = (s1, Some p)" "paddr = get_page_paddr p"
    using a unfolding alloc_one_page_eq by (auto split: prod.splits option.splits)
  note T = take_page_aspace [OF S r(1), of va]
  then obtain g h where s1: "s1 = s\<lparr>pages := g, links := h\<rparr>" by blast
  have p: "p < 2 ^ 17" using T by simp
  have g: "get_page_by_paddr paddr = p" using page_paddr(2) [of p] p r(2) by simp
  let ?u = "take_page mm va p s1"
  let ?v = "?u\<lparr>mms := (mms ?u)(mm := (mms ?u mm)\<lparr>pf_num := pf_num (mms ?u mm) + 1\<rparr>)\<rparr>"
  let ?lo = "push_bit 6 (drop_bit PAGE_SHIFT paddr) OR 0x1f"
  have u: "pgds ?v = pgds s" "ptes ?v = ptes s" "mms ?u = mms s" "virt (pages ?v p) = va"
    by (simp_all add: take_page_def upd_links_def upd_page_def s1)
  have "do_pagefault ops va s = Some (set_pte_tlb_entry ?q ?lo ?v)"
    unfolding do_pagefault_def Let_def mm(1) [symmetric] mm(3) [symmetric] get_pte_hit [OF t] option.case prod.case
    using n a mm(2) by (simp add: find_vma_def g take_page_def Let_def)
  moreover have "pt_wf ?v (insert (unat (vaddr p), 4096) R) pgd"
  proof -
    have "heap ?v (insert (unat (vaddr p), 4096) R)" using aspace_heap [OF T [THEN conjunct1]] by (simp add: blk_region_def)
    then show ?thesis using W u(1) unfolding pt_wf_def by auto
  qed
  note V = upd_pte_view [OF this, of ?q va]
  have pv: "pt_view ?v pgd vb = pt_view s pgd vb" for vb unfolding pt_view_def u(1,2) ..
  have "\<forall>vb. pt_view (set_pte_tlb_entry ?q ?lo ?v) pgd vb =
      (if page_no vb = page_no va then (pt_view s pgd va)\<lparr>tlb_entry := ?lo\<rparr> else pt_view s pgd vb)"
    unfolding set_pte_tlb_entry_def pv [symmetric] using V(1) t unfolding u(1) by blast
  moreover have "aspace (set_pte_tlb_entry ?q ?lo ?v) (insert (unat (vaddr p), 4096) R) mm (ps @ [p])"
    using T by (simp add: set_pte_tlb_entry_def upd_pte_def blk_region_def)
  ultimately show ?thesis
    using T frame_lo [OF p] r(2) u
    by (intro exI [of _ "set_pte_tlb_entry ?q ?lo ?v"] exI [of _ p] exI [of _ ?lo])
      (auto simp: set_pte_tlb_entry_def upd_pte_def blk_region_def)
qed

text \<open>
  \<open>create_mm_struct\<close> returns an address space with an empty page table, no frames and an empty
  FIFO, in memory that overlaps nothing else in use.
\<close>

lemma create_mm_struct_empty:
  assumes "heap s R" and "create_mm_struct asid s = Some (s', mm)"
  shows "\<exists>R'. R \<subseteq> R' \<and> aspace s' R' mm [] \<and> pt_wf s' R' (mm_pgd (mms s' mm)) \<and> mm_asid (mms s' mm) = asid \<and>
    pf_num (mms s' mm) = 0 \<and> (\<forall>va. pt_view s' (mm_pgd (mms s' mm)) va = \<lparr>tlb_entry = 0, pte_info = 0\<rparr>)"
proof -
  obtain s1 m where k1: "kmalloc sizeof_mm_struct s = (s1, m)" by fastforce
  obtain s2 d where k2: "kmalloc 4096 s1 = (s2, d)" by fastforce
  have r: "m \<noteq> 0" "d \<noteq> 0" "mm = m"
    "s' = upd_links (INIT_LIST_HEAD (Fifo m)) (s2\<lparr>pgds := (pgds s2)(d := \<lambda>_. 0),
       mms := (mms s2)(m := \<lparr>mm_pgd = d, mm_asid = asid, pf_num = 0\<rparr>)\<rparr>)"
    using assms(2) k1 k2 by (auto simp: create_mm_struct_def create_pt_def PGD_NUM_def Let_def split: if_splits option.splits)
  obtain n1 where n1: "heap s1 (insert (unat m, n1) R)"
    using km.alloc_region [OF assms(1) _ k1 r(1)] by (auto simp: sizeof_mm_struct_def)
  obtain n2 where n2: "heap s2 (insert (unat d, n2) (insert (unat m, n1) R))"
    using km.alloc_region [OF n1 _ k2 r(2)] by auto
  let ?R = "insert (unat d, n2) (insert (unat m, n1) R)"
  have "aspace s' ?R mm []" unfolding r(3,4) by (rule aspace_init) (use n2 in simp)
  moreover from this have "pt_wf s' ?R (mm_pgd (mms s' mm))"
    using aspace_heap by (auto simp: pt_wf_def r(3,4) upd_links_def)
  ultimately show ?thesis
    by (intro exI [of _ ?R]) (auto simp: r(3,4) upd_links_def pt_view_def)
qed

lemma create_mm_struct_ok:
  assumes "room s R 2"
  obtains s' mm pgd n m where "create_mm_struct asid s = Some (s', mm)" "mm \<noteq> 0"
    "(unat mm, m) \<notin> R" "(unat pgd, n) \<notin> insert (unat mm, m) R" "unat sizeof_mm_struct \<le> m" "4 * PGD_NUM \<le> n"
    "aspace s' (insert (unat pgd, n) (insert (unat mm, m) R)) mm []"
    "mms s' = (mms s)(mm := \<lparr>mm_pgd = pgd, mm_asid = asid, pf_num = 0\<rparr>)" "\<And>i. pgds s' pgd i = 0" "vm.more s' = vm.more s"
proof -
  obtain s1 mm m where 1: "kmalloc sizeof_mm_struct s = (s1, mm)" "mm \<noteq> 0" "unat sizeof_mm_struct \<le> m"
    "room s1 (insert (unat mm, m) R) (Suc 0)" "(unat mm, m) \<notin> R"
    by (rule kmalloc_page [OF assms [unfolded numeral_2_eq_2], of sizeof_mm_struct]) (simp_all add: sizeof_mm_struct_def)
  let ?R = "insert (unat mm, m) R"
  obtain s2 d n where 2: "kmalloc (4 * of_nat PGD_NUM) s1 = (s2, d)" "d \<noteq> 0" "4 * PGD_NUM \<le> n"
    "room s2 (insert (unat d, n) ?R) 0" "(unat d, n) \<notin> ?R"
    by (rule kmalloc_page [OF 1(4), of "4 * of_nat PGD_NUM"]) (simp_all add: PGD_NUM_def)
  define s' where "s' = upd_links (INIT_LIST_HEAD (Fifo mm)) (s2\<lparr>pgds := (pgds s2)(d := \<lambda>_. 0),
       mms := (mms s2)(mm := \<lparr>mm_pgd = d, mm_asid = asid, pf_num = 0\<rparr>)\<rparr>)"
  have r: "create_mm_struct asid s = Some (s', mm)"
    using 1(1,2) 2(1,2) by (simp add: create_mm_struct_def create_pt_def s'_def)
  have "aspace s' (insert (unat d, n) ?R) mm []"
    unfolding s'_def by (rule aspace_init) (use room_heap [OF 2(4)] in simp)
  moreover have "slab.more s2 = slab.more s"
    using kmalloc_more [of sizeof_mm_struct s] kmalloc_more [of "4 * of_nat PGD_NUM" s1] 1(1) 2(1) by simp
  then have "mms s2 = mms s" "vm.more s2 = vm.more s" by (cases s, cases s2, simp)+
  ultimately show thesis
    using that [OF r 1(2,5) 2(5) 1(3) 2(3)] by (simp add: s'_def upd_links_def)
qed

section \<open>A concrete address space\<close>

definition demo_vm :: vm where
  "demo_vm = slab.extend demo_heap
     \<lparr>mms = \<lambda>_. \<lparr>mm_pgd = 0x1000, mm_asid = 5, pf_num = 0\<rparr>, pgds = \<lambda>_ _. 0,
      ptes = \<lambda>_ _. \<lparr>tlb_entry = 0, pte_info = 0\<rparr>, mm_current = 0x4000, page_fault_debug = False,
      tlb = \<lambda>_. \<lparr>tlb_lo0 = 0, tlb_lo1 = 0, tlb_hi = 0\<rparr>, cp0_index = 0, cp0_random = 7,
      cp0_entrylo0 = 0, cp0_entrylo1 = 0, cp0_badvaddr = 0x08001234,
      page_pool = \<lparr>pool_page_num = 0, pool_next_free = 1, pool_entry = \<lambda>_. 0, pool_block = \<lambda>_. 0\<rparr>,
      shm_pool = (\<lambda>_. 0)(2 := 0x9000), shms = \<lambda>_. \<lparr>pfn_start = 100, pfn_num = 2, shm_count = 0\<rparr>\<rparr>"

definition demo_ops :: "vm file_ops" where
  "demo_ops = \<lparr>op_open = \<lambda>_ _ s. (s, 1), op_seek = \<lambda>_ _ _ s. s, op_write = \<lambda>_ _ _ s. s,
     op_read = \<lambda>_ _ _ s. s, op_close = \<lambda>_ s. s\<rparr>"

lemma slab_extend:
  "kheap (slab.extend s x) f A = kheap s f A" "heap (slab.extend s x) R = heap s R" "zone (slab.extend s x) = zone s"
  by (simp_all add: heap_def kheap_def kinv_def kobjs_def kblocks_def page_objs_def page_list_def [abs_def] slab_pages_def
      buddy_full_def buddy_inv_def bcore_def coalesced_def allocd_def zone_def zone_ok_def Let_def slab.defs)


lemma demo_vm_heap: "heap demo_vm {}" "zone demo_vm = {16..<32}" "\<exists>f. kheap demo_vm f {}"
proof -
  have z: "zone zone16 \<subseteq> {0<..<2 ^ 17}" using zone16_rep(2) by auto
  then show "zone demo_vm = {16..<32}" "\<exists>f. kheap demo_vm f {}"
    using init_slab_kheap [of "buddy.extend zone16 _"] zone16_rep
    unfolding demo_vm_def demo_heap_def by (simp_all add: buddy_extend slab_extend)
  show "heap demo_vm {}" unfolding demo_vm_def using demo_heap_heap by (simp add: slab_extend)
qed

text \<open>The state after the second-level table for the faulting address has been allocated.\<close>

lemma demo_table:
  obtains s :: vm and t R where "heap s R" "pt_wf s R 0x1000" "aspace s R 0x4000 []" "mm_current s = 0x4000"
    "mms s = mms demo_vm" "pgds s 0x1000 (pgd_idx 0x08001234) = t" "t \<noteq> 0" "pt_view s 0x1000 0x08001234 = \<lparr>tlb_entry = 0, pte_info = 0\<rparr>"
    "page_fault_debug s = False" "snd (alloc_one_page s) \<noteq> 0" "shm_pool s = shm_pool demo_vm" "shms s = shms demo_vm"
proof -
  obtain f where K: "kheap demo_vm f {}" using demo_vm_heap(3) by blast
  have "1 \<le> MAX_BUDDY_ORDER" by (simp add: os_const)
  then obtain s1 f1 p j where k: "kmalloc 8192 demo_vm = (s1, vaddr p)" "vaddr p \<noteq> 0" "kheap s1 f1 {(p, j)}"
    "zone s1 = {16..<32}" "j \<le> 1"
    by (rule_tac kmalloc_block_ok [OF K, of 8192 1 16]) (use demo_vm_heap(2) in \<open>auto simp: blk_def\<close>)
  obtain n where n: "8192 \<le> n" "heap s1 {(unat (vaddr p), n)}"
    using km.alloc_region [OF demo_vm_heap(1) _ k(1,2)] by auto
  note fr = vm_of_slab_more [OF kmalloc_more [of 8192 demo_vm, unfolded k(1) fst_conv]]
  define s2 where "s2 = upd_links (INIT_LIST_HEAD (Fifo 0x4000)) s1"
  define s where "s = s2\<lparr>pgds := (pgds s2)(0x1000 := (\<lambda>_. 0)(pgd_idx 0x08001234 := vaddr p))\<rparr>"
  have f2: "pgds s2 = pgds demo_vm" "mms s2 = mms demo_vm" "ptes s2 = ptes demo_vm" "mm_current s2 = mm_current demo_vm"
    "page_fault_debug s2 = page_fault_debug demo_vm" "zone s2 = {16..<32}" "shm_pool s2 = shm_pool demo_vm"
    "shms s2 = shms demo_vm"
    using fr k(4) by (simp_all add: s2_def upd_links_def zone_def)
  have S: "aspace s {(unat (vaddr p), n)} 0x4000 []" using aspace_init [OF n(2)] by (simp add: s_def s2_def)
  then have H: "heap s {(unat (vaddr p), n)}" by (rule aspace_heap)
  have W: "pt_wf s {(unat (vaddr p), n)} 0x1000" using H n(1) by (auto simp: pt_wf_def s_def split: if_splits)
  have V: "pt_view s 0x1000 0x08001234 = \<lparr>tlb_entry = 0, pte_info = 0\<rparr>"
    by (simp add: pt_view_def s_def f2 demo_vm_def slab.defs Let_def)
  have P: "snd (alloc_one_page s) \<noteq> 0"
  proof (rule alloc_one_page_ok [of s f1 "{(p, j)}" "if p < 18 then 20 else 16"])
    have "kheap s2 f1 {(p, j)}" using fifo_init(1) [OF k(3)] by (simp add: s2_def)
    then show "kheap s f1 {(p, j)}" by (simp add: s_def)
    show "(if p < 18 then 20 else 16) \<in> zone s" using f2(6) by (simp add: s_def zone_def)
    have "(2 :: nat) ^ j \<le> 2 ^ 1" by (rule power_increasing) (use k(5) in auto)
    then show "(if p < 18 then 20 else 16) \<notin> blk b" if "b \<in> {(p, j)}" for b using that by (auto simp: blk_def)
  qed
  show thesis
    by (rule that [OF H W S _ _ refl _ V _ P]) (use k(2) f2 in \<open>auto simp: s_def demo_vm_def slab.defs\<close>)
qed

section \<open>Properties\<close>

text \<open>
  C13.  A two-level page table implements a map from page numbers to entries.  \<open>get_pte\<close>, which
  allocates the second-level table at the first access, does not change the map; the pointer it
  returns is the entry of the page of the address, and a write through it changes the map at that
  page and at no other.
\<close>

theorem page_table_refines_map:
  assumes "pt_wf s R pgd" and "get_pte pgd va s = Some (s', q)"
  shows "(\<exists>R'. R \<subseteq> R' \<and> pt_wf s' R' pgd) \<and> pt_view s' pgd vb = pt_view s pgd vb \<and>
    the_pte s' q = pt_view s pgd va \<and>
    pt_view (upd_pte q g s') pgd vb = (if page_no vb = page_no va then g (pt_view s pgd va) else pt_view s pgd vb)"
proof -
  note G = get_pte_correct [OF assms]
  obtain R' where "R \<subseteq> R'" "pt_wf s' R' pgd" using G(1) by blast
  with upd_pte_view [OF this(2) G(3,4)] G(2) show ?thesis by auto
qed

theorem page_table_refines_map_witness:
  "\<exists>s' q. get_pte 0x1000 0x08001234 demo_vm = Some (s', q) \<and> tlb_entry (the_pte s' q) = 0 \<and>
     tlb_entry (pt_view (upd_pte q (\<lambda>e. e\<lparr>tlb_entry := 7\<rparr>) s') 0x1000 0x08001000) = 7 \<and>
     tlb_entry (pt_view (upd_pte q (\<lambda>e. e\<lparr>tlb_entry := 7\<rparr>) s') 0x1000 0x08002000) = 0"
proof -
  obtain f where K: "kheap demo_vm f {}" using demo_vm_heap(3) by blast
  have "1 \<le> MAX_BUDDY_ORDER" by (simp add: os_const)
  then obtain s1 p where k: "kmalloc 8192 demo_vm = (s1, vaddr p)" "vaddr p \<noteq> 0"
    by (rule_tac kmalloc_block_ok [OF K, of 8192 1 16]) (use demo_vm_heap(2) in \<open>auto simp: blk_def\<close>)
  have z: "pgds demo_vm = (\<lambda>_ _. 0)" by (simp add: demo_vm_def slab.defs)
  have "get_pte 0x1000 0x08001234 demo_vm \<noteq> None"
    using k z by (simp add: get_pte_def PTE_NUM_def Let_def)
  then obtain s' q where g: "get_pte 0x1000 0x08001234 demo_vm = Some (s', q)" by auto
  have W: "pt_wf demo_vm {} 0x1000" using demo_vm_heap(1) z by (simp add: pt_wf_def)
  have v: "pt_view demo_vm 0x1000 vb = \<lparr>tlb_entry = 0, pte_info = 0\<rparr>" for vb by (simp add: pt_view_def z)
  have "page_no 0x08001000 = page_no 0x08001234" "page_no 0x08002000 \<noteq> page_no 0x08001234" by code_simp+
  then show ?thesis
    using page_table_refines_map [OF W g, where g = "\<lambda>e. e\<lparr>tlb_entry := 7\<rparr>" and vb = "0x08001000"]
      page_table_refines_map [OF W g, where g = "\<lambda>e. e\<lparr>tlb_entry := 7\<rparr>" and vb = "0x08002000"] g v
    by auto
qed

text \<open>
  C14.  A page fault with a free page frame maps the faulting page, and only that page, to a fresh
  frame with a valid entry, notes the virtual address in the page descriptor, appends the frame to
  the FIFO of the address space and counts it; the kernel heap stays well formed.
\<close>

theorem do_pagefault_maps:
  assumes "aspace s R mm ps" and "pt_wf s R pgd" and "mm = mm_current s" and "mm \<noteq> 0" and "pgd = mm_pgd (mms s mm)"
    and "pgds s pgd (pgd_idx va) \<noteq> 0" and "pf_num (mms s mm) < (if page_fault_debug s then 3 else MAX_PFN_PER_PROCESS)"
    and "alloc_one_page s = (s1, paddr)" and "paddr \<noteq> 0"
  shows "\<exists>s' p lo. do_pagefault ops va s = Some s' \<and> aspace s' (insert (unat (vaddr p), 4096) R) mm (ps @ [p]) \<and>
    (unat (vaddr p), 4096) \<notin> R \<and> paddr = get_page_paddr p \<and> virt (pages s' p) = va \<and>
    pf_num (mms s' mm) = pf_num (mms s mm) + 1 \<and> lo_V lo \<and> push_bit PAGE_SHIFT (lo_PFN lo) = paddr \<and>
    (\<forall>vb. pt_view s' pgd vb = (if page_no vb = page_no va then (pt_view s pgd va)\<lparr>tlb_entry := lo\<rparr> else pt_view s pgd vb))"
  by (rule do_pagefault_frame [OF assms])

theorem do_pagefault_maps_witness:
  "\<exists>(s :: vm) s' R p. do_pagefault demo_ops 0x08001234 s = Some s' \<and> aspace s' R 0x4000 [p] \<and>
     lo_V (tlb_entry (pt_view s' 0x1000 0x08001000))"
proof (rule demo_table)
  fix s :: vm and t R assume D: "heap s R" "pt_wf s R 0x1000" "aspace s R 0x4000 []" "mm_current s = 0x4000"
    "mms s = mms demo_vm" "pgds s 0x1000 (pgd_idx 0x08001234) = t" "t \<noteq> 0" "page_fault_debug s = False"
    "snd (alloc_one_page s) \<noteq> 0"
  obtain s1 paddr where a: "alloc_one_page s = (s1, paddr)" by fastforce
  have m: "mms s 0x4000 = \<lparr>mm_pgd = 0x1000, mm_asid = 5, pf_num = 0\<rparr>" using D(5) by (simp add: demo_vm_def slab.defs)
  have n: "0 < MAX_PFN_PER_PROCESS" by code_simp
  have e: "page_no 0x08001000 = page_no 0x08001234" by code_simp
  obtain s' p lo where r: "do_pagefault demo_ops 0x08001234 s = Some s'"
    "aspace s' (insert (unat (vaddr p), 4096) R) 0x4000 [p]" "lo_V lo"
    "\<forall>vb. pt_view s' 0x1000 vb = (if page_no vb = page_no 0x08001234 then (pt_view s 0x1000 0x08001234)\<lparr>tlb_entry := lo\<rparr>
      else pt_view s 0x1000 vb)"
    using do_pagefault_maps [OF D(3,2) _ _ _ _ _ a, where va = "0x08001234" and ops = demo_ops] D m n a by auto
  have "lo_V (tlb_entry (pt_view s' 0x1000 0x08001000))" using r(3,4) e by simp
  with r(1,2) show ?thesis by blast
qed

text \<open>
  C15.  A TLB refill for an address whose page is valid writes one line of the TLB: the line
  matches the EntryHi of the miss, its two halves are the page table entries of the even and the
  odd page of the pair that contains the address, and every other line is as before.
\<close>

theorem tlb_refill_serves:
  assumes "mm_current s \<noteq> 0" and "pgd = mm_pgd (mms s (mm_current s))" and "va = cp0_badvaddr s"
    and "pgds s pgd (pgd_idx va) \<noteq> 0" and "lo_V (tlb_entry (pt_view s pgd va))"
    and "i = unat (if random then cp0_random s else cp0_index s) mod 32"
  shows "\<exists>s'. tlb_refill_raw ops random s = Some s' \<and> tlb_match (cp0_entryhi (cpu s)) (tlb s' i) \<and>
    (\<forall>vb. drop_bit 13 vb = drop_bit 13 va \<longrightarrow> tlb_half vb (tlb s' i) = tlb_entry (pt_view s pgd vb)) \<and>
    (\<forall>j. j \<noteq> i \<longrightarrow> tlb s' j = tlb s j)"
proof -
  obtain l where "tlb_refill_raw ops random s = Some (s\<lparr>cp0_entrylo0 := tlb_lo0 l, cp0_entrylo1 := tlb_lo1 l, tlb := (tlb s)(i := l)\<rparr>)"
    "tlb_hi l = cp0_entryhi (cpu s)"
    "\<And>vb. drop_bit 13 vb = drop_bit 13 va \<Longrightarrow> tlb_half vb l = tlb_entry (pt_view s pgd vb)"
    by (rule refill_line [OF assms]) (rule that; assumption)
  then show ?thesis by (auto simp: tlb_match_def)
qed

definition demo_tlb :: vm where
  "demo_tlb = demo_vm\<lparr>pgds := \<lambda>_ _. 0x6000, ptes := \<lambda>_ i. \<lparr>tlb_entry = of_nat i * 64 + 3, pte_info = 0\<rparr>\<rparr>"

theorem tlb_refill_serves_witness:
  "\<exists>s'. tlb_refill_raw demo_ops True demo_tlb = Some s' \<and> tlb_half 0x08000000 (tlb s' 7) = 3 \<and>
     tlb_half 0x08001000 (tlb s' 7) = 0x43 \<and> tlb s' 8 = tlb demo_tlb 8"
proof -
  have f: "mm_current demo_tlb = 0x4000" "mm_pgd (mms demo_tlb 0x4000) = 0x1000" "cp0_badvaddr demo_tlb = 0x08001234"
    "cp0_random demo_tlb = 7" "pgds demo_tlb = (\<lambda>_ _. 0x6000)"
    by (simp_all add: demo_tlb_def demo_vm_def slab.defs)
  have i: "pte_idx 0x08001234 = 1" "pte_idx 0x08000000 = 0" "pte_idx 0x08001000 = 1"
    "drop_bit 13 (0x08000000 :: u32) = drop_bit 13 0x08001234" "drop_bit 13 (0x08001000 :: u32) = drop_bit 13 0x08001234"
    by code_simp+
  have v: "tlb_entry (pt_view demo_tlb 0x1000 va) = of_nat (pte_idx va) * 64 + 3" for va
    by (simp add: pt_view_def demo_tlb_def)
  have "lo_V 0x43" by code_simp
  then show ?thesis
    using tlb_refill_serves [of demo_tlb "0x1000" "0x08001234" 7 True demo_ops] f v i by auto
qed

definition keeps_pool :: "'z vm_scheme file_ops \<Rightarrow> bool" where
  "keeps_pool ops \<longleftrightarrow> (\<forall>path m f w n s. page_pool (fst (op_open ops path m s)) = page_pool s \<and>
     page_pool (op_seek ops f w n s) = page_pool s \<and> page_pool (op_write ops f w n s) = page_pool s \<and>
     page_pool (op_close ops f s) = page_pool s)"

lemma write_page_pool:
  assumes "keeps_pool ops"
  shows "page_pool (fst (write_page_to_disk ops va bn s)) =
      (if bn = 0 then fst (alloc_block (page_pool s)) else page_pool s)"
    "snd (write_page_to_disk ops va bn s) = (if bn = 0 then snd (alloc_block (page_pool s)) else bn)"
  using assms by (simp_all add: write_page_to_disk_def keeps_pool_def Let_def case_prod_beta)

text \<open>
  The swap pool hands out block numbers that are not in use: a page that has no block gets
  a block that no other page holds, a page that has one keeps it.  The file operations are only
  required not to touch the pool.
\<close>

theorem swap_block_fresh:
  assumes "keeps_pool ops" and "pool_rep (page_pool s) U" and "pool_page_num (page_pool s) < MACHINE_PAGE_NUM"
    and "write_page_to_disk ops va bn s = (s', b)"
  shows "if bn = 0 then b \<noteq> 0 \<and> b \<notin> U \<and> pool_rep (page_pool s') (insert b U)
    else b = bn \<and> page_pool s' = page_pool s"
proof -
  obtain p b' where p: "alloc_block (page_pool s) = (p, b')" by fastforce
  have "page_pool s' = (if bn = 0 then p else page_pool s) \<and> b = (if bn = 0 then b' else bn)"
    using write_page_pool [OF assms(1), of va bn s] assms(4) p by simp
  then show ?thesis using alloc_block_rep [OF assms(2,3) p] by simp
qed

theorem swap_block_fresh_witness:
  "\<exists>s' b. write_page_to_disk demo_ops 0x08001000 0 demo_vm = (s', b) \<and> b \<noteq> 0 \<and> pool_rep (page_pool s') {b}"
proof -
  obtain s' b where r: "write_page_to_disk demo_ops 0x08001000 0 demo_vm = (s', b)" by fastforce
  have p: "page_pool demo_vm = \<lparr>pool_page_num = 0, pool_next_free = 1, pool_entry = \<lambda>_. 0, pool_block = \<lambda>_. 0\<rparr>"
    by (simp add: demo_vm_def slab.defs)
  have "keeps_pool demo_ops" by (simp add: keeps_pool_def demo_ops_def)
  moreover have "pool_rep (page_pool demo_vm) {}" unfolding pool_rep_def p by (intro exI [of _ "[]"]) auto
  moreover have "pool_page_num (page_pool demo_vm) < MACHINE_PAGE_NUM" unfolding p by code_simp
  ultimately show ?thesis using swap_block_fresh [OF _ _ _ r, of "{}"] r by auto
qed


text \<open>
  \<open>shmat\<close> advances its address by \<open>i * PAGE_SIZE\<close> after page \<open>i\<close>, so by nothing after the
  first one: attaching a region of two pages leaves the first virtual page mapped to the second
  frame and the second virtual page not mapped at all.
\<close>

theorem shmat_two_pages:
  assumes "pt_wf s R pgd" and "mm_current s \<noteq> 0" and "pgd = mm_pgd (mms s (mm_current s))"
    and "0 \<le> shmid" and "shmid < int MAX_SHM_NUM" and "shm = shm_pool s (nat shmid)" and "shm \<noteq> 0"
    and "pfn_num (shms s shm) = 2" and "pgds s pgd (pgd_idx (lower_align va 4096)) \<noteq> 0"
  shows "\<exists>s'. shmat shmid va s = Some s' \<and>
    lo_PFN (tlb_entry (pt_view s' pgd (lower_align va 4096))) = take_bit 24 (pfn_start (shms s shm) + 1) \<and>
    (\<forall>vb. page_no vb \<noteq> page_no (lower_align va 4096) \<longrightarrow> pt_view s' pgd vb = pt_view s pgd vb)"
proof -
  let ?p = "lower_align va 4096" and ?G = "\<lambda>i e. e\<lparr>tlb_entry := set_lo_V True (set_lo_D True (set_lo_G False
                    (set_lo_PFN (pfn_start (shms s shm) + i) (tlb_entry e))))\<rparr>"
  let ?q = "(pgds s pgd (pgd_idx ?p), pte_idx ?p)"
  define s1 where "s1 = upd_pte ?q (?G 0) s"
  define s2 where "s2 = upd_pte ?q (?G 1) s1"
  have fr: "mm_current s1 = mm_current s" "mms s1 = mms s" "pgds s1 = pgds s" "shms s1 = shms s" "pgds s2 = pgds s" "shms s2 = shms s"
    by (simp_all add: s1_def s2_def upd_pte_def)
  have g1: "get_pte pgd ?p s = Some (s, ?q)" "get_pte pgd ?p s1 = Some (s1, ?q)"
    using get_pte_hit [OF assms(9)] get_pte_hit [of s1 pgd ?p] assms(9) fr by simp_all
  have "shmat_loop 2 0 shm ?p s = Some s2"
    using g1 assms(2,3) fr by (simp add: numeral_2_eq_2 s2_def s1_def Let_def del: One_nat_def)
  then have r: "shmat shmid va s = Some (s2\<lparr>shms := (shms s)(shm := (shms s shm)\<lparr>shm_count := shm_count (shms s shm) + 1\<rparr>)\<rparr>)"
    using assms(4-8) fr by (simp add: shmat_def PAGE_SHIFT_def Let_def)
  note V1 = upd_pte_view(1,2) [OF assms(1) refl assms(9), where g = "?G 0", folded s1_def]
  note V2 = upd_pte_view(1) [OF V1(2), of ?q ?p "?G 1", folded s2_def]
  have view: "pt_view (s2\<lparr>shms := x\<rparr>) pgd vb = pt_view s2 pgd vb" for x vb by (simp add: pt_view_def Let_def)
  show ?thesis
    using V1(1) V2 assms(9) fr by (simp add: r view lo_fields)
qed

theorem shmat_two_pages_witness:
  "\<exists>(s :: vm) s'. shmat 2 0x08001234 s = Some s' \<and> pfn_start (shms s (shm_pool s 2)) = 100 \<and>
     lo_PFN (tlb_entry (pt_view s' 0x1000 0x08001000)) = 101 \<and>
     pt_view s' 0x1000 0x08002000 = pt_view s 0x1000 0x08002000"
proof (rule demo_table)
  fix s :: vm and t R assume D: "pt_wf s R 0x1000" "mm_current s = 0x4000" "mms s = mms demo_vm"
    "pgds s 0x1000 (pgd_idx 0x08001234) = t" "t \<noteq> 0" "shm_pool s = shm_pool demo_vm" "shms s = shms demo_vm"
  have m: "mms s 0x4000 = \<lparr>mm_pgd = 0x1000, mm_asid = 5, pf_num = 0\<rparr>" "shm_pool s 2 = 0x9000"
    "shms s 0x9000 = \<lparr>pfn_start = 100, pfn_num = 2, shm_count = 0\<rparr>"
    using D by (simp_all add: demo_vm_def slab.defs)
  have e: "lower_align 0x08001234 4096 = 0x08001000" "pgd_idx 0x08001000 = pgd_idx 0x08001234"
    "page_no 0x08002000 \<noteq> page_no 0x08001000" "take_bit 24 (101 :: u32) = 101" by code_simp+
  obtain s' where "shmat 2 0x08001234 s = Some s'" "lo_PFN (tlb_entry (pt_view s' 0x1000 0x08001000)) = 101"
    "pt_view s' 0x1000 0x08002000 = pt_view s 0x1000 0x08002000"
    using shmat_two_pages [OF D(1), where shmid = 2 and va = "0x08001234" and shm = "0x9000"] D(2,4,5) m e
    by (auto simp: MAX_SHM_NUM_def)
  then show ?thesis using m by (intro exI [of _ s] exI [of _ s']) simp
qed

end
