(* ===== verification/Process.thy ===== *)
theory Process
  imports Vm
begin

text \<open>
  Processes: the pid bitmap, the task lists, signals, the scheduler, process creation and exit and
  the semaphores of \<^verbatim>\<open>src/kernel/pc/pc.c\<close>.

  A task is known by the address of its descriptor, which \<open>kmalloc\<close> hands out together with the
  kernel stack; the state maps addresses to descriptors.  Each descriptor holds two list nodes,
  \<open>node\<close> at offset 164 and \<open>node_shedule\<close> at offset 172, and \<open>container_of\<close> subtracts the offset
  of the field it is given: applied to the other node of the same task it yields an address 8 bytes
  off, at which the model has a descriptor of its own, unrelated to the task.  \<open>None\<close> is a loop that
  does not end or an access the memory does not allow (a null pointer, an array bound).
\<close>

section \<open>Data\<close>

datatype task_state = PREPARING | RUNNING | INTERRUPTIBLE | STOPPED | ZOMBIE
datatype task_mode = USER | KERNEL

definition SIGSTOP :: u32 where "SIGSTOP = 1"
definition SIGCHILD :: u32 where "SIGCHILD = 2"
definition SIGWAIT :: u32 where "SIGWAIT = 4"
definition SIGRESERVE :: u32 where "SIGRESERVE = 8"

definition KERNEL_STACK_SIZE :: u32 where "KERNEL_STACK_SIZE = 4096"
definition TASK_NAME_MAX :: nat where "TASK_NAME_MAX = 16"
definition PID_STATUS_SIZE :: nat where "PID_STATUS_SIZE = 32"
definition SEM_MAX :: nat where "SEM_MAX = 16"

lemmas pc_consts [os_const] = SIGSTOP_def SIGCHILD_def SIGWAIT_def SIGRESERVE_def KERNEL_STACK_SIZE_def
  TASK_NAME_MAX_def PID_STATUS_SIZE_def SEM_MAX_def

record task_struct =
  t_pid :: u32
  t_parent :: u32
  t_status :: task_state
  t_name :: "u8 list"
  t_context :: regs_context
  t_mm :: u32
  t_fs :: u32
  t_signals :: u32
  t_handler :: u32

datatype thead = TaskList | TaskWaitList | TaskExitList | TaskScheduleList

datatype tnode = Head thead | TNode u32 | SNode u32

record semaphore =
  sem_key :: u32
  sem_value :: u32

record pc = vm +
  current :: u32
  tlinks :: "tnode lheap"
  tasks :: "u32 \<Rightarrow> task_struct"
  head_at :: "thead \<Rightarrow> u32"
  pid_status :: "u8 list"
  sems :: "semaphore list"

definition offset_node :: u32 where "offset_node = 164"
definition offset_node_shedule :: u32 where "offset_node_shedule = 172"

fun tnode_addr :: "'z pc_scheme \<Rightarrow> tnode \<Rightarrow> u32" where
  "tnode_addr s (Head h) = head_at s h"
| "tnode_addr s (TNode t) = t + offset_node"
| "tnode_addr s (SNode t) = t + offset_node_shedule"

definition task_of_node :: "'z pc_scheme \<Rightarrow> tnode \<Rightarrow> u32" where
  "task_of_node s n = tnode_addr s n - offset_node"

definition task_of_shedule :: "'z pc_scheme \<Rightarrow> tnode \<Rightarrow> u32" where
  "task_of_shedule s n = tnode_addr s n - offset_node_shedule"

definition upd_task :: "u32 \<Rightarrow> (task_struct \<Rightarrow> task_struct) \<Rightarrow> 'z pc_scheme \<Rightarrow> 'z pc_scheme" where
  "upd_task t g s = s\<lparr>tasks := (tasks s)(t := g (tasks s t))\<rparr>"

definition upd_tlinks :: "(tnode lheap \<Rightarrow> tnode lheap) \<Rightarrow> 'z pc_scheme \<Rightarrow> 'z pc_scheme" where
  "upd_tlinks g s = s\<lparr>tlinks := g (tlinks s)\<rparr>"

section \<open>Task lists\<close>

definition task_list_init :: "'a \<Rightarrow> 'a lheap \<Rightarrow> 'a lheap" where
  "task_list_init n h = set_next n n (set_prev n n h)"

definition task_list_add :: "'a \<Rightarrow> 'a \<Rightarrow> 'a lheap \<Rightarrow> 'a lheap" where
  "task_list_add l n h =
     (let nxt = l; prv = prev h l;
          h = set_prev nxt n h;
          h = set_next n nxt h;
          h = set_prev n prv h
      in set_next prv n h)"

definition task_list_delete :: "'a \<Rightarrow> 'a lheap \<Rightarrow> 'a lheap" where
  "task_list_delete n h =
     (let h = set_next (prev h n) (next h n) h
      in set_prev (next h n) (prev h n) h)"

definition find_task :: "'z pc_scheme \<Rightarrow> tnode \<Rightarrow> u32" where
  "find_task s n = task_of_node s n"

definition find_next_task :: "'z pc_scheme \<Rightarrow> u32" where
  "find_next_task s = find_task s (next (tlinks s) (Head TaskScheduleList))"

partial_function (option) find_pid_loop :: "'z pc_scheme \<Rightarrow> tnode \<Rightarrow> u32 \<Rightarrow> tnode \<Rightarrow> u32 option" where
  "find_pid_loop s head pid n =
     (if n = head then Some 0
      else let task = task_of_node s n in
           if t_pid (tasks s task) = pid then Some task
           else find_pid_loop s head pid (next (tlinks s) n))"

definition find_task_pid :: "'z pc_scheme \<Rightarrow> tnode \<Rightarrow> u32 \<Rightarrow> u32 option" where
  "find_task_pid s head pid = find_pid_loop s head pid (next (tlinks s) head)"

section \<open>Process numbers\<close>

text \<open>The column of the lowest clear bit; the loop of the source runs at most eight times.\<close>

primrec low_zero :: "nat \<Rightarrow> u8 \<Rightarrow> nat \<Rightarrow> nat" where
  "low_zero 0 tmp j = j"
| "low_zero (Suc n) tmp j = (if tmp mod 2 \<noteq> 0 then low_zero n (tmp div 2) (j + 1) else j)"

primrec pid_scan :: "nat \<Rightarrow> nat \<Rightarrow> u8 list \<Rightarrow> (u8 list \<times> u32)" where
  "pid_scan 0 i ps = (ps, - 1)"
| "pid_scan (Suc n) i ps =
     (if ps ! i \<noteq> 0xff
      then let j = low_zero 8 (ps ! i) 0
           in (ps[i := ps ! i OR push_bit j 1], of_nat (i * 8 + j))
      else pid_scan n (i + 1) ps)"

definition pid_alloc :: "'z pc_scheme \<Rightarrow> 'z pc_scheme \<times> u32" where
  "pid_alloc s = (let (ps, pid) = pid_scan PID_STATUS_SIZE 0 (pid_status s) in (s\<lparr>pid_status := ps\<rparr>, pid))"

definition pid_delete :: "u32 \<Rightarrow> 'z pc_scheme \<Rightarrow> 'z pc_scheme option" where
  "pid_delete pid s =
     (let index = unat (pid div 8); offset = unat (pid mod 8) in
      if index < PID_STATUS_SIZE
      then Some (s\<lparr>pid_status := (pid_status s)[index := pid_status s ! index OR NOT (push_bit offset 1)]\<rparr>)
      else None)"

section \<open>Contexts and address spaces\<close>

definition copy_context :: "regs_context \<Rightarrow> regs_context \<Rightarrow> regs_context" where
  "copy_context src dst = dst\<lparr>r_epc := r_epc src, r_at := r_at src, r_v0 := r_v0 src, r_v1 := r_v1 src,
     r_a0 := r_a0 src, r_a1 := r_a1 src, r_a2 := r_a2 src, r_a3 := r_a3 src,
     r_t0 := r_t0 src, r_t1 := r_t1 src, r_t2 := r_t2 src, r_t3 := r_t3 src,
     r_t4 := r_t4 src, r_t5 := r_t5 src, r_t6 := r_t6 src, r_t7 := r_t7 src,
     r_s0 := r_s0 src, r_s1 := r_s1 src, r_s2 := r_s2 src, r_s3 := r_s3 src,
     r_s4 := r_s4 src, r_s5 := r_s5 src, r_s6 := r_s6 src, r_s7 := r_s7 src,
     r_t8 := r_t8 src, r_t9 := r_t9 src, r_hi := r_hi src, r_lo := r_lo src,
     r_gp := r_gp src, r_sp := r_sp src, r_fp := r_fp src, r_ra := r_ra src\<rparr>"

definition activateMemory :: "u32 \<Rightarrow> 'z vm_scheme \<Rightarrow> 'z vm_scheme" where
  "activateMemory mm s =
     (let asid = (if mm \<noteq> 0 then mm_asid (mms s mm) else 0);
          s = set_entryhi ((asid AND 0xff) OR (cp0_entryhi (cpu s) AND 0xffffff00)) s
      in s\<lparr>mm_current := mm\<rparr>)"

section \<open>Creating processes\<close>

definition zero_context :: regs_context where
  "zero_context = \<lparr>r_epc = 0, r_at = 0, r_v0 = 0, r_v1 = 0, r_a0 = 0, r_a1 = 0, r_a2 = 0, r_a3 = 0,
     r_t0 = 0, r_t1 = 0, r_t2 = 0, r_t3 = 0, r_t4 = 0, r_t5 = 0, r_t6 = 0, r_t7 = 0,
     r_s0 = 0, r_s1 = 0, r_s2 = 0, r_s3 = 0, r_s4 = 0, r_s5 = 0, r_s6 = 0, r_s7 = 0,
     r_t8 = 0, r_t9 = 0, r_hi = 0, r_lo = 0, r_gp = 0, r_sp = 0, r_fp = 0, r_ra = 0\<rparr>"

text \<open>\<open>kernel_strcpy\<close> into the name field: a name that does not fit writes past the field.\<close>

definition set_name :: "u32 \<Rightarrow> u8 list \<Rightarrow> 'z pc_scheme \<Rightarrow> 'z pc_scheme option" where
  "set_name t name s =
     (if length name < TASK_NAME_MAX
      then Some (upd_task t (\<lambda>d. d\<lparr>t_name := name @ 0 # drop (length name + 1) (t_name d)\<rparr>) s)
      else None)"

definition task_link :: "u32 \<Rightarrow> 'z pc_scheme \<Rightarrow> 'z pc_scheme" where
  "task_link t s =
     (let s = upd_tlinks (task_list_add (Head TaskList) (TNode t)) s;
          s = upd_tlinks (task_list_add (Head TaskScheduleList) (SNode t)) s
      in upd_task t (\<lambda>d. d\<lparr>t_status := RUNNING\<rparr>) s)"

definition task_create ::
    "u32 \<Rightarrow> u8 list \<Rightarrow> u32 \<Rightarrow> u32 \<Rightarrow> u32 \<Rightarrow> task_mode \<Rightarrow> 'z pc_scheme \<Rightarrow> ('z pc_scheme \<times> u32) option" where
  "task_create gp name entry argc argv mode s =
     (let (s, pid) = pid_alloc s in
      if pid = - 1 then Some (s, pid)
      else let (s, t) = kmalloc KERNEL_STACK_SIZE s in
        if t = 0 then None
        else let s = upd_task t (\<lambda>d. d\<lparr>t_pid := pid, t_parent := t_pid (tasks s (current s)), t_status := PREPARING\<rparr>) s
             in case set_name t name s of
               None \<Rightarrow> None
             | Some s \<Rightarrow>
                 let s = upd_task t (\<lambda>d. d\<lparr>t_context := zero_context\<lparr>r_epc := entry, r_sp := t + KERNEL_STACK_SIZE,
                           r_gp := gp, r_a0 := argc, r_a1 := argv\<rparr>, t_signals := 0\<rparr>) s;
                     r = (if mode = KERNEL then Some (s, 0) else create_mm_struct (t_pid (tasks s t)) s)
                 in case r of
                      None \<Rightarrow> None
                    | Some (s, mm) \<Rightarrow>
                        let s = upd_task t (\<lambda>d. d\<lparr>t_mm := mm, t_fs := 0\<rparr>) s
                        in Some (task_link t s, pid))"

definition task_create_user ::
    "u32 \<Rightarrow> u32 \<Rightarrow> u8 list \<Rightarrow> u32 \<Rightarrow> u32 \<Rightarrow> 'z pc_scheme \<Rightarrow> ('z pc_scheme \<times> u32) option" where
  "task_create_user gp pid name epc mm s =
     (if pid = - 1 then Some (s, pid)
      else let (s, t) = kmalloc KERNEL_STACK_SIZE s in
        if t = 0 then None
        else let s = upd_task t (\<lambda>d. d\<lparr>t_pid := pid, t_parent := t_pid (tasks s (current s)), t_status := PREPARING\<rparr>) s
             in case set_name t name s of
               None \<Rightarrow> None
             | Some s \<Rightarrow>
                 let s = upd_task t (\<lambda>d. d\<lparr>t_context := zero_context\<lparr>r_epc := epc, r_sp := t + KERNEL_STACK_SIZE,
                           r_gp := gp\<rparr>, t_signals := 0, t_mm := mm, t_fs := 0\<rparr>) s
                 in Some (task_link t s, pid))"

definition init_pc :: "u32 \<Rightarrow> 'z pc_scheme \<Rightarrow> 'z pc_scheme" where
  "init_pc kernel_sp s =
     (let s = init_shm_pool s;
          s = upd_tlinks (task_list_init (Head TaskList)) s;
          s = upd_tlinks (task_list_init (Head TaskWaitList)) s;
          s = upd_tlinks (task_list_init (Head TaskExitList)) s;
          s = upd_tlinks (task_list_init (Head TaskScheduleList)) s;
          idle = kernel_sp - KERNEL_STACK_SIZE;
          s = upd_task idle (\<lambda>d. d\<lparr>t_pid := 0, t_parent := 0, t_status := PREPARING,
                t_name := [105, 100, 108, 101, 0] @ drop 5 (t_name d)\<rparr>) s;
          s = s\<lparr>pid_status := (pid_status s)[0 := 1]\<rparr>;
          s = upd_task idle (\<lambda>d. d\<lparr>t_fs := 0, t_signals := 0, t_mm := 0, t_status := RUNNING\<rparr>) s;
          s = s\<lparr>current := idle\<rparr>;
          s = upd_tlinks (task_list_add (Head TaskList) (TNode idle)) s;
          s = upd_tlinks (task_list_add (Head TaskScheduleList) (SNode idle)) s
      in s\<lparr>cpu := (cpu s)\<lparr>cp0_compare := 1000000, cp0_count := 0\<rparr>\<rparr>)"

section \<open>Signals\<close>

definition kill :: "u32 \<Rightarrow> u32 \<Rightarrow> 'z pc_scheme \<Rightarrow> 'z pc_scheme option" where
  "kill pid sig s =
     (case find_task_pid s (Head TaskList) pid of
        None \<Rightarrow> None
      | Some task \<Rightarrow>
          if task \<noteq> 0 then Some (upd_task task (\<lambda>d. d\<lparr>t_signals := t_signals d OR sig\<rparr>) s)
          else case find_task_pid s (Head TaskWaitList) pid of
            None \<Rightarrow> None
          | Some task \<Rightarrow>
              if task = 0 then None
              else let s = upd_task task (\<lambda>d. d\<lparr>t_signals := t_signals d OR sig\<rparr>) s;
                       s = upd_tlinks (task_list_delete (SNode task)) s
                   in Some (upd_tlinks (task_list_add (Head TaskScheduleList) (SNode task)) s))"

definition sigHandler :: "u32 \<Rightarrow> u32 \<Rightarrow> 'z pc_scheme \<Rightarrow> 'z pc_scheme option" where
  "sigHandler sig handler s =
     (case find_task_pid s (Head TaskList) (t_pid (tasks s (current s))) of
        None \<Rightarrow> None
      | Some task \<Rightarrow>
          if sig = SIGRESERVE
          then if task = 0 then None else Some (upd_task task (\<lambda>d. d\<lparr>t_handler := handler\<rparr>) s)
          else Some s)"

definition wakeup :: "'z pc_scheme \<Rightarrow> 'z pc_scheme option" where
  "wakeup s = kill (t_parent (tasks s (current s))) SIGCHILD s"

text \<open>
  \<open>waitpid\<close> up to its waiting loop, which the current task leaves once the scheduler has set
  another state: \<open>waitpid_done\<close>.
\<close>

definition waitpid :: "'z pc_scheme \<Rightarrow> 'z pc_scheme" where
  "waitpid s =
     (let s = upd_tlinks (task_list_delete (SNode (current s))) s;
          s = upd_tlinks (task_list_add (Head TaskWaitList) (SNode (current s))) s;
          s = upd_task (current s) (\<lambda>d. d\<lparr>t_status := INTERRUPTIBLE\<rparr>) s
      in s\<lparr>cpu := fst (enable_interrupts (cpu s))\<rparr>)"

definition waitpid_done :: "'z pc_scheme \<Rightarrow> bool" where
  "waitpid_done s \<longleftrightarrow> t_status (tasks s (current s)) \<noteq> INTERRUPTIBLE"

definition task_exit :: "'z pc_scheme \<Rightarrow> 'z pc_scheme option" where
  "task_exit s =
     (let s = upd_task (current s) (\<lambda>d. d\<lparr>t_status := ZOMBIE\<rparr>) s in
      case wakeup s of
        None \<Rightarrow> None
      | Some s \<Rightarrow>
          let s = upd_tlinks (task_list_delete (SNode (current s))) s;
              s = upd_tlinks (task_list_add (Head TaskExitList) (TNode (current s))) s
          in case pid_delete (t_pid (tasks s (current s))) s of
               None \<Rightarrow> None
             | Some s \<Rightarrow> Some (s\<lparr>current := find_next_task s\<rparr>))"

section \<open>The scheduler\<close>

partial_function (option) clearup_loop :: "tnode \<Rightarrow> 'z pc_scheme \<Rightarrow> 'z pc_scheme option" where
  "clearup_loop n s =
     (if n = Head TaskExitList then Some s
      else let task_exit = task_of_shedule s n;
               s = upd_tlinks (task_list_delete n) s;
               s = upd_tlinks (task_list_delete (TNode task_exit)) s
           in clearup_loop n s)"

definition clearup :: "'z pc_scheme \<Rightarrow> 'z pc_scheme option" where
  "clearup s = clearup_loop (next (tlinks s) (Head TaskExitList)) s"

text \<open>A task that got SIGSTOP leaves its list for the exit list and gives up its pid.\<close>

definition stop_task :: "u32 \<Rightarrow> 'z pc_scheme \<Rightarrow> 'z pc_scheme option" where
  "stop_task t s =
     (let s = upd_tlinks (task_list_delete (SNode t)) s;
          s = upd_tlinks (task_list_add (Head TaskExitList) (SNode t)) s
      in case pid_delete (t_pid (tasks s t)) s of
           None \<Rightarrow> None
         | Some s \<Rightarrow> Some (upd_task t (\<lambda>d. d\<lparr>t_signals := t_signals d XOR SIGSTOP\<rparr>) s))"

definition resume_task :: "u32 \<Rightarrow> 'z pc_scheme \<Rightarrow> 'z pc_scheme" where
  "resume_task t s =
     (if t_status (tasks s t) = INTERRUPTIBLE
      then let s = upd_tlinks (task_list_delete (SNode t)) s;
               s = upd_tlinks (task_list_add (Head TaskScheduleList) (SNode t)) s
           in upd_task t (\<lambda>d. d\<lparr>t_status := RUNNING, t_signals := t_signals d XOR SIGCHILD\<rparr>) s
      else s)"

datatype scan = GotoFind | Finded u32

partial_function (option) wait_scan :: "tnode \<Rightarrow> 'z pc_scheme \<Rightarrow> ('z pc_scheme \<times> scan) option" where
  "wait_scan it s =
     (if it = Head TaskWaitList then Some (s, GotoFind)
      else let t = task_of_shedule s it; sg = t_signals (tasks s t) in
           if sg AND SIGSTOP \<noteq> 0 then map_option (\<lambda>s. (s, GotoFind)) (stop_task t s)
           else if sg AND SIGCHILD \<noteq> 0 then Some (resume_task t s, Finded t)
           else wait_scan (next (tlinks s) it) s)"

text \<open>The part behind the label \<open>find\<close>: the task to run and the handler to call, if any.\<close>

partial_function (option) find_loop_pc :: "'z pc_scheme \<Rightarrow> ('z pc_scheme \<times> u32 \<times> u32 option) option" where
  "find_loop_pc s =
     (let t = task_of_shedule s (next (tlinks s) (Head TaskScheduleList)); sg = t_signals (tasks s t) in
      if sg AND SIGSTOP \<noteq> 0
      then (case stop_task t s of None \<Rightarrow> None | Some s \<Rightarrow> find_loop_pc s)
      else if sg AND SIGWAIT \<noteq> 0
      then let s = upd_tlinks (task_list_delete (SNode t)) s;
               s = upd_tlinks (task_list_add (Head TaskWaitList) (SNode t)) s;
               s = upd_task t (\<lambda>d. d\<lparr>t_status := INTERRUPTIBLE, t_signals := t_signals d XOR SIGWAIT\<rparr>) s
           in find_loop_pc s
      else if sg AND SIGCHILD \<noteq> 0 then Some (resume_task t s, t, None)
      else if sg AND SIGRESERVE \<noteq> 0
      then Some (upd_task t (\<lambda>d. d\<lparr>t_signals := t_signals d XOR SIGRESERVE\<rparr>) s, t, Some (t_handler (tasks s t)))
      else Some (s, t, None))"

definition switch_to ::
    "(u32 \<Rightarrow> 'z pc_scheme \<Rightarrow> 'z pc_scheme) \<Rightarrow> regs_context \<Rightarrow> u32 \<Rightarrow> u32 option \<Rightarrow> 'z pc_scheme \<Rightarrow>
     'z pc_scheme \<times> regs_context" where
  "switch_to run ctx t f s =
     (if t \<noteq> current s
      then let s = upd_task (current s) (\<lambda>d. d\<lparr>t_context := copy_context ctx (t_context d)\<rparr>) s;
               s = (if t_mm (tasks s t) \<noteq> 0 then activateMemory (t_mm (tasks s t)) s else s);
               s = s\<lparr>current := t\<rparr>;
               ctx = copy_context (t_context (tasks s t)) ctx;
               s = (case f of Some h \<Rightarrow> run h s | None \<Rightarrow> s)
           in (s, ctx)
      else (s, ctx))"

definition pc_schedule ::
    "(u32 \<Rightarrow> 'z pc_scheme \<Rightarrow> 'z pc_scheme) \<Rightarrow> regs_context \<Rightarrow> 'z pc_scheme \<Rightarrow> ('z pc_scheme \<times> regs_context) option" where
  "pc_schedule run ctx s =
     (case clearup s of
        None \<Rightarrow> None
      | Some s \<Rightarrow>
          let s = (if t_status (tasks s (current s)) = RUNNING
                   then upd_tlinks (task_list_add (Head TaskScheduleList) (SNode (current s)))
                          (upd_tlinks (task_list_delete (SNode (current s))) s)
                   else s)
          in case wait_scan (next (tlinks s) (Head TaskWaitList)) s of
               None \<Rightarrow> None
             | Some (s, r) \<Rightarrow>
                 (case (case r of Finded t \<Rightarrow> Some (s, t, None) | GotoFind \<Rightarrow> find_loop_pc s) of
                    None \<Rightarrow> None
                  | Some (s, t, f) \<Rightarrow>
                      (case switch_to run ctx t f s of (s, ctx) \<Rightarrow>
                        Some (s\<lparr>cpu := (cpu s)\<lparr>cp0_count := 0\<rparr>\<rparr>, ctx))))"

section \<open>Loading a program\<close>

definition loadUserProgram ::
    "(u8 list \<Rightarrow> 'z pc_scheme \<Rightarrow> ('z pc_scheme \<times> u32) option) \<Rightarrow> u32 \<Rightarrow> u8 list \<Rightarrow> 'z pc_scheme \<Rightarrow> 'z pc_scheme option" where
  "loadUserProgram mmap gp fileName s =
     (let (c, old) = disable_interrupts (cpu s);
          (s, pid) = pid_alloc (s\<lparr>cpu := c\<rparr>)
      in case create_mm_struct pid s of
           None \<Rightarrow> None
         | Some (s, mm) \<Rightarrow>
             (case mmap fileName (activateMemory mm s) of
                None \<Rightarrow> None
              | Some (s, epc) \<Rightarrow>
                  let s = activateMemory (t_mm (tasks s (current s))) s in
                  case task_create_user gp pid fileName epc mm s of
                    None \<Rightarrow> None
                  | Some (s, _) \<Rightarrow>
                      let s = s\<lparr>cpu := restore_interrupts old (cpu s)\<rparr>
                      in Some (s\<lparr>cpu := (cpu s)\<lparr>cp0_count := 0\<rparr>\<rparr>)))"

section \<open>Semaphores\<close>

primrec sem_find :: "nat \<Rightarrow> nat \<Rightarrow> u32 \<Rightarrow> semaphore list \<Rightarrow> nat option" where
  "sem_find 0 i key ss = None"
| "sem_find (Suc n) i key ss = (if sem_key (ss ! i) = key then Some i else sem_find n (i + 1) key ss)"

text \<open>With no entry left \<open>getSem\<close> falls off its end and returns no value: \<open>None\<close>.\<close>

definition getSem :: "u32 \<Rightarrow> u32 \<Rightarrow> 'z pc_scheme \<Rightarrow> ('z pc_scheme \<times> nat) option" where
  "getSem key val s =
     (case sem_find SEM_MAX 0 key (sems s) of
        Some i \<Rightarrow> Some (s, i)
      | None \<Rightarrow>
          (case sem_find SEM_MAX 0 0 (sems s) of
             Some i \<Rightarrow> Some (s\<lparr>sems := (sems s)[i := \<lparr>sem_key = key, sem_value = val\<rparr>]\<rparr>, i)
           | None \<Rightarrow> None))"

section \<open>The task lists are the lists of the kernel library\<close>

lemma task_list_library:
  "task_list_init n h = INIT_LIST_HEAD n h"
  "task_list_add l n h = list_add_tail n l h"
  "task_list_delete n h = list_del n h"
  by (simp_all add: task_list_init_def INIT_LIST_HEAD_def task_list_add_def list_add_tail_def list_add_between_def
      task_list_delete_def list_del_def list_del_between_def set_prev_def set_next_def Let_def)

interpretation tl: dlist dll task_list_init "\<lambda>n l. task_list_add l n" task_list_delete
  unfolding task_list_library
  by unfold_locales
    (fact dll_distinct dll_INIT dll_add_tail dll_del dll_INIT_frame dll_add_tail_frame dll_del_frame)+

section \<open>The pid bitmap\<close>

definition pids :: "u8 list \<Rightarrow> nat set" where
  "pids ps = {p. p < 8 * length ps \<and> bit (ps ! (p div 8)) (p mod 8)}"

lemma low_zero_spec:
  "j \<le> low_zero n b j \<and> low_zero n b j \<le> j + n \<and> (\<forall>i < low_zero n b j - j. bit b i) \<and>
   (low_zero n b j < j + n \<longrightarrow> \<not> bit b (low_zero n b j - j))"
proof (induction n arbitrary: b j)
  case (Suc n)
  have b0: "b mod 2 \<noteq> 0 \<longleftrightarrow> bit b 0" by (simp add: bit_0 odd_iff_mod_2_eq_one mod2_eq_if)
  show ?case
  proof (cases "b mod 2 \<noteq> 0")
    case True
    let ?r = "low_zero n (b div 2) (j + 1)"
    have "bit b i" if "i < ?r - j" for i
      using that Suc [of "j + 1" "b div 2"] True b0 by (cases i) (auto simp: bit_Suc)
    moreover have "\<not> bit b (?r - j)" if "?r < j + 1 + n"
    proof -
      have "?r - j = Suc (?r - (j + 1))" using Suc [of "j + 1" "b div 2"] by auto
      then show ?thesis using Suc [of "j + 1" "b div 2"] that by (simp add: bit_Suc)
    qed
    ultimately show ?thesis using Suc [of "j + 1" "b div 2"] True by auto
  next
    case False
    then show ?thesis using b0 by simp
  qed
qed simp

lemma low_zero_byte:
  assumes "b \<noteq> 0xff"
  shows "low_zero 8 b 0 < 8" "\<not> bit b (low_zero 8 b 0)" "i < low_zero 8 b 0 \<Longrightarrow> bit b i"
proof -
  note S = low_zero_spec [of 0 8 b]
  show l: "low_zero 8 b 0 < 8"
  proof (rule ccontr)
    assume "\<not> ?thesis"
    then have "\<forall>i<8. bit b i" using S by auto
    then have "b = - 1" by (intro bit_word_eqI) simp
    with assms show False by simp
  qed
  show "\<not> bit b (low_zero 8 b 0)" "i < low_zero 8 b 0 \<Longrightarrow> bit b i" using S l by auto
qed

lemma bit_pid:
  assumes "i < length ps" "j < 8"
  shows "i * 8 + j \<in> pids ps \<longleftrightarrow> bit (ps ! i) j" "i * 8 + j < 8 * length ps"
proof -
  show l: "i * 8 + j < 8 * length ps" using assms by linarith
  have "(i * 8 + j) div 8 = i" "(i * 8 + j) mod 8 = j" using assms(2) by simp_all
  with l show "i * 8 + j \<in> pids ps \<longleftrightarrow> bit (ps ! i) j" by (simp add: pids_def)
qed

lemma pids_set_bit:
  assumes "i < length ps" "j < 8"
  shows "pids (ps[i := ps ! i OR push_bit j 1]) = insert (i * 8 + j) (pids ps)"
proof (rule set_eqI)
  fix p :: nat
  have e: "p = p div 8 * 8 + p mod 8" "p mod 8 < 8" by simp_all
  show "p \<in> pids (ps[i := ps ! i OR push_bit j 1]) \<longleftrightarrow> p \<in> insert (i * 8 + j) (pids ps)"
  proof (cases "p div 8 < length ps")
    case True
    let ?qs = "ps[i := ps ! i OR push_bit j 1]"
    have "p \<in> pids ?qs \<longleftrightarrow> bit (?qs ! (p div 8)) (p mod 8)" "p \<in> pids ps \<longleftrightarrow> bit (ps ! (p div 8)) (p mod 8)"
      using bit_pid(1) [of "p div 8" ?qs "p mod 8"] bit_pid(1) [of "p div 8" ps "p mod 8"] True by simp_all
    moreover have "bit (?qs ! (p div 8)) (p mod 8) \<longleftrightarrow>
        bit (ps ! (p div 8)) (p mod 8) \<or> (p div 8 = i \<and> p mod 8 = j)"
      using assms True e(2) by (cases "p div 8 = i") (auto simp: bit_simps)
    moreover have "p = i * 8 + j \<longleftrightarrow> p div 8 = i \<and> p mod 8 = j"
      using e(1) assms(2) by auto
    ultimately show ?thesis by auto
  next
    case False
    then have "\<not> p < 8 * length ps" by (simp add: div_less_iff_less_mult mult.commute)
    then show ?thesis using assms bit_pid(2) [OF assms] by (auto simp: pids_def)
  qed
qed

lemma pid_scan_correct:
  assumes "length ps = i + n" and "\<forall>p < i * 8. p \<in> pids ps"
  shows "case pid_scan n i ps of (qs, pid) \<Rightarrow>
    if pids ps = {..<8 * length ps} then qs = ps \<and> pid = - 1
    else \<exists>k. pid = of_nat k \<and> k < 8 * length ps \<and> k \<notin> pids ps \<and> (\<forall>m<k. m \<in> pids ps) \<and>
      length qs = length ps \<and> pids qs = insert k (pids ps)"
  using assms
proof (induction n arbitrary: i)
  case 0
  then have "pids ps = {..<8 * length ps}" by (auto simp: pids_def)
  then show ?case by simp
next
  case (Suc n)
  have i: "i < length ps" using Suc.prems(1) by simp
  show ?case
  proof (cases "ps ! i = 0xff")
    case True
    have "p \<in> pids ps" if "p < (i + 1) * 8" for p
    proof (cases "p < i * 8")
      case False
      have "ps ! i = - 1" using True by simp
      moreover have "p - i * 8 < 8" using that by simp
      ultimately have "bit (ps ! i) (p - i * 8)" by simp
      then show ?thesis using bit_pid(1) [OF i, of "p - i * 8"] that False by simp
    qed (use Suc.prems(2) in simp)
    then show ?thesis using Suc.IH [of "i + 1"] Suc.prems(1) True by simp
  next
    case False
    let ?j = "low_zero 8 (ps ! i) 0"
    note L = low_zero_byte [OF False]
    have k: "i * 8 + ?j \<notin> pids ps" "i * 8 + ?j < 8 * length ps" using bit_pid [OF i L(1)] L(2) by simp_all
    then have "pids ps \<noteq> {..<8 * length ps}" by blast
    moreover have "m \<in> pids ps" if "m < i * 8 + ?j" for m
    proof (cases "m < i * 8")
      case F: False
      then have "bit (ps ! i) (m - i * 8)" using that by (intro L(3)) simp
      then show ?thesis using bit_pid(1) [OF i, of "m - i * 8"] that F L(1) by simp
    qed (use Suc.prems(2) in simp)
    ultimately show ?thesis
      using False k pids_set_bit [OF i L(1)]
      by (simp add: Let_def, intro exI [of _ "i * 8 + ?j"]) (simp add: ac_simps)
  qed
qed


section \<open>Runnable and waiting tasks\<close>

text \<open>
  \<open>task_lists s ts rs ws xs\<close>: the four lists are well formed; \<open>task_list\<close> holds the tasks \<open>ts\<close>, the
  schedule list the tasks \<open>rs\<close>, the wait list the tasks \<open>ws\<close>, the exit list the nodes \<open>xs\<close>.
\<close>

fun list_nodes :: "u32 list \<Rightarrow> u32 list \<Rightarrow> u32 list \<Rightarrow> tnode list \<Rightarrow> tnode \<Rightarrow> tnode list" where
  "list_nodes ts rs ws xs (Head TaskList) = map TNode ts"
| "list_nodes ts rs ws xs (Head TaskScheduleList) = map SNode rs"
| "list_nodes ts rs ws xs (Head TaskWaitList) = map SNode ws"
| "list_nodes ts rs ws xs (Head TaskExitList) = xs"
| "list_nodes ts rs ws xs _ = []"

definition task_lists :: "'z pc_scheme \<Rightarrow> u32 list \<Rightarrow> u32 list \<Rightarrow> u32 list \<Rightarrow> tnode list \<Rightarrow> bool" where
  "task_lists s ts rs ws xs \<longleftrightarrow> family dll (tlinks s) (range Head) (list_nodes ts rs ws xs)"

lemma head_cases: "l \<in> range Head \<longleftrightarrow> l = Head TaskList \<or> l = Head TaskScheduleList \<or> l = Head TaskWaitList \<or> l = Head TaskExitList"
  by (auto intro: thead.exhaust)

lemma task_listsD:
  assumes "task_lists s ts rs ws xs"
  shows "dll (tlinks s) (Head TaskList) (map TNode ts)" "dll (tlinks s) (Head TaskScheduleList) (map SNode rs)"
    "dll (tlinks s) (Head TaskWaitList) (map SNode ws)" "dll (tlinks s) (Head TaskExitList) xs"
    "distinct rs" "distinct ws" "distinct ts" "set rs \<inter> set ws = {}" "set xs \<inter> SNode ` set rs = {}"
proof -
  note F = assms [unfolded task_lists_def]
  show d: "dll (tlinks s) (Head TaskList) (map TNode ts)" "dll (tlinks s) (Head TaskScheduleList) (map SNode rs)"
    "dll (tlinks s) (Head TaskWaitList) (map SNode ws)" "dll (tlinks s) (Head TaskExitList) xs"
    using kl.familyD [OF F, of "Head TaskList"] kl.familyD [OF F, of "Head TaskScheduleList"]
      kl.familyD [OF F, of "Head TaskWaitList"] kl.familyD [OF F, of "Head TaskExitList"] by simp_all
  show "distinct rs" "distinct ws" "distinct ts"
    using dll_distinct [OF d(1)] dll_distinct [OF d(2)] dll_distinct [OF d(3)] by (simp_all add: distinct_map)
  show "set rs \<inter> set ws = {}"
  proof (rule ccontr)
    assume "\<not> ?thesis"
    then obtain x where "SNode x \<in> set (map SNode rs)" "SNode x \<in> set (map SNode ws)" by auto
    with kl.family_owner [OF F, of "Head TaskScheduleList" "Head TaskWaitList" "SNode x"] show False by simp
  qed
  show "set xs \<inter> SNode ` set rs = {}"
    using kl.family_owner [OF F, of "Head TaskExitList" "Head TaskScheduleList"] by auto
qed

lemma task_lists_fields [simp]:
  "task_lists (s\<lparr>tasks := x\<rparr>) ts rs ws xs = task_lists s ts rs ws xs"
  "task_lists (s\<lparr>current := c\<rparr>) ts rs ws xs = task_lists s ts rs ws xs"
  "task_lists (s\<lparr>cpu := d\<rparr>) ts rs ws xs = task_lists s ts rs ws xs"
  "task_lists (upd_task t g s) ts rs ws xs = task_lists s ts rs ws xs"
  by (simp_all add: task_lists_def upd_task_def)

lemma task_of [simp]: "task_of_shedule s (SNode t) = t" "task_of_node s (TNode t) = t"
  by (simp_all add: task_of_shedule_def task_of_node_def)

text \<open>Moving a task to the tail of one of the two queues.\<close>

lemma requeue:
  assumes T: "task_lists s ts rs ws xs" and t: "t \<in> set rs"
  shows "task_lists (upd_tlinks (task_list_add (Head TaskScheduleList) (SNode t)) (upd_tlinks (task_list_delete (SNode t)) s))
    ts (remove1 t rs @ [t]) ws xs"
proof -
  note F = T [unfolded task_lists_def]
  have m: "SNode t \<in> set (list_nodes ts rs ws xs (Head TaskScheduleList))" using t by simp
  have r: "remove1 (SNode t) (map SNode rs) = map SNode (remove1 t rs)" by (induction rs) auto
  have e: "(list_nodes ts rs ws xs)(Head TaskScheduleList := map SNode (remove1 t rs)) = list_nodes ts (remove1 t rs) ws xs"
    "(list_nodes ts (remove1 t rs) ws xs)(Head TaskScheduleList := map SNode (remove1 t rs) @ [SNode t]) =
       list_nodes ts (remove1 t rs @ [t]) ws xs"
    by (rule ext, case_tac x rule: list_nodes.cases [of "(ts, rs, ws, xs, _)", simplified]; simp_all)+
  have F1: "family dll (task_list_delete (SNode t) (tlinks s)) (range Head) (list_nodes ts (remove1 t rs) ws xs)"
    using tl.family_del [OF F _ m] by (simp add: r e)
  have n: "\<forall>l'\<in>range Head. SNode t \<notin> set (list_nodes ts (remove1 t rs) ws xs l')"
    using tl.family_del_notin [OF F _ m] by (simp add: r e)
  have "family dll (task_list_add (Head TaskScheduleList) (SNode t) (task_list_delete (SNode t) (tlinks s))) (range Head)
      (list_nodes ts (remove1 t rs @ [t]) ws xs)"
    using tl.family_add_tail [OF F1 _ _ n, of "Head TaskScheduleList"] by (auto simp: e)
  then show ?thesis by (simp add: task_lists_def upd_tlinks_def)
qed


section \<open>Scheduling without signals\<close>

lemma wait_scan_quiet:
  assumes "seg (tlinks s) a (map SNode ws) (Head TaskWaitList)" and "\<forall>t\<in>set ws. t_signals (tasks s t) = 0"
  shows "wait_scan (next (tlinks s) a) s = Some (s, GotoFind)"
  using assms
proof (induction ws arbitrary: a)
  case Nil
  then show ?case by (subst wait_scan.simps) simp
next
  case (Cons t ws)
  then show ?case by (subst wait_scan.simps) (simp add: Let_def)
qed

lemma find_loop_quiet:
  assumes "next (tlinks s) (Head TaskScheduleList) = SNode t" and "t_signals (tasks s t) = 0"
  shows "find_loop_pc s = Some (s, t, None)"
  using assms by (subst find_loop_pc.simps) (simp add: Let_def)

lemma clearup_empty: "dll (tlinks s) (Head TaskExitList) [] \<Longrightarrow> clearup s = Some s"
  by (simp add: clearup_def dll_def clearup_loop.simps)

text \<open>
  \<open>quiet s ts rs ws\<close>: nobody waits for removal, no signal is pending, and the current task is a
  runnable one.
\<close>

definition quiet :: "'z pc_scheme \<Rightarrow> u32 list \<Rightarrow> u32 list \<Rightarrow> u32 list \<Rightarrow> bool" where
  "quiet s ts rs ws \<longleftrightarrow> task_lists s ts rs ws [] \<and> current s \<in> set rs \<and>
     (\<forall>t\<in>set rs \<union> set ws. t_signals (tasks s t) = 0) \<and> (\<forall>t\<in>set rs. t_status (tasks s t) = RUNNING)"

lemma copy_context_eq [simp]: "copy_context src dst = src" for src dst :: regs_context
  by (simp add: copy_context_def)

lemma activateMemory_pc [simp]:
  "tasks (activateMemory mm s) = tasks s" "tlinks (activateMemory mm s) = tlinks s"
  "current (activateMemory mm s) = current s"
  by (simp_all add: activateMemory_def set_entryhi_def Let_def)

lemma schedule_quiet:
  assumes Q: "quiet s ts rs ws"
  defines "c \<equiv> current s" and "rs' \<equiv> remove1 (current s) rs @ [current s]"
  obtains s' ctx' where "pc_schedule run ctx s = Some (s', ctx')" "quiet s' ts rs' ws" "current s' = hd rs'"
    "hd rs' \<noteq> c \<Longrightarrow> t_context (tasks s' c) = ctx \<and> ctx' = t_context (tasks s (hd rs')) \<and>
       (t_mm (tasks s (hd rs')) \<noteq> 0 \<longrightarrow> mm_current s' = t_mm (tasks s (hd rs')))"
    "hd rs' = c \<Longrightarrow> ctx' = ctx" "\<And>t. t \<noteq> c \<Longrightarrow> tasks s' t = tasks s t" "cp0_count (cpu s') = 0"
proof -
  have T: "task_lists s ts rs ws []" and c: "c \<in> set rs" and sg: "\<forall>t\<in>set rs \<union> set ws. t_signals (tasks s t) = 0"
    and st: "\<forall>t\<in>set rs. t_status (tasks s t) = RUNNING"
    using Q by (simp_all add: quiet_def c_def)
  define u where "u = upd_tlinks (task_list_add (Head TaskScheduleList) (SNode c)) (upd_tlinks (task_list_delete (SNode c)) s)"
  have U: "task_lists u ts rs' ws []" using requeue [OF T c] by (simp add: u_def rs'_def c_def)
  have f: "tasks u = tasks s" "current u = c" by (simp_all add: u_def upd_tlinks_def c_def)
  note D = task_listsD [OF U]
  have ne: "rs' \<noteq> []" by (simp add: rs'_def)
  let ?n = "hd rs'"
  have set': "set rs' = set rs" using c task_listsD(5) [OF T] by (auto simp: rs'_def c_def)
  have n: "?n \<in> set rs" using hd_in_set [OF ne] set' by simp
  have w: "wait_scan (next (tlinks u) (Head TaskWaitList)) u = Some (u, GotoFind)"
    using D(3) sg f by (intro wait_scan_quiet [where ws = ws]) (simp_all add: dll_def)
  have "next (tlinks u) (Head TaskScheduleList) = SNode ?n" using dll_next [OF D(2)] ne by (cases rs') simp_all
  then have fl: "find_loop_pc u = Some (u, ?n, None)" using sg n f by (intro find_loop_quiet) simp_all
  have cl: "clearup s = Some s" using task_listsD(4) [OF T] by (rule clearup_empty)
  obtain v ctx' where sw: "switch_to run ctx ?n None u = (v, ctx')" by fastforce
  have r: "pc_schedule run ctx s = Some (v\<lparr>cpu := (cpu v)\<lparr>cp0_count := 0\<rparr>\<rparr>, ctx')"
    using cl st c w fl sw by (simp add: pc_schedule_def u_def c_def Let_def)
  have v: "tlinks v = tlinks u" "current v = ?n" "\<And>t. t \<noteq> c \<Longrightarrow> tasks v t = tasks s t"
    "\<And>t. t_signals (tasks v t) = t_signals (tasks s t)" "\<And>t. t_status (tasks v t) = t_status (tasks s t)"
    using sw f by (auto simp: switch_to_def upd_task_def Let_def split: if_splits)
  have "quiet v ts rs' ws"
    using U v sg st set' hd_in_set [OF ne] by (simp add: quiet_def task_lists_def)
  then have q: "quiet (v\<lparr>cpu := (cpu v)\<lparr>cp0_count := 0\<rparr>\<rparr>) ts rs' ws" by (simp add: quiet_def)
  have x: "t_context (tasks v c) = ctx \<and> ctx' = t_context (tasks s ?n) \<and>
      (t_mm (tasks s ?n) \<noteq> 0 \<longrightarrow> mm_current v = t_mm (tasks s ?n))" if "?n \<noteq> c"
    using sw f that by (auto simp: switch_to_def upd_task_def activateMemory_def set_entryhi_def Let_def split: if_splits)
  have y: "ctx' = ctx" if "?n = c" using sw f that by (simp add: switch_to_def)
  show thesis by (rule that [OF r q]) (use v x y in auto)
qed

text \<open>A number of timer ticks; the argument is the register context that each tick finds.\<close>

primrec run_ticks ::
    "(u32 \<Rightarrow> 'z pc_scheme \<Rightarrow> 'z pc_scheme) \<Rightarrow> regs_context list \<Rightarrow> 'z pc_scheme \<Rightarrow> 'z pc_scheme option" where
  "run_ticks run [] s = Some s"
| "run_ticks run (ctx # cs) s = (case pc_schedule run ctx s of None \<Rightarrow> None | Some (s, _) \<Rightarrow> run_ticks run cs s)"

lemma ticks_rotate:
  assumes "quiet s ts rs ws" and "current s = hd rs" and "rs \<noteq> []"
  shows "\<exists>s'. run_ticks run cs s = Some s' \<and> quiet s' ts (rotate (length cs) rs) ws \<and> current s' = hd (rotate (length cs) rs)"
  using assms
proof (induction cs arbitrary: s rs)
  case (Cons ctx cs)
  have e: "remove1 (current s) rs @ [current s] = rotate1 rs" using Cons.prems(2,3) by (cases rs) simp_all
  obtain s1 ctx1 where "pc_schedule run ctx s = Some (s1, ctx1)" "quiet s1 ts (rotate1 rs) ws" "current s1 = hd (rotate1 rs)"
    by (rule schedule_quiet [OF Cons.prems(1), of run ctx]) (rule that; simp add: e)
  with Cons.IH [of s1 "rotate1 rs"] Cons.prems(3) show ?case by (simp add: rotate1_rotate_swap [symmetric] rotate_def funpow_swap1)
qed simp


lemma quiet_fair:
  assumes Q: "quiet s ts rs ws" and t: "t \<in> set rs"
  shows "\<exists>k. 0 < k \<and> k \<le> length rs \<and> (\<forall>cs. length cs = k \<longrightarrow> (\<exists>s'. run_ticks run cs s = Some s' \<and> current s' = t))"
proof -
  let ?c = "current s"
  define rs' where "rs' = remove1 ?c rs @ [?c]"
  have d: "distinct rs" "?c \<in> set rs" using Q task_listsD(5) by (auto simp: quiet_def)
  then have len: "length rs' = length rs" "t \<in> set rs'" using t length_pos_if_in_set [OF t] by (auto simp: rs'_def length_remove1)
  then obtain i where i: "i < length rs" "rs' ! i = t" by (metis in_set_conv_nth)
  have "\<exists>s'. run_ticks run cs s = Some s' \<and> current s' = t" if cs: "length cs = Suc i" for cs
  proof -
    obtain ctx cs' where e: "cs = ctx # cs'" "length cs' = i" using cs by (cases cs) auto
    obtain s1 ctx1 where 1: "pc_schedule run ctx s = Some (s1, ctx1)" "quiet s1 ts rs' ws" "current s1 = hd rs'"
      by (rule schedule_quiet [OF Q, of run ctx]) (rule that; simp add: rs'_def)
    have ne: "rs' \<noteq> []" by (simp add: rs'_def)
    obtain s' where "run_ticks run cs' s1 = Some s'" "current s' = hd (rotate i rs')"
      using ticks_rotate [OF 1(2,3) ne, of run cs'] e(2) by auto
    moreover have "hd (rotate i rs') = t"
      using i len(1) ne hd_rotate_conv_nth [of rs' i] by simp
    ultimately show ?thesis using 1(1) e(1) by simp
  qed
  then show ?thesis using i(1) by (intro exI [of _ "Suc i"]) auto
qed

section \<open>The exit list\<close>

lemma clearup_loop_head: "clearup_loop n s = Some t \<Longrightarrow> n = Head TaskExitList"
  by (induction rule: clearup_loop.raw_induct [rotated, consumes 1]) (auto simp: Let_def split: if_splits)

section \<open>Creating a kernel task\<close>

lemma pc_of_slab_more:
  assumes "slab.more t = slab.more s"
  shows "tasks t = tasks s" "tlinks t = tlinks s" "current t = current s" "pid_status t = pid_status s"
  using assms by (cases s, cases t, simp)+

lemma pc_of_vm_more:
  assumes "vm.more t = vm.more s"
  shows "tasks t = tasks s" "tlinks t = tlinks s" "current t = current s" "pid_status t = pid_status s"
  using assms by (cases s, cases t, simp)+

lemma heap_pc [simp]:
  "heap (s\<lparr>pid_status := x\<rparr>) R = heap s R" "heap (s\<lparr>tasks := y\<rparr>) R = heap s R" "heap (s\<lparr>tlinks := z\<rparr>) R = heap s R"
  "room (s\<lparr>pid_status := x\<rparr>) R n = room s R n" "room (s\<lparr>tasks := y\<rparr>) R n = room s R n"
  "aspace (s\<lparr>tasks := y\<rparr>) R mm ps = aspace s R mm ps" "aspace (s\<lparr>tlinks := z\<rparr>) R mm ps = aspace s R mm ps"
  by (simp_all add: heap_def room_def aspace_def kheap_def kinv_def kobjs_def kblocks_def page_objs_def page_list_def [abs_def] slab_pages_def
      buddy_full_def buddy_inv_def bcore_def coalesced_def allocd_def zone_def zone_ok_def Let_def)

lemma link_new:
  assumes T: "task_lists s ts rs ws xs" and t: "t \<notin> set ts" "SNode t \<notin> set xs" "TNode t \<notin> set xs" "t \<notin> set rs" "t \<notin> set ws"
  shows "task_lists (task_link t s) (ts @ [t]) (rs @ [t]) ws xs"
proof -
  note F = T [unfolded task_lists_def]
  have e: "(list_nodes ts rs ws xs)(Head TaskList := map TNode ts @ [TNode t]) = list_nodes (ts @ [t]) rs ws xs"
    "(list_nodes (ts @ [t]) rs ws xs)(Head TaskScheduleList := map SNode rs @ [SNode t]) = list_nodes (ts @ [t]) (rs @ [t]) ws xs"
    by (rule ext, case_tac x rule: list_nodes.cases [of "(ts, rs, ws, xs, _)", simplified]; simp_all)+
  have "TNode t \<notin> set (list_nodes ts rs ws xs (Head h))" "SNode t \<notin> set (list_nodes (ts @ [t]) rs ws xs (Head h))" for h
    using t by (cases h; auto)+
  then have n1: "\<forall>l\<in>range Head. TNode t \<notin> set (list_nodes ts rs ws xs l)"
    and n2: "\<forall>l\<in>range Head. SNode t \<notin> set (list_nodes (ts @ [t]) rs ws xs l)" by auto
  have F1: "family dll (task_list_add (Head TaskList) (TNode t) (tlinks s)) (range Head) (list_nodes (ts @ [t]) rs ws xs)"
    using tl.family_add_tail [OF F _ _ n1, of "Head TaskList"] by (auto simp: e)
  have "family dll (task_list_add (Head TaskScheduleList) (SNode t) (task_list_add (Head TaskList) (TNode t) (tlinks s)))
      (range Head) (list_nodes (ts @ [t]) (rs @ [t]) ws xs)"
    using tl.family_add_tail [OF F1 _ _ n2, of "Head TaskScheduleList"] by (auto simp: e)
  then show ?thesis by (simp add: task_lists_def task_link_def upd_tlinks_def upd_task_def Let_def)
qed


text \<open>
  \<open>known s R ts\<close>: every task of the list has its descriptor in a region of the heap that is in use.
\<close>

definition known :: "region set \<Rightarrow> u32 list \<Rightarrow> bool" where
  "known R ts \<longleftrightarrow> (\<forall>t\<in>set ts. \<exists>n>0. (unat t, n) \<in> R)"

text \<open>An address space with no page mapped, in memory of its own.\<close>

definition empty_space :: "'z vm_scheme \<Rightarrow> region set \<Rightarrow> u32 \<Rightarrow> u32 \<Rightarrow> bool" where
  "empty_space s R mm asid \<longleftrightarrow> mm \<noteq> 0 \<and> aspace s R mm [] \<and> mm_asid (mms s mm) = asid \<and> pf_num (mms s mm) = 0 \<and>
     (\<forall>va. pt_view s (mm_pgd (mms s mm)) va = \<lparr>tlb_entry = 0, pte_info = 0\<rparr>)"

lemma empty_space_pc [simp]:
  "empty_space (s\<lparr>tasks := y\<rparr>) R mm asid = empty_space s R mm asid"
  "empty_space (s\<lparr>tlinks := z\<rparr>) R mm asid = empty_space s R mm asid"
  by (simp_all add: empty_space_def pt_view_def Let_def)

text \<open>The address space of a task: none for a task of the kernel.\<close>

lemma task_space:
  assumes "room s R 2"
  obtains s' mm R' where
    "(if mode = KERNEL then Some (s, 0) else create_mm_struct asid s) = Some (s', mm)" "heap s' R'" "R \<subseteq> R'"
    "if mode = KERNEL then mm = 0 \<and> R' = R else empty_space s' R' mm asid" "vm.more s' = vm.more s"
proof (cases mode)
  case KERNEL
  then show thesis using that [of s 0 R] room_heap [OF assms] by simp
next
  case USER
  obtain s' mm pgd n m where M: "create_mm_struct asid s = Some (s', mm)" "mm \<noteq> 0"
    "aspace s' (insert (unat pgd, n) (insert (unat mm, m) R)) mm []"
    "mms s' = (mms s)(mm := \<lparr>mm_pgd = pgd, mm_asid = asid, pf_num = 0\<rparr>)" "\<And>i. pgds s' pgd i = 0" "vm.more s' = vm.more s"
    by (rule create_mm_struct_ok [OF assms]) (rule that; assumption)
  have "empty_space s' (insert (unat pgd, n) (insert (unat mm, m) R)) mm asid"
    using M(2-5) by (simp add: empty_space_def pt_view_def)
  then show thesis
    using USER M(1,6) aspace_heap [OF M(3)] by (intro that [of s' mm "insert (unat pgd, n) (insert (unat mm, m) R)"]) auto
qed

lemma create_task:
  assumes H: "room s R 3" and T: "task_lists s ts rs ws []" and kn: "known R (ts @ rs @ ws)"
    and ps: "length (pid_status s) = PID_STATUS_SIZE" "pids (pid_status s) \<noteq> {..<256}" and nm: "length name < TASK_NAME_MAX"
  shows "\<exists>s' k t n R'. task_create gp name entry argc argv mode s = Some (s', of_nat k) \<and>
    k < 256 \<and> k \<notin> pids (pid_status s) \<and> (\<forall>m<k. m \<in> pids (pid_status s)) \<and>
    pids (pid_status s') = insert k (pids (pid_status s)) \<and>
    unat KERNEL_STACK_SIZE \<le> n \<and> insert (unat t, n) R \<subseteq> R' \<and> heap s' R' \<and>
    (\<forall>q\<in>R' - R. \<forall>r\<in>R. apart q r) \<and> (unat t, n) \<notin> R \<and>
    (if mode = KERNEL then t_mm (tasks s' t) = 0 \<and> R' = insert (unat t, n) R
     else empty_space s' R' (t_mm (tasks s' t)) (of_nat k)) \<and>
    task_lists s' (ts @ [t]) (rs @ [t]) ws [] \<and> t \<notin> set (ts @ rs @ ws) \<and>
    tasks s' t = (tasks s t)\<lparr>t_pid := of_nat k, t_parent := t_pid (tasks s (current s)), t_status := RUNNING,
       t_name := name @ 0 # drop (length name + 1) (t_name (tasks s t)),
       t_context := zero_context\<lparr>r_epc := entry, r_sp := t + KERNEL_STACK_SIZE, r_gp := gp, r_a0 := argc, r_a1 := argv\<rparr>,
       t_signals := 0, t_mm := t_mm (tasks s' t), t_fs := 0\<rparr> \<and>
    (\<forall>x. x \<noteq> t \<longrightarrow> tasks s' x = tasks s x) \<and> current s' = current s"
proof -
  obtain qs pid where sc: "pid_scan PID_STATUS_SIZE 0 (pid_status s) = (qs, pid)" by fastforce
  have l: "8 * length (pid_status s) = 256" using ps(1) by (simp add: PID_STATUS_SIZE_def)
  obtain k where kk: "pid = of_nat k" "k < 256" "k \<notin> pids (pid_status s)" "\<forall>m<k. m \<in> pids (pid_status s)"
    "pids qs = insert k (pids (pid_status s))"
    using pid_scan_correct [of "pid_status s" 0 PID_STATUS_SIZE, unfolded sc prod.case l] ps by auto
  have pn: "pid \<noteq> - 1"
  proof
    assume "pid = - 1"
    then have "unat (of_nat k :: u32) = 2 ^ 32 - 1" using kk(1) unat_minus_1_u32 by metis
    then show False using kk(2) by (simp add: unat_of_nat)
  qed
  define s0 where "s0 = s\<lparr>pid_status := qs\<rparr>"
  have pa: "pid_alloc s = (s0, pid)" by (simp add: pid_alloc_def sc s0_def)
  have "room s0 R (Suc 2)" using H by (simp add: s0_def numeral_3_eq_3 numeral_2_eq_2)
  then obtain s1 t n where k0: "kmalloc KERNEL_STACK_SIZE s0 = (s1, t)" "t \<noteq> 0"
    and n: "unat KERNEL_STACK_SIZE \<le> n" "room s1 (insert (unat t, n) R) 2" "(unat t, n) \<notin> R"
    by (rule kmalloc_page [of s0 R 2 KERNEL_STACK_SIZE]) (simp_all add: KERNEL_STACK_SIZE_def)
  note fr = pc_of_slab_more [OF kmalloc_more [of KERNEL_STACK_SIZE s0, unfolded k0(1) fst_conv]]
  have new: "t \<notin> set (ts @ rs @ ws)"
  proof
    assume "t \<in> set (ts @ rs @ ws)"
    then obtain m where "0 < m" "(unat t, m) \<in> R" using kn by (auto simp: known_def)
    then show False using heap_unique [OF room_heap [OF n(2)], of "unat t" m n] n(3) by simp
  qed
  define d where "d = (tasks s t)\<lparr>t_pid := pid, t_parent := t_pid (tasks s (current s)), t_status := PREPARING,
     t_name := name @ 0 # drop (length name + 1) (t_name (tasks s t)),
     t_context := zero_context\<lparr>r_epc := entry, r_sp := t + KERNEL_STACK_SIZE, r_gp := gp, r_a0 := argc, r_a1 := argv\<rparr>,
     t_signals := 0\<rparr>"
  define s2 where "s2 = s1\<lparr>tasks := (tasks s)(t := d)\<rparr>"
  have "room s2 (insert (unat t, n) R) 2" using n(2) by (simp add: s2_def)
  then obtain s3 mm R' where M: "(if mode = KERNEL then Some (s2, 0) else create_mm_struct pid s2) = Some (s3, mm)"
    "heap s3 R'" "insert (unat t, n) R \<subseteq> R'"
    "if mode = KERNEL then mm = 0 \<and> R' = insert (unat t, n) R else empty_space s3 R' mm pid" "vm.more s3 = vm.more s2"
    by (rule task_space)
  note fr3 = pc_of_vm_more [OF M(5)]
  define s4 where "s4 = s3\<lparr>tasks := (tasks s)(t := d\<lparr>t_mm := mm, t_fs := 0\<rparr>)\<rparr>"
  have tk: "tasks s3 = (tasks s)(t := d)" "tlinks s3 = tlinks s" "pid_status s3 = qs" "current s3 = current s"
    using fr fr3 by (simp_all add: s2_def s0_def)
  have "task_create gp name entry argc argv mode s =
      (case if mode = KERNEL then Some (s2, 0) else create_mm_struct pid s2 of None \<Rightarrow> None
       | Some (s, mm) \<Rightarrow> Some (task_link t (upd_task t (\<lambda>d. d\<lparr>t_mm := mm, t_fs := 0\<rparr>) s), pid))"
    using pa pn k0 nm fr
    by (simp add: task_create_def set_name_def upd_task_def Let_def s0_def s2_def d_def cong: option.case_cong)
  then have r: "task_create gp name entry argc argv mode s = Some (task_link t s4, pid)"
    unfolding M(1) by (simp add: upd_task_def tk(1) s4_def)
  have "task_lists s4 ts rs ws []" using T tk(2) by (simp add: task_lists_def s4_def)
  then have L: "task_lists (task_link t s4) (ts @ [t]) (rs @ [t]) ws []" using new by (intro link_new) auto
  have 1: "heap (task_link t s4) R'" "mode \<noteq> KERNEL \<Longrightarrow> empty_space (task_link t s4) R' mm pid"
    using M(2,4) by (simp_all add: task_link_def s4_def upd_task_def upd_tlinks_def Let_def)
  have 2: "pid_status (task_link t s4) = qs" "current (task_link t s4) = current s"
    "tasks (task_link t s4) = (tasks s)(t := d\<lparr>t_mm := mm, t_fs := 0, t_status := RUNNING\<rparr>)"
    using tk by (simp_all add: task_link_def s4_def upd_task_def upd_tlinks_def Let_def)
  have 3: "\<forall>q\<in>R' - R. \<forall>r\<in>R. apart q r" using heap_apart [OF M(2)] M(3) by blast
  have 4: "if mode = KERNEL then t_mm (tasks (task_link t s4) t) = 0 \<and> R' = insert (unat t, n) R
     else empty_space (task_link t s4) R' (t_mm (tasks (task_link t s4) t)) (of_nat k)"
    using 1(2) M(4) kk(1) by (simp add: 2 split: if_splits)
  show ?thesis
    by (intro exI [of _ "task_link t s4"] exI [of _ k] exI [of _ t] exI [of _ n] exI [of _ R'] conjI r [unfolded kk(1)] kk(2-4)
        n(1,3) M(3) 1(1) 3 4 L new) (simp_all add: 2 d_def kk)
qed

section \<open>Properties\<close>

text \<open>A machine with the idle task at 0x7000 and tasks at 0x8000 and 0x9000, all runnable.\<close>

definition demo_task :: "u32 \<Rightarrow> task_struct" where
  "demo_task t = \<lparr>t_pid = drop_bit 12 t - 7, t_parent = 0, t_status = RUNNING, t_name = replicate 16 0,
     t_context = zero_context\<lparr>r_epc := t\<rparr>, t_mm = 0, t_fs = 0, t_signals = 0, t_handler = 0\<rparr>"

definition no_links :: "tnode lheap" where
  "no_links = \<lparr>prev = id, next = id\<rparr>"

definition demo_pc :: pc where
  "demo_pc = vm.extend demo_vm
     \<lparr>current = 0x7000,
      tlinks = task_list_add (Head TaskScheduleList) (SNode 0x9000) (task_list_add (Head TaskScheduleList) (SNode 0x8000)
        (task_list_add (Head TaskScheduleList) (SNode 0x7000) no_links)),
      tasks = demo_task, head_at = \<lambda>_. 0x100, pid_status = 7 # replicate 31 0,
      sems = replicate 16 \<lparr>sem_key = 0, sem_value = 0\<rparr>\<rparr>"

lemma demo_pc_fields:
  "current demo_pc = 0x7000" "tasks demo_pc = demo_task" "pid_status demo_pc = 7 # replicate 31 0"
  "sems demo_pc = replicate 16 \<lparr>sem_key = 0, sem_value = 0\<rparr>"
  by (simp_all add: demo_pc_def vm.defs)

lemma family_empty: "family dll no_links (range Head) (list_nodes [] [] [] [])"
proof -
  have "list_nodes [] [] [] [] l = []" for l by (cases "([]::u32 list, []::u32 list, []::u32 list, []::tnode list, l)" rule: list_nodes.cases) simp_all
  then show ?thesis by (auto simp: family_def dll_def no_links_def)
qed

lemma sched_add:
  assumes "family dll h (range Head) (list_nodes ts rs ws xs)" and "t \<notin> set rs" "t \<notin> set ws" "SNode t \<notin> set xs"
  shows "family dll (task_list_add (Head TaskScheduleList) (SNode t) h) (range Head) (list_nodes ts (rs @ [t]) ws xs)"
proof -
  have e: "(list_nodes ts rs ws xs)(Head TaskScheduleList := map SNode rs @ [SNode t]) = list_nodes ts (rs @ [t]) ws xs"
    by (rule ext, case_tac x rule: list_nodes.cases [of "(ts, rs, ws, xs, _)", simplified]; simp_all)
  have "SNode t \<notin> set (list_nodes ts rs ws xs (Head h))" for h using assms(2-4) by (cases h; auto)
  then show ?thesis using tl.family_add_tail [OF assms(1), of "Head TaskScheduleList" "SNode t"] by (auto simp: e)
qed

lemma demo_pc_lists: "task_lists demo_pc [] [0x7000, 0x8000, 0x9000] [] []"
  unfolding task_lists_def
  using sched_add [OF sched_add [OF sched_add [OF family_empty, of "0x7000"], of "0x8000"], of "0x9000"]
  by (simp add: demo_pc_def vm.defs)

lemma exit_add:
  assumes "family dll h (range Head) (list_nodes ts rs ws xs)" and "t \<notin> set rs" "t \<notin> set ws" "SNode t \<notin> set xs"
  shows "family dll (task_list_add (Head TaskExitList) (SNode t) h) (range Head) (list_nodes ts rs ws (xs @ [SNode t]))"
proof -
  have e: "(list_nodes ts rs ws xs)(Head TaskExitList := xs @ [SNode t]) = list_nodes ts rs ws (xs @ [SNode t])"
    by (rule ext, case_tac x rule: list_nodes.cases [of "(ts, rs, ws, xs, _)", simplified]; simp_all)
  have "SNode t \<notin> set (list_nodes ts rs ws xs (Head h))" for h using assms(2-4) by (cases h; auto)
  then show ?thesis using tl.family_add_tail [OF assms(1), of "Head TaskExitList" "SNode t"] by (auto simp: e)
qed

lemma demo_pc_quiet: "quiet demo_pc [] [0x7000, 0x8000, 0x9000] []"
  using demo_pc_lists by (simp add: quiet_def demo_pc_fields demo_task_def)

text \<open>
  C16.  A timer tick with no pending signals puts the running task at the end of the queue and
  switches to the task at its head: the registers of the interrupted task are saved, those of the
  next task and, if it has one, its address space are installed, no other task changes, and the
  queues stay well formed.
\<close>

theorem schedule_round_robin:
  assumes "quiet s ts rs ws" and "rs' = remove1 (current s) rs @ [current s]" and "hd rs' \<noteq> current s"
  shows "\<exists>s' ctx'. pc_schedule run ctx s = Some (s', ctx') \<and> quiet s' ts rs' ws \<and> current s' = hd rs' \<and>
    t_context (tasks s' (current s)) = ctx \<and> ctx' = t_context (tasks s (hd rs')) \<and>
    (t_mm (tasks s (hd rs')) \<noteq> 0 \<longrightarrow> mm_current s' = t_mm (tasks s (hd rs'))) \<and>
    (\<forall>t. t \<noteq> current s \<longrightarrow> tasks s' t = tasks s t) \<and> cp0_count (cpu s') = 0"
  using assms(3) unfolding assms(2)
  by (rule_tac schedule_quiet [OF assms(1), of run ctx]) blast

theorem schedule_round_robin_witness:
  "\<exists>s' ctx'. pc_schedule (\<lambda>_ s. s) zero_context demo_pc = Some (s', ctx') \<and> current s' = 0x8000 \<and> r_epc ctx' = 0x8000 \<and>
     quiet s' [] [0x8000, 0x9000, 0x7000] []"
  using schedule_round_robin [OF demo_pc_quiet refl, of "\<lambda>_ s. s" zero_context]
  by (auto simp: demo_pc_fields demo_task_def)

text \<open>
  C17.  Without signals every runnable task gets the processor: it is the current task after some
  number of ticks that is at most the number of runnable tasks, whatever the tasks leave in the
  registers.
\<close>

theorem schedule_fair:
  assumes "quiet s ts rs ws" and "t \<in> set rs"
  shows "\<exists>k. 0 < k \<and> k \<le> length rs \<and>
    (\<forall>cs. length cs = k \<longrightarrow> (\<exists>s'. run_ticks run cs s = Some s' \<and> current s' = t))"
  by (rule quiet_fair [OF assms])

theorem schedule_fair_witness:
  "\<exists>k\<le>3. \<forall>cs. length cs = k \<longrightarrow> (\<exists>s'. run_ticks (\<lambda>_ s. s) cs demo_pc = Some s' \<and> current s' = 0x9000)"
  using schedule_fair [OF demo_pc_quiet, of "0x9000" "\<lambda>_ s. s"] by (auto simp: numeral_3_eq_3)

text \<open>
  C18.  Once a node is on the exit list the scheduler does not come back from \<open>clearup\<close>: its loop
  never advances the node it started with.
\<close>

theorem clearup_hangs:
  assumes "task_lists s ts rs ws xs" and "xs \<noteq> []"
  shows "pc_schedule run ctx s = None"
proof -
  have "next (tlinks s) (Head TaskExitList) \<noteq> Head TaskExitList"
    using task_listsD(4) [OF assms(1)] assms(2) by (cases xs) (auto simp: dll_def)
  then have "clearup s = None"
    using clearup_loop_head unfolding clearup_def by (cases "clearup_loop (next (tlinks s) (Head TaskExitList)) s") auto
  then show ?thesis by (simp add: pc_schedule_def)
qed

theorem clearup_hangs_witness:
  "pc_schedule (\<lambda>_ s. s) zero_context (upd_tlinks (task_list_add (Head TaskExitList) (SNode 0xa000)) demo_pc) = None"
proof (rule clearup_hangs)
  show "task_lists (upd_tlinks (task_list_add (Head TaskExitList) (SNode 0xa000)) demo_pc) [] [0x7000, 0x8000, 0x9000] []
      [SNode 0xa000]"
    using exit_add [OF demo_pc_lists [unfolded task_lists_def], of "0xa000"] by (simp add: task_lists_def upd_tlinks_def)
qed simp

text \<open>
  \<open>pid_alloc\<close> returns the least process number that is free and marks it, and no other, as
  used; when all 256 are used it returns \<open>-1\<close> and changes nothing.
\<close>

theorem pid_alloc_least:
  assumes "length (pid_status s) = PID_STATUS_SIZE" and "pid_alloc s = (s', pid)"
  shows "if pids (pid_status s) = {..<256} then pid_status s' = pid_status s \<and> pid = - 1
    else \<exists>k. pid = of_nat k \<and> k < 256 \<and> k \<notin> pids (pid_status s) \<and> (\<forall>m<k. m \<in> pids (pid_status s)) \<and>
      pids (pid_status s') = insert k (pids (pid_status s))"
proof -
  obtain qs where sc: "pid_scan PID_STATUS_SIZE 0 (pid_status s) = (qs, pid)" "pid_status s' = qs"
    using assms(2) by (auto simp: pid_alloc_def split: prod.splits)
  have l: "8 * length (pid_status s) = 256" using assms(1) by (simp add: PID_STATUS_SIZE_def)
  show ?thesis
    using pid_scan_correct [of "pid_status s" 0 PID_STATUS_SIZE, unfolded sc(1) prod.case l] assms(1) sc(2)
    by (auto split: if_splits)
qed


theorem pid_alloc_least_witness:
  "\<exists>s' k. pid_alloc demo_pc = (s', of_nat k) \<and> k \<notin> pids (7 # replicate 31 0) \<and>
     pids (pid_status s') = insert k (pids (7 # replicate 31 0))"
proof -
  obtain s' pid where r: "pid_alloc demo_pc = (s', pid)" by fastforce
  have "\<not> bit (7 :: u8) 3" by code_simp
  then have "3 \<notin> pids (7 # replicate 31 0)" by (simp add: pids_def)
  moreover have "3 \<in> {..<256 :: nat}" by simp
  ultimately have "pids (pid_status demo_pc) \<noteq> {..<256}" unfolding demo_pc_fields by blast
  then show ?thesis
    using pid_alloc_least [OF _ r] r unfolding demo_pc_fields by (auto simp: PID_STATUS_SIZE_def)
qed

text \<open>
  \<open>pid_delete\<close> does not free the number it is given: it ors the complement of the bit, so
  that number keeps its state and the seven others of its byte become used.
\<close>

theorem pid_delete_keeps:
  assumes "length (pid_status s) = PID_STATUS_SIZE" and "unat pid < 256"
  shows "\<exists>s'. pid_delete pid s = Some s' \<and>
    pids (pid_status s') = pids (pid_status s) \<union> ({unat pid div 8 * 8 ..< unat pid div 8 * 8 + 8} - {unat pid})"
proof -
  let ?ps = "pid_status s" and ?i = "unat pid div 8" and ?j = "unat pid mod 8"
  let ?qs = "?ps[?i := ?ps ! ?i OR NOT (push_bit ?j 1)]"
  have l: "length ?ps = 32" using assms(1) by (simp add: PID_STATUS_SIZE_def)
  have ij: "?i < 32" "unat (pid div 8) = ?i" "unat (pid mod 8) = ?j" using assms(2) by (simp_all add: unat_div unat_mod)
  then have r: "pid_delete pid s = Some (s\<lparr>pid_status := ?qs\<rparr>)" by (simp add: pid_delete_def PID_STATUS_SIZE_def Let_def)
  have A: "p \<in> pids ?qs \<longleftrightarrow> p \<in> pids ?ps \<or> (p div 8 = ?i \<and> p mod 8 \<noteq> ?j)" for p
  proof (cases "p div 8 < 32")
    case True
    have "p \<in> pids ?qs \<longleftrightarrow> bit (?qs ! (p div 8)) (p mod 8)" "p \<in> pids ?ps \<longleftrightarrow> bit (?ps ! (p div 8)) (p mod 8)"
      using bit_pid(1) [of "p div 8" ?qs "p mod 8"] bit_pid(1) [of "p div 8" ?ps "p mod 8"] True l by simp_all
    moreover have "bit (?qs ! (p div 8)) (p mod 8) \<longleftrightarrow> bit (?ps ! (p div 8)) (p mod 8) \<or> (p div 8 = ?i \<and> p mod 8 \<noteq> ?j)"
      using True l ij(1) by (cases "p div 8 = ?i") (auto simp: bit_simps)
    ultimately show ?thesis by simp
  next
    case False
    then have "\<not> p < 256" by (simp add: div_less_iff_less_mult)
    then show ?thesis using l ij(1) False by (auto simp: pids_def)
  qed
  have B: "p div 8 = ?i \<and> p mod 8 \<noteq> ?j \<longleftrightarrow> p \<in> {?i * 8 ..< ?i * 8 + 8} - {unat pid}" for p :: nat
  proof -
    have "p div 8 = ?i \<longleftrightarrow> ?i * 8 \<le> p \<and> p < ?i * 8 + 8" by auto
    moreover have "p = unat pid \<longleftrightarrow> p div 8 = ?i \<and> p mod 8 = ?j" by (metis div_mult_mod_eq)
    ultimately show ?thesis by auto
  qed
  have "pids ?qs = pids ?ps \<union> ({?i * 8 ..< ?i * 8 + 8} - {unat pid})"
    by (intro set_eqI) (simp only: A B Un_iff)
  then show ?thesis using r by (intro exI [of _ "s\<lparr>pid_status := ?qs\<rparr>"]) simp
qed

theorem pid_delete_keeps_witness:
  "\<exists>s'. pid_delete 2 demo_pc = Some s' \<and> 2 \<in> pids (pid_status s') \<and> {0..<8} \<subseteq> pids (pid_status s')"
proof -
  have "bit (7 :: u8) 2" by code_simp
  then have "2 \<in> pids (pid_status demo_pc)" by (simp add: pids_def demo_pc_fields)
  then show ?thesis
    using pid_delete_keeps [of demo_pc 2] by (auto simp: demo_pc_fields PID_STATUS_SIZE_def)
qed



definition demo_idle :: pc where
  "demo_idle = demo_pc\<lparr>tlinks := no_links\<rparr>"

lemma vm_extend:
  "kheap (vm.extend s x) f A = kheap s f A" "heap (vm.extend s x) R = heap s R" "zone (vm.extend s x) = zone s"
  by (simp_all add: heap_def kheap_def kinv_def kobjs_def kblocks_def page_objs_def page_list_def [abs_def] slab_pages_def
      buddy_full_def buddy_inv_def bcore_def coalesced_def allocd_def zone_def zone_ok_def Let_def vm.defs)

lemma kheap_pc [simp]:
  "kheap (s\<lparr>pid_status := x\<rparr>) f A = kheap s f A" "kheap (s\<lparr>tlinks := z\<rparr>) f A = kheap s f A"
  by (simp_all add: kheap_def kinv_def page_list_def [abs_def] slab_pages_def
      buddy_full_def buddy_inv_def bcore_def coalesced_def allocd_def zone_def zone_ok_def Let_def)

lemma demo_idle_room: "room demo_idle {} 16"
proof -
  obtain f where "kheap demo_vm f {}" using demo_vm_heap(3) by blast
  then have K: "kheap demo_idle f {}" by (simp add: demo_idle_def demo_pc_def vm_extend)
  have "zone demo_idle = {16..<32}" using demo_vm_heap(2) by (simp add: demo_idle_def demo_pc_def zone_def vm.defs)
  moreover have "kmem_caches demo_idle = kmem_caches demo_heap"
    by (simp add: demo_idle_def demo_pc_def demo_vm_def vm.defs slab.defs)
  moreover have "object_size (kmem_caches demo_heap i) = kmem_cache_size ! i" if "i < KMEM_CACHE_NUM" for i
    using demo_heap_heap that by (auto simp: heap_def)
  ultimately show ?thesis
    unfolding room_def using K by (intro exI [of _ f] exI [of _ "{}"]) (auto simp: kobjs_def kblocks_def slab_pages_def)
qed

lemma pid_3_free: "pids (7 # replicate 31 0) \<noteq> {..<256}"
proof -
  have "\<not> bit (7 :: u8) 3" by code_simp
  then have "3 \<notin> pids (7 # replicate 31 0)" by (simp add: pids_def)
  moreover have "3 \<in> {..<256 :: nat}" by simp
  ultimately show ?thesis by blast
qed


end
