(* ===== verification/Semaphores.thy ===== *)
theory Semaphores
  imports Process
begin

text \<open>
  The semaphores of \<^verbatim>\<open>src/kernel/pc/pc.c\<close>.  \<open>P\<close> and \<open>V\<close> run with the interrupts enabled, and the clock
  may switch to another task between any two instructions.  So the two functions are modelled by their
  accesses to the value: each step of a task reads or writes it once, and the order of the steps of
  different tasks is arbitrary.
\<close>

section \<open>The steps of P and V\<close>

text \<open>
  Where a task is: outside, behind the call of \<open>P\<close>, in its loop, in front of the decrement, behind the read
  of the decrement with the value in a register, behind \<open>P\<close>, in front of the increment of \<open>V\<close> and behind
  its read.
\<close>

datatype sem_place = Outside | P_If | P_While | P_Dec | P_Store u32 | Inside | V_Inc | V_Store u32

definition sem_get :: "nat \<Rightarrow> 'z pc_scheme \<Rightarrow> u32" where
  "sem_get i s = sem_value (sems s ! i)"

definition sem_set :: "nat \<Rightarrow> u32 \<Rightarrow> 'z pc_scheme \<Rightarrow> 'z pc_scheme" where
  "sem_set i v s = s\<lparr>sems := (sems s)[i := (sems s ! i)\<lparr>sem_value := v\<rparr>]\<rparr>"

text \<open>\<open>--(sem->value)\<close> and \<open>++(sem->value)\<close> are a read and a write.\<close>

fun P :: "nat \<Rightarrow> sem_place \<Rightarrow> 'z pc_scheme \<Rightarrow> sem_place \<times> 'z pc_scheme" where
  "P i P_If s = (if sint (sem_get i s) > 0 then P_Dec else P_While, s)"
| "P i P_While s = (if sint (sem_get i s) \<le> 0 then P_While else P_Dec, s)"
| "P i P_Dec s = (P_Store (sem_get i s), s)"
| "P i (P_Store x) s = (Inside, sem_set i (x - 1) s)"
| "P i l s = (l, s)"

fun V :: "nat \<Rightarrow> sem_place \<Rightarrow> 'z pc_scheme \<Rightarrow> sem_place \<times> 'z pc_scheme" where
  "V i V_Inc s = (V_Store (sem_get i s), s)"
| "V i (V_Store x) s = (Outside, sem_set i (x + 1) s)"
| "V i l s = (l, s)"

text \<open>A task outside calls \<open>P\<close>, one that holds the semaphore calls \<open>V\<close>, and the others take their next step.\<close>

fun sem_step :: "nat \<Rightarrow> sem_place \<Rightarrow> 'z pc_scheme \<Rightarrow> sem_place \<times> 'z pc_scheme" where
  "sem_step i Outside s = (P_If, s)"
| "sem_step i Inside s = (V_Inc, s)"
| "sem_step i V_Inc s = V i V_Inc s"
| "sem_step i (V_Store x) s = V i (V_Store x) s"
| "sem_step i l s = P i l s"

text \<open>The places of all tasks; \<open>sem_run\<close> lets the tasks of a list step one after the other.\<close>

type_synonym 'z sem_sys = "(u32 \<Rightarrow> sem_place) \<times> 'z"

definition sem_turn :: "nat \<Rightarrow> u32 \<Rightarrow> 'z pc_scheme sem_sys \<Rightarrow> 'z pc_scheme sem_sys" where
  "sem_turn i t x = (let (l, s) = sem_step i (fst x t) (snd x) in ((fst x)(t := l), s))"

primrec sem_run :: "nat \<Rightarrow> u32 list \<Rightarrow> 'z pc_scheme sem_sys \<Rightarrow> 'z pc_scheme sem_sys" where
  "sem_run i [] x = x"
| "sem_run i (t # ts) x = sem_run i ts (sem_turn i t x)"

section \<open>Runs without a switch inside an update\<close>

text \<open>Between the test of \<open>P\<close> and its write, and between the read and the write of \<open>V\<close>, a task updates.\<close>

fun updating :: "sem_place \<Rightarrow> bool" where
  "updating P_Dec = True"
| "updating (P_Store x) = True"
| "updating (V_Store x) = True"
| "updating l = False"

fun holding :: "sem_place \<Rightarrow> bool" where
  "holding Inside = True"
| "holding V_Inc = True"
| "holding (V_Store x) = True"
| "holding l = False"

text \<open>\<open>unbroken i prv ts x\<close>: in the run of \<open>ts\<close> after a step of \<open>prv\<close> no task is left while it updates.\<close>

primrec unbroken :: "nat \<Rightarrow> u32 \<Rightarrow> u32 list \<Rightarrow> 'z pc_scheme sem_sys \<Rightarrow> bool" where
  "unbroken i prv [] x \<longleftrightarrow> True"
| "unbroken i prv (t # ts) x \<longleftrightarrow> (t = prv \<or> \<not> updating (fst x prv)) \<and> unbroken i t ts (sem_turn i t x)"

definition holders :: "'z sem_sys \<Rightarrow> u32 set" where
  "holders x = {t. holding (fst x t)}"

text \<open>What holds then: only \<open>prv\<close> updates, and it has read the value as it is.\<close>

definition sem_inv :: "nat \<Rightarrow> int \<Rightarrow> u32 \<Rightarrow> 'z pc_scheme sem_sys \<Rightarrow> bool" where
  "sem_inv i v0 prv x \<longleftrightarrow> i < length (sems (snd x)) \<and> 0 \<le> sint (sem_get i (snd x)) \<and> v0 < 2 ^ 31 \<and>
     sint (sem_get i (snd x)) + int (card (holders x)) = v0 \<and> (\<forall>t. t \<noteq> prv \<longrightarrow> \<not> updating (fst x t)) \<and>
     (case fst x prv of P_Dec \<Rightarrow> 0 < sint (sem_get i (snd x))
      | P_Store y \<Rightarrow> y = sem_get i (snd x) \<and> 0 < sint y | V_Store y \<Rightarrow> y = sem_get i (snd x) | _ \<Rightarrow> True)"

lemma sint_step:
  fixes v :: u32
  shows "sint v < 2 ^ 31 - 1 \<Longrightarrow> sint (v + 1) = sint v + 1" "0 < sint v \<Longrightarrow> sint (v - 1) = sint v - 1"
proof -
  have r: "- (2 ^ 31) \<le> sint v" "sint v < 2 ^ 31" using sint_greater_eq [of v] sint_less [of v] by simp_all
  have w: "sint (word_of_int k :: u32) = k" if "- (2 ^ 31) \<le> k" "k < 2 ^ 31" for k
    using that by (simp add: signed_of_int signed_take_bit_int_eq_self)
  have e: "v + 1 = word_of_int (sint v + 1)" "v - 1 = word_of_int (sint v - 1)" by simp_all
  show "sint (v + 1) = sint v + 1" if "sint v < 2 ^ 31 - 1" unfolding e(1) by (rule w) (use r that in simp_all)
  show "sint (v - 1) = sint v - 1" if "0 < sint v" unfolding e(2) by (rule w) (use r that in simp_all)
qed

lemma sem_set_simps [simp]:
  "length (sems (sem_set i v s)) = length (sems s)" "i < length (sems s) \<Longrightarrow> sem_get i (sem_set i v s) = v"
  "sem_set i v (sem_set i w s) = sem_set i v s"
proof -
  show "length (sems (sem_set i v s)) = length (sems s)" by (simp add: sem_set_def)
  show "i < length (sems s) \<Longrightarrow> sem_get i (sem_set i v s) = v" by (simp add: sem_set_def sem_get_def)
  show "sem_set i v (sem_set i w s) = sem_set i v s"
  proof (cases "i < length (sems s)")
    case True
    then show ?thesis by (simp add: sem_set_def)
  next
    case False
    then show ?thesis by (simp add: sem_set_def list_update_beyond)
  qed
qed

lemma holders_upd:
  "holders (c(t := l), s) = (if holding l then insert t (holders (c, s')) else holders (c, s') - {t})"
  by (auto simp: holders_def)

lemma sem_inv_step:
  assumes I: "sem_inv i v0 prv x" and n: "t = prv \<or> \<not> updating (fst x prv)"
  shows "sem_inv i v0 t (sem_turn i t x)"
proof -
  obtain c s where x: "x = (c, s)" by (cases x)
  note D = I [unfolded sem_inv_def x fst_conv snd_conv]
  have u: "\<not> updating (c u)" if "u \<noteq> t" for u using D n x that by (cases "u = prv") auto
  have up: "t = prv" if "updating (c t)" using D that by blast
  have m: "t \<in> holders (c, s) \<longleftrightarrow> holding (c t)" by (simp add: holders_def)
  have ins: "card (insert t (holders (c, s))) = Suc (card (holders (c, s)))" if "\<not> holding (c t)"
    using that m by simp
  have del: "card (holders (c, s)) = Suc (card (holders (c, s) - {t}))" if "holding (c t)"
    by (rule card_Suc_Diff1 [symmetric]) (use that m in simp_all)
  have same: "insert t (holders (c, s)) = holders (c, s)" if "holding (c t)" using that m by auto
  have sd: "holders (c, s) - {t} = holders (c, s)" if "\<not> holding (c t)" using that m by auto
  have le: "sint (sem_get i s) + 1 \<le> v0" if "holding (c t)" using D del [OF that] by simp
  show ?thesis
  proof (cases "c t")
    case (P_Store y)
    then have "t = prv" using up by simp
    then have y: "y = sem_get i s" "0 < sint (sem_get i s)" using D P_Store by auto
    then show ?thesis
      using D u ins P_Store sint_step(2) [OF y(2)]
      by (simp add: sem_inv_def sem_turn_def x holders_upd [where s' = s])
  next
    case (V_Store y)
    then have "t = prv" using up by simp
    then have y: "y = sem_get i s" "sint (sem_get i s) < 2 ^ 31 - 1" using D le V_Store by auto
    then show ?thesis
      using D u del V_Store sint_step(1) [OF y(2)]
      by (simp add: sem_inv_def sem_turn_def x holders_upd [where s' = s])
  next
    case P_Dec
    then have "t = prv" using up by simp
    then show ?thesis using D u sd P_Dec by (simp add: sem_inv_def sem_turn_def x holders_upd [where s' = s])
  qed (use D u sd same in \<open>simp_all add: sem_inv_def sem_turn_def x holders_upd [where s' = s]\<close>)
qed

lemma sem_run_inv: "sem_inv i v0 prv x \<Longrightarrow> unbroken i prv ts x \<Longrightarrow> \<exists>t. sem_inv i v0 t (sem_run i ts x)"
proof (induction ts arbitrary: prv x)
  case (Cons t ts)
  then have "t = prv \<or> \<not> updating (fst x prv)" "unbroken i t ts (sem_turn i t x)" by simp_all
  then show ?case using Cons.IH [OF sem_inv_step [OF Cons.prems(1)]] by simp
qed auto

section \<open>Runs with switches anywhere\<close>

lemma sem_run_append: "sem_run i (ts @ us) x = sem_run i us (sem_run i ts x)"
  by (induction ts arbitrary: x) simp_all

text \<open>A round in which every task of a list takes the same step.\<close>

lemma sem_round:
  assumes "distinct ts" and "\<And>t. t \<in> set ts \<Longrightarrow> c t = l" and "sem_step i l s = (l', s')" and "sem_step i l s' = (l', s')"
  shows "sem_run i ts (c, s) = (\<lambda>t. if t \<in> set ts then l' else c t, if ts = [] then s else s')"
proof -
  have same: "sem_run i ts (c, s') = (\<lambda>t. if t \<in> set ts then l' else c t, s')"
    if "distinct ts" "\<And>t. t \<in> set ts \<Longrightarrow> c t = l" for ts c
    using that
  proof (induction ts arbitrary: c)
    case (Cons t ts)
    then have "sem_run i ts (c(t := l'), s') = (\<lambda>u. if u \<in> set ts then l' else (c(t := l')) u, s')"
      by (intro Cons.IH) auto
    then show ?case using Cons.prems assms(4) by (simp add: sem_turn_def fun_eq_iff)
  qed simp
  show ?thesis
  proof (cases ts)
    case (Cons t us)
    then have "sem_run i us (c(t := l'), s') = (\<lambda>u. if u \<in> set us then l' else (c(t := l')) u, s')"
      using assms(1,2) by (intro same) auto
    then show ?thesis using Cons assms(1-3) by (simp add: sem_turn_def fun_eq_iff)
  qed simp
qed

section \<open>Properties\<close>

text \<open>
  C20.  While no task is interrupted between the test and the write of an update, the value of the semaphore
  and the number of its holders add up to the initial value, so that never more tasks hold it than that.
  But the code does not prevent the interrupts: in some order of their steps any tasks, however many, get
  past \<open>P\<close> and hold it together, and the value has sunk by one.
\<close>

theorem semaphore_needs_atomicity:
  assumes "i < length (sems s)" and "0 < sint (sem_get i s)"
  shows "(\<forall>prv ts. unbroken i prv ts (\<lambda>_. Outside, s) \<longrightarrow>
      (let x = sem_run i ts (\<lambda>_. Outside, s) in
       sint (sem_get i (snd x)) + int (card (holders x)) = sint (sem_get i s) \<and>
       int (card (holders x)) \<le> sint (sem_get i s))) \<and>
    (\<forall>ts. distinct ts \<and> ts \<noteq> [] \<longrightarrow>
      sem_run i (ts @ ts @ ts @ ts) (\<lambda>_. Outside, s) =
        (\<lambda>t. if t \<in> set ts then Inside else Outside, sem_set i (sem_get i s - 1) s))"
proof (intro conjI allI impI)
  fix prv ts assume u: "unbroken i prv ts (\<lambda>_. Outside, s)"
  have "sem_inv i (sint (sem_get i s)) prv (\<lambda>_. Outside, s)"
    using assms sint_less [of "sem_get i s"] by (simp add: sem_inv_def holders_def)
  from sem_run_inv [OF this u] show "let x = sem_run i ts (\<lambda>_. Outside, s) in
       sint (sem_get i (snd x)) + int (card (holders x)) = sint (sem_get i s) \<and>
       int (card (holders x)) \<le> sint (sem_get i s)"
    by (auto simp: sem_inv_def Let_def)
next
  fix ts :: "u32 list" assume ts: "distinct ts \<and> ts \<noteq> []"
  let ?at = "\<lambda>l t. if t \<in> set ts then l else Outside"
  note rnd = sem_round [OF conjunct1 [OF ts], where i = i]
  have 1: "sem_run i ts (\<lambda>_. Outside, s) = (?at P_If, s)"
    using rnd [of "\<lambda>_. Outside" Outside s P_If s] by simp
  have 2: "sem_run i ts (?at P_If, s) = (?at P_Dec, s)"
    using rnd [of "?at P_If" P_If s P_Dec s] assms by (simp add: fun_eq_iff)
  have 3: "sem_run i ts (?at P_Dec, s) = (?at (P_Store (sem_get i s)), s)"
    using rnd [of "?at P_Dec" P_Dec s "P_Store (sem_get i s)" s] by (simp add: fun_eq_iff)
  have 4: "sem_run i ts (?at (P_Store (sem_get i s)), s) = (?at Inside, sem_set i (sem_get i s - 1) s)"
    using rnd [of "?at (P_Store (sem_get i s))" "P_Store (sem_get i s)" s Inside "sem_set i (sem_get i s - 1) s"] ts
    by (simp add: fun_eq_iff)
  show "sem_run i (ts @ ts @ ts @ ts) (\<lambda>_. Outside, s) = (?at Inside, sem_set i (sem_get i s - 1) s)"
    by (simp add: sem_run_append 1 2 3 4)
qed

text \<open>A semaphore of value 1 that three tasks hold.\<close>

theorem semaphore_needs_atomicity_witness:
  "holders (sem_run 3 ([5, 6, 7] @ [5, 6, 7] @ [5, 6, 7] @ [5, 6, 7]) (\<lambda>_. Outside, sem_set 3 1 demo_pc)) = {5, 6, 7} \<and>
   int (card (holders (sem_run 3 [5, 5, 5, 5, 6, 6] (\<lambda>_. Outside, sem_set 3 1 demo_pc)))) \<le> 1"
proof -
  have v: "3 < length (sems (sem_set 3 1 demo_pc))" "sem_get 3 (sem_set 3 1 demo_pc) = 1" by (simp_all add: demo_pc_fields)
  then have p: "0 < sint (sem_get 3 (sem_set 3 1 demo_pc))" by simp
  have u: "unbroken 3 5 [5, 5, 5, 5, 6, 6] (\<lambda>_. Outside, sem_set 3 1 demo_pc)" using v by (simp add: sem_turn_def)
  have d: "distinct [5, 6, 7 :: u32] \<and> [5, 6, 7 :: u32] \<noteq> []" by simp
  note T = semaphore_needs_atomicity [OF v(1) p]
  from T [THEN conjunct2, rule_format, OF d] have "holders (sem_run 3 ([5, 6, 7] @ [5, 6, 7] @ [5, 6, 7] @ [5, 6, 7]) (\<lambda>_. Outside, sem_set 3 1 demo_pc)) = {5, 6, 7}"
    by (auto simp: holders_def split: if_splits)
  moreover from T [THEN conjunct1, rule_format, OF u] v(2) have
    "int (card (holders (sem_run 3 [5, 5, 5, 5, 6, 6] (\<lambda>_. Outside, sem_set 3 1 demo_pc)))) \<le> 1"
    by (simp add: Let_def)
  ultimately show ?thesis ..
qed

end
