(* ===== verification/Sdcard.thy ===== *)
theory Sdcard
  imports Process Memory "HOL-Library.Monad_Syntax"
begin

text \<open>
  The SD card driver, \<^verbatim>\<open>src/kernel/driver/sd.c\<close>: one sector is moved at a time through the
  window of 128 words at \<open>SD_BUF\<close>, with a command register and two event registers that the
  driver polls.  The controller is hardware: the values its event registers show, read after
  read, are the functions \<open>cmd_events\<close> and \<open>data_events\<close> of the command and its argument; a
  successful transfer copies the window to or from the sector, and \<open>torn\<close> is what a write that
  reports an error leaves in the sector.  A poll that never sees a nonzero value does not return:
  None.  From here on the state also has the bytes of memory, \<open>kmem\<close>.
\<close>

section \<open>Words in memory, low byte first\<close>

definition load16 :: "mem \<Rightarrow> u32 \<Rightarrow> u32" where
  "load16 m p = ucast (m p) OR push_bit 8 (ucast (m (p + 1)))"

definition load32 :: "mem \<Rightarrow> u32 \<Rightarrow> u32" where
  "load32 m p = load16 m p OR push_bit 16 (load16 m (p + 2))"

definition store16 :: "u32 \<Rightarrow> u32 \<Rightarrow> mem \<Rightarrow> mem" where
  "store16 p v m = m(p := ucast v, p + 1 := ucast (drop_bit 8 v))"

definition store32 :: "u32 \<Rightarrow> u32 \<Rightarrow> mem \<Rightarrow> mem" where
  "store32 p v m = store16 (p + 2) (drop_bit 16 v) (store16 p v m)"

section \<open>The controller\<close>

type_synonym sector = "nat \<Rightarrow> u32"

record sd_card =
  SD_CTRL :: "nat \<Rightarrow> u32"
  SD_BUF :: sector
  sectors :: "u32 \<Rightarrow> sector"
  cmd_events :: "u32 \<Rightarrow> u32 \<Rightarrow> nat \<Rightarrow> u32"
  data_events :: "u32 \<Rightarrow> u32 \<Rightarrow> nat \<Rightarrow> u32"
  torn :: "u32 \<Rightarrow> sector \<Rightarrow> sector"

record disk = pc +
  kmem :: mem
  sd :: sd_card

definition upd_sd :: "(sd_card \<Rightarrow> sd_card) \<Rightarrow> 'z disk_scheme \<Rightarrow> 'z disk_scheme" where
  "upd_sd g s = s\<lparr>sd := g (sd s)\<rparr>"

definition upd_mem :: "(mem \<Rightarrow> mem) \<Rightarrow> 'z disk_scheme \<Rightarrow> 'z disk_scheme" where
  "upd_mem g s = s\<lparr>kmem := g (kmem s)\<rparr>"

definition set_ctrl :: "nat \<Rightarrow> u32 \<Rightarrow> sd_card \<Rightarrow> sd_card" where
  "set_ctrl i v d = d\<lparr>SD_CTRL := (SD_CTRL d)(i := v)\<rparr>"

partial_function (option) sd_poll :: "(nat \<Rightarrow> u32) \<Rightarrow> nat \<Rightarrow> u32 option" where
  "sd_poll ev i = (if ev i = 0 then sd_poll ev (Suc i) else Some (ev i))"

declare sd_poll.simps [code]

definition sd_send_cmd_blocking :: "u32 \<Rightarrow> u32 \<Rightarrow> sd_card \<Rightarrow> (sd_card \<times> u32) option" where
  "sd_send_cmd_blocking cmd argument d =
     do {
       let d = set_ctrl 0 argument (set_ctrl 1 cmd d);
       cmd_event_status \<leftarrow> sd_poll (cmd_events d cmd argument) 0;
       if cmd_event_status AND 1 \<noteq> 0 then Some (d, 0) else Some (d, cmd_event_status)
     }"

section \<open>One sector\<close>

primrec copy_in :: "nat \<Rightarrow> u32 \<Rightarrow> sector \<Rightarrow> mem \<Rightarrow> mem" where
  "copy_in 0 buffer w m = m"
| "copy_in (Suc n) buffer w m = store32 (buffer + 4 * of_nat n) (w n) (copy_in n buffer w m)"

definition copy_out :: "u32 \<Rightarrow> mem \<Rightarrow> sector \<Rightarrow> sector" where
  "copy_out buffer m w = (\<lambda>i. if i < 128 then load32 m (buffer + 4 * of_nat i) else w i)"

definition sd_read_sector_blocking :: "u32 \<Rightarrow> u32 \<Rightarrow> 'z disk_scheme \<Rightarrow> ('z disk_scheme \<times> u32) option" where
  "sd_read_sector_blocking ident buffer s =
     do {
       let (c, old) = disable_interrupts (cpu s);
       let s = upd_sd (set_ctrl 15 0 \<circ> set_ctrl 24 0) (s\<lparr>cpu := c\<rparr>);
       (d, result) \<leftarrow> sd_send_cmd_blocking 0x1139 ident (sd s);
       let s = s\<lparr>sd := d\<rparr>;
       (s, result) \<leftarrow>
         (if result \<noteq> 0 then Some (s, result)
          else do {
            des \<leftarrow> sd_poll (data_events d 0x1139 ident) 0;
            if des AND 1 \<noteq> 0
            then do {
              let s = upd_sd (\<lambda>d. d\<lparr>SD_BUF := sectors d ident\<rparr>) s;
              let s = upd_mem (copy_in 128 buffer (SD_BUF (sd s))) s;
              Some (s, 0)
            }
            else Some (s, des)
          });
       Some (s\<lparr>cpu := restore_interrupts old (cpu s)\<rparr>, result)
     }"

definition sd_write_sector_blocking :: "u32 \<Rightarrow> u32 \<Rightarrow> 'z disk_scheme \<Rightarrow> ('z disk_scheme \<times> u32) option" where
  "sd_write_sector_blocking ident buffer s =
     do {
       let s = s\<lparr>cpu := fst (disable_interrupts (cpu s))\<rparr>;
       let s = upd_sd (set_ctrl 15 0 \<circ> set_ctrl 24 0) s;
       let s = upd_sd (\<lambda>d. d\<lparr>SD_BUF := copy_out buffer (kmem s) (SD_BUF d)\<rparr>) s;
       (d, result) \<leftarrow> sd_send_cmd_blocking 0x1859 ident (sd s);
       let s = s\<lparr>sd := d\<rparr>;
       (s, result) \<leftarrow>
         (if result \<noteq> 0 then Some (s, result)
          else do {
            des \<leftarrow> sd_poll (data_events d 0x1859 ident) 0;
            if des AND 1 \<noteq> 0
            then Some (upd_sd (\<lambda>d. d\<lparr>sectors := (sectors d)(ident := SD_BUF d)\<rparr>) s, 0)
            else Some (upd_sd (\<lambda>d. d\<lparr>sectors := (sectors d)(ident := torn d ident (SD_BUF d))\<rparr>) s, des)
          });
       Some (s\<lparr>cpu := fst (enable_interrupts (cpu s))\<rparr>, result)
     }"

section \<open>Several sectors\<close>

definition SECTOR_SHIFT :: nat where "SECTOR_SHIFT = 9"
definition SECTOR_SIZE :: u32 where "SECTOR_SIZE = 512"

lemmas sector_consts [os_const] = SECTOR_SHIFT_def SECTOR_SIZE_def

primrec sd_read_loop :: "nat \<Rightarrow> u32 \<Rightarrow> u32 \<Rightarrow> 'z disk_scheme \<Rightarrow> ('z disk_scheme \<times> bool) option" where
  "sd_read_loop 0 buf addr s = Some (s, True)"
| "sd_read_loop (Suc n) buf addr s =
     do {
       (s, result) \<leftarrow> sd_read_sector_blocking addr buf s;
       if result \<noteq> 0 then Some (s, False) else sd_read_loop n (buf + SECTOR_SIZE) (addr + 1) s
     }"

definition sd_read_block :: "u32 \<Rightarrow> u32 \<Rightarrow> u32 \<Rightarrow> 'z disk_scheme \<Rightarrow> ('z disk_scheme \<times> bool) option" where
  "sd_read_block buf addr n_sec s = sd_read_loop (unat n_sec) buf addr s"

primrec sd_write_loop :: "nat \<Rightarrow> u32 \<Rightarrow> u32 \<Rightarrow> 'z disk_scheme \<Rightarrow> ('z disk_scheme \<times> bool) option" where
  "sd_write_loop 0 buf addr s = Some (s, True)"
| "sd_write_loop (Suc n) buf addr s =
     do {
       (s, result) \<leftarrow> sd_write_sector_blocking addr buf s;
       if result \<noteq> 0 then Some (s, False) else sd_write_loop n (buf + SECTOR_SIZE) (addr + 1) s
     }"

definition sd_write_block :: "u32 \<Rightarrow> u32 \<Rightarrow> u32 \<Rightarrow> 'z disk_scheme \<Rightarrow> ('z disk_scheme \<times> bool) option" where
  "sd_write_block buf addr n_sec s = sd_write_loop (unat n_sec) buf addr s"

section \<open>Bytes of words and of sectors\<close>

definition byte_of :: "u32 \<Rightarrow> nat \<Rightarrow> u8" where
  "byte_of v j = ucast (drop_bit (8 * j) v)"

definition sec_byte :: "sector \<Rightarrow> nat \<Rightarrow> u8" where
  "sec_byte w k = byte_of (w (k div 4)) (k mod 4)"

lemma byte_cases: "j < 4 \<Longrightarrow> j = 0 \<or> j = 1 \<or> j = 2 \<or> j = 3" for j :: nat
  by linarith

lemma bit_ucast_push: "bit (push_bit k (ucast (b :: u8)) :: u32) i \<longleftrightarrow> i < 32 \<and> k \<le> i \<and> bit b (i - k)"
  by (auto simp: bit_simps dest: bit_imp_le_length)

lemma byte_of_load32: "j < 4 \<Longrightarrow> byte_of (load32 m p) j = m (p + of_nat j)"
proof -
  have 8: "bit b n \<Longrightarrow> n < 8" for b :: u8 and n
    using bit_imp_le_length [of b n] by simp
  show "j < 4 \<Longrightarrow> byte_of (load32 m p) j = m (p + of_nat j)"
    by (drule byte_cases, rule bit_word_eqI)
      (auto simp: byte_of_def load32_def load16_def bit_simps add.assoc dest: 8)
qed

lemma of_byte_eqI: "(\<And>j. j < 4 \<Longrightarrow> byte_of v j = byte_of w j) \<Longrightarrow> v = w"
proof (rule bit_word_eqI)
  fix n assume e: "\<And>j. j < 4 \<Longrightarrow> byte_of v j = byte_of w j" and n: "n < LENGTH(32)"
  then have "n div 4 div 2 < 4" by simp
  then have "bit (byte_of v (n div 8)) (n mod 8) = bit (byte_of w (n div 8)) (n mod 8)"
    using e [of "n div 8"] n by simp
  then show "bit v n = bit w n" using n by (simp add: byte_of_def bit_simps)
qed

lemma store32_at: "store32 p v m a = (if unat (a - p) < 4 then byte_of v (unat (a - p)) else m a)"
proof (cases "unat (a - p) < 4")
  case True
  obtain j where j: "unat (a - p) = j" by blast
  then have a: "a = p + of_nat j" by (simp add: j [symmetric])
  show ?thesis using byte_cases [OF True] unfolding j unfolding a
    by (auto simp: store32_def store16_def byte_of_def drop_bit_drop_bit)
next
  case False
  then have "a \<noteq> p" "a \<noteq> p + 1" "a \<noteq> p + 2" "a \<noteq> p + 3" by auto
  with False show ?thesis by (simp add: store32_def store16_def add.assoc)
qed

lemma load32_store32 [simp]: "load32 (store32 p v m) p = v"
  by (rule of_byte_eqI) (simp add: byte_of_load32 store32_at unat_of_nat)

lemma load32_frame: "(\<And>j. j < 4 \<Longrightarrow> m (p + of_nat j) = m' (p + of_nat j)) \<Longrightarrow> load32 m p = load32 m' p"
  by (rule of_byte_eqI) (simp add: byte_of_load32)

lemma offset_step:
  assumes "4 * n + 4 \<le> 2 ^ 32"
  shows "unat (a - (b + 4 * of_nat n :: u32)) < 4 \<longleftrightarrow> 4 * n \<le> unat (a - b) \<and> unat (a - b) < 4 * n + 4"
    and "4 * n \<le> unat (a - b) \<Longrightarrow> unat (a - (b + 4 * of_nat n :: u32)) = unat (a - b) - 4 * n"
proof -
  have q: "unat (of_nat (4 * n) :: u32) = 4 * n" using assms by (simp add: unat_of_nat del: of_nat_mult)
  have d: "a - (b + 4 * of_nat n) = (a - b) - of_nat (4 * n)" by simp
  show *: "unat (a - (b + 4 * of_nat n)) = unat (a - b) - 4 * n" if "4 * n \<le> unat (a - b)"
    unfolding d using that by (subst unat_sub) (simp_all only: word_le_nat_alt q)
  show "unat (a - (b + 4 * of_nat n)) < 4 \<longleftrightarrow> 4 * n \<le> unat (a - b) \<and> unat (a - b) < 4 * n + 4"
  proof (cases "4 * n \<le> unat (a - b)")
    case True
    then show ?thesis using * by auto
  next
    case False
    then have "\<not> of_nat (4 * n) \<le> a - b" by (simp add: word_le_nat_alt q del: of_nat_mult)
    then have "unat ((a - b) - of_nat (4 * n)) = 2 ^ 32 + unat (a - b) - 4 * n"
      using unat_sub_if_size [of "a - b" "of_nat (4 * n)"] q by (simp add: word_le_nat_alt word_size)
    then show ?thesis unfolding d using False assms by linarith
  qed
qed

lemma copy_in_at:
  "4 * n \<le> 2 ^ 32 \<Longrightarrow>
   copy_in n b w m a = (if unat (a - b) < 4 * n then sec_byte w (unat (a - b)) else m a)"
proof (induction n)
  case (Suc n)
  then have n: "4 * n + 4 \<le> 2 ^ 32" by simp
  show ?case
  proof (cases "4 * n \<le> unat (a - b) \<and> unat (a - b) < 4 * n + 4")
    case True
    then have "unat (a - b) div 4 = n" "unat (a - b) mod 4 = unat (a - b) - 4 * n"
      by (auto simp: div_nat_eqI modulo_nat_def)
    with True show ?thesis
      using offset_step [OF n, of a b] by (simp add: store32_at sec_byte_def)
  next
    case False
    with Suc.IH Suc.prems show ?thesis
      using offset_step(1) [OF n, of a b] by (auto simp: store32_at)
  qed
qed simp

lemma sec_byte_copy_out: "k < 512 \<Longrightarrow> sec_byte (copy_out b m w) k = m (b + of_nat k)"
proof -
  assume k: "k < 512"
  have "k div 4 * 4 + k mod 4 = k" by simp
  then have "4 * of_nat (k div 4) + of_nat (k mod 4) = (of_nat k :: u32)"
    by (metis mult.commute of_nat_add of_nat_mult of_nat_numeral)
  moreover have "k div 4 < 128" using k by linarith
  ultimately show ?thesis
    by (simp add: sec_byte_def copy_out_def byte_of_load32 add.assoc)
qed

section \<open>A card that works\<close>

definition sd_working :: "sd_card \<Rightarrow> bool" where
  "sd_working d \<longleftrightarrow>
     (\<forall>cmd x. \<exists>v. sd_poll (cmd_events d cmd x) 0 = Some v \<and> v AND 1 \<noteq> 0) \<and>
     (\<forall>cmd x. \<exists>v. sd_poll (data_events d cmd x) 0 = Some v \<and> v AND 1 \<noteq> 0)"

definition io_done :: "'z disk_scheme \<Rightarrow> 'z disk_scheme \<Rightarrow> bool" where
  "io_done s t \<longleftrightarrow> t = s\<lparr>cpu := cpu t, kmem := kmem t, sd := sd t\<rparr> \<and> sd_working (sd t)"

lemma io_done_refl: "sd_working (sd s) \<Longrightarrow> io_done s s"
  by (simp add: io_done_def)

lemma io_done_trans: "io_done s t \<Longrightarrow> io_done t u \<Longrightarrow> io_done s u"
  by (cases s, cases t, cases u) (simp add: io_done_def pc.defs vm.defs slab.defs disk.defs buddy.defs)

lemma sd_send_cmd_ok:
  "sd_working d \<Longrightarrow> sd_send_cmd_blocking cmd x d = Some (set_ctrl 0 x (set_ctrl 1 cmd d), 0)"
proof -
  assume "sd_working d"
  then obtain v where "sd_poll (cmd_events d cmd x) 0 = Some v" "v AND 1 \<noteq> 0"
    unfolding sd_working_def by blast
  then show ?thesis by (simp add: sd_send_cmd_blocking_def set_ctrl_def)
qed

lemma sd_working_fields [simp]:
  "sd_working (set_ctrl i v d) = sd_working d" "sd_working (d\<lparr>SD_BUF := w\<rparr>) = sd_working d"
  "sd_working (d\<lparr>sectors := x\<rparr>) = sd_working d" "sectors (set_ctrl i v d) = sectors d"
  "SD_BUF (set_ctrl i v d) = SD_BUF d"
  by (simp_all add: sd_working_def set_ctrl_def)

lemma sd_read_sector_ok:
  assumes w: "sd_working (sd s)"
  shows "\<exists>t. sd_read_sector_blocking i b s = Some (t, 0) \<and> io_done s t \<and> sectors (sd t) = sectors (sd s) \<and>
    kmem t = copy_in 128 b (sectors (sd s) i) (kmem s) \<and> cp0_status (cpu t) = cp0_status (cpu s)"
proof -
  obtain c old where c: "disable_interrupts (cpu s) = (c, old)" by fastforce
  let ?d = "set_ctrl 15 0 (set_ctrl 24 0 (sd s))"
  obtain v where v: "sd_poll (data_events (sd s) 0x1139 i) 0 = Some v" "v AND 1 \<noteq> 0"
    using w unfolding sd_working_def by blast
  have e: "data_events (set_ctrl 0 i (set_ctrl (Suc 0) 0x1139 ?d)) = data_events (sd s)"
    by (simp add: set_ctrl_def)
  show ?thesis
    using w v sd_send_cmd_ok [of ?d "0x1139" i] restore_status [of c "cpu s"]
    by (simp add: sd_read_sector_blocking_def c upd_sd_def upd_mem_def io_done_def e)
qed

lemma sd_write_sector_ok:
  assumes w: "sd_working (sd s)"
  shows "\<exists>t. sd_write_sector_blocking i b s = Some (t, 0) \<and> io_done s t \<and> kmem t = kmem s \<and>
    sectors (sd t) = (sectors (sd s))(i := copy_out b (kmem s) (SD_BUF (sd s))) \<and>
    cp0_status (cpu t) = cp0_status (cpu s) OR 1"
proof -
  let ?d = "set_ctrl 15 0 (set_ctrl 24 0 (sd s))\<lparr>SD_BUF := copy_out b (kmem s) (SD_BUF (sd s))\<rparr>"
  obtain v where v: "sd_poll (data_events (sd s) 0x1859 i) 0 = Some v" "v AND 1 \<noteq> 0"
    using w unfolding sd_working_def by blast
  have e: "data_events (set_ctrl 0 i (set_ctrl (Suc 0) 0x1859 ?d)) = data_events (sd s)"
    by (simp add: set_ctrl_def)
  have o: "(cp0_status (cpu s) AND NOT 1) OR 1 = cp0_status (cpu s) OR 1"
    by (rule bit_word_eqI) (auto simp: bit_simps)
  show ?thesis
    using w v sd_send_cmd_ok [of ?d "0x1859" i] o
    by (simp add: sd_write_sector_blocking_def upd_sd_def io_done_def e enable_interrupts_def
        disable_interrupts_eq(3))
qed

subsection \<open>Transfers\<close>

definition disk_byte :: "sd_card \<Rightarrow> u32 \<Rightarrow> nat \<Rightarrow> u8" where
  "disk_byte d x k = sec_byte (sectors d (x + of_nat (k div 512))) (k mod 512)"

lemma unat_shift:
  "unat k \<le> unat (a - b) \<Longrightarrow> unat (a - (b + k)) = unat (a - b) - unat k"
  "unat (a - b) < unat k \<Longrightarrow> unat (a - (b + k)) = 2 ^ 32 + unat (a - b) - unat k"
  for a b k :: u32
proof -
  have d: "a - (b + k) = (a - b) - k" by simp
  show "unat k \<le> unat (a - b) \<Longrightarrow> unat (a - (b + k)) = unat (a - b) - unat k"
    unfolding d by (subst unat_sub) (simp_all add: word_le_nat_alt)
  show "unat (a - b) < unat k \<Longrightarrow> unat (a - (b + k)) = 2 ^ 32 + unat (a - b) - unat k"
    unfolding d using unat_sub_if_size [of "a - b" k] by (simp add: word_size)
qed

lemma disk_byte_next: "512 \<le> k \<Longrightarrow> disk_byte d (x + 1) (k - 512) = disk_byte d x k"
proof -
  assume k: "512 \<le> k"
  then have "k div 512 = Suc ((k - 512) div 512)" "k mod 512 = (k - 512) mod 512"
    by (simp_all add: le_div_geq le_mod_geq)
  then show ?thesis by (simp add: disk_byte_def add.assoc)
qed

lemma sd_read_loop_ok:
  assumes "sd_working (sd s)" and "512 * n \<le> 2 ^ 32"
  shows "\<exists>t. sd_read_loop n b x s = Some (t, True) \<and> io_done s t \<and> sectors (sd t) = sectors (sd s) \<and>
    kmem t = (\<lambda>a. if unat (a - b) < 512 * n then disk_byte (sd s) x (unat (a - b)) else kmem s a) \<and>
    cp0_status (cpu t) = cp0_status (cpu s)"
  using assms
proof (induction n arbitrary: b x s)
  case 0
  then show ?case by (simp add: io_done_refl)
next
  case (Suc n)
  obtain u where u: "sd_read_sector_blocking x b s = Some (u, 0)" "io_done s u" "sectors (sd u) = sectors (sd s)"
    "kmem u = copy_in 128 b (sectors (sd s) x) (kmem s)" "cp0_status (cpu u) = cp0_status (cpu s)"
    using sd_read_sector_ok [OF Suc.prems(1)] by blast
  then have "sd_working (sd u)" by (simp add: io_done_def)
  then obtain t where t: "sd_read_loop n (b + 512) (x + 1) u = Some (t, True)" "io_done u t"
    "sectors (sd t) = sectors (sd u)" "cp0_status (cpu t) = cp0_status (cpu u)"
    "kmem t = (\<lambda>a. if unat (a - (b + 512)) < 512 * n then disk_byte (sd u) (x + 1) (unat (a - (b + 512))) else kmem u a)"
    using Suc.IH Suc.prems(2) by fastforce
  have d: "disk_byte (sd u) = disk_byte (sd s)" by (simp add: disk_byte_def fun_eq_iff u(3))
  have "kmem t a = (if unat (a - b) < 512 * Suc n then disk_byte (sd s) x (unat (a - b)) else kmem s a)" for a
  proof (cases "512 \<le> unat (a - b)")
    case True
    then have o: "unat (a - (b + 512)) = unat (a - b) - 512" using unat_shift(1) [of 512 a b] by simp
    then show ?thesis using True by (auto simp: t(5) u(4) copy_in_at d disk_byte_next)
  next
    case False
    then have "unat (a - (b + 512)) = 2 ^ 32 + unat (a - b) - 512" using unat_shift(2) [of a b 512] by simp
    then have "\<not> unat (a - (b + 512)) < 512 * n" using Suc.prems(2) by simp
    then show ?thesis using False by (simp add: t(5) u(4) copy_in_at disk_byte_def)
  qed
  then show ?case
    using t u io_done_trans [OF u(2) t(2)] by (auto simp: SECTOR_SIZE_def)
qed

lemma sd_write_loop_ok:
  assumes "sd_working (sd s)" and "512 * n \<le> 2 ^ 32"
  shows "\<exists>t. sd_write_loop n b x s = Some (t, True) \<and> io_done s t \<and> kmem t = kmem s \<and>
    (\<forall>k<512 * n. disk_byte (sd t) x k = kmem s (b + of_nat k)) \<and>
    (\<forall>y. n \<le> unat (y - x) \<longrightarrow> sectors (sd t) y = sectors (sd s) y)"
  using assms
proof (induction n arbitrary: b x s)
  case 0
  then show ?case by (simp add: io_done_refl)
next
  case (Suc n)
  obtain u where u: "sd_write_sector_blocking x b s = Some (u, 0)" "io_done s u" "kmem u = kmem s"
    "sectors (sd u) = (sectors (sd s))(x := copy_out b (kmem s) (SD_BUF (sd s)))"
    using sd_write_sector_ok [OF Suc.prems(1)] by blast
  then have "sd_working (sd u)" by (simp add: io_done_def)
  then obtain t where t: "sd_write_loop n (b + 512) (x + 1) u = Some (t, True)" "io_done u t" "kmem t = kmem u"
    "\<And>k. k < 512 * n \<Longrightarrow> disk_byte (sd t) (x + 1) k = kmem u (b + 512 + of_nat k)"
    "\<And>y. n \<le> unat (y - (x + 1)) \<Longrightarrow> sectors (sd t) y = sectors (sd u) y"
    using Suc.IH [of u "b + 512" "x + 1"] Suc.prems(2) by auto
  have n: "n < 2 ^ 23" using Suc.prems(2) by simp
  have x: "sectors (sd t) x = sectors (sd u) x"
    using n by (intro t(5)) (simp add: unat_minus_1_u32)
  have "disk_byte (sd t) x k = kmem s (b + of_nat k)" if k: "k < 512 * Suc n" for k
  proof (cases "512 \<le> k")
    case True
    then have "b + 512 + of_nat (k - 512) = b + of_nat k" by (simp add: of_nat_diff)
    then show ?thesis using t(4) [of "k - 512"] True k by (simp add: disk_byte_next u(3))
  next
    case False
    then show ?thesis by (simp add: disk_byte_def x u(4) sec_byte_copy_out)
  qed
  moreover have "sectors (sd t) y = sectors (sd s) y" if y: "Suc n \<le> unat (y - x)" for y
  proof -
    have "unat (y - (x + 1)) = unat (y - x) - 1" using y unat_shift(1) [of 1 y x] by simp
    moreover have "y \<noteq> x" using y by auto
    ultimately show ?thesis using t(5) [of y] y by (simp add: u(4))
  qed
  ultimately show ?case
    using t u io_done_trans [OF u(2) t(2)] by (simp add: SECTOR_SIZE_def)
qed

lemma sd_read_block_ok:
  assumes "sd_working (sd s)" and "unat n \<le> 2 ^ 23"
  shows "\<exists>t. sd_read_block b x n s = Some (t, True) \<and> io_done s t \<and> sectors (sd t) = sectors (sd s) \<and>
    kmem t = (\<lambda>a. if unat (a - b) < 512 * unat n then disk_byte (sd s) x (unat (a - b)) else kmem s a) \<and>
    cp0_status (cpu t) = cp0_status (cpu s)"
  unfolding sd_read_block_def by (rule sd_read_loop_ok) (use assms in simp_all)

lemma sd_write_block_ok:
  assumes "sd_working (sd s)" and "unat n \<le> 2 ^ 23"
  shows "\<exists>t. sd_write_block b x n s = Some (t, True) \<and> io_done s t \<and> kmem t = kmem s \<and>
    (\<forall>k<512 * unat n. disk_byte (sd t) x k = kmem s (b + of_nat k)) \<and>
    (\<forall>y. unat n \<le> unat (y - x) \<longrightarrow> sectors (sd t) y = sectors (sd s) y)"
  unfolding sd_write_block_def by (rule sd_write_loop_ok) (use assms in simp_all)

section \<open>Properties\<close>

text \<open>A card whose event registers always show success at the second poll.\<close>

definition demo_card :: sd_card where
  "demo_card = \<lparr>SD_CTRL = \<lambda>_. 0, SD_BUF = \<lambda>_. 0, sectors = \<lambda>_ _. 0, cmd_events = \<lambda>_ _ i. of_nat i,
     data_events = \<lambda>_ _ i. of_nat i, torn = \<lambda>_ w. w\<rparr>"

definition demo_disk :: "mem \<Rightarrow> disk" where
  "demo_disk m = pc.extend demo_pc \<lparr>kmem = m, sd = demo_card\<rparr>"

lemma demo_card_working: "sd_working demo_card"
proof -
  have "sd_poll (\<lambda>i. of_nat i) 0 = Some 1" by (subst sd_poll.simps, simp, subst sd_poll.simps) simp
  then show ?thesis by (simp add: sd_working_def demo_card_def)
qed

text \<open>
  C24.  A block that is written to a working card and read back, into any buffer, arrives as it was
  in memory when it was written; the sectors outside the block keep their contents.
\<close>

theorem sd_write_read:
  assumes "sd_working (sd s)" and "unat n \<le> 2 ^ 23"
  shows "\<exists>t u. sd_write_block b x n s = Some (t, True) \<and> sd_read_block b' x n t = Some (u, True) \<and>
    (\<forall>k<512 * unat n. kmem u (b' + of_nat k) = kmem s (b + of_nat k)) \<and>
    (\<forall>y. unat n \<le> unat (y - x) \<longrightarrow> sectors (sd u) y = sectors (sd s) y)"
proof -
  obtain t where t: "sd_write_block b x n s = Some (t, True)" "io_done s t"
    "\<And>k. k < 512 * unat n \<Longrightarrow> disk_byte (sd t) x k = kmem s (b + of_nat k)"
    "\<And>y. unat n \<le> unat (y - x) \<Longrightarrow> sectors (sd t) y = sectors (sd s) y"
    using sd_write_block_ok [OF assms] by blast
  then have "sd_working (sd t)" by (simp add: io_done_def)
  then obtain u where u: "sd_read_block b' x n t = Some (u, True)" "sectors (sd u) = sectors (sd t)"
    "kmem u = (\<lambda>a. if unat (a - b') < 512 * unat n then disk_byte (sd t) x (unat (a - b')) else kmem t a)"
    using sd_read_block_ok assms(2) by blast
  have "kmem u (b' + of_nat k) = kmem s (b + of_nat k)" if k: "k < 512 * unat n" for k
  proof (cases "k < 2 ^ 32")
    case True
    then have "unat (b' + of_nat k - b') = k" by (simp add: unat_of_nat)
    then show ?thesis using k by (simp add: u(3) t(3))
  qed (use k assms(2) in simp)
  with t u show ?thesis by simp
qed

theorem sd_write_read_witness:
  "\<exists>t u. sd_write_block 0x1000 7 2 (demo_disk (\<lambda>a. ucast a)) = Some (t, True) \<and>
     sd_read_block 0x9000 7 2 t = Some (u, True) \<and> kmem u 0x9205 = 5 \<and> sectors (sd u) 9 = sectors demo_card 9"
proof -
  have w: "sd_working (sd (demo_disk (\<lambda>a. ucast a)))"
    by (simp add: demo_disk_def pc.defs disk.defs demo_card_working)
  obtain t u where tu: "sd_write_block 0x1000 7 2 (demo_disk (\<lambda>a. ucast a)) = Some (t, True)"
    "sd_read_block 0x9000 7 2 t = Some (u, True)"
    "\<And>k. k < 1024 \<Longrightarrow> kmem u (0x9000 + of_nat k) = kmem (demo_disk (\<lambda>a. ucast a)) (0x1000 + of_nat k)"
    "\<And>y. 2 \<le> unat (y - 7) \<Longrightarrow> sectors (sd u) y = sectors (sd (demo_disk (\<lambda>a. ucast a))) y"
    using sd_write_read [OF w, of 2 "0x1000" 7 "0x9000"] by auto
  have "kmem u 0x9205 = 5" "sectors (sd u) 9 = sectors demo_card 9"
    using tu(3) [of 517] tu(4) [of 9] by (simp_all add: demo_disk_def pc.defs disk.defs)
  with tu(1,2) show ?thesis by blast
qed

end
