(* ===== verification/Fs_Names.thy ===== *)
theory Fs_Names
  imports Sdcard
begin

text \<open>
  File names: the strings \<open>qstr\<close> of \<^verbatim>\<open>src/include/ouros/fs/fs.h\<close>, the comparisons of
  \<^verbatim>\<open>src/kernel/fs/fat/fat.c\<close> and \<^verbatim>\<open>src/kernel/fs/ext2/ext2.c\<close>, the conversions between names and
  the 8.3 form of a directory entry, the hash functions of \<^verbatim>\<open>src/kernel/fs/fscache.c\<close> and the
  string tests of \<^verbatim>\<open>src/kernel/fs/open.c\<close>.  A name is a pointer and a length; its bytes are those
  of the store.
\<close>

section \<open>Names and their comparison\<close>

record qstr =
  q_len :: u32
  q_name :: u32

definition TO_UPPER_CASE :: "u8 \<Rightarrow> u8" where
  "TO_UPPER_CASE c = (if 97 \<le> c \<and> c \<le> 122 then c - (97 - 65) else c)"

definition TO_LOWER_CASE :: "u8 \<Rightarrow> u8" where
  "TO_LOWER_CASE c = (if 65 \<le> c \<and> c \<le> 90 then c - (65 - 97) else c)"

text \<open>
  The common loop of the two comparisons: the first position, below the shorter length, where the
  two names differ up to \<open>norm\<close> or the first one has a zero.
\<close>

primrec cmp_loop :: "(u8 \<Rightarrow> u8) \<Rightarrow> mem \<Rightarrow> nat \<Rightarrow> u32 \<Rightarrow> u32 \<Rightarrow> nat \<Rightarrow> nat" where
  "cmp_loop norm m 0 p q pos = pos"
| "cmp_loop norm m (Suc n) p q pos =
     (if m p \<noteq> 0 \<and> norm (m p) = norm (m q) then cmp_loop norm m n (p + 1) (q + 1) (Suc pos) else pos)"

definition compare_by :: "(u8 \<Rightarrow> u8) \<Rightarrow> mem \<Rightarrow> qstr \<Rightarrow> qstr \<Rightarrow> int" where
  "compare_by norm m a b =
     (let pos = cmp_loop norm m (min (unat (q_len a)) (unat (q_len b))) (q_name a) (q_name b) 0;
          cur_a = (if pos = unat (q_len a) then 0 else m (q_name a + of_nat pos));
          cur_b = (if pos = unat (q_len b) then 0 else m (q_name b + of_nat pos))
      in sint cur_a - sint cur_b)"

definition compare_fat32 :: "mem \<Rightarrow> qstr \<Rightarrow> qstr \<Rightarrow> int" where
  "compare_fat32 = compare_by TO_UPPER_CASE"

definition compare_ext2 :: "mem \<Rightarrow> qstr \<Rightarrow> qstr \<Rightarrow> int" where
  "compare_ext2 = compare_by (\<lambda>c. c)"

section \<open>The 8.3 form\<close>

definition DUMMY_CHAR_8DOT3 :: u8 where "DUMMY_CHAR_8DOT3 = 32"

text \<open>\<open>dot_scan m p i\<close>: the last position below \<open>i\<close> that holds a dot.\<close>

primrec dot_scan :: "mem \<Rightarrow> u32 \<Rightarrow> nat \<Rightarrow> nat option" where
  "dot_scan m p 0 = None"
| "dot_scan m p (Suc i) = (if m (p + of_nat i) = 46 then Some i else dot_scan m p i)"

primrec put_name :: "nat \<Rightarrow> nat \<Rightarrow> u32 \<Rightarrow> u32 \<Rightarrow> mem \<Rightarrow> mem" where
  "put_name 0 dot_pos src dst m = m"
| "put_name (Suc i) dot_pos src dst m =
     (let m = put_name i dot_pos src dst m
      in m(dst + of_nat i :=
        (if i < dot_pos then TO_UPPER_CASE (m (src + of_nat i)) else DUMMY_CHAR_8DOT3)))"

primrec put_ext :: "nat \<Rightarrow> nat \<Rightarrow> nat \<Rightarrow> u32 \<Rightarrow> u32 \<Rightarrow> mem \<Rightarrow> mem" where
  "put_ext 0 dot_pos len src dst m = m"
| "put_ext (Suc i) dot_pos len src dst m =
     (let m = put_ext i dot_pos len src dst m; pos = dot_pos + 1 + i
      in m(dst + 8 + of_nat i :=
        (if pos < len then TO_UPPER_CASE (m (src + of_nat pos)) else DUMMY_CHAR_8DOT3)))"

definition convert_normal_to_8dot3 :: "qstr \<Rightarrow> u32 \<Rightarrow> mem \<Rightarrow> mem" where
  "convert_normal_to_8dot3 src dst m =
     (let len = unat (q_len src);
          dot_pos = (case dot_scan m (q_name src) len of Some i \<Rightarrow> i | None \<Rightarrow> len)
      in put_ext 3 dot_pos len (q_name src) dst (put_name 8 dot_pos (q_name src) dst m))"

text \<open>
  The two loops of the way back, over the positions \<open>i\<close> still to do; \<open>len\<close> is the length
  written so far.
\<close>

primrec get_name :: "nat \<Rightarrow> u32 \<Rightarrow> u32 \<Rightarrow> nat \<Rightarrow> mem \<Rightarrow> mem \<times> nat" where
  "get_name 0 src name len m = (m, len)"
| "get_name (Suc n) src name len m =
     (if m src = DUMMY_CHAR_8DOT3 then (m, len)
      else get_name n (src + 1) name (Suc len) (m(name + of_nat len := TO_LOWER_CASE (m src))))"

definition get_ext :: "u32 \<Rightarrow> u32 \<Rightarrow> nat \<Rightarrow> mem \<Rightarrow> mem \<times> nat" where
  "get_ext src name len m =
     (if m src = DUMMY_CHAR_8DOT3 then (m, len)
      else get_name 3 src name (Suc len) (m(name + of_nat len := 46)))"

definition convert_8dot3_to_normal :: "u32 \<Rightarrow> 'z disk_scheme \<Rightarrow> ('z disk_scheme \<times> qstr) option" where
  "convert_8dot3_to_normal src s =
     (let (s, name) = kmalloc (8 + 3 + 1 + 1) s in
      if name = 0 then None
      else let (m, len) = get_name 8 src name 0 (kmem s);
               (m, len) = get_ext (src + 8) name len m;
               m = m(name + of_nat len := 0)
           in Some (s\<lparr>kmem := m\<rparr>, \<lparr>q_len = of_nat len, q_name = name\<rparr>))"

section \<open>Hashing\<close>

definition HASH_SIZE :: u32 where "HASH_SIZE = 64"
definition HASH_MASK :: u32 where "HASH_MASK = HASH_SIZE - 1"

lemmas hash_consts [os_const] = HASH_SIZE_def HASH_MASK_def

primrec hash_loop :: "mem \<Rightarrow> nat \<Rightarrow> u32 \<Rightarrow> u32 \<Rightarrow> u32" where
  "hash_loop m 0 p h = h"
| "hash_loop m (Suc n) p h =
     (let h = push_bit 4 h + scast (m p);
          x = h AND 0xF0000000;
          h = (if x \<noteq> 0 then (h XOR drop_bit 24 x) AND NOT x else h)
      in hash_loop m n (p + 1) h)"

definition hash_string :: "mem \<Rightarrow> qstr \<Rightarrow> u32" where
  "hash_string m key = hash_loop m (unat (q_len key)) (q_name key) 0 AND HASH_MASK"

definition hash_int :: "u32 \<Rightarrow> u32" where
  "hash_int key = key AND HASH_MASK"

section \<open>String tests\<close>

primrec equals_loop :: "mem \<Rightarrow> nat \<Rightarrow> u32 \<Rightarrow> u32 \<Rightarrow> bool" where
  "equals_loop m 0 name str \<longleftrightarrow> True"
| "equals_loop m (Suc n) name str \<longleftrightarrow>
     (if m str = 0 \<or> m name \<noteq> m str then False else equals_loop m n (name + 1) (str + 1))"

definition qstr_equals :: "mem \<Rightarrow> qstr \<Rightarrow> u32 \<Rightarrow> bool" where
  "qstr_equals m q str \<longleftrightarrow> equals_loop m (unat (q_len q)) (q_name q) str"

primrec endwith_loop :: "mem \<Rightarrow> nat \<Rightarrow> u32 \<Rightarrow> u32 \<Rightarrow> bool" where
  "endwith_loop m 0 p name \<longleftrightarrow> True"
| "endwith_loop m (Suc n) p name \<longleftrightarrow>
     (if m (p - 1) \<noteq> m (name - 1) then False else endwith_loop m n (p - 1) (name - 1))"

definition qstr_endwith :: "mem \<Rightarrow> u32 \<Rightarrow> qstr \<Rightarrow> bool option" where
  "qstr_endwith m filename str =
     map_option (\<lambda>len. if len < unat (q_len str) then False
       else endwith_loop m len (filename + of_nat len) (q_name str + q_len str)) (kernel_strlen m filename)"

section \<open>Runs of bytes\<close>

definition bytes :: "mem \<Rightarrow> u32 \<Rightarrow> nat \<Rightarrow> u8 list" where
  "bytes m p n = map (\<lambda>i. m (p + of_nat i)) [0..<n]"

definition qname :: "mem \<Rightarrow> qstr \<Rightarrow> u8 list" where
  "qname m q = bytes m (q_name q) (unat (q_len q))"

lemma bytes_simps [simp]:
  "bytes m p 0 = []" "length (bytes m p n) = n" "i < n \<Longrightarrow> bytes m p n ! i = m (p + of_nat i)"
  by (simp_all add: bytes_def)

lemma bytes_Suc: "bytes m p (Suc n) = bytes m p n @ [m (p + of_nat n)]"
  by (simp add: bytes_def)

lemma bytes_add: "bytes m p (j + k) = bytes m p j @ bytes m (p + of_nat j) k"
  by (rule nth_equalityI) (auto simp: nth_append of_nat_diff)

lemma bytes_Cons: "bytes m p (Suc n) = m p # bytes m (p + 1) n"
  using bytes_add [of m p 1 n] by (simp add: bytes_def)

lemma bytes_cong: "(\<And>i. i < n \<Longrightarrow> m (p + of_nat i) = m' (q + of_nat i)) \<Longrightarrow> bytes m p n = bytes m' q n"
  by (rule nth_equalityI) auto

text \<open>\<open>apart_bytes p n q k\<close>: the \<open>n\<close> bytes at \<open>p\<close> and the \<open>k\<close> bytes at \<open>q\<close> do not overlap.\<close>

definition apart_bytes :: "u32 \<Rightarrow> nat \<Rightarrow> u32 \<Rightarrow> nat \<Rightarrow> bool" where
  "apart_bytes p n q k \<longleftrightarrow> (\<forall>i<n. k \<le> unat (p + of_nat i - q))"

lemma apart_bytesD: "apart_bytes p n q k \<Longrightarrow> i < n \<Longrightarrow> k \<le> unat (p + of_nat i - q)"
  by (simp add: apart_bytes_def)

lemma apart_bytes_mono: "apart_bytes p n q k \<Longrightarrow> n' \<le> n \<Longrightarrow> k' \<le> k \<Longrightarrow> apart_bytes p n' q k'"
  by (auto simp: apart_bytes_def intro: le_trans)

lemma apart_bytes_shift: "apart_bytes p (k + n) q j \<Longrightarrow> apart_bytes (p + of_nat k) n q j"
  unfolding apart_bytes_def by (metis (no_types, opaque_lifting) add.assoc add_less_cancel_left of_nat_add)

lemma apart_bytes_part:
  assumes "apart_bytes p n q k" and "a + k' \<le> k" and "k \<le> 2 ^ 32"
  shows "apart_bytes p n (q + of_nat a) k'"
  unfolding apart_bytes_def
proof (intro allI impI, rule ccontr)
  fix i assume i: "i < n" "\<not> k' \<le> unat (p + of_nat i - (q + of_nat a))"
  let ?d = "p + of_nat i - (q + of_nat a)"
  have "unat (?d + of_nat a) \<le> unat ?d + unat (of_nat a :: u32)" by (simp only: unat_word_ariths mod_less_eq_dividend)
  moreover have "?d + of_nat a = p + of_nat i - q" by simp
  ultimately have "unat (p + of_nat i - q) \<le> unat ?d + unat (of_nat a :: u32)" by (simp only:)
  moreover have "unat (of_nat a :: u32) \<le> a" by (simp add: unat_of_nat)
  ultimately show False using apart_bytesD [OF assms(1) i(1)] i(2) assms(2) by linarith
qed

lemma outside_part:
  fixes x q :: u32
  assumes "k \<le> unat (x - q)" and "a + k' \<le> k" and "k \<le> 2 ^ 32"
  shows "k' \<le> unat (x - (q + of_nat a))"
  using apart_bytes_part [of x 1 q k a k'] assms by (simp add: apart_bytes_def)

lemma apart_bytes_sym:
  assumes "apart_bytes p n q k" and "k \<le> 2 ^ 32"
  shows "apart_bytes q k p n"
  unfolding apart_bytes_def
proof (intro allI impI, rule ccontr)
  fix i assume i: "i < k" "\<not> n \<le> unat (q + of_nat i - p)"
  then have "k \<le> unat (p + of_nat (unat (q + of_nat i - p)) - q)" by (intro apart_bytesD [OF assms(1)]) simp
  then have "k \<le> unat (of_nat i :: u32)" by simp
  moreover have "unat (of_nat i :: u32) \<le> i" by (simp add: unat_of_nat)
  ultimately show False using i(1) by simp
qed

lemma apart_bytes_next: "k + n \<le> 2 ^ 32 \<Longrightarrow> apart_bytes (p + of_nat k) n p k"
  unfolding apart_bytes_def
proof (intro allI impI)
  fix i assume "k + n \<le> 2 ^ 32" "i < n"
  then have "unat (of_nat (k + i) :: u32) = k + i" by (simp add: unat_of_nat del: of_nat_add)
  moreover have "p + of_nat k + of_nat i - p = of_nat (k + i)" by simp
  ultimately show "k \<le> unat (p + of_nat k + of_nat i - p)" by (simp only:)
qed

lemma at_offset: "unat (a - q) = j \<longleftrightarrow> a = q + of_nat j" if "j < 2 ^ 32" for a q :: u32
  using that by (auto simp: unat_of_nat)

section \<open>Comparison\<close>

lemma cmp_loop_spec:
  assumes "cmp_loop norm m n p q pos = r"
  shows "pos \<le> r" and "r \<le> pos + n"
    and "i < r - pos \<Longrightarrow> norm (m (p + of_nat i)) = norm (m (q + of_nat i))"
    and "r < pos + n \<Longrightarrow> m (p + of_nat (r - pos)) = 0 \<or> norm (m (p + of_nat (r - pos))) \<noteq> norm (m (q + of_nat (r - pos)))"
proof -
  have "pos \<le> r \<and> r \<le> pos + n \<and> (\<forall>i<r - pos. norm (m (p + of_nat i)) = norm (m (q + of_nat i))) \<and>
    (r < pos + n \<longrightarrow> m (p + of_nat (r - pos)) = 0 \<or> norm (m (p + of_nat (r - pos))) \<noteq> norm (m (q + of_nat (r - pos))))"
    using assms
  proof (induction n arbitrary: p q pos)
    case (Suc n)
    show ?case
    proof (cases "m p \<noteq> 0 \<and> norm (m p) = norm (m q)")
      case True
      with Suc.prems have "cmp_loop norm m n (p + 1) (q + 1) (Suc pos) = r" by simp
      note IH = Suc.IH [OF this]
      then obtain k where k: "r - pos = Suc k" "r - Suc pos = k" by (cases "r - pos") auto
      have "norm (m (p + of_nat i)) = norm (m (q + of_nat i))" if "i < r - pos" for i
        using that IH True by (cases i) (auto simp: k add.assoc)
      with IH show ?thesis by (auto simp: k add.assoc)
    qed (use Suc.prems in auto)
  qed auto
  then show "pos \<le> r" "r \<le> pos + n"
    "i < r - pos \<Longrightarrow> norm (m (p + of_nat i)) = norm (m (q + of_nat i))"
    "r < pos + n \<Longrightarrow> m (p + of_nat (r - pos)) = 0 \<or> norm (m (p + of_nat (r - pos))) \<noteq> norm (m (q + of_nat (r - pos)))"
    by blast+
qed

lemma compare_by_0:
  assumes a: "0 \<notin> set (qname m a)" and b: "0 \<notin> set (qname m b)"
  shows "compare_by norm m a b = 0 \<longleftrightarrow> map norm (qname m a) = map norm (qname m b)"
proof -
  let ?la = "unat (q_len a)" and ?lb = "unat (q_len b)"
  let ?A = "\<lambda>i. m (q_name a + of_nat i)" and ?B = "\<lambda>i. m (q_name b + of_nat i)"
  define r where r: "r = cmp_loop norm m (min ?la ?lb) (q_name a) (q_name b) 0"
  note S = cmp_loop_spec [OF r [symmetric], simplified]
  have nz: "?A i \<noteq> 0" if "i < ?la" for i
    using a that by (auto simp: qname_def bytes_def)
  have nz': "?B i \<noteq> 0" if "i < ?lb" for i
    using b that by (auto simp: qname_def bytes_def)
  have "compare_by norm m a b = 0 \<longleftrightarrow> (if r = ?la then 0 else ?A r) = (if r = ?lb then 0 else ?B r)"
    unfolding compare_by_def r [symmetric] Let_def by (auto dest: signed_word_eqI simp: signed_eq_0_iff)
  also have "\<dots> \<longleftrightarrow> ?la = ?lb \<and> (\<forall>i<?la. norm (?A i) = norm (?B i))"
  proof (cases "r < min ?la ?lb")
    case True
    then show ?thesis using S(4) nz [of r] by auto
  next
    case False
    then have "r = ?la \<or> r = ?lb" "r \<le> ?la" "r \<le> ?lb" using S(2) by auto
    then show ?thesis using S(3) nz [of r] nz' [of r] by auto
  qed
  also have "\<dots> \<longleftrightarrow> map norm (qname m a) = map norm (qname m b)"
    by (auto simp: qname_def list_eq_iff_nth_eq)
  finally show ?thesis .
qed

lemma HASH_bound: "unat (x AND HASH_MASK) < 64"
proof -
  have "x AND HASH_MASK = take_bit 6 x"
    by (simp add: HASH_MASK_def HASH_SIZE_def take_bit_eq_mask mask_eq_exp_minus_1)
  then show ?thesis by (simp add: unat_take_bit_u32)
qed

section \<open>The conversions between the two forms\<close>

lemma put_name_at:
  assumes sep: "apart_bytes src len dst 11" and dot: "dot \<le> len" and i: "i \<le> 8"
  shows "put_name i dot src dst m a =
    (if unat (a - dst) < i then (if unat (a - dst) < dot then TO_UPPER_CASE (m (src + (a - dst))) else DUMMY_CHAR_8DOT3)
     else m a)"
  using i
proof (induction i arbitrary: a)
  case (Suc i)
  have new: "a = dst + of_nat i \<longleftrightarrow> unat (a - dst) = i" using Suc.prems at_offset [of i a dst] by simp
  have o: "unat (of_nat i :: u32) = i" using Suc.prems by (simp add: unat_of_nat)
  have src: "\<not> unat (src + of_nat i - dst) < i" if "i < dot"
    using apart_bytesD [OF sep, of i] that dot Suc.prems by simp
  show ?case using Suc src o by (auto simp: Let_def new less_Suc_eq)
qed simp

lemma put_ext_at:
  assumes sep: "apart_bytes src len dst 11" and i: "i \<le> 3"
  shows "put_ext i dot len src dst m a =
    (if unat (a - (dst + 8)) < i
     then (if dot + 1 + unat (a - (dst + 8)) < len then TO_UPPER_CASE (m (src + of_nat (dot + 1) + (a - (dst + 8))))
       else DUMMY_CHAR_8DOT3)
     else m a)"
  using i
proof (induction i arbitrary: a)
  case (Suc i)
  have new: "a = dst + 8 + of_nat i \<longleftrightarrow> unat (a - (dst + 8)) = i" using Suc.prems at_offset [of i a "dst + 8"] by simp
  have o: "unat (of_nat i :: u32) = i" using Suc.prems by (simp add: unat_of_nat)
  have src: "\<not> unat (src + of_nat (dot + 1 + i) - (dst + 8)) < i" if "dot + 1 + i < len"
  proof -
    have "11 \<le> unat (src + of_nat (dot + 1 + i) - dst)" using apart_bytesD [OF sep that] .
    then show ?thesis using unat_shift(1) [of 8 "src + of_nat (dot + 1 + i)" dst] Suc.prems by simp
  qed
  show ?case using Suc src o by (auto simp: Let_def new less_Suc_eq add.assoc)
qed simp

lemma dot_scan_none: "46 \<notin> set (bytes m p n) \<Longrightarrow> dot_scan m p n = None"
  by (induction n) (auto simp: bytes_Suc)

lemma dot_scan_last: "46 \<notin> set (bytes m (p + of_nat (Suc k)) n) \<Longrightarrow> m (p + of_nat k) = 46 \<Longrightarrow> dot_scan m p (k + 1 + n) = Some k"
  by (induction n) (auto simp: bytes_Suc add.assoc)

text \<open>The bytes of an 8.3 name, of a base name and an extension.\<close>

definition fill :: "nat \<Rightarrow> u8 list \<Rightarrow> u8 list" where
  "fill n xs = map TO_UPPER_CASE xs @ replicate (n - length xs) DUMMY_CHAR_8DOT3"

definition short_name :: "u8 list \<Rightarrow> u8 list \<Rightarrow> bool" where
  "short_name base ext \<longleftrightarrow> length base \<le> 8 \<and> length ext \<le> 3 \<and> 46 \<notin> set base \<and> 46 \<notin> set ext \<and>
     DUMMY_CHAR_8DOT3 \<notin> set base \<and> DUMMY_CHAR_8DOT3 \<notin> set ext"

definition dotted :: "u8 list \<Rightarrow> u8 list \<Rightarrow> u8 list" where
  "dotted base ext = base @ (if ext = [] then [] else 46 # ext)"

lemma nth_fill: "k < n \<Longrightarrow> fill n xs ! k = (if k < length xs then TO_UPPER_CASE (xs ! k) else DUMMY_CHAR_8DOT3)"
  by (simp add: fill_def nth_append)

lemma convert_to_8dot3:
  assumes sep: "apart_bytes (q_name src) (unat (q_len src)) dst 11"
    and name: "qname m src = dotted base ext" and short: "short_name base ext"
  shows "bytes (convert_normal_to_8dot3 src dst m) dst 11 = fill 8 base @ fill 3 ext"
    and "11 \<le> unat (a - dst) \<Longrightarrow> convert_normal_to_8dot3 src dst m a = m a"
proof -
  let ?p = "q_name src" and ?n = "unat (q_len src)"
  have len: "?n = length (dotted base ext)" by (metis bytes_simps(2) name qname_def)
  have at: "m (?p + of_nat i) = dotted base ext ! i" if "i < ?n" for i
    using that name [unfolded qname_def] by (metis bytes_simps(3))
  define dot where "dot = (case dot_scan m ?p ?n of Some i \<Rightarrow> i | None \<Rightarrow> ?n)"
  have dot: "dot = length base"
  proof (cases "ext = []")
    case True
    then have "46 \<notin> set (bytes m ?p ?n)" using name short by (simp add: qname_def dotted_def short_name_def)
    then show ?thesis using True by (simp add: dot_def dot_scan_none len dotted_def)
  next
    case False
    have l: "?n = length base + 1 + length ext" using False by (simp add: len dotted_def)
    have "bytes m (?p + of_nat (Suc (length base))) (length ext) = ext"
    proof (rule nth_equalityI)
      fix i assume "i < length (bytes m (?p + of_nat (Suc (length base))) (length ext))"
      then show "bytes m (?p + of_nat (Suc (length base))) (length ext) ! i = ext ! i"
        using at [of "Suc (length base) + i"] l False by (simp add: dotted_def nth_append add.assoc)
    qed simp
    moreover have "m (?p + of_nat (length base)) = 46" using at [of "length base"] l False by (simp add: dotted_def)
    ultimately show ?thesis
      using dot_scan_last [of m ?p "length base" "length ext"] short by (simp add: dot_def l short_name_def)
  qed
  let ?m = "convert_normal_to_8dot3 src dst m"
  have m: "?m = put_ext 3 dot ?n ?p dst (put_name 8 dot ?p dst m)"
    by (simp add: convert_normal_to_8dot3_def dot_def Let_def)
  have dn: "dot \<le> ?n" by (simp add: dot len dotted_def)
  have b8: "length base \<le> 8" "length ext \<le> 3" using short by (simp_all add: short_name_def)
  have P: "?m a =
    (if unat (a - (dst + 8)) < 3
     then (if dot + 1 + unat (a - (dst + 8)) < ?n then TO_UPPER_CASE (put_name 8 dot ?p dst m (?p + of_nat (dot + 1) + (a - (dst + 8))))
       else DUMMY_CHAR_8DOT3)
     else if unat (a - dst) < 8 then (if unat (a - dst) < dot then TO_UPPER_CASE (m (?p + (a - dst))) else DUMMY_CHAR_8DOT3)
     else m a)" for a
    by (simp only: m put_ext_at [OF sep order_refl] put_name_at [OF sep dn order_refl] if_cancel)
  have n: "?m (dst + of_nat k) = fill 8 base ! k" if k: "k < 8" for k
  proof -
    have o: "unat (dst + of_nat k - dst) = k" using k by (simp add: unat_of_nat)
    then have "unat (dst + of_nat k - (dst + 8)) = 2 ^ 32 + k - 8" using unat_shift(2) [of "dst + of_nat k" dst 8] k by simp
    then show ?thesis using k o at [of k]
      by (simp add: P nth_fill dot len dotted_def nth_append)
  qed
  have e: "?m (dst + of_nat (8 + k)) = fill 3 ext ! k" if k: "k < 3" for k
  proof -
    have o: "unat (dst + of_nat (8 + k) - (dst + 8)) = k" using k by (simp add: unat_of_nat)
    have "put_name 8 dot ?p dst m (?p + of_nat (dot + 1) + of_nat k) = m (?p + of_nat (dot + 1 + k))" if "dot + 1 + k < ?n"
      using apart_bytesD [OF sep that] by (simp add: put_name_at [OF sep dn order_refl] add.assoc)
    then show ?thesis using k o at [of "dot + 1 + k"]
      by (auto simp: P nth_fill dot len dotted_def nth_append unat_of_nat)
  qed
  show "bytes ?m dst 11 = fill 8 base @ fill 3 ext"
  proof (rule nth_equalityI)
    show "length (bytes ?m dst 11) = length (fill 8 base @ fill 3 ext)" using b8 by (simp add: fill_def)
  next
    fix i assume "i < length (bytes ?m dst 11)"
    then show "bytes ?m dst 11 ! i = (fill 8 base @ fill 3 ext) ! i"
      using n [of i] e [of "i - 8"] b8 by (auto simp: nth_append fill_def)
  qed
  show "?m a = m a" if "11 \<le> unat (a - dst)"
  proof -
    have "\<not> unat (a - (dst + 8)) < 3" using unat_shift(1) [of 8 a dst] that by simp
    then show ?thesis using that by (simp only: P if_False) simp
  qed
qed

lemma get_name_at:
  assumes "apart_bytes src n name 13" and "len + n \<le> 12" and "get_name n src name len m = (m', len')"
  shows "bytes m' name len' = bytes m name len @ map TO_LOWER_CASE (takeWhile (\<lambda>c. c \<noteq> DUMMY_CHAR_8DOT3) (bytes m src n))"
    and "13 \<le> unat (a - name) \<Longrightarrow> m' a = m a" and "len' = len + length (takeWhile (\<lambda>c. c \<noteq> DUMMY_CHAR_8DOT3) (bytes m src n))"
proof -
  have "bytes m' name len' = bytes m name len @ map TO_LOWER_CASE (takeWhile (\<lambda>c. c \<noteq> DUMMY_CHAR_8DOT3) (bytes m src n)) \<and>
    (13 \<le> unat (a - name) \<longrightarrow> m' a = m a) \<and> len' = len + length (takeWhile (\<lambda>c. c \<noteq> DUMMY_CHAR_8DOT3) (bytes m src n))"
    using assms
  proof (induction n arbitrary: src len m)
    case (Suc n)
    show ?case
    proof (cases "m src = DUMMY_CHAR_8DOT3")
      case False
      define m1 where m1: "m1 = m(name + of_nat len := TO_LOWER_CASE (m src))"
      have sep: "apart_bytes (src + 1) n name 13"
        using Suc.prems(1) by (auto simp: apart_bytes_def add.assoc dest: spec [of _ "Suc _"])
      have off: "unat (name + of_nat i - name) = i" if "i < 13" for i using that by (simp add: unat_of_nat)
      have keep: "name + of_nat len \<noteq> src + 1 + of_nat i" if "i < n" for i
      proof
        assume e: "name + of_nat len = src + 1 + of_nat i"
        have "unat (name + of_nat len - name) = len" by (rule off) (use Suc.prems(2) in simp)
        then show False using apart_bytesD [OF sep that] Suc.prems(2) unfolding e by linarith
      qed
      have b: "bytes m1 (src + 1) n = bytes m (src + 1) n"
        by (rule bytes_cong) (use keep in \<open>force simp: m1\<close>)
      have "bytes m1 name len = bytes m name len"
      proof (rule bytes_cong)
        fix i assume "i < len"
        then have "of_nat i \<noteq> (of_nat len :: u32)" using off [of i] off [of len] Suc.prems(2) by auto
        then show "m1 (name + of_nat i) = m (name + of_nat i)" by (simp add: m1)
      qed
      then have s: "bytes m1 name (Suc len) = bytes m name len @ [TO_LOWER_CASE (m src)]"
        by (simp add: bytes_Suc m1)
      moreover have "13 \<le> unat (a - name) \<Longrightarrow> a \<noteq> name + of_nat len" using off [of len] Suc.prems(2) by auto
      ultimately show ?thesis
        using Suc.IH [OF sep, of "Suc len" m1] Suc.prems False
        by (simp add: b s bytes_Cons [of m src] m1 [symmetric]) (auto simp: m1)
    qed (use Suc.prems in \<open>auto simp: bytes_Cons\<close>)
  qed simp
  then show "bytes m' name len' = bytes m name len @ map TO_LOWER_CASE (takeWhile (\<lambda>c. c \<noteq> DUMMY_CHAR_8DOT3) (bytes m src n))"
    "13 \<le> unat (a - name) \<Longrightarrow> m' a = m a" "len' = len + length (takeWhile (\<lambda>c. c \<noteq> DUMMY_CHAR_8DOT3) (bytes m src n))"
    by blast+
qed

lemma disk_of_slab_more:
  assumes "slab.more t = slab.more s"
  shows "kmem t = kmem s" "sd t = sd s"
  using assms by (cases s, cases t, simp)+

lemma lower_upper: "TO_LOWER_CASE (TO_UPPER_CASE c) = TO_LOWER_CASE c"
proof -
  have "c - 32 + 32 = c" by simp
  moreover have "65 \<le> c - 32 \<and> c - 32 \<le> 90" if "97 \<le> c" "c \<le> 122"
    using that by (auto simp: word_le_nat_alt unat_sub)
  moreover have "\<not> (65 \<le> c \<and> c \<le> 90)" if "97 \<le> c"
    using that by (auto simp: word_le_nat_alt)
  ultimately show ?thesis by (auto simp: TO_LOWER_CASE_def TO_UPPER_CASE_def)
qed

lemma upper_dummy: "TO_UPPER_CASE c = DUMMY_CHAR_8DOT3 \<longleftrightarrow> c = DUMMY_CHAR_8DOT3"
  by (auto simp: TO_UPPER_CASE_def DUMMY_CHAR_8DOT3_def word_le_nat_alt unat_sub eq_diff_eq diff_eq_eq)

lemma take_fill:
  "DUMMY_CHAR_8DOT3 \<notin> set xs \<Longrightarrow> takeWhile (\<lambda>c. c \<noteq> DUMMY_CHAR_8DOT3) (fill n xs) = map TO_UPPER_CASE xs"
proof -
  assume x: "DUMMY_CHAR_8DOT3 \<notin> set xs"
  then have "takeWhile (\<lambda>c. c \<noteq> DUMMY_CHAR_8DOT3) (fill n xs) =
    map TO_UPPER_CASE xs @ takeWhile (\<lambda>c. c \<noteq> DUMMY_CHAR_8DOT3) (replicate (n - length xs) DUMMY_CHAR_8DOT3)"
    unfolding fill_def by (subst takeWhile_append2) (use x in \<open>auto simp: upper_dummy\<close>)
  then show ?thesis by (cases "n - length xs") simp_all
qed

lemma convert_from_8dot3:
  assumes b: "bytes (kmem s) src 11 = fill 8 base @ fill 3 ext" and short: "short_name base ext"
    and k: "kmalloc 13 s = (t, p)" "p \<noteq> 0" and sep: "apart_bytes src 11 p 13"
  shows "\<exists>m q. convert_8dot3_to_normal src s = Some (t\<lparr>kmem := m\<rparr>, q) \<and> q_name q = p \<and>
    qname m q = map TO_LOWER_CASE (dotted base ext) \<and> (\<forall>a. 13 \<le> unat (a - p) \<longrightarrow> m a = kmem s a)"
proof -
  have km: "kmem t = kmem s" using disk_of_slab_more [OF kmalloc_more [of 13 s]] k by simp
  note short' = short [unfolded short_name_def]
  let ?up = "\<lambda>xs. map TO_UPPER_CASE xs"
  have b8: "bytes (kmem s) src 8 = fill 8 base" "bytes (kmem s) (src + 8) 3 = fill 3 ext"
  proof -
    have "bytes (kmem s) src 8 @ bytes (kmem s) (src + 8) 3 = fill 8 base @ fill 3 ext"
      using b bytes_add [of "kmem s" src 8 3] by simp
    moreover have "length (bytes (kmem s) src 8) = length (fill 8 base)" using short' by (simp add: fill_def)
    ultimately have "bytes (kmem s) src 8 = fill 8 base \<and> bytes (kmem s) (src + 8) 3 = fill 3 ext"
      by (metis append_eq_append_conv)
    then show "bytes (kmem s) src 8 = fill 8 base" "bytes (kmem s) (src + 8) 3 = fill 3 ext" by simp_all
  qed
  obtain m1 l1 where g1: "get_name 8 src p 0 (kmem s) = (m1, l1)" by fastforce
  have low: "map TO_LOWER_CASE (?up xs) = map TO_LOWER_CASE xs" for xs by (simp add: lower_upper)
  note N1 = get_name_at [OF apart_bytes_mono [OF sep] _ g1, simplified, unfolded b8]
  have l1: "l1 = length base" and m1: "bytes m1 p l1 = map TO_LOWER_CASE base" and o1: "\<And>a. 13 \<le> unat (a - p) \<Longrightarrow> m1 a = kmem s a"
    using N1 short' by (simp_all add: take_fill lower_upper)
  have sep8: "apart_bytes (src + 8) 3 p 13" using apart_bytes_shift [of src 8 3 p 13] sep by simp
  have out: "13 \<le> unat (src + 8 + of_nat i - p)" if "i < 3" for i using apart_bytesD [OF sep8 that] .
  have e: "bytes m1 (src + 8) 3 = fill 3 ext"
    unfolding b8(2) [symmetric] by (rule bytes_cong) (use out o1 in simp)
  have off: "unat (p + of_nat i - p) = i" if "i < 13" for i using that by (simp add: unat_of_nat)
  have x0: "m1 (src + 8) = DUMMY_CHAR_8DOT3 \<longleftrightarrow> ext = []"
    using arg_cong [OF e, of "\<lambda>xs. xs ! 0"] short' by (cases ext) (auto simp: nth_fill upper_dummy)
  have "\<exists>m2 l2. get_ext (src + 8) p l1 m1 = (m2, l2) \<and> l2 = length (dotted base ext) \<and>
    bytes m2 p l2 = map TO_LOWER_CASE (dotted base ext) \<and> (\<forall>a. 13 \<le> unat (a - p) \<longrightarrow> m2 a = kmem s a)"
  proof (cases "ext = []")
    case True
    then show ?thesis using x0 m1 l1 o1 by (simp add: get_ext_def dotted_def)
  next
    case False
    define m' where "m' = m1(p + of_nat l1 := 46)"
    obtain m2 l2 where g2: "get_name 3 (src + 8) p (Suc l1) m' = (m2, l2)" by fastforce
    have l: "l1 \<le> 8" using l1 short' by simp
    have "bytes m' p l1 = bytes m1 p l1"
    proof (rule bytes_cong)
      fix i assume "i < l1"
      then have "of_nat i \<noteq> (of_nat l1 :: u32)" using off [of i] off [of l1] l by auto
      then show "m' (p + of_nat i) = m1 (p + of_nat i)" by (simp add: m'_def)
    qed
    then have b': "bytes m' p (Suc l1) = map TO_LOWER_CASE (base @ [46])"
      using m1 by (simp add: bytes_Suc m'_def TO_LOWER_CASE_def)
    have k: "m' a = m1 a" if "13 \<le> unat (a - p)" for a
      using that off [of l1] l by (auto simp: m'_def)
    have e': "bytes m' (src + 8) 3 = fill 3 ext"
      unfolding e [symmetric] by (rule bytes_cong) (use out k in simp)
    note N2 = get_name_at [OF sep8 _ g2, unfolded e' b']
    have "get_ext (src + 8) p l1 m1 = (m2, l2)" using x0 False g2 by (simp add: get_ext_def m'_def)
    moreover have "l2 = length (dotted base ext)" "bytes m2 p l2 = map TO_LOWER_CASE (dotted base ext)"
      using N2(1,3) l short' l1 False by (simp_all add: take_fill lower_upper dotted_def)
    ultimately show ?thesis using N2(2) l k o1 by auto
  qed
  then obtain m2 l2 where g2: "get_ext (src + 8) p l1 m1 = (m2, l2)" "l2 = length (dotted base ext)"
    "bytes m2 p l2 = map TO_LOWER_CASE (dotted base ext)" "\<And>a. 13 \<le> unat (a - p) \<Longrightarrow> m2 a = kmem s a"
    by blast
  have l2: "l2 \<le> 12" using g2(2) short' by (auto simp: dotted_def)
  let ?m = "m2(p + of_nat l2 := 0)"
  have "bytes ?m p l2 = bytes m2 p l2"
  proof (rule bytes_cong)
    fix i assume "i < l2"
    then have "of_nat i \<noteq> (of_nat l2 :: u32)" using off [of i] off [of l2] l2 by auto
    then show "?m (p + of_nat i) = m2 (p + of_nat i)" by simp
  qed
  moreover have "?m a = kmem s a" if "13 \<le> unat (a - p)" for a
    using that off [of l2] l2 g2(4) by auto
  moreover have "unat (of_nat l2 :: u32) = l2" using l2 by (simp add: unat_of_nat)
  moreover have "convert_8dot3_to_normal src s = Some (t\<lparr>kmem := ?m\<rparr>, \<lparr>q_len = of_nat l2, q_name = p\<rparr>)"
    using k g1 g2(1) by (simp add: convert_8dot3_to_normal_def km)
  ultimately show ?thesis
    using g2(3) by (intro exI [of _ ?m] exI [of _ "\<lparr>q_len = of_nat l2, q_name = p\<rparr>"]) (simp add: qname_def)
qed

section \<open>Names in the heap\<close>

lemma heap_disk [simp]:
  "heap (s\<lparr>kmem := x\<rparr>) R = heap s R" "heap (s\<lparr>sd := y\<rparr>) R = heap s R"
  "kheap (s\<lparr>kmem := x\<rparr>) f A = kheap s f A" "zone (s\<lparr>kmem := x\<rparr>) = zone s" "room (s\<lparr>kmem := x\<rparr>) R n = room s R n"
  by (simp_all add: heap_def room_def kheap_def kinv_def kobjs_def kblocks_def page_objs_def page_list_def [abs_def] slab_pages_def
      buddy_full_def buddy_inv_def bcore_def coalesced_def allocd_def zone_def zone_ok_def Let_def)

lemma pc_extend:
  "kheap (pc.extend s x) f A = kheap s f A" "heap (pc.extend s x) R = heap s R" "zone (pc.extend s x) = zone s"
  by (simp_all add: heap_def kheap_def kinv_def kobjs_def kblocks_def page_objs_def page_list_def [abs_def] slab_pages_def
      buddy_full_def buddy_inv_def bcore_def coalesced_def allocd_def zone_def zone_ok_def Let_def pc.defs)

lemma apart_bytes_regions:
  assumes "apart (unat p, n) (unat q, k)" and "unat p + n \<le> 2 ^ 32" and "unat q + k \<le> 2 ^ 32"
  shows "apart_bytes p n q k"
  unfolding apart_bytes_def
proof (intro allI impI)
  fix i assume i: "i < n"
  then have p: "unat (p + of_nat i) = unat p + i" using assms(2) by (simp add: unat_word_ariths unat_of_nat)
  show "k \<le> unat (p + of_nat i - q)"
  proof (cases "unat q \<le> unat p + i")
    case True
    then have "unat (p + of_nat i - q) = unat p + i - unat q" using p by (simp add: unat_sub word_le_nat_alt)
    then show ?thesis using assms(1) True i by (auto simp: apart_def)
  next
    case False
    then have "unat (p + of_nat i - q) = 2 ^ 32 + (unat p + i) - unat q"
      using unat_sub_if_size [of "p + of_nat i" q] p by (simp add: word_size)
    then show ?thesis using assms(3) by linarith
  qed
qed

section \<open>Properties\<close>

text \<open>
  C25.  Two FAT names without zero bytes compare equal exactly when they agree up to upper and lower
  case, in all positions and in length.
\<close>

theorem compare_fat32_ignores_case:
  assumes "0 \<notin> set (qname m a)" and "0 \<notin> set (qname m b)"
  shows "compare_fat32 m a b = 0 \<longleftrightarrow> map TO_UPPER_CASE (qname m a) = map TO_UPPER_CASE (qname m b)"
  unfolding compare_fat32_def by (rule compare_by_0 [OF assms])

definition demo_names :: mem where
  "demo_names = (\<lambda>_. 0)(0x100 := 65, 0x101 := 46, 0x102 := 99, 0x200 := 97, 0x201 := 46, 0x202 := 67)"

theorem compare_fat32_ignores_case_witness:
  "compare_fat32 demo_names \<lparr>q_len = 3, q_name = 0x100\<rparr> \<lparr>q_len = 3, q_name = 0x200\<rparr> = 0 \<and>
   compare_fat32 demo_names \<lparr>q_len = 3, q_name = 0x100\<rparr> \<lparr>q_len = 2, q_name = 0x200\<rparr> \<noteq> 0"
proof -
  have a: "qname demo_names \<lparr>q_len = 3, q_name = 0x100\<rparr> = [65, 46, 99]"
    and b: "qname demo_names \<lparr>q_len = 3, q_name = 0x200\<rparr> = [97, 46, 67]"
    and c: "qname demo_names \<lparr>q_len = 2, q_name = 0x200\<rparr> = [97, 46]"
    by code_simp+
  show ?thesis
    using compare_fat32_ignores_case [of demo_names "\<lparr>q_len = 3, q_name = 0x100\<rparr>" "\<lparr>q_len = 3, q_name = 0x200\<rparr>"]
      compare_fat32_ignores_case [of demo_names "\<lparr>q_len = 3, q_name = 0x100\<rparr>" "\<lparr>q_len = 2, q_name = 0x200\<rparr>"]
    by (simp add: a b c TO_UPPER_CASE_def)
qed

text \<open>
  C26.  A name that fits the 8.3 form, stored in a directory entry and read back, is the name in lower
  case: the form pads with blanks and keeps upper case only, and the way back drops the blanks and
  puts the dot in again.
\<close>

theorem short_name_roundtrip:
  assumes "qname (kmem s) src = dotted base ext" and "short_name base ext"
    and "apart_bytes (q_name src) (unat (q_len src)) dst 11"
    and "kmalloc 13 (upd_mem (convert_normal_to_8dot3 src dst) s) = (t, p)" and "p \<noteq> 0" and "apart_bytes dst 11 p 13"
  shows "\<exists>u q. convert_8dot3_to_normal dst (upd_mem (convert_normal_to_8dot3 src dst) s) = Some (u, q) \<and>
    qname (kmem u) q = map TO_LOWER_CASE (dotted base ext)"
proof -
  let ?s = "upd_mem (convert_normal_to_8dot3 src dst) s"
  have "bytes (kmem ?s) dst 11 = fill 8 base @ fill 3 ext"
    using convert_to_8dot3(1) [OF assms(3,1,2)] by (simp add: upd_mem_def)
  from convert_from_8dot3 [OF this assms(2,4,5,6)] show ?thesis by auto
qed

definition demo_src :: "mem" where
  "demo_src = (\<lambda>_. 0)(0x100 := 97, 0x101 := 46, 0x102 := 67)"

theorem short_name_roundtrip_witness:
  "\<exists>u q. convert_8dot3_to_normal 0x300 (upd_mem (convert_normal_to_8dot3 \<lparr>q_len = 3, q_name = 0x100\<rparr> 0x300) (demo_disk demo_src)) =
       Some (u, q) \<and> qname (kmem u) q = [97, 46, 99]"
proof -
  let ?q = "\<lparr>q_len = 3, q_name = 0x100\<rparr> :: qstr"
  let ?s = "upd_mem (convert_normal_to_8dot3 ?q 0x300) (demo_disk demo_src)"
  have K: "\<exists>f. kheap ?s f {}" and Z: "zone ?s = {16..<32}" and H: "heap ?s {}"
    using demo_vm_heap by (simp_all add: upd_mem_def demo_disk_def demo_pc_def pc_extend vm_extend)
  obtain t p where k: "kmalloc 13 ?s = (t, p)" by fastforce
  have nz: "p \<noteq> 0" using kmalloc_small_ok [of ?s _ "{}" 13 16] K Z k by auto
  obtain n where n: "13 \<le> n" "heap t {(unat p, n)}"
    using km.alloc_region [OF H _ k nz] by auto
  have A: "apart_bytes 0x300 11 p 13"
    using heap_range [OF n(2), of "unat p" n] n(1) by (intro apart_bytes_regions) (auto simp: apart_def)
  have N: "qname (kmem (demo_disk demo_src)) ?q = dotted [97] [67]"
    by (simp add: demo_disk_def pc.defs disk.defs) code_simp
  have S: "short_name [97] [67]" by (simp add: short_name_def DUMMY_CHAR_8DOT3_def)
  have B: "apart_bytes (q_name ?q) (unat (q_len ?q)) 0x300 11"
    by (rule apart_bytes_regions) (simp_all add: apart_def)
  have "map TO_LOWER_CASE (dotted [97] [67]) = [97, 46, 99]" by code_simp
  from short_name_roundtrip [OF N S B k nz A, unfolded this] show ?thesis .
qed

end
