(* ===== verification/Fs_Cache.thy ===== *)
theory Fs_Cache
  imports Fs_Names
begin

text \<open>
  The objects of the file system, \<^verbatim>\<open>src/include/ouros/fs/fs.h\<close>, and their caches,
  \<^verbatim>\<open>src/kernel/fs/fscache.c\<close>, with the reference counts of \<^verbatim>\<open>src/kernel/fs/fs.c\<close>.

  Every kind of object has a map of its own from addresses to contents, from which \<open>kfree\<close> removes
  the object: a field of a freed or a never allocated object has no value, and the operation that
  uses it is None.  The list nodes embedded in the objects form one store of links; \<open>kfree\<close> leaves
  them as they are, since the allocator uses the first two words of a free object only.  A pointer
  to an embedded node is a value of the type \<open>fnode\<close>, \<open>container_of\<close> the matching partial function
  from nodes to objects.  \<open>addr_of\<close> holds the addresses that the compiler gives to string literals
  and to local variables whose address is taken.
\<close>

section \<open>Data\<close>

datatype fs_ops = FAT32 | EXT2

text \<open>
  The word \<open>s_info_fat32\<close> of a super block points to the one or the other kind of information: in the code
  it is a union.
\<close>

record fs_info_fat32 =
  info_fsinfo_sec :: u32
  info_fat_sec :: u32
  info_clu_base :: u32
  info_next_clu :: u32

record fs_info_ext2 =
  info_1st_sb_sec :: u32
  info_1st_gdt_sec :: u32
  info_inode_pgroup :: u32
  info_inode_size :: u32

record vfsmount =
  mnt_parent :: u32
  mnt_mntpoint :: u32
  mnt_sb :: u32

record super_block =
  s_type :: fs_ops
  s_blocksize :: u32
  s_blockbits :: u32
  s_basesec :: u32
  s_root :: u32
  s_op :: fs_ops
  s_mnt :: vfsmount
  s_info_fat32 :: u32

record fs_map =
  map_addr :: u32
  map_page :: u32

record inode =
  i_ino :: u32
  i_count :: u32
  i_size :: u32
  i_blocks :: u32
  i_pinned :: bool
  i_isdir :: bool
  i_sb :: u32
  i_iop :: fs_ops
  i_fop :: fs_ops

record dentry =
  d_count :: u32
  d_pinned :: bool
  d_mounted :: bool
  d_sb :: u32
  d_inode :: u32
  d_parent :: u32
  d_op :: fs_ops
  d_name :: qstr

record fspage =
  p_dirt :: bool
  p_data :: u32
  p_pagesize :: u32
  p_sec_addr :: u32
  p_sec_cnt :: u32

record nameidata =
  nd_dentry :: u32
  nd_mnt :: u32
  nd_cur_name :: qstr

record fscache =
  c_size :: u32
  c_capacity :: u32
  c_hash :: u32

datatype fnode =
    SbList | SbNode u32 | CacheLru nat | CacheHash nat u32
  | DHash u32 | DLru u32 | DSibling u32 | DSubdirs u32 | DAlias u32
  | IDentry u32 | IHash u32 | ILru u32 | IData u32
  | MapNode u32 | PHash u32 | PLru u32

text \<open>
  An open file.  \<open>f_cur_map\<close> is a pointer the code gets with \<open>container_of\<close> and only uses to take
  the address of its node again, so it is kept as that node: it may be the head of the list.
\<close>

record fs_file =
  f_size :: u32
  f_mode :: u32
  f_pos :: u32
  f_cur_off :: u32
  f_cur_map :: fnode
  f_dentry :: u32
  f_op :: fs_ops
  f_data_map :: fnode
  f_dirt :: bool

record fs = disk +
  flinks :: "fnode lheap"
  cache_array :: u32
  caches :: "nat \<Rightarrow> fscache"
  super_blocks :: "u32 \<Rightarrow> super_block option"
  fat32_infos :: "u32 \<Rightarrow> fs_info_fat32 option"
  ext2_infos :: "u32 \<Rightarrow> fs_info_ext2 option"
  inodes :: "u32 \<Rightarrow> inode option"
  dentries :: "u32 \<Rightarrow> dentry option"
  fs_maps :: "u32 \<Rightarrow> fs_map option"
  fspages :: "u32 \<Rightarrow> fspage option"
  files :: "u32 \<Rightarrow> fs_file option"
  root_dentry :: u32
  pwd_dentry :: u32
  addr_of :: "string \<Rightarrow> u32"

definition D_CACHE :: nat where "D_CACHE = 0"
definition I_CACHE :: nat where "I_CACHE = 1"
definition P_CACHE :: nat where "P_CACHE = 2"
definition DCACHE_CAPACITY :: u32 where "DCACHE_CAPACITY = 64"
definition ICACHE_CAPACITY :: u32 where "ICACHE_CAPACITY = 64"
definition PCACHE_CAPACITY :: u32 where "PCACHE_CAPACITY = 128"
definition sizeof_fspage :: u32 where "sizeof_fspage = 36"
definition sizeof_fscache :: u32 where "sizeof_fscache = 20"

lemmas cache_consts [os_const] = D_CACHE_def I_CACHE_def P_CACHE_def DCACHE_CAPACITY_def
  ICACHE_CAPACITY_def PCACHE_CAPACITY_def sizeof_fspage_def sizeof_fscache_def

section \<open>Access to the objects\<close>

definition upd_flinks :: "(fnode lheap \<Rightarrow> fnode lheap) \<Rightarrow> 'z fs_scheme \<Rightarrow> 'z fs_scheme" where
  "upd_flinks g s = s\<lparr>flinks := g (flinks s)\<rparr>"

definition upd_cache :: "nat \<Rightarrow> (fscache \<Rightarrow> fscache) \<Rightarrow> 'z fs_scheme \<Rightarrow> 'z fs_scheme" where
  "upd_cache t g s = s\<lparr>caches := (caches s)(t := g (caches s t))\<rparr>"

definition upd_dentry :: "u32 \<Rightarrow> (dentry \<Rightarrow> dentry) \<Rightarrow> 'z fs_scheme \<Rightarrow> 'z fs_scheme option" where
  "upd_dentry p g s = do { d \<leftarrow> dentries s p; Some (s\<lparr>dentries := (dentries s)(p := Some (g d))\<rparr>) }"

definition upd_inode :: "u32 \<Rightarrow> (inode \<Rightarrow> inode) \<Rightarrow> 'z fs_scheme \<Rightarrow> 'z fs_scheme option" where
  "upd_inode p g s = do { d \<leftarrow> inodes s p; Some (s\<lparr>inodes := (inodes s)(p := Some (g d))\<rparr>) }"

definition upd_fs_map :: "u32 \<Rightarrow> (fs_map \<Rightarrow> fs_map) \<Rightarrow> 'z fs_scheme \<Rightarrow> 'z fs_scheme option" where
  "upd_fs_map p g s = do { d \<leftarrow> fs_maps s p; Some (s\<lparr>fs_maps := (fs_maps s)(p := Some (g d))\<rparr>) }"

definition upd_fspage :: "u32 \<Rightarrow> (fspage \<Rightarrow> fspage) \<Rightarrow> 'z fs_scheme \<Rightarrow> 'z fs_scheme option" where
  "upd_fspage p g s = do { d \<leftarrow> fspages s p; Some (s\<lparr>fspages := (fspages s)(p := Some (g d))\<rparr>) }"

definition upd_file :: "u32 \<Rightarrow> (fs_file \<Rightarrow> fs_file) \<Rightarrow> 'z fs_scheme \<Rightarrow> 'z fs_scheme option" where
  "upd_file p g s = do { d \<leftarrow> files s p; Some (s\<lparr>files := (files s)(p := Some (g d))\<rparr>) }"

fun map_at :: "fnode \<Rightarrow> u32 option" where
  "map_at (MapNode m) = Some m" | "map_at _ = None"

fun lru_dentry :: "fnode \<Rightarrow> u32 option" where
  "lru_dentry (DLru e) = Some e" | "lru_dentry _ = None"

fun lru_inode :: "fnode \<Rightarrow> u32 option" where
  "lru_inode (ILru e) = Some e" | "lru_inode _ = None"

fun lru_page :: "fnode \<Rightarrow> u32 option" where
  "lru_page (PLru e) = Some e" | "lru_page _ = None"

fun hash_dentry :: "fnode \<Rightarrow> u32 option" where
  "hash_dentry (DHash e) = Some e" | "hash_dentry _ = None"

fun hash_inode :: "fnode \<Rightarrow> u32 option" where
  "hash_inode (IHash e) = Some e" | "hash_inode _ = None"

fun sibling_at :: "fnode \<Rightarrow> u32 option" where
  "sibling_at (DSibling e) = Some e" | "sibling_at _ = None"

fun alias_at :: "fnode \<Rightarrow> u32 option" where
  "alias_at (DAlias e) = Some e" | "alias_at _ = None"

section \<open>Reference counts\<close>

definition d_inc_count :: "u32 \<Rightarrow> 'z fs_scheme \<Rightarrow> 'z fs_scheme option" where
  "d_inc_count entry s =
     do { s \<leftarrow> upd_dentry entry (\<lambda>d. d\<lparr>d_count := d_count d + 1\<rparr>) s;
          Some (upd_flinks (list_move (DLru entry) (CacheLru D_CACHE)) s) }"

definition d_dec_count :: "u32 \<Rightarrow> 'z fs_scheme \<Rightarrow> 'z fs_scheme option" where
  "d_dec_count entry s =
     do { s \<leftarrow> upd_dentry entry (\<lambda>d. d\<lparr>d_count := d_count d - 1\<rparr>) s;
          Some (upd_flinks (list_move (DLru entry) (CacheLru D_CACHE)) s) }"

definition i_inc_count :: "u32 \<Rightarrow> 'z fs_scheme \<Rightarrow> 'z fs_scheme option" where
  "i_inc_count node s =
     do { s \<leftarrow> upd_inode node (\<lambda>d. d\<lparr>i_count := i_count d + 1\<rparr>) s;
          Some (upd_flinks (list_move (ILru node) (CacheLru I_CACHE)) s) }"

definition i_dec_count :: "u32 \<Rightarrow> 'z fs_scheme \<Rightarrow> 'z fs_scheme option" where
  "i_dec_count node s =
     do { s \<leftarrow> upd_inode node (\<lambda>d. d\<lparr>i_count := i_count d - 1\<rparr>) s;
          Some (upd_flinks (list_move (ILru node) (CacheLru I_CACHE)) s) }"

section \<open>Set-up\<close>

primrec init_hash_loop :: "nat \<Rightarrow> nat \<Rightarrow> fnode lheap \<Rightarrow> fnode lheap" where
  "init_hash_loop 0 t h = h"
| "init_hash_loop (Suc i) t h = INIT_LIST_HEAD (CacheHash t (of_nat i)) (init_hash_loop i t h)"

definition init_fscache_info :: "nat \<Rightarrow> u32 \<Rightarrow> 'z fs_scheme \<Rightarrow> 'z fs_scheme option" where
  "init_fscache_info t cap s =
     (let s = upd_cache t (\<lambda>c. c\<lparr>c_size := 0, c_capacity := cap\<rparr>) s;
          (s, h) = kmalloc (8 * HASH_SIZE) s;
          s = upd_cache t (\<lambda>c. c\<lparr>c_hash := h\<rparr>) s
      in if h = 0 then None
         else Some (upd_flinks (INIT_LIST_HEAD (CacheLru t) \<circ> init_hash_loop (unat HASH_SIZE) t) s))"

definition init_fscache :: "'z fs_scheme \<Rightarrow> ('z fs_scheme \<times> u32) option" where
  "init_fscache s =
     (let (s, a) = kmalloc (sizeof_fscache * 3) s;
          s = s\<lparr>cache_array := a\<rparr>
      in if a = 0 then Some (s, - ERROR_NO_MEMORY)
         else do {
           s \<leftarrow> init_fscache_info D_CACHE DCACHE_CAPACITY s;
           s \<leftarrow> init_fscache_info I_CACHE ICACHE_CAPACITY s;
           s \<leftarrow> init_fscache_info P_CACHE PCACHE_CAPACITY s;
           Some (s, NO_ERROR)
         })"

section \<open>Pages: writing back and freeing\<close>

definition flush_fspage :: "u32 \<Rightarrow> 'z fs_scheme \<Rightarrow> ('z fs_scheme \<times> u32) option" where
  "flush_fspage page s =
     (if page = 0 then Some (s, NO_ERROR)
      else do {
        p \<leftarrow> fspages s page;
        if \<not> p_dirt p then Some (s, NO_ERROR)
        else do {
          (s, ok) \<leftarrow> sd_write_block (p_data p) (p_sec_addr p) (p_sec_cnt p) s;
          if \<not> ok then Some (s, - ERROR_READ_SDCARD)
          else do { s \<leftarrow> upd_fspage page (\<lambda>p. p\<lparr>p_dirt := False\<rparr>) s; Some (s, NO_ERROR) }
        }
      })"

text \<open>
  \<open>container_of (page, fs_map, map_page)->map_page\<close> is the word at the address \<open>page\<close> itself, that is
  the flag \<open>p_dirt\<close> of the page: the block that refers to the page keeps its pointer.
\<close>

definition free_fspage :: "u32 \<Rightarrow> 'z fs_scheme \<Rightarrow> 'z fs_scheme option" where
  "free_fspage page s =
     (if page = 0 then Some s
      else do {
        p \<leftarrow> fspages s page;
        let s = upd_flinks (list_del (PHash page) \<circ> list_del (PLru page)) s;
        s \<leftarrow> upd_fspage page (\<lambda>p. p\<lparr>p_dirt := False\<rparr>) s;
        s \<leftarrow> kfree (p_data p) s;
        s \<leftarrow> kfree page s;
        Some (s\<lparr>fspages := (fspages s)(page := None)\<rparr>)
      })"

section \<open>Freeing directory entries and index nodes\<close>

partial_function (option) orphan_loop :: "u32 \<Rightarrow> fnode \<Rightarrow> 'z fs_scheme \<Rightarrow> 'z fs_scheme option" where
  "orphan_loop entry p s =
     (if p = DSubdirs entry then Some s
      else do {
        c \<leftarrow> sibling_at p;
        s \<leftarrow> upd_dentry c (\<lambda>d. d\<lparr>d_parent := 0\<rparr>) s;
        orphan_loop entry (next (flinks s) p) s
      })"

definition free_dentry :: "u32 \<Rightarrow> 'z fs_scheme \<Rightarrow> 'z fs_scheme option" where
  "free_dentry entry s =
     do {
       d \<leftarrow> dentries s entry;
       let s = upd_flinks (list_del (DSibling entry) \<circ> list_del (DAlias entry) \<circ> list_del (DHash entry) \<circ>
                 list_del (DLru entry)) s;
       s \<leftarrow> orphan_loop entry (next (flinks s) (DSubdirs entry)) s;
       s \<leftarrow> (if q_name (d_name d) > 0x81000000 then kfree (q_name (d_name d)) s else Some s);
       s \<leftarrow> kfree entry s;
       Some (s\<lparr>dentries := (dentries s)(entry := None)\<rparr>)
     }"

partial_function (option) free_alias_loop :: "u32 \<Rightarrow> fnode \<Rightarrow> 'z fs_scheme \<Rightarrow> 'z fs_scheme option" where
  "free_alias_loop node p s =
     (if p = IDentry node then Some s
      else do {
        e \<leftarrow> alias_at p;
        s \<leftarrow> free_dentry e s;
        free_alias_loop node (next (flinks s) p) s
      })"

partial_function (option) free_map_loop :: "u32 \<Rightarrow> fnode \<Rightarrow> 'z fs_scheme \<Rightarrow> 'z fs_scheme option" where
  "free_map_loop node cur s =
     (if cur = IData node then Some s
      else do {
        m \<leftarrow> map_at cur;
        let p = prev (flinks s) cur;
        let s = upd_flinks (list_del cur) s;
        mp \<leftarrow> fs_maps s m;
        s \<leftarrow> free_fspage (map_page mp) s;
        s \<leftarrow> kfree m s;
        let s = s\<lparr>fs_maps := (fs_maps s)(m := None)\<rparr>;
        free_map_loop node (next (flinks s) p) s
      })"

definition free_inode :: "u32 \<Rightarrow> 'z fs_scheme \<Rightarrow> 'z fs_scheme option" where
  "free_inode node s =
     do {
       _ \<leftarrow> inodes s node;
       let s = upd_flinks (list_del (IHash node) \<circ> list_del (ILru node)) s;
       s \<leftarrow> free_alias_loop node (next (flinks s) (IDentry node)) s;
       s \<leftarrow> free_map_loop node (next (flinks s) (IData node)) s;
       s \<leftarrow> kfree node s;
       Some (s\<lparr>inodes := (inodes s)(node := None)\<rparr>)
     }"

section \<open>Making room\<close>

text \<open>The two loops over a cache, from its least recently used end; the result is the pair of
  \<open>ret\<close> and \<open>target\<close>.\<close>

partial_function (option) flush_d_loop ::
    "fnode \<Rightarrow> bool \<Rightarrow> u32 \<Rightarrow> 'z fs_scheme \<Rightarrow> ('z fs_scheme \<times> bool \<times> u32) option" where
  "flush_d_loop p ret target s =
     (if p = CacheLru D_CACHE then Some (s, ret, target)
      else do {
        entry \<leftarrow> lru_dentry p;
        d \<leftarrow> dentries s entry;
        if d_pinned d then flush_d_loop (prev (flinks s) p) ret target s
        else if d_count d = 0 then do {
          let p = next (flinks s) (DLru entry);
          s \<leftarrow> free_dentry entry s;
          let s = upd_cache D_CACHE (\<lambda>c. c\<lparr>c_size := c_size c - 1\<rparr>) s;
          flush_d_loop (prev (flinks s) p) True target s
        }
        else flush_d_loop (prev (flinks s) p) ret (if target = 0 then entry else target) s
      })"

definition flush_d_cache :: "'z fs_scheme \<Rightarrow> ('z fs_scheme \<times> bool) option" where
  "flush_d_cache s =
     do {
       (s, ret, target) \<leftarrow> flush_d_loop (prev (flinks s) (CacheLru D_CACHE)) False 0 s;
       if \<not> ret \<and> target \<noteq> 0 then do {
         s \<leftarrow> free_dentry target s;
         Some (upd_cache D_CACHE (\<lambda>c. c\<lparr>c_size := c_size c - 1\<rparr>) s, True)
       }
       else Some (s, ret)
     }"

partial_function (option) flush_i_loop ::
    "fnode \<Rightarrow> bool \<Rightarrow> u32 \<Rightarrow> 'z fs_scheme \<Rightarrow> ('z fs_scheme \<times> bool \<times> u32) option" where
  "flush_i_loop p ret target s =
     (if p = CacheLru I_CACHE then Some (s, ret, target)
      else do {
        node \<leftarrow> lru_inode p;
        d \<leftarrow> inodes s node;
        if i_pinned d then flush_i_loop (prev (flinks s) p) ret target s
        else if i_count d = 0 then do {
          let p = next (flinks s) (ILru node);
          s \<leftarrow> free_inode node s;
          let s = upd_cache I_CACHE (\<lambda>c. c\<lparr>c_size := c_size c - 1\<rparr>) s;
          flush_i_loop (prev (flinks s) p) True target s
        }
        else flush_i_loop (prev (flinks s) p) ret (if target = 0 then node else target) s
      })"

definition flush_i_cache :: "'z fs_scheme \<Rightarrow> ('z fs_scheme \<times> bool) option" where
  "flush_i_cache s =
     do {
       (s, ret, target) \<leftarrow> flush_i_loop (prev (flinks s) (CacheLru I_CACHE)) False 0 s;
       if \<not> ret \<and> target \<noteq> 0 then do {
         s \<leftarrow> free_inode target s;
         Some (upd_cache I_CACHE (\<lambda>c. c\<lparr>c_size := c_size c - 1\<rparr>) s, True)
       }
       else Some (s, ret)
     }"

primrec flush_p_loop :: "nat \<Rightarrow> fnode \<Rightarrow> 'z fs_scheme \<Rightarrow> ('z fs_scheme \<times> bool) option" where
  "flush_p_loop 0 target s = Some (s, True)"
| "flush_p_loop (Suc n) target s =
     do {
       let target = prev (flinks s) target;
       page \<leftarrow> lru_page target;
       (s, e) \<leftarrow> flush_fspage page s;
       if IS_ERR_VALUE e then Some (s, False)
       else do {
         s \<leftarrow> free_fspage page s;
         flush_p_loop n target (upd_cache P_CACHE (\<lambda>c. c\<lparr>c_size := c_size c - 1\<rparr>) s)
       }
     }"

definition flush_p_cache :: "'z fs_scheme \<Rightarrow> ('z fs_scheme \<times> bool) option" where
  "flush_p_cache s = flush_p_loop (unat (PCACHE_CAPACITY div 2)) (CacheLru P_CACHE) s"

definition flush_cache :: "nat \<Rightarrow> 'z fs_scheme \<Rightarrow> ('z fs_scheme \<times> bool) option" where
  "flush_cache t s =
     (if t = D_CACHE then flush_d_cache s else if t = I_CACHE then flush_i_cache s
      else if t = P_CACHE then flush_p_cache s else Some (s, False))"

section \<open>Adding to a cache\<close>

definition add_to_d_cache :: "u32 \<Rightarrow> 'z fs_scheme \<Rightarrow> 'z fs_scheme option" where
  "add_to_d_cache entry s =
     do {
       d \<leftarrow> dentries s entry;
       let hash = hash_string (kmem s) (d_name d);
       let s = upd_flinks (list_add (DLru entry) (CacheLru D_CACHE) \<circ>
                 list_add (DHash entry) (CacheHash D_CACHE hash)) s;
       Some (upd_cache D_CACHE (\<lambda>c. c\<lparr>c_size := c_size c + 1\<rparr>) s)
     }"

definition add_to_i_cache :: "u32 \<Rightarrow> 'z fs_scheme \<Rightarrow> 'z fs_scheme option" where
  "add_to_i_cache node s =
     do {
       d \<leftarrow> inodes s node;
       let hash = hash_int (i_ino d);
       let s = upd_flinks (list_add (ILru node) (CacheLru I_CACHE) \<circ>
                 list_add (IHash node) (CacheHash I_CACHE hash)) s;
       Some (upd_cache I_CACHE (\<lambda>c. c\<lparr>c_size := c_size c + 1\<rparr>) s)
     }"

definition add_to_p_cache :: "u32 \<Rightarrow> 'z fs_scheme \<Rightarrow> 'z fs_scheme option" where
  "add_to_p_cache page s =
     do {
       _ \<leftarrow> fspages s page;
       let s = upd_flinks (list_add (PLru page) (CacheLru P_CACHE)) s;
       Some (upd_cache P_CACHE (\<lambda>c. c\<lparr>c_size := c_size c + 1\<rparr>) s)
     }"

definition add_to_cache :: "nat \<Rightarrow> u32 \<Rightarrow> 'z fs_scheme \<Rightarrow> ('z fs_scheme \<times> bool) option" where
  "add_to_cache t item s =
     do {
       (s, room) \<leftarrow>
         (if c_size (caches s t) = c_capacity (caches s t) then flush_cache t s else Some (s, True));
       if \<not> room then Some (s, False)
       else do {
         s \<leftarrow>
           (if t = D_CACHE then add_to_d_cache item s else if t = I_CACHE then add_to_i_cache item s
            else if t = P_CACHE then add_to_p_cache item s else Some s);
         Some (s, True)
       }
     }"

section \<open>Pages: reading\<close>

text \<open>
  After a failed read the page is freed, yet the error pointer in its place is added to the cache
  as if it were a page.
\<close>

definition alloc_fspage :: "u32 \<Rightarrow> u32 \<Rightarrow> 'z fs_scheme \<Rightarrow> ('z fs_scheme \<times> u32) option" where
  "alloc_fspage base_sec blk_size s =
     (let (s, page) = kmalloc sizeof_fspage s in
      if page = 0 then Some (s, - ERROR_NO_MEMORY)
      else let (s, data) = kmalloc blk_size s in
      if data = 0 then do { s \<leftarrow> kfree page s; Some (s, - ERROR_NO_MEMORY) }
      else do {
        let n = drop_bit SECTOR_SHIFT blk_size;
        let s = s\<lparr>fspages := (fspages s)(page := Some \<lparr>p_dirt = False, p_data = data, p_pagesize = blk_size,
                  p_sec_addr = base_sec, p_sec_cnt = n\<rparr>)\<rparr>;
        let s = upd_flinks (INIT_LIST_HEAD (PHash page) \<circ> INIT_LIST_HEAD (PLru page)) s;
        (s, ok) \<leftarrow> sd_read_block data base_sec n s;
        (s, ret) \<leftarrow>
          (if ok then Some (s, page)
           else do {
             s \<leftarrow> kfree data s;
             s \<leftarrow> kfree page s;
             Some (s\<lparr>fspages := (fspages s)(page := None)\<rparr>, - ERROR_READ_SDCARD)
           });
        (s, added) \<leftarrow> add_to_cache P_CACHE ret s;
        Some (s, if added then ret else - ERROR_CACHE_FULL)
      })"

definition get_fspage :: "fnode \<Rightarrow> u32 \<Rightarrow> 'z fs_scheme \<Rightarrow> ('z fs_scheme \<times> u32) option" where
  "get_fspage fs_map_entry blksize s =
     do {
       map \<leftarrow> map_at fs_map_entry;
       m \<leftarrow> fs_maps s map;
       if map_page m = 0 then do {
         (s, cur_page) \<leftarrow> alloc_fspage (map_addr m) blksize s;
         s \<leftarrow> upd_fs_map map (\<lambda>m. m\<lparr>map_page := cur_page\<rparr>) s;
         Some (s, cur_page)
       }
       else Some (s, map_page m)
     }"

section \<open>Lookup\<close>

definition d_compare :: "fs_ops \<Rightarrow> mem \<Rightarrow> qstr \<Rightarrow> qstr \<Rightarrow> int" where
  "d_compare k = (case k of FAT32 \<Rightarrow> compare_fat32 | EXT2 \<Rightarrow> compare_ext2)"

partial_function (option) lookup_d_loop :: "nameidata \<Rightarrow> fnode \<Rightarrow> fnode \<Rightarrow> 'z fs_scheme \<Rightarrow> u32 option" where
  "lookup_d_loop nd head p s =
     (if p = head then Some 0
      else do {
        e \<leftarrow> hash_dentry p;
        d \<leftarrow> dentries s e;
        if d_parent d = nd_dentry nd \<and> d_compare (d_op d) (kmem s) (d_name d) (nd_cur_name nd) = 0 then Some e
        else lookup_d_loop nd head (next (flinks s) p) s
      })"

definition lookup_d_cache :: "nameidata \<Rightarrow> 'z fs_scheme \<Rightarrow> u32 option" where
  "lookup_d_cache nd s =
     (let head = CacheHash D_CACHE (hash_string (kmem s) (nd_cur_name nd))
      in lookup_d_loop nd head (next (flinks s) head) s)"

partial_function (option) lookup_i_loop :: "u32 \<Rightarrow> fnode \<Rightarrow> fnode \<Rightarrow> 'z fs_scheme \<Rightarrow> u32 option" where
  "lookup_i_loop base_sec head p s =
     (if p = head then Some 0
      else do {
        n \<leftarrow> hash_inode p;
        d \<leftarrow> inodes s n;
        if i_ino d = base_sec then Some n else lookup_i_loop base_sec head (next (flinks s) p) s
      })"

definition lookup_i_cache :: "u32 \<Rightarrow> 'z fs_scheme \<Rightarrow> u32 option" where
  "lookup_i_cache base_sec s =
     (let head = CacheHash I_CACHE (hash_int base_sec)
      in lookup_i_loop base_sec head (next (flinks s) head) s)"

section \<open>Frames\<close>

lemma fs_of_slab_more:
  assumes "slab.more t = slab.more s"
  shows "kmem t = kmem s" "sd t = sd s" "flinks t = flinks s" "caches t = caches s" "inodes t = inodes s"
    "dentries t = dentries s" "fs_maps t = fs_maps s" "fspages t = fspages s" "files t = files s"
    "super_blocks t = super_blocks s" "fat32_infos t = fat32_infos s" "ext2_infos t = ext2_infos s"
  using assms by (cases s, cases t, simp)+

lemmas kmalloc_fs = fs_of_slab_more [OF kmalloc_more]
lemmas kfree_fs = fs_of_slab_more [OF kfree_more]

lemma heap_fs [simp]:
  "heap (s\<lparr>flinks := x\<rparr>) R = heap s R" "heap (s\<lparr>fspages := y\<rparr>) R = heap s R" "heap (s\<lparr>fs_maps := z\<rparr>) R = heap s R"
  "heap (s\<lparr>caches := w\<rparr>) R = heap s R"
  by (simp_all add: heap_def kheap_def kinv_def kobjs_def kblocks_def page_objs_def page_list_def [abs_def] slab_pages_def
      buddy_full_def buddy_inv_def bcore_def coalesced_def allocd_def zone_def zone_ok_def Let_def)

lemma disk_extend:
  "kheap (disk.extend s x) f A = kheap s f A" "heap (disk.extend s x) R = heap s R" "zone (disk.extend s x) = zone s"
  "kheap (upd_flinks g u) f A = kheap u f A" "heap (upd_flinks g u) R = heap u R" "zone (upd_flinks g u) = zone u"
  by (simp_all add: heap_def kheap_def kinv_def kobjs_def kblocks_def page_objs_def page_list_def [abs_def] slab_pages_def
      buddy_full_def buddy_inv_def bcore_def coalesced_def allocd_def zone_def zone_ok_def Let_def disk.defs upd_flinks_def)

section \<open>The cache of index nodes is a map from sectors to nodes\<close>

definition icache_heads :: "fnode set" where
  "icache_heads = insert (CacheLru I_CACHE) (CacheHash I_CACHE ` {k. unat k < 64})"

fun icache_lists :: "(u32 \<Rightarrow> u32 list) \<Rightarrow> u32 list \<Rightarrow> fnode \<Rightarrow> fnode list" where
  "icache_lists f ls (CacheHash t k) = map IHash (f k)"
| "icache_lists f ls _ = map ILru ls"

definition icache_ok :: "'z fs_scheme \<Rightarrow> (u32 \<Rightarrow> u32 list) \<Rightarrow> u32 list \<Rightarrow> bool" where
  "icache_ok s f ls \<longleftrightarrow> family dll (flinks s) icache_heads (icache_lists f ls) \<and>
     (\<forall>k n. unat k < 64 \<longrightarrow> n \<in> set (f k) \<longrightarrow> inodes s n \<noteq> None)"

definition ino_of :: "'z fs_scheme \<Rightarrow> u32 \<Rightarrow> u32" where
  "ino_of s n = (case inodes s n of Some d \<Rightarrow> i_ino d | None \<Rightarrow> 0)"

lemma hash_head: "CacheHash I_CACHE (hash_int x) \<in> icache_heads"
  by (simp add: icache_heads_def hash_int_def HASH_bound)

lemma lookup_i_loop_seg:
  assumes "seg (flinks s) a (map IHash ns) (CacheHash t k)" and "\<forall>n\<in>set ns. inodes s n \<noteq> None"
  shows "lookup_i_loop x (CacheHash t k) (next (flinks s) a) s =
    Some (case find (\<lambda>n. ino_of s n = x) ns of None \<Rightarrow> 0 | Some n \<Rightarrow> n)"
  using assms
proof (induction ns arbitrary: a)
  case Nil
  then show ?case by (subst lookup_i_loop.simps) simp
next
  case (Cons n ns)
  then have "next (flinks s) a = IHash n" "seg (flinks s) (IHash n) (map IHash ns) (CacheHash t k)" by simp_all
  with Cons show ?case by (subst lookup_i_loop.simps) (auto simp: ino_of_def)
qed

lemma lookup_i_cache_find:
  assumes "icache_ok s f ls"
  shows "lookup_i_cache x s = Some (case find (\<lambda>n. ino_of s n = x) (f (hash_int x)) of None \<Rightarrow> 0 | Some n \<Rightarrow> n)"
proof -
  have "dll (flinks s) (CacheHash I_CACHE (hash_int x)) (map IHash (f (hash_int x)))"
    using assms kl.familyD [OF _ hash_head, of "flinks s" "icache_lists f ls" x] by (simp add: icache_ok_def)
  moreover have "\<forall>n\<in>set (f (hash_int x)). inodes s n \<noteq> None"
    using assms HASH_bound [of x] by (auto simp: icache_ok_def hash_int_def)
  ultimately show ?thesis
    unfolding lookup_i_cache_def Let_def by (intro lookup_i_loop_seg) (simp_all add: dll_def)
qed

lemma icache_add:
  assumes C: "icache_ok s f ls" and d: "inodes s node = Some d" and new: "node \<notin> set ls" "\<And>k. unat k < 64 \<Longrightarrow> node \<notin> set (f k)"
    and room: "c_size (caches s I_CACHE) \<noteq> c_capacity (caches s I_CACHE)"
  defines "h \<equiv> hash_int (i_ino d)"
  obtains t where "add_to_cache I_CACHE node s = Some (t, True)" "icache_ok t (f(h := node # f h)) (node # ls)"
    "inodes t = inodes s"
proof -
  let ?H = "CacheHash I_CACHE h" and ?L = "CacheLru I_CACHE"
  define t where "t = upd_cache I_CACHE (\<lambda>c. c\<lparr>c_size := c_size c + 1\<rparr>)
    (upd_flinks (list_add (ILru node) ?L \<circ> list_add (IHash node) ?H) s)"
  have r: "add_to_cache I_CACHE node s = Some (t, True)"
    using room d by (simp add: add_to_cache_def add_to_i_cache_def t_def h_def os_const)
  have F: "family dll (flinks s) icache_heads (icache_lists f ls)" using C by (simp add: icache_ok_def)
  have hh: "?H \<in> icache_heads" unfolding h_def by (rule hash_head)
  have hl: "?L \<in> icache_heads" by (simp add: icache_heads_def)
  have notin: "IHash node \<notin> icache_heads" "ILru node \<notin> icache_heads" by (auto simp: icache_heads_def)
  have fresh: "\<forall>l\<in>icache_heads. IHash node \<notin> set (icache_lists f ls l)" "\<forall>l\<in>icache_heads. ILru node \<notin> set (icache_lists f ls l)"
    using new by (auto simp: icache_heads_def)
  define g where "g = (icache_lists f ls)(?H := IHash node # icache_lists f ls ?H)"
  have G: "family dll (list_add (IHash node) ?H (flinks s)) icache_heads g"
    unfolding g_def by (rule klh.family_add [OF F hh notin(1) fresh(1)])
  have "\<forall>l\<in>icache_heads. ILru node \<notin> set (g l)" using fresh(2) by (auto simp: g_def)
  from klh.family_add [OF G hl notin(2) this]
  have "family dll (flinks t) icache_heads (g(?L := ILru node # g ?L))"
    by (simp add: t_def upd_cache_def upd_flinks_def)
  moreover have "(g(?L := ILru node # g ?L)) l = icache_lists (f(h := node # f h)) (node # ls) l" if "l \<in> icache_heads" for l
    using that by (cases "l = ?H") (auto simp: icache_heads_def g_def split: if_splits)
  ultimately have T: "family dll (flinks t) icache_heads (icache_lists (f(h := node # f h)) (node # ls))"
    by (simp add: family_def)
  have i: "inodes t = inodes s" by (simp add: t_def upd_cache_def upd_flinks_def)
  have "icache_ok t (f(h := node # f h)) (node # ls)"
    using C T d by (auto simp: icache_ok_def i)
  from that [OF r this i] show thesis .
qed

section \<open>The empty caches\<close>

lemma init_hash_family:
  "n \<le> 64 \<Longrightarrow> family dll (init_hash_loop n t h) ((\<lambda>i. CacheHash t (of_nat i)) ` {..<n}) (\<lambda>_. [])"
proof (induction n)
  case (Suc n)
  let ?g = "\<lambda>i. CacheHash t (of_nat i)"
  have "?g n \<notin> ?g ` {..<n}"
  proof
    assume "?g n \<in> ?g ` {..<n}"
    then obtain i where "i < n" "(of_nat n :: u32) = of_nat i" by auto
    then have "n = i" using Suc.prems of_nat_u32_inj [of n i] by simp
    then show False using \<open>i < n\<close> by simp
  qed
  with Suc have "family dll (INIT_LIST_HEAD (?g n) (init_hash_loop n t h)) (insert (?g n) (?g ` {..<n})) ((\<lambda>_. [])(?g n := []))"
    by (intro kl.family_init_new) auto
  then have "family dll (INIT_LIST_HEAD (?g n) (init_hash_loop n t h)) (insert (?g n) (?g ` {..<n})) (\<lambda>_. [])"
    by (rule family_cong) auto
  then show ?case by (simp add: lessThan_Suc image_insert)
qed (simp add: family_def)

lemma icache_heads_alt: "icache_heads = insert (CacheLru I_CACHE) ((\<lambda>i. CacheHash I_CACHE (of_nat i)) ` {..<64})"
proof -
  have "{k :: u32. unat k < 64} = of_nat ` {..<64}"
  proof (intro equalityI subsetI)
    fix k :: u32 assume "k \<in> {k. unat k < 64}"
    then have "k = of_nat (unat k)" "unat k \<in> {..<64}" by simp_all
    then show "k \<in> of_nat ` {..<64}" by blast
  qed (auto simp: unat_of_nat)
  then show ?thesis by (simp add: icache_heads_def image_image)
qed

lemma icache_empty: "icache_ok (upd_flinks (INIT_LIST_HEAD (CacheLru I_CACHE) \<circ> init_hash_loop 64 I_CACHE) s) (\<lambda>_. []) []"
proof -
  let ?H = "(\<lambda>i. CacheHash I_CACHE (of_nat i)) ` {..<64}"
  have "family dll (INIT_LIST_HEAD (CacheLru I_CACHE) (init_hash_loop 64 I_CACHE (flinks s))) (insert (CacheLru I_CACHE) ?H)
    ((\<lambda>_. [])(CacheLru I_CACHE := []))"
    by (rule kl.family_init_new [OF init_hash_family]) auto
  then have "family dll (INIT_LIST_HEAD (CacheLru I_CACHE) (init_hash_loop 64 I_CACHE (flinks s))) icache_heads (icache_lists (\<lambda>_. []) [])"
    unfolding icache_heads_alt by (rule family_cong) auto
  then show ?thesis by (simp add: icache_ok_def upd_flinks_def)
qed

section \<open>Properties\<close>

text \<open>
  C27.  The cache of index nodes, 64 hash chains and a list in order of use, is a map from first
  sectors to index nodes.  Adding a node to a cache that is not full keeps the lists well formed and
  makes the node the answer for its own sector; the answers for all other sectors stay the same, and
  every lookup returns.
\<close>

theorem icache_add_lookup:
  assumes "icache_ok s f ls" and "inodes s node = Some d" and "node \<notin> set ls" and "\<forall>k. node \<notin> set (f k)"
    and "c_size (caches s I_CACHE) \<noteq> c_capacity (caches s I_CACHE)"
  shows "\<exists>t f' a. add_to_cache I_CACHE node s = Some (t, True) \<and> icache_ok t f' (node # ls) \<and>
    lookup_i_cache x s = Some a \<and> lookup_i_cache x t = Some (if x = i_ino d then node else a)"
proof -
  let ?f = "f(hash_int (i_ino d) := node # f (hash_int (i_ino d)))"
  obtain t where t: "add_to_cache I_CACHE node s = Some (t, True)" "icache_ok t ?f (node # ls)" "inodes t = inodes s"
    by (rule icache_add [OF assms(1,2,3) _ assms(5)]) (use assms(4) in auto)
  have i: "ino_of t n = ino_of s n" for n by (simp add: ino_of_def t(3))
  have "ino_of s node = i_ino d" using assms(2) by (simp add: ino_of_def)
  then show ?thesis
    using t lookup_i_cache_find [OF assms(1), of x] lookup_i_cache_find [OF t(2), of x] by (auto simp: i)
qed

definition demo_inode :: "u32 \<Rightarrow> inode" where
  "demo_inode ino = \<lparr>i_ino = ino, i_count = 0, i_size = 0, i_blocks = 1, i_pinned = False, i_isdir = False,
     i_sb = 0x500, i_iop = FAT32, i_fop = FAT32\<rparr>"

definition demo_fs :: fs where
  "demo_fs = upd_flinks (INIT_LIST_HEAD (CacheLru I_CACHE) \<circ> init_hash_loop 64 I_CACHE)
    (disk.extend (demo_disk (\<lambda>_. 0)) \<lparr>flinks = \<lparr>prev = \<lambda>n. n, next = \<lambda>n. n\<rparr>, cache_array = 0x10,
      caches = \<lambda>_. \<lparr>c_size = 0, c_capacity = 64, c_hash = 0x20\<rparr>, super_blocks = \<lambda>_. None, fat32_infos = \<lambda>_. None, ext2_infos = \<lambda>_. None,
      inodes = (\<lambda>_. None)(0x700 \<mapsto> demo_inode 72), dentries = \<lambda>_. None, fs_maps = \<lambda>_. None, fspages = \<lambda>_. None,
      files = \<lambda>_. None, root_dentry = 0, pwd_dentry = 0, addr_of = \<lambda>_. 0x200\<rparr>)"

theorem icache_add_lookup_witness:
  "\<exists>t a. add_to_cache I_CACHE 0x700 demo_fs = Some (t, True) \<and> lookup_i_cache 72 t = Some 0x700 \<and>
     lookup_i_cache 8 t = Some a \<and> lookup_i_cache 8 demo_fs = Some a"
proof -
  have C: "icache_ok demo_fs (\<lambda>_. []) []" unfolding demo_fs_def by (rule icache_empty)
  have d: "inodes demo_fs 0x700 = Some (demo_inode 72)"
    and c: "c_size (caches demo_fs I_CACHE) \<noteq> c_capacity (caches demo_fs I_CACHE)"
    by (simp_all add: demo_fs_def disk.defs fs.defs upd_flinks_def)
  from icache_add_lookup [OF C d _ _ c, of 72] icache_add_lookup [OF C d _ _ c, of 8]
  show ?thesis by (auto simp: demo_inode_def)
qed

text \<open>
  C34.  Evicting a page from the page cache leaves the block that uses it with a pointer to the freed
  page: the next \<open>get_fspage\<close> on the block returns that pointer without reading the block again, and
  no use of the page behind it is defined.
\<close>

theorem evicted_page_dangles:
  assumes "fs_maps s m = Some mp" and "map_page mp \<noteq> 0" and "free_fspage (map_page mp) s = Some t"
  shows "get_fspage (MapNode m) b t = Some (t, map_page mp) \<and> fspages t (map_page mp) = None \<and>
    flush_fspage (map_page mp) t = None"
proof -
  obtain p u v where p: "kfree p u = Some v" "\<exists>w. kfree (map_page mp) v = Some w \<and> t = w\<lparr>fspages := (fspages w)(map_page mp := None)\<rparr>"
    "fs_maps u = fs_maps s"
    using assms(2,3)
    by (auto simp: free_fspage_def upd_fspage_def upd_flinks_def bind_eq_Some_conv)
  then have "fs_maps t = fs_maps s" using kfree_fs(7) [OF p(1)] by (auto dest: kfree_fs(7))
  moreover have "fspages t (map_page mp) = None" using p(2) by auto
  ultimately show ?thesis using assms(1,2) by (simp add: get_fspage_def flush_fspage_def)
qed

lemma demo_fs_heap: "heap demo_fs {}" "zone demo_fs = {16..<32}" "\<exists>f. kheap demo_fs f {}"
  using demo_vm_heap by (simp_all add: demo_fs_def demo_disk_def demo_pc_def disk_extend pc_extend vm_extend)

theorem evicted_page_dangles_witness:
  "\<exists>(s :: fs) t page. map_option map_page (fs_maps s 0x40) = Some page \<and> free_fspage page s = Some t \<and>
     get_fspage (MapNode 0x40) 4096 t = Some (t, page) \<and> flush_fspage page t = None"
proof -
  obtain f where K: "kheap demo_fs f {}" using demo_fs_heap(3) by blast
  obtain s1 f1 p j where d: "kmalloc 4096 demo_fs = (s1, vaddr p)" "vaddr p \<noteq> 0" "kheap s1 f1 {(p, j)}" "zone s1 = {16..<32}" "j \<le> 0"
    by (rule kmalloc_block_ok [OF K, of 4096 0 16]) (use demo_fs_heap(2) in \<open>auto simp: blk_def\<close>)
  obtain s2 page where k: "kmalloc sizeof_fspage s1 = (s2, page)" by fastforce
  define q :: nat where "q = (if p = 16 then 17 else 16)"
  have "page \<noteq> 0"
    using kmalloc_small_ok [OF d(3), of sizeof_fspage q] k d(4,5) by (auto simp: q_def sizeof_fspage_def blk_def)
  obtain n where n: "heap s1 {(unat (vaddr p), n)}"
    using km.alloc_region [OF demo_fs_heap(1) _ d(1,2)] by auto
  obtain m where m: "heap s2 (insert (unat page, m) {(unat (vaddr p), n)})" "(unat page, m) \<notin> {(unat (vaddr p), n)}"
    using km.alloc_region [OF n _ k \<open>page \<noteq> 0\<close>] by (auto simp: sizeof_fspage_def)
  let ?s = "s2\<lparr>fspages := (\<lambda>_. None)(page \<mapsto> \<lparr>p_dirt = False, p_data = vaddr p, p_pagesize = 4096, p_sec_addr = 8, p_sec_cnt = 8\<rparr>),
    fs_maps := (\<lambda>_. None)(0x40 \<mapsto> \<lparr>map_addr = 8, map_page = page\<rparr>)\<rparr>"
  define u where "u = upd_flinks (list_del (PHash page) \<circ> list_del (PLru page)) ?s"
  define u' where "u' = u\<lparr>fspages := (fspages u)(page \<mapsto> \<lparr>p_dirt = False, p_data = vaddr p, p_pagesize = 4096, p_sec_addr = 8, p_sec_cnt = 8\<rparr>)\<rparr>"
  have H: "heap u' (insert (unat page, m) {(unat (vaddr p), n)})"
    using m(1) by (simp add: u'_def u_def upd_flinks_def)
  obtain v where v: "kfree (vaddr p) u' = Some v" "heap v (insert (unat page, m) {(unat (vaddr p), n)} - {(unat (vaddr p), n)})"
    using km.free_region [OF H, of "vaddr p" n] by auto
  obtain w where w: "kfree page v = Some w" using km.free_region [OF v(2), of page m] m(2) by auto
  have "free_fspage page ?s = Some (w\<lparr>fspages := (fspages w)(page := None)\<rparr>)"
    using v(1) w \<open>page \<noteq> 0\<close> by (simp add: free_fspage_def upd_fspage_def u'_def u_def upd_flinks_def)
  with evicted_page_dangles [of ?s "0x40" "\<lparr>map_addr = 8, map_page = page\<rparr>" _ 4096] \<open>page \<noteq> 0\<close>
  show ?thesis by (intro exI [of _ ?s] exI [of _ "w\<lparr>fspages := (fspages w)(page := None)\<rparr>"] exI [of _ page]) simp
qed

end
