(* ===== verification/Fat_Table.thy ===== *)
theory Fat_Table
  imports Fs_Cache
begin

text \<open>
  The file allocation table of a FAT32 volume, \<^verbatim>\<open>src/kernel/fs/fat/fat.c\<close>: reading and writing one
  entry through a fresh sector buffer (which the code never frees), the search for a free cluster,
  the hint sector, and the walks along a chain of clusters that \<open>alloc_inode_fat32\<close>,
  \<open>expand_fat32\<close>, \<open>clear_fat32\<close> and \<open>delete_fat32\<close> make.
\<close>

section \<open>Clusters and sectors\<close>

definition FAT_ITEM_FREE :: u32 where "FAT_ITEM_FREE = 0"
definition FAT_ITEM_END :: u32 where "FAT_ITEM_END = 0x0FFFFFFF"
definition sizeof_fs_map :: u32 where "sizeof_fs_map = 16"
definition sizeof_inode :: u32 where "sizeof_inode = 64"
definition sizeof_dentry :: u32 where "sizeof_dentry = 76"

lemmas fat_consts [os_const] = FAT_ITEM_FREE_def FAT_ITEM_END_def sizeof_fs_map_def sizeof_inode_def
  sizeof_dentry_def

text \<open>The operand of \<open>max (0, n - 2)\<close> is unsigned, so the maximum never takes effect.\<close>

definition CLU_TO_SEC :: "u32 \<Rightarrow> u32 \<Rightarrow> u32 \<Rightarrow> u32" where
  "CLU_TO_SEC base_sec blk_num blk_bits =
     base_sec + drop_bit SECTOR_SHIFT (push_bit (unat blk_bits) (max 0 (blk_num - 2)))"

definition SEC_TO_CLU :: "u32 \<Rightarrow> u32 \<Rightarrow> u32 \<Rightarrow> u32" where
  "SEC_TO_CLU base_sec sec_num blk_bits =
     drop_bit (unat blk_bits) (push_bit SECTOR_SHIFT (sec_num - base_sec)) + 2"

section \<open>One entry\<close>

definition read_fat :: "u32 \<Rightarrow> u32 \<Rightarrow> 'z fs_scheme \<Rightarrow> ('z fs_scheme \<times> u32) option" where
  "read_fat fat_base_sec clu_num s =
     (let off_bytes = push_bit 2 clu_num;
          off_sec = drop_bit SECTOR_SHIFT off_bytes;
          (s, buf) = kmalloc SECTOR_SIZE s
      in if buf = 0 then Some (s, - ERROR_NO_MEMORY)
         else do {
           (s, ok) \<leftarrow> sd_read_block buf (fat_base_sec + off_sec) 1 s;
           if \<not> ok then Some (s, - ERROR_READ_SDCARD)
           else Some (s, load32 (kmem s) (buf + (off_bytes AND (SECTOR_SIZE - 1))))
         })"

definition write_fat :: "u32 \<Rightarrow> u32 \<Rightarrow> u32 \<Rightarrow> 'z fs_scheme \<Rightarrow> ('z fs_scheme \<times> u32) option" where
  "write_fat fat_base_sec clu_num value s =
     (let off_bytes = push_bit 2 clu_num;
          off_sec = drop_bit SECTOR_SHIFT off_bytes;
          (s, buf) = kmalloc SECTOR_SIZE s
      in if buf = 0 then Some (s, - ERROR_NO_MEMORY)
         else do {
           (s, ok) \<leftarrow> sd_read_block buf (fat_base_sec + off_sec) 1 s;
           if \<not> ok then Some (s, - ERROR_READ_SDCARD)
           else do {
             let s = upd_mem (store32 (buf + (off_bytes AND (SECTOR_SIZE - 1))) value) s;
             (s, ok) \<leftarrow> sd_write_block buf (fat_base_sec + off_sec) 1 s;
             Some (s, if ok then NO_ERROR else - ERROR_READ_SDCARD)
           }
         })"

partial_function (option) find_free_loop :: "u32 \<Rightarrow> u32 \<Rightarrow> 'z fs_scheme \<Rightarrow> ('z fs_scheme \<times> u32) option" where
  "find_free_loop fat_base_sec free_idx s =
     do {
       let free_idx = free_idx + 1;
       (s, fat_value) \<leftarrow> read_fat fat_base_sec free_idx s;
       if IS_ERR_VALUE fat_value then Some (s, fat_value)
       else if fat_value = FAT_ITEM_FREE then Some (s, free_idx)
       else find_free_loop fat_base_sec free_idx s
     }"

definition find_free_clu :: "u32 \<Rightarrow> u32 \<Rightarrow> 'z fs_scheme \<Rightarrow> ('z fs_scheme \<times> u32) option" where
  "find_free_clu fat_base_sec start_idx s = find_free_loop fat_base_sec (start_idx - 1) s"

definition fat_info :: "u32 \<Rightarrow> 'z fs_scheme \<Rightarrow> fs_info_fat32 option" where
  "fat_info sb s = do { b \<leftarrow> super_blocks s sb; fat32_infos s (s_info_fat32 b) }"

definition update_next_clu :: "u32 \<Rightarrow> u32 \<Rightarrow> 'z fs_scheme \<Rightarrow> ('z fs_scheme \<times> u32) option" where
  "update_next_clu sb value s =
     (let (s, buf) = kmalloc SECTOR_SIZE s
      in if buf = 0 then Some (s, - ERROR_NO_MEMORY)
         else do {
           b \<leftarrow> super_blocks s sb;
           fi \<leftarrow> fat32_infos s (s_info_fat32 b);
           (s, ok) \<leftarrow> sd_read_block buf (info_fsinfo_sec fi) 1 s;
           if \<not> ok then Some (s, - ERROR_READ_SDCARD)
           else do {
             let s = s\<lparr>fat32_infos := (fat32_infos s)(s_info_fat32 b := Some (fi\<lparr>info_next_clu := value\<rparr>))\<rparr>;
             let s = upd_mem (store32 (buf + 492) value) s;
             (s, ok) \<leftarrow> sd_write_block buf (info_fsinfo_sec fi) 1 s;
             Some (s, if ok then NO_ERROR else - ERROR_READ_SDCARD)
           }
         })"

section \<open>Building an index node and a directory entry\<close>

definition append_map :: "u32 \<Rightarrow> u32 \<Rightarrow> u32 \<Rightarrow> 'z fs_scheme \<Rightarrow> 'z fs_scheme option" where
  "append_map node mp sec s =
     do {
       s \<leftarrow> upd_inode node (\<lambda>i. i\<lparr>i_blocks := i_blocks i + 1\<rparr>) s;
       let s = s\<lparr>fs_maps := (fs_maps s)(mp := Some \<lparr>map_addr = sec, map_page = 0\<rparr>)\<rparr>;
       Some (upd_flinks (list_add_tail (MapNode mp) (IData node)) s)
     }"

text \<open>The loop over the chain; the result is the index node or an error pointer.\<close>

partial_function (option) chain_loop ::
    "u32 \<Rightarrow> u32 \<Rightarrow> fs_info_fat32 \<Rightarrow> u32 \<Rightarrow> 'z fs_scheme \<Rightarrow> ('z fs_scheme \<times> u32) option" where
  "chain_loop node bits fi clu_num s =
     (if clu_num = FAT_ITEM_END then Some (s, node)
      else let (s, mp) = kmalloc sizeof_fs_map s in
      if mp = 0 then Some (s, - ERROR_NO_MEMORY)
      else do {
        s \<leftarrow> append_map node mp (CLU_TO_SEC (info_clu_base fi) clu_num bits) s;
        (s, clu_num) \<leftarrow> read_fat (info_fat_sec fi) clu_num s;
        if IS_ERR_VALUE clu_num then Some (s, clu_num) else chain_loop node bits fi clu_num s
      })"

definition alloc_inode_fat32 ::
    "u32 \<Rightarrow> u32 \<Rightarrow> u32 \<Rightarrow> bool \<Rightarrow> 'z fs_scheme \<Rightarrow> ('z fs_scheme \<times> u32) option" where
  "alloc_inode_fat32 sb base_blk_addr fsize isdir s =
     (let (s, ret) = kmalloc sizeof_inode s
      in if ret = 0 then Some (s, - ERROR_NO_MEMORY)
         else do {
           b \<leftarrow> super_blocks s sb;
           fi \<leftarrow> fat32_infos s (s_info_fat32 b);
           let s = s\<lparr>inodes := (inodes s)(ret := Some \<lparr>i_ino = CLU_TO_SEC (info_clu_base fi) base_blk_addr (s_blockbits b),
                     i_count = 0, i_size = fsize, i_blocks = 0, i_pinned = False, i_isdir = isdir, i_sb = sb,
                     i_iop = FAT32, i_fop = FAT32\<rparr>)\<rparr>;
           let s = upd_flinks (INIT_LIST_HEAD (IData ret) \<circ> INIT_LIST_HEAD (IDentry ret) \<circ> INIT_LIST_HEAD (ILru ret) \<circ>
                     INIT_LIST_HEAD (IHash ret)) s;
           (s, r) \<leftarrow> chain_loop ret (s_blockbits b) fi base_blk_addr s;
           if IS_ERR_VALUE r then Some (s, r)
           else do {
             (s, added) \<leftarrow> add_to_cache I_CACHE ret s;
             Some (s, if added then ret else - ERROR_CACHE_FULL)
           }
         })"

definition alloc_dentry_fat32 ::
    "u32 \<Rightarrow> u32 \<Rightarrow> u32 \<Rightarrow> qstr \<Rightarrow> 'z fs_scheme \<Rightarrow> ('z fs_scheme \<times> u32) option" where
  "alloc_dentry_fat32 sb node parent name s =
     (let (s, ret) = kmalloc sizeof_dentry s
      in if ret = 0 then Some (s, - ERROR_NO_MEMORY)
         else do {
           let s = s\<lparr>dentries := (dentries s)(ret := Some \<lparr>d_count = 0, d_pinned = False, d_mounted = False, d_sb = sb,
                     d_inode = node, d_parent = (if parent \<noteq> 0 then parent else ret), d_op = FAT32, d_name = name\<rparr>)\<rparr>;
           let s = upd_flinks (INIT_LIST_HEAD (DAlias ret) \<circ> INIT_LIST_HEAD (DSubdirs ret) \<circ> INIT_LIST_HEAD (DSibling ret) \<circ>
                     INIT_LIST_HEAD (DLru ret) \<circ> INIT_LIST_HEAD (DHash ret)) s;
           s \<leftarrow> i_inc_count node s;
           let s = upd_flinks (list_add (DAlias ret) (IDentry node)) s;
           let s = (if parent \<noteq> 0 then upd_flinks (list_add (DSibling ret) (DSubdirs parent)) s else s);
           (s, added) \<leftarrow> add_to_cache D_CACHE ret s;
           Some (s, if added then ret else - ERROR_CACHE_FULL)
         })"

section \<open>Changing the chain of a file\<close>

text \<open>
  The new clusters go behind the cluster \<open>last_clu_idx\<close>, which \<open>expand_fat32\<close> computes from
  \<open>i_ino\<close>: it is the first cluster of the file, not its last one.
\<close>

primrec expand_loop ::
    "nat \<Rightarrow> u32 \<Rightarrow> u32 \<Rightarrow> fs_info_fat32 \<Rightarrow> u32 \<Rightarrow> u32 \<Rightarrow> 'z fs_scheme \<Rightarrow> ('z fs_scheme \<times> u32 \<times> u32 \<times> u32) option" where
  "expand_loop 0 node bits fi free_clu_idx last_clu_idx s = Some (s, NO_ERROR, free_clu_idx, last_clu_idx)"
| "expand_loop (Suc n) node bits fi free_clu_idx last_clu_idx s =
     do {
       (s, free_clu_idx) \<leftarrow> find_free_clu (info_fat_sec fi) free_clu_idx s;
       (s, error) \<leftarrow> write_fat (info_fat_sec fi) last_clu_idx free_clu_idx s;
       if IS_ERR_VALUE error then Some (s, error, free_clu_idx, last_clu_idx)
       else let (s, mp) = kmalloc sizeof_fs_map s in
       if mp = 0 then Some (s, - ERROR_NO_MEMORY, free_clu_idx, free_clu_idx)
       else do {
         s \<leftarrow> append_map node mp (CLU_TO_SEC (info_clu_base fi) free_clu_idx bits) s;
         expand_loop n node bits fi (free_clu_idx + 1) free_clu_idx s
       }
     }"

definition expand_fat32 :: "u32 \<Rightarrow> u32 \<Rightarrow> 'z fs_scheme \<Rightarrow> ('z fs_scheme \<times> u32) option" where
  "expand_fat32 node num s =
     do {
       s \<leftarrow> i_inc_count node s;
       i \<leftarrow> inodes s node;
       b \<leftarrow> super_blocks s (i_sb i);
       fi \<leftarrow> fat32_infos s (s_info_fat32 b);
       let last_clu_idx = SEC_TO_CLU (info_clu_base fi) (i_ino i) (s_blockbits b);
       (s, error, free_clu_idx, last_clu_idx) \<leftarrow>
         expand_loop (nat (sint num)) node (s_blockbits b) fi (info_next_clu fi) last_clu_idx s;
       (s, error) \<leftarrow>
         (if IS_ERR_VALUE error then Some (s, error)
          else do {
            (s, error) \<leftarrow> write_fat (info_fat_sec fi) last_clu_idx FAT_ITEM_END s;
            if IS_ERR_VALUE error then Some (s, error)
            else do { (s, _) \<leftarrow> update_next_clu (i_sb i) free_clu_idx s; Some (s, error) }
          });
       s \<leftarrow> i_dec_count node s;
       Some (s, error)
     }"

text \<open>The loop of \<open>delete_fat32\<close>: frees the clusters from \<open>clu_num\<close> on and finds the least of them.\<close>

partial_function (option) free_chain ::
    "u32 \<Rightarrow> u32 \<Rightarrow> u32 \<Rightarrow> 'z fs_scheme \<Rightarrow> ('z fs_scheme \<times> u32 \<times> u32) option" where
  "free_chain fat_sec clu_num min_clu s =
     do {
       (s, next_clu) \<leftarrow> read_fat fat_sec clu_num s;
       if IS_ERR_VALUE next_clu then Some (s, next_clu, min_clu)
       else do {
         (s, error) \<leftarrow> write_fat fat_sec clu_num FAT_ITEM_FREE s;
         if IS_ERR_VALUE error then Some (s, error, min_clu)
         else do {
           let min_clu = (if clu_num < min_clu then clu_num else min_clu);
           if next_clu = FAT_ITEM_END then Some (s, NO_ERROR, min_clu)
           else free_chain fat_sec next_clu min_clu s
         }
       }
     }"

section \<open>The table as a function from clusters to entries\<close>

definition fat_entry :: "u32 \<Rightarrow> 'z fs_scheme \<Rightarrow> u32 \<Rightarrow> u32" where
  "fat_entry base s c = sectors (sd s) (base + drop_bit 7 c) (unat c mod 128)"

text \<open>The sectors outside the table, which no operation on entries writes.\<close>

definition fat_rest :: "u32 \<Rightarrow> 'z fs_scheme \<Rightarrow> u32 \<Rightarrow> sector" where
  "fat_rest base s y = (if unat (y - base) < 2 ^ 21 then (\<lambda>_. 0) else sectors (sd s) y)"

definition fat_inv :: "'z fs_scheme \<Rightarrow> bool" where
  "fat_inv s \<longleftrightarrow> (\<exists>R. heap s R) \<and> sd_working (sd s)"

definition in_table :: "u32 \<Rightarrow> bool" where
  "in_table c \<longleftrightarrow> c < FAT_ITEM_END"

lemma table_offsets:
  assumes "in_table c"
  shows "drop_bit SECTOR_SHIFT (push_bit 2 c) = drop_bit 7 c"
    and "unat (push_bit 2 c AND (SECTOR_SIZE - 1)) = 4 * (unat c mod 128)"
    and "unat (drop_bit 7 c) < 2 ^ 21"
proof -
  have l: "unat c < 2 ^ 28" using assms by (simp add: in_table_def FAT_ITEM_END_def word_less_nat_alt)
  then show "unat (drop_bit 7 c) < 2 ^ 21" by (simp add: unat_drop_bit_u32)
  have c: "unat (push_bit 2 c) = 4 * unat c"
    using l by (simp add: push_bit_eq_mult unat_word_ariths)
  show "drop_bit SECTOR_SHIFT (push_bit 2 c) = drop_bit 7 c"
    by (simp add: word_unat_eq_iff sector_consts unat_drop_bit_u32 c)
  have "push_bit 2 c AND (SECTOR_SIZE - 1) = take_bit 9 (push_bit 2 c)"
    by (simp add: SECTOR_SIZE_def take_bit_eq_mask mask_eq_exp_minus_1)
  then show "unat (push_bit 2 c AND (SECTOR_SIZE - 1)) = 4 * (unat c mod 128)"
    using mod_mult_mult1 [of 4 "unat c" 128] by (simp add: unat_take_bit_u32 c)
qed

text \<open>The words of a sector that lies in memory at \<open>b\<close>.\<close>

lemma word_in_buffer:
  assumes m: "\<And>k. k < 512 \<Longrightarrow> m (b + of_nat k) = sec_byte w k" and o: "unat off = 4 * i" and i: "i < 128"
  shows "load32 m (b + off) = w i"
proof (rule of_byte_eqI)
  fix j :: nat assume j: "j < 4"
  have "off = of_nat (4 * i)" by (simp flip: o)
  then have "b + off + of_nat j = b + of_nat (4 * i + j)" by (simp add: add.assoc)
  then show "byte_of (load32 m (b + off)) j = byte_of (w i) j"
    using j i m [of "4 * i + j"] by (simp only: byte_of_load32) (simp add: byte_of_load32 sec_byte_def)
qed

lemma fat_inv_alloc:
  assumes "fat_inv s" and "kmalloc SECTOR_SIZE s = (t, b)"
  shows "fat_inv t" "sd t = sd s"
proof -
  obtain R where H: "heap s R" and w: "sd_working (sd s)" using assms(1) by (auto simp: fat_inv_def)
  have l: "unat SECTOR_SIZE \<le> 2 ^ 32 - 2 ^ 12" by (simp add: SECTOR_SIZE_def)
  show d: "sd t = sd s" using kmalloc_fs(2) [of SECTOR_SIZE s] assms(2) by simp
  have "\<exists>R. heap t R"
    using km.alloc_null [OF H l, of t] km.alloc_region [OF H l assms(2)] assms(2) by (cases "b = 0") blast+
  then show "fat_inv t" using w by (simp add: fat_inv_def d)
qed

lemma io_done_heap: "io_done s t \<Longrightarrow> heap t R = heap s R"
proof -
  assume "io_done s t"
  then have "t = s\<lparr>cpu := cpu t, kmem := kmem t, sd := sd t\<rparr>" by (simp add: io_done_def)
  then have "heap t R = heap (s\<lparr>cpu := cpu t, kmem := kmem t, sd := sd t\<rparr>) R" by simp
  then show ?thesis by simp
qed

lemma sector_in_buffer:
  assumes "sd_working (sd s)"
  obtains t where "sd_read_block b x 1 s = Some (t, True)" "io_done s t" "sectors (sd t) = sectors (sd s)"
    "\<And>k. k < 512 \<Longrightarrow> kmem t (b + of_nat k) = sec_byte (sectors (sd s) x) k"
proof -
  obtain t where t: "sd_read_block b x 1 s = Some (t, True)" "io_done s t" "sectors (sd t) = sectors (sd s)"
    "kmem t = (\<lambda>a. if unat (a - b) < 512 * unat (1 :: u32) then disk_byte (sd s) x (unat (a - b)) else kmem s a)"
    using sd_read_block_ok [OF assms, of 1 b x] by auto
  have "kmem t (b + of_nat k) = sec_byte (sectors (sd s) x) k" if "k < 512" for k
    using that by (simp add: t(4) unat_of_nat disk_byte_def)
  with t(1-3) show thesis by (rule that)
qed

lemma read_fat_ok:
  assumes I: "fat_inv s" and c: "in_table c"
  shows "\<exists>t v. read_fat base c s = Some (t, v) \<and> fat_inv t \<and> fat_entry base t = fat_entry base s \<and>
    fat_rest base t = fat_rest base s \<and> (v = fat_entry base s c \<or> v = - ERROR_NO_MEMORY)"
proof -
  obtain u b where k: "kmalloc SECTOR_SIZE s = (u, b)" by fastforce
  note U = fat_inv_alloc [OF I k]
  show ?thesis
  proof (cases "b = 0")
    case True
    then show ?thesis using k U by (simp add: read_fat_def fat_entry_def fat_rest_def fun_eq_iff)
  next
    case False
    obtain t where t: "sd_read_block b (base + drop_bit 7 c) 1 u = Some (t, True)" "io_done u t"
      "sectors (sd t) = sectors (sd u)"
      "\<And>k. k < 512 \<Longrightarrow> kmem t (b + of_nat k) = sec_byte (sectors (sd u) (base + drop_bit 7 c)) k"
      using sector_in_buffer [of u b "base + drop_bit 7 c"] U(1) by (auto simp: fat_inv_def)
    have "load32 (kmem t) (b + (push_bit 2 c AND (SECTOR_SIZE - 1))) = fat_entry base s c"
      unfolding fat_entry_def U(2) [symmetric]
      by (rule word_in_buffer [OF t(4) table_offsets(2) [OF c]]) simp_all
    moreover have "fat_inv t" using U(1) t(2) io_done_heap [OF t(2)] by (simp add: fat_inv_def io_done_def)
    moreover have "fat_entry base t = fat_entry base s" "fat_rest base t = fat_rest base s"
      by (simp_all add: fat_entry_def fat_rest_def fun_eq_iff t(3) U(2))
    ultimately show ?thesis using k False t(1) by (simp add: read_fat_def table_offsets(1) [OF c])
  qed
qed


lemma entry_of_buffer:
  assumes c: "in_table c" and m: "\<And>k. k < 512 \<Longrightarrow> m (b + of_nat k) = sec_byte (sectors (sd s) (base + drop_bit 7 c)) k"
  shows "load32 m (b + (push_bit 2 c AND (SECTOR_SIZE - 1))) = fat_entry base s c"
  unfolding fat_entry_def by (rule word_in_buffer [OF m table_offsets(2) [OF c]]) simp_all

lemma entry_positions:
  assumes c: "in_table c" and d: "in_table d" and s: "drop_bit 7 c = drop_bit 7 d" and n: "c \<noteq> d" and j: "j < 4"
  shows "\<not> unat (b + (push_bit 2 d AND (SECTOR_SIZE - 1)) + of_nat j - (b + (push_bit 2 c AND (SECTOR_SIZE - 1)))) < 4"
proof -
  let ?x = "push_bit 2 c AND (SECTOR_SIZE - 1)" and ?y = "push_bit 2 d AND (SECTOR_SIZE - 1)"
  have "unat c div 128 = unat d div 128" using arg_cong [OF s, of unat] by (simp add: unat_drop_bit_u32)
  then have ne: "unat c mod 128 \<noteq> unat d mod 128" using n by (metis div_mod_decomp unsigned_word_eqI)
  have u: "unat (?y + of_nat j) = 4 * (unat d mod 128) + j"
    using j table_offsets(2) [OF d] by (simp add: unat_word_ariths unat_of_nat)
  have "\<not> unat (?y + of_nat j - ?x) < 4"
    using ne j table_offsets(2) [OF c] u unat_sub_if_size [of "?y + of_nat j" ?x] by (auto simp: word_size)
  then show ?thesis by (simp add: algebra_simps)
qed


lemma write_fat_ok:
  assumes I: "fat_inv s" and c: "in_table c"
  shows "\<exists>t e. write_fat base c v s = Some (t, e) \<and> fat_inv t \<and> fat_rest base t = fat_rest base s \<and>
    (e = NO_ERROR \<and> (\<forall>d. in_table d \<longrightarrow> fat_entry base t d = (if d = c then v else fat_entry base s d)) \<or>
     e = - ERROR_NO_MEMORY \<and> fat_entry base t = fat_entry base s)"
proof -
  obtain u b where k: "kmalloc SECTOR_SIZE s = (u, b)" by fastforce
  note U = fat_inv_alloc [OF I k]
  let ?off = "push_bit 2 c AND (SECTOR_SIZE - 1)" and ?x = "base + drop_bit 7 c"
  show ?thesis
  proof (cases "b = 0")
    case True
    then show ?thesis using k U by (simp add: write_fat_def fat_entry_def fat_rest_def fun_eq_iff)
  next
    case False
    obtain t where t: "sd_read_block b ?x 1 u = Some (t, True)" "io_done u t" "sectors (sd t) = sectors (sd u)"
      "\<And>k. k < 512 \<Longrightarrow> kmem t (b + of_nat k) = sec_byte (sectors (sd u) ?x) k"
      using sector_in_buffer [of u b ?x] U(1) by (auto simp: fat_inv_def)
    let ?t = "upd_mem (store32 (b + ?off) v) t"
    have w: "sd_working (sd ?t)" "\<And>R. heap ?t R = heap u R"
      using t(2) io_done_heap [OF t(2)] by (simp_all add: io_done_def upd_mem_def)
    obtain z where z: "sd_write_block b ?x 1 ?t = Some (z, True)" "io_done ?t z"
      "\<And>k. k < 512 \<Longrightarrow> disk_byte (sd z) ?x k = kmem ?t (b + of_nat k)"
      "\<And>y. y \<noteq> ?x \<Longrightarrow> sectors (sd z) y = sectors (sd t) y"
      using sd_write_block_ok [OF w(1), of 1 b ?x] by (auto simp: upd_mem_def unat_gt_0 Suc_le_eq)
    have "fat_inv z" using U(1) w io_done_heap [OF z(2)] z(2) by (simp add: fat_inv_def io_done_def)
    moreover have "fat_rest base z = fat_rest base s"
    proof
      fix y
      show "fat_rest base z y = fat_rest base s y"
        using table_offsets(3) [OF c] by (cases "y = ?x") (simp_all add: fat_rest_def z(4) t(3) U(2))
    qed
    moreover have "fat_entry base z d = (if d = c then v else fat_entry base s d)" if d: "in_table d" for d
    proof (cases "drop_bit 7 d = drop_bit 7 c")
      case True
      let ?e = "push_bit 2 d AND (SECTOR_SIZE - 1)"
      have "fat_entry base z d = load32 (kmem ?t) (b + ?e)"
        using z(3) by (intro entry_of_buffer [OF d, symmetric]) (simp add: True disk_byte_def)
      moreover have "load32 (kmem t) (b + ?e) = fat_entry base u d"
        using t(4) by (intro entry_of_buffer [OF d]) (simp add: True)
      moreover have "load32 (kmem ?t) (b + ?e) = load32 (kmem t) (b + ?e)" if "d \<noteq> c"
        using that entry_positions [OF c d True [symmetric], of _ b]
        by (intro load32_frame) (simp add: upd_mem_def store32_at)
      ultimately show ?thesis by (auto simp: upd_mem_def fat_entry_def U(2))
    next
      case False
      then show ?thesis by (auto simp: fat_entry_def z(4) t(3) U(2))
    qed
    ultimately show ?thesis using k False t(1) z(1) by (simp add: write_fat_def table_offsets(1) [OF c])
  qed
qed


section \<open>Chains of clusters\<close>

text \<open>
  The clusters of a file, from its first one to the one whose entry is the end mark.
\<close>

primrec fat_chain :: "(u32 \<Rightarrow> u32) \<Rightarrow> u32 \<Rightarrow> u32 list \<Rightarrow> bool" where
  "fat_chain e c [] \<longleftrightarrow> c = FAT_ITEM_END"
| "fat_chain e c (d # ds) \<longleftrightarrow> d = c \<and> in_table c \<and> fat_chain e (e c) ds"

lemma end_not_in_table [simp]: "\<not> in_table FAT_ITEM_END"
  by (simp add: in_table_def)

lemma fat_chain_END [simp]: "fat_chain e FAT_ITEM_END cs \<longleftrightarrow> cs = []"
  by (cases cs) auto

lemma fat_chain_unique: "fat_chain e c cs \<Longrightarrow> fat_chain e c ds \<Longrightarrow> cs = ds"
proof (induction cs arbitrary: c ds)
  case (Cons a cs)
  then show ?case by (cases ds) auto
qed simp

lemma fat_chain_suffix: "fat_chain e c (xs @ y # ys) \<Longrightarrow> fat_chain e y (y # ys)"
  by (induction xs arbitrary: c) auto

lemma fat_chain_distinct: "fat_chain e c (c # ds) \<Longrightarrow> c \<notin> set ds"
proof
  assume f: "fat_chain e c (c # ds)" and "c \<in> set ds"
  then obtain xs ys where d: "ds = xs @ c # ys" by (auto simp: in_set_conv_decomp)
  have "fat_chain e c (c # ys)" using fat_chain_suffix [of e c "c # xs" c ys] f d by simp
  from fat_chain_unique [OF f this] show False by (simp add: d)
qed

lemma fat_chain_cong:
  "(\<And>d. d \<in> set cs \<Longrightarrow> in_table d \<Longrightarrow> e d = e' d) \<Longrightarrow> fat_chain e c cs \<longleftrightarrow> fat_chain e' c cs"
  by (induction cs arbitrary: c) auto

lemma fat_chain_entry: "fat_chain e c ds \<Longrightarrow> \<not> IS_ERR_VALUE c"
  by (cases ds) (auto simp: in_table_def FAT_ITEM_END_def IS_ERR_VALUE_def MAX_ERRNO_def word_le_nat_alt word_less_nat_alt)

lemma no_memory_error [simp]: "IS_ERR_VALUE (- ERROR_NO_MEMORY)" "\<not> IS_ERR_VALUE NO_ERROR" "- ERROR_NO_MEMORY \<noteq> NO_ERROR"
    "\<not> IS_ERR_VALUE FAT_ITEM_FREE" "- ERROR_NO_MEMORY \<noteq> FAT_ITEM_FREE"
  by (simp_all add: FAT_ITEM_FREE_def IS_ERR_VALUE_def MAX_ERRNO_def NO_ERROR_def ERROR_NO_MEMORY_def word_le_nat_alt)

text \<open>What the walks over the table rely on, and the walks as the code writes them.\<close>

locale fat_store =
  fixes inv :: "'s \<Rightarrow> bool" and entry :: "'s \<Rightarrow> u32 \<Rightarrow> u32" and rest :: "'s \<Rightarrow> 'r"
    and rd :: "u32 \<Rightarrow> 's \<Rightarrow> ('s \<times> u32) option" and wr :: "u32 \<Rightarrow> u32 \<Rightarrow> 's \<Rightarrow> ('s \<times> u32) option"
  assumes rd_ok: "inv s \<Longrightarrow> in_table c \<Longrightarrow>
      \<exists>t v. rd c s = Some (t, v) \<and> inv t \<and> entry t = entry s \<and> rest t = rest s \<and> (v = entry s c \<or> v = - ERROR_NO_MEMORY)"
    and wr_ok: "inv s \<Longrightarrow> in_table c \<Longrightarrow>
      \<exists>t e. wr c x s = Some (t, e) \<and> inv t \<and> rest t = rest s \<and>
        (e = NO_ERROR \<and> (\<forall>d. in_table d \<longrightarrow> entry t d = (if d = c then x else entry s d)) \<or>
         e = - ERROR_NO_MEMORY \<and> entry t = entry s)"

locale fat_walks = fat_store +
  fixes search :: "u32 \<Rightarrow> 's \<Rightarrow> ('s \<times> u32) option" and release :: "u32 \<Rightarrow> u32 \<Rightarrow> 's \<Rightarrow> ('s \<times> u32 \<times> u32) option"
  assumes search_eq: "search i s = do {
        (s, v) \<leftarrow> rd (i + 1) s;
        if IS_ERR_VALUE v then Some (s, v) else if v = FAT_ITEM_FREE then Some (s, i + 1) else search (i + 1) s
      }"
    and release_eq: "release c m s = do {
        (s, next_clu) \<leftarrow> rd c s;
        if IS_ERR_VALUE next_clu then Some (s, next_clu, m)
        else do {
          (s, error) \<leftarrow> wr c FAT_ITEM_FREE s;
          if IS_ERR_VALUE error then Some (s, error, m)
          else if next_clu = FAT_ITEM_END then Some (s, NO_ERROR, min c m) else release next_clu (min c m) s
        }
      }"
begin

lemma release_chain:
  "inv s \<Longrightarrow> fat_chain (entry s) c cs \<Longrightarrow> cs \<noteq> [] \<Longrightarrow>
   \<exists>t e n. release c m s = Some (t, e, fold min (take n cs) m) \<and> inv t \<and> rest t = rest s \<and>
     (if e = NO_ERROR then n = length cs else e = - ERROR_NO_MEMORY \<and> n < length cs) \<and>
     (\<forall>d. in_table d \<longrightarrow> entry t d = (if d \<in> set (take n cs) then FAT_ITEM_FREE else entry s d))"
proof (induction cs arbitrary: c m s)
  case (Cons d ds)
  then have c: "d = c" "in_table c" "fat_chain (entry s) (entry s c) ds" by auto
  obtain t v where r: "rd c s = Some (t, v)" "inv t" "entry t = entry s" "rest t = rest s"
    "v = entry s c \<or> v = - ERROR_NO_MEMORY" using rd_ok [OF Cons.prems(1) c(2)] by blast
  show ?case
  proof (cases "v = - ERROR_NO_MEMORY")
    case True
    then show ?thesis using r by (intro exI [of _ t] exI [of _ v] exI [of _ 0]) (simp add: release_eq)
  next
    case False
    then have v: "v = entry s c" "\<not> IS_ERR_VALUE v" using r(5) fat_chain_entry [OF c(3)] by auto
    obtain u e where w: "wr c FAT_ITEM_FREE t = Some (u, e)" "inv u" "rest u = rest t"
      "e = NO_ERROR \<and> (\<forall>d. in_table d \<longrightarrow> entry u d = (if d = c then FAT_ITEM_FREE else entry t d)) \<or>
       e = - ERROR_NO_MEMORY \<and> entry u = entry t" using wr_ok [OF r(2) c(2)] by blast
    show ?thesis
    proof (cases "e = - ERROR_NO_MEMORY")
      case True
      then show ?thesis using r w v
        by (intro exI [of _ u] exI [of _ e] exI [of _ 0]) (simp add: release_eq)
    next
      case e: False
      then have f: "e = NO_ERROR" "\<And>d. in_table d \<Longrightarrow> entry u d = (if d = c then FAT_ITEM_FREE else entry s d)"
        using w(4) r(3) by auto
      show ?thesis
      proof (cases "v = FAT_ITEM_END")
        case True
        then have "ds = []" using c(3) v(1) by simp
        then show ?thesis using r w v f True c(1)
          by (intro exI [of _ u] exI [of _ NO_ERROR] exI [of _ 1]) (simp add: release_eq)
      next
        case False
        then have n: "ds \<noteq> []" using c(3) v(1) by auto
        have "fat_chain (entry u) v ds"
          using c(3) fat_chain_distinct [of "entry s" c ds] c(2) f(2) v(1)
          by (subst fat_chain_cong [of _ _ "entry s"]) auto
        from Cons.IH [OF w(2) this n, of "min c m"] obtain z e' k where
          "release v (min c m) u = Some (z, e', fold min (take k ds) (min c m))" "inv z" "rest z = rest u"
          "if e' = NO_ERROR then k = length ds else e' = - ERROR_NO_MEMORY \<and> k < length ds"
          "\<And>d. in_table d \<Longrightarrow> entry z d = (if d \<in> set (take k ds) then FAT_ITEM_FREE else entry u d)"
          by blast
        then show ?thesis using r w v f False c(1)
          by (intro exI [of _ z] exI [of _ e'] exI [of _ "Suc k"]) (auto simp: release_eq [of c m s])
      qed
    qed
  qed
qed simp

lemma search_free:
  assumes "inv s" "in_table d" "entry s d = FAT_ITEM_FREE" "start \<le> d"
    and "\<And>x. start \<le> x \<Longrightarrow> x \<le> d \<Longrightarrow> \<not> IS_ERR_VALUE (entry s x)"
  shows "\<exists>t v. search (start - 1) s = Some (t, v) \<and> inv t \<and> entry t = entry s \<and> rest t = rest s \<and>
    (v = - ERROR_NO_MEMORY \<or> start \<le> v \<and> v \<le> d \<and> entry s v = FAT_ITEM_FREE \<and>
       (\<forall>x. start \<le> x \<longrightarrow> x < v \<longrightarrow> entry s x \<noteq> FAT_ITEM_FREE))"
  using assms
proof (induction "unat d - unat start" arbitrary: start s)
  case 0
  then have e: "start = d" by (simp add: word_le_nat_alt word_unat_eq_iff)
  obtain t v where r: "rd d s = Some (t, v)" "inv t" "entry t = entry s" "rest t = rest s"
    "v = FAT_ITEM_FREE \<or> v = - ERROR_NO_MEMORY" using rd_ok [of s d] 0 by auto
  show ?case using 0 r
    by (intro exI [of _ t] exI [of _ "if v = FAT_ITEM_FREE then d else v"])
      (auto simp: search_eq [of "d - 1"] e)
next
  case (Suc k)
  have l: "start < d" using Suc.hyps(2) Suc.prems(4) by (simp add: word_less_nat_alt)
  then have st: "in_table start" using Suc.prems(2) by (simp add: in_table_def)
  obtain t v where r: "rd start s = Some (t, v)" "inv t" "entry t = entry s" "rest t = rest s"
    "v = entry s start \<or> v = - ERROR_NO_MEMORY" using rd_ok [OF Suc.prems(1) st] by auto
  have n: "unat (start + 1) = unat start + 1" using l unat_Suc_less [of start d] by (simp add: word_less_nat_alt)
  show ?case
  proof (cases "v = - ERROR_NO_MEMORY \<or> v = FAT_ITEM_FREE")
    case True
    have "search (start - 1) s = Some (t, if v = FAT_ITEM_FREE then start else v)"
      using True by (subst search_eq) (auto simp: r(1))
    moreover have "v = FAT_ITEM_FREE \<Longrightarrow> entry s start = FAT_ITEM_FREE" using r(5) no_memory_error(5) by metis
    ultimately show ?thesis using r(2-4) l True by (cases "v = FAT_ITEM_FREE") auto
  next
    case False
    have "\<exists>z w. search (start + 1 - 1) t = Some (z, w) \<and> inv z \<and> entry z = entry t \<and> rest z = rest t \<and>
      (w = - ERROR_NO_MEMORY \<or> start + 1 \<le> w \<and> w \<le> d \<and> entry t w = FAT_ITEM_FREE \<and>
       (\<forall>x. start + 1 \<le> x \<longrightarrow> x < w \<longrightarrow> entry t x \<noteq> FAT_ITEM_FREE))"
      using Suc.hyps(2) Suc.prems l n r
      by (intro Suc.hyps(1)) (auto simp: word_le_nat_alt word_less_nat_alt)
    then obtain z w where z: "search start t = Some (z, w)" "inv z" "entry z = entry s" "rest z = rest s"
      "w = - ERROR_NO_MEMORY \<or> start + 1 \<le> w \<and> w \<le> d \<and> entry s w = FAT_ITEM_FREE \<and>
       (\<forall>x. start + 1 \<le> x \<longrightarrow> x < w \<longrightarrow> entry s x \<noteq> FAT_ITEM_FREE)"
      using r by auto
    have "entry s x \<noteq> FAT_ITEM_FREE" if "start \<le> x" "x < w" "w \<noteq> - ERROR_NO_MEMORY" for x
    proof (cases "x = start")
      case True
      then show ?thesis using False r(5) by auto
    next
      case ne: False
      then have "start + 1 \<le> x" using that(1) n by (metis inc_le order_le_imp_less_or_eq)
      then show ?thesis using z(5) that by auto
    qed
    moreover have "start \<le> w" if "w \<noteq> - ERROR_NO_MEMORY"
      using z(5) that n by (auto simp: word_le_nat_alt)
    ultimately show ?thesis using z r False Suc.prems(5) [of start] l
      by (intro exI [of _ z] exI [of _ w]) (auto simp: search_eq [of "start - 1"])
  qed
qed

end


interpretation fat: fat_walks fat_inv "fat_entry base" "fat_rest base" "read_fat base" "write_fat base"
    "find_free_loop base" "free_chain base" for base
proof
  show "fat_inv s \<Longrightarrow> in_table c \<Longrightarrow>
      \<exists>t v. read_fat base c s = Some (t, v) \<and> fat_inv t \<and> fat_entry base t = fat_entry base s \<and>
        fat_rest base t = fat_rest base s \<and> (v = fat_entry base s c \<or> v = - ERROR_NO_MEMORY)" for c s
    by (rule read_fat_ok)
  show "fat_inv s \<Longrightarrow> in_table c \<Longrightarrow>
      \<exists>t e. write_fat base c x s = Some (t, e) \<and> fat_inv t \<and> fat_rest base t = fat_rest base s \<and>
        (e = NO_ERROR \<and> (\<forall>d. in_table d \<longrightarrow> fat_entry base t d = (if d = c then x else fat_entry base s d)) \<or>
         e = - ERROR_NO_MEMORY \<and> fat_entry base t = fat_entry base s)" for c x s
    by (rule write_fat_ok)
  have m: "(if c < m then c else m) = min c m" for c m :: u32 by (auto simp: min_def)
  show "find_free_loop base i s = do {
      (s, v) \<leftarrow> read_fat base (i + 1) s;
      if IS_ERR_VALUE v then Some (s, v) else if v = FAT_ITEM_FREE then Some (s, i + 1) else find_free_loop base (i + 1) s
    }" for i s
    by (subst find_free_loop.simps) (simp only: Let_def)
  show "free_chain base c m s = do {
      (s, next_clu) \<leftarrow> read_fat base c s;
      if IS_ERR_VALUE next_clu then Some (s, next_clu, m)
      else do {
        (s, error) \<leftarrow> write_fat base c FAT_ITEM_FREE s;
        if IS_ERR_VALUE error then Some (s, error, m)
        else if next_clu = FAT_ITEM_END then Some (s, NO_ERROR, min c m) else free_chain base next_clu (min c m) s
      }
    }" for c m s
    by (subst free_chain.simps) (simp only: Let_def m)
qed

section \<open>Properties\<close>

text \<open>
  C28.  The loop of \<open>delete_fat32\<close> over the chain of a file returns.  It gives back exactly the clusters
  of the chain, with the least of them for the hint sector, and changes no other entry and no sector
  outside the table; when a sector buffer cannot be allocated the clusters before that point are
  free and the others, now out of reach, keep their entries.
\<close>

theorem delete_frees_chain:
  assumes "fat_inv s" and "fat_chain (fat_entry base s) c cs" and "cs \<noteq> []"
  shows "\<exists>t e n. free_chain base c m s = Some (t, e, fold min (take n cs) m) \<and> fat_inv t \<and>
    fat_rest base t = fat_rest base s \<and>
    (if e = NO_ERROR then n = length cs else e = - ERROR_NO_MEMORY \<and> n < length cs) \<and>
    (\<forall>d. in_table d \<longrightarrow> fat_entry base t d = (if d \<in> set (take n cs) then FAT_ITEM_FREE else fat_entry base s d))"
  using assms by (rule fat.release_chain)

text \<open>A table at sector 32 with the files 2, 5, 4 and 3; the cluster 6 is the first free one.\<close>

definition demo_fat :: fs where
  "demo_fat = demo_fs\<lparr>sd := demo_card\<lparr>sectors := (\<lambda>_ _. 0)(32 := (\<lambda>_. 0)(2 := 5, 3 := FAT_ITEM_END, 4 := FAT_ITEM_END, 5 := 4))\<rparr>\<rparr>"

lemma demo_fat_inv: "fat_inv demo_fat"
proof -
  have "heap demo_fat {}" using demo_fs_heap(1) by (simp add: demo_fat_def)
  then show ?thesis using demo_card_working by (auto simp: fat_inv_def demo_fat_def)
qed

lemma demo_fat_entry:
  "unat c < 128 \<Longrightarrow> fat_entry 32 demo_fat c =
    (if c = 2 then 5 else if c = 3 \<or> c = 4 then FAT_ITEM_END else if c = 5 then 4 else 0)"
proof -
  assume c: "unat c < 128"
  then have "drop_bit 7 c = 0" by (simp add: word_unat_eq_iff unat_drop_bit_u32)
  moreover have "unat c = k \<longleftrightarrow> c = of_nat k" if "k < 128" for k
    using that by (auto simp: word_unat_eq_iff unat_of_nat)
  from this [of 2] this [of 3] this [of 4] this [of 5] have
    "unat c = 2 \<longleftrightarrow> c = 2" "unat c = 3 \<longleftrightarrow> c = 3" "unat c = 4 \<longleftrightarrow> c = 4" "unat c = 5 \<longleftrightarrow> c = 5" by simp_all
  ultimately show ?thesis using c by (simp add: fat_entry_def demo_fat_def)
qed

theorem delete_frees_chain_witness:
  "\<exists>t e m. free_chain 32 2 0xFFFFFFFF demo_fat = Some (t, e, m) \<and> fat_entry 32 t 3 = FAT_ITEM_END \<and>
    (e = NO_ERROR \<longrightarrow> m = 2 \<and> fat_entry 32 t 2 = 0 \<and> fat_entry 32 t 5 = 0 \<and> fat_entry 32 t 4 = 0)"
proof -
  have it: "in_table 2" "in_table 3" "in_table 4" "in_table 5" by (simp_all add: in_table_def FAT_ITEM_END_def)
  then have "fat_chain (fat_entry 32 demo_fat) 2 [2, 5, 4]" by (simp add: demo_fat_entry)
  note free = delete_frees_chain [OF demo_fat_inv this list.discI [OF refl], of "0xFFFFFFFF"]
  obtain t e n where
    t: "free_chain 32 2 0xFFFFFFFF demo_fat = Some (t, e, fold min (take n [2, 5, 4]) 0xFFFFFFFF)"
    "if e = NO_ERROR then n = length [2, 5, 4 :: u32] else e = - ERROR_NO_MEMORY \<and> n < length [2, 5, 4 :: u32]"
    and d: "\<forall>d. in_table d \<longrightarrow> fat_entry 32 t d = (if d \<in> set (take n [2, 5, 4]) then FAT_ITEM_FREE else fat_entry 32 demo_fat d)"
    using free by (elim exE conjE) (rule that)
  have "3 \<notin> set (take n [2, 5, 4 :: u32])" using set_take_subset [of n "[2, 5, 4 :: u32]"] by auto
  then have "fat_entry 32 t 3 = FAT_ITEM_END" using d it by (simp add: demo_fat_entry)
  moreover have "fat_entry 32 t 2 = 0 \<and> fat_entry 32 t 5 = 0 \<and> fat_entry 32 t 4 = 0" if "n = 3"
    using d it that by (simp add: FAT_ITEM_FREE_def)
  ultimately show ?thesis using t by (cases "e = NO_ERROR") auto
qed

text \<open>
  C29.  The search for a free cluster returns the least one from the hint on, and leaves the table and
  the sectors outside it as they are; it returns an error only when a sector buffer cannot be
  allocated.
\<close>

theorem find_free_clu_least:
  assumes "fat_inv s" and "in_table d" and "fat_entry base s d = FAT_ITEM_FREE" and "start \<le> d"
    and "\<And>x. start \<le> x \<Longrightarrow> x \<le> d \<Longrightarrow> \<not> IS_ERR_VALUE (fat_entry base s x)"
  shows "\<exists>t v. find_free_clu base start s = Some (t, v) \<and> fat_inv t \<and> fat_entry base t = fat_entry base s \<and>
    fat_rest base t = fat_rest base s \<and>
    (v = - ERROR_NO_MEMORY \<or> start \<le> v \<and> v \<le> d \<and> fat_entry base s v = FAT_ITEM_FREE \<and>
       (\<forall>x. start \<le> x \<longrightarrow> x < v \<longrightarrow> fat_entry base s x \<noteq> FAT_ITEM_FREE))"
  unfolding find_free_clu_def using assms by (rule fat.search_free)

theorem find_free_clu_least_witness:
  "\<exists>t v. find_free_clu 32 2 demo_fat = Some (t, v) \<and> (v = - ERROR_NO_MEMORY \<or> v = 6) \<and>
    fat_entry 32 t = fat_entry 32 demo_fat"
proof -
  have small: "fat_entry 32 demo_fat x = (if x = 2 then 5 else if x = 3 \<or> x = 4 then FAT_ITEM_END else if x = 5 then 4 else 0)"
    if "x \<le> 6" for x using that by (intro demo_fat_entry) (simp add: word_le_nat_alt)
  then have ok: "\<not> IS_ERR_VALUE (fat_entry 32 demo_fat x)" if "x \<le> 6" for x
    using that by (simp add: IS_ERR_VALUE_def FAT_ITEM_END_def MAX_ERRNO_def)
  obtain t v where t: "find_free_clu 32 2 demo_fat = Some (t, v)" "fat_entry 32 t = fat_entry 32 demo_fat"
    "v = - ERROR_NO_MEMORY \<or> 2 \<le> v \<and> v \<le> 6 \<and> fat_entry 32 demo_fat v = FAT_ITEM_FREE"
    using find_free_clu_least [OF demo_fat_inv, of 6 32 2] ok by (auto simp: in_table_def small fat_consts)
  have "v = 6" if "2 \<le> v" "v \<le> 6" "fat_entry 32 demo_fat v = FAT_ITEM_FREE"
  proof -
    have "unat v \<in> {2, 3, 4, 5, 6}" using that(1,2) by (auto simp: word_le_nat_alt)
    then have "v \<in> {2, 3, 4, 5, 6}" by (auto simp: word_unat_eq_iff)
    then show ?thesis using that(3) by (auto simp: small fat_consts)
  qed
  with t show ?thesis by auto
qed

end
