(* ===== verification/Digits.thy ===== *)
theory Digits
  imports Memory "HOL-Library.Signed_Division"
begin

text \<open>
  What the formatted output to files (\<^verbatim>\<open>src/kernel/fs/read_write.c\<close>) and to the screen
  (\<^verbatim>\<open>src/kernel/driver/vga.c\<close>) share: the decimal digits of a number, written backwards into a
  buffer, and the words of the variable arguments.
\<close>

text \<open>The digits of a number, last one first, below \<open>ptr\<close>.  Division and remainder truncate.\<close>

function put_digits :: "int \<Rightarrow> u32 \<Rightarrow> mem \<Rightarrow> mem \<times> u32" where
  "put_digits num ptr m =
     (if num = 0 then (m, ptr)
      else put_digits (num sdiv 10) (ptr - 1) (m(ptr - 1 := of_int (num smod 10) + 48)))"
  by pat_completeness auto
termination
  by (relation "measure (\<lambda>(num, _, _). nat \<bar>num\<bar>)") (auto simp: signed_divide_int_def abs_mult)

declare put_digits.simps [simp del]

text \<open>\<open>args\<close> are the words of the variable arguments; taking one more than there are is undefined.\<close>

definition take_arg :: "u32 list \<Rightarrow> (u32 \<times> u32 list) option" where
  "take_arg args = (case args of [] \<Rightarrow> None | a # rest \<Rightarrow> Some (a, rest))"

end
