(* ===== verification/File_Io.thy ===== *)
theory File_Io
  imports Fat_Table
begin

text \<open>
  Open files: reading and positioning, \<^verbatim>\<open>src/kernel/fs/read_write.c\<close>, and opening and closing,
  \<^verbatim>\<open>src/kernel/fs/open.c\<close>.  Opening for writing clears the file and closing a changed file writes
  its directory entry; both go through the operations of the file system, which in turn open and
  read the parent directory, so the two functions take these operations as arguments and are
  applied to them where they are defined.
\<close>

definition F_MODE_READ_MASK :: u32 where "F_MODE_READ_MASK = 1"
definition F_MODE_WRITE_MASK :: u32 where "F_MODE_WRITE_MASK = 2"
definition F_MODE_APPEND_MASK :: u32 where "F_MODE_APPEND_MASK = 4"
definition F_MODE_DIR_MASK :: u32 where "F_MODE_DIR_MASK = 8"
definition F_MODE_APPEND :: u32 where "F_MODE_APPEND = F_MODE_APPEND_MASK OR F_MODE_READ_MASK OR F_MODE_WRITE_MASK"
definition SEEK_TAIL :: u32 where "SEEK_TAIL = 2"
definition sizeof_file :: u32 where "sizeof_file = 36"

lemmas file_consts [os_const] = F_MODE_READ_MASK_def F_MODE_WRITE_MASK_def F_MODE_APPEND_MASK_def
  F_MODE_DIR_MASK_def F_MODE_APPEND_def SEEK_TAIL_def sizeof_file_def SEEK_HEAD_def F_MODE_READ_def

section \<open>Helpers\<close>

definition eof :: "fs_file \<Rightarrow> bool" where
  "eof f \<longleftrightarrow> f_pos f = f_size f"

definition file_last_blk_remain :: "fs_file \<Rightarrow> 'z fs_scheme \<Rightarrow> u32 option" where
  "file_last_blk_remain f s =
     do {
       e \<leftarrow> dentries s (f_dentry f);
       i \<leftarrow> inodes s (d_inode e);
       b \<leftarrow> super_blocks s (i_sb i);
       Some (i_blocks i * s_blocksize b - f_size f)
     }"

definition file_blocksize :: "fs_file \<Rightarrow> 'z fs_scheme \<Rightarrow> u32 option" where
  "file_blocksize f s =
     do { e \<leftarrow> dentries s (f_dentry f); b \<leftarrow> super_blocks s (d_sb e); Some (s_blocksize b) }"

section \<open>Reading\<close>

partial_function (option) fs_read_loop ::
    "u32 \<Rightarrow> u32 \<Rightarrow> fnode \<Rightarrow> u32 \<Rightarrow> u32 \<Rightarrow> 'z fs_scheme \<Rightarrow> 'z fs_scheme option" where
  "fs_read_loop fp buf map_node cur_off len s =
     do {
       f \<leftarrow> files s fp;
       blksize \<leftarrow> file_blocksize f s;
       (s, page) \<leftarrow> get_fspage map_node blksize s;
       p \<leftarrow> fspages s page;
       if cur_off + len \<le> p_pagesize p
       then do {
         let s = upd_mem (\<lambda>m. kernel_memcpy m buf (p_data p + cur_off) len) s;
         upd_file fp (\<lambda>f. f\<lparr>f_cur_off := cur_off + len, f_cur_map := map_node\<rparr>) s
       }
       else do {
         let delta = p_pagesize p - cur_off;
         let s = upd_mem (\<lambda>m. kernel_memcpy m buf (p_data p + cur_off) delta) s;
         fs_read_loop fp (buf + delta) (next (flinks s) map_node) 0 (len - delta) s
       }
     }"

definition fs_read :: "u32 \<Rightarrow> u32 \<Rightarrow> u32 \<Rightarrow> 'z fs_scheme \<Rightarrow> ('z fs_scheme \<times> u32) option" where
  "fs_read fp buf len s =
     do {
       f \<leftarrow> files s fp;
       if f_mode f AND F_MODE_READ_MASK = 0 then Some (s, - ERROR_ACCESS_AUTHORITY)
       else if f_pos f + len > f_size f then Some (s, - ERROR_END_OF_FILE)
       else do {
         s \<leftarrow> upd_file fp (\<lambda>f. f\<lparr>f_pos := f_pos f + len\<rparr>) s;
         s \<leftarrow> fs_read_loop fp buf (f_cur_map f) (f_cur_off f) len s;
         Some (s, NO_ERROR)
       }
     }"

definition fs_getchar :: "u32 \<Rightarrow> 'z fs_scheme \<Rightarrow> ('z fs_scheme \<times> u8) option" where
  "fs_getchar fp s =
     do {
       let c = addr_of s ''c'';
       (s, e) \<leftarrow> fs_read fp c 1 s;
       let s = (if e = - ERROR_END_OF_FILE then upd_mem (\<lambda>m. m(c := - 1)) s else s);
       Some (s, kmem s c)
     }"

section \<open>Positioning\<close>

partial_function (option) seek_loop :: "fnode lheap \<Rightarrow> fnode \<Rightarrow> u32 \<Rightarrow> fnode \<Rightarrow> u32 \<Rightarrow> (fnode \<times> u32) option" where
  "seek_loop h head blk_size p cnt =
     (if p = head \<or> sint cnt \<le> sint blk_size then Some (p, cnt)
      else seek_loop h head blk_size (next h p) (cnt - blk_size))"

text \<open>\<open>f_pos\<close> is unsigned, so the test for a negative position never holds.\<close>

definition fs_seek :: "u32 \<Rightarrow> u32 \<Rightarrow> u32 \<Rightarrow> 'z fs_scheme \<Rightarrow> ('z fs_scheme \<times> u32) option" where
  "fs_seek fp flag offset s =
     do {
       f \<leftarrow> files s fp;
       let pos = (if flag = SEEK_HEAD then 0 else if flag = SEEK_TAIL then f_size f else f_pos f);
       let pos = pos + offset;
       let pos = (if pos < 0 then 0 else if pos > f_size f then f_size f else pos);
       blk_size \<leftarrow> file_blocksize f s;
       (p, cnt) \<leftarrow> seek_loop (flinks s) (f_data_map f) blk_size (next (flinks s) (f_data_map f)) pos;
       s \<leftarrow> upd_file fp (\<lambda>f. f\<lparr>f_pos := pos, f_cur_map := p, f_cur_off := cnt\<rparr>) s;
       Some (s, NO_ERROR)
     }"

section \<open>Opening and closing\<close>

definition dentry_open_with ::
    "(u32 \<Rightarrow> 'z fs_scheme \<Rightarrow> 'z fs_scheme option) \<Rightarrow> u32 \<Rightarrow> u32 \<Rightarrow> 'z fs_scheme \<Rightarrow> ('z fs_scheme \<times> u32) option" where
  "dentry_open_with clear entry mode s =
     (let (s, ret) = kmalloc sizeof_file s
      in if ret = 0 then Some (s, - ERROR_NO_MEMORY)
         else do {
           s \<leftarrow> d_inc_count entry s;
           e \<leftarrow> dentries s entry;
           i \<leftarrow> inodes s (d_inode e);
           let f = \<lparr>f_size = i_size i, f_mode = mode, f_pos = 0, f_cur_off = 0,
                    f_cur_map = next (flinks s) (IData (d_inode e)), f_dentry = entry, f_op = i_fop i,
                    f_data_map = IData (d_inode e), f_dirt = False\<rparr>;
           if mode AND F_MODE_APPEND_MASK \<noteq> 0
           then do {
             b \<leftarrow> super_blocks s (d_sb e);
             remain \<leftarrow> file_last_blk_remain f s;
             let f = f\<lparr>f_pos := f_size f, f_cur_off := s_blocksize b - remain,
                       f_cur_map := prev (flinks s) (IData (d_inode e))\<rparr>;
             Some (s\<lparr>files := (files s)(ret := Some f)\<rparr>, ret)
           }
           else if mode AND F_MODE_READ_MASK = 0
           then do {
             s \<leftarrow> clear entry s;
             Some (s\<lparr>files := (files s)(ret := Some (f\<lparr>f_size := 0\<rparr>))\<rparr>, ret)
           }
           else Some (s\<lparr>files := (files s)(ret := Some f)\<rparr>, ret)
         })"

partial_function (option) flush_loop :: "fnode \<Rightarrow> fnode \<Rightarrow> 'z fs_scheme \<Rightarrow> ('z fs_scheme \<times> u32) option" where
  "flush_loop head p s =
     (if p = head then Some (s, NO_ERROR)
      else do {
        m \<leftarrow> map_at p;
        mp \<leftarrow> fs_maps s m;
        (s, error) \<leftarrow> flush_fspage (map_page mp) s;
        if IS_ERR_VALUE error then Some (s, error) else flush_loop head (next (flinks s) p) s
      })"

definition fs_close_with ::
    "(u32 \<Rightarrow> 'z fs_scheme \<Rightarrow> ('z fs_scheme \<times> u32) option) \<Rightarrow> u32 \<Rightarrow> 'z fs_scheme \<Rightarrow> ('z fs_scheme \<times> u32) option" where
  "fs_close_with close_op fp s =
     do {
       f \<leftarrow> files s fp;
       (s, error) \<leftarrow>
         (if f_dirt f
          then do {
            (s, error) \<leftarrow> flush_loop (f_data_map f) (next (flinks s) (f_data_map f)) s;
            if IS_ERR_VALUE error then Some (s, error) else close_op fp s
          }
          else Some (s, NO_ERROR));
       if IS_ERR_VALUE error then Some (s, error)
       else do {
         s \<leftarrow> d_dec_count (f_dentry f) s;
         s \<leftarrow> kfree fp s;
         Some (s\<lparr>files := (files s)(fp := None)\<rparr>, error)
       }
     }"

section \<open>The contents of a cached file\<close>

text \<open>A block of a file is given as its \<open>fs_map\<close> and the address of the data of its page.\<close>

definition cached :: "'z fs_scheme \<Rightarrow> u32 \<Rightarrow> u32 \<times> u32 \<Rightarrow> bool" where
  "cached s B x \<longleftrightarrow> (\<exists>mp p. fs_maps s (fst x) = Some mp \<and> map_page mp \<noteq> 0 \<and> fspages s (map_page mp) = Some p \<and>
     p_pagesize p = B \<and> p_data p = snd x)"

definition contents :: "mem \<Rightarrow> u32 \<Rightarrow> (u32 \<times> u32) list \<Rightarrow> u8 list" where
  "contents m B bs = concat (map (\<lambda>x. bytes m (snd x) (unat B)) bs)"

lemma contents_simps [simp]:
  "contents m B [] = []" "contents m B (x # bs) = bytes m (snd x) (unat B) @ contents m B bs"
  by (simp_all add: contents_def)

lemma length_contents [simp]: "length (contents m B bs) = length bs * unat B"
  by (induction bs) simp_all

lemma contents_cong:
  assumes "\<And>x. x \<in> set bs \<Longrightarrow> apart_bytes (snd x) (unat B) p n" and "\<And>a. n \<le> unat (a - p) \<Longrightarrow> m' a = m a"
  shows "contents m' B bs = contents m B bs"
  unfolding contents_def
  by (rule arg_cong [of _ _ concat], rule map_cong [OF refl], rule bytes_cong) (use assms in \<open>auto dest: apart_bytesD\<close>)

lemma cached_frame [simp]: "cached (s\<lparr>kmem := m\<rparr>) B x = cached s B x" "cached (s\<lparr>files := y\<rparr>) B x = cached s B x"
  by (simp_all add: cached_def)

lemma file_blocksize_frame [simp]:
  "file_blocksize f (s\<lparr>kmem := m\<rparr>) = file_blocksize f s" "file_blocksize f (s\<lparr>files := y\<rparr>) = file_blocksize f s"
  "file_blocksize (f\<lparr>f_pos := p\<rparr>) s = file_blocksize f s"
  "file_blocksize (f\<lparr>f_cur_off := i, f_cur_map := n\<rparr>) s = file_blocksize f s"
  by (simp_all add: file_blocksize_def)

lemma cached_page:
  "cached s B (m, a) \<Longrightarrow> \<exists>pg p. get_fspage (MapNode m) b s = Some (s, pg) \<and> fspages s pg = Some p \<and> p_pagesize p = B \<and> p_data p = a"
  by (auto simp: cached_def get_fspage_def)

lemma memcpy_apart:
  "apart_bytes src n dst n \<Longrightarrow> n \<le> 2 ^ 32 \<Longrightarrow>
   memcpy_loop n dst src m a = (if unat (a - dst) < n then m (src + (a - dst)) else m a)"
proof (induction n arbitrary: src dst m)
  case (Suc n)
  have sep: "apart_bytes (src + 1) n (dst + 1) n"
    unfolding apart_bytes_def
  proof (intro allI impI)
    fix i assume "i < n"
    then have "Suc n \<le> unat (src + of_nat i - dst)" using apart_bytesD [OF Suc.prems(1), of i] by simp
    moreover have "src + 1 + of_nat i - (dst + 1) = src + of_nat i - dst" by simp
    ultimately show "n \<le> unat (src + 1 + of_nat i - (dst + 1))" by (simp only:)
  qed
  have src: "src + 1 + of_nat j \<noteq> dst" if "j < n" for j
    using apart_bytesD [OF Suc.prems(1), of "Suc j"] that by (auto simp: add.assoc)
  show ?case
  proof (cases "a = dst")
    case True
    have "unat (- 1 :: u32) = 2 ^ 32 - 1" by (rule unat_minus_1_u32)
    with True Suc.IH [OF sep] Suc.prems(2) show ?thesis by simp
  next
    case False
    then have p: "0 < unat (a - dst)" by (simp add: unat_gt_0)
    then have u: "unat (a - (dst + 1)) = unat (a - dst) - 1" using unat_shift(1) [of 1 a dst] by simp
    have "a - (dst + 1) = of_nat (unat (a - (dst + 1)))" by simp
    then have "src + 1 + (a - (dst + 1)) \<noteq> dst" if "unat (a - (dst + 1)) < n" using src [OF that] by simp
    moreover have "src + 1 + (a - (dst + 1)) = src + (a - dst)" by simp
    ultimately show ?thesis using Suc.IH [OF sep] Suc.prems(2) False p u by auto
  qed
qed simp

lemma bytes_memcpy:
  assumes "apart_bytes src (unat n) dst (unat n)"
  shows "bytes (kernel_memcpy m dst src n) dst (unat n) = bytes m src (unat n)"
    and "unat n \<le> unat (a - dst) \<Longrightarrow> kernel_memcpy m dst src n a = m a"
proof -
  have l: "unat n \<le> 2 ^ 32" using unat_u32 [of n] by simp
  show "bytes (kernel_memcpy m dst src n) dst (unat n) = bytes m src (unat n)"
  proof (rule bytes_cong)
    fix i assume i: "i < unat n"
    then have "unat (of_nat i :: u32) = i" using l by (simp add: unat_of_nat)
    with i show "kernel_memcpy m dst src n (dst + of_nat i) = m (src + of_nat i)"
      by (simp add: kernel_memcpy_def memcpy_apart [OF assms l])
  qed
  show "unat n \<le> unat (a - dst) \<Longrightarrow> kernel_memcpy m dst src n a = m a"
    by (simp add: kernel_memcpy_def memcpy_apart [OF assms l])
qed

lemma take_drop_bytes:
  assumes "i + n \<le> k"
  shows "take n (drop i (bytes m a k @ xs)) = bytes m (a + of_nat i) n"
    and "take n (drop i (bytes m a k)) = bytes m (a + of_nat i) n"
proof -
  obtain r where k: "k = i + (n + r)" using assms by (metis add.assoc le_iff_add)
  show "take n (drop i (bytes m a k @ xs)) = bytes m (a + of_nat i) n"
    and "take n (drop i (bytes m a k)) = bytes m (a + of_nat i) n"
    unfolding k by (simp_all add: bytes_add)
qed

section \<open>Reading reads the contents\<close>

lemma split_buffer:
  fixes d n x p :: u32
  assumes d: "unat d \<le> unat n" and a: "unat n \<le> unat (x - p)"
  shows "unat (n - d) \<le> unat (x - (p + d))" and "unat d \<le> unat (x - p)"
  using unat_shift(1) [of d x p] assms by (simp_all add: unat_sub word_le_nat_alt)

lemma fs_read_loop_contents:
  assumes "files s fp = Some f" and "file_blocksize f s = Some B"
    and "\<And>x. x \<in> set (b # bs) \<Longrightarrow> cached s B x \<and> apart_bytes (snd x) (unat B) buf (unat len)"
    and "seg (flinks s) (MapNode (fst b)) (map (\<lambda>x. MapNode (fst x)) bs) h"
    and "unat off \<le> unat B" and "unat off + unat len \<le> length (b # bs) * unat B" and "unat off + unat len < 2 ^ 32"
  shows "\<exists>m i j. fs_read_loop fp buf (MapNode (fst b)) off len s =
      Some (s\<lparr>kmem := m, files := (files s)(fp \<mapsto> f\<lparr>f_cur_off := i, f_cur_map := MapNode (fst ((b # bs) ! j))\<rparr>)\<rparr>) \<and>
    j \<le> length bs \<and> unat i \<le> unat B \<and> j * unat B + unat i = unat off + unat len \<and>
    bytes m buf (unat len) = take (unat len) (drop (unat off) (contents (kmem s) B (b # bs))) \<and>
    (\<forall>a. unat len \<le> unat (a - buf) \<longrightarrow> m a = kmem s a)"
  using assms
proof (induction bs arbitrary: b buf off len s)
  case (Nil b)
  have c: "cached s B (fst b, snd b)" and sep: "apart_bytes (snd b) (unat B) buf (unat len)" using Nil.prems(3) [of b] by simp_all
  have l: "unat off + unat len \<le> unat B" using Nil.prems(6) by simp
  have cmp: "off + len \<le> B" using l Nil.prems(7) by (simp add: word_le_nat_alt unat_add_u32)
  have ap: "apart_bytes (snd b + off) (unat len) buf (unat len)"
    using apart_bytes_shift [of "snd b" "unat off" "unat len"] apart_bytes_mono [OF sep] l by simp
  show ?case using cached_page [OF c, of B] cmp Nil.prems(1,2,5,7) l bytes_memcpy [OF ap]
    by (intro exI [of _ "kernel_memcpy (kmem s) buf (snd b + off) len"] exI [of _ "off + len"] exI [of _ 0])
      (subst fs_read_loop.simps, auto simp: upd_mem_def upd_file_def unat_add_u32 take_drop_bytes(2))
next
  case (Cons b' bs b)
  have c: "cached s B (fst b, snd b)" and sep: "apart_bytes (snd b) (unat B) buf (unat len)" using Cons.prems(3) [of b] by simp_all
  show ?case
  proof (cases "unat off + unat len \<le> unat B")
    case l: True
    have cmp: "off + len \<le> B" using l Cons.prems(7) by (simp add: word_le_nat_alt unat_add_u32)
    have ap: "apart_bytes (snd b + off) (unat len) buf (unat len)"
      using apart_bytes_shift [of "snd b" "unat off" "unat len"] apart_bytes_mono [OF sep] l by simp
    show ?thesis using cached_page [OF c, of B] cmp Cons.prems(1,2,5,7) l bytes_memcpy [OF ap]
      by (intro exI [of _ "kernel_memcpy (kmem s) buf (snd b + off) len"] exI [of _ "off + len"] exI [of _ 0])
        (subst fs_read_loop.simps, auto simp: upd_mem_def upd_file_def unat_add_u32 take_drop_bytes)
  next
    case l: False
    have cmp: "\<not> off + len \<le> B" using l Cons.prems(7) by (simp add: word_le_nat_alt unat_add_u32)
    let ?d = "B - off" and ?m = "kernel_memcpy (kmem s) buf (snd b + off) (B - off)"
    let ?s = "upd_mem (\<lambda>m. kernel_memcpy m buf (snd b + off) (B - off)) s"
    have d: "unat ?d = unat B - unat off" "unat ?d \<le> unat len" "unat (len - ?d) = unat len - unat ?d"
      using Cons.prems(5) l by (auto simp: unat_sub word_le_nat_alt)
    have ap: "apart_bytes (snd b + off) (unat ?d) buf (unat ?d)"
      using apart_bytes_shift [of "snd b" "unat off" "unat ?d"] apart_bytes_mono [OF sep] d Cons.prems(5) by simp
    note copy = bytes_memcpy [OF ap]
    have keep: "?m a = kmem s a" if "unat len \<le> unat (a - buf)" for a using copy(2) that d(2) by simp
    have sep': "apart_bytes (snd x) (unat B) (buf + ?d) (unat (len - ?d))" if "x \<in> set (b' # bs)" for x
      using Cons.prems(3) [of x] that split_buffer(1) [OF d(2)] by (auto simp: apart_bytes_def)
    have "\<exists>m i j. fs_read_loop fp (buf + ?d) (MapNode (fst b')) 0 (len - ?d) ?s =
        Some (?s\<lparr>kmem := m, files := (files ?s)(fp \<mapsto> f\<lparr>f_cur_off := i, f_cur_map := MapNode (fst ((b' # bs) ! j))\<rparr>)\<rparr>) \<and>
      j \<le> length bs \<and> unat i \<le> unat B \<and> j * unat B + unat i = unat (0 :: u32) + unat (len - ?d) \<and>
      bytes m (buf + ?d) (unat (len - ?d)) = take (unat (len - ?d)) (drop (unat (0 :: u32)) (contents (kmem ?s) B (b' # bs))) \<and>
      (\<forall>a. unat (len - ?d) \<le> unat (a - (buf + ?d)) \<longrightarrow> m a = kmem ?s a)"
      by (rule Cons.IH) (use Cons.prems d sep' in \<open>auto simp: upd_mem_def\<close>)
    then obtain m i j where r: "fs_read_loop fp (buf + ?d) (MapNode (fst b')) 0 (len - ?d) ?s =
        Some (s\<lparr>kmem := m, files := (files s)(fp \<mapsto> f\<lparr>f_cur_off := i, f_cur_map := MapNode (fst ((b' # bs) ! j))\<rparr>)\<rparr>)"
      and j: "j \<le> length bs" "unat i \<le> unat B" "j * unat B + unat i = unat len - unat ?d"
      and b: "bytes m (buf + ?d) (unat len - unat ?d) = take (unat len - unat ?d) (contents ?m B (b' # bs))"
      and k: "\<And>a. unat len - unat ?d \<le> unat (a - (buf + ?d)) \<Longrightarrow> m a = ?m a"
      using d(3) by (auto simp: upd_mem_def)
    have nx: "next (flinks s) (MapNode (fst b)) = MapNode (fst b')" using Cons.prems(4) by simp
    have cs: "contents ?m B (b' # bs) = contents (kmem s) B (b' # bs)"
      by (rule contents_cong [of _ _ buf "unat len"]) (use Cons.prems(3) keep in auto)
    have "bytes m buf (unat len) = bytes m buf (unat ?d) @ bytes m (buf + ?d) (unat len - unat ?d)"
      using bytes_add [of m buf "unat ?d" "unat len - unat ?d"] d(2) by simp
    also have "bytes m buf (unat ?d) = bytes ?m buf (unat ?d)"
    proof (rule bytes_cong)
      fix q assume q: "q < unat ?d"
      then have "unat (of_nat q :: u32) = q" using unat_u32 [of ?d] by (simp add: unat_of_nat)
      then have "unat (buf + of_nat q - (buf + ?d)) = 2 ^ 32 + q - unat ?d"
        using q unat_shift(2) [of "buf + of_nat q" buf ?d] by simp
      then show "m (buf + of_nat q) = ?m (buf + of_nat q)" using unat_u32 [of len] by (intro k) simp
    qed
    also have "\<dots> = bytes (kmem s) (snd b + off) (unat ?d)" by (rule copy(1))
    finally have "bytes m buf (unat len) = take (unat len) (drop (unat off) (contents (kmem s) B (b # b' # bs)))"
      using b cs d(1,2) Cons.prems(5) take_drop_bytes(2) [of "unat off" "unat ?d" "unat B" "kmem s" "snd b"] by simp
    moreover have "m a = kmem s a" if "unat len \<le> unat (a - buf)" for a
      using k [of a] keep [OF that] split_buffer(1) [OF d(2) that] d(3) by simp
    moreover have "fs_read_loop fp buf (MapNode (fst b)) off len s =
        Some (s\<lparr>kmem := m, files := (files s)(fp \<mapsto> f\<lparr>f_cur_off := i, f_cur_map := MapNode (fst ((b # b' # bs) ! Suc j))\<rparr>)\<rparr>)"
      using cached_page [OF c, of B] cmp Cons.prems(1,2) r nx by (subst fs_read_loop.simps) (auto simp: upd_mem_def)
    moreover have "Suc j * unat B + unat i = unat off + unat len" using j(3) d Cons.prems(5) by simp
    moreover have "Suc j \<le> length (b' # bs)" using j(1) by simp
    ultimately show ?thesis using j(2) by blast
  qed
qed

section \<open>Properties\<close>

text \<open>
  An open file whose blocks are all in the page cache, at position \<open>pos\<close> of its contents.  At the end
  of a block the position is kept in that block, with an offset of a full block.
\<close>

definition file_at :: "'z fs_scheme \<Rightarrow> u32 \<Rightarrow> u32 \<Rightarrow> (u32 \<times> u32) list \<Rightarrow> nat \<Rightarrow> bool" where
  "file_at s fp B bs pos \<longleftrightarrow> (\<exists>f i. files s fp = Some f \<and> file_blocksize f s = Some B \<and> (\<forall>x\<in>set bs. cached s B x) \<and>
     seg (flinks s) (f_data_map f) (map (\<lambda>x. MapNode (fst x)) bs) (f_data_map f) \<and> i < length bs \<and>
     f_cur_map f = MapNode (fst (bs ! i)) \<and> unat (f_cur_off f) \<le> unat B \<and> pos = i * unat B + unat (f_cur_off f) \<and>
     unat (f_pos f) = pos \<and> unat (f_size f) \<le> length bs * unat B)"

lemma drop_contents: "i \<le> length bs \<Longrightarrow> drop (i * unat B + k) (contents m B bs) = drop k (contents m B (drop i bs))"
proof (induction i arbitrary: bs)
  case (Suc i)
  then obtain b bs' where "bs = b # bs'" by (cases bs) auto
  with Suc show ?case by (simp add: add.assoc)
qed simp

lemma fs_read_next:
  assumes "file_at s fp B bs pos" and "files s fp = Some f" and "f_mode f AND F_MODE_READ_MASK \<noteq> 0"
    and "pos + unat len \<le> unat (f_size f)" and "\<And>x. x \<in> set bs \<Longrightarrow> apart_bytes (snd x) (unat B) buf (unat len)"
  shows "\<exists>t m g. fs_read fp buf len s = Some (t, NO_ERROR) \<and> t = s\<lparr>kmem := m, files := (files s)(fp \<mapsto> g)\<rparr> \<and>
    f_size g = f_size f \<and> f_mode g = f_mode f \<and> file_at t fp B bs (pos + unat len) \<and>
    bytes (kmem t) buf (unat len) = take (unat len) (drop pos (contents (kmem s) B bs)) \<and>
    contents (kmem t) B bs = contents (kmem s) B bs \<and> (\<forall>a. unat len \<le> unat (a - buf) \<longrightarrow> kmem t a = kmem s a)"
proof -
  obtain i where F: "file_blocksize f s = Some B" "\<And>x. x \<in> set bs \<Longrightarrow> cached s B x"
    "seg (flinks s) (f_data_map f) (map (\<lambda>x. MapNode (fst x)) bs) (f_data_map f)" "i < length bs"
    "f_cur_map f = MapNode (fst (bs ! i))" "unat (f_cur_off f) \<le> unat B" "pos = i * unat B + unat (f_cur_off f)"
    "unat (f_pos f) = pos" "unat (f_size f) \<le> length bs * unat B"
    using assms(1,2) by (auto simp: file_at_def)
  let ?f = "f\<lparr>f_pos := f_pos f + len\<rparr>" and ?r = "drop (Suc i) bs"
  let ?s = "s\<lparr>files := (files s)(fp \<mapsto> ?f)\<rparr>"
  have bs: "bs = take i bs @ bs ! i # ?r" using F(4) by (rule id_take_nth_drop)
  have sg: "seg (flinks s) (MapNode (fst (bs ! i))) (map (\<lambda>x. MapNode (fst x)) ?r) (f_data_map f)"
    using F(3) by (subst (asm) bs) simp
  have p: "unat (f_pos f + len) = pos + unat len"
    using F(8) assms(4) unat_u32 [of "f_size f"] by (simp add: unat_add_u32)
  have n: "length (bs ! i # ?r) = length bs - i" using F(4) by simp
  have "\<exists>m o' j. fs_read_loop fp buf (MapNode (fst (bs ! i))) (f_cur_off f) len ?s =
      Some (?s\<lparr>kmem := m, files := (files ?s)(fp \<mapsto> ?f\<lparr>f_cur_off := o', f_cur_map := MapNode (fst ((bs ! i # ?r) ! j))\<rparr>)\<rparr>) \<and>
    j \<le> length ?r \<and> unat o' \<le> unat B \<and> j * unat B + unat o' = unat (f_cur_off f) + unat len \<and>
    bytes m buf (unat len) = take (unat len) (drop (unat (f_cur_off f)) (contents (kmem ?s) B (bs ! i # ?r))) \<and>
    (\<forall>a. unat len \<le> unat (a - buf) \<longrightarrow> m a = kmem ?s a)"
  proof (rule fs_read_loop_contents)
    show "cached ?s B x \<and> apart_bytes (snd x) (unat B) buf (unat len)" if "x \<in> set (bs ! i # ?r)" for x
      using that F(2) assms(5) bs by (metis UnI2 cached_frame(2) set_append)
    show "unat (f_cur_off f) + unat len \<le> length (bs ! i # ?r) * unat B"
      using F(4,7,9) assms(4) unfolding n by (simp add: diff_mult_distrib)
    show "unat (f_cur_off f) + unat len < 2 ^ 32" using F(7) assms(4) unat_u32 [of "f_size f"] by simp
  qed (use F(1,6) sg in simp_all)
  then obtain m o' j where r: "fs_read_loop fp buf (MapNode (fst (bs ! i))) (f_cur_off f) len ?s =
      Some (?s\<lparr>kmem := m, files := (files ?s)(fp \<mapsto> ?f\<lparr>f_cur_off := o', f_cur_map := MapNode (fst ((bs ! i # ?r) ! j))\<rparr>)\<rparr>)"
    and j: "j \<le> length ?r" "unat o' \<le> unat B" "j * unat B + unat o' = unat (f_cur_off f) + unat len"
    and b: "bytes m buf (unat len) = take (unat len) (drop (unat (f_cur_off f)) (contents (kmem s) B (bs ! i # ?r)))"
    and k: "\<And>a. unat len \<le> unat (a - buf) \<Longrightarrow> m a = kmem s a"
    by auto
  let ?g = "?f\<lparr>f_cur_off := o', f_cur_map := MapNode (fst ((bs ! i # ?r) ! j))\<rparr>"
  let ?t = "s\<lparr>kmem := m, files := (files s)(fp \<mapsto> ?g)\<rparr>"
  have at: "(bs ! i # ?r) ! j = bs ! (i + j)" "i + j < length bs"
    using F(4) j(1) by (simp_all add: Cons_nth_drop_Suc)
  have "fs_read fp buf len s = Some (?t, NO_ERROR)"
    using assms(2-4) r p F(5) by (simp add: fs_read_def upd_file_def word_less_nat_alt)
  moreover have "file_at ?t fp B bs (pos + unat len)"
    unfolding file_at_def
    by (rule exI [of _ ?g], rule exI [of _ "i + j"])
      (use F at j p in \<open>auto simp: file_blocksize_def add_mult_distrib cached_def\<close>)
  moreover have "bytes m buf (unat len) = take (unat len) (drop pos (contents (kmem s) B bs))"
    using b F(4) by (simp add: F(7) drop_contents Cons_nth_drop_Suc)
  moreover have "contents m B bs = contents (kmem s) B bs" by (rule contents_cong [OF assms(5) k])
  ultimately show ?thesis using k by (intro exI [of _ ?t] exI [of _ m] exI [of _ ?g]) simp
qed

text \<open>
  C30.  Reading from an open file whose blocks are cached returns the next \<open>len\<close> bytes of its contents
  in the buffer, over as many blocks as they take, moves the position behind them and writes no byte
  outside the buffer; so a sequence of reads returns the contents in order.
\<close>

theorem fs_read_contents:
  assumes "file_at s fp B bs pos" and "files s fp = Some f" and "f_mode f AND F_MODE_READ_MASK \<noteq> 0"
    and "pos + unat len \<le> unat (f_size f)" and "\<And>x. x \<in> set bs \<Longrightarrow> apart_bytes (snd x) (unat B) buf (unat len)"
  shows "\<exists>t. fs_read fp buf len s = Some (t, NO_ERROR) \<and> file_at t fp B bs (pos + unat len) \<and>
    bytes (kmem t) buf (unat len) = take (unat len) (drop pos (contents (kmem s) B bs)) \<and>
    contents (kmem t) B bs = contents (kmem s) B bs \<and> (\<forall>a. unat len \<le> unat (a - buf) \<longrightarrow> kmem t a = kmem s a)"
  using fs_read_next [OF assms] by blast

text \<open>An open file of two cached blocks of four bytes, positioned at its third byte.\<close>

definition demo_file :: fs_file where
  "demo_file = \<lparr>f_size = 8, f_mode = F_MODE_READ, f_pos = 2, f_cur_off = 2, f_cur_map = MapNode 0x40,
     f_dentry = 0x800, f_op = FAT32, f_data_map = IData 0x700, f_dirt = False\<rparr>"

definition demo_page :: "u32 \<Rightarrow> fspage" where
  "demo_page a = \<lparr>p_dirt = False, p_data = a, p_pagesize = 4, p_sec_addr = 8, p_sec_cnt = 8\<rparr>"

definition demo_open :: fs where
  "demo_open = demo_fs\<lparr>kmem := (\<lambda>a. ucast a),
     fs_maps := (\<lambda>_. None)(0x40 \<mapsto> \<lparr>map_addr = 8, map_page = 0x60\<rparr>, 0x50 \<mapsto> \<lparr>map_addr = 9, map_page = 0x70\<rparr>),
     fspages := (\<lambda>_. None)(0x60 \<mapsto> demo_page 0x1000, 0x70 \<mapsto> demo_page 0x2000),
     dentries := (\<lambda>_. None)(0x800 \<mapsto> \<lparr>d_count = 1, d_pinned = False, d_mounted = False, d_sb = 0x500, d_inode = 0x700,
       d_parent = 0x800, d_op = FAT32, d_name = \<lparr>q_len = 0, q_name = 0\<rparr>\<rparr>),
     super_blocks := (\<lambda>_. None)(0x500 \<mapsto> \<lparr>s_type = FAT32, s_blocksize = 4, s_blockbits = 2, s_basesec = 0, s_root = 0x800,
       s_op = FAT32, s_mnt = \<lparr>mnt_parent = 0, mnt_mntpoint = 0, mnt_sb = 0x500\<rparr>, s_info_fat32 = 0\<rparr>),
     files := (\<lambda>_. None)(0x900 \<mapsto> demo_file),
     flinks := list_add_tail (MapNode 0x50) (IData 0x700)
       (list_add_tail (MapNode 0x40) (IData 0x700) (INIT_LIST_HEAD (IData 0x700) \<lparr>prev = \<lambda>n. n, next = \<lambda>n. n\<rparr>))\<rparr>"

lemma demo_open_at:
  "files demo_open 0x900 = Some demo_file" "file_at demo_open 0x900 4 [(0x40, 0x1000), (0x50, 0x2000)] 2"
proof -
  show f: "files demo_open 0x900 = Some demo_file" by (simp add: demo_open_def)
  have "dll (flinks demo_open) (IData 0x700) [MapNode 0x40, MapNode 0x50]"
    using dll_add_tail [OF dll_add_tail [OF dll_INIT, of "MapNode 0x40" "IData 0x700"], of "MapNode 0x50"]
    by (simp add: demo_open_def)
  then have sg: "seg (flinks demo_open) (IData 0x700) [MapNode 0x40, MapNode 0x50] (IData 0x700)" by (simp add: dll_def)
  have "cached demo_open 4 x" if "x \<in> set [(0x40, 0x1000), (0x50, 0x2000)]" for x
    using that by (auto simp: demo_open_def cached_def demo_page_def)
  moreover have "file_blocksize demo_file demo_open = Some 4"
    by (simp add: demo_open_def demo_file_def file_blocksize_def)
  ultimately show "file_at demo_open 0x900 4 [(0x40, 0x1000), (0x50, 0x2000)] 2"
    using f sg unfolding file_at_def by (intro exI [of _ demo_file] exI [of _ 0]) (simp add: demo_file_def)
qed

theorem fs_read_contents_witness:
  "\<exists>t. fs_read 0x900 0x3000 5 demo_open = Some (t, NO_ERROR) \<and> bytes (kmem t) 0x3000 5 = [2, 3, 0, 1, 2]"
proof -
  have ap: "apart_bytes (snd x) (unat (4 :: u32)) 0x3000 (unat (5 :: u32))" if "x \<in> set [(0x40, 0x1000), (0x50, 0x2000)]" for x :: "u32 \<times> u32"
    using that by (auto simp: apart_bytes_def dest!: byte_cases)
  have c: "bytes (kmem demo_open) 0x1000 4 = [0, 1, 2, 3]" "bytes (kmem demo_open) 0x2000 4 = [0, 1, 2, 3]"
    by (simp_all add: demo_open_def bytes_def upt_rec)
  show ?thesis using fs_read_contents [OF demo_open_at(2,1) _ _ ap] c by (auto simp: demo_file_def file_consts)
qed

subsection \<open>Positioning\<close>

lemma seek_loop_position:
  assumes "seg h (MapNode (fst b)) (map (\<lambda>x. MapNode (fst x)) bs) (IData n)"
    and "unat cnt \<le> length (b # bs) * unat B" and "length (b # bs) * unat B < 2 ^ 31"
  shows "\<exists>j c. seek_loop h (IData n) B (MapNode (fst b)) cnt = Some (MapNode (fst ((b # bs) ! j)), c) \<and>
    j \<le> length bs \<and> unat c \<le> unat B \<and> j * unat B + unat c = unat cnt"
  using assms
proof (induction bs arbitrary: b cnt)
  case Nil
  then have "sint cnt \<le> sint B" by (simp add: sint_small uint_le_unat)
  then have "seek_loop h (IData n) B (MapNode (fst b)) cnt = Some (MapNode (fst b), cnt)" by (subst seek_loop.simps) simp
  then show ?case using Nil by (intro exI [of _ 0] exI [of _ cnt]) simp
next
  case (Cons b' bs)
  have l: "unat B < 2 ^ 31" "unat cnt < 2 ^ 31" using Cons.prems by simp_all
  show ?case
  proof (cases "unat cnt \<le> unat B")
    case True
    then have "sint cnt \<le> sint B" using l by (simp add: sint_small uint_le_unat)
    then have "seek_loop h (IData n) B (MapNode (fst b)) cnt = Some (MapNode (fst b), cnt)" by (subst seek_loop.simps) simp
    then show ?thesis using True by (intro exI [of _ 0] exI [of _ cnt]) simp
  next
    case False
    then have c: "\<not> sint cnt \<le> sint B" "unat (cnt - B) = unat cnt - unat B"
      using l by (simp_all add: sint_small uint_le_unat unat_sub word_le_nat_alt)
    have "\<exists>j c. seek_loop h (IData n) B (MapNode (fst b')) (cnt - B) = Some (MapNode (fst ((b' # bs) ! j)), c) \<and>
      j \<le> length bs \<and> unat c \<le> unat B \<and> j * unat B + unat c = unat (cnt - B)"
      by (rule Cons.IH) (use Cons.prems c(2) in simp_all)
    then obtain j c' where j: "seek_loop h (IData n) B (MapNode (fst b')) (cnt - B) = Some (MapNode (fst ((b' # bs) ! j)), c')"
      "j \<le> length bs" "unat c' \<le> unat B" "j * unat B + unat c' = unat cnt - unat B" using c(2) by auto
    have "seek_loop h (IData n) B (MapNode (fst b)) cnt = Some (MapNode (fst ((b # b' # bs) ! Suc j)), c')"
      using c(1) j(1) Cons.prems(1) by (subst seek_loop.simps) simp
    then show ?thesis using j(2-4) False by (intro exI [of _ "Suc j"] exI [of _ c']) simp
  qed
qed

text \<open>The position \<open>fs_seek\<close> asks for, which may lie outside the file.\<close>

definition seek_target :: "fs_file \<Rightarrow> u32 \<Rightarrow> u32 \<Rightarrow> int" where
  "seek_target f flag offset =
     int (if flag = SEEK_HEAD then 0 else if flag = SEEK_TAIL then unat (f_size f) else unat (f_pos f)) + sint offset"

text \<open>
  C31.  Positioning an open file moves it to the position asked for, or to the end of the file when
  that lies behind the end, and keeps the position consistent with the block and the offset the next
  read uses; a position in front of the file also moves it to the end, since the test for a negative
  position is made on an unsigned number.
\<close>

theorem fs_seek_position:
  assumes "file_at s fp B bs pos" and "files s fp = Some f" and "f_data_map f = IData n" and "pos \<le> unat (f_size f)"
    and "length bs * unat B < 2 ^ 31"
  shows "\<exists>t. fs_seek fp flag offset s = Some (t, NO_ERROR) \<and> kmem t = kmem s \<and>
    file_at t fp B bs (if seek_target f flag offset < 0 then unat (f_size f)
      else min (nat (seek_target f flag offset)) (unat (f_size f)))"
proof -
  have F: "file_blocksize f s = Some B" "\<And>x. x \<in> set bs \<Longrightarrow> cached s B x"
    "seg (flinks s) (IData n) (map (\<lambda>x. MapNode (fst x)) bs) (IData n)" "bs \<noteq> []"
    "unat (f_pos f) = pos" "unat (f_size f) \<le> length bs * unat B"
    using assms(1-3) by (auto simp: file_at_def)
  define base where "base = (if flag = SEEK_HEAD then 0 else if flag = SEEK_TAIL then f_size f else f_pos f)"
  define q where "q = (if base + offset > f_size f then f_size f else base + offset)"
  let ?p = "seek_target f flag offset"
  have base: "unat base \<le> unat (f_size f)" using assms(4) F(5) by (simp add: base_def)
  have p: "?p = uint base + sint offset" by (simp add: base_def seek_target_def)
  have u: "uint base \<le> uint (f_size f)" "uint (f_size f) < 2147483648" "0 \<le> uint base"
    using base F(6) assms(5) by (simp_all add: uint_le_unat uint_less_unat [simplified])
  have r: "- 2147483648 \<le> sint offset" "sint offset < 2147483648"
    using sint_greater_eq [of offset] sint_less [of offset] by simp_all
  have w: "uint (base + offset) = ?p mod 4294967296" unfolding p by (rule uint_add_sint)
  have q: "unat q = (if ?p < 0 then unat (f_size f) else min (nat ?p) (unat (f_size f)))"
  proof (cases "?p < 0")
    case True
    have "(?p + 4294967296) mod 4294967296 = ?p + 4294967296" by (rule mod_pos_pos_trivial) (use True r u p in linarith)+
    then have "uint (base + offset) = ?p + 4294967296" by (simp add: w)
    then have "uint (f_size f) < uint (base + offset)" using r u p by linarith
    then show ?thesis using True by (simp add: q_def word_less_def)
  next
    case False
    have "?p mod 4294967296 = ?p" by (rule mod_pos_pos_trivial) (use False r u p in linarith)+
    then have "unat (base + offset) = nat ?p" by (simp only: unat_eq_nat_uint w)
    then show ?thesis using False by (auto simp: q_def word_less_nat_alt)
  qed
  obtain b bs' where bs: "bs = b # bs'" using F(4) by (cases bs) auto
  have ql: "unat q \<le> length bs * unat B" using q F(6) by auto
  from seek_loop_position [of "flinks s" b bs' n q B] obtain j c where
    j: "seek_loop (flinks s) (IData n) B (MapNode (fst b)) q = Some (MapNode (fst (bs ! j)), c)"
    "j \<le> length bs'" "unat c \<le> unat B" "j * unat B + unat c = unat q"
    using F(3) ql assms(5) by (auto simp: bs)
  have nx: "next (flinks s) (IData n) = MapNode (fst b)" using F(3) by (simp add: bs)
  let ?f = "f\<lparr>f_pos := q, f_cur_map := MapNode (fst (bs ! j)), f_cur_off := c\<rparr>"
  let ?t = "s\<lparr>files := (files s)(fp \<mapsto> ?f)\<rparr>"
  have "fs_seek fp flag offset s = Some (?t, NO_ERROR)"
    using assms(2,3) F(1) j(1) nx
    by (cases "f_size f < base + offset") (simp_all add: fs_seek_def base_def [symmetric] q_def upd_file_def Let_def)
  moreover have "file_at ?t fp B bs (unat q)"
    unfolding file_at_def
    by (rule exI [of _ ?f], rule exI [of _ j]) (use F j assms(3) in \<open>auto simp: file_blocksize_def cached_def bs\<close>)
  ultimately show ?thesis unfolding q [symmetric] by (intro exI [of _ ?t]) simp
qed

theorem fs_seek_position_witness:
  "(\<exists>t. fs_seek 0x900 SEEK_HEAD 5 demo_open = Some (t, NO_ERROR) \<and> file_at t 0x900 4 [(0x40, 0x1000), (0x50, 0x2000)] 5) \<and>
   (\<exists>t. fs_seek 0x900 0 (- 3) demo_open = Some (t, NO_ERROR) \<and> file_at t 0x900 4 [(0x40, 0x1000), (0x50, 0x2000)] 8)"
  using fs_seek_position [OF demo_open_at(2,1), of "0x700" SEEK_HEAD 5] fs_seek_position [OF demo_open_at(2,1), of "0x700" 0 "- 3"]
  by (auto simp: demo_file_def seek_target_def SEEK_HEAD_def SEEK_TAIL_def)

end
