(* ===== verification/Ext2.thy ===== *)
theory Ext2
  imports File_Io
begin

text \<open>
  Reading ext2 volumes, \<^verbatim>\<open>src/kernel/fs/ext2/ext2.c\<close>.  The addresses of blocks are used as sector
  numbers, as the code does.
\<close>

definition EXT2_FILE_TYPE_DIR :: u8 where "EXT2_FILE_TYPE_DIR = 2"
definition BLOCK_SIZE_EXT2 :: u32 where "BLOCK_SIZE_EXT2 = 1024"
definition sizeof_group_ext2 :: u32 where "sizeof_group_ext2 = 32"
definition sizeof_fs_info_ext2 :: u32 where "sizeof_fs_info_ext2 = 16"
definition sizeof_super_block :: u32 where "sizeof_super_block = 48"

lemmas ext2_consts [os_const] = EXT2_FILE_TYPE_DIR_def BLOCK_SIZE_EXT2_def sizeof_group_ext2_def
  sizeof_fs_info_ext2_def sizeof_super_block_def

section \<open>The block map of a file\<close>

text \<open>An index block is read, whether that succeeds or not, and one of its words is taken.\<close>

definition index_word :: "u32 \<Rightarrow> u32 \<Rightarrow> u32 \<Rightarrow> u32 \<Rightarrow> 'z fs_scheme \<Rightarrow> ('z fs_scheme \<times> u32) option" where
  "index_word data addr n_sec idx s =
     do { (s, _) \<leftarrow> sd_read_block data addr n_sec s; Some (s, load32 (kmem s) (data + push_bit 2 idx)) }"

text \<open>
  The quotients and remainders are those of signed integers; behind the last block that three levels
  reach, the result is not initialised.
\<close>

definition find_page_sec_ext2 :: "u32 \<Rightarrow> u32 \<Rightarrow> u32 \<Rightarrow> 'z fs_scheme \<Rightarrow> ('z fs_scheme \<times> u32) option" where
  "find_page_sec_ext2 node curPage pageaddr s =
     do {
       i \<leftarrow> inodes s node;
       b \<leftarrow> super_blocks s (i_sb i);
       let (s, data) = kmalloc (s_blocksize b) s;
       let n_sec = drop_bit SECTOR_SHIFT (s_blocksize b);
       let num = drop_bit 2 (s_blocksize b);
       let block = (\<lambda>k. load32 (kmem s) (pageaddr + push_bit 2 k));
       (s, ret) \<leftarrow>
         (if data = 0 then Some (s, - ERROR_NO_MEMORY)
          else if sint curPage < 12 then Some (s, block curPage)
          else let curPage = curPage - 12 in
          if sint curPage < sint num then index_word data (block 12) n_sec curPage s
          else let curPage = curPage - num in
          if sint curPage < sint (num * num)
          then do {
            (s, addr) \<leftarrow> index_word data (block 13) n_sec (curPage div num) s;
            index_word data addr n_sec (curPage mod num) s
          }
          else let curPage = curPage - num * num in
          if sint curPage < sint (num * num * num)
          then do {
            (s, addr) \<leftarrow> index_word data (block 14) n_sec (curPage div (num * num)) s;
            (s, addr) \<leftarrow> index_word data addr n_sec (curPage div (num * num) div num) s;
            index_word data addr n_sec (curPage div (num * num) mod num) s
          }
          else None);
       s \<leftarrow> kfree data s;
       Some (s, ret)
     }"

section \<open>Index nodes and directory entries\<close>

text \<open>The loop over the blocks of a file; the bound is unsigned.\<close>

primrec ext2_map_loop :: "nat \<Rightarrow> u32 \<Rightarrow> u32 \<Rightarrow> u32 \<Rightarrow> 'z fs_scheme \<Rightarrow> ('z fs_scheme \<times> u32) option" where
  "ext2_map_loop 0 i node block_addr s = Some (s, node)"
| "ext2_map_loop (Suc n) i node block_addr s =
     (let (s, mp) = kmalloc sizeof_fs_map s
      in if mp = 0 then Some (s, - ERROR_NO_MEMORY)
         else do {
           (s, sec) \<leftarrow> find_page_sec_ext2 node i block_addr s;
           let s = s\<lparr>fs_maps := (fs_maps s)(mp := Some \<lparr>map_addr = sec, map_page = 0\<rparr>)\<rparr>;
           ext2_map_loop n (i + 1) node block_addr (upd_flinks (list_add_tail (MapNode mp) (IData node)) s)
         })"

text \<open>Where the inode lies on the card; a division by zero has no result.\<close>

definition inode_sector ::
    "u32 \<Rightarrow> fs_info_ext2 \<Rightarrow> super_block \<Rightarrow> u32 \<Rightarrow> 'z fs_scheme \<Rightarrow> ('z fs_scheme \<times> (u32 \<times> u32) option) option" where
  "inode_sector ino fi b buffer s =
     (if info_inode_pgroup fi = 0 \<or> info_inode_size fi = 0 \<or> SECTOR_SIZE div info_inode_size fi = 0 then None
      else let group = (ino - 1) div info_inode_pgroup fi;
               group_psec = SECTOR_SIZE div sizeof_group_ext2;
               sec = info_1st_gdt_sec fi + group div group_psec;
               offset = group mod group_psec * sizeof_group_ext2
           in do {
             (s, ok) \<leftarrow> sd_read_block buffer sec 1 s;
             if \<not> ok then Some (s, None)
             else let group_base_blk = load32 (kmem s) (buffer + offset);
                      blk_sec = drop_bit SECTOR_SHIFT (s_blocksize b);
                      group_base_sec = s_basesec b + group_base_blk * blk_sec;
                      inode_psec = SECTOR_SIZE div info_inode_size fi;
                      off_sec = ((ino - 1) mod info_inode_pgroup fi) div inode_psec
                  in Some (s, Some (group_base_sec + 2 * blk_sec + off_sec, ((ino - 1) mod inode_psec) * info_inode_size fi))
           })"

definition fill_inode_ext2 :: "u32 \<Rightarrow> u32 \<Rightarrow> u32 \<Rightarrow> u32 \<Rightarrow> 'z fs_scheme \<Rightarrow> ('z fs_scheme \<times> u32) option" where
  "fill_inode_ext2 sb ino buffer ret s =
     do {
       b \<leftarrow> super_blocks s sb;
       fi \<leftarrow> ext2_infos s (s_info_fat32 b);
       (s, place) \<leftarrow> inode_sector ino fi b buffer s;
       case place of
         None \<Rightarrow> Some (s, - ERROR_READ_SDCARD)
       | Some (data_sec, off_bytes) \<Rightarrow> do {
           (s, ok) \<leftarrow> sd_read_block buffer data_sec 1 s;
           if \<not> ok then Some (s, - ERROR_READ_SDCARD)
           else do {
             let node_ext2 = buffer + off_bytes;
             let blocks = load32 (kmem s) (node_ext2 + 28);
             let fsize = load32 (kmem s) (node_ext2 + 4);
             s \<leftarrow> upd_inode ret (\<lambda>i. i\<lparr>i_blocks := blocks, i_size := fsize\<rparr>) s;
             (s, r) \<leftarrow> ext2_map_loop (unat blocks) 0 ret (node_ext2 + 40) (upd_flinks (INIT_LIST_HEAD (IData ret)) s);
             if IS_ERR_VALUE r then Some (s, r)
             else do {
               (s, added) \<leftarrow> add_to_cache I_CACHE ret s;
               Some (s, if added then ret else - ERROR_CACHE_FULL)
             }
           }
         }
     }"

definition alloc_inode_ext2 ::
    "u32 \<Rightarrow> u32 \<Rightarrow> u32 \<Rightarrow> bool \<Rightarrow> 'z fs_scheme \<Rightarrow> ('z fs_scheme \<times> u32) option" where
  "alloc_inode_ext2 sb ino fsize isdir s =
     (let (s, buffer) = kmalloc SECTOR_SIZE s
      in do {
        (s, ret) \<leftarrow>
          (if buffer = 0 then Some (s, - ERROR_NO_MEMORY)
           else let (s, ret) = kmalloc sizeof_inode s
           in if ret = 0 then Some (s, - ERROR_NO_MEMORY)
              else do {
                b \<leftarrow> super_blocks s sb;
                let s = s\<lparr>inodes := (inodes s)(ret := Some \<lparr>i_ino = ino + s_basesec b, i_count = 0, i_size = fsize,
                          i_blocks = 0, i_pinned = False, i_isdir = isdir, i_sb = sb, i_iop = EXT2, i_fop = EXT2\<rparr>)\<rparr>;
                fill_inode_ext2 sb ino buffer ret
                  (upd_flinks (INIT_LIST_HEAD (IDentry ret) \<circ> INIT_LIST_HEAD (ILru ret) \<circ> INIT_LIST_HEAD (IHash ret)) s)
              });
        s \<leftarrow> kfree buffer s;
        Some (s, ret)
      })"

definition alloc_dentry_ext2 ::
    "u32 \<Rightarrow> u32 \<Rightarrow> u32 \<Rightarrow> qstr \<Rightarrow> 'z fs_scheme \<Rightarrow> ('z fs_scheme \<times> u32) option" where
  "alloc_dentry_ext2 sb node parent name s =
     (let (s, ret) = kmalloc sizeof_dentry s
      in if ret = 0 then Some (s, - ERROR_NO_MEMORY)
         else do {
           let s = s\<lparr>dentries := (dentries s)(ret := Some \<lparr>d_count = 0, d_pinned = False, d_mounted = False, d_sb = sb,
                     d_inode = node, d_parent = (if parent \<noteq> 0 then parent else ret), d_op = EXT2, d_name = name\<rparr>)\<rparr>;
           let s = upd_flinks (INIT_LIST_HEAD (DAlias ret) \<circ> INIT_LIST_HEAD (DSubdirs ret) \<circ> INIT_LIST_HEAD (DSibling ret) \<circ>
                     INIT_LIST_HEAD (DLru ret) \<circ> INIT_LIST_HEAD (DHash ret)) s;
           s \<leftarrow> i_inc_count node s;
           let s = upd_flinks (list_add (DAlias ret) (IDentry node)) s;
           let s = (if parent \<noteq> 0 then upd_flinks (list_add (DSibling ret) (DSubdirs parent)) s else s);
           (s, added) \<leftarrow> add_to_cache D_CACHE ret s;
           Some (s, if added then ret else - ERROR_CACHE_FULL)
         })"

section \<open>The operations of the volume\<close>

text \<open>
  What is not implemented returns a positive number, which is neither an error code nor an error
  pointer for the callers.
\<close>

definition create_dentry_ext2 :: "u32 \<Rightarrow> u32 \<Rightarrow> qstr \<Rightarrow> bool \<Rightarrow> u32" where
  "create_dentry_ext2 sb parent name isdir = ERROR_NOT_IMPLEMENT"

definition expand_ext2 :: "u32 \<Rightarrow> u32 \<Rightarrow> u32" where
  "expand_ext2 node num = ERROR_NOT_IMPLEMENT"

definition clear_ext2 :: "u32 \<Rightarrow> u32 \<Rightarrow> qstr \<Rightarrow> u32" where
  "clear_ext2 node parent name = ERROR_NOT_IMPLEMENT"

definition delete_ext2 :: "u32 \<Rightarrow> u32 \<Rightarrow> qstr \<Rightarrow> u32" where
  "delete_ext2 node parent name = ERROR_NOT_IMPLEMENT"

definition close_ext2 :: "u32 \<Rightarrow> u32" where
  "close_ext2 fp = NO_ERROR"

definition entry_name_ext2 :: "mem \<Rightarrow> u32 \<Rightarrow> qstr" where
  "entry_name_ext2 m p = \<lparr>q_len = ucast (m (p + 6)), q_name = p + 8\<rparr>"

definition entry_inode_ext2 :: "u32 \<Rightarrow> u32 \<Rightarrow> 'z fs_scheme \<Rightarrow> ('z fs_scheme \<times> u32) option" where
  "entry_inode_ext2 sb p s =
     alloc_inode_ext2 sb (load32 (kmem s) p) (load16 (kmem s) (p + 4)) (kmem s (p + 7) = EXT2_FILE_TYPE_DIR) s"

text \<open>The entries of a page; an entry of size zero makes the loop run for ever.\<close>

partial_function (option) find_in_page_ext2 ::
    "(mem \<Rightarrow> qstr \<Rightarrow> bool) \<Rightarrow> mem \<Rightarrow> u32 \<Rightarrow> u32 \<Rightarrow> u32 \<Rightarrow> (u32 option) option" where
  "find_in_page_ext2 same m pdata blksize cur_entry =
     (if \<not> cur_entry - pdata < blksize then Some None
      else if same m (entry_name_ext2 m cur_entry) then Some (Some cur_entry)
      else find_in_page_ext2 same m pdata blksize (cur_entry + load16 m (cur_entry + 4)))"

partial_function (option) lookup_loop_ext2 ::
    "(mem \<Rightarrow> qstr \<Rightarrow> bool) \<Rightarrow> u32 \<Rightarrow> fnode \<Rightarrow> fnode \<Rightarrow> 'z fs_scheme \<Rightarrow> ('z fs_scheme \<times> u32 \<times> u32 option) option" where
  "lookup_loop_ext2 same blksize head p s =
     (if p = head then Some (s, - ERROR_FILE_NOTFOUND, None)
      else do {
        (s, cur_page) \<leftarrow> get_fspage p blksize s;
        if IS_ERR_VALUE cur_page then Some (s, cur_page, None)
        else do {
          pg \<leftarrow> fspages s cur_page;
          found \<leftarrow> find_in_page_ext2 same (kmem s) (p_data pg) blksize (p_data pg);
          if found = None then lookup_loop_ext2 same blksize head (next (flinks s) p) s
          else Some (s, NO_ERROR, found)
        }
      })"

definition lookup_ext2 :: "u32 \<Rightarrow> qstr \<Rightarrow> 'z fs_scheme \<Rightarrow> ('z fs_scheme \<times> u32) option" where
  "lookup_ext2 parent_entry name s =
     do {
       pe \<leftarrow> dentries s parent_entry;
       b \<leftarrow> super_blocks s (d_sb pe);
       let head = IData (d_inode pe);
       (s, error, found) \<leftarrow>
         lookup_loop_ext2 (\<lambda>m cur_name. d_compare (d_op pe) m name cur_name = 0) (s_blocksize b) head (next (flinks s) head) s;
       case found of
         None \<Rightarrow> Some (s, error)
       | Some p \<Rightarrow> do {
           (s, node) \<leftarrow> entry_inode_ext2 (d_sb pe) p s;
           alloc_dentry_ext2 (d_sb pe) node parent_entry name s
         }
     }"

section \<open>Listing a directory\<close>

definition list_entry_ext2 :: "u32 \<Rightarrow> u32 \<Rightarrow> u32 \<Rightarrow> 'z fs_scheme \<Rightarrow> 'z fs_scheme option" where
  "list_entry_ext2 entry sb p s =
     do {
       (s, node) \<leftarrow> entry_inode_ext2 sb p s;
       (s, cur_entry) \<leftarrow> alloc_dentry_ext2 sb node entry (entry_name_ext2 (kmem s) p) s;
       d \<leftarrow> dentries s cur_entry;
       s \<leftarrow> upd_inode (d_inode d) (\<lambda>i. i\<lparr>i_pinned := True\<rparr>) s;
       s \<leftarrow> upd_dentry cur_entry (\<lambda>d. d\<lparr>d_pinned := True\<rparr>) s;
       s \<leftarrow> (if kmem s (p + 7) = EXT2_FILE_TYPE_DIR then upd_inode (d_inode d) (\<lambda>i. i\<lparr>i_isdir := True\<rparr>) s else Some s);
       d_inc_count cur_entry s
     }"

partial_function (option) list_page_ext2 :: "u32 \<Rightarrow> u32 \<Rightarrow> u32 \<Rightarrow> u32 \<Rightarrow> u32 \<Rightarrow> 'z fs_scheme \<Rightarrow> 'z fs_scheme option" where
  "list_page_ext2 entry sb pdata blksize cur_entry s =
     (if \<not> cur_entry - pdata < blksize then Some s
      else do {
        s \<leftarrow> list_entry_ext2 entry sb cur_entry s;
        list_page_ext2 entry sb pdata blksize (cur_entry + load16 (kmem s) (cur_entry + 4)) s
      })"

partial_function (option) list_loop_ext2 ::
    "u32 \<Rightarrow> u32 \<Rightarrow> u32 \<Rightarrow> fnode \<Rightarrow> fnode \<Rightarrow> 'z fs_scheme \<Rightarrow> ('z fs_scheme \<times> u32) option" where
  "list_loop_ext2 entry sb blksize head p s =
     (if p = head then Some (s, entry)
      else do {
        (s, cur_page) \<leftarrow> get_fspage p blksize s;
        if IS_ERR_VALUE cur_page then Some (s, cur_page)
        else do {
          pg \<leftarrow> fspages s cur_page;
          s \<leftarrow> list_page_ext2 entry sb (p_data pg) blksize (p_data pg) s;
          list_loop_ext2 entry sb blksize head (next (flinks s) p) s
        }
      })"

definition list_dir_ext2 :: "u32 \<Rightarrow> 'z fs_scheme \<Rightarrow> ('z fs_scheme \<times> u32) option" where
  "list_dir_ext2 fp s =
     do {
       f \<leftarrow> files s fp;
       e \<leftarrow> dentries s (f_dentry f);
       b \<leftarrow> super_blocks s (d_sb e);
       let head = IData (d_inode e);
       list_loop_ext2 (f_dentry f) (d_sb e) (s_blocksize b) head (next (flinks s) head) s
     }"

section \<open>The super block\<close>

definition root_ext2 :: "u32 \<Rightarrow> 'z fs_scheme \<Rightarrow> ('z fs_scheme \<times> u32) option" where
  "root_ext2 sb s =
     do {
       (s, root_inode) \<leftarrow> alloc_inode_ext2 sb 2 0 True s;
       if IS_ERR_VALUE root_inode then Some (s, root_inode)
       else do {
         s \<leftarrow> upd_inode root_inode (\<lambda>i. i\<lparr>i_pinned := True\<rparr>) s;
         (s, root_dentry) \<leftarrow> alloc_dentry_ext2 sb root_inode 0 \<lparr>q_len = 1, q_name = addr_of s ''/''\<rparr> s;
         if IS_ERR_VALUE root_dentry then Some (s, root_dentry)
         else do {
           s \<leftarrow> upd_dentry root_dentry (\<lambda>d. d\<lparr>d_pinned := True\<rparr>) s;
           b \<leftarrow> super_blocks s sb;
           Some (s\<lparr>super_blocks := (super_blocks s)(sb := Some (b\<lparr>s_root := root_dentry,
                   s_mnt := \<lparr>mnt_parent = 0, mnt_mntpoint = 0, mnt_sb = sb\<rparr>\<rparr>))\<rparr>, sb)
         }
       }
     }"

text \<open>
  The buffer has the size of one sector; two are read into it.  A shift by the width of the word or
  more is undefined.  The list node of the super block is
  its own head until \<open>read_MBR\<close> links it.
\<close>

definition get_sb_ext2 :: "u32 \<Rightarrow> 'z fs_scheme \<Rightarrow> ('z fs_scheme \<times> u32) option" where
  "get_sb_ext2 base_sec s =
     (let (s, buf) = kmalloc (SECTOR_SIZE * 1) s
      in do {
        (s, ret) \<leftarrow>
          (if buf = 0 then Some (s, - ERROR_NO_MEMORY)
           else let (s, fs_info) = kmalloc sizeof_fs_info_ext2 s
           in if fs_info = 0 then Some (s, - ERROR_NO_MEMORY)
              else do {
                (s, ok) \<leftarrow> sd_read_block buf (base_sec + 2) 2 s;
                if \<not> ok then Some (s, - ERROR_READ_SDCARD)
                else if 32 \<le> load32 (kmem s) (buf + 24) then None
                else let m = kmem s;
                         shift = load32 m (buf + 24);
                         gdt = (if shift = 0 \<or> shift = 1 then base_sec + 4
                                else base_sec + drop_bit SECTOR_SHIFT (push_bit (unat shift) BLOCK_SIZE_EXT2));
                         s = s\<lparr>ext2_infos := (ext2_infos s)(fs_info := Some \<lparr>info_1st_sb_sec = base_sec + 2,
                               info_1st_gdt_sec = gdt, info_inode_pgroup = load32 m (buf + 40),
                               info_inode_size = load16 m (buf + 88)\<rparr>)\<rparr>;
                         (s, sb) = kmalloc sizeof_super_block s
                in if sb = 0 then Some (s, - ERROR_NO_MEMORY)
                   else let s = s\<lparr>super_blocks := (super_blocks s)(sb := Some \<lparr>s_type = EXT2,
                                s_blocksize = push_bit (unat shift) BLOCK_SIZE_EXT2,
                                s_blockbits = of_nat SECTOR_SHIFT + 1 + shift, s_basesec = base_sec, s_root = 0,
                                s_op = EXT2, s_mnt = \<lparr>mnt_parent = 0, mnt_mntpoint = 0, mnt_sb = 0\<rparr>,
                                s_info_fat32 = fs_info\<rparr>)\<rparr>
                        in root_ext2 sb (upd_flinks (INIT_LIST_HEAD (SbNode sb)) s)
              });
        s \<leftarrow> kfree buf s;
        Some (s, ret)
      })"

section \<open>The block map read from a working card\<close>

text \<open>The \<open>i\<close>-th word of the block that starts at sector \<open>x\<close>.\<close>

definition disk_word :: "sd_card \<Rightarrow> u32 \<Rightarrow> nat \<Rightarrow> u32" where
  "disk_word d x i = sectors d (x + of_nat (i div 128)) (i mod 128)"

lemma index_word_ok:
  assumes w: "sd_working (sd s)" and i: "unat idx < 128 * unat n" and n: "unat n \<le> 8"
  shows "\<exists>t. index_word data addr n idx s = Some (t, disk_word (sd s) addr (unat idx)) \<and> io_done s t \<and>
    sectors (sd t) = sectors (sd s)"
proof -
  have "unat n \<le> 2 ^ 23" using n by simp
  then obtain t where t: "sd_read_block data addr n s = Some (t, True)" "io_done s t" "sectors (sd t) = sectors (sd s)"
    "kmem t = (\<lambda>a. if unat (a - data) < 512 * unat n then disk_byte (sd s) addr (unat (a - data)) else kmem s a)"
    using sd_read_block_ok [OF w, of n data addr] by auto
  have "load32 (kmem t) (data + push_bit 2 idx) = disk_word (sd s) addr (unat idx)"
  proof (rule of_byte_eqI)
    fix j :: nat assume j: "j < 4"
    have a: "push_bit 2 idx = of_nat (4 * unat idx)" by (simp add: push_bit_eq_mult)
    have e: "data + push_bit 2 idx + of_nat j - data = of_nat (4 * unat idx + j)" by (simp add: a)
    have u: "unat (of_nat (4 * unat idx + j) :: u32) = 4 * unat idx + j"
      using i n j by (simp add: unat_of_nat del: of_nat_add of_nat_mult)
    have "kmem t (data + push_bit 2 idx + of_nat j) = disk_byte (sd s) addr (4 * unat idx + j)"
      using i j by (simp only: t(4) e u) simp
    also have "\<dots> = byte_of (disk_word (sd s) addr (unat idx)) j"
    proof -
      let ?x = "4 * unat idx + j"
      have q: "?x div 4 = unat idx" "?x mod 4 = j" using j by simp_all
      have "?x div 512 = ?x div 4 div 128" "?x mod 512 = 4 * (?x div 4 mod 128) + ?x mod 4"
        using div_mult2_eq [of ?x 4 128] mod_mult2_eq [of ?x 4 128] by simp_all
      then have "?x div 512 = unat idx div 128" "?x mod 512 = 4 * (unat idx mod 128) + j" unfolding q .
      moreover have "(4 * (unat idx mod 128) + j) div 4 = unat idx mod 128" "(4 * (unat idx mod 128) + j) mod 4 = j" using j by simp_all
      ultimately have "?x div 512 = unat idx div 128" "?x mod 512 div 4 = unat idx mod 128" "?x mod 512 mod 4 = j" by metis+
      then show ?thesis by (simp add: disk_byte_def sec_byte_def disk_word_def)
    qed
    finally show "byte_of (load32 (kmem t) (data + push_bit 2 idx)) j = byte_of (disk_word (sd s) addr (unat idx)) j"
      using j by (simp only: byte_of_load32)
  qed
  then show ?thesis using t by (simp add: index_word_def)
qed

text \<open>
  The block map as the code reads it; \<open>pa\<close> are the fifteen addresses of the inode, \<open>n\<close> the number of
  addresses in a block.  On the third level the code takes the quotient where the remainder is needed.
\<close>

definition ext2_block :: "sd_card \<Rightarrow> (nat \<Rightarrow> u32) \<Rightarrow> nat \<Rightarrow> nat \<Rightarrow> u32" where
  "ext2_block d pa n k =
     (if k < 12 then pa k
      else let k = k - 12
      in if k < n then disk_word d (pa 12) k
         else let k = k - n
         in if k < n * n then disk_word d (disk_word d (pa 13) (k div n)) (k mod n)
            else let k = k - n * n
            in disk_word d (disk_word d (disk_word d (pa 14) (k div (n * n))) 0) (k div (n * n)))"

lemma sint_less_unat: "unat x < 2 ^ 31 \<Longrightarrow> unat y < 2 ^ 31 \<Longrightarrow> sint x < sint y \<longleftrightarrow> unat x < unat y" for x y :: u32
  using uint_le_unat [of y x] by (simp add: sint_small not_le [symmetric])

lemma two_words:
  assumes w: "sd_working (sd s)" and "unat i < 128 * unat n" and "unat j < 128 * unat n" and "unat n \<le> 8"
  shows "\<exists>t. (index_word data addr n i s \<bind> (\<lambda>(s, addr). index_word data addr n j s)) =
      Some (t, disk_word (sd s) (disk_word (sd s) addr (unat i)) (unat j)) \<and> io_done s t \<and> sectors (sd t) = sectors (sd s)"
proof -
  obtain t where t: "index_word data addr n i s = Some (t, disk_word (sd s) addr (unat i))" "io_done s t" "sectors (sd t) = sectors (sd s)"
    using index_word_ok [OF assms(1,2,4)] by blast
  have "sd_working (sd t)" using t(2) by (simp add: io_done_def)
  from index_word_ok [OF this assms(3,4), of data "disk_word (sd s) addr (unat i)"] t show ?thesis
    by (auto simp: disk_word_def intro: io_done_trans)
qed

lemma index_ok:
  assumes n: "unat num = 128 * unat n" "unat n \<le> 8" "0 < unat n" and w: "sd_working (sd s)" and k: "unat k < 12 + unat num + unat num ^ 2 + unat num ^ 3"
  shows "\<exists>t. (if sint k < 12 then Some (s, block k)
          else let k = k - 12 in
          if sint k < sint num then index_word data (block 12) n k s
          else let k = k - num in
          if sint k < sint (num * num)
          then do {
            (s, addr) \<leftarrow> index_word data (block 13) n (k div num) s;
            index_word data addr n (k mod num) s
          }
          else let k = k - num * num in
          if sint k < sint (num * num * num)
          then do {
            (s, addr) \<leftarrow> index_word data (block 14) n (k div (num * num)) s;
            (s, addr) \<leftarrow> index_word data addr n (k div (num * num) div num) s;
            index_word data addr n (k div (num * num) mod num) s
          }
          else None) = Some (t, ext2_block (sd s) (\<lambda>i. block (of_nat i)) (unat num) (unat k)) \<and> (t = s \<or> io_done s t) \<and> sectors (sd t) = sectors (sd s)"
proof -
  let ?N = "unat num"
  have N: "?N \<le> 1024" "0 < ?N" using n by simp_all
  have sq: "?N * ?N \<le> 1024 * 1024" using N by (intro mult_le_mono) simp_all
  have cu: "?N * ?N * ?N \<le> 1024 * 1024 * 1024" using N sq by (intro mult_le_mono) simp_all
  have u: "unat (num * num) = ?N * ?N" "unat (num * num * num) = ?N * ?N * ?N"
    using sq cu by (simp_all add: unat_word_ariths)
  have k31: "unat k < 2 ^ 31" using k sq cu N by (simp add: power2_eq_square power3_eq_cube)
  have c12: "sint k < 12 \<longleftrightarrow> unat k < 12" using sint_less_unat [OF k31, of 12] by simp
  show ?thesis
  proof (cases "unat k < 12")
    case True
    then show ?thesis using c12 by (simp add: ext2_block_def)
  next
    case False
    define k1 where "k1 = k - 12"
    have k1: "unat k1 = unat k - 12" using False by (simp add: k1_def unat_sub word_le_nat_alt)
    have c1: "sint k1 < sint num \<longleftrightarrow> unat k1 < ?N" using k31 k1 N by (intro sint_less_unat) simp_all
    show ?thesis
    proof (cases "unat k1 < ?N")
      case True
      then show ?thesis using False c12 c1 index_word_ok [OF w _ n(2), of k1 data "block 12"] n(1) k1
        by (simp add: Let_def k1_def [symmetric] ext2_block_def) blast
    next
      case F1: False
      define k2 where "k2 = k1 - num"
      have k2: "unat k2 = unat k1 - ?N" using F1 by (simp add: k2_def unat_sub word_le_nat_alt)
      have c2: "sint k2 < sint (num * num) \<longleftrightarrow> unat k2 < ?N * ?N"
        using k31 k1 k2 sq u by (subst sint_less_unat) simp_all
      show ?thesis
      proof (cases "unat k2 < ?N * ?N")
        case True
        have "unat (k2 div num) < 128 * unat n" "unat (k2 mod num) < 128 * unat n"
          using True N by (simp_all add: unat_div unat_mod flip: n(1)) (simp add: less_mult_imp_div_less)
        from two_words [OF w this n(2), of data "block 13"] show ?thesis using False F1 True c12 c1 c2 k1 k2
          by (simp add: Let_def k1_def [symmetric] k2_def [symmetric] ext2_block_def unat_div unat_mod) blast
      next
        case F2: False
        define k3 where "k3 = k2 - num * num"
        have k3: "unat k3 = unat k2 - ?N * ?N" using F2 u by (simp add: k3_def unat_sub word_le_nat_alt)
        have l3: "unat k3 < ?N * ?N * ?N" using k k1 k2 k3 False F1 F2 by (simp add: power2_eq_square power3_eq_cube)
        then have c3: "sint k3 < sint (num * num * num)" using cu u by (subst sint_less_unat) simp_all
        define q where "q = k3 div (num * num)"
        have q: "unat q = unat k3 div (?N * ?N)" "unat q < ?N"
          using l3 u by (simp_all add: q_def unat_div less_mult_imp_div_less mult.commute mult.assoc)
        have q0: "unat (q div num) = 0" "unat (q mod num) = unat q" using q(2) by (simp_all add: unat_div unat_mod)
        obtain t where t: "index_word data (block 14) n q s = Some (t, disk_word (sd s) (block 14) (unat q))" "io_done s t"
          "sectors (sd t) = sectors (sd s)"
          using index_word_ok [OF w _ n(2), of q data "block 14"] q(2) n(1) by auto
        have wt: "sd_working (sd t)" using t(2) by (simp add: io_done_def)
        obtain z where z: "(index_word data (disk_word (sd s) (block 14) (unat q)) n (q div num) t \<bind> (\<lambda>(s, addr). index_word data addr n (q mod num) s)) =
            Some (z, disk_word (sd t) (disk_word (sd t) (disk_word (sd s) (block 14) (unat q)) 0) (unat q))" "io_done t z"
            "sectors (sd z) = sectors (sd t)"
          using two_words [OF wt _ _ n(2), of "q div num" "q mod num" data "disk_word (sd s) (block 14) (unat q)"] q(2) q0 n(1,3) by auto
        have "io_done s z" using t(2) z(2) by (rule io_done_trans)
        then show ?thesis using False F1 F2 c12 c1 c2 c3 k1 k2 k3 t z q(1)
          by (simp add: Let_def k1_def [symmetric] k2_def [symmetric] k3_def [symmetric] q_def [symmetric] ext2_block_def disk_word_def)
      qed
    qed
  qed
qed

section \<open>Properties\<close>

text \<open>
  C35.  On a working card, with memory for one block, the address of a block of a file is the one that
  the direct addresses and the index blocks of the first two levels give.  On the third level the
  code reads the first address of the second index block and uses the number of that block again in
  the last one, so it finds the right block only when the offset in the level is zero.
\<close>

theorem find_page_sec_ext2_map:
  assumes "heap s R" and "sd_working (sd s)" and "inodes s node = Some i" and "super_blocks s (i_sb i) = Some b"
    and "s_blocksize b = 1024 \<or> s_blocksize b = 2048 \<or> s_blocksize b = 4096"
    and "kmalloc (s_blocksize b) s = (u, data)" and "data \<noteq> 0" and "n = unat (s_blocksize b) div 4"
    and "unat k < 12 + n + n ^ 2 + n ^ 3"
  shows "\<exists>t. find_page_sec_ext2 node k pageaddr s =
      Some (t, ext2_block (sd s) (\<lambda>i. load32 (kmem s) (pageaddr + 4 * of_nat i)) n (unat k)) \<and>
    heap t R \<and> sectors (sd t) = sectors (sd s)"
proof -
  let ?bs = "s_blocksize b"
  let ?n = "drop_bit SECTOR_SHIFT ?bs" and ?num = "drop_bit 2 ?bs"
  have n: "unat ?num = 128 * unat ?n" "unat ?n \<le> 8" "0 < unat ?n" "unat ?num = n"
    using assms(5,8) by (auto simp: SECTOR_SHIFT_def unat_drop_bit_u32)
  have lim: "unat ?bs \<le> 2 ^ 32 - 2 ^ 12" using assms(5) by auto
  have u: "sd u = sd s" "kmem u = kmem s" using kmalloc_fs [of ?bs s] assms(6) by auto
  obtain l where l: "heap u (insert (unat data, l) R)" "(unat data, l) \<notin> R"
    using km.alloc_region [OF assms(1) lim assms(6,7)] by blast
  let ?block = "\<lambda>k. load32 (kmem u) (pageaddr + push_bit 2 k)"
  have w: "sd_working (sd u)" using assms(2) u(1) by simp
  have k: "unat k < 12 + unat ?num + unat ?num ^ 2 + unat ?num ^ 3" using assms(9) n(4) by simp
  from index_ok [OF n(1-3) w k, where data = data and block = ?block] obtain t where
    t: "find_page_sec_ext2 node k pageaddr s = kfree data t \<bind> (\<lambda>t. Some (t, ext2_block (sd u) (\<lambda>i. ?block (of_nat i)) n (unat k)))"
      "t = u \<or> io_done u t" "sectors (sd t) = sectors (sd u)"
    using assms(3,4,6,7) n(4) by (auto simp: find_page_sec_ext2_def Let_def)
  have "heap t (insert (unat data, l) R)" using t(2) io_done_heap [of u t] l(1) by auto
  moreover have "insert (unat data, l) R - {(unat data, l)} = R" using l(2) by blast
  ultimately obtain v where v: "kfree data t = Some v" "heap v R"
    using km.free_region [of t "insert (unat data, l) R" data l] by auto
  have "sectors (sd v) = sectors (sd t)" using kfree_fs [OF v(1)] by simp
  then show ?thesis using t(1,3) v u by (simp add: push_bit_eq_mult mult.commute)
qed

text \<open>A card whose sector \<open>x\<close> holds the words \<open>256 * x + 1\<close>, \<open>256 * x + 2\<close> and so on.\<close>

definition demo_ext2 :: fs where
  "demo_ext2 = demo_fs\<lparr>sd := demo_card\<lparr>sectors := \<lambda>x i. 256 * x + of_nat i + 1\<rparr>,
     super_blocks := (\<lambda>_. None)(0x500 \<mapsto> \<lparr>s_type = EXT2, s_blocksize = 1024, s_blockbits = 10, s_basesec = 0, s_root = 0x800,
       s_op = EXT2, s_mnt = \<lparr>mnt_parent = 0, mnt_mntpoint = 0, mnt_sb = 0x500\<rparr>, s_info_fat32 = 0\<rparr>)\<rparr>"

lemma heap_super_blocks [simp]:
  "heap (s\<lparr>super_blocks := x\<rparr>) R = heap s R" "kheap (s\<lparr>super_blocks := x\<rparr>) f A = kheap s f A"
  "zone (s\<lparr>super_blocks := x\<rparr>) = zone s"
  "kheap (s\<lparr>sd := y\<rparr>) f A = kheap s f A" "zone (s\<lparr>sd := y\<rparr>) = zone s"
  by (simp_all add: heap_def kheap_def kinv_def kobjs_def kblocks_def page_objs_def page_list_def [abs_def] slab_pages_def
      buddy_full_def buddy_inv_def bcore_def coalesced_def allocd_def zone_def zone_ok_def Let_def)

lemma demo_ext2_words:
  "load32 (kmem demo_ext2) a = 0" "disk_word (sd demo_ext2) x i = 256 * (x + of_nat (i div 128)) + of_nat (i mod 128) + 1"
proof -
  have "kmem demo_ext2 = (\<lambda>_. 0)"
    by (simp add: demo_ext2_def demo_fs_def demo_disk_def disk.defs fs.defs pc.defs upd_flinks_def)
  then show "load32 (kmem demo_ext2) a = 0" by (simp add: load32_def load16_def)
  show "disk_word (sd demo_ext2) x i = 256 * (x + of_nat (i div 128)) + of_nat (i mod 128) + 1"
    by (simp add: disk_word_def demo_ext2_def)
qed

theorem find_page_sec_ext2_map_witness:
  "(\<exists>t. find_page_sec_ext2 0x700 13 0x300 demo_ext2 = Some (t, 2)) \<and>
   (\<exists>t. find_page_sec_ext2 0x700 66061 0x300 demo_ext2 = Some (t, 65793)) \<and>
   disk_word (sd demo_ext2) (disk_word (sd demo_ext2) (disk_word (sd demo_ext2) 0 0) 1) 1 = 66050"
proof -
  have H: "heap demo_ext2 {}" using demo_fs_heap(1) by (simp add: demo_ext2_def)
  obtain f where "kheap demo_fs f {}" using demo_fs_heap(3) by blast
  then have K: "kheap demo_ext2 f {}" by (simp add: demo_ext2_def)
  have Z: "16 \<in> zone demo_ext2" using demo_fs_heap(2) by (simp add: demo_ext2_def)
  obtain u data where k: "kmalloc 1024 demo_ext2 = (u, data)" by fastforce
  have nz: "data \<noteq> 0" using kmalloc_small_ok [OF K _ Z, of 1024] k by simp
  have i: "inodes demo_ext2 0x700 = Some (demo_inode 72)" by (simp add: demo_ext2_def demo_fs_def disk.defs fs.defs upd_flinks_def)
  obtain b where b: "super_blocks demo_ext2 (i_sb (demo_inode 72)) = Some b" "s_blocksize b = 1024"
    by (simp add: demo_ext2_def demo_inode_def)
  have W: "sd_working (sd demo_ext2)" using demo_card_working by (simp add: demo_ext2_def sd_working_def)
  note m = find_page_sec_ext2_map [OF H W i b(1), of u data 256, unfolded b(2)]
  have "\<exists>t. find_page_sec_ext2 0x700 13 0x300 demo_ext2 = Some (t, ext2_block (sd demo_ext2) (\<lambda>_. 0) 256 13)"
    "\<exists>t. find_page_sec_ext2 0x700 66061 0x300 demo_ext2 = Some (t, ext2_block (sd demo_ext2) (\<lambda>_. 0) 256 66061)"
    using m [of 13 "0x300"] m [of 66061 "0x300"] k nz by (auto simp: demo_ext2_words)
  then show ?thesis by (simp add: ext2_block_def demo_ext2_words)
qed

end
