(* ===== verification/Fat_Dir.thy ===== *)
theory Fat_Dir
  imports Ext2
begin

text \<open>
  Directories of a FAT32 volume, \<^verbatim>\<open>src/kernel/fs/fat/fat.c\<close>: the scan over the 32-byte entries of a
  directory, which five functions make with different tests, looking a name up, emptying and
  deleting a file, listing a directory and writing the size of a closed file; calls through the
  operation tables go to the FAT32 or the ext2 function.
\<close>

section \<open>Directory entries\<close>

definition SFN_MARK_DELETED :: u8 where "SFN_MARK_DELETED = 0xE5"
definition SFN_MARK_UNUSED :: u8 where "SFN_MARK_UNUSED = 0"
definition SFN_ATTR_WRITE :: u8 where "SFN_ATTR_WRITE = 0"
definition SFN_ATTR_SYSTEM :: u8 where "SFN_ATTR_SYSTEM = 4"
definition SFN_ATTR_LABEL :: u8 where "SFN_ATTR_LABEL = 8"
definition SFN_ATTR_DIR :: u8 where "SFN_ATTR_DIR = 0x10"
definition SFN_ATTR_LFN :: u8 where "SFN_ATTR_LFN = 0x0F"
definition sizeof_sfn_entry :: u32 where "sizeof_sfn_entry = 32"

lemmas sfn_consts [os_const] = SFN_MARK_DELETED_def SFN_MARK_UNUSED_def SFN_ATTR_WRITE_def SFN_ATTR_SYSTEM_def
  SFN_ATTR_LABEL_def SFN_ATTR_DIR_def SFN_ATTR_LFN_def sizeof_sfn_entry_def

definition sfn_mark :: "mem \<Rightarrow> u32 \<Rightarrow> u8" where "sfn_mark m p = m p"
definition sfn_attr :: "mem \<Rightarrow> u32 \<Rightarrow> u8" where "sfn_attr m p = m (p + 11)"
definition sfn_1stclu :: "mem \<Rightarrow> u32 \<Rightarrow> u32" where
  "sfn_1stclu m p = load16 m (p + 26) + push_bit 16 (load16 m (p + 20))"
definition sfn_file_size :: "mem \<Rightarrow> u32 \<Rightarrow> u32" where "sfn_file_size m p = load32 m (p + 28)"

definition lookup_skips :: "u8 \<Rightarrow> bool" where
  "lookup_skips attr \<longleftrightarrow> attr = SFN_ATTR_LABEL \<or> attr = SFN_ATTR_LFN"

definition file_skips :: "u8 \<Rightarrow> bool" where
  "file_skips attr \<longleftrightarrow> attr = SFN_ATTR_LFN \<or> attr AND SFN_ATTR_LABEL \<noteq> 0 \<or> attr AND SFN_ATTR_SYSTEM \<noteq> 0"

text \<open>
  The loops over the entries of one page, \<open>n\<close> being the number of entries left in it, and over the
  pages of a directory.  \<open>same\<close> compares the name of an entry with the one that is looked for.
\<close>

primrec scan_page ::
    "(u8 \<Rightarrow> bool) \<Rightarrow> (mem \<Rightarrow> qstr \<Rightarrow> bool) \<Rightarrow> nat \<Rightarrow> u32 \<Rightarrow> 'z fs_scheme \<Rightarrow> ('z fs_scheme \<times> u32 option) option" where
  "scan_page skips same 0 sfn_item s = Some (s, None)"
| "scan_page skips same (Suc n) sfn_item s =
     (if sfn_mark (kmem s) sfn_item = SFN_MARK_UNUSED then Some (s, None)
      else if sfn_mark (kmem s) sfn_item = SFN_MARK_DELETED then scan_page skips same n (sfn_item + sizeof_sfn_entry) s
      else if skips (sfn_attr (kmem s) sfn_item) then scan_page skips same n (sfn_item + sizeof_sfn_entry) s
      else do {
        (s, cur_name) \<leftarrow> convert_8dot3_to_normal sfn_item s;
        if same (kmem s) cur_name then Some (s, Some sfn_item)
        else scan_page skips same n (sfn_item + sizeof_sfn_entry) s
      })"

definition entries_per_block :: "u32 \<Rightarrow> nat" where
  "entries_per_block blksize = (unat blksize + 31) div 32"

partial_function (option) scan_dir ::
    "(u8 \<Rightarrow> bool) \<Rightarrow> (mem \<Rightarrow> qstr \<Rightarrow> bool) \<Rightarrow> u32 \<Rightarrow> fnode \<Rightarrow> fnode \<Rightarrow> 'z fs_scheme \<Rightarrow>
     ('z fs_scheme \<times> u32 \<times> (u32 \<times> u32) option) option" where
  "scan_dir skips same blksize head p s =
     (if p = head then Some (s, NO_ERROR, None)
      else do {
        (s, cur_page) \<leftarrow> get_fspage p blksize s;
        if IS_ERR_VALUE cur_page then Some (s, cur_page, None)
        else do {
          pg \<leftarrow> fspages s cur_page;
          (s, found) \<leftarrow> scan_page skips same (entries_per_block blksize) (p_data pg) s;
          if found = None then scan_dir skips same blksize head (next (flinks s) p) s
          else Some (s, NO_ERROR, Some (cur_page, the found))
        }
      })"

definition find_entry ::
    "(u8 \<Rightarrow> bool) \<Rightarrow> (mem \<Rightarrow> qstr \<Rightarrow> bool) \<Rightarrow> u32 \<Rightarrow> u32 \<Rightarrow> 'z fs_scheme \<Rightarrow>
     ('z fs_scheme \<times> u32 \<times> (u32 \<times> u32) option) option" where
  "find_entry skips same sb dir s =
     do {
       b \<leftarrow> super_blocks s sb;
       scan_dir skips same (s_blocksize b) (IData dir) (next (flinks s) (IData dir)) s
     }"

text \<open>The change of an entry that was found, and writing its page back.\<close>

definition change_entry :: "u32 \<Rightarrow> (mem \<Rightarrow> mem) \<Rightarrow> 'z fs_scheme \<Rightarrow> ('z fs_scheme \<times> u32) option" where
  "change_entry cur_page g s =
     do { s \<leftarrow> upd_fspage cur_page (\<lambda>p. p\<lparr>p_dirt := True\<rparr>) (upd_mem g s); flush_fspage cur_page s }"

section \<open>Looking a name up\<close>

definition dotdot :: "'z fs_scheme \<Rightarrow> qstr" where
  "dotdot s = \<lparr>q_len = 2, q_name = addr_of s ''..''\<rparr>"

text \<open>
  The entry for \<open>..\<close> gets the name that the entry with the same cluster has in the directory it leads
  to.  The loop reads that directory as a file; a read that fails leaves the position where it is.
\<close>

partial_function (option) parent_name_loop :: "u32 \<Rightarrow> u32 \<Rightarrow> u32 \<Rightarrow> 'z fs_scheme \<Rightarrow> 'z fs_scheme option" where
  "parent_name_loop cur first_clu ret_entry s =
     do {
       f \<leftarrow> files s cur;
       if eof f then Some s
       else do {
         let sfn = addr_of s ''sfn'';
         (s, _) \<leftarrow> fs_read cur sfn sizeof_sfn_entry s;
         if sfn_1stclu (kmem s) sfn = first_clu
         then do {
           (s, name) \<leftarrow> convert_8dot3_to_normal sfn s;
           upd_dentry ret_entry (\<lambda>d. d\<lparr>d_name := name\<rparr>) s
         }
         else parent_name_loop cur first_clu ret_entry s
       }
     }"

text \<open>
  Opening for reading never clears and closing an unchanged file never writes its entry.  The message that
  the code prints for \<^verbatim>\<open>..\<close> is not modelled.
\<close>

definition read_dentry_from_sfn :: "u32 \<Rightarrow> u32 \<Rightarrow> qstr \<Rightarrow> 'z fs_scheme \<Rightarrow> ('z fs_scheme \<times> u32) option" where
  "read_dentry_from_sfn sfn_item parent_entry name s =
     do {
       pe \<leftarrow> dentries s parent_entry;
       let sb = d_sb pe;
       b \<leftarrow> super_blocks s sb;
       fi \<leftarrow> fat32_infos s (s_info_fat32 b);
       let first_clu = sfn_1stclu (kmem s) sfn_item;
       cached \<leftarrow> lookup_i_cache (CLU_TO_SEC (info_clu_base fi) first_clu (s_blockbits b)) s;
       (s, new_inode) \<leftarrow>
         (if cached = 0
          then alloc_inode_fat32 sb first_clu (sfn_file_size (kmem s) sfn_item)
                 (sfn_attr (kmem s) sfn_item = SFN_ATTR_DIR) s
          else Some (s, cached));
       if IS_ERR_VALUE new_inode then Some (s, new_inode)
       else do {
         (s, ret_entry) \<leftarrow> alloc_dentry_fat32 sb new_inode parent_entry name s;
         if IS_ERR_VALUE ret_entry then Some (s, ret_entry)
         else do {
           d \<leftarrow> dentries s ret_entry;
           if compare_fat32 (kmem s) (d_name d) (dotdot s) = 0
           then do {
             (s, cur) \<leftarrow> dentry_open_with (\<lambda>_ _. None) ret_entry F_MODE_READ s;
             s \<leftarrow> parent_name_loop cur first_clu ret_entry s;
             (s, _) \<leftarrow> fs_close_with (\<lambda>_ _. None) cur s;
             d \<leftarrow> dentries s ret_entry;
             Some (s, if compare_fat32 (kmem s) (d_name d) (dotdot s) = 0 then - ERROR_FILE_NOTFOUND else ret_entry)
           }
           else Some (s, ret_entry)
         }
       }
     }"

definition lookup_fat32 :: "u32 \<Rightarrow> qstr \<Rightarrow> 'z fs_scheme \<Rightarrow> ('z fs_scheme \<times> u32) option" where
  "lookup_fat32 parent_entry name s =
     do {
       pe \<leftarrow> dentries s parent_entry;
       (s, error, found) \<leftarrow>
         find_entry lookup_skips (\<lambda>m cur_name. d_compare (d_op pe) m name cur_name = 0) (d_sb pe) (d_inode pe) s;
       if IS_ERR_VALUE error then Some (s, error)
       else case found of
              None \<Rightarrow> Some (s, - ERROR_FILE_NOTFOUND)
            | Some (_, sfn_item) \<Rightarrow> read_dentry_from_sfn sfn_item parent_entry name s
     }"

definition real_lookup :: "nameidata \<Rightarrow> 'z fs_scheme \<Rightarrow> ('z fs_scheme \<times> u32) option" where
  "real_lookup nd s =
     do {
       e \<leftarrow> dentries s (nd_dentry nd);
       i \<leftarrow> inodes s (d_inode e);
       case i_iop i of
         FAT32 \<Rightarrow> lookup_fat32 (nd_dentry nd) (nd_cur_name nd) s
       | EXT2 \<Rightarrow> lookup_ext2 (nd_dentry nd) (nd_cur_name nd) s
     }"

definition get_dentry_parent :: "u32 \<Rightarrow> 'z fs_scheme \<Rightarrow> ('z fs_scheme \<times> u32) option" where
  "get_dentry_parent entry s =
     do {
       e \<leftarrow> dentries s entry;
       if d_parent e = 0
       then real_lookup \<lparr>nd_dentry = entry, nd_mnt = d_sb e, nd_cur_name = dotdot s\<rparr> s
       else Some (s, d_parent e)
     }"

section \<open>Emptying and deleting a file\<close>

text \<open>The loop that removes the blocks behind the first one; the pages of the blocks stay cached.\<close>

partial_function (option) clear_maps :: "u32 \<Rightarrow> fnode \<Rightarrow> fnode \<Rightarrow> 'z fs_scheme \<Rightarrow> 'z fs_scheme option" where
  "clear_maps node remained cur s =
     (if cur = remained \<or> cur = IData node then Some s
      else do {
        m \<leftarrow> map_at cur;
        let p = prev (flinks s) cur;
        let s = upd_flinks (list_del cur) s;
        s \<leftarrow> kfree m s;
        let s = s\<lparr>fs_maps := (fs_maps s)(m := None)\<rparr>;
        clear_maps node remained (next (flinks s) p) s
      })"

definition clear_fat32 :: "u32 \<Rightarrow> u32 \<Rightarrow> qstr \<Rightarrow> 'z fs_scheme \<Rightarrow> ('z fs_scheme \<times> u32) option" where
  "clear_fat32 node parent name s =
     do {
       s \<leftarrow> i_inc_count node s;
       i \<leftarrow> inodes s node;
       let sb = i_sb i;
       b \<leftarrow> super_blocks s sb;
       fi \<leftarrow> fat32_infos s (s_info_fat32 b);
       let clu_num = SEC_TO_CLU (info_clu_base fi) (i_ino i) (s_blockbits b);
       (s, next_clu) \<leftarrow> read_fat (info_fat_sec fi) clu_num s;
       (s, error, min_clu) \<leftarrow>
         (if next_clu = FAT_ITEM_END then Some (s, NO_ERROR, 0xFFFFFFFF)
          else do {
            (s, error) \<leftarrow> write_fat (info_fat_sec fi) clu_num FAT_ITEM_END s;
            if IS_ERR_VALUE error then Some (s, error, 0xFFFFFFFF)
            else free_chain (info_fat_sec fi) next_clu 0xFFFFFFFF s
          });
       (s, error) \<leftarrow>
         (if IS_ERR_VALUE error then Some (s, error)
          else do {
            (s, _) \<leftarrow> (if min_clu < info_next_clu fi then update_next_clu sb min_clu s else Some (s, NO_ERROR));
            pe \<leftarrow> dentries s parent;
            (s, scan_error, found) \<leftarrow>
              find_entry file_skips (\<lambda>m cur_name. compare_fat32 m cur_name name = 0) sb (d_inode pe) s;
            if IS_ERR_VALUE scan_error then Some (s, scan_error)
            else do {
              (s, error) \<leftarrow>
                (case found of
                   None \<Rightarrow> Some (s, error)
                 | Some (cur_page, sfn_item) \<Rightarrow> change_entry cur_page (store32 (sfn_item + 28) 0) s);
              s \<leftarrow> upd_inode node (\<lambda>i. i\<lparr>i_blocks := 1, i_size := 0\<rparr>) s;
              let remained = next (flinks s) (IData node);
              s \<leftarrow> clear_maps node remained (next (flinks s) remained) s;
              Some (s, error)
            }
          });
       s \<leftarrow> i_dec_count node s;
       Some (s, error)
     }"

definition delete_fat32 :: "u32 \<Rightarrow> u32 \<Rightarrow> qstr \<Rightarrow> 'z fs_scheme \<Rightarrow> ('z fs_scheme \<times> u32) option" where
  "delete_fat32 node parent name s =
     do {
       i \<leftarrow> inodes s node;
       let sb = i_sb i;
       b \<leftarrow> super_blocks s sb;
       fi \<leftarrow> fat32_infos s (s_info_fat32 b);
       let clu_num = SEC_TO_CLU (info_clu_base fi) (i_ino i) (s_blockbits b);
       (s, error, min_clu) \<leftarrow> free_chain (info_fat_sec fi) clu_num 0xFFFFFFFF s;
       if IS_ERR_VALUE error then Some (s, error)
       else do {
         (s, _) \<leftarrow> (if min_clu < info_next_clu fi then update_next_clu sb min_clu s else Some (s, NO_ERROR));
         pe \<leftarrow> dentries s parent;
         (s, scan_error, found) \<leftarrow>
           find_entry file_skips (\<lambda>m cur_name. compare_fat32 m cur_name name = 0) sb (d_inode pe) s;
         if IS_ERR_VALUE scan_error then Some (s, scan_error)
         else do {
           (s, error) \<leftarrow>
             (case found of
                None \<Rightarrow> Some (s, error)
              | Some (cur_page, sfn_item) \<Rightarrow> change_entry cur_page (\<lambda>m. m(sfn_item := SFN_MARK_DELETED)) s);
           s \<leftarrow> free_inode node s;
           Some (s, error)
         }
       }
     }"

section \<open>Opening and closing\<close>

definition clear_file :: "u32 \<Rightarrow> 'z fs_scheme \<Rightarrow> 'z fs_scheme option" where
  "clear_file entry s =
     do {
       e \<leftarrow> dentries s entry;
       i \<leftarrow> inodes s (d_inode e);
       (s, parent) \<leftarrow> get_dentry_parent entry s;
       case i_iop i of
         FAT32 \<Rightarrow> do { (s, _) \<leftarrow> clear_fat32 (d_inode e) parent (d_name e) s; Some s }
       | EXT2 \<Rightarrow> Some s
     }"

definition dentry_open_file :: "u32 \<Rightarrow> u32 \<Rightarrow> 'z fs_scheme \<Rightarrow> ('z fs_scheme \<times> u32) option" where
  "dentry_open_file = dentry_open_with clear_file"

definition close_fat32 :: "u32 \<Rightarrow> 'z fs_scheme \<Rightarrow> ('z fs_scheme \<times> u32) option" where
  "close_fat32 fp s =
     do {
       f \<leftarrow> files s fp;
       (s, entry) \<leftarrow> get_dentry_parent (f_dentry f) s;
       if entry = f_dentry f then Some (s, - ERROR_FILE_NOTFOUND)
       else do {
         pe \<leftarrow> dentries s entry;
         d \<leftarrow> dentries s (f_dentry f);
         (s, error, found) \<leftarrow>
           find_entry file_skips (\<lambda>m cur_name. compare_fat32 m cur_name (d_name d) = 0) (d_sb pe) (d_inode pe) s;
         if IS_ERR_VALUE error then Some (s, error)
         else case found of
                None \<Rightarrow> Some (s, - ERROR_FILE_NOTFOUND)
              | Some (cur_page, sfn_item) \<Rightarrow> do {
                  d \<leftarrow> dentries s (f_dentry f);
                  i \<leftarrow> inodes s (d_inode d);
                  change_entry cur_page (store32 (sfn_item + 28) (i_size i)) s
                }
       }
     }"

definition fs_close :: "u32 \<Rightarrow> 'z fs_scheme \<Rightarrow> ('z fs_scheme \<times> u32) option" where
  "fs_close = fs_close_with (\<lambda>fp s. do { f \<leftarrow> files s fp; case f_op f of FAT32 \<Rightarrow> close_fat32 fp s | EXT2 \<Rightarrow> Some (s, close_ext2 fp) })"

section \<open>Listing a directory\<close>

definition list_entry :: "u32 \<Rightarrow> u32 \<Rightarrow> u32 \<Rightarrow> 'z fs_scheme \<Rightarrow> 'z fs_scheme option" where
  "list_entry entry sb sfn_item s =
     do {
       (s, cur_name) \<leftarrow> convert_8dot3_to_normal sfn_item s;
       if compare_fat32 (kmem s) cur_name \<lparr>q_len = 1, q_name = addr_of s ''.''\<rparr> = 0 \<or>
          compare_fat32 (kmem s) cur_name (dotdot s) = 0
       then Some s
       else do {
         cached \<leftarrow> lookup_d_cache \<lparr>nd_dentry = entry, nd_mnt = sb, nd_cur_name = cur_name\<rparr> s;
         (s, cur_entry) \<leftarrow>
           (if cached = 0 then read_dentry_from_sfn sfn_item entry cur_name s else Some (s, cached));
         d \<leftarrow> dentries s cur_entry;
         s \<leftarrow> upd_inode (d_inode d) (\<lambda>i. i\<lparr>i_pinned := True\<rparr>) s;
         s \<leftarrow> upd_dentry cur_entry (\<lambda>d. d\<lparr>d_pinned := True\<rparr>) s;
         s \<leftarrow>
           (if sfn_attr (kmem s) sfn_item = SFN_ATTR_DIR then upd_inode (d_inode d) (\<lambda>i. i\<lparr>i_isdir := True\<rparr>) s
            else Some s);
         d_inc_count cur_entry s
       }
     }"

primrec list_page :: "u32 \<Rightarrow> u32 \<Rightarrow> nat \<Rightarrow> u32 \<Rightarrow> 'z fs_scheme \<Rightarrow> 'z fs_scheme option" where
  "list_page entry sb 0 sfn_item s = Some s"
| "list_page entry sb (Suc n) sfn_item s =
     (if sfn_mark (kmem s) sfn_item = SFN_MARK_UNUSED then Some s
      else if sfn_mark (kmem s) sfn_item = SFN_MARK_DELETED \<or> file_skips (sfn_attr (kmem s) sfn_item)
      then list_page entry sb n (sfn_item + sizeof_sfn_entry) s
      else do { s \<leftarrow> list_entry entry sb sfn_item s; list_page entry sb n (sfn_item + sizeof_sfn_entry) s })"

partial_function (option) list_loop ::
    "u32 \<Rightarrow> u32 \<Rightarrow> u32 \<Rightarrow> fnode \<Rightarrow> fnode \<Rightarrow> 'z fs_scheme \<Rightarrow> ('z fs_scheme \<times> u32) option" where
  "list_loop entry sb blksize head p s =
     (if p = head then Some (s, entry)
      else do {
        (s, cur_page) \<leftarrow> get_fspage p blksize s;
        if IS_ERR_VALUE cur_page then Some (s, cur_page)
        else do {
          pg \<leftarrow> fspages s cur_page;
          s \<leftarrow> list_page entry sb (entries_per_block blksize) (p_data pg) s;
          list_loop entry sb blksize head (next (flinks s) p) s
        }
      })"

definition list_dir_fat32 :: "u32 \<Rightarrow> 'z fs_scheme \<Rightarrow> ('z fs_scheme \<times> u32) option" where
  "list_dir_fat32 fp s =
     do {
       f \<leftarrow> files s fp;
       e \<leftarrow> dentries s (f_dentry f);
       b \<leftarrow> super_blocks s (d_sb e);
       let head = IData (d_inode e);
       list_loop (f_dentry f) (d_sb e) (s_blocksize b) head (next (flinks s) head) s
     }"

end
