(* ===== verification/File_Write.thy ===== *)
theory File_Write
  imports Fat_Dir Digits
begin

text \<open>
  Writing, deleting and formatted output, \<^verbatim>\<open>src/kernel/fs/read_write.c\<close>, and creating a file,
  \<open>create_dentry_fat32\<close> of \<^verbatim>\<open>src/kernel/fs/fat/fat.c\<close>.
\<close>

section \<open>Writing\<close>

definition inode_expand :: "u32 \<Rightarrow> u32 \<Rightarrow> 'z fs_scheme \<Rightarrow> ('z fs_scheme \<times> u32) option" where
  "inode_expand node num s =
     do { i \<leftarrow> inodes s node; case i_iop i of FAT32 \<Rightarrow> expand_fat32 node num s | EXT2 \<Rightarrow> Some (s, expand_ext2 node num) }"

definition file_expand_to :: "u32 \<Rightarrow> u32 \<Rightarrow> 'z fs_scheme \<Rightarrow> ('z fs_scheme \<times> u32) option" where
  "file_expand_to fp fsize s =
     do {
       f \<leftarrow> files s fp;
       if fsize \<le> f_size f then Some (s, NO_ERROR)
       else do {
         e \<leftarrow> dentries s (f_dentry f);
         let node = d_inode e;
         i \<leftarrow> inodes s node;
         b \<leftarrow> super_blocks s (i_sb i);
         remain \<leftarrow> file_last_blk_remain f s;
         let expand = fsize - f_size f - remain;
         (s, error) \<leftarrow>
           (if 0 < sint expand
            then inode_expand node
                   (drop_bit (unat (s_blockbits b)) ((expand + s_blocksize b - 1) AND NOT (s_blocksize b - 1))) s
            else Some (s, NO_ERROR));
         if IS_ERR_VALUE error then Some (s, error)
         else do {
           s \<leftarrow> upd_inode node (\<lambda>i. i\<lparr>i_size := fsize\<rparr>) s;
           s \<leftarrow> upd_file fp (\<lambda>f. f\<lparr>f_size := fsize\<rparr>) s;
           Some (s, error)
         }
       }
     }"

partial_function (option) fs_write_loop ::
    "u32 \<Rightarrow> u32 \<Rightarrow> fnode \<Rightarrow> u32 \<Rightarrow> u32 \<Rightarrow> 'z fs_scheme \<Rightarrow> 'z fs_scheme option" where
  "fs_write_loop fp buf map_node cur_off len s =
     do {
       f \<leftarrow> files s fp;
       blksize \<leftarrow> file_blocksize f s;
       (s, page) \<leftarrow> get_fspage map_node blksize s;
       p \<leftarrow> fspages s page;
       if cur_off + len \<le> p_pagesize p
       then do {
         let s = upd_mem (\<lambda>m. kernel_memcpy m (p_data p + cur_off) buf len) s;
         s \<leftarrow> upd_fspage page (\<lambda>p. p\<lparr>p_dirt := True\<rparr>) s;
         upd_file fp (\<lambda>f. f\<lparr>f_dirt := True, f_cur_off := cur_off + len, f_cur_map := map_node\<rparr>) s
       }
       else do {
         let delta = p_pagesize p - cur_off;
         let s = upd_mem (\<lambda>m. kernel_memcpy m (p_data p + cur_off) buf delta) s;
         s \<leftarrow> upd_fspage page (\<lambda>p. p\<lparr>p_dirt := True\<rparr>) s;
         s \<leftarrow> upd_file fp (\<lambda>f. f\<lparr>f_dirt := True\<rparr>) s;
         fs_write_loop fp (buf + delta) (next (flinks s) map_node) 0 (len - delta) s
       }
     }"

definition fs_write :: "u32 \<Rightarrow> u32 \<Rightarrow> u32 \<Rightarrow> 'z fs_scheme \<Rightarrow> ('z fs_scheme \<times> u32) option" where
  "fs_write fp buf len s =
     do {
       f \<leftarrow> files s fp;
       if f_mode f AND F_MODE_WRITE_MASK = 0 then Some (s, - ERROR_ACCESS_AUTHORITY)
       else do {
         (s, error) \<leftarrow>
           (if f_pos f + len > f_size f then file_expand_to fp (f_pos f + len) s else Some (s, NO_ERROR));
         if IS_ERR_VALUE error then Some (s, error)
         else do {
           s \<leftarrow> upd_file fp (\<lambda>f. f\<lparr>f_pos := f_pos f + len\<rparr>) s;
           f \<leftarrow> files s fp;
           s \<leftarrow> fs_write_loop fp buf (f_cur_map f) (f_cur_off f) len s;
           Some (s, error)
         }
       }
     }"

section \<open>Deleting\<close>

definition fs_delete :: "u32 \<Rightarrow> 'z fs_scheme \<Rightarrow> ('z fs_scheme \<times> u32) option" where
  "fs_delete fp s =
     do {
       f \<leftarrow> files s fp;
       e \<leftarrow> dentries s (f_dentry f);
       let node = d_inode e;
       (s, parent) \<leftarrow> get_dentry_parent (f_dentry f) s;
       i \<leftarrow> inodes s node;
       (s, error) \<leftarrow>
         (if i_isdir i
          then do {
            (s, entry) \<leftarrow> (case f_op f of FAT32 \<Rightarrow> list_dir_fat32 fp s | EXT2 \<Rightarrow> list_dir_ext2 fp s);
            if IS_ERR_VALUE entry then Some (s, entry)
            else if \<not> list_empty (DSubdirs entry) (flinks s) then Some (s, - ERROR_NOT_EMPTY)
            else Some (s, NO_ERROR)
          }
          else Some (s, NO_ERROR));
       if IS_ERR_VALUE error then Some (s, error)
       else do {
         e \<leftarrow> dentries s (f_dentry f);
         (s, error) \<leftarrow> (case i_iop i of
             FAT32 \<Rightarrow> delete_fat32 node parent (d_name e) s
           | EXT2 \<Rightarrow> Some (s, delete_ext2 node parent (d_name e)));
         if IS_ERR_VALUE error then Some (s, error)
         else do { s \<leftarrow> upd_file fp (\<lambda>f. f\<lparr>f_dirt := False\<rparr>) s; Some (s, error) }
       }
     }"

section \<open>Formatted output\<close>

definition fs_putchar :: "u32 \<Rightarrow> u8 \<Rightarrow> 'z fs_scheme \<Rightarrow> ('z fs_scheme \<times> u32) option" where
  "fs_putchar fp ch s =
     (let p = addr_of s ''ch'' in fs_write fp p 1 (upd_mem (\<lambda>m. m(p := ch)) s))"

partial_function (option) fs_puts_loop :: "u32 \<Rightarrow> u32 \<Rightarrow> u32 \<Rightarrow> 'z fs_scheme \<Rightarrow> ('z fs_scheme \<times> u32) option" where
  "fs_puts_loop fp str error s =
     (if kmem s str = 0 then Some (s, error)
      else do {
        (s, error) \<leftarrow> fs_putchar fp (kmem s str) s;
        if IS_ERR_VALUE error then Some (s, error) else fs_puts_loop fp (str + 1) error s
      })"

definition fs_puts :: "u32 \<Rightarrow> u32 \<Rightarrow> 'z fs_scheme \<Rightarrow> ('z fs_scheme \<times> u32) option" where
  "fs_puts fp str s = fs_puts_loop fp str NO_ERROR s"

text \<open>The negation of the least integer wraps, so its digits are negative.\<close>

definition fs_putint :: "u32 \<Rightarrow> u32 \<Rightarrow> 'z fs_scheme \<Rightarrow> ('z fs_scheme \<times> u32) option" where
  "fs_putint fp num s =
     (let buffer = addr_of s ''buffer'';
          s = upd_mem (\<lambda>m. m(buffer + 11 := 0)) s;
          isNegative = sint num < 0;
          num = (if isNegative then - num else num)
      in if num = 0 then fs_putchar fp 48 s
         else let (m, ptr) = put_digits (sint num) (buffer + 11) (kmem s);
                  (m, ptr) = (if isNegative then (m(ptr - 1 := 45), ptr - 1) else (m, ptr))
              in fs_puts fp ptr (s\<lparr>kmem := m\<rparr>))"

definition hex_digit :: "bool \<Rightarrow> u32 \<Rightarrow> u8" where
  "hex_digit isUpper value = (if value \<le> 9 then 48 + ucast value else (if isUpper then 55 else 87) + ucast value)"

function put_hex :: "bool \<Rightarrow> u32 \<Rightarrow> u32 \<Rightarrow> mem \<Rightarrow> mem \<times> u32" where
  "put_hex isUpper hex ptr m =
     (if hex = 0 then (m, ptr)
      else put_hex isUpper (drop_bit 4 hex) (ptr - 1) (m(ptr - 1 := hex_digit isUpper (hex AND 0xF))))"
  by pat_completeness auto
termination
  by (relation "measure (\<lambda>(_, hex, _, _). unat hex)") (auto simp: unat_drop_bit_u32 unat_gt_0)

declare put_hex.simps [simp del]

text \<open>\<open>fs_puthex\<close> returns what is left of the number, which is zero, in place of the error.\<close>

definition fs_puthex :: "u32 \<Rightarrow> u32 \<Rightarrow> bool \<Rightarrow> 'z fs_scheme \<Rightarrow> ('z fs_scheme \<times> u32) option" where
  "fs_puthex fp hex isUpper s =
     (let buffer = addr_of s ''buffer'';
          s = upd_mem (\<lambda>m. m(buffer + 11 := 0)) s
      in if hex = 0 then do { (s, _) \<leftarrow> fs_putchar fp 48 s; Some (s, 0) }
         else let (m, ptr) = put_hex isUpper hex (buffer + 11) (kmem s)
              in do { (s, _) \<leftarrow> fs_puts fp ptr (s\<lparr>kmem := m\<rparr>); Some (s, 0) })"

definition fs_print_one :: "u32 \<Rightarrow> u8 \<Rightarrow> u32 list \<Rightarrow> 'z fs_scheme \<Rightarrow> ('z fs_scheme \<times> u32 \<times> u32 list) option" where
  "fs_print_one fp type args s =
     (if type = 99 then do { (v, args) \<leftarrow> take_arg args; (s, e) \<leftarrow> fs_putchar fp (ucast v) s; Some (s, e, args) }
      else if type = 100 then do { (v, args) \<leftarrow> take_arg args; (s, e) \<leftarrow> fs_putint fp v s; Some (s, e, args) }
      else if type = 120 \<or> type = 88
      then do { (v, args) \<leftarrow> take_arg args; (s, e) \<leftarrow> fs_puthex fp v (type = 88) s; Some (s, e, args) }
      else if type = 115 then do { (v, args) \<leftarrow> take_arg args; (s, e) \<leftarrow> fs_puts fp v s; Some (s, e, args) }
      else Some (s, - ERROR_UNKNOWN_FORMAT, args))"

partial_function (option) fs_printf_loop ::
    "u32 \<Rightarrow> u32 \<Rightarrow> u32 list \<Rightarrow> u32 \<Rightarrow> 'z fs_scheme \<Rightarrow> ('z fs_scheme \<times> u32) option" where
  "fs_printf_loop fp format args error s =
     (if kmem s format = 0 then Some (s, error)
      else if kmem s format \<noteq> 37
      then do {
        (s, error) \<leftarrow> fs_putchar fp (kmem s format) s;
        if IS_ERR_VALUE error then Some (s, error) else fs_printf_loop fp (format + 1) args error s
      }
      else do {
        (s, error, args) \<leftarrow> fs_print_one fp (kmem s (format + 1)) args s;
        if IS_ERR_VALUE error then Some (s, error) else fs_printf_loop fp (format + 2) args error s
      })"

definition fs_printf_argList :: "u32 \<Rightarrow> u32 \<Rightarrow> u32 list \<Rightarrow> 'z fs_scheme \<Rightarrow> ('z fs_scheme \<times> u32) option" where
  "fs_printf_argList fp format args s = fs_printf_loop fp format args NO_ERROR s"

definition fs_printf :: "u32 \<Rightarrow> u32 \<Rightarrow> u32 list \<Rightarrow> 'z fs_scheme \<Rightarrow> ('z fs_scheme \<times> u32) option" where
  "fs_printf fp format args s = fs_printf_argList fp format args s"

section \<open>Creating a file\<close>

text \<open>The fields of the entry that the code does not set keep what the stack held.\<close>

definition fill_sfn :: "u32 \<Rightarrow> qstr \<Rightarrow> bool \<Rightarrow> u32 \<Rightarrow> mem \<Rightarrow> mem" where
  "fill_sfn sfn name isdir clu m =
     (let m = convert_normal_to_8dot3 name sfn m;
          m = m(sfn + 11 := (if isdir then SFN_ATTR_DIR else SFN_ATTR_WRITE));
          m = m(sfn + 12 := 8);
          m = store16 (sfn + 20) (drop_bit 16 clu) m;
          m = store16 (sfn + 26) (clu AND 0xFFFF) m
      in store32 (sfn + 28) 0 m)"

definition create_dentry_fat32 ::
    "u32 \<Rightarrow> u32 \<Rightarrow> qstr \<Rightarrow> bool \<Rightarrow> 'z fs_scheme \<Rightarrow> ('z fs_scheme \<times> u32) option" where
  "create_dentry_fat32 sb parent name isdir s =
     do {
       b \<leftarrow> super_blocks s sb;
       fi \<leftarrow> fat32_infos s (s_info_fat32 b);
       (s, free_clu_idx) \<leftarrow> find_free_clu (info_fat_sec fi) (info_next_clu fi) s;
       (s, error) \<leftarrow> write_fat (info_fat_sec fi) free_clu_idx FAT_ITEM_END s;
       if IS_ERR_VALUE error then Some (s, error)
       else do {
         (s, node) \<leftarrow> alloc_inode_fat32 sb free_clu_idx 0 isdir s;
         if IS_ERR_VALUE node then Some (s, node)
         else do {
           (s, entry_ret) \<leftarrow> alloc_dentry_fat32 sb node parent name s;
           (s, parent_file) \<leftarrow> dentry_open_file parent F_MODE_APPEND s;
           let sfn = addr_of s ''sfn'';
           let s = upd_mem (fill_sfn sfn name isdir free_clu_idx) s;
           (s, _) \<leftarrow> fs_write parent_file sfn sizeof_sfn_entry s;
           (s, _) \<leftarrow> fs_close parent_file s;
           Some (s, entry_ret)
         }
       }
     }"

end
