(* ===== verification/Path.thy ===== *)
theory Path
  imports File_Write
begin

text \<open>
  Path names, \<^verbatim>\<open>src/kernel/fs/open.c\<close>: the walk from component to component across mounted
  volumes, creation of the last component, and \<open>fs_open\<close>.  A \<^verbatim>\<open>vfsmount\<close> is part of a super block
  and named by the address of that block.
\<close>

definition OPEN_CREATE :: u32 where "OPEN_CREATE = 1"
definition OPEN_DIR :: u32 where "OPEN_DIR = 2"

lemmas open_consts [os_const] = OPEN_CREATE_def OPEN_DIR_def

section \<open>One component\<close>

fun sb_at :: "fnode \<Rightarrow> u32 option" where
  "sb_at (SbNode b) = Some b" | "sb_at _ = None"

text \<open>The volume mounted on an entry: the node of the list that matches, or the head.\<close>

partial_function (option) find_mount :: "u32 \<Rightarrow> u32 \<Rightarrow> fnode \<Rightarrow> 'z fs_scheme \<Rightarrow> fnode option" where
  "find_mount entry mnt p s =
     (if p = SbList then Some p
      else do {
        sb \<leftarrow> sb_at p;
        b \<leftarrow> super_blocks s sb;
        if mnt_mntpoint (s_mnt b) = entry \<and> mnt_parent (s_mnt b) = mnt then Some p
        else find_mount entry mnt (next (flinks s) p) s
      })"

partial_function (option) mount_loop :: "u32 \<Rightarrow> u32 \<Rightarrow> 'z fs_scheme \<Rightarrow> (u32 \<times> u32 \<times> u32) option" where
  "mount_loop entry mnt s =
     do {
       e \<leftarrow> dentries s entry;
       if \<not> d_mounted e then Some (NO_ERROR, entry, mnt)
       else do {
         p \<leftarrow> find_mount entry mnt (next (flinks s) SbList) s;
         if p = SbList then Some (- ERROR_VFSMOUNT, entry, mnt)
         else do { sb \<leftarrow> sb_at p; b \<leftarrow> super_blocks s sb; mount_loop (s_root b) sb s }
       }
     }"

definition move_to :: "u32 \<Rightarrow> u32 \<Rightarrow> nameidata \<Rightarrow> 'z fs_scheme \<Rightarrow> ('z fs_scheme \<times> u32 \<times> nameidata) option" where
  "move_to entry mnt nd s =
     do {
       s \<leftarrow> d_dec_count (nd_dentry nd) s;
       s \<leftarrow> d_inc_count entry s;
       Some (s, NO_ERROR, nd\<lparr>nd_dentry := entry, nd_mnt := mnt\<rparr>)
     }"

definition do_lookup :: "nameidata \<Rightarrow> 'z fs_scheme \<Rightarrow> ('z fs_scheme \<times> u32 \<times> nameidata) option" where
  "do_lookup nd s =
     do {
       e \<leftarrow> dentries s (nd_dentry nd);
       i \<leftarrow> inodes s (d_inode e);
       if \<not> i_isdir i then Some (s, - ERROR_NOT_DIR, nd)
       else do {
         cached \<leftarrow> lookup_d_cache nd s;
         (s, entry) \<leftarrow> (if cached = 0 then real_lookup nd s else Some (s, cached));
         if IS_ERR_VALUE entry then Some (s, entry, nd)
         else do {
           (error, entry, mnt) \<leftarrow> mount_loop entry (nd_mnt nd) s;
           if error \<noteq> NO_ERROR then Some (s, error, nd) else move_to entry mnt nd s
         }
       }
     }"

text \<open>
  The climb out of the roots of mounted volumes; \<open>True\<close> says that the root of the whole tree was
  reached and \<open>follow_dotdot\<close> stops there.
\<close>

partial_function (option) climb_loop :: "u32 \<Rightarrow> u32 \<Rightarrow> 'z fs_scheme \<Rightarrow> (bool \<times> u32 \<times> u32) option" where
  "climb_loop entry mnt s =
     do {
       e \<leftarrow> dentries s entry;
       b \<leftarrow> super_blocks s (d_sb e);
       if s_root b \<noteq> entry then Some (False, entry, mnt)
       else if entry = root_dentry s then Some (True, entry, mnt)
       else do {
         mb \<leftarrow> super_blocks s mnt;
         let entry = mnt_mntpoint (s_mnt mb);
         e \<leftarrow> dentries s entry;
         climb_loop entry (d_sb e) s
       }
     }"

definition follow_dotdot :: "nameidata \<Rightarrow> 'z fs_scheme \<Rightarrow> ('z fs_scheme \<times> u32 \<times> nameidata) option" where
  "follow_dotdot nd s =
     do {
       (top, entry, mnt) \<leftarrow> climb_loop (nd_dentry nd) (nd_mnt nd) s;
       if top then Some (s, NO_ERROR, nd)
       else do {
         (s, entry) \<leftarrow> get_dentry_parent entry s;
         if IS_ERR_VALUE entry then Some (s, entry, nd) else move_to entry mnt nd s
       }
     }"

section \<open>The walk\<close>

partial_function (option) skip_seps :: "mem \<Rightarrow> u32 \<Rightarrow> u32 option" where
  "skip_seps m p = (if m p = 47 \<or> m p = 32 \<or> m p = 9 \<or> m p = 10 then skip_seps m (p + 1) else Some p)"

partial_function (option) component_end :: "mem \<Rightarrow> u32 \<Rightarrow> u32 option" where
  "component_end m p = (let p = p + 1 in if m p \<noteq> 0 \<and> m p \<noteq> 47 then component_end m p else Some p)"

declare skip_seps.simps [code] component_end.simps [code]

partial_function (option) link_path_walk ::
    "u32 \<Rightarrow> nameidata \<Rightarrow> 'z fs_scheme \<Rightarrow> ('z fs_scheme \<times> u32 \<times> nameidata) option" where
  "link_path_walk filename nd s =
     do {
       start \<leftarrow> skip_seps (kmem s) filename;
       if kmem s start = 0 then Some (s, NO_ERROR, nd)
       else do {
         stop \<leftarrow> component_end (kmem s) start;
         let nd = nd\<lparr>nd_cur_name := \<lparr>q_len = stop - start, q_name = start\<rparr>\<rparr>;
         (s, error, nd) \<leftarrow>
           (if qstr_equals (kmem s) (nd_cur_name nd) (addr_of s ''.'') then Some (s, NO_ERROR, nd)
            else if qstr_equals (kmem s) (nd_cur_name nd) (addr_of s ''..'') then follow_dotdot nd s
            else do_lookup nd s);
         if IS_ERR_VALUE error then Some (s, error, nd) else link_path_walk stop nd s
       }
     }"

text \<open>A new directory is filled with zeroes, page by page.\<close>

partial_function (option) zero_loop :: "u32 \<Rightarrow> fnode \<Rightarrow> fnode \<Rightarrow> 'z fs_scheme \<Rightarrow> 'z fs_scheme option" where
  "zero_loop blksize head p s =
     (if p = head then Some s
      else do {
        (s, page) \<leftarrow> get_fspage p blksize s;
        pg \<leftarrow> fspages s page;
        (s, _) \<leftarrow> change_entry page (\<lambda>m. kernel_memset m (p_data pg) 0 blksize) s;
        zero_loop blksize head (next (flinks s) p) s
      })"

definition create_last ::
    "u32 \<Rightarrow> nameidata \<Rightarrow> 'z fs_scheme \<Rightarrow> ('z fs_scheme \<times> u32 \<times> u32 \<times> nameidata) option" where
  "create_last flags nd s =
     do {
       e \<leftarrow> dentries s (nd_dentry nd);
       let sb = d_sb e;
       b \<leftarrow> super_blocks s sb;
       let isdir = flags AND OPEN_DIR \<noteq> 0;
       (s, entry) \<leftarrow>
         (case s_op b of
            FAT32 \<Rightarrow> create_dentry_fat32 sb (nd_dentry nd) (nd_cur_name nd) isdir s
          | EXT2 \<Rightarrow> Some (s, create_dentry_ext2 sb (nd_dentry nd) (nd_cur_name nd) isdir));
       if IS_ERR_VALUE entry then Some (s, entry, entry, nd)
       else do {
         d \<leftarrow> dentries s entry;
         s \<leftarrow>
           (if isdir
            then zero_loop (s_blocksize b) (IData (d_inode d)) (next (flinks s) (IData (d_inode d))) s
            else Some s);
         s \<leftarrow> d_dec_count (nd_dentry nd) s;
         s \<leftarrow> d_inc_count entry s;
         Some (s, NO_ERROR, entry, nd\<lparr>nd_dentry := entry, nd_cur_name := \<lparr>q_len = 0, q_name = addr_of s ''''\<rparr>\<rparr>)
       }
     }"

definition path_lookup ::
    "u32 \<Rightarrow> u32 \<Rightarrow> 'z fs_scheme \<Rightarrow> ('z fs_scheme \<times> u32 \<times> nameidata) option" where
  "path_lookup filename flags s =
     do {
       let entry = (if kmem s filename = 47 then root_dentry s else pwd_dentry s);
       s \<leftarrow> d_inc_count entry s;
       e \<leftarrow> dentries s entry;
       (s, error, nd) \<leftarrow>
         link_path_walk filename \<lparr>nd_dentry = entry, nd_mnt = d_sb e, nd_cur_name = \<lparr>q_len = 0, q_name = 0\<rparr>\<rparr> s;
       create \<leftarrow>
         (if error = - ERROR_FILE_NOTFOUND \<and> flags AND OPEN_CREATE \<noteq> 0
          then qstr_endwith (kmem s) filename (nd_cur_name nd) else Some False);
       (s, error, entry, nd) \<leftarrow> (if create then create_last flags nd s else Some (s, error, entry, nd));
       s \<leftarrow> d_dec_count entry s;
       Some (s, error, nd)
     }"

definition fs_open :: "u32 \<Rightarrow> u32 \<Rightarrow> 'z fs_scheme \<Rightarrow> ('z fs_scheme \<times> u32) option" where
  "fs_open filename mode s =
     do {
       let open_flags = (if mode AND F_MODE_WRITE_MASK \<noteq> 0 then OPEN_CREATE else 0);
       let open_flags = (if mode AND F_MODE_DIR_MASK \<noteq> 0 then open_flags OR OPEN_DIR else open_flags);
       (s, error, nd) \<leftarrow> path_lookup filename open_flags s;
       if IS_ERR_VALUE error then Some (s, error) else dentry_open_file (nd_dentry nd) mode s
     }"

end
