(* ===== verification/Screen.thy ===== *)
theory Screen
  imports Digits "HOL-Library.Monad_Syntax"
begin

text \<open>
  The text screen, \<^verbatim>\<open>src/kernel/driver/vga.c\<close>.  The video memory takes whole words, so \<open>vram\<close> maps
  the index of a cell from \<open>CHAR_VRAM\<close> on to its word, also beyond the 32 rows of 128 cells of the
  device; the cursor is kept in signed integers.  Strings and formats lie in the memory \<open>m\<close>.
\<close>

definition VGA_RED :: u32 where "VGA_RED = 0x00F"
definition VGA_BLACK :: u32 where "VGA_BLACK = 0x000"
definition VGA_WHITE :: u32 where "VGA_WHITE = 0xFFF"
definition VGA_SCREEN_MAX_ROW :: u32 where "VGA_SCREEN_MAX_ROW = 32"
definition VGA_SCREEN_MAX_COL :: u32 where "VGA_SCREEN_MAX_COL = 128"
definition VGA_COMMAND_MAX_ROW :: u32 where "VGA_COMMAND_MAX_ROW = 26"
definition VGA_DISPLAY_MAX_ROW :: u32 where "VGA_DISPLAY_MAX_ROW = 28"
definition VGA_DISPLAY_MAX_COL :: u32 where "VGA_DISPLAY_MAX_COL = 80"
definition BLANK :: u32 where "BLANK = 0x000fff00"

lemmas vga_consts [os_const] = VGA_RED_def VGA_BLACK_def VGA_WHITE_def VGA_SCREEN_MAX_ROW_def VGA_SCREEN_MAX_COL_def
  VGA_COMMAND_MAX_ROW_def VGA_DISPLAY_MAX_ROW_def VGA_DISPLAY_MAX_COL_def BLANK_def

record screen =
  row :: u32
  col :: u32
  freq :: u32
  vram :: "u32 \<Rightarrow> u32"
  gpio_cursor :: u32

section \<open>Cursor and cells\<close>

definition kernel_set_cursor :: "screen \<Rightarrow> screen" where
  "kernel_set_cursor s = s\<lparr>gpio_cursor := push_bit 16 (freq s AND 0xff) + push_bit 8 (row s AND 0xff) + (col s AND 0xff)\<rparr>"

definition init_vga :: "screen \<Rightarrow> screen" where
  "init_vga s = kernel_set_cursor (s\<lparr>row := 0, col := 0, freq := 31\<rparr>)"

definition kernel_memset_uint :: "(u32 \<Rightarrow> u32) \<Rightarrow> u32 \<Rightarrow> u32 \<Rightarrow> u32 \<Rightarrow> (u32 \<Rightarrow> u32)" where
  "kernel_memset_uint v dst val len = memset_loop (unat len) dst val v"

definition kernel_clear_screen :: "screen \<Rightarrow> screen" where
  "kernel_clear_screen s =
     (let s = kernel_set_cursor (s\<lparr>col := 0, row := 0\<rparr>)
      in s\<lparr>vram := kernel_memset_uint (vram s) 0 BLANK (VGA_SCREEN_MAX_ROW * VGA_SCREEN_MAX_COL)\<rparr>)"

text \<open>
  \<open>kernel_memcpy\<close> on whole words: the copy goes upwards to a lower address, a whole number of words
  down, so copying byte by byte and word by word leave the same cells.
\<close>

primrec copy_cells :: "nat \<Rightarrow> u32 \<Rightarrow> u32 \<Rightarrow> (u32 \<Rightarrow> u32) \<Rightarrow> (u32 \<Rightarrow> u32)" where
  "copy_cells 0 dst src v = v"
| "copy_cells (Suc n) dst src v = copy_cells n (dst + 1) (src + 1) (v(dst := v src))"

definition kernel_scroll_screen :: "screen \<Rightarrow> screen" where
  "kernel_scroll_screen s =
     (let offset = VGA_COMMAND_MAX_ROW * VGA_SCREEN_MAX_COL;
          v = copy_cells (unat offset) 0 VGA_SCREEN_MAX_COL (vram s)
      in s\<lparr>vram := kernel_memset_uint v offset BLANK VGA_SCREEN_MAX_COL\<rparr>)"

definition kernel_putchar_at_color :: "u32 \<Rightarrow> u32 \<Rightarrow> u32 \<Rightarrow> u32 \<Rightarrow> u32 \<Rightarrow> screen \<Rightarrow> screen" where
  "kernel_putchar_at_color ch fgColor bgColor r c s =
     (let r = r AND 0x1F; c = c AND 0x7F; p = push_bit 7 r + c
      in s\<lparr>vram := (vram s)(p := push_bit 20 (bgColor AND 0xFFF) + push_bit 8 (fgColor AND 0xFFF) + (ch AND 0xFF))\<rparr>)"

definition kernel_putchar_at :: "u32 \<Rightarrow> u32 \<Rightarrow> u32 \<Rightarrow> screen \<Rightarrow> screen" where
  "kernel_putchar_at ch r c s = kernel_putchar_at_color ch VGA_WHITE VGA_BLACK r c s"

section \<open>Characters\<close>

text \<open>
  \<open>4 - cursor.col & 0x3\<close> is \<open>(4 - cursor.col) & 0x3\<close>: a tab from a tab stop moves the cursor four
  cells on and blanks none of them.
\<close>

function kernel_putch :: "u32 \<Rightarrow> u32 \<Rightarrow> u32 \<Rightarrow> screen \<Rightarrow> screen" where
  "kernel_putch ch fgColor bgColor s =
     (let cursor_addr = row s * VGA_SCREEN_MAX_COL + col s;
          s = (if ch = 13 then s
               else if ch = 10 then
                 (let s = s\<lparr>col := 0\<rparr>
                  in if row s = VGA_COMMAND_MAX_ROW then kernel_scroll_screen s else s\<lparr>row := row s + 1\<rparr>)
               else if ch = 9 then
                 (if sint (col s) \<ge> sint (VGA_DISPLAY_MAX_COL - 4) then kernel_putch 10 VGA_BLACK VGA_BLACK s
                  else s\<lparr>vram := kernel_memset_uint (vram s) cursor_addr BLANK ((4 - col s) AND 0x3),
                         col := (col s + 4) AND (- 4)\<rparr>)
               else
                 (let s = (if col s = VGA_DISPLAY_MAX_COL then kernel_putch 10 0 0 s else s);
                      s = kernel_putchar_at_color ch fgColor bgColor (row s) (col s) s
                  in s\<lparr>col := col s + 1\<rparr>))
      in kernel_set_cursor s)"
  by pat_completeness auto
termination
  by (relation "measure (\<lambda>(ch, _, _, _). if ch = 10 then 0 else 1)") auto

declare kernel_putch.simps [simp del]

definition kernel_putchar :: "u8 \<Rightarrow> screen \<Rightarrow> screen" where
  "kernel_putchar ch s = kernel_putch (scast ch) VGA_WHITE VGA_BLACK s"

section \<open>Strings and numbers\<close>

partial_function (option) putstring_loop :: "mem \<Rightarrow> u32 \<Rightarrow> u32 \<Rightarrow> u32 \<Rightarrow> u32 \<Rightarrow> screen \<Rightarrow> (screen \<times> u32) option" where
  "putstring_loop m string fgColor bgColor ret s =
     (if m string = 0 then Some (s, ret)
      else putstring_loop m (string + 1) fgColor bgColor (ret + 1) (kernel_putch (scast (m string)) fgColor bgColor s))"

definition kernel_putstring :: "mem \<Rightarrow> u32 \<Rightarrow> u32 \<Rightarrow> u32 \<Rightarrow> screen \<Rightarrow> (screen \<times> u32) option" where
  "kernel_putstring m string fgColor bgColor s = putstring_loop m string fgColor bgColor 0 s"

definition kernel_puts :: "mem \<Rightarrow> u32 \<Rightarrow> screen \<Rightarrow> screen option" where
  "kernel_puts m string s = map_option fst (kernel_putstring m string VGA_WHITE VGA_BLACK s)"

text \<open>
  The buffer of twelve characters is an object of its own.  The digit of zero is always printed in
  white, and the digits of the least integer, whose negation wraps, are negative.
\<close>

definition kernel_putint :: "u32 \<Rightarrow> u32 \<Rightarrow> u32 \<Rightarrow> screen \<Rightarrow> screen option" where
  "kernel_putint num fgColor bgColor s =
     (let isNegative = sint num < 0;
          num = (if isNegative then - num else num)
      in if num = 0 then Some (kernel_putchar 48 s)
         else let (b, ptr) = put_digits (sint num) 11 (\<lambda>_. 0);
                  (b, ptr) = (if isNegative then (b(ptr - 1 := 45), ptr - 1) else (b, ptr))
              in map_option fst (kernel_putstring b ptr fgColor bgColor s))"

definition HEX_MAP :: "u8 list" where
  "HEX_MAP = [48, 49, 50, 51, 52, 53, 54, 55, 56, 57, 97, 98, 99, 100, 101, 102]"

function vga_hex_loop :: "bool \<Rightarrow> u32 \<Rightarrow> u32 \<Rightarrow> mem \<Rightarrow> mem \<times> u32" where
  "vga_hex_loop isUpper hex ptr b =
     (if hex = 0 then (b, ptr)
      else let v = hex AND 0xF
           in vga_hex_loop isUpper (drop_bit 4 hex) (ptr - 1)
                (b(ptr - 1 := HEX_MAP ! unat v + (if isUpper \<and> v > 9 then 65 - 97 else 0))))"
  by pat_completeness auto
termination
  by (relation "measure (\<lambda>(_, hex, _, _). unat hex)") (auto simp: unat_drop_bit_u32 unat_gt_0)

declare vga_hex_loop.simps [simp del]

definition kernel_puthex :: "u32 \<Rightarrow> bool \<Rightarrow> u32 \<Rightarrow> u32 \<Rightarrow> screen \<Rightarrow> screen option" where
  "kernel_puthex hex isUpper fgColor bgColor s =
     (if hex = 0 then Some (kernel_putch 48 fgColor bgColor s)
      else let (b, ptr) = vga_hex_loop isUpper hex 11 (\<lambda>_. 0)
           in map_option fst (kernel_putstring b ptr fgColor bgColor s))"

section \<open>Formats\<close>

definition kernel_print_one :: "mem \<Rightarrow> u32 \<Rightarrow> u32 \<Rightarrow> u8 \<Rightarrow> u32 \<Rightarrow> screen \<Rightarrow> screen option" where
  "kernel_print_one m fgColor bgColor type v s =
     (if type = 99 then Some (kernel_putch (scast (ucast v :: u8)) fgColor bgColor s)
      else if type = 100 then kernel_putint v fgColor bgColor s
      else if type = 120 \<or> type = 88 then kernel_puthex v (type = 88) fgColor bgColor s
      else map_option fst (kernel_putstring m v fgColor bgColor s))"

text \<open>An unknown directive ends the loop with \<open>- 1\<close>; taking an argument that is not there is undefined.\<close>

partial_function (option) printf_loop ::
    "mem \<Rightarrow> u32 \<Rightarrow> u32 \<Rightarrow> u32 \<Rightarrow> u32 list \<Rightarrow> u32 \<Rightarrow> screen \<Rightarrow> (screen \<times> u32) option" where
  "printf_loop m fgColor bgColor format args cnt s =
     (if m format = 0 then Some (s, cnt)
      else if m format \<noteq> 37
      then printf_loop m fgColor bgColor (format + 1) args cnt (kernel_putch (scast (m format)) fgColor bgColor s)
      else if m (format + 1) \<in> {99, 100, 120, 88, 115}
      then do {
        (v, args) \<leftarrow> take_arg args;
        s \<leftarrow> kernel_print_one m fgColor bgColor (m (format + 1)) v s;
        printf_loop m fgColor bgColor (format + 2) args (cnt + 1) s
      }
      else Some (s, - 1))"

definition kernel_printf_argList :: "mem \<Rightarrow> u32 \<Rightarrow> u32 \<Rightarrow> u32 \<Rightarrow> u32 list \<Rightarrow> screen \<Rightarrow> (screen \<times> u32) option" where
  "kernel_printf_argList m fgColor bgColor format args s = printf_loop m fgColor bgColor format args 0 s"

definition kernel_printf :: "mem \<Rightarrow> u32 \<Rightarrow> u32 list \<Rightarrow> screen \<Rightarrow> (screen \<times> u32) option" where
  "kernel_printf m format args s = kernel_printf_argList m VGA_WHITE VGA_BLACK format args s"

definition kernel_printf_error :: "mem \<Rightarrow> u32 \<Rightarrow> u32 list \<Rightarrow> screen \<Rightarrow> (screen \<times> u32) option" where
  "kernel_printf_error m format args s = kernel_printf_argList m VGA_RED VGA_BLACK format args s"

definition kernel_printf_color ::
    "mem \<Rightarrow> u32 \<Rightarrow> u32 \<Rightarrow> u32 \<Rightarrow> u32 list \<Rightarrow> screen \<Rightarrow> (screen \<times> u32) option" where
  "kernel_printf_color m fgColor bgColor format args s = kernel_printf_argList m fgColor bgColor format args s"

text \<open>An assertion that does not hold prints its message and loops for ever.\<close>

definition kernel_assert :: "bool \<Rightarrow> u32 option" where
  "kernel_assert statement = (if statement then Some 0 else None)"

section \<open>The screen as a terminal\<close>

text \<open>
  The terminal the code implements: a grid of rows and columns and a position.  The text area are the
  rows 0 to 26, of which 80 columns are written.
\<close>

type_synonym terminal = "nat \<times> nat \<times> (nat \<Rightarrow> nat \<Rightarrow> u32)"

definition term_newline :: "terminal \<Rightarrow> terminal" where
  "term_newline = (\<lambda>(r, c, g).
     if r = 26 then (26, 0, \<lambda>i j. if i < 26 then g (Suc i) j else if i = 26 \<and> j < 128 then BLANK else g i j)
     else (Suc r, 0, g))"

definition char_cell :: "u32 \<Rightarrow> u32 \<Rightarrow> u32 \<Rightarrow> u32" where
  "char_cell ch fgColor bgColor = push_bit 20 (bgColor AND 0xFFF) + push_bit 8 (fgColor AND 0xFFF) + (ch AND 0xFF)"

definition term_char :: "u32 \<Rightarrow> terminal \<Rightarrow> terminal" where
  "term_char x = (\<lambda>(r, c, g). (r, Suc c, g(r := (g r)(c := x)))) \<circ> (\<lambda>(r, c, g). if c = 80 then term_newline (r, c, g) else (r, c, g))"

definition term_tab :: "terminal \<Rightarrow> terminal" where
  "term_tab = (\<lambda>(r, c, g). if 76 \<le> c then term_newline (r, c, g)
     else (r, 4 * (c div 4) + 4, g(r := (\<lambda>j. if c \<le> j \<and> j < c + (4 - c mod 4) mod 4 then BLANK else g r j))))"

definition term_put :: "u32 \<Rightarrow> u32 \<Rightarrow> u32 \<Rightarrow> terminal \<Rightarrow> terminal" where
  "term_put ch fgColor bgColor =
     (if ch = 13 then id else if ch = 10 then term_newline else if ch = 9 then term_tab
      else term_char (char_cell ch fgColor bgColor))"

definition grid :: "(u32 \<Rightarrow> u32) \<Rightarrow> nat \<Rightarrow> nat \<Rightarrow> u32" where
  "grid v i j = (if i < 32 \<and> j < 128 then v (of_nat (128 * i + j)) else 0)"

definition view :: "screen \<Rightarrow> terminal" where
  "view s = (unat (row s), unat (col s), grid (vram s))"

definition screen_ok :: "screen \<Rightarrow> bool" where
  "screen_ok s \<longleftrightarrow> unat (row s) \<le> 26 \<and> unat (col s) \<le> 80"

lemma cell_inj:
  "i < 32 \<Longrightarrow> j < 128 \<Longrightarrow> i' < 32 \<Longrightarrow> j' < 128 \<Longrightarrow>
   (of_nat (128 * i + j) :: u32) = of_nat (128 * i' + j') \<longleftrightarrow> i = i' \<and> j = j'"
proof -
  assume a: "i < 32" "j < 128" "i' < 32" "j' < 128"
  then have "128 * i + j < 2 ^ 32" "128 * i' + j' < 2 ^ 32" by simp_all
  then have "(of_nat (128 * i + j) :: u32) = of_nat (128 * i' + j') \<longleftrightarrow> 128 * i + j = 128 * i' + j'"
    by (simp add: word_unat_eq_iff unat_of_nat del: of_nat_add of_nat_mult)
  also have "\<dots> \<longleftrightarrow> i = i' \<and> j = j'"
  proof -
    have "(128 * i + j) div 128 = i" "(128 * i' + j') div 128 = i'" using a by simp_all
    then have "128 * i + j = 128 * i' + j' \<Longrightarrow> i = i'" by metis
    then show ?thesis by auto
  qed
  finally show ?thesis .
qed

lemma grid_upd:
  "i < 32 \<Longrightarrow> j < 128 \<Longrightarrow> grid (v(of_nat (128 * i + j) := x)) = (grid v)(i := (grid v i)(j := x))"
  by (auto simp: grid_def fun_eq_iff cell_inj simp del: of_nat_add of_nat_mult)

lemma memset_loop_at:
  "n \<le> 2 ^ 32 \<Longrightarrow> memset_loop n p x v a = (if unat (a - p) < n then x else v a)"
proof (induction n arbitrary: p v)
  case (Suc n)
  show ?case
  proof (cases "a = p")
    case True
    then show ?thesis using Suc by (simp add: unat_minus_1_u32)
  next
    case False
    then have "0 < unat (a - p)" by (simp add: unat_gt_0)
    moreover have "unat (a - (p + 1)) = unat (a - p) - 1"
      using \<open>0 < unat (a - p)\<close> unat_sub [of 1 "a - p"] by (simp add: word_le_nat_alt diff_diff_eq)
    ultimately show ?thesis using Suc False by auto
  qed
qed simp

lemma copy_cells_at:
  "unat d + n \<le> 2 ^ 32 \<Longrightarrow> k \<noteq> 0 \<Longrightarrow> unat d + unat k + n \<le> 2 ^ 32 \<Longrightarrow>
   copy_cells n d (d + k) v a = (if unat d \<le> unat a \<and> unat a < unat d + n then v (a + k) else v a)"
proof (induction n arbitrary: d v)
  case (Suc n)
  have d: "unat (d + 1) = unat d + 1" if "n \<noteq> 0"
    using that Suc.prems(1) by (simp add: unat_add_u32)
  have nz: "0 < unat k" using Suc.prems(2) by (simp add: unat_gt_0)
  show ?case
  proof (cases "n = 0")
    case True
    have "unat d \<le> unat a \<and> unat a < unat d + 1 \<longleftrightarrow> a = d" by (auto simp: word_unat_eq_iff)
    then show ?thesis using True by simp
  next
    case False
    have "copy_cells (Suc n) d (d + k) v a = copy_cells n (d + 1) (d + 1 + k) (v(d := v (d + k))) a"
      by (simp add: ac_simps)
    also have "\<dots> = (if unat (d + 1) \<le> unat a \<and> unat a < unat (d + 1) + n then (v(d := v (d + k))) (a + k) else (v(d := v (d + k))) a)"
      by (rule Suc.IH) (use Suc.prems d [OF False] in auto)
    also have "\<dots> = (if unat d \<le> unat a \<and> unat a < unat d + Suc n then v (a + k) else v a)"
    proof (cases "a = d")
      case True
      then show ?thesis using d [OF False] by simp
    next
      case False
      have "a + k \<noteq> d" if "unat d \<le> unat a" "unat a < unat d + Suc n"
      proof -
        have "unat (a + k) = unat a + unat k" using that Suc.prems(3) by (intro unat_add_u32) simp
        then show ?thesis using that nz by auto
      qed
      then show ?thesis using False d [OF \<open>n \<noteq> 0\<close>] by (auto simp: word_unat_eq_iff)
    qed
    finally show ?thesis .
  qed
qed auto

lemma unat_cell: "i < 32 \<Longrightarrow> j < 128 \<Longrightarrow> unat (of_nat (128 * i + j) :: u32) = 128 * i + j"
  by (simp add: unat_of_nat del: of_nat_add of_nat_mult)

lemma scroll_grid:
  "grid (vram (kernel_scroll_screen s)) =
     (\<lambda>i j. if i < 26 then grid (vram s) (Suc i) j else if i = 26 \<and> j < 128 then BLANK else grid (vram s) i j)"
proof (intro ext)
  fix i j :: nat
  let ?a = "of_nat (128 * i + j) :: u32"
  show "grid (vram (kernel_scroll_screen s)) i j =
      (if i < 26 then grid (vram s) (Suc i) j else if i = 26 \<and> j < 128 then BLANK else grid (vram s) i j)"
  proof (cases "i < 32 \<and> j < 128")
    case True
    note u = unat_cell [of i j]
    have m: "kernel_memset_uint v 3328 BLANK 128 ?a = (if i = 26 then BLANK else v ?a)" for v
    proof -
      have "unat (?a - 3328) < 128 \<longleftrightarrow> i = 26"
      proof (cases "i < 26")
        case True
        then have "unat (?a - 3328) = 2 ^ 32 + (128 * i + j) - 3328"
          using u \<open>i < 32 \<and> j < 128\<close> by (subst unat_sub_if_size) (simp add: word_size del: of_nat_add of_nat_mult)
        then show ?thesis using True \<open>i < 32 \<and> j < 128\<close> by simp
      next
        case False
        then have "unat (?a - 3328) = 128 * i + j - 3328"
          using u \<open>i < 32 \<and> j < 128\<close> by (subst unat_sub) (simp_all add: word_le_nat_alt del: of_nat_add of_nat_mult)
        then show ?thesis using False \<open>i < 32 \<and> j < 128\<close> by auto
      qed
      then show ?thesis by (simp add: kernel_memset_uint_def memset_loop_at)
    qed
    have c: "copy_cells 3328 0 128 v ?a = (if i < 26 then v (?a + 128) else v ?a)" for v
      using copy_cells_at [of 0 3328 128 v ?a] u True by (simp add: word_less_nat_alt del: of_nat_add of_nat_mult)
    have "?a + 128 = of_nat (128 * Suc i + j)" by simp
    moreover have "grid (vram (kernel_scroll_screen s)) i j = (if i = 26 then BLANK else if i < 26 then vram s (?a + 128) else vram s ?a)"
      using True by (simp add: grid_def kernel_scroll_screen_def VGA_COMMAND_MAX_ROW_def VGA_SCREEN_MAX_COL_def m [unfolded c]
          c del: of_nat_add of_nat_mult)
    ultimately show ?thesis using True by (auto simp: grid_def simp del: of_nat_add of_nat_mult)
  next
    case False
    then show ?thesis by (auto simp: grid_def)
  qed
qed

lemma set_cursor_simps [simp]:
  "row (kernel_set_cursor s) = row s" "col (kernel_set_cursor s) = col s" "vram (kernel_set_cursor s) = vram s"
  "view (kernel_set_cursor s) = view s" "screen_ok (kernel_set_cursor s) = screen_ok s"
  by (simp_all add: kernel_set_cursor_def view_def screen_ok_def)

lemma cursor_cell: "row s * 128 + col s = of_nat (128 * unat (row s) + unat (col s))"
  by simp

lemma putch_newline:
  assumes "screen_ok s"
  shows "screen_ok (kernel_putch 10 f b s)" and "view (kernel_putch 10 f b s) = term_newline (view s)"
proof -
  have r: "row s = 26 \<longleftrightarrow> unat (row s) = 26" by (simp add: word_unat_eq_iff)
  have p: "kernel_putch 10 f b s = kernel_set_cursor (if row s = 26 then kernel_scroll_screen (s\<lparr>col := 0\<rparr>) else s\<lparr>col := 0, row := row s + 1\<rparr>)"
    by (simp add: kernel_putch.simps VGA_COMMAND_MAX_ROW_def)
  have u: "unat (row s + 1) = Suc (unat (row s))" using assms by (simp add: screen_ok_def unat_add_u32)
  have k: "row (kernel_scroll_screen t) = row t" "col (kernel_scroll_screen t) = col t" for t
    by (simp_all add: kernel_scroll_screen_def Let_def)
  show "screen_ok (kernel_putch 10 f b s)"
    using assms u r by (auto simp: p screen_ok_def k)
  show "view (kernel_putch 10 f b s) = term_newline (view s)"
    using r u by (auto simp: p view_def term_newline_def k scroll_grid fun_eq_iff)
qed

lemma grid_memset:
  assumes "r < 32" and "c + n \<le> 128"
  shows "grid (memset_loop n (of_nat (128 * r + c)) x v) =
    (grid v)(r := (\<lambda>j. if c \<le> j \<and> j < c + n then x else grid v r j))"
  using assms(2)
proof (induction n arbitrary: c v)
  case (Suc n)
  have "of_nat (128 * r + c) + 1 = (of_nat (128 * r + Suc c) :: u32)" by simp
  then have "grid (memset_loop (Suc n) (of_nat (128 * r + c)) x v) =
      grid (memset_loop n (of_nat (128 * r + Suc c)) x (v(of_nat (128 * r + c) := x)))"
    by (simp only: memset_loop.simps)
  also have "\<dots> = (grid (v(of_nat (128 * r + c) := x)))(r := (\<lambda>j. if Suc c \<le> j \<and> j < Suc c + n then x else grid (v(of_nat (128 * r + c) := x)) r j))"
    using Suc.prems by (intro Suc.IH) simp
  also have "\<dots> = (grid v)(r := (\<lambda>j. if c \<le> j \<and> j < c + Suc n then x else grid v r j))"
    using Suc.prems assms(1) by (subst (1 2) grid_upd) (auto simp: fun_eq_iff)
  finally show ?case .
qed (auto simp: fun_eq_iff)

lemma tab_stop:
  fixes c :: u32
  assumes "unat c < 76"
  shows "unat ((4 - c) AND 0x3) = (4 - unat c mod 4) mod 4" and "unat ((c + 4) AND - 4) = 4 * (unat c div 4) + 4"
proof -
  have m: "(3 :: u32) = mask 2" "(- 4 :: u32) = NOT (mask 2)" by (simp_all add: mask_eq_exp_minus_1 not_eq_complement)
  have "unat ((4 - c) AND 0x3) = unat (4 - c) mod 4" by (simp add: m(1) unat_take_bit_u32 flip: take_bit_eq_mask)
  also have "\<dots> = (4 - unat c mod 4) mod 4"
  proof (cases "unat c \<le> 4")
    case True
    then have "unat (4 - c) = 4 - unat c" by (simp add: unat_sub word_le_nat_alt)
    then show ?thesis using True by (cases "unat c = 4") auto
  next
    case False
    then have "unat (4 - c) = 2 ^ 32 + 4 - unat c" using unat_sub_if_size [of 4 c] by (simp add: word_size)
    moreover have "(4294967300 - n) mod 4 = (4 - n mod 4) mod 4" if "n < 76" for n :: nat
    proof -
      have "n = 4 * (n div 4) + n mod 4" "n mod 4 < 4" "n div 4 < 19" using that by simp_all
      then have "4294967300 - n = 4 * (1073741824 - n div 4) + (4 - n mod 4)" by linarith
      then show ?thesis by (metis mod_mult_self4)
    qed
    ultimately show ?thesis using assms by simp
  qed
  finally show "unat ((4 - c) AND 0x3) = (4 - unat c mod 4) mod 4" .
  have "unat (c + 4) = unat c + 4" using assms by (simp add: unat_add_u32)
  then show "unat ((c + 4) AND - 4) = 4 * (unat c div 4) + 4"
    using div_add_self2 [of 4 "unat c"] by (simp add: m(2) and_not_mask unat_push_drop)
qed

lemma putch_view:
  assumes ok: "screen_ok s"
  shows "screen_ok (kernel_putch ch f b s) \<and> view (kernel_putch ch f b s) = term_put ch f b (view s)"
proof -
  consider "ch = 13" | "ch = 10" | "ch = 9" | "ch \<noteq> 13" "ch \<noteq> 10" "ch \<noteq> 9" by blast
  then show ?thesis
  proof cases
    case 1
    then show ?thesis using ok by (simp add: kernel_putch.simps term_put_def)
  next
    case 2
    then show ?thesis using putch_newline [OF ok] by (simp add: term_put_def)
  next
    case 3
    have "sint (76 :: u32) \<le> sint (col s) \<longleftrightarrow> 76 \<le> unat (col s)"
      using ok sint_small [of "col s"] sint_small [of "76"] uint_le_unat [of 76 "col s"] by (simp add: screen_ok_def)
    then have p: "kernel_putch 9 f b s = kernel_set_cursor (if 76 \<le> unat (col s) then kernel_putch 10 0 0 s
        else s\<lparr>vram := kernel_memset_uint (vram s) (row s * 128 + col s) BLANK ((4 - col s) AND 0x3), col := (col s + 4) AND (- 4)\<rparr>)"
      by (subst kernel_putch.simps) (simp add: VGA_DISPLAY_MAX_COL_def VGA_SCREEN_MAX_COL_def VGA_BLACK_def)
    show ?thesis
    proof (cases "76 \<le> unat (col s)")
      case True
      then show ?thesis using putch_newline [OF ok] 3 by (simp add: p term_put_def term_tab_def view_def)
    next
      case False
      note t = tab_stop [of "col s"]
      have "unat (col s) + (4 - unat (col s) mod 4) mod 4 \<le> 128"
        using False mod_less_divisor [of 4 "4 - unat (col s) mod 4"] by linarith
      then have "grid (kernel_memset_uint (vram s) (row s * 128 + col s) BLANK ((4 - col s) AND 0x3)) =
          (grid (vram s))(unat (row s) := (\<lambda>j. if unat (col s) \<le> j \<and> j < unat (col s) + (4 - unat (col s) mod 4) mod 4 then BLANK
             else grid (vram s) (unat (row s)) j))"
        unfolding cursor_cell kernel_memset_uint_def using ok False t(1)
        by (subst grid_memset) (auto simp: screen_ok_def simp del: of_nat_add of_nat_mult)
      then show ?thesis using 3 False ok t(2) by (auto simp: p term_put_def term_tab_def view_def screen_ok_def)
    qed
  next
    case 4
    define u where "u = (if col s = 80 then kernel_putch 10 0 0 s else s)"
    have c: "col s = 80 \<longleftrightarrow> unat (col s) = 80" by (simp add: word_unat_eq_iff)
    have u: "screen_ok u" "view u = (if unat (col s) = 80 then term_newline (view s) else view s)"
      using putch_newline [OF ok] ok c by (simp_all add: u_def)
    have l: "unat (col u) < 80"
      using c ok by (auto simp: u_def kernel_putch.simps kernel_scroll_screen_def Let_def screen_ok_def)
    have p: "kernel_putch ch f b s = kernel_set_cursor ((kernel_putchar_at_color ch f b (row u) (col u) u)\<lparr>col := col u + 1\<rparr>)"
      using 4 by (subst kernel_putch.simps) (simp add: VGA_DISPLAY_MAX_COL_def u_def kernel_putchar_at_color_def Let_def)
    have "row u AND 0x1F = row u" "col u AND 0x7F = col u"
    proof -
      have m: "(0x1F :: u32) = mask 5" "(0x7F :: u32) = mask 7" by (simp_all add: mask_eq_exp_minus_1)
      show "row u AND 0x1F = row u" "col u AND 0x7F = col u"
        using u(1) l by (simp_all add: m word_unat_eq_iff unat_take_bit_u32 screen_ok_def flip: take_bit_eq_mask)
    qed
    then have v: "vram (kernel_putchar_at_color ch f b (row u) (col u) u) =
        (vram u)(of_nat (128 * unat (row u) + unat (col u)) := char_cell ch f b)"
      by (simp add: kernel_putchar_at_color_def char_cell_def push_bit_eq_mult mult.commute)
    have g: "grid (vram (kernel_putchar_at_color ch f b (row u) (col u) u)) =
        (grid (vram u))(unat (row u) := (grid (vram u) (unat (row u)))(unat (col u) := char_cell ch f b))"
      unfolding v using u(1) l by (intro grid_upd) (auto simp: screen_ok_def)
    have k: "row (kernel_putchar_at_color ch f b r c t) = row t" for r c t
      by (simp add: kernel_putchar_at_color_def Let_def)
    have n: "unat (col u + 1) = Suc (unat (col u))" using l by (simp add: unat_add_u32)
    have "view (kernel_putch ch f b s) = (unat (row u), Suc (unat (col u)),
        (grid (vram u))(unat (row u) := (grid (vram u) (unat (row u)))(unat (col u) := char_cell ch f b)))"
      by (simp add: p view_def g k n)
    moreover have "term_put ch f b (view s) = (unat (row u), Suc (unat (col u)),
        (grid (vram u))(unat (row u) := (grid (vram u) (unat (row u)))(unat (col u) := char_cell ch f b)))"
      using 4 u(2) [symmetric] by (simp add: term_put_def term_char_def view_def split: if_splits)
    ultimately show ?thesis using u(1) l by (simp add: p screen_ok_def k n)
  qed
qed

lemma term_rows:
  assumes "r \<le> 26" and "term_put ch f b (r, c, g) = (r', c', g')" and "26 < i"
  shows "g' i = g i"
proof -
  have "g i = (\<lambda>j. g i j)" by simp
  then show ?thesis using assms
    by (auto simp: term_put_def term_newline_def term_char_def term_tab_def split: if_splits)
qed

lemma putch_rows:
  assumes "screen_ok s" and "26 < i"
  shows "grid (vram (kernel_putch ch f b s)) i = grid (vram s) i"
proof -
  have "term_put ch f b (unat (row s), unat (col s), grid (vram s)) =
      (unat (row (kernel_putch ch f b s)), unat (col (kernel_putch ch f b s)), grid (vram (kernel_putch ch f b s)))"
    using putch_view [OF assms(1), of ch f b] by (simp add: view_def)
  then show ?thesis using assms by (intro term_rows) (auto simp: screen_ok_def)
qed

lemma putstring_loop_view:
  "screen_ok s \<Longrightarrow> cstr m p cs \<Longrightarrow>
   \<exists>t. putstring_loop m p f b n s = Some (t, n + of_nat (length cs)) \<and> screen_ok t \<and>
     view t = fold (\<lambda>c. term_put (scast c) f b) cs (view s) \<and> (\<forall>i>26. grid (vram t) i = grid (vram s) i)"
proof (induction cs arbitrary: p n s)
  case Nil
  then show ?case by (subst putstring_loop.simps) simp
next
  case (Cons c cs)
  note v = putch_view [OF Cons.prems(1), of "scast c" f b]
  obtain t where t: "putstring_loop m (p + 1) f b (n + 1) (kernel_putch (scast c) f b s) = Some (t, n + 1 + of_nat (length cs))"
    "screen_ok t" "view t = fold (\<lambda>c. term_put (scast c) f b) cs (view (kernel_putch (scast c) f b s))"
    "\<forall>i>26. grid (vram t) i = grid (vram (kernel_putch (scast c) f b s)) i"
    using Cons.IH [of "kernel_putch (scast c) f b s" "p + 1" "n + 1"] Cons.prems v by auto
  then show ?case using Cons.prems v putch_rows [OF Cons.prems(1)]
    by (intro exI [of _ t]) (subst putstring_loop.simps, simp add: add.assoc)
qed

section \<open>Properties\<close>

text \<open>
  With the cursor in the text area, printing a string on the video memory is what a terminal does
  with its characters: each goes to the cell of the cursor, lines break behind 80 columns and at
  newlines, a newline in the last row moves the text up by one row and blanks the last one, tabs go
  to the next stop.  The cursor stays in the text area and no row below it changes.
\<close>

theorem putstring_terminal:
  assumes "screen_ok s" and "cstr m p cs"
  shows "\<exists>t. kernel_putstring m p f b s = Some (t, of_nat (length cs)) \<and> screen_ok t \<and>
    view t = fold (\<lambda>c. term_put (scast c) f b) cs (view s) \<and> (\<forall>i>26. grid (vram t) i = grid (vram s) i)"
  using putstring_loop_view [OF assms, of f b 0] by (simp add: kernel_putstring_def)

definition demo_screen :: screen where
  "demo_screen = \<lparr>row = 26, col = 79, freq = 31, vram = (\<lambda>_. 0), gpio_cursor = 0\<rparr>"

theorem putstring_terminal_witness:
  "\<exists>t. kernel_putstring ((\<lambda>_. 0)(0 := 65, 1 := 66)) 0 VGA_WHITE VGA_BLACK demo_screen = Some (t, 2) \<and>
     grid (vram t) 25 79 = 0xFFF41 \<and> grid (vram t) 26 0 = 0xFFF42 \<and> grid (vram t) 26 1 = BLANK"
proof -
  have "screen_ok demo_screen" "cstr ((\<lambda>_. 0)(0 := 65, 1 := 66)) 0 [65, 66]"
    by (simp_all add: demo_screen_def screen_ok_def)
  from putstring_terminal [OF this, of VGA_WHITE VGA_BLACK] show ?thesis
    by (auto simp: demo_screen_def view_def term_put_def term_char_def term_newline_def char_cell_def vga_consts)
qed

end
