(* ===== verification/Printf.thy ===== *)
theory Printf
  imports Screen
begin

text \<open>
  What the formatted output of \<^verbatim>\<open>src/kernel/driver/vga.c\<close> shows: the digits of numbers, and the characters of a
  format with its arguments put in.
\<close>

section \<open>Digits\<close>

text \<open>The digits of a number, each shown by \<open>g\<close>.\<close>

fun digits_by :: "(nat \<Rightarrow> u8) \<Rightarrow> nat \<Rightarrow> nat \<Rightarrow> u8 list" where
  "digits_by g b n = (if n < b \<or> b < 2 then [g n] else digits_by g b (n div b) @ [g (n mod b)])"

declare digits_by.simps [simp del]

definition dec_text :: "nat \<Rightarrow> u8 list" where
  "dec_text = digits_by (\<lambda>d. 48 + of_nat d) 10"

text \<open>For the least integer, which has no negation, the digits are subtracted from the character of zero.\<close>

definition int_text :: "u32 \<Rightarrow> u8 list" where
  "int_text v =
     (if v = 0x80000000 then 45 # digits_by (\<lambda>d. 48 - of_nat d) 10 (2 ^ 31)
      else if sint v < 0 then 45 # dec_text (unat (- v)) else dec_text (unat v))"

definition hex_char :: "bool \<Rightarrow> nat \<Rightarrow> u8" where
  "hex_char isUpper d = (if d < 10 then 48 + of_nat d else (if isUpper then 65 else 97) + of_nat (d - 10))"

definition hex_text :: "bool \<Rightarrow> u32 \<Rightarrow> u8 list" where
  "hex_text isUpper v = digits_by (hex_char isUpper) 16 (unat v)"

lemma length_digits_by: "0 < k \<Longrightarrow> n < b ^ k \<Longrightarrow> 2 \<le> b \<Longrightarrow> length (digits_by g b n) \<le> k"
proof (induction k arbitrary: n)
  case (Suc k)
  show ?case
  proof (cases "n < b")
    case True
    then show ?thesis by (subst digits_by.simps) simp
  next
    case False
    with Suc.prems have "0 < k" by (cases k) auto
    moreover have "n div b < b ^ k" using Suc.prems by (simp add: less_mult_imp_div_less mult.commute)
    ultimately have "length (digits_by g b (n div b)) \<le> k" using Suc by simp
    then show ?thesis using False Suc.prems by (subst digits_by.simps) simp
  qed
qed simp

text \<open>A character in front of a string.\<close>

lemma range_is_upd_far: "length xs \<le> unat (q - p) \<Longrightarrow> range_is (m(q := v)) p xs = range_is m p xs" for p q :: u32
proof (induction xs arbitrary: p)
  case (Cons x xs)
  have n: "q \<noteq> p" using Cons.prems by auto
  then have "unat (q - (p + 1)) = unat (q - p) - 1" using unat_minus_one [of "q - p"] by (simp add: diff_diff_add)
  then show ?case using Cons n by simp
qed simp

lemma cstr_before: "cstr m p cs \<Longrightarrow> length cs < 2 ^ 32 - 1 \<Longrightarrow> c \<noteq> 0 \<Longrightarrow> cstr (m(p - 1 := c)) (p - 1) (c # cs)"
  using range_is_upd_far [of "cs @ [0]" "p - 1" p m c] by (simp add: cstr_def unat_minus_1_u32)

lemma put_digits_text:
  assumes "\<And>d. d < 10 \<Longrightarrow> g d \<noteq> 0" and "\<And>d. d < 10 \<Longrightarrow> of_int (sg * int d) + 48 = g d" and "sg = 1 \<or> sg = - 1"
  shows "0 < n \<Longrightarrow> cstr m ptr cs \<Longrightarrow> length cs + n < 2 ^ 32 - 1 \<Longrightarrow>
    \<exists>m' p'. put_digits (sg * int n) ptr m = (m', p') \<and> cstr m' p' (digits_by g 10 n @ cs)"
proof (induction n arbitrary: m ptr cs rule: less_induct)
  case (less n)
  have q: "sg * int n \<noteq> 0" "(sg * int n) sdiv 10 = sg * int (n div 10)" "(sg * int n) smod 10 = sg * int (n mod 10)"
    using assms(3) less.prems(1) by (auto simp: signed_divide_int_def signed_modulo_int_def zdiv_int zmod_int)
  let ?m = "m(ptr - 1 := g (n mod 10))"
  have c: "cstr ?m (ptr - 1) (g (n mod 10) # cs)" using less.prems assms(1) by (intro cstr_before) auto
  have step: "put_digits (sg * int n) ptr m = put_digits (sg * int (n div 10)) (ptr - 1) ?m"
    using q assms(2) [of "n mod 10"] by (subst put_digits.simps) simp
  show ?case
  proof (cases "n < 10")
    case True
    then show ?thesis
      using c step by (simp add: digits_by.simps [of g 10 n] put_digits.simps [of 0])
  next
    case False
    then have "n div 10 < n" "0 < n div 10" by auto
    moreover have "length (g (n mod 10) # cs) + n div 10 < 2 ^ 32 - 1" using less.prems(3) \<open>n div 10 < n\<close> by simp
    ultimately show ?thesis
      using less.IH [OF \<open>n div 10 < n\<close> \<open>0 < n div 10\<close> c] step False by (simp add: digits_by.simps [of g 10 n] del: fun_upd_apply)
  qed
qed

section \<open>Numbers on the screen\<close>

text \<open>A list of characters with their colours, put on the screen one after the other.\<close>

type_synonym cells = "(u8 \<times> u32 \<times> u32) list"

definition term_cells :: "cells \<Rightarrow> terminal \<Rightarrow> terminal" where
  "term_cells = fold (\<lambda>(c, f, b). term_put (scast c) f b)"

definition displays :: "screen \<Rightarrow> cells \<Rightarrow> screen \<Rightarrow> bool" where
  "displays s cs t \<longleftrightarrow> screen_ok t \<and> view t = term_cells cs (view s) \<and> (\<forall>i>26. grid (vram t) i = grid (vram s) i)"

abbreviation coloured :: "u32 \<Rightarrow> u32 \<Rightarrow> u8 list \<Rightarrow> cells" where
  "coloured f b \<equiv> map (\<lambda>c. (c, f, b))"

lemma displays_Nil: "screen_ok s \<Longrightarrow> displays s [] s"
  by (simp add: displays_def term_cells_def)

lemma displays_append: "displays s cs t \<Longrightarrow> displays t ds u \<Longrightarrow> displays s (cs @ ds) u"
  by (simp add: displays_def term_cells_def)

lemma displays_ok: "displays s cs t \<Longrightarrow> screen_ok t"
  by (simp add: displays_def)

lemma displays_putch: "screen_ok s \<Longrightarrow> displays s [(c, f, b)] (kernel_putch (scast c) f b s)"
  using putch_view [of s "scast c" f b] putch_rows [of s _ "scast c" f b] by (simp add: displays_def term_cells_def)

lemma fold_coloured: "fold (\<lambda>c. term_put (scast c) f b) cs = term_cells (coloured f b cs)"
  by (induction cs) (simp_all add: term_cells_def)

lemma displays_putstring:
  "screen_ok s \<Longrightarrow> cstr m p cs \<Longrightarrow>
     \<exists>t. kernel_putstring m p f b s = Some (t, of_nat (length cs)) \<and> displays s (coloured f b cs) t"
  using putstring_loop_view [of s m p cs f b 0] by (auto simp: kernel_putstring_def displays_def fold_coloured)

definition int_cells :: "u32 \<Rightarrow> u32 \<Rightarrow> u32 \<Rightarrow> cells" where
  "int_cells f b v = (if v = 0 then [(48, VGA_WHITE, VGA_BLACK)] else coloured f b (int_text v))"

lemma dec_char_nonzero: "d < 10 \<Longrightarrow> (48 + of_nat d :: u8) \<noteq> 0 \<and> (48 - of_nat d :: u8) \<noteq> 0"
proof
  assume d: "d < 10"
  have "unat (48 + of_nat d :: u8) = 48 + d" using d by (simp add: unat_word_ariths unat_of_nat)
  then show "(48 + of_nat d :: u8) \<noteq> 0" by force
  have "(48 - of_nat d :: u8) = of_nat (48 - d)" using d by (simp add: of_nat_diff)
  then have "unat (48 - of_nat d :: u8) = 48 - d" using d by (simp add: unat_of_nat del: of_nat_diff)
  then show "(48 - of_nat d :: u8) \<noteq> 0" using d by force
qed

lemma sint_u32: "sint v = (if uint v < 2 ^ 31 then uint v else uint v - 2 ^ 32)" for v :: u32
proof -
  have s: "sint v = (uint v + 2 ^ 31) mod 2 ^ 32 - 2 ^ 31" using int_word_sint [of "uint v", where 'a = 32] by simp
  have r: "0 \<le> uint v" "uint v < 2 ^ 32" using uint_lt2p [of v] by simp_all
  show ?thesis
  proof (cases "uint v < 2 ^ 31")
    case True
    then have "(uint v + 2 ^ 31) mod 2 ^ 32 = uint v + 2 ^ 31" using r(1) by (intro mod_pos_pos_trivial) auto
    then show ?thesis using s True by simp
  next
    case False
    have "(uint v + 2 ^ 31) mod 2 ^ 32 = ((uint v - 2 ^ 31) + 2 ^ 32) mod 2 ^ 32" by (simp add: add.commute)
    also have "\<dots> = (uint v - 2 ^ 31) mod 2 ^ 32" by (rule mod_add_self2)
    also have "\<dots> = uint v - 2 ^ 31" using r False by (intro mod_pos_pos_trivial) auto
    finally show ?thesis using s False by simp
  qed
qed

lemma uint_neg_u32: "v \<noteq> 0 \<Longrightarrow> uint (- v) = 2 ^ 32 - uint v" for v :: u32
  using uint_lt2p [of v] by (simp add: uint_word_ariths zmod_zminus1_eq_if uint_0_iff)

lemma sint_least_u32: "sint (0x80000000 :: u32) = - (2 ^ 31)" "uint (0x80000000 :: u32) = 2 ^ 31" "- (0x80000000 :: u32) = 0x80000000"
  by (simp_all add: sint_u32)

lemma displays_putint:
  assumes "screen_ok s"
  shows "\<exists>t. kernel_putint v f b s = Some t \<and> displays s (int_cells f b v) t"
proof (cases "v = 0")
  case True
  then show ?thesis using displays_putch [OF assms, of 48 VGA_WHITE VGA_BLACK]
    by (simp add: kernel_putint_def int_cells_def kernel_putchar_def)
next
  case False
  define w where "w = (if sint v < 0 then - v else v)"
  have w: "w \<noteq> 0" using False by (simp add: w_def)
  define g where "g = (\<lambda>d. if v = 0x80000000 then 48 - of_nat d else 48 + of_nat d :: u8)"
  define sg :: int where "sg = (if v = 0x80000000 then - 1 else 1)"
  have v: "uint v \<noteq> 0" "0 \<le> uint v" "uint v < 2 ^ 32" using False uint_lt2p [of v] by (simp_all add: uint_0_iff)
  have "sint w = sg * uint w \<and> 0 < uint w \<and> uint w \<le> 2147483648"
  proof (cases "v = 0x80000000")
    case True
    then show ?thesis unfolding w_def sg_def True by (simp add: sint_least_u32)
  next
    case ne: False
    then have "uint v \<noteq> 2 ^ 31" using sint_least_u32(2) by (metis word_uint_eqI)
    have "0 < uint v" using v(1,2) by linarith
    have ww: "w = (if uint v < 2 ^ 31 then v else - v)" using v by (auto simp: w_def sint_u32)
    show ?thesis
    proof (cases "uint v < 2 ^ 31")
      case True
      then have "w = v" "sint v = uint v" using ww by (simp_all add: sint_u32)
      then show ?thesis using \<open>0 < uint v\<close> True ne by (simp add: sg_def)
    next
      case g: False
      then have w': "w = - v" using ww by simp
      have u: "uint w = 2 ^ 32 - uint v" using uint_neg_u32 [OF False] w' by simp
      have "2 ^ 31 < uint v" using g \<open>uint v \<noteq> 2 ^ 31\<close> by simp
      then have b: "0 < uint w" "uint w < 2 ^ 31" using u v(3) by simp_all
      then have "sint w = uint w" by (simp add: sint_u32 [of w])
      then show ?thesis using b ne by (simp add: sg_def)
    qed
  qed
  moreover have i: "uint w = int (unat w)" by simp
  ultimately have n: "sint w = sg * int (unat w)" "0 < unat w" "unat w \<le> 2147483648"
    unfolding i by linarith+
  have "\<exists>b' p'. put_digits (sg * int (unat w)) 11 (\<lambda>_. 0) = (b', p') \<and> cstr b' p' (digits_by g 10 (unat w) @ [])"
  proof (rule put_digits_text)
    show "g d \<noteq> 0" if "d < 10" for d using dec_char_nonzero [OF that] by (simp add: g_def)
    show "of_int (sg * int d) + 48 = g d" if "d < 10" for d by (simp add: g_def sg_def)
    show "sg = 1 \<or> sg = - 1" by (simp add: sg_def)
    show "length ([] :: u8 list) + unat w < 2 ^ 32 - 1" using n(3) by simp
  qed (use n(2) in simp_all)
  then obtain b' p' where d: "put_digits (sint w) 11 (\<lambda>_. 0) = (b', p')" "cstr b' p' (digits_by g 10 (unat w))"
    by (auto simp: n(1))
  have l: "length (digits_by g 10 (unat w)) \<le> 10" using n(3) by (intro length_digits_by) auto
  have t: "int_text v = (if sint v < 0 then [45] else []) @ digits_by g 10 (unat w)"
  proof (cases "v = 0x80000000")
    case True
    then have "g = (\<lambda>d. 48 - of_nat d)" "unat w = 2 ^ 31" "sint v < 0" by (simp_all add: g_def w_def sint_least_u32)
    then show ?thesis using True by (simp only: int_text_def) simp
  next
    case ne: False
    then have "g = (\<lambda>d. 48 + of_nat d)" by (simp add: g_def)
    then show ?thesis using ne by (simp add: int_text_def dec_text_def w_def)
  qed
  show ?thesis
  proof (cases "sint v < 0")
    case neg: True
    have "cstr (b'(p' - 1 := 45)) (p' - 1) (int_text v)" using cstr_before [OF d(2), of 45] l neg by (simp add: t)
    from displays_putstring [OF assms this, of f b] show ?thesis
      using neg d(1) w False by (auto simp: kernel_putint_def int_cells_def w_def Let_def)
  next
    case False
    have "cstr b' p' (int_text v)" using d(2) False by (simp add: t)
    from displays_putstring [OF assms this, of f b] show ?thesis
      using False \<open>v \<noteq> 0\<close> d(1) by (auto simp: kernel_putint_def int_cells_def w_def Let_def)
  qed
qed

text \<open>The hexadecimal digits; a character is found in a table, and moved to the capital letters.\<close>

lemma hex_map: "d < 16 \<Longrightarrow> HEX_MAP ! d + (if isUpper \<and> 9 < d then 65 - 97 else 0) = hex_char isUpper d \<and> hex_char isUpper d \<noteq> 0"
proof -
  assume "d < 16"
  then have "d \<in> set [0..<16]" by simp
  then show ?thesis
    by (simp add: upt_rec del: set_upt) (elim disjE; simp add: HEX_MAP_def hex_char_def)
qed

lemma vga_hex_loop_text:
  "0 < unat hex \<Longrightarrow> cstr m ptr cs \<Longrightarrow> length cs < 100 \<Longrightarrow> unat hex < 16 ^ k \<Longrightarrow> k + length cs < 100 \<Longrightarrow>
   \<exists>m' p'. vga_hex_loop isUpper hex ptr m = (m', p') \<and> cstr m' p' (hex_text isUpper hex @ cs)"
proof (induction k arbitrary: hex m ptr cs)
  case (Suc k)
  let ?d = "unat hex mod 16"
  have "hex AND 0xF = take_bit 4 hex" by (simp add: take_bit_eq_mask mask_eq_exp_minus_1)
  then have v: "unat (hex AND 0xF) = ?d" by (simp add: unat_take_bit_u32)
  have dd: "unat (drop_bit 4 hex) = unat hex div 16" by (simp add: unat_drop_bit_u32)
  have "(9 < hex AND 0xF) = (9 < ?d)" using v by (simp add: word_less_nat_alt)
  then have c: "HEX_MAP ! unat (hex AND 0xF) + (if isUpper \<and> 9 < hex AND 0xF then 65 - 97 else 0) = hex_char isUpper ?d"
    "hex_char isUpper ?d \<noteq> 0" using hex_map [of ?d isUpper] v by simp_all
  let ?m = "m(ptr - 1 := hex_char isUpper ?d)"
  have s: "cstr ?m (ptr - 1) (hex_char isUpper ?d # cs)" using Suc.prems(2,3) c(2) by (intro cstr_before) auto
  have "hex \<noteq> 0" using Suc.prems(1) by auto
  then have step: "vga_hex_loop isUpper hex ptr m = vga_hex_loop isUpper (drop_bit 4 hex) (ptr - 1) ?m"
    using c(1) by (subst vga_hex_loop.simps) (simp add: Let_def)
  show ?case
  proof (cases "unat hex < 16")
    case True
    then have "drop_bit 4 hex = 0" using dd by (simp add: word_unat_eq_iff)
    then show ?thesis
      using s step True by (simp add: hex_text_def digits_by.simps [of _ 16 "unat hex"] vga_hex_loop.simps [of _ 0] del: fun_upd_apply)
  next
    case False
    have "\<exists>m' p'. vga_hex_loop isUpper (drop_bit 4 hex) (ptr - 1) ?m = (m', p') \<and>
        cstr m' p' (hex_text isUpper (drop_bit 4 hex) @ hex_char isUpper ?d # cs)"
      by (rule Suc.IH [OF _ s]) (use dd False Suc.prems(3-5) in \<open>auto simp: less_mult_imp_div_less mult.commute\<close>)
    then show ?thesis using step False dd by (simp add: hex_text_def digits_by.simps [of _ 16 "unat hex"] del: fun_upd_apply)
  qed
qed simp

lemma displays_puthex:
  assumes "screen_ok s"
  shows "\<exists>t. kernel_puthex v isUpper f b s = Some t \<and> displays s (coloured f b (hex_text isUpper v)) t"
proof (cases "v = 0")
  case True
  have "hex_text isUpper 0 = [48]" by (simp add: hex_text_def digits_by.simps hex_char_def)
  then show ?thesis using displays_putch [OF assms, of 48 f b] True by (simp add: kernel_puthex_def)
next
  case False
  have u: "unat v < 16 ^ 8" using unat_u32 [of v] by simp
  have "\<exists>m' p'. vga_hex_loop isUpper v 11 (\<lambda>_. 0) = (m', p') \<and> cstr m' p' (hex_text isUpper v @ [])"
    by (rule vga_hex_loop_text [OF _ _ _ u]) (use False in \<open>simp_all add: unat_gt_0\<close>)
  then obtain m' p' where h: "vga_hex_loop isUpper v 11 (\<lambda>_. 0) = (m', p')" "cstr m' p' (hex_text isUpper v)" by auto
  from displays_putstring [OF assms h(2), of f b] show ?thesis using h(1) False by (auto simp: kernel_puthex_def)
qed

section \<open>Formats\<close>

text \<open>What one directive shows; \<open>str\<close> are the strings at the addresses given for \<open>%s\<close>.\<close>

definition directive_cells :: "(u32 \<Rightarrow> u8 list) \<Rightarrow> u32 \<Rightarrow> u32 \<Rightarrow> u8 \<Rightarrow> u32 \<Rightarrow> cells" where
  "directive_cells str f b type v =
     (if type = 99 then [(ucast v, f, b)] else if type = 100 then int_cells f b v
      else if type = 120 \<or> type = 88 then coloured f b (hex_text (type = 88) v) else coloured f b (str v))"

text \<open>
  The characters of a format and its result; a directive without argument has none, and an unknown one
  ends the output with \<open>- 1\<close>.
\<close>

fun format_cells :: "(u32 \<Rightarrow> u8 list) \<Rightarrow> u32 \<Rightarrow> u32 \<Rightarrow> u8 list \<Rightarrow> u32 list \<Rightarrow> u32 \<Rightarrow> (cells \<times> u32) option" where
  "format_cells str f b [] args cnt = Some ([], cnt)"
| "format_cells str f b (c # cs) args cnt =
     (if c \<noteq> 37 then map_option (\<lambda>(out, n). ((c, f, b) # out, n)) (format_cells str f b cs args cnt)
      else case cs of [] \<Rightarrow> Some ([], - 1)
        | type # cs' \<Rightarrow>
            if type \<in> {99, 100, 120, 88, 115}
            then (case args of [] \<Rightarrow> None
              | v # args' \<Rightarrow> map_option (\<lambda>(out, n). (directive_cells str f b type v @ out, n)) (format_cells str f b cs' args' (cnt + 1)))
            else Some ([], - 1))"

text \<open>The arguments that are taken for strings.\<close>

fun string_args :: "u8 list \<Rightarrow> u32 list \<Rightarrow> u32 list" where
  "string_args [] args = []"
| "string_args (c # cs) args =
     (if c \<noteq> 37 then string_args cs args
      else case cs of [] \<Rightarrow> []
        | type # cs' \<Rightarrow> (case args of [] \<Rightarrow> [] | v # args' \<Rightarrow> (if type = 115 then [v] else []) @ string_args cs' args'))"

lemma displays_print_one:
  assumes "screen_ok s" and "type = 115 \<Longrightarrow> cstr m v (str v)" and "type \<in> {99, 100, 120, 88, 115}"
  shows "\<exists>t. kernel_print_one m f b type v s = Some t \<and> displays s (directive_cells str f b type v) t"
proof -
  consider "type = 99" | "type = 100" | "type = 120 \<or> type = 88" | "type = 115" using assms(3) by auto
  then show ?thesis
  proof cases
    case 1
    then show ?thesis using displays_putch [OF assms(1), of "ucast v" f b] by (simp add: kernel_print_one_def directive_cells_def)
  next
    case 2
    then show ?thesis using displays_putint [OF assms(1), of v f b] by (simp add: kernel_print_one_def directive_cells_def)
  next
    case 3
    then show ?thesis
      using displays_puthex [OF assms(1), of v "type = 88" f b] by (auto simp: kernel_print_one_def directive_cells_def)
  next
    case 4
    from displays_putstring [OF assms(1) assms(2) [OF 4], of f b] show ?thesis
      using 4 by (auto simp: kernel_print_one_def directive_cells_def)
  qed
qed

lemma printf_loop_displays:
  assumes "screen_ok s" and "cstr m p cs" and "format_cells str f b cs args cnt = Some (out, n)"
    and "\<And>v. v \<in> set (string_args cs args) \<Longrightarrow> cstr m v (str v)"
  shows "\<exists>t. printf_loop m f b p args cnt s = Some (t, n) \<and> displays s out t"
  using assms
proof (induction str f b cs args cnt arbitrary: s p out n rule: format_cells.induct)
  case (1 str f b args cnt)
  then show ?case by (subst printf_loop.simps) (simp add: displays_Nil)
next
  case (2 str f b c cs args cnt)
  have c: "m p = c" "c \<noteq> 0" "cstr m (p + 1) cs" using 2(4) by simp_all
  show ?case
  proof (cases "c = 37")
    case False
    then obtain out' where o': "format_cells str f b cs args cnt = Some (out', n)" "out = (c, f, b) # out'" using 2(5) by auto
    note d = displays_putch [OF 2(3), of c f b]
    from 2(1) [OF False displays_ok [OF d] c(3) o'(1)] 2(6) False obtain t where
      "printf_loop m f b (p + 1) args cnt (kernel_putch (scast c) f b s) = Some (t, n)" "displays (kernel_putch (scast c) f b s) out' t"
      by auto
    then show ?thesis
      using c False o'(2) displays_append [OF d] by (subst printf_loop.simps) auto
  next
    case True
    show ?thesis
    proof (cases "cs \<noteq> [] \<and> hd cs \<in> {99, 100, 120, 88, 115}")
      case False
      then have "out = []" "n = - 1" using 2(5) True by (auto split: list.splits if_splits)
      moreover have "m (p + 1) \<notin> {99, 100, 120, 88, 115}" using c(3) False by (cases cs) auto
      ultimately show ?thesis using c True displays_Nil [OF 2(3)] by (subst printf_loop.simps) auto
    next
      case t: True
      then obtain type cs' where cs: "cs = type # cs'" "type \<in> {99, 100, 120, 88, 115}" by (cases cs) auto
      then obtain v args' out' where a: "args = v # args'" "format_cells str f b cs' args' (cnt + 1) = Some (out', n)"
        "out = directive_cells str f b type v @ out'"
        using 2(5) True by (auto split: list.splits)
      have "type = 115 \<Longrightarrow> cstr m v (str v)" using 2(6) True by (simp add: cs(1) a(1))
      from displays_print_one [of s type m v str, OF 2(3) this cs(2), of f b] obtain s1 where s1:
        "kernel_print_one m f b type v s = Some s1" "displays s (directive_cells str f b type v) s1" by blast
      have "cstr m (p + 2) cs'" using c(3) by (simp add: cs(1) add.assoc)
      from 2(2) [OF _ cs(1) cs(2) a(1) displays_ok [OF s1(2)] this a(2)] True 2(6) obtain t where
        "printf_loop m f b (p + 2) args' (cnt + 1) s1 = Some (t, n)" "displays s1 out' t"
        by (auto simp: cs(1) a(1))
      then show ?thesis
        using c True cs s1 a displays_append [OF s1(2)] by (subst printf_loop.simps) (auto simp: take_arg_def)
    qed
  qed
qed

text \<open>
  C36.  With the cursor in the text area, formatted output on the video memory is what a terminal does
  with the characters of the format with its arguments put in: decimal numbers with their sign, hexadecimal
  numbers, characters, and the strings in memory.  Two things depart from that: a decimal zero is shown
  in white, whatever the colour, and an unknown directive ends the output with the result \<open>- 1\<close>; the
  digits of the least integer are no digits.
\<close>

theorem printf_terminal:
  assumes "screen_ok s" and "cstr m p cs" and "format_cells str f b cs args 0 = Some (out, n)"
    and "\<And>v. v \<in> set (string_args cs args) \<Longrightarrow> cstr m v (str v)"
  shows "\<exists>t. kernel_printf_argList m f b p args s = Some (t, n) \<and> screen_ok t \<and> view t = term_cells out (view s) \<and>
    (\<forall>i>26. grid (vram t) i = grid (vram s) i)"
  using printf_loop_displays [OF assms] by (simp add: kernel_printf_argList_def displays_def)

text \<open>The output of \<open>"%d%x"\<close> for \<open>- 42\<close> and \<open>255\<close> at the end of a line.\<close>

theorem printf_terminal_witness:
  "\<exists>t. kernel_printf_argList ((\<lambda>_. 0)(0 := 37, 1 := 100, 2 := 37, 3 := 120)) VGA_RED VGA_BLACK 0 [- 42, 255] demo_screen = Some (t, 2) \<and>
     map (grid (vram t) 25) [79] @ map (grid (vram t) 26) [0, 1, 2, 3] = [0xF2D, 0xF34, 0xF32, 0xF66, 0xF66]"
proof -
  have ok: "screen_ok demo_screen" "cstr ((\<lambda>_. 0)(0 := 37, 1 := 100, 2 := 37, 3 := 120)) 0 [37, 100, 37, 120]"
    by (simp_all add: demo_screen_def screen_ok_def)
  have i: "int_cells VGA_RED VGA_BLACK (- 42) = coloured VGA_RED VGA_BLACK [45, 52, 50]"
    by (simp add: int_cells_def int_text_def dec_text_def digits_by.simps)
  have h: "hex_text False 255 = [102, 102]" by (simp add: hex_text_def digits_by.simps hex_char_def)
  have "format_cells (\<lambda>_. []) VGA_RED VGA_BLACK [37, 100, 37, 120] [- 42, 255] 0 =
      Some (coloured VGA_RED VGA_BLACK [45, 52, 50, 102, 102], 2)"
    by (simp add: directive_cells_def i h)
  from printf_terminal [OF ok this] show ?thesis
    by (auto simp: demo_screen_def view_def term_cells_def term_put_def term_char_def term_newline_def char_cell_def vga_consts)
qed

end
