(* ===== verification/Clock.thy ===== *)
theory Clock
  imports Screen Interrupts
begin

text \<open>
  The clock, \<^verbatim>\<open>src/kernel/time/time.c\<close>: the time of day from the 64-bit tick counter of the
  board and its display on the screen.  The two words of the counter are arguments.
\<close>

definition get_time_string :: "u32 \<Rightarrow> u32 \<Rightarrow> u32 \<Rightarrow> mem \<Rightarrow> mem" where
  "get_time_string ticks_high ticks_low buf m =
     (let ticks_low = drop_bit 8 ticks_low OR push_bit 24 ticks_high;
          ticks_high = drop_bit 8 ticks_high;
          second = ticks_high mod 390625;
          second = second * 10995 + (second * 45421) mod 390625;
          second = second + ticks_low div 390625;
          minute = second div 60;
          hour = minute div 60;
          second = second mod 60;
          minute = minute mod 60;
          hour = hour mod 24
      in m(buf := ucast (hour div 10 + 48), buf + 1 := ucast (hour mod 10 + 48), buf + 2 := 58,
           buf + 3 := ucast (minute div 10 + 48), buf + 4 := ucast (minute mod 10 + 48), buf + 5 := 58,
           buf + 6 := ucast (second div 10 + 48), buf + 7 := ucast (second mod 10 + 48)))"

primrec put_bytes_at :: "u8 list \<Rightarrow> u32 \<Rightarrow> u32 \<Rightarrow> screen \<Rightarrow> screen" where
  "put_bytes_at [] r c s = s"
| "put_bytes_at (x # xs) r c s = put_bytes_at xs r (c + 1) (kernel_putchar_at (scast x) r c s)"

text \<open>The bytes of \<open>"2017/08/22 "\<close>.\<close>

definition clock_day :: "u8 list" where
  "clock_day = [50, 48, 49, 55, 47, 48, 56, 47, 50, 50, 32]"

definition time_handler :: "u32 \<Rightarrow> u32 \<Rightarrow> screen \<Rightarrow> cp0 \<Rightarrow> screen \<times> cp0" where
  "time_handler ticks_high ticks_low s t =
     (let buffer = get_time_string ticks_high ticks_low 0 (\<lambda>_. 0);
          s = put_bytes_at clock_day VGA_DISPLAY_MAX_ROW 59 s;
          s = put_bytes_at (map (\<lambda>i. buffer (of_nat i)) [0..<8]) VGA_DISPLAY_MAX_ROW (59 + 11) s
      in (s, t\<lparr>cp0_count := 0\<rparr>))"

definition init_time :: "u32 \<Rightarrow> 'h \<Rightarrow> ('h, 'z) vectors_scheme \<Rightarrow> ('h, 'z) vectors_scheme" where
  "init_time operand handler v =
     (let v = register_interrupt_handler operand 7 handler v
      in v\<lparr>cop0 := (cop0 v)\<lparr>cp0_compare := 100000000, cp0_count := 0\<rparr>\<rparr>)"

definition get_time :: "u32 \<Rightarrow> u32 \<Rightarrow> u32 \<Rightarrow> u32 \<Rightarrow> mem \<Rightarrow> mem option" where
  "get_time ticks_high ticks_low buf len m =
     do {
       _ \<leftarrow> kernel_assert (sint len \<ge> 9);
       Some ((get_time_string ticks_high ticks_low buf m)(buf + 8 := 0))
     }"

section \<open>The time of day\<close>

definition two_digits :: "nat \<Rightarrow> u8 list" where
  "two_digits n = [of_nat (48 + n div 10), of_nat (48 + n mod 10)]"

definition time_text :: "nat \<Rightarrow> u8 list" where
  "time_text sec = two_digits (sec div 3600 mod 24) @ [58] @ two_digits (sec div 60 mod 60) @ [58] @ two_digits (sec mod 60)"

lemma digit_bytes:
  "unat x < 100 \<Longrightarrow> [ucast (x div 10 + 48), ucast (x mod 10 + 48)] = two_digits (unat x)" for x :: u32
proof -
  assume x: "unat x < 100"
  have u: "ucast y = (of_nat (unat y) :: u8)" for y :: u32 by simp
  have "unat (x div 10 + 48) = 48 + unat x div 10" "unat (x mod 10 + 48) = 48 + unat x mod 10"
    using x by (simp_all add: unat_add_u32 unat_div unat_mod)
  then show ?thesis unfolding u by (simp add: two_digits_def)
qed

text \<open>What is shown, as a function of the seconds that the code computes.\<close>

lemma get_time_string_text:
  assumes "second = (drop_bit 8 hi mod 390625) * 10995 + ((drop_bit 8 hi mod 390625) * 45421) mod 390625 +
      (drop_bit 8 lo OR push_bit 24 hi) div 390625"
  shows "map (\<lambda>i. get_time_string hi lo buf m (buf + of_nat i)) [0..<8] = time_text (unat second)"
proof -
  have b: "map (\<lambda>i. m' (buf + of_nat i)) [0..<8] =
      [m' buf, m' (buf + 1), m' (buf + 2), m' (buf + 3), m' (buf + 4), m' (buf + 5), m' (buf + 6), m' (buf + 7)]" for m' :: mem
    by (simp add: upt_rec)
  let ?h = "second div 60 div 60 mod 24" and ?m = "second div 60 mod 60" and ?s = "second mod 60"
  have h: "unat ?h = unat second div 3600 mod 24" by (simp add: unat_div unat_mod div_mult2_eq [symmetric])
  have m: "unat ?m = unat second div 60 mod 60" "unat ?s = unat second mod 60" by (simp_all add: unat_div unat_mod)
  have "map (\<lambda>i. get_time_string hi lo buf m (buf + of_nat i)) [0..<8] =
      [ucast (?h div 10 + 48), ucast (?h mod 10 + 48)] @ [58] @ [ucast (?m div 10 + 48), ucast (?m mod 10 + 48)] @ [58] @
      [ucast (?s div 10 + 48), ucast (?s mod 10 + 48)]"
    unfolding b by (simp add: get_time_string_def assms Let_def)
  also have "\<dots> = time_text (unat second)"
    using digit_bytes [of ?h] digit_bytes [of ?m] digit_bytes [of ?s] by (simp add: time_text_def h m)
  finally show ?thesis .
qed

lemma ticks_word:
  fixes hi lo :: u32
  assumes "hi < 256"
  shows "unat (drop_bit 8 lo OR push_bit 24 hi) = (unat hi * 2 ^ 32 + unat lo) div 256" and "drop_bit 8 hi = 0"
proof -
  have h: "unat hi < 256" using assms by (simp add: word_less_nat_alt)
  then show "drop_bit 8 hi = 0" by (simp add: word_unat_eq_iff unat_drop_bit_u32)
  have "drop_bit 8 lo + push_bit 24 hi = drop_bit 8 lo OR push_bit 24 hi"
  proof (rule disjunctive_add)
    show "\<not> bit (drop_bit 8 lo) n \<or> \<not> bit (push_bit 24 hi) n" for n
      using bit_imp_le_length [of lo "8 + n"] by (auto simp: bit_simps)
  qed
  moreover have p: "unat (push_bit 24 hi) = unat hi * 2 ^ 24"
    using h by (simp add: push_bit_eq_mult unat_word_ariths)
  moreover have "unat (drop_bit 8 lo + push_bit 24 hi) = unat lo div 256 + unat hi * 2 ^ 24"
    using h unat_u32 [of lo] by (subst unat_add_u32) (auto simp: p unat_drop_bit_u32)
  ultimately have "unat (drop_bit 8 lo OR push_bit 24 hi) = unat lo div 256 + unat hi * 2 ^ 24" by simp
  also have "\<dots> = (unat hi * 2 ^ 32 + unat lo) div 256"
    using div_mult_self1 [of 256 "unat lo" "unat hi * 2 ^ 24"] by (simp add: ac_simps)
  finally show "unat (drop_bit 8 lo OR push_bit 24 hi) = (unat hi * 2 ^ 32 + unat lo) div 256" .
qed

lemma get_time_string_ticks:
  assumes "hi < 256"
  shows "map (\<lambda>i. get_time_string hi lo buf m (buf + of_nat i)) [0..<8] = time_text ((unat hi * 2 ^ 32 + unat lo) div 10 ^ 8)"
proof -
  have "unat ((drop_bit 8 lo OR push_bit 24 hi) div 390625) = (unat hi * 2 ^ 32 + unat lo) div 256 div 390625"
    by (simp add: unat_div ticks_word(1) [OF assms])
  also have "\<dots> = (unat hi * 2 ^ 32 + unat lo) div 10 ^ 8" by (simp add: div_mult2_eq [symmetric])
  finally show ?thesis
    using get_time_string_text [OF refl, of hi lo buf m] by (simp add: ticks_word(2) [OF assms])
qed

lemma putchar_at_grid:
  assumes "r < 32" and "c < 128"
  shows "grid (vram (kernel_putchar_at ch (of_nat r) (of_nat c) s)) =
      (grid (vram s))(r := (grid (vram s) r)(c := char_cell ch VGA_WHITE VGA_BLACK))"
proof -
  have m: "(0x1F :: u32) = mask 5" "(0x7F :: u32) = mask 7" by (simp_all add: mask_eq_exp_minus_1)
  have u: "unat (of_nat r :: u32) = r" "unat (of_nat c :: u32) = c" using assms by (simp_all add: unat_of_nat)
  have "of_nat r AND 0x1F = (of_nat r :: u32)" "of_nat c AND 0x7F = (of_nat c :: u32)"
    using assms by (simp_all add: m word_unat_eq_iff unat_take_bit_u32 u flip: take_bit_eq_mask)
  then have "vram (kernel_putchar_at ch (of_nat r) (of_nat c) s) = (vram s)(of_nat (128 * r + c) := char_cell ch VGA_WHITE VGA_BLACK)"
    by (simp add: kernel_putchar_at_def kernel_putchar_at_color_def char_cell_def push_bit_eq_mult mult.commute)
  then show "grid (vram (kernel_putchar_at ch (of_nat r) (of_nat c) s)) =
      (grid (vram s))(r := (grid (vram s) r)(c := char_cell ch VGA_WHITE VGA_BLACK))"
    using grid_upd [OF assms] by simp
qed

lemma putchar_at_cursor [simp]: "row (kernel_putchar_at ch x y s) = row s" "col (kernel_putchar_at ch x y s) = col s"
  by (simp_all add: kernel_putchar_at_def kernel_putchar_at_color_def Let_def)

lemma put_bytes_grid:
  "r < 32 \<Longrightarrow> c + length xs \<le> 128 \<Longrightarrow>
   grid (vram (put_bytes_at xs (of_nat r) (of_nat c) s)) =
     (grid (vram s))(r := (\<lambda>j. if c \<le> j \<and> j < c + length xs then char_cell (scast (xs ! (j - c))) VGA_WHITE VGA_BLACK else grid (vram s) r j)) \<and>
   row (put_bytes_at xs (of_nat r) (of_nat c) s) = row s \<and> col (put_bytes_at xs (of_nat r) (of_nat c) s) = col s"
proof (induction xs arbitrary: c s)
  case (Cons x xs)
  have c: "of_nat c + 1 = (of_nat (Suc c) :: u32)" by simp
  let ?k = "kernel_putchar_at (scast x) (of_nat r) (of_nat c) s"
  have g: "grid (vram ?k) = (grid (vram s))(r := (grid (vram s) r)(c := char_cell (scast x) VGA_WHITE VGA_BLACK))"
    using Cons.prems by (intro putchar_at_grid) simp_all
  have "put_bytes_at (x # xs) (of_nat r) (of_nat c) s = put_bytes_at xs (of_nat r) (of_nat (Suc c)) ?k" by (simp add: c)
  moreover note Cons.IH [of "Suc c" ?k, unfolded g putchar_at_cursor]
  ultimately show ?case using Cons.prems by (auto simp: fun_eq_iff nth_Cons' simp del: of_nat_Suc)
qed (auto simp: fun_eq_iff)

section \<open>Properties\<close>

text \<open>
  C37.  The clock interrupt shows the time since the start, at 100 MHz, in the row below the text, as
  long as the counter is below \<open>2 ^ 40\<close> ticks; it changes no other cell of the screen and leaves the
  cursor where it is, so the clock and the text never disturb each other.
\<close>

theorem time_handler_shows:
  assumes "hi < 256" and "time_handler hi lo s t = (s', t')"
  shows "(\<forall>k<8. grid (vram s') 28 (70 + k) =
      char_cell (scast (time_text ((unat hi * 2 ^ 32 + unat lo) div 10 ^ 8) ! k)) VGA_WHITE VGA_BLACK) \<and>
    (\<forall>i j. \<not> (i = 28 \<and> 59 \<le> j \<and> j < 78) \<longrightarrow> grid (vram s') i j = grid (vram s) i j) \<and>
    row s' = row s \<and> col s' = col s \<and> cp0_count t' = 0"
proof -
  define xs where "xs = map (\<lambda>i. get_time_string hi lo 0 (\<lambda>_. 0) (of_nat i)) [0..<8]"
  have xs: "xs = time_text ((unat hi * 2 ^ 32 + unat lo) div 10 ^ 8)" "length xs = 8"
    using get_time_string_ticks [OF assms(1), of lo 0 "\<lambda>_. 0"] by (simp_all add: xs_def time_text_def two_digits_def)
  let ?s = "put_bytes_at clock_day (of_nat 28) (of_nat 59) s"
  have s': "s' = put_bytes_at xs (of_nat 28) (of_nat 70) ?s" "cp0_count t' = 0"
    using assms(2) by (auto simp: time_handler_def xs_def VGA_DISPLAY_MAX_ROW_def)
  have d: "length clock_day = 11" by (simp add: clock_day_def)
  show ?thesis
    unfolding xs(1) [symmetric]
    using put_bytes_grid [of 28 59 clock_day s] put_bytes_grid [of 28 70 xs ?s]
    by (auto simp: s' d xs(2) simp del: of_nat_numeral)
qed

theorem time_handler_shows_witness:
  "\<forall>c. \<exists>s'. fst (time_handler 0 4294967295 demo_screen c) = s' \<and>
     grid (vram s') 28 76 = 0xFFF34 \<and> grid (vram s') 28 77 = 0xFFF32 \<and> grid (vram s') 26 0 = 0"
proof
  fix c
  obtain s' t' where r: "time_handler 0 4294967295 demo_screen c = (s', t')" by fastforce
  have l: "(6 :: nat) < 8" "(7 :: nat) < 8" by simp_all
  from time_handler_shows [OF _ r] have
    k: "\<And>k. k < 8 \<Longrightarrow> grid (vram s') 28 (70 + k) = char_cell (scast (time_text 42 ! k)) VGA_WHITE VGA_BLACK"
    and g: "grid (vram s') 26 0 = grid (vram demo_screen) 26 0" by auto
  have "grid (vram s') 28 76 = 0xFFF34" "grid (vram s') 28 77 = 0xFFF32" "grid (vram s') 26 0 = 0"
    using k [OF l(1)] k [OF l(2)] g by (simp_all add: time_text_def two_digits_def char_cell_def vga_consts demo_screen_def) (simp_all add: grid_def)
  then show "\<exists>s'. fst (time_handler 0 4294967295 demo_screen c) = s' \<and>
      grid (vram s') 28 76 = 0xFFF34 \<and> grid (vram s') 28 77 = 0xFFF32 \<and> grid (vram s') 26 0 = 0" by (simp add: r)
qed

text \<open>
  From tick \<open>2 ^ 40\<close> on, about three hours after the start, the time is wrong: the code takes the
  remainder of the division by 390625 where its derivation needs the quotient, so the clock jumps
  from 03:03:15 to 15:40:16.
\<close>

theorem clock_jumps:
  "map (\<lambda>i. get_time_string 255 0xFFFFFFFF buf m (buf + of_nat i)) [0..<8] = time_text ((2 ^ 40 - 1) div 10 ^ 8) \<and>
   map (\<lambda>i. get_time_string 256 0 buf m (buf + of_nat i)) [0..<8] = time_text 56416 \<and>
   time_text (2 ^ 40 div 10 ^ 8) = time_text ((2 ^ 40 - 1) div 10 ^ 8) \<and> time_text 56416 \<noteq> time_text (2 ^ 40 div 10 ^ 8)"
proof -
  have "map (\<lambda>i. get_time_string 255 0xFFFFFFFF buf m (buf + of_nat i)) [0..<8] = time_text ((2 ^ 40 - 1) div 10 ^ 8)"
    using get_time_string_ticks [of 255 "0xFFFFFFFF" buf m] by simp
  moreover have "map (\<lambda>i. get_time_string 256 0 buf m (buf + of_nat i)) [0..<8] = time_text (unat (56416 :: u32))"
    by (rule get_time_string_text) simp
  ultimately show ?thesis by (simp add: time_text_def two_digits_def)
qed

end
