(* ===== verification/Keyboard.thy ===== *)
theory Keyboard
  imports Interrupts "HOL-Library.Monad_Syntax"
begin

text \<open>
  The keyboard, \<^verbatim>\<open>src/kernel/driver/ps2.c\<close>: the interrupt handler that assembles scan codes and
  queues the keys, the reader of the queue and the translation to characters.  What the control and
  the data register of the controller show at each read are two sequences, of which reading takes the
  first value; what is written to the two registers are lists, and so are the calls of the registered
  callback.
\<close>

section \<open>State\<close>

record 'c keyboard =
  kb_buffer :: "u32 \<Rightarrow> u32"
  kb_ready :: "u32 \<Rightarrow> u32"
  buffer_wptr :: u32
  buffer_rptr :: u32
  key_buffer :: u32
  keyboard_state :: u32
  keyboard_cmd_state :: u32
  keyboard_callback :: "'c option"
  callback_calls :: "('c \<times> u32 \<times> bool) list"
  ctrl_in :: "nat \<Rightarrow> u32"
  data_in :: "nat \<Rightarrow> u32"
  data_out :: "u32 list"
  ctrl_out :: "u32 list"

definition CAPSLOCK_MASK :: u32 where "CAPSLOCK_MASK = 4"
definition SHIFT_MASK :: u32 where "SHIFT_MASK = 8"
definition CTRL_MASK :: u32 where "CTRL_MASK = 16"
definition KEY_CAPS_LOCK :: u32 where "KEY_CAPS_LOCK = 0x58"
definition KEY_LEFT_SHIFT :: u32 where "KEY_LEFT_SHIFT = 0x12"
definition KEY_RIGHT_SHIFT :: u32 where "KEY_RIGHT_SHIFT = 0x59"
definition KEY_LEFT_CTRL :: u32 where "KEY_LEFT_CTRL = 0x14"
definition KEY_RIGHT_CTRL :: u32 where "KEY_RIGHT_CTRL = 0xE014"
definition KEY_LEFT_ALT :: u32 where "KEY_LEFT_ALT = 0x11"
definition KEY_RIGHT_ALT :: u32 where "KEY_RIGHT_ALT = 0xE011"

lemmas key_consts [os_const] = CAPSLOCK_MASK_def SHIFT_MASK_def CTRL_MASK_def KEY_CAPS_LOCK_def KEY_LEFT_SHIFT_def
  KEY_RIGHT_SHIFT_def KEY_LEFT_CTRL_def KEY_RIGHT_CTRL_def KEY_LEFT_ALT_def KEY_RIGHT_ALT_def

definition scantoascii_uppercase :: "u8 list" where
  "scantoascii_uppercase = [
    0xFF, 0xFF, 0xFF, 0xFF, 0xFF, 0xFF, 0xFF, 0xFF, 0xFF, 0xFF, 0xFF, 0xFF, 0xFF, 0x09, 0x7E, 0xFF, 0xFF,
    0xFF, 0xFF, 0xFF, 0xFF, 0x51, 0x21, 0xFF, 0xFF, 0xFF, 0x5A, 0x53, 0x41, 0x57, 0x40, 0xFF, 0xFF, 0x43,
    0x58, 0x44, 0x45, 0x24, 0x23, 0xFF, 0xFF, 0x20, 0x56, 0x46, 0x54, 0x52, 0x25, 0xFF, 0xFF, 0x4E, 0x42,
    0x48, 0x47, 0x59, 0x5E, 0xFF, 0xFF, 0xFF, 0x4D, 0x4A, 0x55, 0x26, 0x2A, 0xFF, 0xFF, 0x3C, 0x4B, 0x49,
    0x4F, 0x29, 0x28, 0xFF, 0xFF, 0x3E, 0x3F, 0x4C, 0x3A, 0x50, 0x5F, 0xFF, 0xFF, 0xFF, 0x22, 0xFF, 0x7B,
    0x2B, 0xFF, 0xFF, 0xFF, 0xFF, 0x0A, 0x7D, 0xFF, 0x7C, 0xFF, 0xFF, 0xFF, 0xFF, 0xFF, 0xFF, 0xFF, 0xFF,
    0x08, 0xFF, 0xFF, 0xFF, 0xFF, 0xFF, 0xFF, 0xFF, 0xFF, 0xFF, 0xFF, 0xFF, 0xFF, 0xFF, 0xFF, 0xFF, 0x1B,
    0xFF, 0xFF, 0xFF, 0xFF, 0xFF, 0xFF, 0xFF, 0xFF, 0xFF]"

definition scantoascii_lowercase :: "u8 list" where
  "scantoascii_lowercase = [
    0xFF, 0xFF, 0xFF, 0xFF, 0xFF, 0xFF, 0xFF, 0xFF, 0xFF, 0xFF, 0xFF, 0xFF, 0xFF, 0x09, 0x60, 0xFF, 0xFF,
    0xFF, 0xFF, 0xFF, 0xFF, 0x71, 0x31, 0xFF, 0xFF, 0xFF, 0x7A, 0x73, 0x61, 0x77, 0x32, 0xFF, 0xFF, 0x63,
    0x78, 0x64, 0x65, 0x34, 0x33, 0xFF, 0xFF, 0x20, 0x76, 0x66, 0x74, 0x72, 0x35, 0xFF, 0xFF, 0x6E, 0x62,
    0x68, 0x67, 0x79, 0x36, 0xFF, 0xFF, 0xFF, 0x6D, 0x6A, 0x75, 0x37, 0x38, 0xFF, 0xFF, 0x2C, 0x6B, 0x69,
    0x6F, 0x30, 0x39, 0xFF, 0xFF, 0x2E, 0x2F, 0x6C, 0x3B, 0x70, 0x2D, 0xFF, 0xFF, 0xFF, 0x27, 0xFF, 0x5B,
    0x3D, 0xFF, 0xFF, 0xFF, 0xFF, 0x0A, 0x5D, 0xFF, 0x5C, 0xFF, 0xFF, 0xFF, 0xFF, 0xFF, 0xFF, 0xFF, 0xFF,
    0x08, 0xFF, 0xFF, 0xFF, 0xFF, 0xFF, 0xFF, 0xFF, 0xFF, 0xFF, 0xFF, 0xFF, 0xFF, 0xFF, 0xFF, 0xFF, 0x1B,
    0xFF, 0xFF, 0xFF, 0xFF, 0xFF, 0xFF, 0xFF, 0xFF, 0xFF]"

section \<open>The queue\<close>

primrec clear_slots :: "nat \<Rightarrow> 'c keyboard \<Rightarrow> 'c keyboard" where
  "clear_slots 0 s = s"
| "clear_slots (Suc i) s =
     (let s = clear_slots i s
      in s\<lparr>kb_buffer := (kb_buffer s)(of_nat i := 0), kb_ready := (kb_ready s)(of_nat i := 0)\<rparr>)"

definition init_buffer :: "'c keyboard \<Rightarrow> 'c keyboard" where
  "init_buffer s = (clear_slots 32 s)\<lparr>buffer_wptr := 0, buffer_rptr := 0\<rparr>"

definition init_ps2 ::
    "u32 \<Rightarrow> 'h \<Rightarrow> ('h, 'z) vectors_scheme \<Rightarrow> 'c keyboard \<Rightarrow> ('h, 'z) vectors_scheme \<times> 'c keyboard" where
  "init_ps2 operand handler v s =
     (let s = init_buffer (s\<lparr>keyboard_callback := None, keyboard_state := 0\<rparr>)
      in (register_interrupt_handler operand 2 handler v, s\<lparr>ctrl_out := ctrl_out s @ [- 1]\<rparr>))"

definition register_keyboard_callback :: "'c \<Rightarrow> 'c keyboard \<Rightarrow> 'c keyboard" where
  "register_keyboard_callback callback s = s\<lparr>keyboard_callback := Some callback\<rparr>"

definition put_key :: "u32 \<Rightarrow> 'c keyboard \<Rightarrow> 'c keyboard" where
  "put_key k s = s\<lparr>kb_buffer := (kb_buffer s)(buffer_wptr s := k), kb_ready := (kb_ready s)(buffer_wptr s := 1),
     buffer_wptr := (buffer_wptr s + 1) AND 31\<rparr>"

text \<open>The last slot read, the whole buffer is reset.\<close>

definition kernel_getkey :: "'c keyboard \<Rightarrow> 'c keyboard \<times> u32" where
  "kernel_getkey s =
     (if kb_ready s (buffer_rptr s) = 0 then (s, 0xfff)
      else let temp = kb_buffer s (buffer_rptr s);
               s = s\<lparr>kb_ready := (kb_ready s)(buffer_rptr s := 0), buffer_rptr := buffer_rptr s + 1\<rparr>;
               s = (if buffer_rptr s = 32 then init_buffer s else s)
           in (s, temp))"

section \<open>The interrupt handler\<close>

text \<open>
  The modifiers.  \<open>pressDown\<close> is computed from the whole \<open>key_buffer\<close>, from which a pressed key
  then loses its second byte; the Alt keys set the mask of Ctrl.
\<close>

definition update_state :: "u32 \<Rightarrow> bool \<Rightarrow> 'c keyboard \<Rightarrow> 'c keyboard" where
  "update_state key pressDown s =
     (let flag = (\<lambda>mask st. if pressDown then st OR mask else st AND NOT mask)
      in if key = KEY_CAPS_LOCK \<and> pressDown
         then s\<lparr>keyboard_state := keyboard_state s XOR CAPSLOCK_MASK, keyboard_cmd_state := 1, data_out := data_out s @ [0xED]\<rparr>
         else if key = KEY_LEFT_SHIFT \<or> key = KEY_RIGHT_SHIFT
         then s\<lparr>keyboard_state := flag SHIFT_MASK (keyboard_state s)\<rparr>
         else if key = KEY_LEFT_CTRL \<or> key = KEY_RIGHT_CTRL
         then s\<lparr>keyboard_state := flag CTRL_MASK (keyboard_state s)\<rparr>
         else if key = KEY_LEFT_ALT \<or> key = KEY_RIGHT_ALT
         then s\<lparr>keyboard_state := flag CTRL_MASK (keyboard_state s)\<rparr>
         else s)"

text \<open>What a complete scan code does to the modifiers and the callback.\<close>

definition end_scan :: "'c keyboard \<Rightarrow> 'c keyboard" where
  "end_scan s =
     (let pressDown = drop_bit 8 (key_buffer s) AND 0xFF \<noteq> 0xF0;
          s = (if pressDown then s\<lparr>key_buffer := push_bit 8 (drop_bit 16 (key_buffer s)) OR (key_buffer s AND 0xFF)\<rparr> else s);
          s = update_state (key_buffer s) pressDown s;
          s = (case keyboard_callback s of None \<Rightarrow> s
               | Some f \<Rightarrow> s\<lparr>callback_calls := callback_calls s @ [(f, key_buffer s, pressDown)]\<rparr>)
      in s\<lparr>key_buffer := 0\<rparr>)"

text \<open>One byte that is not an acknowledgement: a prefix is collected, another byte ends a scan code.\<close>

definition scan_byte :: "u32 \<Rightarrow> 'c keyboard \<Rightarrow> 'c keyboard" where
  "scan_byte byte s =
     (let s = s\<lparr>key_buffer := push_bit 8 (key_buffer s) OR byte\<rparr>
      in if byte < 0x80
         then end_scan (if key_buffer s AND 0x7f = key_buffer s then put_key (key_buffer s) s else s)
         else s)"

definition read_ctrl :: "'c keyboard \<Rightarrow> 'c keyboard \<times> u32" where
  "read_ctrl s = (s\<lparr>ctrl_in := \<lambda>i. ctrl_in s (Suc i)\<rparr>, ctrl_in s 0)"

definition read_data :: "'c keyboard \<Rightarrow> 'c keyboard \<times> u32" where
  "read_data s = (s\<lparr>data_in := \<lambda>i. data_in s (Suc i)\<rparr>, data_in s 0)"

text \<open>After an acknowledgement the loop goes on with the old value of the control register.\<close>

partial_function (option) ps2_loop :: "u32 \<Rightarrow> 'c keyboard \<Rightarrow> 'c keyboard option" where
  "ps2_loop ctrl s =
     (if ctrl AND 0x3f = 0 then Some s
      else let (s, byte) = read_data s in
      if byte = 0xfa
      then let s = (if keyboard_cmd_state s = 1 then s\<lparr>data_out := data_out s @ [keyboard_state s AND 7]\<rparr> else s)
           in ps2_loop ctrl (s\<lparr>keyboard_cmd_state := 0\<rparr>)
      else let (s, ctrl) = read_ctrl (scan_byte byte s) in ps2_loop ctrl s)"

definition ps2_handler :: "'c keyboard \<Rightarrow> 'c keyboard option" where
  "ps2_handler s =
     (let (s, ctrl) = read_ctrl s
      in if drop_bit 16 ctrl AND 7 \<noteq> 0 then Some s else ps2_loop ctrl s)"

section \<open>Characters\<close>

definition kernel_scantoascii :: "u32 \<Rightarrow> 'c keyboard \<Rightarrow> u32" where
  "kernel_scantoascii key s =
     (if key AND 0x7f \<noteq> key then - 1
      else if (keyboard_state s AND CAPSLOCK_MASK = 0) \<noteq> (keyboard_state s AND SHIFT_MASK = 0)
      then scast (scantoascii_uppercase ! unat key) else scast (scantoascii_lowercase ! unat key))"

text \<open>\<open>env i\<close> is what the interrupts during the \<open>i\<close>-th \<open>sleep\<close> do.\<close>

partial_function (option) kernel_getchar :: "(nat \<Rightarrow> 'c keyboard \<Rightarrow> 'c keyboard) \<Rightarrow> nat \<Rightarrow> 'c keyboard \<Rightarrow> ('c keyboard \<times> u32) option" where
  "kernel_getchar env i s =
     (let (s, k) = kernel_getkey s;
          key = kernel_scantoascii k s;
          s = env i s
      in if key = - 1 then kernel_getchar env (Suc i) s else Some (s, key))"

section \<open>The queue holds the keys in order\<close>

text \<open>\<open>keys s q\<close>: the keys \<open>q\<close>, oldest first, wait to be read.\<close>

definition slot :: "'c keyboard \<Rightarrow> nat \<Rightarrow> u32" where
  "slot s i = of_nat ((unat (buffer_rptr s) + i) mod 32)"

definition keys :: "'c keyboard \<Rightarrow> u32 list \<Rightarrow> bool" where
  "keys s q \<longleftrightarrow> unat (buffer_rptr s) < 32 \<and> length q \<le> 32 \<and> buffer_wptr s = slot s (length q) \<and>
     (\<forall>i<32. kb_ready s (slot s i) = (if i < length q then 1 else 0)) \<and> (\<forall>i<length q. kb_buffer s (slot s i) = q ! i)"

lemma mod_shift: "i \<le> j \<Longrightarrow> j < 32 \<Longrightarrow> (n + i) mod 32 = (n + j) mod 32 \<Longrightarrow> i = j" for n :: nat
  using mod_eq_dvd_iff_nat [of "n + i" "n + j" 32] dvd_imp_le [of 32 "j - i"] by (cases "i < j") auto

lemma slot_inj: "i < 32 \<Longrightarrow> j < 32 \<Longrightarrow> slot s i = slot s j \<longleftrightarrow> i = j"
proof -
  assume a: "i < 32" "j < 32"
  have l: "unat (of_nat (n mod 32) :: u32) = n mod 32" for n by (simp add: unat_of_nat)
  have "slot s i = slot s j \<longleftrightarrow> (unat (buffer_rptr s) + i) mod 32 = (unat (buffer_rptr s) + j) mod 32"
    by (simp add: slot_def word_unat_eq_iff l)
  also have "\<dots> \<longleftrightarrow> i = j"
    using a mod_shift [of i j "unat (buffer_rptr s)"] mod_shift [of j i "unat (buffer_rptr s)"] by (cases "i \<le> j") auto
  finally show ?thesis .
qed

lemma slot_0: "unat (buffer_rptr s) < 32 \<Longrightarrow> slot s 0 = buffer_rptr s"
  by (simp add: slot_def)

lemma slot_step: "(slot s i + 1) AND 31 = slot s (Suc i)"
proof -
  have m: "(31 :: u32) = mask 5" by (simp add: mask_eq_exp_minus_1)
  have l: "unat (of_nat (n mod 32) :: u32) = n mod 32" for n by (simp add: unat_of_nat)
  have "unat (slot s i + 1) = (unat (buffer_rptr s) + i) mod 32 + 1"
    by (subst unat_add_u32) (simp_all add: slot_def l)
  then show ?thesis
    by (simp add: m word_unat_eq_iff unat_take_bit_u32 slot_def l mod_Suc_eq flip: take_bit_eq_mask)
qed

lemma keys_cong:
  "keys t q = keys s q"
  if "buffer_rptr t = buffer_rptr s" "buffer_wptr t = buffer_wptr s" "kb_ready t = kb_ready s" "kb_buffer t = kb_buffer s"
  using that by (simp add: keys_def slot_def)

lemma put_key_keys:
  assumes "keys s q" and "length q < 32"
  shows "keys (put_key k s) (q @ [k])"
proof -
  have e: "slot (put_key k s) = slot s" by (simp add: slot_def put_key_def fun_eq_iff)
  have w: "buffer_wptr s = slot s (length q)" using assms(1) by (simp add: keys_def)
  have "kb_ready (put_key k s) (slot s i) = (if i < Suc (length q) then 1 else 0)" if "i < 32" for i
    using assms that slot_inj [OF that assms(2), of s] by (auto simp: put_key_def w keys_def)
  moreover have "kb_buffer (put_key k s) (slot s i) = (q @ [k]) ! i" if "i < Suc (length q)" for i
    using assms that slot_inj [of i "length q" s] by (auto simp: put_key_def w keys_def nth_append)
  moreover have "buffer_wptr (put_key k s) = slot s (Suc (length q))" "buffer_rptr (put_key k s) = buffer_rptr s"
    by (simp_all add: put_key_def w slot_step)
  ultimately show ?thesis using assms by (simp add: keys_def e)
qed

lemma clear_slots_at:
  "kb_ready (clear_slots n s) = (\<lambda>p. if \<exists>i<n. p = of_nat i then 0 else kb_ready s p)"
  by (induction n) (auto simp: Let_def fun_eq_iff less_Suc_eq)

lemma init_buffer_keys: "keys (init_buffer s) []"
proof -
  have "(\<exists>j<32. slot (init_buffer s) i = of_nat j)" for i
    unfolding slot_def by (intro exI conjI) (rule mod_less_divisor, simp, rule refl)
  then show ?thesis by (auto simp: keys_def init_buffer_def clear_slots_at slot_def)
qed

lemma getkey_keys:
  assumes "keys s q"
  shows "case q of [] \<Rightarrow> kernel_getkey s = (s, 0xfff)
    | k # ks \<Rightarrow> \<exists>t. kernel_getkey s = (t, k) \<and> keys t (if buffer_rptr s = 31 then [] else ks)"
proof (cases q)
  case Nil
  then have "kb_ready s (slot s 0) = 0" using assms by (simp add: keys_def)
  then show ?thesis using Nil assms by (simp add: kernel_getkey_def slot_0 keys_def)
next
  case (Cons k ks)
  have r: "unat (buffer_rptr s) < 32" and n: "length ks < 32" using assms Cons by (auto simp: keys_def)
  let ?t = "s\<lparr>kb_ready := (kb_ready s)(buffer_rptr s := 0), buffer_rptr := buffer_rptr s + 1\<rparr>"
  have "kb_ready s (slot s 0) = 1" "kb_buffer s (slot s 0) = k" using assms Cons by (auto simp: keys_def)
  then have g: "kernel_getkey s = (if buffer_rptr s + 1 = 32 then init_buffer ?t else ?t, k)"
    by (simp add: kernel_getkey_def slot_0 [OF r] Let_def)
  have e: "buffer_rptr s + 1 = 32 \<longleftrightarrow> buffer_rptr s = 31"
    using eq_diff_eq [of "buffer_rptr s" 32 1] by simp
  show ?thesis
  proof (cases "buffer_rptr s = 31")
    case True
    then show ?thesis using Cons g e init_buffer_keys by simp
  next
    case False
    then have "unat (buffer_rptr s) \<noteq> 31" by (simp add: word_unat_eq_iff)
    then have u: "unat (buffer_rptr s + 1) = unat (buffer_rptr s) + 1" "unat (buffer_rptr s) < 31"
      using r by (simp_all add: unat_add_u32)
    have sl: "slot ?t i = slot s (Suc i)" for i by (simp add: slot_def u)
    have last: "slot s (Suc i) = buffer_rptr s \<longleftrightarrow> i = 31" if "i < 32" for i
      using slot_inj [of "Suc i" 0 s] slot_0 [OF r] that by (cases "i = 31") (auto simp: slot_def)
    have "kb_ready ?t (slot ?t i) = (if i < length ks then 1 else 0)" if "i < 32" for i
      using assms Cons n that last [OF that] by (auto simp: keys_def sl)
    moreover have "kb_buffer ?t (slot ?t i) = ks ! i" if "i < length ks" for i
      using assms Cons that by (auto simp: keys_def sl)
    moreover have "buffer_wptr ?t = slot ?t (length ks)" using assms Cons by (simp add: keys_def sl)
    ultimately have "keys ?t ks" using n u by (simp add: keys_def)
    then show ?thesis using Cons g e False by simp
  qed
qed

section \<open>The handler queues the make codes\<close>

text \<open>
  \<open>makes pre bs\<close>: the keys in the bytes \<open>bs\<close>, where \<open>pre\<close> tells whether a prefix came before: a byte
  below 0x80 ends a scan code, which is a key when it stands alone.
\<close>

fun makes :: "bool \<Rightarrow> u32 list \<Rightarrow> u32 list" where
  "makes pre [] = []"
| "makes pre (b # bs) = (if b < 0x80 then (if pre then [] else [b]) @ makes False bs else makes True bs)"

text \<open>The controller holds the bytes \<open>bs\<close>, none of them an acknowledgement.\<close>

definition delivers :: "'c keyboard \<Rightarrow> u32 list \<Rightarrow> bool" where
  "delivers s bs \<longleftrightarrow> (\<forall>i\<le>length bs. (ctrl_in s i AND 0x3f \<noteq> 0) = (i < length bs)) \<and>
     (\<forall>i<length bs. data_in s i = bs ! i) \<and> (\<forall>b\<in>set bs. b < 0x100 \<and> b \<noteq> 0xfa)"

text \<open>The prefix bytes collected so far: none, or at least one, which has its top bit set.\<close>

definition collected :: "bool \<Rightarrow> u32 \<Rightarrow> bool" where
  "collected pre kb \<longleftrightarrow> (if pre then bit kb 7 else kb = 0)"

lemma update_state_frame:
  "buffer_rptr (update_state k p s) = buffer_rptr s" "buffer_wptr (update_state k p s) = buffer_wptr s"
  "kb_ready (update_state k p s) = kb_ready s" "kb_buffer (update_state k p s) = kb_buffer s"
  "ctrl_in (update_state k p s) = ctrl_in s" "data_in (update_state k p s) = data_in s"
  "key_buffer (update_state k p s) = key_buffer s"
  by (simp_all add: update_state_def Let_def)

lemma end_scan_frame:
  "buffer_rptr (end_scan s) = buffer_rptr s" "buffer_wptr (end_scan s) = buffer_wptr s"
  "kb_ready (end_scan s) = kb_ready s" "kb_buffer (end_scan s) = kb_buffer s"
  "ctrl_in (end_scan s) = ctrl_in s" "data_in (end_scan s) = data_in s" "key_buffer (end_scan s) = 0"
  by (simp_all add: end_scan_def Let_def update_state_frame split: option.split)

lemma byte_bits:
  fixes b :: u32
  shows "b < 0x80 \<Longrightarrow> b AND 0x7f = b" and "b < 0x100 \<Longrightarrow> \<not> b < 0x80 \<Longrightarrow> bit b 7"
proof -
  have m: "(0x7f :: u32) = mask 7" by (simp add: mask_eq_exp_minus_1)
  show "b < 0x80 \<Longrightarrow> b AND 0x7f = b"
    by (simp add: m word_unat_eq_iff unat_take_bit_u32 word_less_nat_alt flip: take_bit_eq_mask)
  assume "b < 0x100" "\<not> b < 0x80"
  then have "unat b div 2 ^ 7 = 1" by (simp add: word_less_nat_alt)
  then have "bit (unat b) 7" by (simp add: bit_iff_odd)
  then show "bit b 7" by (simp add: bit_unsigned_iff)
qed

lemma scan_byte_keys:
  assumes q: "keys s q" and c: "collected pre (key_buffer s)" and b: "b < 0x100"
    and l: "length q + length (makes pre [b]) \<le> 32"
  shows "keys (scan_byte b s) (q @ makes pre [b]) \<and> collected (\<not> b < 0x80) (key_buffer (scan_byte b s)) \<and>
    ctrl_in (scan_byte b s) = ctrl_in s \<and> data_in (scan_byte b s) = data_in s"
proof (cases "b < 0x80")
  case False
  have "bit (push_bit 8 (key_buffer s) OR b) 7" using byte_bits(2) [OF b False] by (simp add: bit_simps)
  then show ?thesis using q False by (simp add: scan_byte_def Let_def collected_def keys_def slot_def)
next
  case True
  let ?kb = "push_bit 8 (key_buffer s) OR b"
  let ?s = "s\<lparr>key_buffer := ?kb\<rparr>"
  have "?kb AND 0x7f = ?kb \<longleftrightarrow> \<not> pre"
  proof (cases pre)
    case True
    have "bit ?kb 15" using c True by (simp add: collected_def bit_simps)
    moreover have "\<not> bit (?kb AND 0x7f) 15"
    proof -
      have "(0x7f :: u32) = mask 7" by (simp add: mask_eq_exp_minus_1)
      then show ?thesis by (simp add: bit_simps)
    qed
    ultimately show ?thesis using True by metis
  next
    case False
    then show ?thesis using c byte_bits(1) [OF \<open>b < 0x80\<close>] by (simp add: collected_def)
  qed
  moreover have "\<not> pre \<Longrightarrow> ?kb = b" using c by (simp add: collected_def)
  ultimately have k: "(if ?kb AND 0x7f = ?kb then put_key ?kb ?s else ?s) = (if pre then ?s else put_key b ?s)" by simp
  have q': "keys ?s q" using q by (subst keys_cong [of _ s]) simp_all
  have "keys (if pre then ?s else put_key b ?s) (q @ makes pre [b])"
    using q' put_key_keys [OF q', of b] l True by (cases pre) simp_all
  moreover have "scan_byte b s = end_scan (if ?kb AND 0x7f = ?kb then put_key ?kb ?s else ?s)"
    using True by (simp add: scan_byte_def Let_def)
  then have e: "scan_byte b s = end_scan (if pre then ?s else put_key b ?s)" unfolding k .
  moreover have "ctrl_in (scan_byte b s) = ctrl_in s" "data_in (scan_byte b s) = data_in s"
    unfolding e end_scan_frame by (simp_all add: put_key_def)
  ultimately show ?thesis using True keys_cong [of "scan_byte b s" "if pre then ?s else put_key b ?s"]
    by (simp add: collected_def end_scan_frame)
qed

lemma makes_Cons: "makes pre (b # bs) = makes pre [b] @ makes (\<not> b < 0x80) bs"
  by simp

lemma ps2_loop_keys:
  "keys s q \<Longrightarrow> collected pre (key_buffer s) \<Longrightarrow> length q + length (makes pre bs) \<le> 32 \<Longrightarrow>
   (ctrl AND 0x3f \<noteq> 0) = (bs \<noteq> []) \<Longrightarrow> (\<forall>i<length bs. (ctrl_in s i AND 0x3f \<noteq> 0) = (Suc i < length bs)) \<Longrightarrow>
   (\<forall>i<length bs. data_in s i = bs ! i) \<Longrightarrow> (\<forall>b\<in>set bs. b < 0x100 \<and> b \<noteq> 0xfa) \<Longrightarrow>
   \<exists>t. ps2_loop ctrl s = Some t \<and> keys t (q @ makes pre bs)"
proof (induction bs arbitrary: s q pre ctrl)
  case Nil
  then show ?case by (subst ps2_loop.simps) simp
next
  case (Cons b bs)
  let ?d = "s\<lparr>data_in := \<lambda>i. data_in s (Suc i)\<rparr>"
  let ?t = "scan_byte b ?d"
  have q: "keys ?d q" using Cons.prems(1) by (subst keys_cong [of _ s]) simp_all
  have l: "length q + length (makes pre [b]) \<le> 32" using Cons.prems(3) unfolding makes_Cons [of pre b bs] by simp
  have b: "data_in s 0 = b" "b < 0x100" "b \<noteq> 0xfa" using Cons.prems(6,7) by auto
  note t = scan_byte_keys [OF q _ b(2) l]
  let ?u = "?t\<lparr>ctrl_in := \<lambda>i. ctrl_in s (Suc i)\<rparr>"
  have t': "keys ?t (q @ makes pre [b])" "collected (\<not> b < 0x80) (key_buffer ?t)" "ctrl_in ?t = ctrl_in s"
    "data_in ?t = (\<lambda>i. data_in s (Suc i))"
    using t Cons.prems(2) by simp_all
  have "\<exists>z. ps2_loop (ctrl_in s 0) ?u = Some z \<and> keys z ((q @ makes pre [b]) @ makes (\<not> b < 0x80) bs)"
  proof (rule Cons.IH)
    show "keys ?u (q @ makes pre [b])" using t'(1) by (subst keys_cong [of _ ?t]) simp_all
    show "length (q @ makes pre [b]) + length (makes (\<not> b < 0x80) bs) \<le> 32"
      using Cons.prems(3) unfolding makes_Cons [of pre b bs] by simp
    show "(ctrl_in s 0 AND 0x3f \<noteq> 0) = (bs \<noteq> [])" using Cons.prems(5) by (cases bs) force+
    show "\<forall>i<length bs. (ctrl_in ?u i AND 0x3f \<noteq> 0) = (Suc i < length bs)" using Cons.prems(5) by auto
    show "\<forall>i<length bs. data_in ?u i = bs ! i" using Cons.prems(6) t'(4) by auto
  qed (use t' Cons.prems in simp_all)
  then obtain z where "ps2_loop (ctrl_in s 0) ?u = Some z" "keys z (q @ makes pre (b # bs))"
    unfolding makes_Cons [of pre b bs] by auto
  moreover have "ps2_loop ctrl s = ps2_loop (ctrl_in s 0) ?u"
    using Cons.prems(4) b t'(3) by (subst ps2_loop.simps) (simp add: read_data_def read_ctrl_def Let_def)
  ultimately show ?case by simp
qed

section \<open>Properties\<close>

text \<open>
  C38.  The keyboard interrupt appends to the queue the keys of the scan codes that the controller
  holds, in order, as long as the queue has room: a byte below 0x80 without a prefix is a key, the
  codes of released and of extended keys are not.
\<close>

theorem ps2_handler_queues:
  assumes "keys s q" and "key_buffer s = 0" and "delivers s bs" and "drop_bit 16 (ctrl_in s 0) AND 7 = 0"
    and "length q + length (makes False bs) \<le> 32"
  shows "\<exists>t. ps2_handler s = Some t \<and> keys t (q @ makes False bs)"
proof -
  let ?s = "s\<lparr>ctrl_in := \<lambda>i. ctrl_in s (Suc i)\<rparr>"
  have "keys ?s q" using assms(1) by (subst keys_cong [of _ s]) simp_all
  moreover have "(ctrl_in s 0 AND 0x3f \<noteq> 0) = (bs \<noteq> [])" using assms(3) by (auto simp: delivers_def)
  ultimately have "\<exists>t. ps2_loop (ctrl_in s 0) ?s = Some t \<and> keys t (q @ makes False bs)"
    using assms by (intro ps2_loop_keys) (auto simp: delivers_def collected_def)
  then show ?thesis using assms(4) by (simp add: ps2_handler_def read_ctrl_def)
qed

definition demo_keyboard :: "u32 keyboard" where
  "demo_keyboard = init_buffer \<lparr>kb_buffer = \<lambda>_. 0, kb_ready = \<lambda>_. 0, buffer_wptr = 0, buffer_rptr = 0, key_buffer = 0,
     keyboard_state = 0, keyboard_cmd_state = 0, keyboard_callback = None, callback_calls = [],
     ctrl_in = (\<lambda>i. if i < 4 then 1 else 0), data_in = (\<lambda>i. [0x1C, 0xF0, 0x1C, 0x32] ! i), data_out = [], ctrl_out = []\<rparr>"

text \<open>Pressing and releasing A and pressing B.\<close>

theorem ps2_handler_queues_witness:
  "\<exists>t. ps2_handler demo_keyboard = Some t \<and> keys t [0x1C, 0x32]"
proof -
  have c: "ctrl_in (clear_slots n s) = ctrl_in s" "data_in (clear_slots n s) = data_in s" "key_buffer (clear_slots n s) = key_buffer s"
    for n and s :: "u32 keyboard"
    by (induction n) (simp_all add: Let_def)
  have k: "keys demo_keyboard []" unfolding demo_keyboard_def by (rule init_buffer_keys)
  have d: "key_buffer demo_keyboard = 0" "delivers demo_keyboard [0x1C, 0xF0, 0x1C, 0x32]" "drop_bit 16 (ctrl_in demo_keyboard 0) AND 7 = 0"
    by (auto simp: demo_keyboard_def init_buffer_def c delivers_def)
  from ps2_handler_queues [OF k d] show ?thesis by simp
qed

text \<open>
  C39.  The keys are read in the order in which they came, and an empty queue gives the code 0xfff; but
  reading the last slot of the buffer drops all the keys that wait behind it.
\<close>

theorem getkey_order:
  assumes "keys s q"
  shows "case q of [] \<Rightarrow> kernel_getkey s = (s, 0xfff)
    | k # ks \<Rightarrow> \<exists>t. kernel_getkey s = (t, k) \<and> keys t (if buffer_rptr s = 31 then [] else ks)"
  using assms by (rule getkey_keys)

text \<open>A full buffer whose reader is at the last slot: one key is read and 31 are lost.\<close>

definition full_keyboard :: "u32 keyboard" where
  "full_keyboard = demo_keyboard\<lparr>kb_ready := \<lambda>_. 1, kb_buffer := \<lambda>_. 0x1C, buffer_wptr := 31, buffer_rptr := 31\<rparr>"

theorem getkey_order_witness:
  "keys full_keyboard (replicate 32 0x1C) \<and> (\<exists>t. kernel_getkey full_keyboard = (t, 0x1C) \<and> keys t []) \<and>
   kernel_getkey demo_keyboard = (demo_keyboard, 0xfff)"
proof -
  have k: "keys full_keyboard (replicate 32 0x1C)" by (simp add: full_keyboard_def keys_def slot_def)
  have e: "keys demo_keyboard []" unfolding demo_keyboard_def by (rule init_buffer_keys)
  have r: "replicate 32 (0x1C :: u32) = 0x1C # replicate 31 0x1C" by (simp add: numeral_eq_Suc)
  have "buffer_rptr full_keyboard = 31" by (simp add: full_keyboard_def)
  with getkey_order [OF k] getkey_order [OF e] k show ?thesis by (simp add: r)
qed

end
