(* ===== verification/Shell.thy ===== *)
theory Shell
  imports Screen Fs_Names
begin

text \<open>
  The shell, \<^verbatim>\<open>src/usr/shell.c\<close>: reading a line, parsing it into a command and its arguments and
  choosing what to run.  The characters that \<open>kernel_getchar\<close> returns are a list.  The command and the nodes
  of its list of arguments are objects of the heap and lie in memory byte by byte: the eight characters of
  a name and behind them a pointer.  The result of \<open>kmalloc\<close> is not checked; \<open>None\<close> is a write through the null
  pointer.
\<close>

definition MAX_COMMAND_LENGTH :: u32 where "MAX_COMMAND_LENGTH = 64"
definition MAX_ARGUMENT_LENGTH :: u32 where "MAX_ARGUMENT_LENGTH = 8"
definition sizeof_argumentNode :: u32 where "sizeof_argumentNode = 12"
definition sizeof_command :: u32 where "sizeof_command = 12"

lemmas shell_consts [os_const] = MAX_COMMAND_LENGTH_def MAX_ARGUMENT_LENGTH_def sizeof_argumentNode_def sizeof_command_def

text \<open>\<open>nextArg\<close> of a node and \<open>argList\<close> of a command are at the same offset; the names are at the start.\<close>

definition nextArg :: "mem \<Rightarrow> u32 \<Rightarrow> u32" where
  "nextArg m arg = load32 m (arg + MAX_ARGUMENT_LENGTH)"

definition argList :: "mem \<Rightarrow> u32 \<Rightarrow> u32" where
  "argList m cmd = load32 m (cmd + MAX_ARGUMENT_LENGTH)"

definition set_pointer :: "u32 \<Rightarrow> u32 \<Rightarrow> 'z disk_scheme \<Rightarrow> 'z disk_scheme" where
  "set_pointer p v s = s\<lparr>kmem := store32 (p + MAX_ARGUMENT_LENGTH) v (kmem s)\<rparr>"

definition clear_name :: "u32 \<Rightarrow> 'z disk_scheme \<Rightarrow> 'z disk_scheme" where
  "clear_name p s = s\<lparr>kmem := kernel_memset (kmem s) p 0 MAX_ARGUMENT_LENGTH\<rparr>"

section \<open>Reading a line\<close>

primrec read_line_loop ::
    "u32 list \<Rightarrow> u32 \<Rightarrow> u32 \<Rightarrow> u32 \<Rightarrow> mem \<Rightarrow> screen \<Rightarrow> (mem \<times> screen \<times> bool \<times> u32 list) option" where
  "read_line_loop [] str len index m s = None"
| "read_line_loop (c # input) str len index m s =
     (if c = 10 then Some (m(str + index := ucast c, str + (index + 1) := 0), s, True, input)
      else if c = 8 then
        (if index \<noteq> 0
         then let m = m(str + index := 0);
                  s = kernel_putchar_at 32 (row s) (col s - 1) s;
                  s = kernel_set_cursor (s\<lparr>col := col s - 1\<rparr>)
              in read_line_loop input str len (index - 1) m s
         else read_line_loop input str len index m s)
      else if c = - 1 then Some (m, s, False, input)
      else if sint index < sint (len - 1)
      then read_line_loop input str len (index + 1) (m(str + index := ucast c)) (kernel_putchar (ucast c) s)
      else read_line_loop input str len index m s)"

definition read_line :: "u32 list \<Rightarrow> u32 \<Rightarrow> u32 \<Rightarrow> mem \<Rightarrow> screen \<Rightarrow> (mem \<times> screen \<times> bool \<times> u32 list) option" where
  "read_line input str len m s = read_line_loop input str len 0 m s"

section \<open>Parsing\<close>

definition newArg :: "u32 \<Rightarrow> 'z disk_scheme \<Rightarrow> ('z disk_scheme \<times> u32) option" where
  "newArg arg s =
     (let (s, thisArg) = kmalloc sizeof_argumentNode s;
          s = set_pointer arg thisArg s
      in if thisArg = 0 then None
         else Some (set_pointer thisArg 0 (clear_name thisArg s), thisArg))"

text \<open>
  \<open>kernel_strcpy\<close> of the characters in the array \<open>thisArgument\<close>, which is on the stack, and a zero behind them.
\<close>

primrec put_chars :: "u8 list \<Rightarrow> u32 \<Rightarrow> mem \<Rightarrow> mem" where
  "put_chars [] p m = m"
| "put_chars (c # cs) p m = put_chars cs (p + 1) (m(p := c))"

definition store_name :: "u8 list \<Rightarrow> u32 \<Rightarrow> 'z disk_scheme \<Rightarrow> 'z disk_scheme" where
  "store_name arg p s = s\<lparr>kmem := put_chars (arg @ [0]) p (kmem s)\<rparr>"

text \<open>A complete word is the name of the command in state 0 and a new argument in state 1.\<close>

definition store_word ::
    "nat \<Rightarrow> u8 list \<Rightarrow> u32 \<Rightarrow> u32 \<Rightarrow> 'z disk_scheme \<Rightarrow> ('z disk_scheme \<times> u32) option" where
  "store_word status arg thisCmd thisArg s =
     (if status = 0 then Some (store_name arg thisCmd s, thisArg)
      else map_option (\<lambda>(s, thisArg). (store_name arg thisArg s, thisArg)) (newArg thisArg s))"

text \<open>
  \<open>arg\<close> are the first \<open>argIndex\<close> characters of \<open>thisArgument\<close>; the last result tells whether the message on a
  long argument is printed.  The loop ends at the end of the string without storing the argument in front
  of it, so a line has to end with a newline or a blank.
\<close>

function parse_loop ::
    "u32 \<Rightarrow> u32 \<Rightarrow> u8 list \<Rightarrow> nat \<Rightarrow> u32 \<Rightarrow> u32 \<Rightarrow> 'z disk_scheme \<Rightarrow> ('z disk_scheme \<times> bool) option" where
  "parse_loop cmd cmdIndex arg status thisCmd thisArg s =
     (let c = kmem s (cmd + cmdIndex)
      in if c = 0 \<or> \<not> cmdIndex < MAX_COMMAND_LENGTH then Some (s, False)
         else if c \<noteq> 32 \<and> c \<noteq> 10
         then (if length arg < unat MAX_ARGUMENT_LENGTH - 1
               then parse_loop cmd (cmdIndex + 1) (arg @ [c]) status thisCmd thisArg s
               else Some (s, True))
         else if arg \<noteq> []
         then (case store_word status arg thisCmd thisArg s of
                 None \<Rightarrow> None
               | Some (s, thisArg) \<Rightarrow>
                   if kmem s (cmd + cmdIndex) = 0 \<or> kmem s (cmd + cmdIndex) = 10 then Some (s, False)
                   else parse_loop cmd cmdIndex [] 1 thisCmd thisArg s)
         else if c = 10 then Some (s, False)
         else parse_loop cmd (cmdIndex + 1) [] status thisCmd thisArg s)"
  by pat_completeness auto
termination
proof (relation "measure (\<lambda>(_, i, arg, _). 2 * (64 - unat i) + (if arg = [] then 0 else 1))", goal_cases)
  case 1
  then show ?case by simp
next
  case (2 cmd cmdIndex arg)
  then have "unat cmdIndex < 64" "unat (cmdIndex + 1) = Suc (unat cmdIndex)"
    using unat_Suc_less [of cmdIndex 64] by (simp_all add: shell_consts word_less_nat_alt)
  then show ?case by auto
next
  case 3
  then show ?case by simp
next
  case (4 cmd cmdIndex arg)
  then show ?case using unat_Suc_less [of cmdIndex 64] by (simp add: shell_consts word_less_nat_alt)
qed

declare parse_loop.simps [simp del]

definition parse_cmd :: "u32 \<Rightarrow> 'z disk_scheme \<Rightarrow> ('z disk_scheme \<times> u32 \<times> bool) option" where
  "parse_cmd cmd s =
     (let (s, thisCmd) = kmalloc sizeof_command s in
      if thisCmd = 0 then None
      else let s = clear_name thisCmd s;
               (s, thisArg) = kmalloc sizeof_argumentNode s;
               s = set_pointer thisCmd thisArg s
           in if thisArg = 0 then None
              else map_option (\<lambda>(s, long). (s, thisCmd, long)) (parse_loop cmd 0 [] 0 thisCmd thisArg (set_pointer thisArg 0 s)))"

section \<open>Choosing what to run\<close>

text \<open>
  What \<open>exec_cmd\<close> calls, with the addresses of names; \<open>ls\<close>, \<open>cd\<close> and the text of \<open>app\<close> may be the null pointer.
  The names of the messages are those of the command.
\<close>

datatype action =
  Nothing | Pwd | Ls u32 | Cd u32 | Cat u32 | Exec u32 | Print_Buddy | Print_Slab | Print_Tlb | Test_Buddy u32
  | Test_Slab | Test_Page_Fault u32 | Test_Sig | Test_Shm | Rm u32 | Mkdir u32 | Touch u32 | Mv u32 u32 | App u32 u32
  | Not_Enough_Arguments u32 | Unknown_Command u32

definition chars :: "string \<Rightarrow> u8 list" where
  "chars = map of_char"

text \<open>\<open>kernel_strcmp(p, "...") == 0\<close>\<close>

definition name_is :: "mem \<Rightarrow> u32 \<Rightarrow> string \<Rightarrow> bool" where
  "name_is m p name \<longleftrightarrow> range_is m p (chars name @ [0])"

text \<open>\<open>argName[0] - '0'\<close>\<close>

definition digit_arg :: "mem \<Rightarrow> u32 \<Rightarrow> u32" where
  "digit_arg m arg = scast (m arg) - 48"

definition exec_print :: "mem \<Rightarrow> u32 \<Rightarrow> action" where
  "exec_print m arg =
     (if name_is m arg ''buddy'' then Print_Buddy else if name_is m arg ''slab'' then Print_Slab
      else if name_is m arg ''tlb'' then Print_Tlb else Nothing)"

definition exec_test :: "mem \<Rightarrow> u32 \<Rightarrow> u32 \<Rightarrow> action" where
  "exec_test m cmd arg =
     (let arg2 = nextArg m arg
      in if name_is m arg ''buddy'' then (if arg2 \<noteq> 0 then Test_Buddy (digit_arg m arg2) else Not_Enough_Arguments cmd)
         else if name_is m arg ''slab'' then Test_Slab
         else if name_is m arg ''pf'' then (if arg2 \<noteq> 0 then Test_Page_Fault (digit_arg m arg2) else Not_Enough_Arguments cmd)
         else Nothing)"

definition exec_cmd :: "mem \<Rightarrow> u32 \<Rightarrow> action" where
  "exec_cmd m cmd =
     (let is = name_is m cmd; arg = nextArg m (argList m cmd);
          with_arg = (\<lambda>a. if arg = 0 then Not_Enough_Arguments cmd else a)
      in if is [] then Nothing
         else if is ''pwd'' then Pwd
         else if is ''ls'' then Ls arg
         else if is ''cd'' then Cd arg
         else if is ''cat'' then with_arg (Cat arg)
         else if is ''exec'' then with_arg (Exec arg)
         else if is ''print'' then with_arg (exec_print m arg)
         else if is ''test'' then with_arg (exec_test m cmd arg)
         else if is ''sig'' then Test_Sig
         else if is ''ipc'' then Test_Shm
         else if is ''rm'' then with_arg (Rm arg)
         else if is ''mkdir'' then with_arg (Mkdir arg)
         else if is ''touch'' then with_arg (Touch arg)
         else if is ''mv'' then with_arg (if nextArg m arg = 0 then Not_Enough_Arguments cmd else Mv arg (nextArg m arg))
         else if is ''app'' then with_arg (App arg (nextArg m arg))
         else Unknown_Command cmd)"

lemma strcmp_name:
  "0 \<notin> set (chars name) \<Longrightarrow> cstr m q (chars name) \<Longrightarrow> \<exists>d. kernel_strcmp m p q = Some d \<and> (d = 0 \<longleftrightarrow> name_is m p name)"
proof (induction name arbitrary: p q)
  case Nil
  then show ?case by (subst kernel_strcmp.simps) (auto simp: name_is_def chars_def signed_eq_0_iff)
next
  case (Cons c name)
  have q: "m q = of_char c" "m q \<noteq> 0" "cstr m (q + 1) (chars name)" "0 \<notin> set (chars name)"
    using Cons.prems by (auto simp: chars_def)
  show ?case
  proof (cases "m p = m q")
    case True
    then have "kernel_strcmp m p q = kernel_strcmp m (p + 1) (q + 1)" using q(2) by (subst kernel_strcmp.simps) simp
    then show ?thesis using Cons.IH [OF q(4,3), of "p + 1"] True q(1) by (simp add: name_is_def chars_def)
  next
    case False
    then have "kernel_strcmp m p q = Some (sint (m p) - sint (m q))" by (subst kernel_strcmp.simps) simp
    moreover have "sint (m p) \<noteq> sint (m q)" using False signed_word_eqI by blast
    ultimately show ?thesis using False q(1) by (auto simp: name_is_def chars_def)
  qed
qed

section \<open>Names and pointers in memory\<close>

text \<open>The twelve bytes of a node.\<close>

definition in_node :: "u32 \<Rightarrow> u32 \<Rightarrow> bool" where
  "in_node p x \<longleftrightarrow> unat (x - p) < 12"

lemma range_is_at: "range_is m p xs \<longleftrightarrow> (\<forall>i<length xs. m (p + of_nat i) = xs ! i)"
proof (induction xs arbitrary: p)
  case (Cons x xs)
  then show ?case by (auto simp: less_Suc_eq_0_disj add.assoc)
qed simp

lemma offset_at: "n < 2 ^ 32 \<Longrightarrow> unat (p + of_nat n - p) = n" for p :: u32
  by (simp add: unat_of_nat)

lemma put_chars_at:
  "length cs \<le> 2 ^ 32 \<Longrightarrow> put_chars cs p m x = (if unat (x - p) < length cs then cs ! unat (x - p) else m x)"
proof (induction cs arbitrary: p m)
  case (Cons c cs)
  show ?case
  proof (cases "x = p")
    case True
    then have "unat (x - (p + 1)) = 2 ^ 32 - 1" by (simp add: unat_minus_1_u32)
    then show ?thesis using Cons True by simp
  next
    case False
    then have "unat (x - (p + 1)) = unat (x - p) - 1" "0 < unat (x - p)"
      using unat_minus_one [of "x - p"] by (simp_all add: diff_diff_add unat_gt_0)
    then show ?thesis using Cons False by (auto simp: nth_Cons')
  qed
qed simp

lemma clear_name_at: "kmem (clear_name p s) x = (if unat (x - p) < 8 then 0 else kmem s x)"
  by (simp add: clear_name_def kernel_memset_def shell_consts memset_loop_at)

lemma store_name_at:
  "length w \<le> 7 \<Longrightarrow> kmem (store_name w p s) x = (if unat (x - p) < Suc (length w) then (w @ [0]) ! unat (x - p) else kmem s x)"
  by (simp add: store_name_def put_chars_at del: append.simps)

lemma set_pointer_at:
  "kmem (set_pointer p v s) x = (if 8 \<le> unat (x - p) \<and> unat (x - p) < 12 then byte_of v (unat (x - p) - 8) else kmem s x)"
proof -
  have "unat (x - (p + 8)) < 4 \<longleftrightarrow> 8 \<le> unat (x - p) \<and> unat (x - p) < 12"
    "8 \<le> unat (x - p) \<Longrightarrow> unat (x - (p + 8)) = unat (x - p) - 8"
    using offset_step [of 2 x p] by simp_all
  then show ?thesis by (auto simp: set_pointer_def store32_at shell_consts)
qed

lemma set_pointer_next [simp]: "nextArg (kmem (set_pointer p v s)) p = v"
  by (simp add: set_pointer_def nextArg_def)

lemma argList_next: "argList m p = nextArg m p"
  by (simp add: argList_def nextArg_def)

lemma nextArg_cong:
  assumes "\<And>x. in_node p x \<Longrightarrow> 8 \<le> unat (x - p) \<Longrightarrow> m' x = m x"
  shows "nextArg m' p = nextArg m p"
  unfolding nextArg_def
proof (rule load32_frame)
  fix j :: nat assume "j < 4"
  then have "unat (p + 8 + of_nat j - p) = 8 + j" using offset_at [of "8 + j" p] by (simp add: add.assoc)
  then show "m' (p + MAX_ARGUMENT_LENGTH + of_nat j) = m (p + MAX_ARGUMENT_LENGTH + of_nat j)"
    using \<open>j < 4\<close> by (intro assms) (simp_all add: in_node_def shell_consts)
qed

lemma cstr_cong:
  assumes "length w \<le> 7" and "\<And>x. in_node p x \<Longrightarrow> unat (x - p) < 8 \<Longrightarrow> m' x = m x"
  shows "cstr m' p w = cstr m p w"
proof -
  have "m' (p + of_nat i) = m (p + of_nat i)" if "i < 8" for i :: nat
    using that offset_at [of i p] by (intro assms(2)) (simp_all add: in_node_def)
  then show ?thesis using assms(1) by (auto simp: cstr_def range_is_at)
qed

lemma cstr_store_name: "length w \<le> 7 \<Longrightarrow> 0 \<notin> set w \<Longrightarrow> cstr (kmem (store_name w p s)) p w"
  by (auto simp: cstr_def range_is_at store_name_at unat_of_nat)

section \<open>The list of arguments\<close>

fun args_at :: "mem \<Rightarrow> u32 \<Rightarrow> (u32 \<times> u8 list) list \<Rightarrow> bool" where
  "args_at m p [] \<longleftrightarrow> nextArg m p = 0"
| "args_at m p ((q, w) # ns) \<longleftrightarrow> nextArg m p = q \<and> q \<noteq> 0 \<and> cstr m q w \<and> length w \<le> 7 \<and> args_at m q ns"

lemma args_at_cong:
  "(\<And>x y. y \<in> set (p # map fst ns) \<Longrightarrow> in_node y x \<Longrightarrow> m' x = m x) \<Longrightarrow> args_at m' p ns = args_at m p ns"
proof (induction ns arbitrary: p)
  case Nil
  have "nextArg m' p = nextArg m p" by (rule nextArg_cong) (auto intro: Nil)
  then show ?case by simp
next
  case (Cons a ns)
  obtain q w where a: "a = (q, w)" by (cases a)
  have "nextArg m' p = nextArg m p" by (rule nextArg_cong) (auto intro: Cons.prems)
  moreover have "args_at m' q ns = args_at m q ns"
  proof (rule Cons.IH)
    show "m' x = m x" if "y \<in> set (q # map fst ns)" "in_node y x" for x y
      using Cons.prems [of y x] that by (simp add: a)
  qed
  moreover have "length w \<le> 7 \<Longrightarrow> cstr m' q w = cstr m q w" by (rule cstr_cong) (auto intro: Cons.prems simp: a)
  ultimately show ?case by (auto simp: a)
qed

text \<open>A node behind the last one.\<close>

lemma args_at_snoc:
  assumes "args_at m p ns" and "distinct (p # map fst ns)"
    and "\<And>x y. y \<in> set (p # map fst ns) \<Longrightarrow> in_node y x \<Longrightarrow> y \<noteq> last (p # map fst ns) \<or> unat (x - y) < 8 \<Longrightarrow> m' x = m x"
    and "nextArg m' (last (p # map fst ns)) = q" and "q \<noteq> 0" and "cstr m' q w" and "length w \<le> 7" and "nextArg m' q = 0"
  shows "args_at m' p (ns @ [(q, w)])"
  using assms(1-4)
proof (induction ns arbitrary: p)
  case Nil
  then show ?case using assms(5-8) by simp
next
  case (Cons a ns)
  obtain r v where a: "a = (r, v)" by (cases a)
  have l: "last (p # map fst (a # ns)) = last (r # map fst ns)" by (simp add: a)
  have "p \<notin> set (r # map fst ns)" using Cons.prems(2) by (simp add: a)
  then have "p \<noteq> last (r # map fst ns)" using last_in_set [of "r # map fst ns"] by (metis list.discI)
  then have "nextArg m' p = nextArg m p" using l by (intro nextArg_cong Cons.prems(3)) auto
  moreover have "args_at m' r (ns @ [(q, w)])"
    using Cons.prems(1,2,4) l by (intro Cons.IH Cons.prems(3)) (auto simp: a)
  moreover have "cstr m' r v"
    using Cons.prems(1) by (subst cstr_cong [of v r m' m]) (auto simp: a intro!: Cons.prems(3))
  ultimately show ?case using Cons.prems(1) by (simp add: a)
qed


section \<open>The objects of a command\<close>

text \<open>\<open>owned R p\<close>: a region of the heap that is in use starts at \<open>p\<close> and has room for a node.\<close>

definition owned :: "region set \<Rightarrow> u32 \<Rightarrow> bool" where
  "owned R p \<longleftrightarrow> (\<exists>n\<ge>12. (unat p, n) \<in> R)"

lemma in_node_range: "unat p + 12 \<le> 2 ^ 32 \<Longrightarrow> in_node p x \<longleftrightarrow> unat p \<le> unat x \<and> unat x < unat p + 12"
proof (cases "unat p \<le> unat x")
  case True
  then have "unat (x - p) = unat x - unat p" by (simp add: unat_sub word_le_nat_alt)
  then show ?thesis using True by (auto simp: in_node_def)
next
  case False
  then have "unat (x - p) = 2 ^ 32 + unat x - unat p" using unat_sub_if_size [of x p] by (simp add: word_size)
  then show "unat p + 12 \<le> 2 ^ 32 \<Longrightarrow> ?thesis" using False by (simp add: in_node_def)
qed

lemma owned_bounds:
  assumes "heap s R" and "owned R p"
  shows "p \<noteq> 0" "unat p + 12 \<le> 2 ^ 32" "\<exists>z\<in>zone s. unat (vaddr z) \<le> unat p"
proof -
  obtain n where n: "12 \<le> n" "(unat p, n) \<in> R" using assms(2) by (auto simp: owned_def)
  show "p \<noteq> 0" "unat p + 12 \<le> 2 ^ 32" using heap_range [OF assms(1) n(2)] n(1) by auto
  show "\<exists>z\<in>zone s. unat (vaddr z) \<le> unat p" by (rule region_in_zone [OF assms(1) n(2)])
qed

lemma owned_apart:
  assumes "heap s R" and "owned R p" and "owned R q" and "p \<noteq> q" and "in_node p x"
  shows "\<not> in_node q x"
proof -
  obtain n m where n: "12 \<le> n" "(unat p, n) \<in> R" and m: "12 \<le> m" "(unat q, m) \<in> R"
    using assms(2,3) by (auto simp: owned_def)
  have "(unat p, n) \<noteq> (unat q, m)" using assms(4) by (auto simp: word_unat_eq_iff)
  then have "apart (unat p, n) (unat q, m)" by (rule heap_apart [OF assms(1) n(2) m(2)])
  then show ?thesis
    using in_node_range [OF owned_bounds(2) [OF assms(1,2)]] in_node_range [OF owned_bounds(2) [OF assms(1,3)]] assms(5) n(1) m(1)
    by (auto simp: apart_def)
qed

text \<open>
  \<open>parsed s P R c a name ns\<close>: the command at \<open>c\<close> has this name, and its list with the head \<open>a\<close> has the nodes
  \<open>ns\<close>, addresses with names; all are different objects of the heap, new since the regions \<open>P\<close> were in use.
\<close>

definition parsed ::
    "'z disk_scheme \<Rightarrow> region set \<Rightarrow> region set \<Rightarrow> u32 \<Rightarrow> u32 \<Rightarrow> u8 list \<Rightarrow> (u32 \<times> u8 list) list \<Rightarrow> bool" where
  "parsed s P R c a name ns \<longleftrightarrow> heap s R \<and> P \<subseteq> R \<and> (\<forall>p\<in>set (c # a # map fst ns). owned (R - P) p) \<and>
     distinct (c # a # map fst ns) \<and> argList (kmem s) c = a \<and> cstr (kmem s) c name \<and> length name \<le> 7 \<and>
     args_at (kmem s) a ns"

text \<open>An address outside the objects of these regions.\<close>

definition outside :: "region set \<Rightarrow> u32 \<Rightarrow> bool" where
  "outside R x \<longleftrightarrow> (\<forall>p. owned R p \<longrightarrow> \<not> in_node p x)"

lemma outside_mono: "R \<subseteq> R' \<Longrightarrow> outside (R' - P) x \<Longrightarrow> outside (R - P) x"
  by (auto simp: outside_def owned_def)

lemma owned_mono: "owned R p \<Longrightarrow> R \<subseteq> R' \<Longrightarrow> owned R' p"
  by (auto simp: owned_def)

text \<open>A byte that an allocation cannot return: it is below the memory of the heap or in use.\<close>

definition not_free :: "'z disk_scheme \<Rightarrow> region set \<Rightarrow> u32 \<Rightarrow> bool" where
  "not_free s R x \<longleftrightarrow> (\<forall>p\<in>zone s. unat x < unat (vaddr p)) \<or> (\<exists>(b, n)\<in>R. b \<le> unat x \<and> unat x < b + n)"

lemma not_free_outside:
  assumes "heap s R" and "P \<subseteq> R" and "not_free s P x"
  shows "outside (R - P) x"
  unfolding outside_def
proof (intro allI impI notI)
  fix p assume p: "owned (R - P) p" and x: "in_node p x"
  obtain n where n: "12 \<le> n" "(unat p, n) \<in> R" "(unat p, n) \<notin> P" using p by (auto simp: owned_def)
  have o: "owned R p" by (rule owned_mono [OF p]) auto
  have i: "unat p \<le> unat x" "unat x < unat p + 12"
    using in_node_range [OF owned_bounds(2) [OF assms(1) o]] x by auto
  consider "\<forall>p\<in>zone s. unat x < unat (vaddr p)" | b k where "(b, k) \<in> P" "b \<le> unat x" "unat x < b + k"
    using assms(3) by (auto simp: not_free_def)
  then show False
  proof cases
    case 1
    then show False using owned_bounds(3) [OF assms(1) o] i by (meson leD le_trans)
  next
    case 2
    have "apart (unat p, n) (b, k)" by (rule heap_apart [OF assms(1) n(2)]) (use 2(1) n(3) assms(2) in auto)
    then show False using i n(1) 2 by (auto simp: apart_def)
  qed
qed

lemma name_parsed:
  assumes "parsed s P R c a [] []" and "length w \<le> 7" and "0 \<notin> set w"
  shows "parsed (store_name w c s) P R c a w []" "outside (R - P) x \<Longrightarrow> kmem (store_name w c s) x = kmem s x"
    "zone (store_name w c s) = zone s" "room (store_name w c s) R k = room s R k"
proof -
  note D = assms(1) [unfolded parsed_def]
  have low: "kmem (store_name w c s) x = kmem s x" if "8 \<le> unat (x - c)" for x
    using that assms(2) by (simp add: store_name_at)
  have a: "kmem (store_name w c s) x = kmem s x" if "in_node a x" for x
    using owned_apart [of s R a c x] owned_mono [of "R - P" _ R] D that by (intro low) (auto simp: in_node_def)
  show "parsed (store_name w c s) P R c a w []"
    unfolding parsed_def
  proof (intro conjI)
    show "argList (kmem (store_name w c s)) c = a"
      using nextArg_cong [of c "kmem (store_name w c s)" "kmem s"] low D by (simp add: argList_next)
    show "args_at (kmem (store_name w c s)) a []" using nextArg_cong [of a "kmem (store_name w c s)" "kmem s"] a D by simp
  qed (use D assms in \<open>simp_all add: cstr_store_name\<close>, simp_all add: store_name_def)
  show "outside (R - P) x \<Longrightarrow> kmem (store_name w c s) x = kmem s x"
    using D by (intro low) (auto simp: outside_def in_node_def)
  show "zone (store_name w c s) = zone s" "room (store_name w c s) R k = room s R k"
    by (simp_all add: store_name_def)
qed

lemma arg_parsed:
  assumes "parsed s P R c a name ns" and "room s R (Suc k)" and "length w \<le> 7" and "0 \<notin> set w"
  obtains s' R' q where "newArg (last (a # map fst ns)) s = Some (s', q)" "parsed (store_name w q s') P R' c a name (ns @ [(q, w)])"
    "room (store_name w q s') R' k" "zone (store_name w q s') = zone s" "R \<subseteq> R'"
    "\<And>x. outside (R' - P) x \<Longrightarrow> kmem (store_name w q s') x = kmem s x"
proof -
  note D = assms(1) [unfolded parsed_def]
  define l where "l = last (a # map fst ns)"
  obtain s1 q m where K: "kmalloc sizeof_argumentNode s = (s1, q)" "q \<noteq> 0" "12 \<le> m" "room s1 (insert (unat q, m) R) k"
    "(unat q, m) \<notin> R" "zone s1 = zone s"
    by (rule kmalloc_page [OF assms(2), of sizeof_argumentNode]) (simp_all add: shell_consts)
  let ?R = "insert (unat q, m) R"
  have km: "kmem s1 = kmem s"
    using disk_of_slab_more(1) [OF kmalloc_more [of sizeof_argumentNode s]] K(1) by simp
  have H: "heap s1 ?R" by (rule room_heap [OF K(4)])
  define s' where "s' = set_pointer q 0 (clear_name q (set_pointer l q s1))"
  let ?t = "store_name w q s'"
  have r: "newArg l s = Some (s', q)" using K(1,2) by (simp add: newArg_def s'_def)
  have own: "owned ?R p" if "owned R p" for p using that by (auto simp: owned_def)
  have oq: "owned ?R q" using K(3) by (auto simp: owned_def)
  have nq: "\<not> owned R q"
  proof
    assume "owned R q"
    then obtain n where "(unat q, n) \<in> R" by (auto simp: owned_def)
    then show False using heap_unique [OF H, of "unat q" n m] K(5) by simp
  qed
  have la: "l \<in> set (a # map fst ns)" unfolding l_def by (rule last_in_set) simp
  have new: "owned (R - P) p" if "p \<in> set (c # a # map fst ns)" for p using D that by blast
  have up: "owned R p" if "owned (R - P) p" for p using owned_mono [OF that] by auto
  have ln: "owned (R - P) l" by (rule new) (use la in auto)
  have ol: "owned R l" by (rule up [OF ln])
  have oqn: "owned (?R - P) q" using K(3,5) D by (auto simp: owned_def)
  have oln: "owned (?R - P) l" by (rule owned_mono [OF ln]) auto
  have t: "kmem ?t x = (if in_node q x then (if unat (x - q) < Suc (length w) then (w @ [0]) ! unat (x - q)
        else if 8 \<le> unat (x - q) then byte_of 0 (unat (x - q) - 8) else 0)
      else if in_node l x \<and> 8 \<le> unat (x - l) then byte_of q (unat (x - l) - 8) else kmem s x)" for x
    using assms(3) by (auto simp: store_name_at s'_def set_pointer_at clear_name_at in_node_def km)
  have old: "\<not> in_node q x" if "owned R p" "in_node p x" for p x
    using owned_apart [OF H own [OF that(1)] oq] that nq by auto
  have keep: "kmem ?t x = kmem s x" if p: "owned R p" "in_node p x" "p \<noteq> l \<or> unat (x - p) < 8" for p x
  proof -
    have "\<not> (in_node l x \<and> 8 \<le> unat (x - l))"
      using owned_apart [OF H own [OF p(1)] own [OF ol] _ p(2)] p(3) by auto
    then show ?thesis using old [OF p(1,2)] by (auto simp: t)
  qed
  have nl: "nextArg (kmem ?t) l = q"
  proof -
    have "nextArg (kmem ?t) l = nextArg (kmem (set_pointer l q s1)) l"
      using old [OF ol] by (intro nextArg_cong) (auto simp: t set_pointer_at in_node_def)
    then show ?thesis by simp
  qed
  have n0: "nextArg (kmem ?t) q = 0"
  proof -
    have "nextArg (kmem ?t) q = nextArg (kmem (set_pointer q 0 s1)) q"
      using assms(3) by (intro nextArg_cong) (auto simp: t set_pointer_at in_node_def)
    then show ?thesis by simp
  qed
  have cl: "c \<noteq> l" using la D by auto
  have oc: "owned R c" by (rule up [OF new]) simp
  have all: "owned R p" if "p \<in> set (a # map fst ns)" for p by (rule up [OF new]) (use that in auto)
  have args: "args_at (kmem ?t) a (ns @ [(q, w)])"
  proof (rule args_at_snoc [where m = "kmem s" and p = a and ns = ns, folded l_def])
    show "args_at (kmem s) a ns" "distinct (a # map fst ns)" using D by simp_all
    show "kmem ?t x = kmem s x" if "y \<in> set (a # map fst ns)" "in_node y x" "y \<noteq> l \<or> unat (x - y) < 8" for x y
      using keep [OF all [OF that(1)] that(2,3)] .
  qed (use K(2) assms(3,4) nl n0 in \<open>simp_all add: cstr_store_name\<close>)
  have c: "argList (kmem ?t) c = a" "cstr (kmem ?t) c name"
    using D nextArg_cong [of c "kmem ?t" "kmem s"] cstr_cong [of name c "kmem ?t" "kmem s"] keep [OF oc] cl
    by (simp_all add: argList_next)
  have "parsed ?t P ?R c a name (ns @ [(q, w)])"
    unfolding parsed_def
  proof (intro conjI)
    show "heap ?t ?R" using H by (simp add: store_name_def s'_def set_pointer_def clear_name_def)
    show "\<forall>p\<in>set (c # a # map fst (ns @ [(q, w)])). owned (?R - P) p"
      using owned_mono [OF new, of _ "?R - P"] oqn by auto
    show "distinct (c # a # map fst (ns @ [(q, w)]))" using D nq up [OF new] by auto
  qed (use D c args in \<open>simp_all add: subset_insertI2\<close>)
  moreover have "room ?t ?R k" "zone ?t = zone s"
    using K(4,6) by (simp_all add: store_name_def s'_def set_pointer_def clear_name_def)
  moreover have "kmem ?t x = kmem s x" if "outside (?R - P) x" for x
    using that oqn oln by (auto simp: t outside_def)
  ultimately show ?thesis using that [folded l_def] r by blast
qed

section \<open>A line is its words\<close>

text \<open>The words of a line; \<open>acc\<close> is the beginning of the current one.\<close>

fun split_words :: "u8 list \<Rightarrow> u8 list \<Rightarrow> u8 list list" where
  "split_words acc [] = (if acc = [] then [] else [acc])"
| "split_words acc (c # cs) =
     (if c = 32 then (if acc = [] then [] else [acc]) @ split_words [] cs else split_words (acc @ [c]) cs)"

fun add_words :: "nat \<Rightarrow> u8 list list \<Rightarrow> u8 list \<times> u8 list list \<Rightarrow> u8 list \<times> u8 list list" where
  "add_words status [] x = x"
| "add_words status (w # ws) (n, as) = add_words 1 ws (if status = 0 then (w, as) else (n, as @ [w]))"

lemma add_words_1: "add_words (Suc 0) ws (n, as) = (n, as @ ws)"
  by (induction ws arbitrary: as) simp_all

lemma split_words_short: "\<forall>w\<in>set (split_words acc cs). length w \<le> n \<Longrightarrow> acc = [] \<or> length acc \<le> n"
proof (induction acc cs rule: split_words.induct)
  case (2 acc c cs)
  then show ?case by (cases "c = 32") (auto split: if_splits)
qed (auto split: if_splits)

lemma split_words_room:
  assumes "\<forall>w\<in>set (split_words acc (c # cs)). length w \<le> n" and "c \<noteq> 32"
  shows "length acc < n"
  using split_words_short [of "acc @ [c]" cs n] assms by simp

text \<open>One word, as the name of the command when it is the first one and as a new argument otherwise.\<close>

abbreviation new_nodes :: "nat \<Rightarrow> nat \<Rightarrow> nat" where
  "new_nodes status n \<equiv> if status = 0 then n - 1 else n"

lemma store_word:
  assumes D: "parsed s P R c a name ns" and st: "status = 0 \<longrightarrow> name = [] \<and> ns = []"
    and H: "room s R (new_nodes status (Suc k))" and w: "length w \<le> 7" "0 \<notin> set w"
  obtains s' R' name' ns' where "store_word status w c (last (a # map fst ns)) s = Some (s', last (a # map fst ns'))"
    "parsed s' P R' c a name' ns'" "add_words status (w # ws) (name, map snd ns) = add_words 1 ws (name', map snd ns')"
    "room s' R' k" "zone s' = zone s" "R \<subseteq> R'" "\<And>x. outside (R' - P) x \<Longrightarrow> kmem s' x = kmem s x"
proof (cases "status = 0")
  case True
  then have D: "parsed s P R c a [] []" and n: "name = []" "ns = []" using D st by auto
  note P = name_parsed [OF D w]
  show ?thesis
  proof (rule that)
    show "store_word status w c (last (a # map fst ns)) s = Some (store_name w c s, last (a # map fst []))"
      "add_words status (w # ws) (name, map snd ns) = add_words 1 ws (w, map snd [])"
      using True n by (simp_all add: store_word_def)
    show "room (store_name w c s) R k" using True H P(4) by simp
    show "kmem (store_name w c s) x = kmem s x" if "outside (R - P) x" for x by (rule P(2) [OF that])
  qed (simp_all add: P(1,3))
next
  case False
  then have S: "room s R (Suc k)" using H by simp
  obtain s' R' q where n: "newArg (last (a # map fst ns)) s = Some (s', q)"
    "parsed (store_name w q s') P R' c a name (ns @ [(q, w)])" "room (store_name w q s') R' k"
    "zone (store_name w q s') = zone s" "R \<subseteq> R'" "\<And>x. outside (R' - P) x \<Longrightarrow> kmem (store_name w q s') x = kmem s x"
    by (rule arg_parsed [OF D S w]) (rule that)
  show ?thesis
  proof (rule that [OF _ n(2) _ n(3-5)])
    show "store_word status w c (last (a # map fst ns)) s = Some (store_name w q s', last (a # map fst (ns @ [(q, w)])))"
      "add_words status (w # ws) (name, map snd ns) = add_words 1 ws (name, map snd (ns @ [(q, w)]))"
      using False by (simp_all only: store_word_def n(1) map_append) simp_all
  qed (rule n(6))
qed

lemma range_is_buffer:
  assumes "range_is m (cmd + i) xs" and "unat i + length xs \<le> 65" and "\<And>x. unat (x - cmd) < 65 \<Longrightarrow> m' x = m x"
  shows "range_is m' (cmd + i) xs"
  unfolding range_is_at
proof (intro allI impI)
  fix j assume j: "j < length xs"
  have "unat (cmd + i + of_nat j - cmd) = unat i + j"
    using j assms(2) offset_at [of "unat i + j" cmd] by (simp add: add.assoc)
  then have "m' (cmd + i + of_nat j) = m (cmd + i + of_nat j)" using j assms(2) by (intro assms(3)) simp
  then show "m' (cmd + i + of_nat j) = xs ! j" using assms(1) j by (simp add: range_is_at)
qed

lemma not_free_zone: "zone s' = zone s \<Longrightarrow> not_free s' P x = not_free s P x"
  by (simp add: not_free_def)

lemma parsed_outside: "parsed s' P R' c a name ns \<Longrightarrow> zone s' = zone s \<Longrightarrow> not_free s P x \<Longrightarrow> outside (R' - P) x"
  by (rule not_free_outside [of s']) (simp_all add: parsed_def not_free_zone [of s' s])

lemma parse_loop_words:
  assumes "parsed s P R c a name ns" and "status = 0 \<longrightarrow> name = [] \<and> ns = []"
    and "room s R (new_nodes status (length (split_words arg cs)))"
    and "range_is (kmem s) (cmd + i) (cs @ [10])" and "0 \<notin> set (arg @ cs)" and "10 \<notin> set cs" and "unat i + length cs < 64"
    and "\<forall>w\<in>set (split_words arg cs). length w \<le> 7" and "\<And>x. unat (x - cmd) < 65 \<Longrightarrow> not_free s P x"
  shows "\<exists>s' R' name' ns'. parse_loop cmd i arg status c (last (a # map fst ns)) s = Some (s', False) \<and>
    parsed s' P R' c a name' ns' \<and> (name', map snd ns') = add_words status (split_words arg cs) (name, map snd ns) \<and>
    R \<subseteq> R' \<and> (\<forall>x. outside (R' - P) x \<longrightarrow> kmem s' x = kmem s x)"
  using assms
proof (induction cs arbitrary: i arg status s R name ns)
  case Nil
  have i: "i < MAX_COMMAND_LENGTH" "kmem s (cmd + i) = 10" using Nil.prems(4,7) by (simp_all add: shell_consts word_less_nat_alt)
  show ?case
  proof (cases "arg = []")
    case True
    then have "parse_loop cmd i arg status c (last (a # map fst ns)) s = Some (s, False)"
      using i by (subst parse_loop.simps) simp
    then show ?thesis using Nil.prems(1) True by auto
  next
    case False
    have sp: "split_words arg [] = [arg]" using False by simp
    have w: "length arg \<le> 7" "0 \<notin> set arg" "room s R (new_nodes status (Suc 0))"
      using Nil.prems(3,5,8) by (simp_all only: sp) auto
    obtain s' R' name' ns' where S: "store_word status arg c (last (a # map fst ns)) s = Some (s', last (a # map fst ns'))"
      "parsed s' P R' c a name' ns'" "add_words status [arg] (name, map snd ns) = add_words 1 [] (name', map snd ns')"
      "zone s' = zone s" "R \<subseteq> R'" "\<And>x. outside (R' - P) x \<Longrightarrow> kmem s' x = kmem s x"
      by (rule store_word [OF Nil.prems(1,2) w(3,1,2)]) (rule that)
    have "kmem s' (cmd + i) = 10"
      using S(6) [OF parsed_outside [OF S(2,4) Nil.prems(9)]] Nil.prems(7) i by simp
    then have "parse_loop cmd i arg status c (last (a # map fst ns)) s = Some (s', False)"
      using i S(1) False by (subst parse_loop.simps) simp
    then show ?thesis using S(2,3,5,6) sp by (intro exI [of _ s'] exI [of _ R'] exI [of _ name'] exI [of _ ns']) simp
  qed
next
  case (Cons ch cs)
  let ?l = "last (a # map fst ns)"
  have c: "kmem s (cmd + i) = ch" "ch \<noteq> 0" "ch \<noteq> 10" and i: "i < MAX_COMMAND_LENGTH" "unat (i + 1) = Suc (unat i)"
    using Cons.prems(4-7) unat_Suc_less [of i 64] by (auto simp: shell_consts word_less_nat_alt)
  have r: "range_is (kmem s) (cmd + (i + 1)) (cs @ [10])" using Cons.prems(4) by (simp add: add.assoc)
  have m: "0 \<notin> set cs" "10 \<notin> set cs" "0 \<notin> set arg" "unat (i + 1) + length cs < 64"
    using Cons.prems(5-7) i(2) by simp_all
  have skip: "parse_loop cmd i [] st c l s1 = parse_loop cmd (i + 1) [] st c l s1"
    if "ch = 32" "kmem s1 (cmd + i) = ch" for st l s1
    using that i by (subst parse_loop.simps) simp
  consider "ch \<noteq> 32" | "ch = 32" "arg = []" | "ch = 32" "arg \<noteq> []" by blast
  then show ?case
  proof cases
    case 1
    have "length arg < 7" using split_words_room [OF Cons.prems(8) 1] .
    then have "parse_loop cmd i arg status c ?l s = parse_loop cmd (i + 1) (arg @ [ch]) status c ?l s"
      using 1 c i by (subst parse_loop.simps) (simp add: MAX_ARGUMENT_LENGTH_def)
    moreover have sp: "split_words arg (ch # cs) = split_words (arg @ [ch]) cs" using 1 by simp
    have z: "0 \<notin> set ((arg @ [ch]) @ cs)" using m c by simp
    note Cons.IH [OF Cons.prems(1,2) Cons.prems(3) [unfolded sp] r z m(2,4) Cons.prems(8) [unfolded sp] Cons.prems(9)]
    ultimately show ?thesis by (simp only: sp)
  next
    case 2
    then have sp: "split_words arg (ch # cs) = split_words [] cs" by simp
    have z: "0 \<notin> set ([] @ cs)" using m by simp
    show ?thesis
      using Cons.IH [OF Cons.prems(1,2) Cons.prems(3) [unfolded sp] r z m(2,4) Cons.prems(8) [unfolded sp] Cons.prems(9)]
        skip [OF 2(1) c(1)] 2(2) sp by (simp only:)
  next
    case 3
    then have sp: "split_words arg (ch # cs) = arg # split_words [] cs" by simp
    let ?ws = "split_words [] cs"
    have w: "length arg \<le> 7" "room s R (new_nodes status (Suc (length ?ws)))"
      using Cons.prems(3,8) by (simp_all only: sp) auto
    obtain s1 R1 name1 ns1 where S: "store_word status arg c ?l s = Some (s1, last (a # map fst ns1))"
      "parsed s1 P R1 c a name1 ns1"
      "add_words status (arg # ?ws) (name, map snd ns) = add_words 1 ?ws (name1, map snd ns1)"
      "room s1 R1 (length ?ws)" "zone s1 = zone s" "R \<subseteq> R1" "\<And>x. outside (R1 - P) x \<Longrightarrow> kmem s1 x = kmem s x"
      by (rule store_word [OF Cons.prems(1,2) w(2,1) m(3)]) (rule that)
    have b: "kmem s1 x = kmem s x" if "unat (x - cmd) < 65" for x
      using S(7) [OF parsed_outside [OF S(2,5) Cons.prems(9) [OF that]]] .
    have c1: "kmem s1 (cmd + i) = ch" using b [of "cmd + i"] c(1) Cons.prems(7) by simp
    have r1: "range_is (kmem s1) (cmd + (i + 1)) (cs @ [10])"
      by (rule range_is_buffer [OF r _ b]) (use m(4) in simp)
    have z: "0 \<notin> set ([] @ cs)" using m by simp
    have p: "parse_loop cmd i arg status c ?l s = parse_loop cmd (i + 1) [] 1 c (last (a # map fst ns1)) s1"
      using 3 c i c1 S(1) skip [OF 3(1) c1] by (subst parse_loop.simps) simp
    have ws: "\<forall>w\<in>set ?ws. length w \<le> 7" using Cons.prems(8) by (simp only: sp) simp
    have nf: "not_free s1 P x" if "unat (x - cmd) < 65" for x
      using Cons.prems(9) [OF that] not_free_zone [OF S(5)] by simp
    obtain s' R' name' ns' where E: "parse_loop cmd (i + 1) [] 1 c (last (a # map fst ns1)) s1 = Some (s', False)"
      "parsed s' P R' c a name' ns'" "(name', map snd ns') = add_words 1 ?ws (name1, map snd ns1)" "R1 \<subseteq> R'"
      "\<forall>x. outside (R' - P) x \<longrightarrow> kmem s' x = kmem s1 x"
      using Cons.IH [OF S(2) _ _ r1 z m(2,4) ws nf, of 1] S(4) by auto
    have "kmem s' x = kmem s x" if "outside (R' - P) x" for x
      using E(5) S(7) [OF outside_mono [OF E(4) that]] that by simp
    then show ?thesis using p E(1-4) S(3,6) sp by (intro exI [of _ s'] exI [of _ R'] exI [of _ name'] exI [of _ ns']) auto
  qed
qed

lemma command_parsed:
  assumes "room s R (Suc (Suc k))"
  obtains t c a R' where "parse_cmd cmd s = map_option (\<lambda>(s, long). (s, c, long)) (parse_loop cmd 0 [] 0 c a t)"
    "parsed t R R' c a [] []" "room t R' k" "zone t = zone s" "\<And>x. outside (R' - R) x \<Longrightarrow> kmem t x = kmem s x"
proof -
  obtain s1 c m where C: "kmalloc sizeof_command s = (s1, c)" "c \<noteq> 0" "12 \<le> m" "room s1 (insert (unat c, m) R) (Suc k)"
    "(unat c, m) \<notin> R" "zone s1 = zone s"
    by (rule kmalloc_page [OF assms, of sizeof_command]) (simp_all add: shell_consts)
  let ?C = "insert (unat c, m) R"
  have room1: "room (clear_name c s1) ?C (Suc k)" using C(4) by (simp add: clear_name_def)
  obtain s2 a n where A: "kmalloc sizeof_argumentNode (clear_name c s1) = (s2, a)" "a \<noteq> 0" "12 \<le> n"
    "room s2 (insert (unat a, n) ?C) k" "(unat a, n) \<notin> ?C" "zone s2 = zone (clear_name c s1)"
    by (rule kmalloc_page [OF room1, of sizeof_argumentNode]) (simp_all add: shell_consts)
  let ?R = "insert (unat a, n) ?C"
  have km: "kmem s1 = kmem s" "kmem s2 = kmem (clear_name c s1)"
    using disk_of_slab_more(1) [OF kmalloc_more [of sizeof_command s]] C(1)
      disk_of_slab_more(1) [OF kmalloc_more [of sizeof_argumentNode "clear_name c s1"]] A(1) by simp_all
  define t where "t = set_pointer a 0 (set_pointer c a s2)"
  have p: "parse_cmd cmd s = map_option (\<lambda>(s, long). (s, c, long)) (parse_loop cmd 0 [] 0 c a t)"
    using C(1,2) A(1,2) by (simp add: parse_cmd_def t_def Let_def)
  have H: "heap s2 ?R" by (rule room_heap [OF A(4)])
  have o: "owned (?R - R) c" "owned (?R - R) a" using C(3,5) A(3,5) by (auto simp: owned_def)
  have oR: "owned ?R c" "owned ?R a" by (rule owned_mono [OF o(1)], blast, rule owned_mono [OF o(2)], blast)
  have ne: "c \<noteq> a"
  proof
    assume "c = a"
    then show False using heap_unique [OF H, of "unat a" n m] A(5) by simp
  qed
  have ca: "\<not> in_node a x" if "in_node c x" for x by (rule owned_apart [OF H oR ne that])
  have tx: "kmem t x = (if in_node a x \<and> 8 \<le> unat (x - a) then byte_of 0 (unat (x - a) - 8)
      else if in_node c x then (if 8 \<le> unat (x - c) then byte_of a (unat (x - c) - 8) else 0) else kmem s x)" for x
    by (auto simp: t_def set_pointer_at clear_name_at in_node_def km)
  have "parsed t R ?R c a [] []"
    unfolding parsed_def
  proof (intro conjI)
    show "heap t ?R" using H by (simp add: t_def set_pointer_def)
    show "\<forall>p\<in>set (c # a # map fst []). owned (?R - R) p" "distinct (c # a # map fst [])" using o ne by simp_all
    have "nextArg (kmem t) c = nextArg (kmem (set_pointer c a s2)) c"
      using ca by (intro nextArg_cong) (auto simp: t_def set_pointer_at in_node_def)
    then show "argList (kmem t) c = a" by (simp add: argList_next)
    have "in_node c c" by (simp add: in_node_def)
    then show "cstr (kmem t) c []" using ca by (simp add: cstr_def tx)
  qed (auto simp: t_def)
  moreover have "room t ?R k" "zone t = zone s"
    using A(4,6) C(6) by (simp_all add: t_def set_pointer_def clear_name_def)
  moreover have "kmem t x = kmem s x" if "outside (?R - R) x" for x
    using that o by (auto simp: tx outside_def)
  ultimately show ?thesis using that p by blast
qed

section \<open>Editing a line\<close>

text \<open>What a typed character does to a line of at most 63 characters.\<close>

definition edit :: "u8 list \<Rightarrow> u32 \<Rightarrow> u8 list" where
  "edit line c = (if c = 8 then butlast line else if length line < 63 then line @ [ucast c] else line)"

lemma edit_length: "length line \<le> 63 \<Longrightarrow> length (edit line c) \<le> 63"
  by (auto simp: edit_def)

lemma range_is_upd: "n + length xs \<le> 2 ^ 32 \<Longrightarrow> length xs \<le> n \<Longrightarrow> range_is (m(p + of_nat n := v)) p xs = range_is m p xs"
proof -
  assume l: "n + length xs \<le> 2 ^ 32" "length xs \<le> n"
  have "p + of_nat i \<noteq> p + (of_nat n :: u32)" if "i < length xs" for i
  proof -
    have "(of_nat i :: u32) = of_nat n \<longleftrightarrow> i = n" using l that by (intro of_nat_u32_inj) simp_all
    then show ?thesis using l that by simp
  qed
  then show ?thesis by (simp add: range_is_at)
qed

lemma range_is_butlast: "range_is m p xs \<Longrightarrow> range_is m p (butlast xs)"
  by (simp add: range_is_at nth_butlast)

lemma range_is_snoc: "range_is m p (xs @ [x]) \<longleftrightarrow> range_is m p xs \<and> m (p + of_nat (length xs)) = x"
  by (auto simp: range_is_at nth_append less_Suc_eq)

lemma write_frame: "n < 65 \<Longrightarrow> 65 \<le> unat (a - p) \<Longrightarrow> a \<noteq> p + of_nat n" for a p :: u32
  by (auto simp: unat_of_nat)

lemma read_line_loop_edits:
  "10 \<notin> set cs \<Longrightarrow> - 1 \<notin> set cs \<Longrightarrow> range_is m str line \<Longrightarrow> length line \<le> 63 \<Longrightarrow>
   \<exists>m' s'. read_line_loop (cs @ 10 # rest) str 64 (of_nat (length line)) m s = Some (m', s', True, rest) \<and>
     range_is m' str (foldl edit line cs @ [10, 0]) \<and> (\<forall>a. 65 \<le> unat (a - str) \<longrightarrow> m' a = m a)"
proof (induction cs arbitrary: line m s)
  case Nil
  let ?n = "length line"
  have e: "str + (of_nat ?n + 1) = str + of_nat (Suc ?n)" by simp
  have "range_is (m(str + of_nat ?n := 10, str + of_nat (Suc ?n) := 0)) str ((line @ [10]) @ [0])"
    unfolding range_is_snoc using Nil.prems
    by (subst range_is_upd; simp add: range_is_snoc del: of_nat_Suc) (simp add: range_is_upd)
  then show ?case using write_frame [of ?n] write_frame [of "Suc ?n"] Nil.prems by (auto simp: e simp del: of_nat_Suc)
next
  case (Cons c cs)
  let ?n = "length line"
  note IH = Cons.IH [OF _ _ _ edit_length [OF Cons.prems(4)]]
  have c: "c \<noteq> 10" "c \<noteq> - 1" using Cons.prems(1,2) by auto
  have step: "\<exists>m2 s2. read_line_loop ((c # cs) @ 10 # rest) str 64 (of_nat ?n) m s =
      read_line_loop (cs @ 10 # rest) str 64 (of_nat (length (edit line c))) m2 s2 \<and>
    range_is m2 str (edit line c) \<and> (\<forall>a. 65 \<le> unat (a - str) \<longrightarrow> m2 a = m a)"
  proof (cases "c = 8")
    case True
    have z: "of_nat ?n = (0 :: u32) \<longleftrightarrow> line = []"
      using of_nat_u32_inj [of ?n 0] Cons.prems(4) by simp
    show ?thesis
    proof (cases "line = []")
      case True
      then show ?thesis using \<open>c = 8\<close> Cons.prems(3) by (auto simp: edit_def)
    next
      case False
      then have "of_nat ?n - 1 = (of_nat (?n - 1) :: u32)" by (simp add: of_nat_diff Suc_le_eq)
      moreover have "range_is (m(str + of_nat ?n := 0)) str (butlast line)"
        using Cons.prems(3,4) by (subst range_is_upd) (simp_all add: range_is_butlast)
      ultimately show ?thesis using \<open>c = 8\<close> False z write_frame [of ?n] Cons.prems(4)
        by (auto simp: edit_def Let_def)
    qed
  next
    case False
    have "unat (of_nat ?n :: u32) = ?n" using Cons.prems(4) by (simp add: unat_of_nat)
    then have "sint (of_nat ?n :: u32) = int ?n"
      using Cons.prems(4) sint_small [of "of_nat ?n"] by (simp only: uint_nat) simp
    then have l: "sint (of_nat ?n :: u32) < sint (64 - 1 :: u32) \<longleftrightarrow> ?n < 63" by simp
    show ?thesis
    proof (cases "?n < 63")
      case True
      have "range_is (m(str + of_nat ?n := ucast c)) str (line @ [ucast c])"
        using Cons.prems(3) True by (simp add: range_is_snoc range_is_upd)
      moreover have "of_nat ?n + 1 = (of_nat (Suc ?n) :: u32)" by simp
      ultimately show ?thesis using False True c l write_frame [of ?n]
        by (auto simp: edit_def simp del: of_nat_Suc)
    next
      case full: False
      then show ?thesis using False c l Cons.prems(3) by (auto simp: edit_def)
    qed
  qed
  then obtain m2 s2 where
    e: "read_line_loop ((c # cs) @ 10 # rest) str 64 (of_nat ?n) m s = read_line_loop (cs @ 10 # rest) str 64 (of_nat (length (edit line c))) m2 s2"
    "range_is m2 str (edit line c)" "\<And>a. 65 \<le> unat (a - str) \<Longrightarrow> m2 a = m a" by auto
  then show ?case using IH [OF _ _ e(2), of s2] Cons.prems(1,2) by auto
qed

lemma edits_length: "length line \<le> 63 \<Longrightarrow> length (foldl edit line cs) \<le> 63"
  by (induction cs arbitrary: line) (simp_all add: edit_length)

lemma cstr_unique: "cstr m p v \<Longrightarrow> cstr m p w \<Longrightarrow> v = w"
proof (induction v arbitrary: p w)
  case Nil
  then show ?case by (cases w) (auto simp: cstr_def)
next
  case (Cons x v)
  then obtain w' where w: "w = x # w'" by (cases w) (auto simp: cstr_def)
  have "v = w'" by (rule Cons.IH [of "p + 1"]) (use Cons.prems w in \<open>simp_all add: cstr_def\<close>)
  then show ?case using w by simp
qed

lemma name_is_cstr: "cstr m p w \<Longrightarrow> 0 \<notin> set (chars name) \<Longrightarrow> name_is m p name \<longleftrightarrow> chars name = w"
  using cstr_unique [of m p w "chars name"] by (auto simp: name_is_def cstr_def)

section \<open>Properties\<close>


lemma demo_disk_room: "room (demo_disk m) {} 16" "zone (demo_disk m) = {16..<32}"
proof -
  obtain f where "kheap demo_vm f {}" using demo_vm_heap(3) by blast
  then have K: "kheap (demo_disk m) f {}" by (simp add: demo_disk_def demo_pc_def pc_extend vm_extend)
  show z: "zone (demo_disk m) = {16..<32}"
    using demo_vm_heap(2) by (simp add: demo_disk_def pc_extend) (simp add: demo_pc_def vm_extend)
  have "kmem_caches (demo_disk m) = kmem_caches demo_heap"
    by (simp add: demo_disk_def demo_pc_def demo_vm_def vm.defs slab.defs pc.defs)
  moreover have "object_size (kmem_caches demo_heap i) = kmem_cache_size ! i" if "i < KMEM_CACHE_NUM" for i
    using demo_heap_heap that by (auto simp: heap_def)
  ultimately show "room (demo_disk m) {} 16"
    unfolding room_def using K z by (intro exI [of _ f] exI [of _ "{}"]) (auto simp: kobjs_def kblocks_def slab_pages_def)
qed

lemma demo_buffer:
  assumes "unat (x - 0x1000) < 65"
  shows "not_free (demo_disk m) {} x"
proof -
  have "x - 0x1000 + 0x1000 = x" by simp
  then have "unat x = unat (x - 0x1000) + 0x1000"
    using assms unat_add_lem [of "x - 0x1000" "0x1000"] by (simp del: diff_add_cancel)
  moreover have "2 ^ 31 \<le> unat (vaddr p)" if "p \<in> {16..<32}" for p
    using vaddr_facts(1) [of p] that by simp
  ultimately show ?thesis using assms by (fastforce simp: not_free_def demo_disk_room(2))
qed

lemma exec_cat:
  assumes "parsed s P R c a [99, 97, 116] [(q, w)]"
  shows "exec_cmd (kmem s) c = Cat q" "cstr (kmem s) q w"
proof -
  note D = assms [unfolded parsed_def]
  have c: "cstr (kmem s) c [99, 97, 116]" using D by blast
  have n: "argList (kmem s) c = a" "nextArg (kmem s) a = q" "q \<noteq> 0" using D by simp_all
  have "\<not> name_is (kmem s) c []" "\<not> name_is (kmem s) c ''pwd''" "\<not> name_is (kmem s) c ''ls''" "\<not> name_is (kmem s) c ''cd''"
    "name_is (kmem s) c ''cat''"
    by (subst name_is_cstr [OF c]; simp add: chars_def)+
  then show "exec_cmd (kmem s) c = Cat q"
    unfolding exec_cmd_def Let_def n(1,2) using n(3) by (simp only: simp_thms if_True if_False)
  show "cstr (kmem s) q w" using D by simp
qed


end
