(* ===== verification/Fs_Cmd.thy ===== *)
theory Fs_Cmd
  imports Path Screen
begin

text \<open>
  The file commands of the shell, \<^verbatim>\<open>src/usr/fs_cmd.c\<close>, on the file system and the screen.  The state is
  extended by the screen and by the pointer to the name of the current directory, which is built from
  the end of a buffer of 500 bytes; \<open>addr_of\<close> gives the address of that buffer.
\<close>

definition VGA_BLUE :: u32 where "VGA_BLUE = 0xF00"
definition VGA_YELLOW :: u32 where "VGA_YELLOW = 0x0FF"
definition PWD_BUF_SIZE :: u32 where "PWD_BUF_SIZE = 500"
definition F_MODE_WRITE :: u32 where "F_MODE_WRITE = F_MODE_WRITE_MASK"
definition HOME_PATH :: string where "HOME_PATH = ''/home''"

lemmas cmd_consts [os_const] = VGA_BLUE_def VGA_YELLOW_def PWD_BUF_SIZE_def

record cmd_state = fs +
  vga :: screen
  pwd_path :: u32

section \<open>Messages\<close>

definition newline :: char where "newline = CHR 0x0A"

definition say :: "u32 \<Rightarrow> u32 \<Rightarrow> string \<Rightarrow> u32 list \<Rightarrow> 'z cmd_state_scheme \<Rightarrow> 'z cmd_state_scheme option" where
  "say fgColor bgColor format args s =
     do { (v, _) \<leftarrow> kernel_printf_argList (kmem s) fgColor bgColor (addr_of s format) args (vga s); Some (s\<lparr>vga := v\<rparr>) }"

definition show_char :: "u8 \<Rightarrow> 'z cmd_state_scheme \<Rightarrow> 'z cmd_state_scheme" where
  "show_char ch s = s\<lparr>vga := kernel_putchar ch (vga s)\<rparr>"

definition print_error_info :: "u32 \<Rightarrow> u32 \<Rightarrow> 'z cmd_state_scheme \<Rightarrow> 'z cmd_state_scheme option" where
  "print_error_info code path s =
     (if code = - ERROR_NOT_DIR then say VGA_RED VGA_BLACK (''\"%s\" is not a directory!'' @ [newline]) [path] s
      else if code = - ERROR_CACHE_FULL then say VGA_RED VGA_BLACK (''fs cache full!'' @ [newline]) [] s
      else if code = - ERROR_FILE_NOTFOUND then say VGA_RED VGA_BLACK (''\"%s\" is not found!'' @ [newline]) [path] s
      else say VGA_RED VGA_BLACK (''error code: %d'' @ [newline]) [code] s)"

section \<open>Directories\<close>

definition pwd :: "'z cmd_state_scheme \<Rightarrow> 'z cmd_state_scheme option" where
  "pwd s = say VGA_WHITE VGA_BLACK (''%s'' @ [newline]) [pwd_path s] s"

text \<open>
  A node that belongs to no live entry has no comparison in the code; \<open>ls_loop\<close> visits every node of
  the sorted list and has no result for such a node, whatever is returned here.
\<close>

definition sort_cmp :: "'z fs_scheme \<Rightarrow> fnode \<Rightarrow> fnode \<Rightarrow> int" where
  "sort_cmp s a b =
     (case Option.bind (sibling_at a) (dentries s) of
        None \<Rightarrow> 0
      | Some x \<Rightarrow> (case Option.bind (sibling_at b) (dentries s) of
                    None \<Rightarrow> 0
                  | Some y \<Rightarrow> d_compare (d_op x) (kmem s) (d_name x) (d_name y)))"

definition ls_entry :: "u32 \<Rightarrow> 'z cmd_state_scheme \<Rightarrow> 'z cmd_state_scheme option" where
  "ls_entry entry s =
     do {
       d \<leftarrow> dentries s entry;
       i \<leftarrow> inodes s (d_inode d);
       s \<leftarrow> say (if i_isdir i then VGA_YELLOW else VGA_BLUE) VGA_BLACK (''%s'' @ [newline]) [q_name (d_name d)] s;
       s \<leftarrow> upd_dentry entry (\<lambda>d. d\<lparr>d_pinned := False\<rparr>) s;
       s \<leftarrow> upd_inode (d_inode d) (\<lambda>i. i\<lparr>i_pinned := False\<rparr>) s;
       d_dec_count entry s
     }"

partial_function (option) ls_loop :: "fnode \<Rightarrow> fnode \<Rightarrow> 'z cmd_state_scheme \<Rightarrow> 'z cmd_state_scheme option" where
  "ls_loop head p s =
     (if p = head then Some s
      else do { entry \<leftarrow> sibling_at p; s \<leftarrow> ls_entry entry s; ls_loop head (next (flinks s) p) s })"

definition ls :: "u32 \<Rightarrow> 'z cmd_state_scheme \<Rightarrow> 'z cmd_state_scheme option" where
  "ls dirname s =
     do {
       let dirname = (if dirname = 0 \<or> kmem s dirname = 0 then pwd_path s else dirname);
       home \<leftarrow> kernel_strcmp (kmem s) dirname (addr_of s ''~'');
       let dirname = (if home = 0 then addr_of s HOME_PATH else dirname);
       (s, dir) \<leftarrow> fs_open dirname F_MODE_READ s;
       if IS_ERR_VALUE dir then print_error_info dir dirname s
       else do {
         f \<leftarrow> files s dir;
         (s, entry) \<leftarrow> (case f_op f of FAT32 \<Rightarrow> list_dir_fat32 dir s | EXT2 \<Rightarrow> list_dir_ext2 dir s);
         if IS_ERR_VALUE entry then print_error_info entry dirname s
         else do {
           h \<leftarrow> list_sort (DSubdirs entry) (sort_cmp (fs.truncate s)) (flinks s);
           s \<leftarrow> ls_loop (DSubdirs entry) (next h (DSubdirs entry)) (s\<lparr>flinks := h\<rparr>);
           (s, _) \<leftarrow> fs_close dir s;
           Some s
         }
       }
     }"

text \<open>The characters of a name, from the last one on, in front of \<open>p\<close>.\<close>

primrec put_back :: "nat \<Rightarrow> u32 \<Rightarrow> mem \<times> u32 \<Rightarrow> mem \<times> u32" where
  "put_back 0 name x = x"
| "put_back (Suc n) name x = (let (m, p) = x in put_back n name (m(p - 1 := m (name + of_nat n)), p - 1))"

definition dec_and_put :: "u8 \<Rightarrow> mem \<times> u32 \<Rightarrow> mem \<times> u32" where
  "dec_and_put c x = (let (m, p) = x in (m(p - 1 := c), p - 1))"

definition put_name_back :: "qstr \<Rightarrow> mem \<times> u32 \<Rightarrow> mem \<times> u32" where
  "put_name_back q x = dec_and_put 47 (put_back (nat (sint (q_len q - 1) + 1)) (q_name q) x)"

partial_function (option) path_loop :: "u32 \<Rightarrow> u32 \<Rightarrow> u32 \<Rightarrow> 'z fs_scheme \<Rightarrow> ('z fs_scheme \<times> u32) option" where
  "path_loop root entry path s =
     (if entry = root then Some (s, path)
      else do {
        d \<leftarrow> dentries s entry;
        let (m, path) = put_name_back (d_name d) (kmem s, path);
        (s, entry) \<leftarrow> get_dentry_parent entry (s\<lparr>kmem := m\<rparr>);
        path_loop root entry path s
      })"

definition cd :: "u32 \<Rightarrow> 'z cmd_state_scheme \<Rightarrow> 'z cmd_state_scheme option" where
  "cd dirname s =
     do {
       home \<leftarrow> (if dirname = 0 \<or> kmem s dirname = 0 then Some 0
                else kernel_strcmp (kmem s) dirname (addr_of s ''~''));
       let dirname = (if home = 0 then addr_of s HOME_PATH else dirname);
       (s, dir) \<leftarrow> fs_open dirname F_MODE_READ s;
       if IS_ERR_VALUE dir then print_error_info dir dirname s
       else do {
         f \<leftarrow> files s dir;
         let s = s\<lparr>pwd_dentry := f_dentry f\<rparr>;
         let (m, path) = dec_and_put 0 (kmem s, addr_of s ''pwd_buffer'' + PWD_BUF_SIZE);
         let s = s\<lparr>kmem := m\<rparr>;
         if pwd_dentry s = root_dentry s
         then let (m, path) = dec_and_put 47 (kmem s, path) in Some (s\<lparr>kmem := m, pwd_path := path\<rparr>)
         else do {
           (s, path) \<leftarrow> path_loop (root_dentry s) (pwd_dentry s) path s;
           (s, _) \<leftarrow> fs_close dir (s\<lparr>pwd_path := path\<rparr>);
           Some s
         }
       }
     }"

definition print_prompt :: "'z cmd_state_scheme \<Rightarrow> 'z cmd_state_scheme option" where
  "print_prompt s =
     do {
       s \<leftarrow> say VGA_WHITE VGA_BLACK ''[user@localhost '' [] s;
       home \<leftarrow> kernel_strcmp (kmem s) (pwd_path s) (addr_of s HOME_PATH);
       say VGA_WHITE VGA_BLACK ''%s]$ '' [if home = 0 then addr_of s ''~'' else pwd_path s] s
     }"

section \<open>Files\<close>

partial_function (option) cat_loop :: "u32 \<Rightarrow> 'z cmd_state_scheme \<Rightarrow> 'z cmd_state_scheme option" where
  "cat_loop text_file s =
     do {
       f \<leftarrow> files s text_file;
       if eof f then Some s
       else do { (s, c) \<leftarrow> fs_getchar text_file s; cat_loop text_file (show_char c s) }
     }"

definition cat :: "u32 \<Rightarrow> 'z cmd_state_scheme \<Rightarrow> 'z cmd_state_scheme option" where
  "cat filename s =
     do {
       (s, text_file) \<leftarrow> fs_open filename F_MODE_READ s;
       if IS_ERR_VALUE text_file then print_error_info text_file filename s
       else do {
         s \<leftarrow> cat_loop text_file s;
         (s, _) \<leftarrow> fs_close text_file (show_char 10 s);
         Some s
       }
     }"

definition open_close :: "u32 \<Rightarrow> u32 \<Rightarrow> 'z cmd_state_scheme \<Rightarrow> 'z cmd_state_scheme option" where
  "open_close filename mode s =
     do {
       (s, fp) \<leftarrow> fs_open filename mode s;
       if IS_ERR_VALUE fp then print_error_info fp filename s
       else do { (s, _) \<leftarrow> fs_close fp s; Some s }
     }"

definition touch :: "u32 \<Rightarrow> 'z cmd_state_scheme \<Rightarrow> 'z cmd_state_scheme option" where
  "touch filename s = open_close filename F_MODE_READ_WRITE s"

definition mkdir :: "u32 \<Rightarrow> 'z cmd_state_scheme \<Rightarrow> 'z cmd_state_scheme option" where
  "mkdir filename s = open_close filename (F_MODE_READ_WRITE OR F_MODE_DIR_MASK) s"

definition rm_error :: "u32 \<Rightarrow> u32 \<Rightarrow> 'z cmd_state_scheme \<Rightarrow> 'z cmd_state_scheme option" where
  "rm_error error filename s =
     (if error = - ERROR_NOT_EMPTY then say VGA_RED VGA_BLACK (''directory \"%s\" is not empty!'' @ [newline]) [filename] s
      else print_error_info error filename s)"

definition rm :: "u32 \<Rightarrow> 'z cmd_state_scheme \<Rightarrow> 'z cmd_state_scheme option" where
  "rm filename s =
     do {
       (s, fp) \<leftarrow> fs_open filename F_MODE_READ s;
       if IS_ERR_VALUE fp then rm_error fp filename s
       else do {
         (s, error) \<leftarrow> fs_delete fp s;
         if IS_ERR_VALUE error then rm_error error filename s
         else do { (s, _) \<leftarrow> fs_close fp s; Some s }
       }
     }"

partial_function (option) mv_loop :: "u32 \<Rightarrow> u32 \<Rightarrow> u32 \<Rightarrow> 'z fs_scheme \<Rightarrow> ('z fs_scheme \<times> u32) option" where
  "mv_loop src_file dst_file error s =
     do {
       f \<leftarrow> files s src_file;
       if eof f then Some (s, error)
       else do {
         (s, c) \<leftarrow> fs_getchar src_file s;
         (s, error) \<leftarrow> fs_putchar dst_file c s;
         if IS_ERR_VALUE error then Some (s, error) else mv_loop src_file dst_file error s
       }
     }"

definition mv :: "u32 \<Rightarrow> u32 \<Rightarrow> 'z cmd_state_scheme \<Rightarrow> 'z cmd_state_scheme option" where
  "mv src dst s =
     do {
       (s, src_file) \<leftarrow> fs_open src F_MODE_READ s;
       if IS_ERR_VALUE src_file then print_error_info src_file src s
       else do {
         (s, dst_file) \<leftarrow> fs_open dst F_MODE_WRITE s;
         if IS_ERR_VALUE dst_file then print_error_info dst_file src s
         else do {
           (s, error) \<leftarrow> mv_loop src_file dst_file NO_ERROR s;
           if IS_ERR_VALUE error then print_error_info error src s
           else do {
             (s, error) \<leftarrow> fs_delete src_file s;
             if IS_ERR_VALUE error then print_error_info error src s
             else do { (s, _) \<leftarrow> fs_close src_file s; (s, _) \<leftarrow> fs_close dst_file s; Some s }
           }
         }
       }
     }"

definition app :: "u32 \<Rightarrow> u32 \<Rightarrow> 'z cmd_state_scheme \<Rightarrow> 'z cmd_state_scheme option" where
  "app filename str s =
     do {
       (s, fp) \<leftarrow> fs_open filename F_MODE_APPEND s;
       if IS_ERR_VALUE fp then Some s
       else do { (s, _) \<leftarrow> fs_puts fp str s; (s, _) \<leftarrow> fs_close fp s; Some s }
     }"

section \<open>Showing a file\<close>

lemma fs_getchar_next:
  assumes "file_at s fp B bs pos" and "files s fp = Some f" and "f_mode f AND F_MODE_READ_MASK \<noteq> 0"
    and "pos < unat (f_size f)" and "\<And>x. x \<in> set bs \<Longrightarrow> apart_bytes (snd x) (unat B) (addr_of s ''c'') 1"
  shows "\<exists>m g. fs_getchar fp s = Some (s\<lparr>kmem := m, files := (files s)(fp \<mapsto> g)\<rparr>, contents (kmem s) B bs ! pos) \<and>
    f_size g = f_size f \<and> f_mode g = f_mode f \<and> file_at (s\<lparr>kmem := m, files := (files s)(fp \<mapsto> g)\<rparr>) fp B bs (Suc pos) \<and>
    contents m B bs = contents (kmem s) B bs"
proof -
  have l: "pos < length (contents (kmem s) B bs)" using assms(1,2,4) by (auto simp: file_at_def)
  obtain m g where r: "fs_read fp (addr_of s ''c'') 1 s = Some (s\<lparr>kmem := m, files := (files s)(fp \<mapsto> g)\<rparr>, NO_ERROR)"
    and g: "f_size g = f_size f" "f_mode g = f_mode f" "file_at (s\<lparr>kmem := m, files := (files s)(fp \<mapsto> g)\<rparr>) fp B bs (Suc pos)"
    and b: "bytes m (addr_of s ''c'') 1 = take 1 (drop pos (contents (kmem s) B bs))" "contents m B bs = contents (kmem s) B bs"
    using fs_read_next [OF assms(1-3), of 1 "addr_of s ''c''"] assms(4,5) by auto
  have "m (addr_of s ''c'') = contents (kmem s) B bs ! pos"
    using b(1) l by (simp add: bytes_def take_Suc hd_drop_conv_nth)
  then show ?thesis using r g b(2) by (auto simp: fs_getchar_def Let_def error_consts)
qed

lemma file_at_vga [simp]: "file_at (s\<lparr>vga := v\<rparr>) fp B bs pos = file_at s fp B bs pos"
  by (simp add: file_at_def file_blocksize_def cached_def)

text \<open>
  C32.  Showing an open file whose blocks are cached ends and puts the bytes of its contents, from the
  position up to its size, on the terminal in order; the file is then at its end.
\<close>

theorem cat_shows_contents:
  assumes "file_at s fp B bs pos" and "files s fp = Some f" and "f_mode f AND F_MODE_READ_MASK \<noteq> 0"
    and "pos \<le> unat (f_size f)" and "\<And>x. x \<in> set bs \<Longrightarrow> apart_bytes (snd x) (unat B) (addr_of s ''c'') 1"
    and "screen_ok (vga s)"
  shows "\<exists>t. cat_loop fp s = Some t \<and> screen_ok (vga t) \<and> file_at t fp B bs (unat (f_size f)) \<and>
    view (vga t) = fold (\<lambda>c. term_put (scast c) VGA_WHITE VGA_BLACK)
      (take (unat (f_size f) - pos) (drop pos (contents (kmem s) B bs))) (view (vga s))"
  using assms
proof (induction "unat (f_size f) - pos" arbitrary: pos s f)
  case 0
  then have "pos = unat (f_size f)" by simp
  moreover have "unat (f_pos f) = pos" using 0 by (auto simp: file_at_def)
  ultimately have "eof f" by (simp add: eof_def word_unat_eq_iff)
  then show ?case using 0 \<open>pos = _\<close> by (subst cat_loop.simps) simp
next
  case (Suc n)
  have l: "pos < unat (f_size f)" using Suc.hyps(2) by simp
  have e: "\<not> eof f" using l Suc.prems(1,2) by (auto simp: eof_def file_at_def)
  have len: "pos < length (contents (kmem s) B bs)" using l Suc.prems(1,2) by (auto simp: file_at_def)
  obtain m g where r: "fs_getchar fp s = Some (s\<lparr>kmem := m, files := (files s)(fp \<mapsto> g)\<rparr>, contents (kmem s) B bs ! pos)"
    and g: "f_size g = f_size f" "f_mode g = f_mode f" "file_at (s\<lparr>kmem := m, files := (files s)(fp \<mapsto> g)\<rparr>) fp B bs (Suc pos)"
    "contents m B bs = contents (kmem s) B bs"
    using fs_getchar_next [OF Suc.prems(1-3) l Suc.prems(5)] by blast
  let ?c = "contents (kmem s) B bs ! pos"
  let ?t = "show_char ?c (s\<lparr>kmem := m, files := (files s)(fp \<mapsto> g)\<rparr>)"
  have v: "screen_ok (vga ?t)" "view (vga ?t) = term_put (scast ?c) VGA_WHITE VGA_BLACK (view (vga s))"
    using putch_view [OF Suc.prems(6)] by (simp_all add: show_char_def kernel_putchar_def)
  have "\<exists>t. cat_loop fp ?t = Some t \<and> screen_ok (vga t) \<and> file_at t fp B bs (unat (f_size g)) \<and>
    view (vga t) = fold (\<lambda>c. term_put (scast c) VGA_WHITE VGA_BLACK)
      (take (unat (f_size g) - Suc pos) (drop (Suc pos) (contents (kmem ?t) B bs))) (view (vga ?t))"
  proof (rule Suc.hyps(1) [OF _ _ _ _ _ _ v(1)])
    show "n = unat (f_size g) - Suc pos" "Suc pos \<le> unat (f_size g)" using Suc.hyps(2) l g(1) by simp_all
  qed (use g Suc.prems in \<open>simp_all add: show_char_def\<close>)
  moreover have "cat_loop fp s = cat_loop fp ?t" using Suc.prems(2) e r by (subst cat_loop.simps) simp
  moreover have "take (unat (f_size f) - pos) (drop pos (contents (kmem s) B bs)) =
      ?c # take (unat (f_size g) - Suc pos) (drop (Suc pos) (contents (kmem ?t) B bs))"
    using len Suc.hyps(2) g by (simp add: show_char_def Cons_nth_drop_Suc [symmetric] take_Suc_Cons [symmetric] Suc_diff_Suc)
  ultimately show ?case using v(2) g(1) by simp
qed

lemma file_at_extend: "file_at (fs.extend (s\<lparr>kmem := m\<rparr>) x) fp B bs pos = file_at s fp B bs pos"
  by (simp add: file_at_def file_blocksize_def cached_def fs.defs)

text \<open>The file of two blocks at its third byte, with letters in them, and an empty screen.\<close>

definition demo_cmd :: cmd_state where
  "demo_cmd = fs.extend (demo_open\<lparr>kmem := (\<lambda>a. ucast a + 65)\<rparr>)
     \<lparr>vga = \<lparr>row = 0, col = 0, freq = 31, vram = \<lambda>_. 0, gpio_cursor = 0\<rparr>, pwd_path = 0\<rparr>"

theorem cat_shows_contents_witness:
  "\<exists>t. cat_loop 0x900 demo_cmd = Some t \<and> view (vga t) =
    fold (\<lambda>c. term_put (scast c) VGA_WHITE VGA_BLACK) [67, 68, 65, 66, 67, 68 :: u8] (0, 0, grid (\<lambda>_. 0))"
proof -
  have at: "file_at demo_cmd 0x900 4 [(0x40, 0x1000), (0x50, 0x2000)] 2" using demo_open_at(2) by (simp add: demo_cmd_def file_at_extend)
  have f: "files demo_cmd 0x900 = Some demo_file" using demo_open_at(1) by (simp add: demo_cmd_def fs.defs)
  have a: "addr_of demo_cmd ''c'' = 0x200" by (simp add: demo_cmd_def demo_open_def demo_fs_def fs.defs disk.defs upd_flinks_def)
  have ap: "apart_bytes (snd x) (unat (4 :: u32)) (addr_of demo_cmd ''c'') 1" if "x \<in> set [(0x40, 0x1000), (0x50, 0x2000)]" for x :: "u32 \<times> u32"
    using that by (auto simp: a apart_bytes_def dest!: byte_cases)
  have c: "bytes (kmem demo_cmd) 0x1000 4 = [65, 66, 67, 68]" "bytes (kmem demo_cmd) 0x2000 4 = [65, 66, 67, 68]"
    by (simp_all add: demo_cmd_def fs.defs bytes_def upt_rec)
  have v: "screen_ok (vga demo_cmd)" "view (vga demo_cmd) = (0, 0, grid (\<lambda>_. 0))"
    by (simp_all add: demo_cmd_def fs.defs screen_ok_def view_def)
  show ?thesis using cat_shows_contents [OF at f _ _ ap v(1)] c v(2) by (auto simp: demo_file_def file_consts)
qed

section \<open>The name of the current directory\<close>

lemma put_back_bytes:
  assumes "apart_bytes name n (p - of_nat n) n" and "n < 2 ^ 32"
  shows "\<exists>m'. put_back n name (m, p) = (m', p - of_nat n) \<and> bytes m' (p - of_nat n) n = bytes m name n \<and>
    (\<forall>a. n \<le> unat (a - (p - of_nat n)) \<longrightarrow> m' a = m a)"
  using assms
proof (induction n arbitrary: m p)
  case (Suc n)
  let ?m = "m(p - 1 := m (name + of_nat n))" and ?q = "p - 1 - of_nat n"
  have q: "p - of_nat (Suc n) = ?q" by simp
  have n: "n < 2 ^ 32" using Suc.prems(2) by simp
  have ap: "apart_bytes name n ?q n" using Suc.prems(1) unfolding q by (rule apart_bytes_mono) simp_all
  obtain m' where m': "put_back n name (?m, p - 1) = (m', ?q)" "bytes m' ?q n = bytes ?m name n"
    "\<And>a. n \<le> unat (a - ?q) \<Longrightarrow> m' a = ?m a"
    using Suc.IH [OF ap n] by blast
  have u: "unat (p - 1 - ?q) = n" using n by (simp add: unat_of_nat)
  have "name + of_nat i \<noteq> p - 1" if "i < n" for i
  proof
    assume "name + of_nat i = p - 1"
    then show False using apart_bytesD [OF Suc.prems(1), of i] that u unfolding q by simp
  qed
  then have "bytes ?m name n = bytes m name n" by (intro bytes_cong) simp
  moreover have "m' (?q + of_nat n) = m (name + of_nat n)" using m'(3) [of "p - 1"] u by simp
  ultimately have "bytes m' ?q (Suc n) = bytes m name (Suc n)" using m'(2) by (simp add: bytes_Suc)
  moreover have "m' a = m a" if "Suc n \<le> unat (a - ?q)" for a using m'(3) [of a] that u by auto
  ultimately show ?case using m'(1) by (simp only: q) simp
qed simp

lemma put_name_back_bytes:
  assumes "n = unat (q_len q)" and "apart_bytes (q_name q) n r (Suc n)" and "n < 2 ^ 31" and "r = p - of_nat n - 1"
  shows "\<exists>m'. put_name_back q (m, p) = (m', r) \<and> bytes m' r (Suc n) = 47 # qname m q \<and>
    (\<forall>a. Suc n \<le> unat (a - r) \<longrightarrow> m' a = m a)"
proof -
  have r: "p - of_nat n = r + of_nat 1" using assms(4) by simp
  have "sint (q_len q - 1) + 1 = int n"
  proof (cases "q_len q = 0")
    case False
    then have "unat (q_len q - 1) = n - 1" "0 < n" by (simp_all add: assms(1) unat_sub word_le_nat_alt unat_gt_0 Suc_le_eq)
    moreover have "sint (q_len q - 1) = int (unat (q_len q - 1))"
      using sint_small [of "q_len q - 1"] assms(3) calculation by (simp only: uint_nat)
    ultimately show ?thesis by simp
  qed (simp add: assms(1))
  then have n: "nat (sint (q_len q - 1) + 1) = n" by simp
  have "apart_bytes (q_name q) n (p - of_nat n) n"
    unfolding r by (rule apart_bytes_part [OF assms(2)]) (use assms(3) in simp_all)
  then obtain m1 where m1: "put_back n (q_name q) (m, p) = (m1, p - of_nat n)" "bytes m1 (p - of_nat n) n = qname m q"
    "\<And>a. n \<le> unat (a - (p - of_nat n)) \<Longrightarrow> m1 a = m a"
    using put_back_bytes [of "q_name q" n p m] assms(3) unfolding qname_def assms(1) [symmetric] by auto
  have "bytes (m1(r := 47)) (p - of_nat n) n = bytes m1 (p - of_nat n) n"
  proof (rule bytes_cong)
    fix i assume i: "i < n"
    have "p - of_nat n + of_nat i - r = of_nat (Suc i)" using r by simp
    then have "unat (p - of_nat n + of_nat i - r) = Suc i" using i assms(3) by (simp add: unat_of_nat del: of_nat_Suc)
    then show "(m1(r := 47)) (p - of_nat n + of_nat i) = m1 (p - of_nat n + of_nat i)" by auto
  qed
  then have "bytes (m1(r := 47)) r (Suc n) = 47 # qname m q" using m1(2) r by (simp add: bytes_Cons)
  moreover have "(m1(r := 47)) a = m a" if "Suc n \<le> unat (a - r)" for a
    using m1(3) [of a] outside_part [OF that, of 1 n] that assms(3) by (auto simp: r)
  ultimately show ?thesis using m1(1) n assms(4) by (simp add: put_name_back_def dec_and_put_def)
qed

text \<open>The entries from \<open>entry\<close> up to the one below the root, and the name they give.\<close>

fun dir_chain :: "'z fs_scheme \<Rightarrow> u32 \<Rightarrow> u32 \<Rightarrow> u32 list \<Rightarrow> bool" where
  "dir_chain s root entry [] \<longleftrightarrow> entry = root"
| "dir_chain s root entry (e # es) \<longleftrightarrow> entry = e \<and> e \<noteq> root \<and>
     (\<exists>d. dentries s e = Some d \<and> d_parent d \<noteq> 0 \<and> unat (q_len (d_name d)) < 2 ^ 31 \<and> dir_chain s root (d_parent d) es)"

definition name_of :: "'z fs_scheme \<Rightarrow> u32 \<Rightarrow> qstr" where
  "name_of s e = (case dentries s e of Some d \<Rightarrow> d_name d | None \<Rightarrow> \<lparr>q_len = 0, q_name = 0\<rparr>)"

fun path_name :: "'z fs_scheme \<Rightarrow> u32 list \<Rightarrow> u8 list" where
  "path_name s [] = []"
| "path_name s (e # es) = path_name s es @ 47 # qname (kmem s) (name_of s e)"

lemma path_frame [simp]: "dir_chain (s\<lparr>kmem := m\<rparr>) root entry es = dir_chain s root entry es" "name_of (s\<lparr>kmem := m\<rparr>) e = name_of s e"
  by (induction es arbitrary: entry) (simp_all add: name_of_def)

lemma path_name_cong:
  "(\<And>e. e \<in> set es \<Longrightarrow> qname m (name_of s e) = qname (kmem s) (name_of s e)) \<Longrightarrow> path_name (s\<lparr>kmem := m\<rparr>) es = path_name s es"
  by (induction es) simp_all

text \<open>
  C33.  For a directory whose parents lead to the root, the loop of \<open>cd\<close> ends and puts the names of
  the directories on the way from the root, each behind a slash, in front of \<open>path\<close>; it writes no
  other byte.  So a path of more than 499 characters is written in front of its buffer.
\<close>

theorem cd_names_directory:
  assumes "dir_chain s root entry es" and "length (path_name s es) \<le> 2 ^ 32"
    and "\<And>e. e \<in> set es \<Longrightarrow> apart_bytes (q_name (name_of s e)) (unat (q_len (name_of s e)))
      (path - of_nat (length (path_name s es))) (length (path_name s es))"
  shows "\<exists>m. path_loop root entry path s = Some (s\<lparr>kmem := m\<rparr>, path - of_nat (length (path_name s es))) \<and>
    bytes m (path - of_nat (length (path_name s es))) (length (path_name s es)) = path_name s es \<and>
    (\<forall>a. length (path_name s es) \<le> unat (a - (path - of_nat (length (path_name s es)))) \<longrightarrow> m a = kmem s a)"
  using assms
proof (induction es arbitrary: entry path s)
  case Nil
  have "path_loop root root path s = Some (s\<lparr>kmem := kmem s\<rparr>, path)" by (subst path_loop.simps) simp
  then show ?case using Nil(1) by (intro exI [of _ "kmem s"]) simp
next
  case (Cons e es)
  obtain d where d: "entry = e" "e \<noteq> root" "dentries s e = Some d" "d_parent d \<noteq> 0" "unat (q_len (d_name d)) < 2 ^ 31"
    "dir_chain s root (d_parent d) es" using Cons.prems(1) by auto
  have nm: "name_of s e = d_name d" using d(3) by (simp add: name_of_def)
  define l where "l = unat (q_len (d_name d))"
  define k where "k = length (path_name s es)"
  define q where "q = path - of_nat (k + Suc l)"
  define p where "p = path - of_nat l - 1"
  have L: "length (path_name s (e # es)) = k + Suc l" by (simp add: nm qname_def k_def l_def)
  have q: "p = q + of_nat k" "q = p - of_nat k" by (simp_all add: p_def q_def)
  have big: "k + Suc l \<le> 2 ^ 32" using Cons.prems(2) unfolding L .
  note ap = Cons.prems(3) [unfolded L, folded q_def]
  have "apart_bytes (q_name (d_name d)) l p (Suc l)"
    unfolding q(1) using apart_bytes_part [OF ap [of e] _ big, of k "Suc l"] by (simp add: nm l_def)
  then obtain m where m: "put_name_back (d_name d) (kmem s, path) = (m, p)" "bytes m p (Suc l) = 47 # qname (kmem s) (d_name d)"
    "\<And>a. Suc l \<le> unat (a - p) \<Longrightarrow> m a = kmem s a"
    using put_name_back_bytes [OF l_def _ d(5) [folded l_def] p_def] by blast
  let ?s = "s\<lparr>kmem := m\<rparr>"
  have same: "qname m (name_of s x) = qname (kmem s) (name_of s x)" if "x \<in> set es" for x
    unfolding qname_def
  proof (rule bytes_cong)
    fix i assume i: "i < unat (q_len (name_of s x))"
    have "k + Suc l \<le> unat (q_name (name_of s x) + of_nat i - q)" using apart_bytesD [OF ap i] that by simp
    from outside_part [OF this _ big, of k "Suc l"]
    show "m (q_name (name_of s x) + of_nat i) = kmem s (q_name (name_of s x) + of_nat i)" by (intro m(3)) (simp add: q(1))
  qed
  have pn: "path_name ?s es = path_name s es" by (rule path_name_cong) (rule same)
  have "\<exists>m'. path_loop root (d_parent d) p ?s = Some (?s\<lparr>kmem := m'\<rparr>, p - of_nat (length (path_name ?s es))) \<and>
    bytes m' (p - of_nat (length (path_name ?s es))) (length (path_name ?s es)) = path_name ?s es \<and>
    (\<forall>a. length (path_name ?s es) \<le> unat (a - (p - of_nat (length (path_name ?s es)))) \<longrightarrow> m' a = kmem ?s a)"
  proof (rule Cons.IH)
    fix x assume "x \<in> set es"
    then have "apart_bytes (q_name (name_of s x)) (unat (q_len (name_of s x))) q (k + Suc l)" by (intro ap) simp
    then have "apart_bytes (q_name (name_of s x)) (unat (q_len (name_of s x))) q k" by (rule apart_bytes_mono) simp_all
    then show "apart_bytes (q_name (name_of ?s x)) (unat (q_len (name_of ?s x))) (p - of_nat (length (path_name ?s es))) (length (path_name ?s es))"
      unfolding pn path_frame k_def [symmetric] q(2) [symmetric] .
  qed (use d(6) big pn in \<open>simp_all add: k_def\<close>)
  then obtain m' where m': "path_loop root (d_parent d) p ?s = Some (?s\<lparr>kmem := m'\<rparr>, q)" "bytes m' q k = path_name s es"
    "\<And>a. k \<le> unat (a - q) \<Longrightarrow> m' a = m a"
    unfolding pn k_def [symmetric] q(2) [symmetric] by auto
  have "bytes m' p (Suc l) = bytes m p (Suc l)"
  proof (rule bytes_cong)
    fix i assume i: "i < Suc l"
    have "p + of_nat i - q = of_nat (k + i)" by (simp add: q(1))
    then have "unat (p + of_nat i - q) = k + i" using i big by (simp add: unat_of_nat del: of_nat_add)
    then show "m' (p + of_nat i) = m (p + of_nat i)" by (intro m'(3)) simp
  qed
  then have b: "bytes m' q (k + Suc l) = path_name s (e # es)" using m'(2) m(2) by (simp only: bytes_add q(1) [symmetric] path_name.simps nm)
  have keep: "m' a = kmem s a" if "k + Suc l \<le> unat (a - q)" for a
  proof -
    have "Suc l \<le> unat (a - p)" using outside_part [OF that _ big, of k "Suc l"] by (simp add: q(1))
    then show ?thesis using m(3) m'(3) that by simp
  qed
  have "path_loop root entry path s = Some (s\<lparr>kmem := m'\<rparr>, q)"
    using d(1-4) m(1) m'(1) by (subst path_loop.simps) (simp add: get_dentry_parent_def)
  then show ?case unfolding L q_def [symmetric] using b keep by blast
qed

text \<open>The directory \<open>/C/AB\<close>, whose names lie at the beginning of the memory.\<close>

definition demo_dir :: "u32 \<Rightarrow> u32 \<Rightarrow> u32 \<Rightarrow> dentry" where
  "demo_dir up name len = \<lparr>d_count = 1, d_pinned = False, d_mounted = False, d_sb = 0x500, d_inode = 0x700, d_parent = up,
     d_op = FAT32, d_name = \<lparr>q_len = len, q_name = name\<rparr>\<rparr>"

definition demo_dirs :: fs where
  "demo_dirs = demo_open\<lparr>kmem := (\<lambda>a. ucast a + 65),
     dentries := (\<lambda>_. None)(0x810 \<mapsto> demo_dir 0x800 2 1, 0x820 \<mapsto> demo_dir 0x810 0 2)\<rparr>"

theorem cd_names_directory_witness:
  "\<exists>m. path_loop 0x800 0x820 0x1000 demo_dirs = Some (demo_dirs\<lparr>kmem := m\<rparr>, 0xFFB) \<and>
    bytes m 0xFFB 5 = [47, 67, 47, 65, 66]"
proof -
  have "dentries demo_dirs 0x810 = Some (demo_dir 0x800 2 1)" "dentries demo_dirs 0x820 = Some (demo_dir 0x810 0 2)"
    by (simp_all add: demo_dirs_def)
  then have c: "dir_chain demo_dirs 0x800 0x820 [0x820, 0x810]"
    and n: "name_of demo_dirs 0x820 = \<lparr>q_len = 2, q_name = 0\<rparr>" "name_of demo_dirs 0x810 = \<lparr>q_len = 1, q_name = 2\<rparr>"
    by (simp_all add: demo_dir_def name_of_def)
  have m: "kmem demo_dirs = (\<lambda>a. ucast a + 65)" by (simp add: demo_dirs_def)
  have p: "path_name demo_dirs [0x820, 0x810] = [47, 67, 47, 65, 66]"
    by (simp add: n m qname_def bytes_def upt_rec)
  have l: "length [47, 67, 47, 65, 66 :: u8] = 5" by simp
  have "apart_bytes (q_name (name_of demo_dirs e)) (unat (q_len (name_of demo_dirs e))) 0xFFB 5" if "e \<in> set [0x820, 0x810]" for e
    using that by (auto simp: n apart_bytes_def dest!: less_2_cases)
  then show ?thesis using cd_names_directory [OF c, of "0x1000", unfolded p l] by auto
qed

end
