(* ===== verification/Volumes.thy ===== *)
theory Volumes
  imports Fs_Cmd
begin

text \<open>
  Setting up the volumes, \<^verbatim>\<open>src/kernel/fs/fs.c\<close> and \<open>get_sb_fat32\<close> of \<^verbatim>\<open>src/kernel/fs/fat/fat.c\<close>: the
  partition table, the boot sector of a FAT32 volume and the root directory.  The list of super
  blocks has the head \<open>SbList\<close>, which the code allocates.
\<close>

definition MAX_PAR_COUNT :: nat where "MAX_PAR_COUNT = 1"
definition sizeof_DPT :: u32 where "sizeof_DPT = 16"
definition sizeof_fs_info_fat32 :: u32 where "sizeof_fs_info_fat32 = 16"

lemmas volume_consts [os_const] = MAX_PAR_COUNT_def sizeof_DPT_def sizeof_fs_info_fat32_def

section \<open>The boot sector of a FAT32 volume\<close>

definition dbr_sec_per_clu :: "mem \<Rightarrow> u32 \<Rightarrow> u8" where "dbr_sec_per_clu m p = m (p + 13)"
definition dbr_reserved_num :: "mem \<Rightarrow> u32 \<Rightarrow> u32" where "dbr_reserved_num m p = load16 m (p + 14)"
definition dbr_fat_num :: "mem \<Rightarrow> u32 \<Rightarrow> u32" where "dbr_fat_num m p = ucast (m (p + 16))"
definition dbr_fat_secsize :: "mem \<Rightarrow> u32 \<Rightarrow> u32" where "dbr_fat_secsize m p = load32 m (p + 36)"
definition dbr_root_clu :: "mem \<Rightarrow> u32 \<Rightarrow> u32" where "dbr_root_clu m p = load32 m (p + 44)"

definition READ_FSINFO_NEXT_CLU :: "mem \<Rightarrow> u32 \<Rightarrow> u32" where
  "READ_FSINFO_NEXT_CLU m buffer = load32 m (buffer + 492)"

text \<open>The loop \<^verbatim>\<open>while (temp >>= 1)\<close> that counts the bits of a block.\<close>

function block_bits_loop :: "u8 \<Rightarrow> u32 \<Rightarrow> u32" where
  "block_bits_loop temp bits =
     (let temp = drop_bit 1 temp in if temp = 0 then bits else block_bits_loop temp (bits + 1))"
  by pat_completeness auto
termination
proof (relation "measure (\<lambda>(t, _). unat t)", goal_cases)
  case (2 t b t')
  have u: "unat t' = unat t div 2" using 2(1) by (simp add: drop_bit_eq_div unat_div)
  have "unat t' \<noteq> 0" using 2(2) by (simp add: unat_eq_zero)
  then show ?case using u by simp
qed simp

declare block_bits_loop.simps [simp del]

definition fs_info_of :: "mem \<Rightarrow> u32 \<Rightarrow> u32 \<Rightarrow> u32 \<Rightarrow> fs_info_fat32" where
  "fs_info_of m buf base_sec next_clu =
     (let fat_sec = base_sec + dbr_reserved_num m buf
      in \<lparr>info_fsinfo_sec = base_sec + 1, info_fat_sec = fat_sec,
          info_clu_base = fat_sec + dbr_fat_num m buf * dbr_fat_secsize m buf,
          info_next_clu = (if next_clu = 0xFFFFFFFF then dbr_root_clu m buf else next_clu)\<rparr>)"

definition super_block_of :: "mem \<Rightarrow> u32 \<Rightarrow> u32 \<Rightarrow> u32 \<Rightarrow> super_block" where
  "super_block_of m buf base_sec fs_info =
     \<lparr>s_type = FAT32, s_blocksize = push_bit SECTOR_SHIFT (ucast (dbr_sec_per_clu m buf)),
      s_blockbits = block_bits_loop (dbr_sec_per_clu m buf) (of_nat SECTOR_SHIFT), s_basesec = base_sec, s_root = 0,
      s_op = FAT32, s_mnt = \<lparr>mnt_parent = 0, mnt_mntpoint = 0, mnt_sb = 0\<rparr>, s_info_fat32 = fs_info\<rparr>"

text \<open>
  The size of the root directory: 32 bytes for each entry in front of the first unused one of each
  page, deleted entries included.
\<close>

primrec used_entries :: "nat \<Rightarrow> mem \<Rightarrow> u32 \<Rightarrow> u32" where
  "used_entries 0 m sfn_item = 0"
| "used_entries (Suc n) m sfn_item =
     (if sfn_mark m sfn_item = SFN_MARK_UNUSED then 0 else 32 + used_entries n m (sfn_item + sizeof_sfn_entry))"

partial_function (option) root_size_loop ::
    "u32 \<Rightarrow> u32 \<Rightarrow> fnode \<Rightarrow> 'z fs_scheme \<Rightarrow> ('z fs_scheme \<times> u32) option" where
  "root_size_loop node blksize p s =
     (if p = IData node then Some (s, NO_ERROR)
      else do {
        (s, cur_page) \<leftarrow> get_fspage p blksize s;
        if IS_ERR_VALUE cur_page then Some (s, cur_page)
        else do {
          pg \<leftarrow> fspages s cur_page;
          s \<leftarrow> upd_inode node (\<lambda>i. i\<lparr>i_size := i_size i + used_entries (entries_per_block blksize) (kmem s) (p_data pg)\<rparr>) s;
          root_size_loop node blksize (next (flinks s) p) s
        }
      })"

definition root_fat32 :: "u32 \<Rightarrow> u32 \<Rightarrow> 'z fs_scheme \<Rightarrow> ('z fs_scheme \<times> u32) option" where
  "root_fat32 sb root_clu s =
     do {
       (s, root_inode) \<leftarrow> alloc_inode_fat32 sb root_clu 0 True s;
       if IS_ERR_VALUE root_inode then Some (s, root_inode)
       else do {
         s \<leftarrow> upd_inode root_inode (\<lambda>i. i\<lparr>i_pinned := True\<rparr>) s;
         b \<leftarrow> super_blocks s sb;
         (s, error) \<leftarrow> root_size_loop root_inode (s_blocksize b) (next (flinks s) (IData root_inode)) s;
         if IS_ERR_VALUE error then Some (s, error)
         else do {
           (s, root_dentry) \<leftarrow> alloc_dentry_fat32 sb root_inode 0 \<lparr>q_len = 1, q_name = addr_of s ''/''\<rparr> s;
           if IS_ERR_VALUE root_dentry then Some (s, root_dentry)
           else do {
             s \<leftarrow> upd_dentry root_dentry (\<lambda>d. d\<lparr>d_pinned := True\<rparr>) s;
             b \<leftarrow> super_blocks s sb;
             Some (s\<lparr>super_blocks := (super_blocks s)(sb := Some (b\<lparr>s_root := root_dentry,
                     s_mnt := \<lparr>mnt_parent = 0, mnt_mntpoint = 0, mnt_sb = sb\<rparr>\<rparr>))\<rparr>, sb)
           }
         }
       }
     }"

text \<open>
  The information is allocated without a test: a null pointer is written to once the first sector has
  been read.
\<close>

definition get_sb_fat32 :: "u32 \<Rightarrow> 'z fs_scheme \<Rightarrow> ('z fs_scheme \<times> u32) option" where
  "get_sb_fat32 base_sec s =
     (let (s, buf) = kmalloc SECTOR_SIZE s
      in do {
        (s, ret) \<leftarrow>
          (if buf = 0 then Some (s, - ERROR_NO_MEMORY)
           else do {
             let (s, fs_info) = kmalloc sizeof_fs_info_fat32 s;
             (s, ok) \<leftarrow> sd_read_block buf (base_sec + 1) 1 s;
             if \<not> ok then Some (s, - ERROR_READ_SDCARD)
             else if fs_info = 0 then None
             else do {
               let next_clu = READ_FSINFO_NEXT_CLU (kmem s) buf;
               (s, ok) \<leftarrow> sd_read_block buf base_sec 1 s;
               if \<not> ok then Some (s, - ERROR_READ_SDCARD)
               else do {
                 let m = kmem s;
                 let s = s\<lparr>fat32_infos := (fat32_infos s)(fs_info := Some (fs_info_of m buf base_sec next_clu))\<rparr>;
                 let (s, sb) = kmalloc sizeof_super_block s;
                 if sb = 0 then Some (s, - ERROR_NO_MEMORY)
                 else root_fat32 sb (dbr_root_clu m buf)
                        (upd_flinks (INIT_LIST_HEAD (SbNode sb))
                           (s\<lparr>super_blocks := (super_blocks s)(sb := Some (super_block_of m buf base_sec fs_info))\<rparr>))
               }
             }
           });
        s \<leftarrow> kfree buf s;
        Some (s, ret)
      })"

section \<open>The partition table\<close>

definition SYSTEM_ID_FAT32 :: "u8 \<Rightarrow> bool" where
  "SYSTEM_ID_FAT32 x \<longleftrightarrow> x = 0x0B \<or> x = 0x0C \<or> x = 0x1B \<or> x = 0x1C"

definition SYSTEM_ID_EXT2 :: "u8 \<Rightarrow> bool" where
  "SYSTEM_ID_EXT2 x \<longleftrightarrow> x = 0x83"

definition get_fs_type :: "u8 \<Rightarrow> fs_ops option" where
  "get_fs_type systemID =
     (if SYSTEM_ID_FAT32 systemID then Some FAT32 else if SYSTEM_ID_EXT2 systemID then Some EXT2 else None)"

definition read_data_fs :: "u32 \<Rightarrow> u32 \<Rightarrow> 'z fs_scheme \<Rightarrow> ('z fs_scheme \<times> u32) option" where
  "read_data_fs addr sz s =
     do {
       _ \<leftarrow> kernel_assert (0 < sz \<and> sz \<le> 4);
       let ret = addr_of s ''ret'';
       let s = upd_mem (\<lambda>m. kernel_memcpy (store32 ret 0 m) ret addr sz) s;
       Some (s, load32 (kmem s) ret)
     }"

primrec partition_loop :: "nat \<Rightarrow> u32 \<Rightarrow> 'z fs_scheme \<Rightarrow> ('z fs_scheme \<times> u32) option" where
  "partition_loop 0 curDPT s = Some (s, NO_ERROR)"
| "partition_loop (Suc n) curDPT s =
     do {
       (s, base_addr) \<leftarrow> read_data_fs (curDPT + 8) 4 s;
       if base_addr = 0 then partition_loop n (curDPT + sizeof_DPT) s
       else case get_fs_type (kmem s (curDPT + 4)) of
              None \<Rightarrow> Some (s, - ERROR_UNKNOWN_FS)
            | Some t \<Rightarrow> do {
                (s, sb) \<leftarrow> (case t of FAT32 \<Rightarrow> get_sb_fat32 base_addr s | EXT2 \<Rightarrow> get_sb_ext2 base_addr s);
                if IS_ERR_VALUE sb then Some (s, sb)
                else partition_loop n (curDPT + sizeof_DPT) (upd_flinks (list_add_tail (SbNode sb) SbList) s)
              }
     }"

text \<open>The head of the list is tested for an error pointer, which \<open>kmalloc\<close> never returns.\<close>

definition read_MBR :: "'z fs_scheme \<Rightarrow> ('z fs_scheme \<times> u32) option" where
  "read_MBR s =
     (let (s, buf_MBR) = kmalloc SECTOR_SIZE s
      in do {
        (s, error) \<leftarrow>
          (if buf_MBR = 0 then Some (s, - ERROR_NO_MEMORY)
           else do {
             (s, ok) \<leftarrow> sd_read_block buf_MBR 0 1 s;
             if \<not> ok then Some (s, - ERROR_READ_SDCARD)
             else do {
               let (s, sb_list) = kmalloc sizeof_list_head s;
               if IS_ERR_VALUE sb_list then Some (s, sb_list)
               else if sb_list = 0 then None
               else partition_loop MAX_PAR_COUNT (buf_MBR + 446) (upd_flinks (INIT_LIST_HEAD SbList) s)
             }
           });
        s \<leftarrow> kfree buf_MBR s;
        Some (s, error)
      })"

section \<open>The root directory\<close>

definition mount_at :: "u32 \<Rightarrow> u32 \<Rightarrow> u32 \<Rightarrow> 'z fs_scheme \<Rightarrow> 'z fs_scheme option" where
  "mount_at sb cur_sb entry s =
     do {
       s \<leftarrow> upd_dentry entry (\<lambda>d. d\<lparr>d_mounted := True\<rparr>) s;
       b \<leftarrow> super_blocks s cur_sb;
       Some (s\<lparr>super_blocks := (super_blocks s)(cur_sb := Some (b\<lparr>s_mnt := (s_mnt b)\<lparr>mnt_parent := sb, mnt_mntpoint := entry\<rparr>\<rparr>))\<rparr>)
     }"

text \<open>The other volumes are mounted at \<open>/mnt/fs1\<close> and so on; the result tells whether all were.\<close>

partial_function (option) mount_volumes :: "u32 \<Rightarrow> u32 \<Rightarrow> fnode \<Rightarrow> 'z fs_scheme \<Rightarrow> ('z fs_scheme \<times> bool) option" where
  "mount_volumes name sb p s =
     (if p = SbList then Some (s, True)
      else do {
        cur_sb \<leftarrow> sb_at p;
        if cur_sb = sb then mount_volumes name sb (next (flinks s) p) s
        else do {
          (s, fp) \<leftarrow> fs_open name (F_MODE_READ_WRITE OR F_MODE_DIR_MASK) (upd_mem (\<lambda>m. m(name + 7 := m (name + 7) + 1)) s);
          if IS_ERR_VALUE fp then Some (s, False)
          else do {
            f \<leftarrow> files s fp;
            s \<leftarrow> mount_at sb cur_sb (f_dentry f) s;
            (s, _) \<leftarrow> fs_close fp s;
            mount_volumes name sb (next (flinks s) p) s
          }
        }
      })"

definition init_fs :: "'z cmd_state_scheme \<Rightarrow> 'z cmd_state_scheme option" where
  "init_fs s =
     do {
       (s, error) \<leftarrow> init_fscache s;
       if IS_ERR_VALUE error then Some s
       else do {
         (s, error) \<leftarrow> read_MBR s;
         if IS_ERR_VALUE error then Some s
         else do {
           sb \<leftarrow> sb_at (next (flinks s) SbList);
           b \<leftarrow> super_blocks s sb;
           s \<leftarrow> d_inc_count (s_root b) (s\<lparr>root_dentry := s_root b\<rparr>);
           s \<leftarrow> mkdir (addr_of s HOME_PATH) (s\<lparr>pwd_dentry := root_dentry s\<rparr>);
           let name = addr_of s ''name'';
           (s, mounted) \<leftarrow> mount_volumes name sb (next (flinks s) SbList)
             (upd_mem (\<lambda>m. kernel_memcpy m name (addr_of s ''/mnt/fs0'') 9) s);
           if mounted then cd (addr_of s '''') s else Some s
         }
       }
     }"

text \<open>
  The number of sectors in a cluster is a power of two on a valid volume; then the size of a block is
  the power of two that the number of its bits gives, so the shifts by \<open>s_blockbits\<close> divide by it.
\<close>

lemma block_bits_loop_power:
  "k < 8 \<Longrightarrow> block_bits_loop (push_bit k 1) b = b + of_nat k"
proof (induction k arbitrary: b)
  case 0
  then show ?case by (subst block_bits_loop.simps) simp
next
  case (Suc k)
  have "bit (push_bit k 1 :: u8) k" using Suc.prems by (simp add: bit_simps del: push_bit_of_1)
  then have nz: "(push_bit k 1 :: u8) \<noteq> 0" by (auto simp del: push_bit_of_1)
  have "drop_bit 1 (push_bit (Suc k) 1 :: u8) = push_bit k 1"
    using Suc.prems by (intro bit_word_eqI) (auto simp: bit_simps simp del: push_bit_of_1)
  then have "block_bits_loop (push_bit (Suc k) 1) b = block_bits_loop (push_bit k 1) (b + 1)"
    using nz by (subst block_bits_loop.simps) (simp del: push_bit_of_1)
  then show ?case using Suc by (simp del: push_bit_of_1)
qed

theorem blocksize_is_power:
  assumes "dbr_sec_per_clu m buf = push_bit k 1" and "k < 8"
  shows "s_blocksize (super_block_of m buf base_sec fs_info) =
    push_bit (unat (s_blockbits (super_block_of m buf base_sec fs_info))) 1"
proof -
  have "unat (9 + of_nat k :: u32) = 9 + k" using assms(2) by (simp add: unat_word_ariths unat_of_nat)
  moreover have "(ucast (push_bit k 1 :: u8) :: u32) = push_bit k 1"
    using assms(2) by (intro bit_word_eqI) (auto simp: bit_simps simp del: push_bit_of_1)
  ultimately show ?thesis
    using assms by (simp add: super_block_of_def block_bits_loop_power SECTOR_SHIFT_def push_bit_push_bit del: push_bit_of_1)
qed

end
