(* ===== verification/Boot.thy ===== *)
theory Boot
  imports Kmalloc
begin

text \<open>
  Bringing up the memory, the part of \<^verbatim>\<open>src/kernel/init.c\<close> that composes the three allocators: the boot
  allocator takes the kernel image and the page structures, the buddy allocator the pages behind them,
  and the slab allocator starts with no object.
\<close>

definition init_memory :: "'z slab_scheme \<Rightarrow> (bootmm_sys \<times> 'z slab_scheme) option" where
  "init_memory s =
     Option.bind init_bootmm (\<lambda>boot. Option.bind (init_buddy boot s) (\<lambda>(boot, s). Some (boot, init_slab s)))"

text \<open>The state behind \<open>init_bootmm\<close> and the records behind the allocation of the page structures.\<close>

definition boot_start :: bootmm_sys where
  "boot_start = \<lparr>phymm_size = 0x20000000, page_num = 0x20000,
     page_map = (\<lambda>x. if unat x < 4096 then PAGE_USED else PAGE_FREE), last_alloc_end = 0, info_cnt = 1,
     info = (\<lambda>_. zero_info)(0 := \<lparr>start_addr = 0, info_length = 0x1000000, info_type = 0\<rparr>)\<rparr>"

lemma boot_start_wf: "bootmm_wf boot_start"
  by (simp add: bootmm_wf_def boot_start_def os_const)

lemma boot_first_fit:
  "find_pages boot_start 768 1 0x1FFFF 1 = Some 4096"
proof -
  obtain r where r: "find_pages boot_start 768 1 0x1FFFF 1 = Some r"
    "first_fit (page_map boot_start) 0x1FFFF 767 1 1 r"
    using find_pages_first_fit [OF boot_start_wf, of 1 0 1 768 "0x1FFFF"] by (auto simp: boot_start_def)
  have "free_run (page_map boot_start) 0x1FFFF 4096 767"
    by (auto simp: free_run_def boot_start_def os_const)
  then have n: "r \<noteq> 0" "unat r \<le> 4096" and f: "free_run (page_map boot_start) 0x1FFFF (unat r) 767"
    using r(2) by (auto simp: first_fit_def)
  have "page_map boot_start r \<noteq> PAGE_USED" using f by (auto simp: free_run_def)
  then have "4096 \<le> unat r" by (auto simp: boot_start_def not_less split: if_splits)
  with n(2) have "r = 4096" by (simp add: word_unat_eq_iff)
  then show ?thesis using r(1) by simp
qed

lemma boot_page_structures:
  "\<exists>boot. bootmm_alloc_page boot_start (page_num boot_start * sizeof_page) MMINFO_TYPE_KERNEL (push_bit PAGE_SHIFT 1) =
      Some (boot, 0x1000000) \<and> page_num boot = 0x20000 \<and>
    info boot 0 = \<lparr>start_addr = 0, info_length = 0x1300000, info_type = 0\<rparr> \<and>
    page_map boot = (\<lambda>x. if unat x < 4864 then PAGE_USED else PAGE_FREE)"
proof -
  have c: "drop_bit PAGE_SHIFT (upper_align (page_num boot_start * sizeof_page) (push_bit PAGE_SHIFT 1)) = 768"
    "drop_bit PAGE_SHIFT (push_bit PAGE_SHIFT 1 :: u32) = 1"
    unfolding boot_start_def sizeof_page_def os_const by code_simp+
  have i: "insert_bootmm_info boot_start 0x1000000 (page_num boot_start * sizeof_page) MMINFO_TYPE_KERNEL =
      Some (boot_start\<lparr>info := (info boot_start)(0 := \<lparr>start_addr = 0, info_length = 0x1300000, info_type = 0\<rparr>)\<rparr>, 2)"
    by (simp add: insert_bootmm_info_def insert_loop.simps boot_start_def os_const sizeof_page_def zero_info_def Let_def)
  have m: "kernel_memset (page_map boot_start) 4096 PAGE_USED 768 = (\<lambda>x. if unat x < 4864 then PAGE_USED else PAGE_FREE)"
    by (auto simp: kernel_memset_eq boot_start_def fun_eq_iff)
  have f: "find_pages boot_start 768 (last_alloc_end boot_start + 1) (page_num boot_start - 1) 1 = Some 4096"
    using boot_first_fit by (simp add: boot_start_def)
  have p: "push_bit PAGE_SHIFT (4096 :: u32) = 0x1000000" unfolding os_const by code_simp
  show ?thesis
    unfolding bootmm_alloc_page_def Let_def c f by (simp add: p i m) (simp add: boot_start_def)
qed

text \<open>
  C6.  On this machine, whatever the memory held before, bringing up the memory succeeds: the boot
  allocator has recorded the 16 megabytes of the kernel and the 768 pages of page structures as one
  region and their 4864 page frames as used, the zone of the buddy allocator is exactly the page frames behind
  them, and the kernel heap is well formed and empty.
\<close>

theorem boot_memory:
  "\<exists>boot t. init_memory s = Some (boot, t) \<and> info boot 0 = \<lparr>start_addr = 0, info_length = 0x1300000, info_type = 0\<rparr> \<and>
    page_map boot = (\<lambda>x. if unat x < 4864 then PAGE_USED else PAGE_FREE) \<and>
    zone t = {4864..<131072} \<and> heap t {} \<and> map (kmem_caches t) [0..<KMEM_CACHE_NUM] = map std_cache [0..<KMEM_CACHE_NUM]"
proof -
  obtain boot where b: "bootmm_alloc_page boot_start (page_num boot_start * sizeof_page) MMINFO_TYPE_KERNEL (push_bit PAGE_SHIFT 1) =
      Some (boot, 0x1000000)" "page_num boot = 0x20000" "info boot 0 = \<lparr>start_addr = 0, info_length = 0x1300000, info_type = 0\<rparr>"
      "page_map boot = (\<lambda>x. if unat x < 4864 then PAGE_USED else PAGE_FREE)"
    using boot_page_structures by blast
  obtain mm where mm: "init_buddy boot_start s = Some (boot, mm)" "start_pfn mm = 4864" "zone_page_num mm = 126208"
    "buddy_rep mm area_heads (\<lambda>_. []) {}"
    using init_buddy_correct [OF b(1) refl _ refl _ refl, of s] by (auto simp: b(2,3) round_up_def)
  have z: "zone mm = {4864..<131072}" using mm(2,3) by (simp add: zone_def)
  then have zs: "zone mm \<subseteq> {0<..<2 ^ 17}" by auto
  have "init_memory s = Some (boot, init_slab mm)"
    by (simp add: init_memory_def init_bootmm_eq [folded boot_start_def] mm(1))
  then show ?thesis
    using b(3,4) z init_slab_kheap(2) [OF mm(4) zs] init_slab_heap [OF mm(4) zs] init_slab_caches by auto
qed

end
