(* ===== verification/File_Contents.thy ===== *)
theory File_Contents
  imports File_Write
begin

text \<open>
  Writing to an open file whose blocks are in the page cache, \<open>fs_write\<close> of
  \<^verbatim>\<open>src/kernel/fs/read_write.c\<close>: the contents as a sequence of bytes are overlaid at the position.
\<close>

section \<open>Overlaying a part of a block\<close>

definition overlay :: "nat \<Rightarrow> 'a list \<Rightarrow> 'a list \<Rightarrow> 'a list" where
  "overlay k xs ys = take k ys @ xs @ drop (k + length xs) ys"

lemma overlay_append:
  assumes "k + length xs = length ys"
  shows "overlay k (xs @ xs') (ys @ ys') = overlay k xs ys @ overlay 0 xs' ys'"
  using assms [symmetric] by (simp add: overlay_def)

lemma overlay_front: "k + length xs \<le> length ys \<Longrightarrow> overlay k xs (ys @ zs) = overlay k xs ys @ zs"
  by (simp add: overlay_def)

lemma write_block:
  fixes B off d buf a :: u32
  assumes "unat off + unat d \<le> unat B" and "apart_bytes buf (unat d) a (unat B)"
  shows "bytes (kernel_memcpy m (a + off) buf d) a (unat B) = overlay (unat off) (bytes m buf (unat d)) (bytes m a (unat B))"
    and "unat B \<le> unat (x - a) \<Longrightarrow> kernel_memcpy m (a + off) buf d x = m x"
proof -
  let ?m = "kernel_memcpy m (a + off) buf d"
  obtain r where B: "unat B = unat off + (unat d + r)" using assms(1) by (metis add.assoc le_iff_add)
  have big: "unat B \<le> 2 ^ 32" using unat_u32 [of B] by simp
  have "apart_bytes buf (unat d) (a + of_nat (unat off)) (unat d)"
    by (rule apart_bytes_part [OF assms(2)]) (use assms(1) big in simp_all)
  then have ap: "apart_bytes buf (unat d) (a + off) (unat d)" by simp
  note copy = bytes_memcpy [OF ap, where m = m]
  have "apart_bytes (a + off) (unat d) a (unat off)"
    using apart_bytes_next [of "unat off" "unat d" a] assms(1) big by simp
  then have "apart_bytes a (unat off) (a + off) (unat d)" by (rule apart_bytes_sym) (use assms(1) big in simp)
  then have 1: "bytes ?m a (unat off) = bytes m a (unat off)"
    by (intro bytes_cong copy(2)) (rule apart_bytesD)
  have "apart_bytes (a + off + of_nat (unat d)) r (a + off) (unat d)"
    by (rule apart_bytes_next) (use B big in simp)
  then have 2: "bytes ?m (a + off + of_nat (unat d)) r = bytes m (a + off + of_nat (unat d)) r"
    by (intro bytes_cong copy(2)) (rule apart_bytesD)
  have l: "bytes q a (unat B) = bytes q a (unat off) @ bytes q (a + off) (unat d) @ bytes q (a + off + of_nat (unat d)) r" for q
    unfolding B by (simp add: bytes_add)
  show "bytes ?m a (unat B) = overlay (unat off) (bytes m buf (unat d)) (bytes m a (unat B))"
    unfolding l overlay_def 1 2 copy(1) by simp
  show "unat B \<le> unat (x - a) \<Longrightarrow> ?m x = m x"
    using outside_part [of "unat B" x a "unat off" "unat d"] assms(1) big copy(2) [of x] by simp
qed

section \<open>The loop over the blocks\<close>

text \<open>Pages that differ in their dirty flags only.\<close>

definition same_but_dirt :: "(u32 \<Rightarrow> fspage option) \<Rightarrow> (u32 \<Rightarrow> fspage option) \<Rightarrow> bool" where
  "same_but_dirt f g \<longleftrightarrow> (\<forall>q. map_option (\<lambda>p. p\<lparr>p_dirt := True\<rparr>) (f q) = map_option (\<lambda>p. p\<lparr>p_dirt := True\<rparr>) (g q))"

lemma same_but_dirt_refl [simp]: "same_but_dirt f f"
  by (simp add: same_but_dirt_def)

lemma same_but_dirt_trans: "same_but_dirt f g \<Longrightarrow> same_but_dirt g h \<Longrightarrow> same_but_dirt f h"
  by (simp add: same_but_dirt_def)

lemma same_but_dirt_upd: "g q = Some p \<Longrightarrow> same_but_dirt (g(q \<mapsto> p\<lparr>p_dirt := True\<rparr>)) g"
  by (simp add: same_but_dirt_def)

lemma cached_same_but_dirt:
  assumes "same_but_dirt ps (fspages s)"
  shows "cached (s\<lparr>fspages := ps\<rparr>) B x = cached s B x"
proof -
  have "(\<exists>p. ps q = Some p \<and> p_pagesize p = B \<and> p_data p = a) \<longleftrightarrow>
      (\<exists>p. fspages s q = Some p \<and> p_pagesize p = B \<and> p_data p = a)" for q a
  proof -
    have e: "map_option (\<lambda>p. p\<lparr>p_dirt := True\<rparr>) (ps q) = map_option (\<lambda>p. p\<lparr>p_dirt := True\<rparr>) (fspages s q)"
      using assms by (simp add: same_but_dirt_def)
    have f: "p_pagesize (p\<lparr>p_dirt := True\<rparr>) = p_pagesize p" "p_data (p\<lparr>p_dirt := True\<rparr>) = p_data p" for p :: fspage
      by simp_all
    show ?thesis
    proof (cases "ps q"; cases "fspages s q")
      fix p p' assume "ps q = Some p" "fspages s q = Some p'"
      then have "p\<lparr>p_dirt := True\<rparr> = p'\<lparr>p_dirt := True\<rparr>" using e by simp
      then have "p_pagesize p = p_pagesize p'" "p_data p = p_data p'" by (metis f(1), metis f(2))
      then show ?thesis using \<open>ps q = Some p\<close> \<open>fspages s q = Some p'\<close> by simp
    qed (use e in simp_all)
  qed
  then show ?thesis by (simp add: cached_def)
qed

text \<open>One round of the loop, with \<open>d\<close> bytes going to the block \<open>b\<close>.\<close>

lemma write_round:
  assumes "cached s B b" and "unat off + unat d \<le> unat B" and "unat off + unat d < 2 ^ 32"
    and "\<And>x. x \<in> set (b # bs) \<Longrightarrow> apart_bytes buf (unat d) (snd x) (unat B)"
    and "sorted_wrt (\<lambda>x y. apart_bytes (snd x) (unat B) (snd y) (unat B)) (b # bs)"
  obtains pg p where "get_fspage (MapNode (fst b)) B s = Some (s, pg)" "fspages s pg = Some p" "p_pagesize p = B" "p_data p = snd b"
    "same_but_dirt ((fspages s)(pg \<mapsto> p\<lparr>p_dirt := True\<rparr>)) (fspages s)"
    "bytes (kernel_memcpy (kmem s) (snd b + off) buf d) (snd b) (unat B) =
      overlay (unat off) (bytes (kmem s) buf (unat d)) (bytes (kmem s) (snd b) (unat B))"
    "contents (kernel_memcpy (kmem s) (snd b + off) buf d) B bs = contents (kmem s) B bs"
    "\<forall>a. unat B \<le> unat (a - snd b) \<longrightarrow> kernel_memcpy (kmem s) (snd b + off) buf d a = kmem s a"
proof -
  obtain pg p where pg: "get_fspage (MapNode (fst b)) B s = Some (s, pg)" "fspages s pg = Some p" "p_pagesize p = B" "p_data p = snd b"
    using cached_page [of s B "fst b" "snd b" B] assms(1) by auto
  have ap: "apart_bytes buf (unat d) (snd b) (unat B)" using assms(4) [of b] by simp
  note w = write_block [OF assms(2) ap, where m = "kmem s"]
  have "apart_bytes (snd x) (unat B) (snd b) (unat B)" if "x \<in> set bs" for x
    using assms(5) that unat_u32 [of B] by (auto intro!: apart_bytes_sym [of "snd b"])
  then have "contents (kernel_memcpy (kmem s) (snd b + off) buf d) B bs = contents (kmem s) B bs"
    using w(2) by (rule contents_cong)
  then show thesis using pg same_but_dirt_upd [of "fspages s", OF pg(2)] w by (intro that) auto
qed

lemma fs_write_loop_contents:
  assumes "files s fp = Some f" and "file_blocksize f s = Some B"
    and "\<And>x. x \<in> set (b # bs) \<Longrightarrow> cached s B x \<and> apart_bytes buf (unat len) (snd x) (unat B)"
    and "sorted_wrt (\<lambda>x y. apart_bytes (snd x) (unat B) (snd y) (unat B)) (b # bs)"
    and "seg (flinks s) (MapNode (fst b)) (map (\<lambda>x. MapNode (fst x)) bs) h"
    and "unat off \<le> unat B" and "unat off + unat len \<le> length (b # bs) * unat B" and "unat off + unat len < 2 ^ 32"
  shows "\<exists>m ps i j. fs_write_loop fp buf (MapNode (fst b)) off len s =
      Some (s\<lparr>kmem := m, fspages := ps,
        files := (files s)(fp \<mapsto> f\<lparr>f_dirt := True, f_cur_off := i, f_cur_map := MapNode (fst ((b # bs) ! j))\<rparr>)\<rparr>) \<and>
    same_but_dirt ps (fspages s) \<and> j \<le> length bs \<and> unat i \<le> unat B \<and> j * unat B + unat i = unat off + unat len \<and>
    contents m B (b # bs) = overlay (unat off) (bytes (kmem s) buf (unat len)) (contents (kmem s) B (b # bs)) \<and>
    (\<forall>a. (\<forall>x\<in>set (b # bs). unat B \<le> unat (a - snd x)) \<longrightarrow> m a = kmem s a)"
  using assms
proof (induction bs arbitrary: b buf off len s f)
  case (Nil b)
  have l: "unat off + unat len \<le> unat B" using Nil.prems(7) by simp
  have cmp: "off + len \<le> B" using l Nil.prems(8) by (simp add: word_le_nat_alt unat_add_u32)
  have c: "cached s B b" "\<And>x. x \<in> set [b] \<Longrightarrow> apart_bytes buf (unat len) (snd x) (unat B)" using Nil.prems(3) by simp_all
  obtain pg p where w: "get_fspage (MapNode (fst b)) B s = Some (s, pg)" "fspages s pg = Some p" "p_pagesize p = B" "p_data p = snd b"
    "same_but_dirt ((fspages s)(pg \<mapsto> p\<lparr>p_dirt := True\<rparr>)) (fspages s)"
    "bytes (kernel_memcpy (kmem s) (snd b + off) buf len) (snd b) (unat B) =
      overlay (unat off) (bytes (kmem s) buf (unat len)) (bytes (kmem s) (snd b) (unat B))"
    "contents (kernel_memcpy (kmem s) (snd b + off) buf len) B [] = contents (kmem s) B []"
    "\<forall>a. unat B \<le> unat (a - snd b) \<longrightarrow> kernel_memcpy (kmem s) (snd b + off) buf len a = kmem s a"
    by (rule write_round [OF c(1) l Nil.prems(8) c(2) Nil.prems(4)])
  show ?case using w cmp Nil.prems(1,2,6,8) l
    by (intro exI [of _ "kernel_memcpy (kmem s) (snd b + off) buf len"] exI [of _ "(fspages s)(pg \<mapsto> p\<lparr>p_dirt := True\<rparr>)"]
        exI [of _ "off + len"] exI [of _ 0])
      (subst fs_write_loop.simps, auto simp: upd_mem_def upd_file_def upd_fspage_def unat_add_u32)
next
  case (Cons b' bs b)
  have c: "cached s B b" "\<And>x. x \<in> set (b # b' # bs) \<Longrightarrow> apart_bytes buf (unat len) (snd x) (unat B)" using Cons.prems(3) by simp_all
  show ?case
  proof (cases "unat off + unat len \<le> unat B")
    case l: True
    have cmp: "off + len \<le> B" using l Cons.prems(8) by (simp add: word_le_nat_alt unat_add_u32)
    obtain pg p where w: "get_fspage (MapNode (fst b)) B s = Some (s, pg)" "fspages s pg = Some p" "p_pagesize p = B" "p_data p = snd b"
      "same_but_dirt ((fspages s)(pg \<mapsto> p\<lparr>p_dirt := True\<rparr>)) (fspages s)"
      "bytes (kernel_memcpy (kmem s) (snd b + off) buf len) (snd b) (unat B) =
        overlay (unat off) (bytes (kmem s) buf (unat len)) (bytes (kmem s) (snd b) (unat B))"
      "contents (kernel_memcpy (kmem s) (snd b + off) buf len) B (b' # bs) = contents (kmem s) B (b' # bs)"
      "\<forall>a. unat B \<le> unat (a - snd b) \<longrightarrow> kernel_memcpy (kmem s) (snd b + off) buf len a = kmem s a"
      by (rule write_round [OF c(1) l Cons.prems(8) c(2) Cons.prems(4)])
    have ct: "contents (kernel_memcpy (kmem s) (snd b + off) buf len) B (b # b' # bs) =
        overlay (unat off) (bytes (kmem s) buf (unat len)) (contents (kmem s) B (b # b' # bs))"
      unfolding contents_simps(2) [of _ _ b] w(6,7) by (rule overlay_front [symmetric]) (use l in simp)
    show ?thesis using w(1-5,8) ct cmp Cons.prems(1,2,6,8) l
      by (intro exI [of _ "kernel_memcpy (kmem s) (snd b + off) buf len"] exI [of _ "(fspages s)(pg \<mapsto> p\<lparr>p_dirt := True\<rparr>)"]
          exI [of _ "off + len"] exI [of _ 0])
        (subst fs_write_loop.simps, auto simp: upd_mem_def upd_file_def upd_fspage_def unat_add_u32 simp del: contents_simps)
  next
    case l: False
    have cmp: "\<not> off + len \<le> B" using l Cons.prems(8) by (simp add: word_le_nat_alt unat_add_u32)
    define d where "d = B - off"
    have d: "unat d = unat B - unat off" "unat d \<le> unat len" "unat (len - d) = unat len - unat d" "unat off + unat d = unat B"
      using Cons.prems(6) l by (auto simp: d_def unat_sub word_le_nat_alt)
    have cd: "apart_bytes buf (unat d) (snd x) (unat B)" if "x \<in> set (b # b' # bs)" for x
      using apart_bytes_mono [OF c(2) [OF that] d(2) order_refl] .
    have lo: "unat off + unat d \<le> unat B" "unat off + unat d < 2 ^ 32" using d(4) unat_u32 [of B] by simp_all
    define m where "m = kernel_memcpy (kmem s) (snd b + off) buf d"
    obtain pg p where w: "get_fspage (MapNode (fst b)) B s = Some (s, pg)" "fspages s pg = Some p" "p_pagesize p = B" "p_data p = snd b"
      "same_but_dirt ((fspages s)(pg \<mapsto> p\<lparr>p_dirt := True\<rparr>)) (fspages s)"
      "bytes m (snd b) (unat B) = overlay (unat off) (bytes (kmem s) buf (unat d)) (bytes (kmem s) (snd b) (unat B))"
      "contents m B (b' # bs) = contents (kmem s) B (b' # bs)"
      "\<forall>a. unat B \<le> unat (a - snd b) \<longrightarrow> m a = kmem s a"
      unfolding m_def by (rule write_round [OF c(1) lo cd Cons.prems(4)])
    let ?f = "f\<lparr>f_dirt := True\<rparr>" and ?ps = "(fspages s)(pg \<mapsto> p\<lparr>p_dirt := True\<rparr>)"
    let ?s = "s\<lparr>kmem := m, fspages := ?ps, files := (files s)(fp \<mapsto> ?f)\<rparr>"
    have ca: "cached ?s B x" if "x \<in> set (b' # bs)" for x
      using Cons.prems(3) [of x] that cached_same_but_dirt [OF w(5)] by (auto simp: cached_def)
    have ap: "apart_bytes (buf + d) (unat (len - d)) (snd x) (unat B)" if "x \<in> set (b # b' # bs)" for x
      using apart_bytes_shift [of buf "unat d" "unat len - unat d"] c(2) [OF that] d(2,3) by simp
    have bf: "bytes m (buf + d) (unat (len - d)) = bytes (kmem s) (buf + d) (unat (len - d))"
      by (rule bytes_cong) (use w(8) apart_bytesD [OF ap [of b]] in simp)
    have "\<exists>m' ps i j. fs_write_loop fp (buf + d) (MapNode (fst b')) 0 (len - d) ?s =
        Some (?s\<lparr>kmem := m', fspages := ps,
          files := (files ?s)(fp \<mapsto> ?f\<lparr>f_dirt := True, f_cur_off := i, f_cur_map := MapNode (fst ((b' # bs) ! j))\<rparr>)\<rparr>) \<and>
      same_but_dirt ps (fspages ?s) \<and> j \<le> length bs \<and> unat i \<le> unat B \<and> j * unat B + unat i = unat (0 :: u32) + unat (len - d) \<and>
      contents m' B (b' # bs) = overlay (unat (0 :: u32)) (bytes (kmem ?s) (buf + d) (unat (len - d))) (contents (kmem ?s) B (b' # bs)) \<and>
      (\<forall>a. (\<forall>x\<in>set (b' # bs). unat B \<le> unat (a - snd x)) \<longrightarrow> m' a = kmem ?s a)"
    proof (rule Cons.IH)
      show "file_blocksize ?f ?s = Some B" using Cons.prems(2) by (simp add: file_blocksize_def)
      show "unat (0 :: u32) + unat (len - d) \<le> length (b' # bs) * unat B" using Cons.prems(7) d by simp
      show "unat (0 :: u32) + unat (len - d) < 2 ^ 32" using unat_u32 [of "len - d"] by simp
    qed (use Cons.prems(4,5) ca ap in auto)
    then obtain m' ps i j where r: "fs_write_loop fp (buf + d) (MapNode (fst b')) 0 (len - d) ?s =
        Some (s\<lparr>kmem := m', fspages := ps,
          files := (files s)(fp \<mapsto> f\<lparr>f_dirt := True, f_cur_off := i, f_cur_map := MapNode (fst ((b' # bs) ! j))\<rparr>)\<rparr>)"
      and j: "same_but_dirt ps ?ps" "j \<le> length bs" "unat i \<le> unat B" "j * unat B + unat i = unat len - unat d"
      and ct: "contents m' B (b' # bs) = overlay 0 (bytes (kmem s) (buf + d) (unat (len - d))) (contents (kmem s) B (b' # bs))"
      and k: "\<And>a. (\<forall>x\<in>set (b' # bs). unat B \<le> unat (a - snd x)) \<Longrightarrow> m' a = m a"
      using d(3) bf w(7) by (auto simp del: contents_simps)
    have "bytes m' (snd b) (unat B) = bytes m (snd b) (unat B)"
      by (rule bytes_cong, rule k) (use Cons.prems(4) in \<open>auto dest: apart_bytesD\<close>)
    moreover have "bytes (kmem s) buf (unat len) = bytes (kmem s) buf (unat d) @ bytes (kmem s) (buf + d) (unat (len - d))"
      using bytes_add [of "kmem s" buf "unat d" "unat (len - d)"] d(2,3) by simp
    ultimately have "contents m' B (b # b' # bs) = overlay (unat off) (bytes (kmem s) buf (unat len)) (contents (kmem s) B (b # b' # bs))"
      unfolding contents_simps(2) [of _ _ b] ct w(6) by (simp add: overlay_append d(4) del: contents_simps)
    moreover have "fs_write_loop fp buf (MapNode (fst b)) off len s =
        Some (s\<lparr>kmem := m', fspages := ps,
          files := (files s)(fp \<mapsto> f\<lparr>f_dirt := True, f_cur_off := i, f_cur_map := MapNode (fst ((b # b' # bs) ! Suc j))\<rparr>)\<rparr>)"
      using w(1-4) cmp Cons.prems(1,2,5) r
      by (subst fs_write_loop.simps) (auto simp: upd_mem_def upd_file_def upd_fspage_def m_def d_def)
    moreover have "same_but_dirt ps (fspages s)" using j(1) w(5) by (rule same_but_dirt_trans)
    moreover have "Suc j * unat B + unat i = unat off + unat len" using j(4) d by simp
    moreover have "Suc j \<le> length (b' # bs)" using j(2) by simp
    moreover have "m' a = kmem s a" if "\<forall>x\<in>set (b # b' # bs). unat B \<le> unat (a - snd x)" for a
      using k [of a] w(8) that by simp
    ultimately show ?thesis using j(3) by blast
  qed
qed

section \<open>Properties\<close>

lemma contents_append: "contents m B (xs @ ys) = contents m B xs @ contents m B ys"
  by (simp add: contents_def)

lemma overlay_skip: "overlay (length as + k) xs (as @ bs) = as @ overlay k xs bs"
  by (simp add: overlay_def)

text \<open>
  C12.  Writing inside an open file whose blocks are cached lays the bytes of the buffer over the
  contents at the position, over as many blocks as they take, moves the position behind them, keeps
  the size, marks the file as changed, and writes no byte outside the blocks of the file.  With the
  theorem on \<open>fs_read\<close> this says that what was written is read back.
\<close>

theorem fs_write_contents:
  assumes "file_at s fp B bs pos" and "files s fp = Some f" and "f_mode f AND F_MODE_WRITE_MASK \<noteq> 0"
    and "pos + unat len \<le> unat (f_size f)" and "\<And>x. x \<in> set bs \<Longrightarrow> apart_bytes buf (unat len) (snd x) (unat B)"
    and "sorted_wrt (\<lambda>x y. apart_bytes (snd x) (unat B) (snd y) (unat B)) bs"
  shows "\<exists>t g. fs_write fp buf len s = Some (t, NO_ERROR) \<and> file_at t fp B bs (pos + unat len) \<and>
    contents (kmem t) B bs = overlay pos (bytes (kmem s) buf (unat len)) (contents (kmem s) B bs) \<and>
    files t fp = Some g \<and> f_dirt g \<and> f_size g = f_size f \<and> f_mode g = f_mode f \<and>
    (\<forall>a. (\<forall>x\<in>set bs. unat B \<le> unat (a - snd x)) \<longrightarrow> kmem t a = kmem s a)"
proof -
  obtain i where F: "file_blocksize f s = Some B" "\<And>x. x \<in> set bs \<Longrightarrow> cached s B x"
    "seg (flinks s) (f_data_map f) (map (\<lambda>x. MapNode (fst x)) bs) (f_data_map f)" "i < length bs"
    "f_cur_map f = MapNode (fst (bs ! i))" "unat (f_cur_off f) \<le> unat B" "pos = i * unat B + unat (f_cur_off f)"
    "unat (f_pos f) = pos" "unat (f_size f) \<le> length bs * unat B"
    using assms(1,2) by (auto simp: file_at_def)
  let ?f = "f\<lparr>f_pos := f_pos f + len\<rparr>" and ?r = "drop (Suc i) bs" and ?l = "take i bs"
  let ?s = "s\<lparr>files := (files s)(fp \<mapsto> ?f)\<rparr>"
  have bs: "bs = ?l @ bs ! i # ?r" using F(4) by (rule id_take_nth_drop)
  have sg: "seg (flinks s) (MapNode (fst (bs ! i))) (map (\<lambda>x. MapNode (fst x)) ?r) (f_data_map f)"
    using F(3) by (subst (asm) bs) simp
  have sw: "sorted_wrt (\<lambda>x y. apart_bytes (snd x) (unat B) (snd y) (unat B)) (?l @ bs ! i # ?r)" using assms(6) bs by simp
  have p: "unat (f_pos f + len) = pos + unat len"
    using F(8) assms(4) unat_u32 [of "f_size f"] by (simp add: unat_add_u32)
  have n: "length (bs ! i # ?r) = length bs - i" using F(4) by simp
  have sub: "x \<in> set bs" if "x \<in> set (bs ! i # ?r)" for x using that bs by (metis UnI2 set_append)
  have "\<exists>m ps o' j. fs_write_loop fp buf (MapNode (fst (bs ! i))) (f_cur_off f) len ?s =
      Some (?s\<lparr>kmem := m, fspages := ps,
        files := (files ?s)(fp \<mapsto> ?f\<lparr>f_dirt := True, f_cur_off := o', f_cur_map := MapNode (fst ((bs ! i # ?r) ! j))\<rparr>)\<rparr>) \<and>
    same_but_dirt ps (fspages ?s) \<and> j \<le> length ?r \<and> unat o' \<le> unat B \<and> j * unat B + unat o' = unat (f_cur_off f) + unat len \<and>
    contents m B (bs ! i # ?r) = overlay (unat (f_cur_off f)) (bytes (kmem ?s) buf (unat len)) (contents (kmem ?s) B (bs ! i # ?r)) \<and>
    (\<forall>a. (\<forall>x\<in>set (bs ! i # ?r). unat B \<le> unat (a - snd x)) \<longrightarrow> m a = kmem ?s a)"
  proof (rule fs_write_loop_contents)
    show "cached ?s B x \<and> apart_bytes buf (unat len) (snd x) (unat B)" if "x \<in> set (bs ! i # ?r)" for x
      using F(2) assms(5) sub [OF that] by simp
    show "sorted_wrt (\<lambda>x y. apart_bytes (snd x) (unat B) (snd y) (unat B)) (bs ! i # ?r)"
      using sw unfolding sorted_wrt_append by blast
    show "unat (f_cur_off f) + unat len \<le> length (bs ! i # ?r) * unat B"
      using F(4,7,9) assms(4) unfolding n by (simp add: diff_mult_distrib)
    show "unat (f_cur_off f) + unat len < 2 ^ 32" using F(7) assms(4) unat_u32 [of "f_size f"] by simp
  qed (use F(1,6) sg in simp_all)
  then obtain m ps o' j where r: "fs_write_loop fp buf (MapNode (fst (bs ! i))) (f_cur_off f) len ?s =
      Some (?s\<lparr>kmem := m, fspages := ps,
        files := (files ?s)(fp \<mapsto> ?f\<lparr>f_dirt := True, f_cur_off := o', f_cur_map := MapNode (fst ((bs ! i # ?r) ! j))\<rparr>)\<rparr>)"
    and j: "same_but_dirt ps (fspages s)" "j \<le> length ?r" "unat o' \<le> unat B" "j * unat B + unat o' = unat (f_cur_off f) + unat len"
    and c: "contents m B (bs ! i # ?r) = overlay (unat (f_cur_off f)) (bytes (kmem s) buf (unat len)) (contents (kmem s) B (bs ! i # ?r))"
    and k: "\<And>a. (\<forall>x\<in>set (bs ! i # ?r). unat B \<le> unat (a - snd x)) \<Longrightarrow> m a = kmem s a"
    by (auto simp del: contents_simps)
  let ?g = "?f\<lparr>f_dirt := True, f_cur_off := o', f_cur_map := MapNode (fst ((bs ! i # ?r) ! j))\<rparr>"
  let ?t = "s\<lparr>kmem := m, fspages := ps, files := (files s)(fp \<mapsto> ?g)\<rparr>"
  have at: "(bs ! i # ?r) ! j = bs ! (i + j)" "i + j < length bs" using F(4) j(2) by (simp_all add: Cons_nth_drop_Suc)
  have "fs_write fp buf len s = Some (?t, NO_ERROR)"
    using assms(2-4) r p F(5) by (simp add: fs_write_def upd_file_def word_less_nat_alt IS_ERR_VALUE_def error_consts)
  moreover have "file_at ?t fp B bs (pos + unat len)"
    unfolding file_at_def
  proof (rule exI [of _ ?g], rule exI [of _ "i + j"], intro conjI ballI)
    fix x assume "x \<in> set bs"
    then show "cached ?t B x" using F(2) cached_same_but_dirt [OF j(1)] by (simp add: cached_def)
  qed (use F at j p in \<open>simp_all add: file_blocksize_def add_mult_distrib\<close>)
  moreover have "contents m B bs = overlay pos (bytes (kmem s) buf (unat len)) (contents (kmem s) B bs)"
  proof -
    have ap: "apart_bytes (snd x) (unat B) (snd y) (unat B)" if "x \<in> set ?l" "y \<in> set (bs ! i # ?r)" for x y
      using sw that unfolding sorted_wrt_append by blast
    have "bytes m (snd x) (unat B) = bytes (kmem s) (snd x) (unat B)" if "x \<in> set ?l" for x
      by (rule bytes_cong, rule k) (use apart_bytesD [OF ap [OF that]] in blast)
    then have l: "contents m B ?l = contents (kmem s) B ?l"
      unfolding contents_def by (intro arg_cong [of _ _ concat] map_cong) simp_all
    have "length (contents (kmem s) B ?l) + unat (f_cur_off f) = pos" using F(4,7) by simp
    then show ?thesis
      using overlay_skip [of "contents (kmem s) B ?l" "unat (f_cur_off f)"] c l contents_append [of _ B ?l "bs ! i # ?r"] bs by simp
  qed
  moreover have "m a = kmem s a" if "\<forall>x\<in>set bs. unat B \<le> unat (a - snd x)" for a
    by (rule k) (use that sub in blast)
  ultimately show ?thesis by (intro exI [of _ ?t] exI [of _ ?g]) simp
qed

lemma file_at_mode:
  assumes "files s fp = Some f" and "file_at s fp B bs pos"
  shows "file_at (s\<lparr>files := (files s)(fp \<mapsto> f\<lparr>f_mode := md\<rparr>)\<rparr>) fp B bs pos"
  using assms unfolding file_at_def
  by (elim exE, rule_tac exI [of _ "f\<lparr>f_mode := md\<rparr>"], rule_tac x = i in exI) (auto simp: file_blocksize_def)

text \<open>The file of two blocks of four bytes, opened for reading and writing, at its third byte.\<close>

definition demo_write :: fs where
  "demo_write = demo_open\<lparr>files := (files demo_open)(0x900 \<mapsto> demo_file\<lparr>f_mode := F_MODE_READ_WRITE\<rparr>)\<rparr>"

lemma demo_write_at:
  "files demo_write 0x900 = Some (demo_file\<lparr>f_mode := F_MODE_READ_WRITE\<rparr>)"
  "file_at demo_write 0x900 4 [(0x40, 0x1000), (0x50, 0x2000)] 2"
proof -
  show "files demo_write 0x900 = Some (demo_file\<lparr>f_mode := F_MODE_READ_WRITE\<rparr>)" by (simp add: demo_write_def)
  show "file_at demo_write 0x900 4 [(0x40, 0x1000), (0x50, 0x2000)] 2"
    unfolding demo_write_def using demo_open_at by (rule file_at_mode)
qed

theorem fs_write_contents_witness:
  "\<exists>t. fs_write 0x900 0x3007 4 demo_write = Some (t, NO_ERROR) \<and> kmem demo_write 0x3008 = 8 \<and>
    contents (kmem t) 4 [(0x40, 0x1000), (0x50, 0x2000)] = [0, 1, 7, 8, 9, 10, 2, 3]"
proof -
  have ap: "apart_bytes 0x3007 (unat (4 :: u32)) (snd x) (unat (4 :: u32))" if "x \<in> set [(0x40, 0x1000), (0x50, 0x2000)]" for x :: "u32 \<times> u32"
    using that by (auto simp: apart_bytes_def dest!: byte_cases)
  have sw: "sorted_wrt (\<lambda>x y. apart_bytes (snd x) (unat (4 :: u32)) (snd y) (unat (4 :: u32))) [(0x40, 0x1000), (0x50, 0x2000) :: u32 \<times> u32]"
    by (auto simp: apart_bytes_def dest!: byte_cases)
  have m: "kmem demo_write = (\<lambda>a. ucast a)" by (simp add: demo_write_def demo_open_def)
  have c: "bytes (kmem demo_write) 0x1000 4 = [0, 1, 2, 3]" "bytes (kmem demo_write) 0x2000 4 = [0, 1, 2, 3]"
    "bytes (kmem demo_write) 0x3007 4 = [7, 8, 9, 10]"
    by (simp_all add: m bytes_def upt_rec)
  show ?thesis
    using fs_write_contents [OF demo_write_at(2,1) _ _ ap sw] c
    by (auto simp: demo_file_def file_consts F_MODE_READ_WRITE_def overlay_def m)
qed

end
