(* ===== verification/Rbtree.thy ===== *)
theory Rbtree
  imports Prelude "HOL-Library.Monad_Syntax"
begin

text \<open>
  The red-black trees of \<^verbatim>\<open>src/include/linux/rbtree.h\<close>, \<^verbatim>\<open>rbtree_augmented.h\<close> and
  \<^verbatim>\<open>src/kernel/linux/rbtree.c\<close>, on a store of nodes.  A node that is not in the store cannot be read or
  written: an operation that follows such a pointer, the null pointer among them, has no result.

  The balancing routines consist of two halves that differ by the exchange of left and right.  Here
  they are one definition with the side as an argument, used once for each half; the callbacks of
  an augmented tree are functions on the state.
\<close>

section \<open>Nodes\<close>

record rb_node =
  rb_parent_color :: u32
  rb_right :: u32
  rb_left :: u32

text \<open>The nodes by their addresses, and the word \<open>rb_node\<close> of every root by the address of the root.\<close>

record rb_sys =
  rb_nodes :: "u32 \<Rightarrow> rb_node option"
  rb_roots :: "u32 \<Rightarrow> u32"

datatype side = L | R

primrec opp :: "side \<Rightarrow> side" where
  "opp L = R"
| "opp R = L"

definition rb_child :: "side \<Rightarrow> rb_node \<Rightarrow> u32" where
  "rb_child d n = (case d of L \<Rightarrow> rb_left n | R \<Rightarrow> rb_right n)"

definition set_child :: "side \<Rightarrow> u32 \<Rightarrow> rb_node \<Rightarrow> rb_node" where
  "set_child d p n = (case d of L \<Rightarrow> n\<lparr>rb_left := p\<rparr> | R \<Rightarrow> n\<lparr>rb_right := p\<rparr>)"

definition RB_RED :: u32 where "RB_RED = 0"
definition RB_BLACK :: u32 where "RB_BLACK = 1"

definition pc_parent :: "u32 \<Rightarrow> u32" where
  "pc_parent pc = pc AND NOT 3"

definition pc_color :: "u32 \<Rightarrow> u32" where
  "pc_color pc = pc AND 1"

definition pc_is_black :: "u32 \<Rightarrow> bool" where
  "pc_is_black pc \<longleftrightarrow> pc_color pc \<noteq> 0"

definition pc_is_red :: "u32 \<Rightarrow> bool" where
  "pc_is_red pc \<longleftrightarrow> pc_color pc = 0"

definition rb_color :: "rb_node \<Rightarrow> u32" where
  "rb_color n = pc_color (rb_parent_color n)"

definition rb_is_red :: "rb_node \<Rightarrow> bool" where
  "rb_is_red n = pc_is_red (rb_parent_color n)"

definition rb_is_black :: "rb_node \<Rightarrow> bool" where
  "rb_is_black n = pc_is_black (rb_parent_color n)"

definition rb_parent :: "rb_node \<Rightarrow> u32" where
  "rb_parent n = rb_parent_color n AND NOT 3"

definition rb_red_parent :: "rb_node \<Rightarrow> u32" where
  "rb_red_parent red = rb_parent_color red"

definition upd_rb :: "u32 \<Rightarrow> (rb_node \<Rightarrow> rb_node) \<Rightarrow> 'z rb_sys_scheme \<Rightarrow> 'z rb_sys_scheme option" where
  "upd_rb p f s = (case rb_nodes s p of None \<Rightarrow> None | Some n \<Rightarrow> Some (s\<lparr>rb_nodes := (rb_nodes s)(p \<mapsto> f n)\<rparr>))"

definition RB_EMPTY_ROOT :: "u32 \<Rightarrow> 'z rb_sys_scheme \<Rightarrow> bool" where
  "RB_EMPTY_ROOT root s \<longleftrightarrow> rb_roots s root = 0"

definition RB_EMPTY_NODE :: "u32 \<Rightarrow> rb_node \<Rightarrow> bool" where
  "RB_EMPTY_NODE node n \<longleftrightarrow> rb_parent_color n = node"

definition RB_CLEAR_NODE :: "u32 \<Rightarrow> 'z rb_sys_scheme \<Rightarrow> 'z rb_sys_scheme option" where
  "RB_CLEAR_NODE node s = upd_rb node (\<lambda>n. n\<lparr>rb_parent_color := node\<rparr>) s"

text \<open>The place a pointer to a pointer denotes: the word of a root, or a child of a node.\<close>

datatype rb_slot = Root u32 | Child side u32

definition write_slot :: "rb_slot \<Rightarrow> u32 \<Rightarrow> 'z rb_sys_scheme \<Rightarrow> 'z rb_sys_scheme option" where
  "write_slot slot p s =
     (case slot of Root root \<Rightarrow> Some (s\<lparr>rb_roots := (rb_roots s)(root := p)\<rparr>)
      | Child d n \<Rightarrow> upd_rb n (set_child d p) s)"

definition rb_link_node :: "u32 \<Rightarrow> u32 \<Rightarrow> rb_slot \<Rightarrow> 'z rb_sys_scheme \<Rightarrow> 'z rb_sys_scheme option" where
  "rb_link_node node parent rb_link s = do {
     s \<leftarrow> upd_rb node (\<lambda>n. n\<lparr>rb_parent_color := parent, rb_left := 0, rb_right := 0\<rparr>) s;
     write_slot rb_link node s
   }"

section \<open>Parents, colours and children\<close>

definition rb_set_parent :: "u32 \<Rightarrow> u32 \<Rightarrow> 'z rb_sys_scheme \<Rightarrow> 'z rb_sys_scheme option" where
  "rb_set_parent rb p = upd_rb rb (\<lambda>n. n\<lparr>rb_parent_color := rb_color n OR p\<rparr>)"

definition rb_set_parent_color :: "u32 \<Rightarrow> u32 \<Rightarrow> u32 \<Rightarrow> 'z rb_sys_scheme \<Rightarrow> 'z rb_sys_scheme option" where
  "rb_set_parent_color rb p color = upd_rb rb (\<lambda>n. n\<lparr>rb_parent_color := p OR color\<rparr>)"

definition rb_set_black :: "u32 \<Rightarrow> 'z rb_sys_scheme \<Rightarrow> 'z rb_sys_scheme option" where
  "rb_set_black rb = upd_rb rb (\<lambda>n. n\<lparr>rb_parent_color := rb_parent_color n OR RB_BLACK\<rparr>)"

definition rb_change_child :: "u32 \<Rightarrow> u32 \<Rightarrow> u32 \<Rightarrow> u32 \<Rightarrow> 'z rb_sys_scheme \<Rightarrow> 'z rb_sys_scheme option" where
  "rb_change_child old new parent root s =
     (if parent \<noteq> 0
      then upd_rb parent (\<lambda>n. if rb_left n = old then n\<lparr>rb_left := new\<rparr> else n\<lparr>rb_right := new\<rparr>) s
      else Some (s\<lparr>rb_roots := (rb_roots s)(root := new)\<rparr>))"

definition rb_rotate_set_parents ::
    "u32 \<Rightarrow> u32 \<Rightarrow> u32 \<Rightarrow> u32 \<Rightarrow> 'z rb_sys_scheme \<Rightarrow> 'z rb_sys_scheme option" where
  "rb_rotate_set_parents old new root color s = do {
     o' \<leftarrow> rb_nodes s old;
     let parent = rb_parent o';
     s \<leftarrow> upd_rb new (\<lambda>n. n\<lparr>rb_parent_color := rb_parent_color o'\<rparr>) s;
     s \<leftarrow> rb_set_parent_color old new color s;
     rb_change_child old new parent root s
   }"

text \<open>The tests of a child that may be null.\<close>

definition red_child :: "u32 \<Rightarrow> 'z rb_sys_scheme \<Rightarrow> bool option" where
  "red_child p s = (if p = 0 then Some False else map_option rb_is_red (rb_nodes s p))"

definition black_child :: "u32 \<Rightarrow> 'z rb_sys_scheme \<Rightarrow> bool option" where
  "black_child p s = (if p = 0 then Some True else map_option rb_is_black (rb_nodes s p))"

definition set_child_parent_color :: "u32 \<Rightarrow> u32 \<Rightarrow> u32 \<Rightarrow> 'z rb_sys_scheme \<Rightarrow> 'z rb_sys_scheme option" where
  "set_child_parent_color tmp p color s = (if tmp \<noteq> 0 then rb_set_parent_color tmp p color s else Some s)"

section \<open>Insertion\<close>

type_synonym 'z rb_rotation = "u32 \<Rightarrow> u32 \<Rightarrow> 'z rb_sys_scheme \<Rightarrow> 'z rb_sys_scheme option"

text \<open>Cases 2 and 3, where \<open>parent\<close> is the child of \<open>gparent\<close> on side \<open>d\<close>.\<close>

definition insert_rotate :: "'z rb_rotation \<Rightarrow> u32 \<Rightarrow> side \<Rightarrow> u32 \<Rightarrow> u32 \<Rightarrow> u32 \<Rightarrow> 'z rb_sys_scheme \<Rightarrow> 'z rb_sys_scheme option" where
  "insert_rotate augment_rotate root d node parent gparent s = do {
     p \<leftarrow> rb_nodes s parent;
     let tmp = rb_child (opp d) p;
     (parent, tmp, s) \<leftarrow>
       (if node = tmp
        then do {
          n \<leftarrow> rb_nodes s node;
          let tmp = rb_child d n;
          s \<leftarrow> upd_rb parent (set_child (opp d) tmp) s;
          s \<leftarrow> upd_rb node (set_child d parent) s;
          s \<leftarrow> set_child_parent_color tmp parent RB_BLACK s;
          s \<leftarrow> rb_set_parent_color parent node RB_RED s;
          s \<leftarrow> augment_rotate parent node s;
          n \<leftarrow> rb_nodes s node;
          Some (node, rb_child (opp d) n, s)
        }
        else Some (parent, tmp, s));
     s \<leftarrow> upd_rb gparent (set_child d tmp) s;
     s \<leftarrow> upd_rb parent (set_child (opp d) gparent) s;
     s \<leftarrow> set_child_parent_color tmp gparent RB_BLACK s;
     s \<leftarrow> rb_rotate_set_parents gparent parent root RB_RED s;
     augment_rotate gparent parent s
   }"

partial_function (option) insert_loop :: "'z rb_rotation \<Rightarrow> u32 \<Rightarrow> u32 \<Rightarrow> u32 \<Rightarrow> 'z rb_sys_scheme \<Rightarrow> 'z rb_sys_scheme option" where
  "insert_loop augment_rotate root node parent s =
     (if parent = 0 then rb_set_parent_color node 0 RB_BLACK s
      else do {
        p \<leftarrow> rb_nodes s parent;
        if rb_is_black p then Some s
        else do {
          let gparent = rb_red_parent p;
          g \<leftarrow> rb_nodes s gparent;
          let d = (if parent \<noteq> rb_right g then L else R);
          let tmp = rb_child (opp d) g;
          red \<leftarrow> red_child tmp s;
          if red
          then do {
            s \<leftarrow> rb_set_parent_color tmp gparent RB_BLACK s;
            s \<leftarrow> rb_set_parent_color parent gparent RB_BLACK s;
            g \<leftarrow> rb_nodes s gparent;
            let node = gparent;
            let parent = rb_parent g;
            s \<leftarrow> rb_set_parent_color node parent RB_RED s;
            insert_loop augment_rotate root node parent s
          }
          else insert_rotate augment_rotate root d node parent gparent s
        }
      })"

definition rb_insert :: "u32 \<Rightarrow> u32 \<Rightarrow> 'z rb_rotation \<Rightarrow> 'z rb_sys_scheme \<Rightarrow> 'z rb_sys_scheme option" where
  "rb_insert node root augment_rotate s = do {
     n \<leftarrow> rb_nodes s node;
     insert_loop augment_rotate root node (rb_red_parent n) s
   }"

section \<open>Rebalancing after a removal\<close>

text \<open>Case 4; the sibling of the shorter side \<open>d\<close> has the child \<open>tmp1\<close> on the other side.\<close>

definition erase_rotate :: "'z rb_rotation \<Rightarrow> u32 \<Rightarrow> side \<Rightarrow> u32 \<Rightarrow> u32 \<Rightarrow> u32 \<Rightarrow> 'z rb_sys_scheme \<Rightarrow> 'z rb_sys_scheme option" where
  "erase_rotate augment_rotate root d tmp1 sibling parent s = do {
     sb \<leftarrow> rb_nodes s sibling;
     let tmp2 = rb_child d sb;
     s \<leftarrow> upd_rb parent (set_child (opp d) tmp2) s;
     s \<leftarrow> upd_rb sibling (set_child d parent) s;
     s \<leftarrow> rb_set_parent_color tmp1 sibling RB_BLACK s;
     s \<leftarrow> (if tmp2 \<noteq> 0 then rb_set_parent tmp2 parent s else Some s);
     s \<leftarrow> rb_rotate_set_parents parent sibling root RB_BLACK s;
     augment_rotate parent sibling s
   }"

text \<open>Case 1; the result is the new sibling.\<close>

definition erase_red_sibling :: "'z rb_rotation \<Rightarrow> u32 \<Rightarrow> side \<Rightarrow> u32 \<Rightarrow> u32 \<Rightarrow> 'z rb_sys_scheme \<Rightarrow> (u32 \<times> 'z rb_sys_scheme) option" where
  "erase_red_sibling augment_rotate root d sibling parent s = do {
     sb \<leftarrow> rb_nodes s sibling;
     if rb_is_red sb
     then do {
       let tmp1 = rb_child d sb;
       s \<leftarrow> upd_rb parent (set_child (opp d) tmp1) s;
       s \<leftarrow> upd_rb sibling (set_child d parent) s;
       s \<leftarrow> rb_set_parent_color tmp1 parent RB_BLACK s;
       s \<leftarrow> rb_rotate_set_parents parent sibling root RB_RED s;
       s \<leftarrow> augment_rotate parent sibling s;
       Some (tmp1, s)
     }
     else Some (sibling, s)
   }"

text \<open>Case 3, then case 4 with the new sibling.\<close>

definition erase_double_rotate :: "'z rb_rotation \<Rightarrow> u32 \<Rightarrow> side \<Rightarrow> u32 \<Rightarrow> u32 \<Rightarrow> u32 \<Rightarrow> 'z rb_sys_scheme \<Rightarrow> 'z rb_sys_scheme option" where
  "erase_double_rotate augment_rotate root d tmp2 sibling parent s = do {
     t2 \<leftarrow> rb_nodes s tmp2;
     let tmp1 = rb_child (opp d) t2;
     s \<leftarrow> upd_rb sibling (set_child d tmp1) s;
     s \<leftarrow> upd_rb tmp2 (set_child (opp d) sibling) s;
     s \<leftarrow> upd_rb parent (set_child (opp d) tmp2) s;
     s \<leftarrow> set_child_parent_color tmp1 sibling RB_BLACK s;
     s \<leftarrow> augment_rotate sibling tmp2 s;
     erase_rotate augment_rotate root d sibling tmp2 parent s
   }"

partial_function (option) erase_color_loop ::
    "'z rb_rotation \<Rightarrow> u32 \<Rightarrow> u32 \<Rightarrow> u32 \<Rightarrow> 'z rb_sys_scheme \<Rightarrow> 'z rb_sys_scheme option" where
  "erase_color_loop augment_rotate root node parent s = do {
     p \<leftarrow> rb_nodes s parent;
     let d = (if node \<noteq> rb_right p then L else R);
     (sibling, s) \<leftarrow> erase_red_sibling augment_rotate root d (rb_child (opp d) p) parent s;
     sb \<leftarrow> rb_nodes s sibling;
     let tmp1 = rb_child (opp d) sb;
     black1 \<leftarrow> black_child tmp1 s;
     if black1
     then do {
       let tmp2 = rb_child d sb;
       black2 \<leftarrow> black_child tmp2 s;
       if black2
       then do {
         s \<leftarrow> rb_set_parent_color sibling parent RB_RED s;
         p \<leftarrow> rb_nodes s parent;
         if rb_is_red p then rb_set_black parent s
         else do {
           let node = parent;
           let parent = rb_parent p;
           if parent \<noteq> 0 then erase_color_loop augment_rotate root node parent s else Some s
         }
       }
       else erase_double_rotate augment_rotate root d tmp2 sibling parent s
     }
     else erase_rotate augment_rotate root d tmp1 sibling parent s
   }"

definition rb_erase_color :: "u32 \<Rightarrow> u32 \<Rightarrow> 'z rb_rotation \<Rightarrow> 'z rb_sys_scheme \<Rightarrow> 'z rb_sys_scheme option" where
  "rb_erase_color parent root augment_rotate s = erase_color_loop augment_rotate root 0 parent s"

section \<open>Removal\<close>

record 'z rb_augment_callbacks =
  cb_propagate :: "u32 \<Rightarrow> u32 \<Rightarrow> 'z \<Rightarrow> 'z option"
  cb_copy :: "u32 \<Rightarrow> u32 \<Rightarrow> 'z \<Rightarrow> 'z option"
  cb_rotate :: "u32 \<Rightarrow> u32 \<Rightarrow> 'z \<Rightarrow> 'z option"

text \<open>Walking down to the successor; \<open>tmp\<close> is not null on entry.\<close>

partial_function (option) successor_loop :: "u32 \<Rightarrow> u32 \<Rightarrow> 'z rb_sys_scheme \<Rightarrow> (u32 \<times> u32) option" where
  "successor_loop successor tmp s = do {
     let parent = successor;
     let successor = tmp;
     t \<leftarrow> rb_nodes s tmp;
     let tmp = rb_left t;
     if tmp \<noteq> 0 then successor_loop successor tmp s else Some (parent, successor)
   }"

text \<open>
  Cases 2 and 3, where the node has both children: the successor is taken out of its place, and its
  parent there, which in case 2 is the successor itself, and its child remembered.
\<close>

definition unlink_successor :: "u32 \<Rightarrow> u32 \<Rightarrow> 'z rb_sys_scheme rb_augment_callbacks \<Rightarrow> 'z rb_sys_scheme \<Rightarrow>
    (u32 \<times> u32 \<times> u32 \<times> 'z rb_sys_scheme) option" where
  "unlink_successor node child augment s = do {
     c \<leftarrow> rb_nodes s child;
     let tmp = rb_left c;
     if tmp = 0
     then do {
       let child2 = rb_right c;
       s \<leftarrow> cb_copy augment node child s;
       Some (child, child, child2, s)
     }
     else do {
       (parent, successor) \<leftarrow> successor_loop child tmp s;
       sc \<leftarrow> rb_nodes s successor;
       let child2 = rb_right sc;
       s \<leftarrow> upd_rb parent (\<lambda>n. n\<lparr>rb_left := child2\<rparr>) s;
       s \<leftarrow> upd_rb successor (\<lambda>n. n\<lparr>rb_right := child\<rparr>) s;
       s \<leftarrow> rb_set_parent child successor s;
       s \<leftarrow> cb_copy augment node successor s;
       s \<leftarrow> cb_propagate augment parent successor s;
       Some (successor, parent, child2, s)
     }
   }"

text \<open>The successor takes the place of the node; the result is the node to rebalance at.\<close>

definition replace_by_successor :: "u32 \<Rightarrow> u32 \<Rightarrow> u32 \<Rightarrow> u32 \<Rightarrow> u32 \<Rightarrow> 'z rb_sys_scheme \<Rightarrow> (u32 \<times> 'z rb_sys_scheme) option" where
  "replace_by_successor node successor parent child2 root s = do {
     n \<leftarrow> rb_nodes s node;
     let tmp = rb_left n;
     s \<leftarrow> upd_rb successor (\<lambda>n. n\<lparr>rb_left := tmp\<rparr>) s;
     s \<leftarrow> rb_set_parent tmp successor s;
     n \<leftarrow> rb_nodes s node;
     let pc = rb_parent_color n;
     let tmp = pc_parent pc;
     s \<leftarrow> rb_change_child node successor tmp root s;
     if child2 \<noteq> 0
     then do {
       s \<leftarrow> upd_rb successor (\<lambda>n. n\<lparr>rb_parent_color := pc\<rparr>) s;
       s \<leftarrow> rb_set_parent_color child2 parent RB_BLACK s;
       Some (0, s)
     }
     else do {
       sc \<leftarrow> rb_nodes s successor;
       let pc2 = rb_parent_color sc;
       s \<leftarrow> upd_rb successor (\<lambda>n. n\<lparr>rb_parent_color := pc\<rparr>) s;
       Some (if pc_is_black pc2 then parent else 0, s)
     }
   }"

definition rb_erase_augmented_raw :: "u32 \<Rightarrow> u32 \<Rightarrow> 'z rb_sys_scheme rb_augment_callbacks \<Rightarrow> 'z rb_sys_scheme \<Rightarrow>
    (u32 \<times> 'z rb_sys_scheme) option" where
  "rb_erase_augmented_raw node root augment s = do {
     n \<leftarrow> rb_nodes s node;
     let child = rb_right n;
     let tmp = rb_left n;
     let pc = rb_parent_color n;
     let parent = pc_parent pc;
     (rebalance, tmp, s) \<leftarrow>
       (if tmp = 0
        then do {
          s \<leftarrow> rb_change_child node child parent root s;
          if child \<noteq> 0
          then do {
            s \<leftarrow> upd_rb child (\<lambda>n. n\<lparr>rb_parent_color := pc\<rparr>) s;
            Some (0, parent, s)
          }
          else Some (if pc_is_black pc then parent else 0, parent, s)
        }
        else if child = 0
        then do {
          s \<leftarrow> upd_rb tmp (\<lambda>n. n\<lparr>rb_parent_color := pc\<rparr>) s;
          s \<leftarrow> rb_change_child node tmp parent root s;
          Some (0, parent, s)
        }
        else do {
          (successor, parent, child2, s) \<leftarrow> unlink_successor node child augment s;
          (rebalance, s) \<leftarrow> replace_by_successor node successor parent child2 root s;
          Some (rebalance, successor, s)
        });
     s \<leftarrow> cb_propagate augment tmp 0 s;
     Some (rebalance, s)
   }"

definition rb_erase_augmented :: "u32 \<Rightarrow> u32 \<Rightarrow> 'z rb_sys_scheme rb_augment_callbacks \<Rightarrow> 'z rb_sys_scheme \<Rightarrow> 'z rb_sys_scheme option" where
  "rb_erase_augmented node root augment s = do {
     (rebalance, s) \<leftarrow> rb_erase_augmented_raw node root augment s;
     if rebalance \<noteq> 0 then rb_erase_color rebalance root (cb_rotate augment) s else Some s
   }"

definition rb_insert_augmented :: "u32 \<Rightarrow> u32 \<Rightarrow> 'z rb_sys_scheme rb_augment_callbacks \<Rightarrow> 'z rb_sys_scheme \<Rightarrow> 'z rb_sys_scheme option" where
  "rb_insert_augmented node root augment s = rb_insert node root (cb_rotate augment) s"

section \<open>Trees without augmented values\<close>

definition dummy_propagate :: "u32 \<Rightarrow> u32 \<Rightarrow> 'z \<Rightarrow> 'z option" where
  "dummy_propagate node stop s = Some s"

definition dummy_copy :: "u32 \<Rightarrow> u32 \<Rightarrow> 'z \<Rightarrow> 'z option" where
  "dummy_copy old new s = Some s"

definition dummy_rotate :: "u32 \<Rightarrow> u32 \<Rightarrow> 'z \<Rightarrow> 'z option" where
  "dummy_rotate old new s = Some s"

definition dummy_callbacks :: "'z rb_augment_callbacks" where
  "dummy_callbacks = \<lparr>cb_propagate = dummy_propagate, cb_copy = dummy_copy, cb_rotate = dummy_rotate\<rparr>"

definition rb_insert_color :: "u32 \<Rightarrow> u32 \<Rightarrow> 'z rb_sys_scheme \<Rightarrow> 'z rb_sys_scheme option" where
  "rb_insert_color node root s = rb_insert node root dummy_rotate s"

definition rb_erase :: "u32 \<Rightarrow> u32 \<Rightarrow> 'z rb_sys_scheme \<Rightarrow> 'z rb_sys_scheme option" where
  "rb_erase node root s = do {
     (rebalance, s) \<leftarrow> rb_erase_augmented_raw node root dummy_callbacks s;
     if rebalance \<noteq> 0 then erase_color_loop dummy_rotate root 0 rebalance s else Some s
   }"

section \<open>Trees with augmented values\<close>

text \<open>
  The functions that \<open>RB_DECLARE_CALLBACKS\<close> declares.  The values are a map from nodes, \<open>rbcompute\<close> is the
  computation of the value of a node from the state.
\<close>

record 'v rb_aug = rb_sys +
  rbaugmented :: "u32 \<Rightarrow> 'v"

partial_function (option) aug_propagate :: "(u32 \<Rightarrow> 'v rb_aug \<Rightarrow> 'v) \<Rightarrow> u32 \<Rightarrow> u32 \<Rightarrow> 'v rb_aug \<Rightarrow> 'v rb_aug option" where
  "aug_propagate rbcompute rb stop s =
     (if rb = stop then Some s
      else do {
        n \<leftarrow> rb_nodes s rb;
        let augmented = rbcompute rb s;
        if rbaugmented s rb = augmented then Some s
        else aug_propagate rbcompute (rb_parent n) stop (s\<lparr>rbaugmented := (rbaugmented s)(rb := augmented)\<rparr>)
      })"

definition aug_copy :: "u32 \<Rightarrow> u32 \<Rightarrow> 'v rb_aug \<Rightarrow> 'v rb_aug option" where
  "aug_copy old new s = Some (s\<lparr>rbaugmented := (rbaugmented s)(new := rbaugmented s old)\<rparr>)"

definition aug_rotate :: "(u32 \<Rightarrow> 'v rb_aug \<Rightarrow> 'v) \<Rightarrow> u32 \<Rightarrow> u32 \<Rightarrow> 'v rb_aug \<Rightarrow> 'v rb_aug option" where
  "aug_rotate rbcompute old new s =
     (let s = s\<lparr>rbaugmented := (rbaugmented s)(new := rbaugmented s old)\<rparr>
      in Some (s\<lparr>rbaugmented := (rbaugmented s)(old := rbcompute old s)\<rparr>))"

definition RB_DECLARE_CALLBACKS :: "(u32 \<Rightarrow> 'v rb_aug \<Rightarrow> 'v) \<Rightarrow> 'v rb_aug rb_augment_callbacks" where
  "RB_DECLARE_CALLBACKS rbcompute =
     \<lparr>cb_propagate = aug_propagate rbcompute, cb_copy = aug_copy, cb_rotate = aug_rotate rbcompute\<rparr>"

section \<open>Traversal\<close>

text \<open>Down from a node to its last child on a side.\<close>

partial_function (option) deepest :: "side \<Rightarrow> u32 \<Rightarrow> 'z rb_sys_scheme \<Rightarrow> u32 option" where
  "deepest d n s = do {
     v \<leftarrow> rb_nodes s n;
     if rb_child d v \<noteq> 0 then deepest d (rb_child d v) s else Some n
   }"

definition rb_first :: "u32 \<Rightarrow> 'z rb_sys_scheme \<Rightarrow> u32 option" where
  "rb_first root s = (let n = rb_roots s root in if n = 0 then Some 0 else deepest L n s)"

definition rb_last :: "u32 \<Rightarrow> 'z rb_sys_scheme \<Rightarrow> u32 option" where
  "rb_last root s = (let n = rb_roots s root in if n = 0 then Some 0 else deepest R n s)"

text \<open>Up from a node as long as it is the child of its parent on the side.\<close>

partial_function (option) ascend :: "side \<Rightarrow> u32 \<Rightarrow> 'z rb_sys_scheme \<Rightarrow> u32 option" where
  "ascend d node s = do {
     n \<leftarrow> rb_nodes s node;
     let parent = rb_parent n;
     if parent = 0 then Some parent
     else do {
       p \<leftarrow> rb_nodes s parent;
       if node = rb_child d p then ascend d parent s else Some parent
     }
   }"

definition rb_next :: "u32 \<Rightarrow> 'z rb_sys_scheme \<Rightarrow> u32 option" where
  "rb_next node s = do {
     n \<leftarrow> rb_nodes s node;
     if RB_EMPTY_NODE node n then Some 0
     else if rb_right n \<noteq> 0 then deepest L (rb_right n) s
     else ascend R node s
   }"

definition rb_prev :: "u32 \<Rightarrow> 'z rb_sys_scheme \<Rightarrow> u32 option" where
  "rb_prev node s = do {
     n \<leftarrow> rb_nodes s node;
     if RB_EMPTY_NODE node n then Some 0
     else if rb_left n \<noteq> 0 then deepest R (rb_left n) s
     else ascend L node s
   }"

definition rb_replace_node :: "u32 \<Rightarrow> u32 \<Rightarrow> u32 \<Rightarrow> 'z rb_sys_scheme \<Rightarrow> 'z rb_sys_scheme option" where
  "rb_replace_node victim new root s = do {
     v \<leftarrow> rb_nodes s victim;
     let parent = rb_parent v;
     s \<leftarrow> upd_rb new (\<lambda>_. v) s;
     v \<leftarrow> rb_nodes s victim;
     s \<leftarrow> (if rb_left v \<noteq> 0 then rb_set_parent (rb_left v) new s else Some s);
     v \<leftarrow> rb_nodes s victim;
     s \<leftarrow> (if rb_right v \<noteq> 0 then rb_set_parent (rb_right v) new s else Some s);
     rb_change_child victim new parent root s
   }"

partial_function (option) rb_left_deepest_node :: "u32 \<Rightarrow> 'z rb_sys_scheme \<Rightarrow> u32 option" where
  "rb_left_deepest_node node s = do {
     n \<leftarrow> rb_nodes s node;
     if rb_left n \<noteq> 0 then rb_left_deepest_node (rb_left n) s
     else if rb_right n \<noteq> 0 then rb_left_deepest_node (rb_right n) s
     else Some node
   }"

definition rb_next_postorder :: "u32 \<Rightarrow> 'z rb_sys_scheme \<Rightarrow> u32 option" where
  "rb_next_postorder node s =
     (if node = 0 then Some 0
      else do {
        n \<leftarrow> rb_nodes s node;
        let parent = rb_parent n;
        if parent = 0 then Some parent
        else do {
          p \<leftarrow> rb_nodes s parent;
          if node = rb_left p \<and> rb_right p \<noteq> 0 then rb_left_deepest_node (rb_right p) s else Some parent
        }
      })"

definition rb_first_postorder :: "u32 \<Rightarrow> 'z rb_sys_scheme \<Rightarrow> u32 option" where
  "rb_first_postorder root s =
     (if rb_roots s root = 0 then Some 0 else rb_left_deepest_node (rb_roots s root) s)"

end
