(* ===== verification/Rbtree_Shape.thy ===== *)
theory Rbtree_Shape
  imports Rbtree
begin

text \<open>
  Red-black trees as values, and the relation between such a tree and the nodes of a store that
  form it.  A position in a tree is a list of frames from the position up to the root, so that the loops,
  which climb along parent pointers, become recursions on that list.
\<close>

section \<open>Trees and positions\<close>

datatype rb_col = Red | Black

datatype rb_tree = Tip | Nd rb_col rb_tree u32 rb_tree

primrec inorder :: "rb_tree \<Rightarrow> u32 list" where
  "inorder Tip = []"
| "inorder (Nd c l x r) = inorder l @ x # inorder r"

primrec rootp :: "rb_tree \<Rightarrow> u32" where
  "rootp Tip = 0"
| "rootp (Nd c l x r) = x"

primrec col :: "rb_tree \<Rightarrow> rb_col" where
  "col Tip = Black"
| "col (Nd c l x r) = c"

primrec paint :: "rb_col \<Rightarrow> rb_tree \<Rightarrow> rb_tree" where
  "paint c Tip = Tip"
| "paint c (Nd c' l x r) = Nd c l x r"

definition bits :: "rb_col \<Rightarrow> u32" where
  "bits c = (case c of Red \<Rightarrow> RB_RED | Black \<Rightarrow> RB_BLACK)"

text \<open>A node with the subtree \<open>t\<close> on side \<open>d\<close> and \<open>s\<close> on the other side.\<close>

definition join :: "side \<Rightarrow> rb_col \<Rightarrow> rb_tree \<Rightarrow> u32 \<Rightarrow> rb_tree \<Rightarrow> rb_tree" where
  "join d c t x s = (case d of L \<Rightarrow> Nd c t x s | R \<Rightarrow> Nd c s x t)"

type_synonym rb_frame = "side \<times> rb_col \<times> u32 \<times> rb_tree"

fun plug :: "rb_tree \<Rightarrow> rb_frame list \<Rightarrow> rb_tree" where
  "plug t [] = t"
| "plug t ((d, c, p, s) # k) = plug (join d c t p s) k"

fun before :: "rb_frame list \<Rightarrow> u32 list" where
  "before [] = []"
| "before ((d, c, p, s) # k) = before k @ (case d of L \<Rightarrow> [] | R \<Rightarrow> inorder s @ [p])"

fun after :: "rb_frame list \<Rightarrow> u32 list" where
  "after [] = []"
| "after ((d, c, p, s) # k) = (case d of L \<Rightarrow> p # inorder s | R \<Rightarrow> []) @ after k"

section \<open>The invariants\<close>

primrec red_ok :: "rb_tree \<Rightarrow> bool" where
  "red_ok Tip \<longleftrightarrow> True"
| "red_ok (Nd c l x r) \<longleftrightarrow> (c = Red \<longrightarrow> col l = Black \<and> col r = Black) \<and> red_ok l \<and> red_ok r"

primrec bheight :: "rb_tree \<Rightarrow> nat" where
  "bheight Tip = 0"
| "bheight (Nd c l x r) = (if c = Black then Suc (bheight l) else bheight l)"

primrec balanced :: "rb_tree \<Rightarrow> bool" where
  "balanced Tip \<longleftrightarrow> True"
| "balanced (Nd c l x r) \<longleftrightarrow> bheight l = bheight r \<and> balanced l \<and> balanced r"

text \<open>The properties 2, 4 and 5 in the head comment of \<^verbatim>\<open>rbtree.c\<close>; 1 and 3 hold by construction.\<close>

definition red_black :: "rb_tree \<Rightarrow> bool" where
  "red_black t \<longleftrightarrow> col t = Black \<and> red_ok t \<and> balanced t"

text \<open>What the frames owe to a subtree with the black height \<open>h\<close> for the whole to be balanced, and the
  condition on the colours along the frames, the colour of the subtree apart.\<close>

fun frames_bal :: "nat \<Rightarrow> rb_frame list \<Rightarrow> bool" where
  "frames_bal h [] \<longleftrightarrow> True"
| "frames_bal h ((d, c, p, s) # k) \<longleftrightarrow> balanced s \<and> bheight s = h \<and> frames_bal (if c = Black then Suc h else h) k"

fun frames_col :: "rb_frame list \<Rightarrow> rb_col" where
  "frames_col [] = Black"
| "frames_col ((d, c, p, s) # k) = c"

fun frames_red :: "rb_frame list \<Rightarrow> bool" where
  "frames_red [] \<longleftrightarrow> True"
| "frames_red ((d, c, p, s) # k) \<longleftrightarrow> red_ok s \<and> (c = Red \<longrightarrow> col s = Black \<and> frames_col k = Black \<and> k \<noteq> []) \<and> frames_red k"

lemma opp_opp [simp]: "opp (opp d) = d"
  by (cases d) simp_all

lemma opp_neq [simp]: "opp d \<noteq> d" "d \<noteq> opp d"
  by (cases d; simp)+

lemma side_cases: "d = e \<or> d = opp e"
  by (cases d; cases e) simp_all

lemma side_neq: "d \<noteq> e \<longleftrightarrow> d = opp e"
  by (cases d; cases e) simp_all

lemma join_opp [simp]: "join (opp d) c t x s = join d c s x t"
  by (cases d) (simp_all add: join_def)

lemma rootp_join [simp]: "rootp (join d c t x s) = x"
  by (cases d) (simp_all add: join_def)

lemma col_join [simp]: "col (join d c t x s) = c"
  by (cases d) (simp_all add: join_def)

lemma paint_join [simp]: "paint c (join d c' t x s) = join d c t x s"
  by (cases d) (simp_all add: join_def)

lemma join_Tip [simp]: "join d c t x s \<noteq> Tip"
  by (cases d) (simp_all add: join_def)

lemma red_ok_join [simp]:
  "red_ok (join d c t x s) \<longleftrightarrow> (c = Red \<longrightarrow> col t = Black \<and> col s = Black) \<and> red_ok t \<and> red_ok s"
  by (cases d) (auto simp: join_def)

lemma balanced_join [simp]: "balanced (join d c t x s) \<longleftrightarrow> bheight t = bheight s \<and> balanced t \<and> balanced s"
  by (cases d) (auto simp: join_def)

lemma bheight_join: "bheight t = bheight s \<Longrightarrow> bheight (join d c t x s) = (if c = Black then Suc (bheight t) else bheight t)"
  by (cases d) (auto simp: join_def)

lemma set_inorder_join [simp]: "set (inorder (join d c t x s)) = insert x (set (inorder t) \<union> set (inorder s))"
  by (cases d) (auto simp: join_def)

lemma distinct_inorder_join [simp]:
  "distinct (inorder (join d c t x s)) \<longleftrightarrow> distinct (inorder t) \<and> distinct (inorder s) \<and> x \<notin> set (inorder t) \<and>
     x \<notin> set (inorder s) \<and> set (inorder t) \<inter> set (inorder s) = {}"
  by (cases d) (auto simp: join_def)

lemma tree_join_cases: "t = Tip \<or> (\<exists>c l x r. t = join d c l x r)"
  by (cases t; cases d) (auto simp: join_def)

lemma paint_same [simp]: "col t = c \<Longrightarrow> paint c t = t"
  by (cases t) auto

lemma inorder_paint [simp]: "inorder (paint c t) = inorder t"
  by (cases t) auto

lemma rootp_paint [simp]: "rootp (paint c t) = rootp t"
  by (cases t) auto

lemma inorder_plug: "inorder (plug t k) = before k @ inorder t @ after k"
  by (induction t k rule: plug.induct) (auto simp: join_def split: side.splits)

lemma plug_append: "plug t (k @ k') = plug (plug t k) k'"
  by (induction t k rule: plug.induct) simp_all

lemma inorder_position: "x \<in> set (inorder t) \<Longrightarrow> \<exists>c l r k. t = plug (Nd c l x r) k"
proof (induction t)
  case (Nd c l y r)
  then consider "x = y" | "x \<in> set (inorder l)" | "x \<in> set (inorder r)" by auto
  then show ?case
  proof cases
    case 1
    then show ?thesis by (intro exI [of _ c] exI [of _ l] exI [of _ r] exI [of _ "[]"]) simp
  next
    case 2
    with Nd obtain c' l' r' k where "l = plug (Nd c' l' x r') k" by blast
    then show ?thesis
      by (intro exI [of _ c'] exI [of _ l'] exI [of _ r'] exI [of _ "k @ [(L, c, y, r)]"]) (simp add: plug_append join_def)
  next
    case 3
    with Nd obtain c' l' r' k where "r = plug (Nd c' l' x r') k" by blast
    then show ?thesis
      by (intro exI [of _ c'] exI [of _ l'] exI [of _ r'] exI [of _ "k @ [(R, c, y, l)]"]) (simp add: plug_append join_def)
  qed
qed simp

lemma balanced_plug: "balanced (plug t k) \<longleftrightarrow> balanced t \<and> frames_bal (bheight t) k"
proof (induction t k rule: plug.induct)
  case (2 t d c p s k)
  then show ?case by (cases "bheight t = bheight s") (auto simp: bheight_join)
qed simp

lemma red_ok_plug:
  "col (plug t k) = Black \<and> red_ok (plug t k) \<longleftrightarrow> red_ok t \<and> frames_red k \<and> (col t = Red \<longrightarrow> frames_col k = Black \<and> k \<noteq> [])"
proof (induction t k rule: plug.induct)
  case (1 t)
  then show ?case by (cases "col t") auto
next
  case (2 t d c p s k)
  then show ?case by (cases c; cases "col t") auto
qed

lemma red_black_plug:
  "red_black (plug t k) \<longleftrightarrow> red_ok t \<and> balanced t \<and> frames_red k \<and> frames_bal (bheight t) k \<and>
     (col t = Red \<longrightarrow> frames_col k = Black \<and> k \<noteq> [])"
  using red_ok_plug [of t k] balanced_plug [of t k] unfolding red_black_def by auto

section \<open>Trees in the store\<close>

definition cell :: "side \<Rightarrow> u32 \<Rightarrow> u32 \<Rightarrow> u32 \<Rightarrow> rb_node" where
  "cell d pc h o' = (case d of L \<Rightarrow> \<lparr>rb_parent_color = pc, rb_right = o', rb_left = h\<rparr>
     | R \<Rightarrow> \<lparr>rb_parent_color = pc, rb_right = h, rb_left = o'\<rparr>)"

lemma cell_simps [simp]:
  "cell (opp d) pc h o' = cell d pc o' h"
  "rb_child d (cell d pc h o') = h" "rb_child (opp d) (cell d pc h o') = o'"
  "set_child d v (cell d pc h o') = cell d pc v o'" "set_child (opp d) v (cell d pc h o') = cell d pc h v"
  "rb_parent_color (cell d pc h o') = pc" "(cell d pc h o')\<lparr>rb_parent_color := pc'\<rparr> = cell d pc' h o'"
  by (cases d; simp add: cell_def rb_child_def set_child_def)+

abbreviation good_ptr :: "u32 \<Rightarrow> bool" where
  "good_ptr x \<equiv> x \<noteq> 0 \<and> x AND 3 = 0"

primrec shape :: "(u32 \<Rightarrow> rb_node option) \<Rightarrow> u32 \<Rightarrow> rb_tree \<Rightarrow> bool" where
  "shape N p Tip \<longleftrightarrow> True"
| "shape N p (Nd c l x r) \<longleftrightarrow> good_ptr x \<and> N x = Some (cell L (p OR bits c) (rootp l) (rootp r)) \<and> shape N x l \<and> shape N x r"

fun up :: "rb_frame list \<Rightarrow> u32" where
  "up [] = 0"
| "up ((d, c, p, s) # k) = p"

fun frames :: "(u32 \<Rightarrow> rb_node option) \<Rightarrow> u32 \<Rightarrow> u32 \<Rightarrow> rb_frame list \<Rightarrow> bool" where
  "frames N rw h [] \<longleftrightarrow> rw = h"
| "frames N rw h ((d, c, p, s) # k) \<longleftrightarrow> good_ptr p \<and> N p = Some (cell d (up k OR bits c) h (rootp s)) \<and> shape N p s \<and> frames N rw p k"

fun frame_nodes :: "rb_frame list \<Rightarrow> u32 list" where
  "frame_nodes [] = []"
| "frame_nodes ((d, c, p, s) # k) = p # inorder s @ frame_nodes k"

text \<open>The tree \<open>t\<close> at the position \<open>k\<close> of the tree at a root, and a whole tree.\<close>

definition tree_at :: "'z rb_sys_scheme \<Rightarrow> u32 \<Rightarrow> rb_tree \<Rightarrow> rb_frame list \<Rightarrow> bool" where
  "tree_at s root t k \<longleftrightarrow> shape (rb_nodes s) (up k) t \<and> frames (rb_nodes s) (rb_roots s root) (rootp t) k \<and>
     distinct (inorder t @ frame_nodes k)"

definition is_tree :: "'z rb_sys_scheme \<Rightarrow> u32 \<Rightarrow> rb_tree \<Rightarrow> bool" where
  "is_tree s root t \<longleftrightarrow> tree_at s root t []"

lemma shape_join [simp]:
  "shape N p (join d c t x s) \<longleftrightarrow>
     good_ptr x \<and> N x = Some (cell d (p OR bits c) (rootp t) (rootp s)) \<and> shape N x t \<and> shape N x s"
  by (cases d) (auto simp: join_def cell_def)

lemma tree_at_plug: "tree_at s root (plug t k) k' \<longleftrightarrow> tree_at s root t (k @ k')"
proof (induction t k rule: plug.induct)
  case (2 t d c p u k)
  show ?case unfolding plug.simps "2.IH" by (cases k) (auto simp: tree_at_def)
qed simp

lemma is_tree_plug: "is_tree s root (plug t k) \<longleftrightarrow> tree_at s root t k"
  by (simp add: is_tree_def tree_at_plug)

lemma shape_upd [simp]: "x \<notin> set (inorder t) \<Longrightarrow> shape (N(x := v)) p t = shape N p t"
  by (induction t arbitrary: p) auto

lemma frames_upd [simp]: "x \<notin> set (frame_nodes k) \<Longrightarrow> frames (N(x := v)) rw h k = frames N rw h k"
  by (induction N rw h k rule: frames.induct) auto

lemma shape_cong: "(\<And>x. x \<in> set (inorder t) \<Longrightarrow> N x = M x) \<Longrightarrow> shape N p t = shape M p t"
  by (induction t arbitrary: p) auto

lemma frames_cong: "(\<And>x. x \<in> set (frame_nodes k) \<Longrightarrow> N x = M x) \<Longrightarrow> frames N rw h k = frames M rw h k"
proof (induction N rw h k rule: frames.induct)
  case (2 N rw h d c p s k)
  then show ?case using shape_cong [of s N M p] by auto
qed simp

lemma shape_ptr: "shape N p t \<Longrightarrow> rootp t = 0 \<longleftrightarrow> t = Tip"
  by (cases t) auto

lemma set_frame_nodes: "set (frame_nodes k) = set (before k) \<union> set (after k)"
proof (induction k rule: frame_nodes.induct)
  case (2 d c p s k)
  then show ?case by (cases d) (simp_all add: Un_ac)
qed simp

lemma distinct_frame_nodes: "distinct (inorder t @ frame_nodes k) \<longleftrightarrow> distinct (inorder (plug t k))"
proof (induction t k rule: plug.induct)
  case (2 t d c p s k)
  show ?case unfolding plug.simps "2.IH" [symmetric] by auto
qed simp

section \<open>Colour and parent bits\<close>

lemma low_bits: "p AND 3 = 0 \<Longrightarrow> \<not> bit p 0 \<and> \<not> bit p 1" for p :: u32
proof
  assume a: "p AND 3 = 0"
  have "bit (p AND 3) 0 = bit p 0" "bit (p AND 3) 1 = bit p 1" by (simp_all add: bit_and_iff bit_numeral_rec)
  with a show "\<not> bit p 0" "\<not> bit p 1" by simp_all
qed

lemma pc_parent_bits [simp]: "p AND 3 = 0 \<Longrightarrow> pc_parent (p OR bits c) = p"
proof (rule bit_word_eqI)
  fix n assume "p AND 3 = 0" and n: "n < LENGTH(32)"
  then show "bit (pc_parent (p OR bits c)) n = bit p n"
    using low_bits [of p] n
    by (cases n; cases "n - 1") (auto simp: pc_parent_def bits_def RB_RED_def RB_BLACK_def bit_simps split: rb_col.splits)
qed

lemma pc_color_bits [simp]: "p AND 3 = 0 \<Longrightarrow> pc_color (p OR bits c) = bits c"
  unfolding pc_color_def
proof (rule bit_word_eqI)
  fix n assume "p AND 3 = 0" and "n < LENGTH(32)"
  then show "bit ((p OR bits c) AND 1) n = bit (bits c) n"
    using low_bits [of p] by (cases n) (auto simp: bits_def RB_RED_def RB_BLACK_def bit_simps split: rb_col.splits)
qed

lemma cell_fields [simp]:
  "rb_parent (cell d pc h o') = pc_parent pc" "rb_color (cell d pc h o') = pc_color pc"
  "rb_is_red (cell d pc h o') = pc_is_red pc" "rb_is_black (cell d pc h o') = pc_is_black pc"
  "rb_red_parent (cell d pc h o') = pc"
  by (simp_all add: rb_parent_def pc_parent_def rb_color_def rb_is_red_def rb_is_black_def rb_red_parent_def)

lemma pc_is_bits [simp]:
  "p AND 3 = 0 \<Longrightarrow> pc_is_red (p OR bits c) \<longleftrightarrow> c = Red" "p AND 3 = 0 \<Longrightarrow> pc_is_black (p OR bits c) \<longleftrightarrow> c = Black"
  by (simp_all add: pc_is_red_def pc_is_black_def) (simp_all add: bits_def RB_RED_def RB_BLACK_def split: rb_col.split)

lemma bits_colors: "RB_RED = bits Red" "RB_BLACK = bits Black"
  by (simp_all add: bits_def)

end
