(* ===== verification/Rbtree_Insert.thy ===== *)
theory Rbtree_Insert
  imports Rbtree_Shape
begin

text \<open>
  Insertion.  A pass of the loop of \<^verbatim>\<open>__rb_insert\<close> either colours or rotates; the loop refines the recursion
  \<open>ins_up\<close> along the frames, which keeps the order of the nodes and restores the colours.
\<close>

section \<open>What an operation may change\<close>

definition touches :: "u32 set \<Rightarrow> u32 \<Rightarrow> 'z rb_sys_scheme \<Rightarrow> 'z rb_sys_scheme \<Rightarrow> bool" where
  "touches A root s t \<longleftrightarrow> (\<forall>a. a \<notin> A \<longrightarrow> rb_nodes t a = rb_nodes s a) \<and> (\<forall>r. r \<noteq> root \<longrightarrow> rb_roots t r = rb_roots s r)"

lemma touches_refl [simp]: "touches A root s s"
  by (simp add: touches_def)

lemma touches_trans: "touches A root s t \<Longrightarrow> touches A root t u \<Longrightarrow> touches A root s u"
  by (simp add: touches_def)

lemma touches_mono: "touches A root s t \<Longrightarrow> A \<subseteq> B \<Longrightarrow> touches B root s t"
  by (auto simp: touches_def)

lemma touches_eq: "rb_nodes u = rb_nodes t \<Longrightarrow> rb_roots u = rb_roots t \<Longrightarrow> touches A root s u = touches A root s t"
  by (simp add: touches_def)

lemma touches_shape: "touches A root s t \<Longrightarrow> set (inorder u) \<inter> A = {} \<Longrightarrow> shape (rb_nodes s) p u \<Longrightarrow> shape (rb_nodes t) p u"
  using shape_cong [of u "rb_nodes s" "rb_nodes t" p] unfolding touches_def disjoint_iff by metis

lemma touches_frames:
  "touches A root s t \<Longrightarrow> set (frame_nodes k) \<inter> A = {} \<Longrightarrow> rb_roots t root = rb_roots s root \<Longrightarrow>
     frames (rb_nodes s) (rb_roots s root) h k \<Longrightarrow> frames (rb_nodes t) (rb_roots t root) h k"
  using frames_cong [of k "rb_nodes s" "rb_nodes t" "rb_roots s root" h] unfolding touches_def disjoint_iff by metis

lemma touches_node: "touches A root s t \<Longrightarrow> a \<notin> A \<Longrightarrow> rb_nodes t a = rb_nodes s a"
  by (simp add: touches_def)

lemma upd_rb_node: "rb_nodes s p = Some n \<Longrightarrow> upd_rb p f s = Some (s\<lparr>rb_nodes := (rb_nodes s)(p \<mapsto> f n)\<rparr>)"
  by (simp add: upd_rb_def)

lemmas rb_writes = rb_set_parent_color_def rb_set_parent_def rb_set_black_def upd_rb_node

lemma bits_Red [simp]: "p OR bits Red = p"
  by (simp add: bits_def RB_RED_def)

lemma red_plain [simp]: "p AND 3 = 0 \<Longrightarrow> pc_is_red p" "p AND 3 = 0 \<Longrightarrow> \<not> pc_is_black p" "p AND 3 = 0 \<Longrightarrow> pc_parent p = p"
  using pc_is_bits [of p Red] pc_parent_bits [of p Red] by simp_all

lemma bits_plain [simp]: "pc_is_red (bits c) \<longleftrightarrow> c = Red" "pc_is_black (bits c) \<longleftrightarrow> c = Black" "pc_parent (bits c) = 0" "pc_color (bits c) = bits c"
  using pc_is_bits [of 0 c] pc_parent_bits [of 0 c] pc_color_bits [of 0 c] by simp_all

lemma rootp_in: "rootp t = 0 \<or> rootp t \<in> set (inorder t)"
  by (cases t) auto

lemma shape_good: "shape N p t \<Longrightarrow> x \<in> set (inorder t) \<Longrightarrow> good_ptr x"
  by (induction t arbitrary: p) auto

lemma frames_good: "frames N rw h k \<Longrightarrow> up k AND 3 = 0"
  by (cases k rule: up.cases) auto

lemma tree_atI:
  "shape (rb_nodes s) (up k) t \<Longrightarrow> frames (rb_nodes s) (rb_roots s root) (rootp t) k \<Longrightarrow> distinct (inorder t @ frame_nodes k) \<Longrightarrow>
     tree_at s root t k"
  by (simp add: tree_at_def)

text \<open>Hanging a subtree below another node, in black or with the colour it has.\<close>

lemma reparent_black:
  assumes "shape (rb_nodes s) q b" and "distinct (inorder b)"
  shows "\<exists>t. set_child_parent_color (rootp b) p RB_BLACK s = Some t \<and> shape (rb_nodes t) p (paint Black b) \<and>
    touches (set (inorder b)) root s t \<and> rb_roots t = rb_roots s"
  using assms
  by (cases b) (auto simp: set_child_parent_color_def rb_writes touches_def bits_colors)

lemma reparent:
  assumes "shape (rb_nodes s) q b" and "distinct (inorder b)" and "q AND 3 = 0"
  shows "\<exists>t. (if rootp b \<noteq> 0 then rb_set_parent (rootp b) p s else Some s) = Some t \<and> shape (rb_nodes t) p b \<and>
    touches (set (inorder b)) root s t \<and> rb_roots t = rb_roots s"
  using assms
  by (cases b) (auto simp: rb_writes touches_def or.commute)

text \<open>The pointer to a subtree is changed in its parent or in the root.\<close>

lemma change_child_frames:
  assumes "frames (rb_nodes s) (rb_roots s root) h k" and "distinct (h # frame_nodes k)" and "h \<noteq> 0"
  shows "\<exists>t. rb_change_child h new (up k) root s = Some t \<and> frames (rb_nodes t) (rb_roots t root) new k \<and>
    touches (set (frame_nodes k)) root s t"
proof (cases k rule: frame_nodes.cases)
  case 1
  then show ?thesis using assms by (simp add: rb_change_child_def touches_def)
next
  case (2 d c p u k')
  have "rootp u \<noteq> h" using rootp_in [of u] assms(2,3) 2 by auto
  then show ?thesis
    using assms 2 by (cases d) (auto simp: rb_change_child_def upd_rb_def cell_def touches_def)
qed

lemma rotate_set_parents_frames:
  assumes "frames (rb_nodes s) (rb_roots s root) old k" and "distinct (old # new # frame_nodes k)" and "old \<noteq> 0"
    and "rb_nodes s old = Some (cell d (up k OR bits c) x y)" and "rb_nodes s new = Some (cell d' pc x' y')"
  shows "\<exists>t. rb_rotate_set_parents old new root color s = Some t \<and> frames (rb_nodes t) (rb_roots t root) new k \<and>
    rb_nodes t old = Some (cell d (new OR color) x y) \<and> rb_nodes t new = Some (cell d' (up k OR bits c) x' y') \<and>
    touches (insert old (insert new (set (frame_nodes k)))) root s t"
proof -
  let ?s = "s\<lparr>rb_nodes := (rb_nodes s)(new \<mapsto> cell d' (up k OR bits c) x' y', old \<mapsto> cell d (new OR color) x y)\<rparr>"
  have "frames (rb_nodes ?s) (rb_roots ?s root) old k" using assms(1,2) by simp
  from change_child_frames [OF this, of new] assms(2,3) obtain t where t: "rb_change_child old new (up k) root ?s = Some t"
    "frames (rb_nodes t) (rb_roots t root) new k" "touches (set (frame_nodes k)) root ?s t" by auto
  have "rb_rotate_set_parents old new root color s = Some t"
    using assms(2,4,5) t(1) frames_good [OF assms(1)] by (simp add: rb_rotate_set_parents_def rb_writes)
  then show ?thesis using t(2,3) assms(2) by (auto simp: touches_def)
qed

section \<open>A rotation\<close>

text \<open>
  The child \<open>p\<close> of \<open>g\<close> on side \<open>d\<close> takes its place, and gives it the subtree \<open>b\<close>.  Nothing is asked of the
  pointers that are overwritten.
\<close>

lemma rotation:
  assumes g: "rb_nodes s g = Some (cell d (up k OR bits c) h (rootp u))" and p: "rb_nodes s p = Some (cell d pc a h')"
    and b: "shape (rb_nodes s) q b" "col b = Black" and f: "frames (rb_nodes s) (rb_roots s root) g k"
    and dist: "distinct (g # p # inorder b @ frame_nodes k)" and "g \<noteq> 0"
  shows "\<exists>t. (\<forall>f. (do { s \<leftarrow> upd_rb g (set_child d (rootp b)) s; s \<leftarrow> upd_rb p (set_child (opp d) g) s;
        s \<leftarrow> set_child_parent_color (rootp b) g RB_BLACK s; s \<leftarrow> rb_rotate_set_parents g p root color s; f s }) = f t) \<and>
    rb_nodes t g = Some (cell d (p OR color) (rootp b) (rootp u)) \<and> rb_nodes t p = Some (cell d (up k OR bits c) a g) \<and>
    shape (rb_nodes t) g b \<and> frames (rb_nodes t) (rb_roots t root) p k \<and>
    touches (set (g # p # inorder b @ frame_nodes k)) root s t"
proof -
  let ?s = "s\<lparr>rb_nodes := (rb_nodes s)(g \<mapsto> cell d (up k OR bits c) (rootp b) (rootp u), p \<mapsto> cell d pc a g)\<rparr>"
  have g': "upd_rb g (set_child d (rootp b)) s = Some (s\<lparr>rb_nodes := (rb_nodes s)(g \<mapsto> cell d (up k OR bits c) (rootp b) (rootp u))\<rparr>)"
    using g by (simp add: upd_rb_node)
  have p': "upd_rb p (set_child (opp d) g) (s\<lparr>rb_nodes := (rb_nodes s)(g \<mapsto> cell d (up k OR bits c) (rootp b) (rootp u))\<rparr>) = Some ?s"
    using p dist by (auto simp: upd_rb_def)
  have "shape (rb_nodes ?s) q b" using b dist by simp
  from reparent_black [OF this, of g root] dist b(2) obtain t1 where t1:
    "set_child_parent_color (rootp b) g RB_BLACK ?s = Some t1" "shape (rb_nodes t1) g b"
    "touches (set (inorder b)) root ?s t1" "rb_roots t1 = rb_roots ?s" by auto
  have n: "rb_nodes t1 a = rb_nodes ?s a" if "a \<notin> set (inorder b)" for a using t1(3) that by (rule touches_node)
  have "frames (rb_nodes t1) (rb_roots t1 root) g k"
    using f dist n frames_cong [of k "rb_nodes t1" "rb_nodes ?s" "rb_roots s root" g] by (auto simp: t1(4))
  moreover have "rb_nodes t1 g = Some (cell d (up k OR bits c) (rootp b) (rootp u))" "rb_nodes t1 p = Some (cell d pc a g)"
    using n dist by auto
  ultimately obtain t where t: "rb_rotate_set_parents g p root color t1 = Some t" "frames (rb_nodes t) (rb_roots t root) p k"
    "rb_nodes t g = Some (cell d (p OR color) (rootp b) (rootp u))" "rb_nodes t p = Some (cell d (up k OR bits c) a g)"
    "touches (insert g (insert p (set (frame_nodes k)))) root t1 t"
    using rotate_set_parents_frames [of t1 root g k p d c "rootp b" "rootp u" d pc a g color] dist assms(7) by auto
  have "shape (rb_nodes t) g b" by (rule touches_shape [OF t(5) _ t1(2)]) (use dist in auto)
  moreover have "touches (set (g # p # inorder b @ frame_nodes k)) root s t"
    using t(5) t1(3) unfolding touches_def by auto
  ultimately show ?thesis using t t1(1) by (intro exI [of _ t]) (simp add: g' p')
qed

lemma inorder_rotate: "inorder (join d c (join d c2 v p b) g u) = inorder (join d c3 v p (join d c4 b g u))"
  by (cases d) (simp_all add: join_def)

lemma inorder_double_rotate:
  "inorder (join d c (join d c2 a p (join d c3 b n e)) g u) = inorder (join d c4 (join d c5 a p b) n (join d c6 e g u))"
  by (cases d) (simp_all add: join_def)

section \<open>The loop on trees\<close>

definition sub :: "side \<Rightarrow> rb_tree \<Rightarrow> rb_tree" where
  "sub d t = (case t of Tip \<Rightarrow> Tip | Nd c l x r \<Rightarrow> if d = L then l else r)"

lemma sub_join [simp]: "sub d (join d c t x s) = t" "sub (opp d) (join d c t x s) = s"
  by (cases d; simp add: sub_def join_def)+

lemma join_sub: "t \<noteq> Tip \<Longrightarrow> t = join d (col t) (sub d t) (rootp t) (sub (opp d) t)"
  by (cases t; cases d) (simp_all add: sub_def join_def)

fun ins_up :: "rb_tree \<Rightarrow> rb_frame list \<Rightarrow> rb_tree" where
  "ins_up t [] = paint Black t"
| "ins_up t [(d, c, p, s)] = plug t [(d, c, p, s)]"
| "ins_up t ((d, c, p, s) # (d', c', g, u) # k) =
     (if c = Black then plug t ((d, c, p, s) # (d', c', g, u) # k)
      else if col u = Red then ins_up (join d' Red (join d Black t p s) g (paint Black u)) k
      else if d = d' then plug (join d' c' t p (join d' Red s g u)) k
      else plug (join d' c' (join d' Red s p (sub d' t)) (rootp t) (join d' Red (sub (opp d') t) g u)) k)"

lemma col_paint_Black [simp]: "col (paint Black t) = Black"
  by (cases t) auto

lemma inorder_join_cong:
  "inorder t = inorder t' \<Longrightarrow> inorder u = inorder u' \<Longrightarrow> inorder (join d c t x u) = inorder (join d c' t' x u')"
  by (cases d) (simp_all add: join_def)

text \<open>The recursion keeps the order of the nodes, and makes a red-black tree.\<close>

lemma inorder_ins_up: "t \<noteq> Tip \<Longrightarrow> inorder (ins_up t k) = inorder (plug t k)"
proof (induction t k rule: ins_up.induct)
  case (3 t d c p s d' c' g u k)
  have j: "t = join d' (col t) (sub d' t) (rootp t) (sub (opp d') t)" using 3(2) by (rule join_sub)
  have a: "inorder (join d' Red (join d Black t p s) g (paint Black u)) = inorder (join d' c' (join d c t p s) g u)"
    by (intro inorder_join_cong) simp_all
  have b: "inorder (join d' c' t p (join d' Red s g u)) = inorder (join d' c' (join d' c t p s) g u)"
    by (simp add: inorder_rotate [of d' c' c t p s g u c' Red])
  have e: "inorder (join d' c' (join d' Red s p (sub d' t)) (rootp t) (join d' Red (sub (opp d') t) g u)) =
      inorder (join d' c' (join d' c s p t) g u)"
    by (subst (2) j) (simp add: inorder_double_rotate [of d' c' c s p "col t" "sub d' t" "rootp t" "sub (opp d') t" g u c' Red Red])
  show ?case
  proof (cases "d = d'")
    case True
    then show ?thesis using 3 a b by (simp add: inorder_plug)
  next
    case False
    then have "d = opp d'" by (simp add: side_neq)
    then show ?thesis using 3 a e by (simp add: inorder_plug)
  qed
qed simp_all

lemma red_black_ins_up:
  "red_ok t \<Longrightarrow> col t = Red \<Longrightarrow> balanced t \<Longrightarrow> frames_red k \<Longrightarrow> frames_bal (bheight t) k \<Longrightarrow> red_black (ins_up t k)"
proof (induction t k rule: ins_up.induct)
  case (1 t)
  then show ?case by (cases t) (auto simp: red_black_def)
next
  case (2 t d c p s)
  then show ?case by (cases c) (auto simp: red_black_def)
next
  case (3 t d c p s d' c' g u k)
  obtain a x b where t: "t = join d' Red a x b" using 3(3) tree_join_cases [of t d'] by auto
  have h: "bheight (paint Black u) = Suc (bheight u)" if "col u = Red" using that by (cases u) auto
  have o: "red_ok (paint Black u)" "balanced (paint Black u)" if "red_ok u" "balanced u" using that by (cases u; simp)+
  show ?case
  proof (cases c)
    case Black
    then show ?thesis using 3(2-6) by (simp add: red_black_plug del: plug.simps)
  next
    case Red
    then have f: "c' = Black" "col s = Black" "red_ok s" "red_ok u" "frames_red k" "balanced s" "balanced u"
      "bheight s = bheight t" "bheight u = bheight t" "frames_bal (Suc (bheight t)) k"
      using 3(5,6) by auto
    show ?thesis
    proof (cases "col u")
      case R: Red
      have "bheight (join d Black t p s) = Suc (bheight t)" using f by (simp add: bheight_join)
      with R show ?thesis using 3(1) 3(2-4) Red f h o by (simp add: bheight_join)
    next
      case Black
      have "bheight a = bheight b" "bheight t = bheight a" using 3(4) by (auto simp: t bheight_join)
      then show ?thesis using 3(2-4) Red Black f by (simp add: red_black_plug bheight_join t)
    qed
  qed
qed

section \<open>Callbacks\<close>

text \<open>What the balancing routines need of the callback: it changes neither nodes nor roots.\<close>

locale rb_rotation =
  fixes rot :: "'z rb_rotation"
  assumes keeps: "\<exists>t. rot a b s = Some t \<and> rb_nodes t = rb_nodes s \<and> rb_roots t = rb_roots s"
begin

lemma insert_rotate_outer:
  assumes t: "tree_at s root (join d c (join d Red v p b) g u) k" and "v \<noteq> Tip" and "col b = Black"
  shows "\<exists>t. insert_rotate rot root d (rootp v) p g s = Some t \<and> tree_at t root (join d c v p (join d Red b g u)) k \<and>
    touches (set (inorder (join d c (join d Red v p b) g u)) \<union> set (frame_nodes k)) root s t"
proof -
  have v: "rootp v \<noteq> rootp b"
    using t assms(2) rootp_in [of v] rootp_in [of b] by (auto simp: tree_at_def shape_ptr)
  have d: "distinct (g # p # inorder b @ frame_nodes k)" "g \<noteq> 0" "p \<noteq> 0" "g AND 3 = 0" "p AND 3 = 0"
    using t by (auto simp: tree_at_def)
  have N: "rb_nodes s g = Some (cell d (up k OR bits c) p (rootp u))" "rb_nodes s p = Some (cell d g (rootp v) (rootp b))"
    "shape (rb_nodes s) p b" "frames (rb_nodes s) (rb_roots s root) g k" "shape (rb_nodes s) p v" "shape (rb_nodes s) g u"
    using t by (simp_all add: tree_at_def)
  from rotation [OF N(1,2,3) assms(3) N(4) d(1,2), where color = RB_RED]
  obtain t' where t': "\<And>f :: 'z rb_sys_scheme \<Rightarrow> 'z rb_sys_scheme option. (do { s \<leftarrow> upd_rb g (set_child d (rootp b)) s; s \<leftarrow> upd_rb p (set_child (opp d) g) s;
        s \<leftarrow> set_child_parent_color (rootp b) g RB_BLACK s; s \<leftarrow> rb_rotate_set_parents g p root RB_RED s; f s }) = f t'"
    "rb_nodes t' g = Some (cell d p (rootp b) (rootp u))" "rb_nodes t' p = Some (cell d (up k OR bits c) (rootp v) g)"
    "shape (rb_nodes t') g b" "frames (rb_nodes t') (rb_roots t' root) p k"
    "touches (set (g # p # inorder b @ frame_nodes k)) root s t'" by (auto simp: bits_colors)
  obtain t'' where t'': "rot g p t' = Some t''" "rb_nodes t'' = rb_nodes t'" "rb_roots t'' = rb_roots t'" using keeps by blast
  have "insert_rotate rot root d (rootp v) p g s = Some t''"
    using N(2) v t'(1) t''(1) by (simp add: insert_rotate_def Let_def)
  moreover have "tree_at t'' root (join d c v p (join d Red b g u)) k"
  proof (rule tree_atI)
    have "shape (rb_nodes t') p v" "shape (rb_nodes t') g u"
      by (rule touches_shape [OF t'(6) _ N(5)], use t in \<open>auto simp: tree_at_def\<close>)
        (rule touches_shape [OF t'(6) _ N(6)], use t in \<open>auto simp: tree_at_def\<close>)
    then show "shape (rb_nodes t'') (up k) (join d c v p (join d Red b g u))"
      using t'(2-4) t''(2) d(2-5) by simp
    show "frames (rb_nodes t'') (rb_roots t'' root) (rootp (join d c v p (join d Red b g u))) k"
      using t'(5) t''(2,3) by simp
    show "distinct (inorder (join d c v p (join d Red b g u)) @ frame_nodes k)"
      using t unfolding tree_at_def inorder_rotate [of d c Red v p b g u c Red] by blast
  qed
  moreover have "touches (set (inorder (join d c (join d Red v p b) g u)) \<union> set (frame_nodes k)) root s t''"
    unfolding touches_eq [OF t''(2,3)] by (rule touches_mono [OF t'(6)]) auto
  ultimately show ?thesis by blast
qed

lemma insert_rotate_inner:
  assumes t: "tree_at s root (join d c (join d Red a p (join d Red b n e)) g u) k" and "col b = Black" and "col e = Black"
  shows "\<exists>t. insert_rotate rot root d n p g s = Some t \<and>
    tree_at t root (join d c (join d Red a p b) n (join d Red e g u)) k \<and>
    touches (set (inorder (join d c (join d Red a p (join d Red b n e)) g u)) \<union> set (frame_nodes k)) root s t"
proof -
  have d: "distinct (g # n # inorder e @ frame_nodes k)" "g \<noteq> 0" "n \<noteq> 0" "p \<noteq> 0" "g AND 3 = 0" "p AND 3 = 0" "n AND 3 = 0"
    "distinct (inorder b)" "p \<noteq> n" "p \<noteq> g" and pn: "p \<notin> set (inorder b)" "n \<notin> set (inorder b)" "p \<notin> set (inorder e)"
    "p \<notin> set (frame_nodes k)" "g \<notin> set (inorder b)" "g \<notin> set (inorder a)" "n \<notin> set (inorder a)" "p \<notin> set (inorder a)"
    and dj: "set (inorder b) \<inter> set (inorder e) = {}" "set (inorder b) \<inter> set (frame_nodes k) = {}"
      "set (inorder a) \<inter> insert p (insert n (set (inorder b))) = {}" "set (inorder u) \<inter> insert p (insert n (set (inorder b))) = {}"
      "set (inorder a) \<inter> set (g # n # inorder e @ frame_nodes k) = {}" "set (inorder u) \<inter> set (g # n # inorder e @ frame_nodes k) = {}"
      "set (inorder b) \<inter> set (g # n # inorder e @ frame_nodes k) = {}"
    using t by (auto simp: tree_at_def)
  have N: "rb_nodes s g = Some (cell d (up k OR bits c) p (rootp u))" "rb_nodes s p = Some (cell d g (rootp a) n)"
    "rb_nodes s n = Some (cell d p (rootp b) (rootp e))" "frames (rb_nodes s) (rb_roots s root) g k"
    "shape (rb_nodes s) p a" "shape (rb_nodes s) n b" "shape (rb_nodes s) n e" "shape (rb_nodes s) g u"
    using t by (simp_all add: tree_at_def)
  let ?s = "s\<lparr>rb_nodes := (rb_nodes s)(p \<mapsto> cell d g (rootp a) (rootp b), n \<mapsto> cell d p p (rootp e))\<rparr>"
  have "shape (rb_nodes ?s) n b" using N(6) pn by simp
  from reparent_black [OF this d(8), of p root] obtain t1 where t1: "set_child_parent_color (rootp b) p RB_BLACK ?s = Some t1"
    "shape (rb_nodes t1) p b" "touches (set (inorder b)) root ?s t1" "rb_roots t1 = rb_roots ?s" using assms(2) by auto
  let ?t1 = "t1\<lparr>rb_nodes := (rb_nodes t1)(p \<mapsto> cell d n (rootp a) (rootp b))\<rparr>"
  obtain t2 where t2: "rot p n ?t1 = Some t2" "rb_nodes t2 = rb_nodes ?t1" "rb_roots t2 = rb_roots ?t1" using keeps by blast
  have tt: "touches (insert p (insert n (set (inorder b)))) root s t2"
    using t1(3) unfolding touches_def by (simp add: t2(2,3))
  have at2: "rb_nodes t2 p = Some (cell d n (rootp a) (rootp b))" "rb_nodes t2 n = Some (cell d p p (rootp e))"
    using touches_node [OF t1(3), of n] pn d(9) by (simp_all add: t2(2))
  have 1: "insert_rotate rot root d n p g s =
      do { s \<leftarrow> upd_rb g (set_child d (rootp e)) t2; s \<leftarrow> upd_rb n (set_child (opp d) g) s;
        s \<leftarrow> set_child_parent_color (rootp e) g RB_BLACK s; s \<leftarrow> rb_rotate_set_parents g n root RB_RED s; rot g n s }"
    using N(2,3) d(9) t1(1) t2(1) at2 touches_node [OF t1(3), of p] pn
    by (simp add: insert_rotate_def upd_rb_def rb_set_parent_color_def bits_colors)
  have "rb_nodes t2 g = Some (cell d (up k OR bits c) p (rootp u))" using touches_node [OF tt, of g] N(1) pn d by simp
  moreover have "shape (rb_nodes t2) n e"
    by (rule touches_shape [OF tt _ N(7)]) (use pn(3) d(1) dj(1) in auto)
  moreover have "frames (rb_nodes t2) (rb_roots t2 root) g k"
    by (rule touches_frames [OF tt _ _ N(4)]) (use pn(4) d(1) dj(2) t1(4) in \<open>auto simp: t2(3)\<close>)
  ultimately obtain t3 where t3: "\<And>f :: 'z rb_sys_scheme \<Rightarrow> 'z rb_sys_scheme option.
      (do { s \<leftarrow> upd_rb g (set_child d (rootp e)) t2; s \<leftarrow> upd_rb n (set_child (opp d) g) s;
        s \<leftarrow> set_child_parent_color (rootp e) g RB_BLACK s; s \<leftarrow> rb_rotate_set_parents g n root RB_RED s; f s }) = f t3"
    "rb_nodes t3 g = Some (cell d n (rootp e) (rootp u))" "rb_nodes t3 n = Some (cell d (up k OR bits c) p g)"
    "shape (rb_nodes t3) g e" "frames (rb_nodes t3) (rb_roots t3 root) n k"
    "touches (set (g # n # inorder e @ frame_nodes k)) root t2 t3"
    using rotation [of t2 g d k c p u n p p "rootp e" n e root RB_RED] at2(2) assms(3) d(1,2) by (auto simp: bits_colors)
  obtain t4 where t4: "rot g n t3 = Some t4" "rb_nodes t4 = rb_nodes t3" "rb_roots t4 = rb_roots t3" using keeps by blast
  have "insert_rotate rot root d n p g s = Some t4" using 1 t3(1) t4(1) by simp
  moreover have "tree_at t4 root (join d c (join d Red a p b) n (join d Red e g u)) k"
  proof (rule tree_atI)
    have "shape (rb_nodes t2) p b" using t1(2) pn(1) by (simp add: t2(2))
    then have "shape (rb_nodes t3) p b" by (rule touches_shape [OF t3(6) dj(7)])
    moreover have "shape (rb_nodes t3) p a" by (rule touches_shape [OF t3(6) dj(5) touches_shape [OF tt dj(3) N(5)]])
    moreover have "shape (rb_nodes t3) g u" by (rule touches_shape [OF t3(6) dj(6) touches_shape [OF tt dj(4) N(8)]])
    moreover have "rb_nodes t3 p = Some (cell d n (rootp a) (rootp b))"
      using touches_node [OF t3(6), of p] at2(1) pn d(9,10) by simp
    ultimately show "shape (rb_nodes t4) (up k) (join d c (join d Red a p b) n (join d Red e g u))"
      using t3(2-4) d by (simp add: t4(2))
    show "frames (rb_nodes t4) (rb_roots t4 root) (rootp (join d c (join d Red a p b) n (join d Red e g u))) k"
      using t3(5) by (simp add: t4(2,3))
    show "distinct (inorder (join d c (join d Red a p b) n (join d Red e g u)) @ frame_nodes k)"
      using t unfolding tree_at_def by (simp add: inorder_double_rotate [of d c Red a p Red b n e g u c Red Red])
  qed
  moreover have "touches (set (inorder (join d c (join d Red a p (join d Red b n e)) g u)) \<union> set (frame_nodes k)) root s t4"
    unfolding touches_eq [OF t4(2,3)]
    by (rule touches_trans [OF touches_mono [OF tt] touches_mono [OF t3(6)]]) auto
  ultimately show ?thesis by blast
qed

text \<open>One pass of the loop below a red parent.\<close>

lemma insert_loop_side:
  assumes "tree_at s root t ((d, c, p, v) # (d', c', g, u) # k)"
  shows "(if p \<noteq> rb_right (cell d' pc p (rootp u)) then L else R) = d'"
proof -
  have "rootp u \<noteq> p" using assms rootp_in [of u] by (auto simp: tree_at_def)
  then show ?thesis by (cases d') (simp_all add: cell_def)
qed

lemma red_child_shape: "shape (rb_nodes s) q u \<Longrightarrow> q AND 3 = 0 \<Longrightarrow> red_child (rootp u) s = Some (col u = Red)"
  by (cases u) (simp_all add: red_child_def)

lemma insert_rotate_refines:
  assumes at: "tree_at s root t ((d, Red, p, v) # (d', Black, g, u) # k)" and t: "col t = Red" "red_ok t"
    and "col u = Black" "col v = Black"
  shows "\<exists>s'. insert_rotate rot root d' (rootp t) p g s = Some s' \<and>
    is_tree s' root (ins_up t ((d, Red, p, v) # (d', Black, g, u) # k)) \<and>
    touches (set (inorder (plug t ((d, Red, p, v) # (d', Black, g, u) # k)))) root s s'"
proof (cases "d = d'")
  case True
  have "t \<noteq> Tip" using t by auto
  moreover have "tree_at s root (join d' Black (join d' Red t p v) g u) k"
    using at True tree_at_plug [of s root t "[(d, Red, p, v), (d', Black, g, u)]" k] by simp
  ultimately show ?thesis
    using insert_rotate_outer [of s root d' Black t p v g u k] True assms(4,5)
    by (auto simp: is_tree_plug inorder_plug set_frame_nodes Un_ac)
next
  case False
  then have d: "d = opp d'" by (simp add: side_neq)
  obtain b n e where b: "t = join d' Red b n e" using t(1) tree_join_cases [of t d'] by auto
  have "tree_at s root (join d' Black (join d' Red v p (join d' Red b n e)) g u) k"
    using at d tree_at_plug [of s root t "[(d, Red, p, v), (d', Black, g, u)]" k] by (simp add: b)
  from insert_rotate_inner [OF this] show ?thesis
    using t(2) d assms(4) by (auto simp: b is_tree_plug inorder_plug set_frame_nodes Un_ac)
qed

lemma insert_loop_rotate:
  assumes at: "tree_at s root t ((d, Red, p, v) # (d', Black, g, u) # k)" and "col u = Black"
  shows "insert_loop rot root (rootp t) p s = insert_rotate rot root d' (rootp t) p g s"
  using at assms(2) insert_loop_side [OF at] red_child_shape [of s g u]
  by (subst insert_loop.simps) (simp add: tree_at_def)

lemma insert_loop_recolour:
  assumes at: "tree_at s root t ((d, Red, p, v) # (d', Black, g, u) # k)" and "col u = Red"
  shows "\<exists>s'. insert_loop rot root (rootp t) p s = insert_loop rot root g (up k) s' \<and>
    tree_at s' root (join d' Red (join d Black t p v) g (paint Black u)) k \<and>
    touches (set (inorder (plug t ((d, Red, p, v) # (d', Black, g, u) # k)))) root s s'"
proof -
  obtain l x r where u: "u = Nd Red l x r" using assms(2) by (cases u) auto
  let ?s = "s\<lparr>rb_nodes := (rb_nodes s)(x \<mapsto> cell L (g OR bits Black) (rootp l) (rootp r),
    p \<mapsto> cell d (g OR bits Black) (rootp t) (rootp v), g \<mapsto> cell d' (up k OR bits Red) p x)\<rparr>"
  have d: "distinct [x, p, g]" and g: "up k AND 3 = 0" using at by (auto simp: tree_at_def u dest: frames_good)
  have N: "rb_nodes s x = Some (cell L g (rootp l) (rootp r))" "rb_nodes s p = Some (cell d g (rootp t) (rootp v))"
    "rb_nodes s g = Some (cell d' (up k OR bits Black) p x)"
    using at by (simp_all add: tree_at_def u)
  have "insert_loop rot root (rootp t) p s = insert_loop rot root g (up k) ?s"
    using at N d g insert_loop_side [OF at] red_child_shape [of s g u]
    by (subst insert_loop.simps) (auto simp: tree_at_def u rb_writes bits_colors Let_def)
  moreover have "tree_at ?s root (join d' Red (join d Black t p v) g (paint Black u)) k"
    using at by (auto simp: tree_at_def u)
  moreover have "touches (set (inorder (plug t ((d, Red, p, v) # (d', Black, g, u) # k)))) root s ?s"
    by (auto simp: touches_def inorder_plug u)
  ultimately show ?thesis by blast
qed

text \<open>The loop refines the recursion on the frames.\<close>

lemma insert_loop_refines:
  "tree_at s root t k \<Longrightarrow> col t = Red \<Longrightarrow> red_ok t \<Longrightarrow> frames_red k \<Longrightarrow>
   \<exists>s'. insert_loop rot root (rootp t) (up k) s = Some s' \<and> is_tree s' root (ins_up t k) \<and>
     touches (set (inorder (plug t k))) root s s'"
proof (induction t k arbitrary: s rule: ins_up.induct)
  case (1 t)
  then obtain l x r where t: "t = Nd Red l x r" by (cases t) auto
  let ?s = "s\<lparr>rb_nodes := (rb_nodes s)(x \<mapsto> cell L (0 OR bits Black) (rootp l) (rootp r))\<rparr>"
  have "insert_loop rot root (rootp t) (up []) s = Some ?s"
    using 1(1) by (simp add: t insert_loop.simps rb_writes tree_at_def bits_colors)
  moreover have "is_tree ?s root (ins_up t [])" using 1(1) by (auto simp: t is_tree_def tree_at_def)
  moreover have "touches (set (inorder (plug t []))) root s ?s" by (simp add: t touches_def)
  ultimately show ?case by blast
next
  case (2 t d c p u)
  have c: "c = Black" using 2(4) by (cases c) auto
  have "insert_loop rot root (rootp t) (up [(d, c, p, u)]) s = Some s"
    using 2(1) c by (simp add: insert_loop.simps tree_at_def)
  moreover have "is_tree s root (ins_up t [(d, c, p, u)])"
    using 2(1) is_tree_plug [of s root t "[(d, c, p, u)]"] by simp
  ultimately show ?case by auto
next
  case (3 t d c p v d' c' g u k)
  show ?case
  proof (cases c)
    case Black
    have "insert_loop rot root (rootp t) (up ((d, c, p, v) # (d', c', g, u) # k)) s = Some s"
      using 3(2) Black by (simp add: insert_loop.simps tree_at_def)
    moreover have "is_tree s root (ins_up t ((d, c, p, v) # (d', c', g, u) # k))"
      using 3(2) Black is_tree_plug [of s root t "(d, c, p, v) # (d', c', g, u) # k"] by (simp del: plug.simps)
    ultimately show ?thesis by auto
  next
    case Red
    then have cs: "c' = Black" "col v = Black" "frames_red k" "red_ok u" "red_ok v" using 3(5) by auto
    have at: "tree_at s root t ((d, Red, p, v) # (d', Black, g, u) # k)" using 3(2) Red cs(1) by simp
    show ?thesis
    proof (cases "col u")
      case R: Red
      from insert_loop_recolour [OF at R] obtain s1 where s1: "insert_loop rot root (rootp t) p s = insert_loop rot root g (up k) s1"
        "tree_at s1 root (join d' Red (join d Black t p v) g (paint Black u)) k"
        "touches (set (inorder (plug t ((d, Red, p, v) # (d', Black, g, u) # k)))) root s s1" by blast
      have "red_ok (join d' Red (join d Black t p v) g (paint Black u))"
        using 3(4) cs by (cases u) auto
      then obtain s2 where s2: "insert_loop rot root g (up k) s1 = Some s2"
        "is_tree s2 root (ins_up (join d' Red (join d Black t p v) g (paint Black u)) k)"
        "touches (set (inorder (plug (join d' Red (join d Black t p v) g (paint Black u)) k))) root s1 s2"
        using 3(1) [OF _ R s1(2)] Red cs(3) by auto
      moreover have "inorder (plug (join d' Red (join d Black t p v) g (paint Black u)) k) =
          inorder (plug t ((d, Red, p, v) # (d', Black, g, u) # k))"
        by (simp add: inorder_plug, intro inorder_join_cong) simp_all
      ultimately show ?thesis
        using s1(1,3) Red R cs(1) by (auto intro: touches_trans)
    next
      case B: Black
      have "col v = Black" using cs(2) .
      from insert_rotate_refines [OF at 3(3,4) B this] show ?thesis using insert_loop_rotate [OF at B] Red cs(1) by auto
    qed
  qed
qed

end

interpretation dummy: rb_rotation dummy_rotate
  by unfold_locales (simp add: dummy_rotate_def)

interpretation aug: rb_rotation "aug_rotate rbcompute" for rbcompute
  by unfold_locales (simp add: aug_rotate_def Let_def)

section \<open>Insertion of a node\<close>

fun slot_of :: "u32 \<Rightarrow> rb_frame list \<Rightarrow> rb_slot" where
  "slot_of root [] = Root root"
| "slot_of root ((d, c, p, s) # k) = Child d p"

lemma link_tree:
  assumes "tree_at s root Tip k" and "rb_nodes s x = Some n" and "good_ptr x" and "x \<notin> set (frame_nodes k)"
  shows "\<exists>t. rb_link_node x (up k) (slot_of root k) s = Some t \<and> tree_at t root (Nd Red Tip x Tip) k \<and>
    touches (insert x (set (frame_nodes k))) root s t"
proof -
  have n: "n\<lparr>rb_parent_color := up k, rb_left := 0, rb_right := 0\<rparr> = cell L (up k) 0 0"
    by (cases n) (simp add: cell_def)
  show ?thesis
  proof (cases k rule: frame_nodes.cases)
    case 1
    then show ?thesis
      using assms n by (simp add: rb_link_node_def write_slot_def upd_rb_def tree_at_def touches_def)
  next
    case (2 d c p u k')
    then show ?thesis
      using assms n by (auto simp: rb_link_node_def write_slot_def upd_rb_def tree_at_def touches_def)
  qed
qed

primrec rb_height :: "rb_tree \<Rightarrow> nat" where
  "rb_height Tip = 0"
| "rb_height (Nd c l x r) = Suc (max (rb_height l) (rb_height r))"

lemma height_bheight: "red_ok t \<Longrightarrow> balanced t \<Longrightarrow> rb_height t \<le> 2 * bheight t + (if col t = Red then 1 else 0)"
proof (induction t)
  case (Nd c l x r)
  then show ?case by (cases c) (auto split: if_splits)
qed simp

lemma bheight_size: "balanced t \<Longrightarrow> 2 ^ bheight t \<le> Suc (length (inorder t))"
  by (induction t) auto

text \<open>The bound that the head comment of \<^verbatim>\<open>rbtree.c\<close> draws from the properties.\<close>

lemma red_black_height: "red_black t \<Longrightarrow> 2 ^ rb_height t \<le> Suc (length (inorder t)) ^ 2"
proof -
  assume r: "red_black t"
  then have "(2 :: nat) ^ rb_height t \<le> 2 ^ (2 * bheight t)"
    using height_bheight [of t] by (intro power_increasing) (auto simp: red_black_def)
  also have "\<dots> = (2 ^ bheight t) ^ 2" by (simp add: power_mult power2_eq_square mult_2 power_add)
  also have "\<dots> \<le> Suc (length (inorder t)) ^ 2"
    using r bheight_size [of t] by (intro power_mono) (auto simp: red_black_def)
  finally show ?thesis .
qed

text \<open>
  C21.  Let a red-black tree hang at a root, and a node that is not part of it be linked at an empty
  position of the tree.  Then \<open>rb_insert_color\<close> ends, and what hangs at the root is a red-black
  tree again: the nodes are in the order they had, with the new node at its position, and the height
  is at most twice the logarithm of the number of nodes plus one.  No other node and no other root changes.
\<close>

theorem rb_insert_color_correct:
  assumes "is_tree s root (plug Tip k)" and "red_black (plug Tip k)" and "rb_nodes s x = Some n" and "good_ptr x"
    and "x \<notin> set (before k @ after k)"
  shows "\<exists>s' t. do { s \<leftarrow> rb_link_node x (up k) (slot_of root k) s; rb_insert_color x root s } = Some s' \<and>
    is_tree s' root t \<and> red_black t \<and> inorder t = before k @ x # after k \<and>
    2 ^ rb_height t \<le> Suc (length (inorder t)) ^ 2 \<and> touches (insert x (set (before k @ after k))) root s s'"
proof -
  have k: "frames_red k" "frames_bal 0 k" using assms(2) by (auto simp: red_black_plug)
  have "tree_at s root Tip k" using assms(1) by (simp add: is_tree_plug)
  from link_tree [OF this assms(3,4)] assms(5) obtain s1 where s1: "rb_link_node x (up k) (slot_of root k) s = Some s1"
    "tree_at s1 root (Nd Red Tip x Tip) k" "touches (insert x (set (before k @ after k))) root s s1"
    by (auto simp: set_frame_nodes)
  from dummy.insert_loop_refines [OF this(2)] k obtain s2 where s2: "insert_loop dummy_rotate root x (up k) s1 = Some s2"
    "is_tree s2 root (ins_up (Nd Red Tip x Tip) k)" "touches (set (inorder (plug (Nd Red Tip x Tip) k))) root s1 s2" by auto
  have "rb_nodes s1 x = Some (cell L (up k) 0 0)" using s1(2) by (simp add: tree_at_def)
  then have "rb_insert_color x root s1 = Some s2" using s2(1) by (simp add: rb_insert_color_def rb_insert_def)
  moreover have t: "red_black (ins_up (Nd Red Tip x Tip) k)" by (rule red_black_ins_up) (use k in simp_all)
  moreover have "inorder (ins_up (Nd Red Tip x Tip) k) = before k @ x # after k" by (simp add: inorder_ins_up inorder_plug)
  moreover have "touches (insert x (set (before k @ after k))) root s s2"
    using touches_trans [OF s1(3)] s2(3) by (simp add: inorder_plug)
  ultimately show ?thesis using s1(1) s2(2) red_black_height [OF t] by (intro exI [of _ s2] exI) auto
qed

text \<open>Linking a third node below the red child of a black root.\<close>

definition demo_rb :: rb_sys where
  "demo_rb = \<lparr>rb_nodes = (\<lambda>_. None)(16 := Some \<lparr>rb_parent_color = 1, rb_right = 32, rb_left = 0\<rparr>,
      32 := Some \<lparr>rb_parent_color = 16, rb_right = 0, rb_left = 0\<rparr>, 48 := Some \<lparr>rb_parent_color = 0, rb_right = 0, rb_left = 0\<rparr>),
    rb_roots = (\<lambda>_. 0)(4 := 16)\<rparr>"

lemma demo_rb_tree:
  "is_tree demo_rb 4 (Nd Black Tip 16 (Nd Red Tip 32 Tip))" "red_black (Nd Black Tip 16 (Nd Red Tip 32 Tip))"
  by (simp_all add: is_tree_def tree_at_def demo_rb_def cell_def bits_def RB_RED_def RB_BLACK_def red_black_def)

theorem rb_insert_color_correct_witness:
  "\<exists>s' t. do { s \<leftarrow> rb_link_node 48 32 (Child R 32) demo_rb; rb_insert_color 48 4 s } = Some s' \<and>
    is_tree s' 4 t \<and> red_black t \<and> inorder t = [16, 32, 48]"
  using rb_insert_color_correct [of demo_rb 4 "[(R, Red, 32, Tip), (R, Black, 16, Tip)]" 48] demo_rb_tree
  by (simp add: join_def demo_rb_def) blast

end
