(* ===== verification/Rbtree_Erase.thy ===== *)
theory Rbtree_Erase
  imports Rbtree_Insert
begin

text \<open>
  Removal.  The loop of \<^verbatim>\<open>____rb_erase_color\<close> refines the recursion \<open>del_up\<close> along the frames, which makes up
  for the black node that one side has lost; the unlinking of a node with two children moves
  its successor to its place.
\<close>

lemma not_Black [simp]: "c \<noteq> Black \<longleftrightarrow> c = Red"
  by (cases c) simp_all

section \<open>The recursion on trees\<close>

text \<open>The cases that end the loop, below a black sibling \<open>u\<close>.\<close>

definition del_end :: "rb_tree \<Rightarrow> side \<Rightarrow> rb_col \<Rightarrow> u32 \<Rightarrow> rb_tree \<Rightarrow> rb_frame list \<Rightarrow> rb_tree" where
  "del_end t d c p u k =
     (let a = sub d u; b = sub (opp d) u
      in if col b = Red then plug (join d c (join d Black t p a) (rootp u) (paint Black b)) k
         else if col a = Red
         then plug (join d c (join d Black t p (sub d a)) (rootp a) (join d Black (sub (opp d) a) (rootp u) b)) k
         else plug (join d Black t p (paint Red u)) k)"

fun del_up :: "rb_tree \<Rightarrow> rb_frame list \<Rightarrow> rb_tree" where
  "del_up t [] = t"
| "del_up t ((d, c, p, u) # k) =
     (if col u = Red then del_end t d Red p (sub d u) ((d, c, rootp u, sub (opp d) u) # k)
      else if col (sub d u) = Black \<and> col (sub (opp d) u) = Black \<and> c = Black then del_up (join d Black t p (paint Red u)) k
      else del_end t d c p u k)"

lemma inorder_del_end:
  assumes "u \<noteq> Tip"
  shows "inorder (del_end t d c p u k) = inorder (plug (join d c t p u) k)"
proof -
  obtain cu a x b where u: "u = join d cu a x b" using assms tree_join_cases [of u d] by auto
  show ?thesis
  proof (cases "col b = Black \<and> col a = Red")
    case True
    then obtain ca a1 y a2 where "a = join d ca a1 y a2" using tree_join_cases [of a d] by auto
    then show ?thesis using True by (cases d) (simp_all add: u del_end_def inorder_plug join_def sub_def)
  next
    case False
    then show ?thesis
      by (cases "col b"; cases d) (simp_all add: u del_end_def inorder_plug join_def sub_def)
  qed
qed

lemma inorder_del_up:
  "frames_bal (Suc (bheight t)) k \<Longrightarrow> frames_red k \<Longrightarrow> inorder (del_up t k) = inorder (plug t k)"
proof (induction t k rule: del_up.induct)
  case (2 t d c p u k)
  have "bheight u = Suc (bheight t)" using 2(2) by simp
  then have "u \<noteq> Tip" by auto
  then obtain cu a x b where u: "u = join d cu a x b" using tree_join_cases [of u d] by auto
  show ?case
  proof (cases cu)
    case Red
    then have "a \<noteq> Tip" using 2(2) by (auto simp: u bheight_join)
    then show ?thesis using Red by (cases d) (simp_all add: u inorder_del_end inorder_plug join_def sub_def)
  next
    case Black
    have h: "bheight (paint Red u) = bheight t" using 2(2) Black by (auto simp: u bheight_join)
    show ?thesis
    proof (cases "col a = Black \<and> col b = Black \<and> c = Black")
      case True
      then have "inorder (del_up (join d Black t p (paint Red u)) k) = inorder (plug (join d Black t p (paint Red u)) k)"
        using 2 Black h by (simp add: u bheight_join)
      then show ?thesis using True Black by (cases d) (simp_all add: u inorder_plug join_def sub_def)
    next
      case False
      then show ?thesis using Black \<open>u \<noteq> Tip\<close> by (auto simp: u inorder_del_end)
    qed
  qed
qed simp

lemma red_black_del_end:
  assumes "red_ok t" "col t = Black" "balanced t" "frames_red ((d, c, p, u) # k)" "frames_bal (Suc (bheight t)) ((d, c, p, u) # k)"
    and "col u = Black" and "c = Red \<or> col (sub d u) = Red \<or> col (sub (opp d) u) = Red"
  shows "red_black (del_end t d c p u k)"
proof -
  have "u \<noteq> Tip" using assms(5) by auto
  then obtain a x b where u: "u = join d Black a x b" using assms(6) tree_join_cases [of u d] by auto
  have h: "bheight a = bheight t" "bheight b = bheight t" "balanced a" "balanced b" using assms(5) by (auto simp: u bheight_join)
  show ?thesis
  proof (cases "col b")
    case Red
    then obtain b1 z b2 where "b = join d Red b1 z b2" using tree_join_cases [of b d] by auto
    then show ?thesis
      using assms h by (cases c) (auto simp: u del_end_def red_black_plug bheight_join)
  next
    case Black
    then show ?thesis
    proof (cases "col a")
      case Red
      then obtain a1 y a2 where "a = join d Red a1 y a2" using tree_join_cases [of a d] by auto
      then show ?thesis
        using assms h Black by (cases c) (auto simp: u del_end_def red_black_plug bheight_join)
    next
      case B: Black
      then show ?thesis
        using assms h Black by (auto simp: u del_end_def red_black_plug bheight_join)
    qed
  qed
qed

lemma red_black_del_up:
  "red_ok t \<Longrightarrow> col t = Black \<Longrightarrow> balanced t \<Longrightarrow> frames_red k \<Longrightarrow> frames_bal (Suc (bheight t)) k \<Longrightarrow> red_black (del_up t k)"
proof (induction t k rule: del_up.induct)
  case (1 t)
  then show ?case by (simp add: red_black_def)
next
  case (2 t d c p u k)
  have "bheight u = Suc (bheight t)" using 2(6) by simp
  then have "u \<noteq> Tip" by auto
  then obtain cu a x b where u: "u = join d cu a x b" using tree_join_cases [of u d] by auto
  show ?case
  proof (cases cu)
    case Red
    have "red_black (del_end t d Red p a ((d, c, x, b) # k))"
      using 2(2-6) Red by (intro red_black_del_end) (auto simp: u bheight_join split: if_splits)
    then show ?thesis using Red by (simp add: u)
  next
    case Black
    have h: "bheight (paint Red u) = bheight t" using 2(6) Black by (auto simp: u bheight_join)
    show ?thesis
    proof (cases "col a = Black \<and> col b = Black \<and> c = Black")
      case True
      then have "red_black (del_up (join d Black t p (paint Red u)) k)"
        using 2 Black h by (simp add: u bheight_join)
      then show ?thesis using True Black by (simp add: u)
    next
      case False
      then have "red_black (del_end t d c p u k)"
        using 2(2-6) Black by (intro red_black_del_end) (auto simp: u)
      then show ?thesis using False Black by (auto simp: u)
    qed
  qed
qed

section \<open>The rotations\<close>

context rb_rotation
begin

text \<open>
  Case 4.  As in \<open>rotation\<close>, the pointer \<open>w\<close> of \<open>p\<close> that is overwritten does not matter, nor does the
  parent in the sibling \<open>x\<close>.
\<close>

lemma erase_rotate_cells:
  assumes p: "rb_nodes s p = Some (cell d (up k OR bits c) h w)" and x: "rb_nodes s x = Some (cell d pc (rootp a) (rootp b))"
    and a: "shape (rb_nodes s) q a" "q AND 3 = 0" and b: "shape (rb_nodes s) q' b" "b \<noteq> Tip"
    and f: "frames (rb_nodes s) (rb_roots s root) p k" "p \<noteq> 0"
    and dist: "distinct (p # x # inorder a @ inorder b @ frame_nodes k)"
  shows "\<exists>t. erase_rotate rot root d (rootp b) x p s = Some t \<and>
    rb_nodes t p = Some (cell d (x OR bits Black) h (rootp a)) \<and> rb_nodes t x = Some (cell d (up k OR bits c) p (rootp b)) \<and>
    shape (rb_nodes t) p a \<and> shape (rb_nodes t) x (paint Black b) \<and> frames (rb_nodes t) (rb_roots t root) x k \<and>
    touches (set (p # x # inorder a @ inorder b @ frame_nodes k)) root s t"
proof -
  let ?s = "s\<lparr>rb_nodes := (rb_nodes s)(p \<mapsto> cell d (up k OR bits c) h (rootp a), x \<mapsto> cell d pc p (rootp b))\<rparr>"
  have p': "upd_rb p (set_child (opp d) (rootp a)) s = Some (s\<lparr>rb_nodes := (rb_nodes s)(p \<mapsto> cell d (up k OR bits c) h (rootp a))\<rparr>)"
    using p by (simp add: upd_rb_node)
  have x': "upd_rb x (set_child d p) (s\<lparr>rb_nodes := (rb_nodes s)(p \<mapsto> cell d (up k OR bits c) h (rootp a))\<rparr>) = Some ?s"
    using x dist by (auto simp: upd_rb_def)
  have sb: "shape (rb_nodes ?s) q' b" "rootp b \<noteq> 0" using b dist by (simp_all add: shape_ptr [OF b(1)])
  obtain t1 where t1: "rb_set_parent_color (rootp b) x RB_BLACK ?s = Some t1" "shape (rb_nodes t1) x (paint Black b)"
    "touches (set (inorder b)) root ?s t1" "rb_roots t1 = rb_roots ?s"
    using reparent_black [OF sb(1), of x root] dist sb(2) by (auto simp: set_child_parent_color_def)
  have "shape (rb_nodes ?s) q a" using a dist by simp
  then have "shape (rb_nodes t1) q a" by (rule touches_shape [OF t1(3), rotated]) (use dist in auto)
  from reparent [OF this _ a(2), of p root] dist obtain t2 where t2:
    "(if rootp a \<noteq> 0 then rb_set_parent (rootp a) p t1 else Some t1) = Some t2" "shape (rb_nodes t2) p a"
    "touches (set (inorder a)) root t1 t2" "rb_roots t2 = rb_roots t1" by auto
  have tt: "touches (set (inorder a) \<union> set (inorder b)) root ?s t2"
    by (rule touches_trans [OF touches_mono [OF t1(3)] touches_mono [OF t2(3)]]) auto
  have "frames (rb_nodes ?s) (rb_roots ?s root) p k" using f dist by simp
  then have "frames (rb_nodes t2) (rb_roots t2 root) p k"
    by (rule touches_frames [OF tt, rotated 2]) (use dist t2(4) t1(4) in auto)
  moreover have "rb_nodes t2 p = Some (cell d (up k OR bits c) h (rootp a))" "rb_nodes t2 x = Some (cell d pc p (rootp b))"
    using touches_node [OF tt, of p] touches_node [OF tt, of x] dist by auto
  ultimately obtain t3 where t3: "rb_rotate_set_parents p x root RB_BLACK t2 = Some t3" "frames (rb_nodes t3) (rb_roots t3 root) x k"
    "rb_nodes t3 p = Some (cell d (x OR bits Black) h (rootp a))" "rb_nodes t3 x = Some (cell d (up k OR bits c) p (rootp b))"
    "touches (insert p (insert x (set (frame_nodes k)))) root t2 t3"
    using rotate_set_parents_frames [of t2 root p k x d c h "rootp a" d pc p "rootp b" RB_BLACK] dist f(2)
    by (auto simp: bits_colors)
  obtain t4 where t4: "rot p x t3 = Some t4" "rb_nodes t4 = rb_nodes t3" "rb_roots t4 = rb_roots t3" using keeps by blast
  have "erase_rotate rot root d (rootp b) x p s = Some t4"
    using x p' x' t1(1) t2(1) t3(1) t4(1) by (cases "rootp a = 0") (simp_all add: erase_rotate_def Let_def)
  moreover have "shape (rb_nodes t2) x (paint Black b)" by (rule touches_shape [OF t2(3) _ t1(2)]) (use dist in auto)
  then have "shape (rb_nodes t3) x (paint Black b)" by (rule touches_shape [OF t3(5), rotated]) (use dist in auto)
  moreover have "shape (rb_nodes t3) p a" by (rule touches_shape [OF t3(5) _ t2(2)]) (use dist in auto)
  moreover have "touches (set (p # x # inorder a @ inorder b @ frame_nodes k)) root s t3"
    using tt t3(5) unfolding touches_def by auto
  ultimately show ?thesis
    using t3(2-4) by (intro exI [of _ t4]) (simp add: t4(2,3) touches_eq [OF t4(2,3)])
qed

lemma erase_rotate_single:
  assumes t: "tree_at s root (join d c t p (join d cu a x b)) k" and "b \<noteq> Tip"
  shows "\<exists>s'. erase_rotate rot root d (rootp b) x p s = Some s' \<and>
    tree_at s' root (join d c (join d Black t p a) x (paint Black b)) k \<and>
    touches (set (inorder (join d c t p (join d cu a x b)) @ frame_nodes k)) root s s'"
proof -
  have N: "rb_nodes s p = Some (cell d (up k OR bits c) (rootp t) x)" "rb_nodes s x = Some (cell d (p OR bits cu) (rootp a) (rootp b))"
    "shape (rb_nodes s) x a" "x AND 3 = 0" "shape (rb_nodes s) x b" "frames (rb_nodes s) (rb_roots s root) p k" "p \<noteq> 0"
    "shape (rb_nodes s) p t" and g: "good_ptr p" "good_ptr x"
    using t by (simp_all add: tree_at_def)
  have d: "distinct (p # x # inorder a @ inorder b @ frame_nodes k)"
    "set (inorder t) \<inter> set (p # x # inorder a @ inorder b @ frame_nodes k) = {}"
    using t by (auto simp: tree_at_def)
  from erase_rotate_cells [OF N(1-5) assms(2) N(6,7) d(1)] obtain s' where s': "erase_rotate rot root d (rootp b) x p s = Some s'"
    "rb_nodes s' p = Some (cell d (x OR bits Black) (rootp t) (rootp a))" "rb_nodes s' x = Some (cell d (up k OR bits c) p (rootp b))"
    "shape (rb_nodes s') p a" "shape (rb_nodes s') x (paint Black b)" "frames (rb_nodes s') (rb_roots s' root) x k"
    "touches (set (p # x # inorder a @ inorder b @ frame_nodes k)) root s s'" by blast
  have "tree_at s' root (join d c (join d Black t p a) x (paint Black b)) k"
  proof (rule tree_atI)
    have "shape (rb_nodes s') p t" by (rule touches_shape [OF s'(7) d(2) N(8)])
    then show "shape (rb_nodes s') (up k) (join d c (join d Black t p a) x (paint Black b))"
      using s'(2-5) g by simp
    show "frames (rb_nodes s') (rb_roots s' root) (rootp (join d c (join d Black t p a) x (paint Black b))) k"
      using s'(6) by simp
    have "inorder (join d c (join d Black t p a) x (paint Black b)) = inorder (join d c t p (join d cu a x b))"
      by (cases d) (simp_all add: join_def)
    then show "distinct (inorder (join d c (join d Black t p a) x (paint Black b)) @ frame_nodes k)"
      using t by (simp only: tree_at_def)
  qed
  moreover have "touches (set (inorder (join d c t p (join d cu a x b)) @ frame_nodes k)) root s s'"
    by (rule touches_mono [OF s'(7)]) auto
  ultimately show ?thesis using s'(1) by blast
qed

text \<open>Case 3 followed by case 4.\<close>

lemma erase_rotate_double:
  assumes t: "tree_at s root (join d c t p (join d Black (join d Red a1 y a2) x b)) k" and "col a2 = Black"
  shows "\<exists>s'. erase_double_rotate rot root d y x p s = Some s' \<and>
    tree_at s' root (join d c (join d Black t p a1) y (join d Black a2 x b)) k \<and>
    touches (set (inorder (join d c t p (join d Black (join d Red a1 y a2) x b)) @ frame_nodes k)) root s s'"
proof -
  have N: "rb_nodes s p = Some (cell d (up k OR bits c) (rootp t) x)" "rb_nodes s x = Some (cell d (p OR bits Black) y (rootp b))"
    "rb_nodes s y = Some (cell d x (rootp a1) (rootp a2))"
    "shape (rb_nodes s) y a1" "shape (rb_nodes s) y a2" "shape (rb_nodes s) x b" "frames (rb_nodes s) (rb_roots s root) p k"
    "shape (rb_nodes s) p t" and g: "good_ptr p" "good_ptr x" "good_ptr y"
    using t by (simp_all add: tree_at_def)
  have d: "distinct [p, x, y]" "distinct (inorder a2)" "{p, x, y} \<inter> (set (inorder a2) \<union> set (inorder b) \<union> set (inorder a1) \<union> set (frame_nodes k)) = {}"
    "distinct (p # y # inorder a1 @ inorder (join d Black a2 x b) @ frame_nodes k)"
    "set (inorder t) \<inter> set (p # y # inorder a1 @ inorder (join d Black a2 x b) @ frame_nodes k) = {}"
    using t by (auto simp: tree_at_def)
  let ?s = "s\<lparr>rb_nodes := (rb_nodes s)(x \<mapsto> cell d (p OR bits Black) (rootp a2) (rootp b), y \<mapsto> cell d x (rootp a1) x,
    p \<mapsto> cell d (up k OR bits c) (rootp t) y)\<rparr>"
  have 1: "upd_rb x (set_child d (rootp a2)) s = Some (s\<lparr>rb_nodes := (rb_nodes s)(x \<mapsto> cell d (p OR bits Black) (rootp a2) (rootp b))\<rparr>)"
    using N(2) by (simp add: upd_rb_node)
  have 2: "upd_rb y (set_child (opp d) x) (s\<lparr>rb_nodes := (rb_nodes s)(x \<mapsto> cell d (p OR bits Black) (rootp a2) (rootp b))\<rparr>) =
      Some (s\<lparr>rb_nodes := (rb_nodes s)(x \<mapsto> cell d (p OR bits Black) (rootp a2) (rootp b), y \<mapsto> cell d x (rootp a1) x)\<rparr>)"
    using N(3) d(1) by (auto simp: upd_rb_def)
  have 3: "upd_rb p (set_child (opp d) y) (s\<lparr>rb_nodes := (rb_nodes s)(x \<mapsto> cell d (p OR bits Black) (rootp a2) (rootp b), y \<mapsto> cell d x (rootp a1) x)\<rparr>) =
      Some ?s"
    using N(1) d(1) by (auto simp: upd_rb_def)
  have "shape (rb_nodes ?s) y a2" using N(5) d(3) by simp
  from reparent_black [OF this d(2), of x root] assms(2) obtain t1 where t1:
    "set_child_parent_color (rootp a2) x RB_BLACK ?s = Some t1" "shape (rb_nodes t1) x a2"
    "touches (set (inorder a2)) root ?s t1" "rb_roots t1 = rb_roots ?s" by auto
  obtain t2 where t2: "rot x y t1 = Some t2" "rb_nodes t2 = rb_nodes t1" "rb_roots t2 = rb_roots t1" using keeps by blast
  have tt: "touches (insert p (insert x (insert y (set (inorder a2))))) root s t2"
    using t1(3,4) unfolding touches_def by (simp add: t2(2,3))
  have at: "rb_nodes t2 p = Some (cell d (up k OR bits c) (rootp t) y)"
    "rb_nodes t2 y = Some (cell d x (rootp a1) (rootp (join d Black a2 x b)))"
    "rb_nodes t2 x = Some (cell d (p OR bits Black) (rootp a2) (rootp b))"
    using touches_node [OF t1(3), of p] touches_node [OF t1(3), of x] touches_node [OF t1(3), of y] d(1,3) by (auto simp: t2(2))
  have "shape (rb_nodes t2) y a1" by (rule touches_shape [OF tt _ N(4)]) (use t in \<open>auto simp: tree_at_def\<close>)
  moreover have "shape (rb_nodes t2) x b" by (rule touches_shape [OF tt _ N(6)]) (use t in \<open>auto simp: tree_at_def\<close>)
  then have "shape (rb_nodes t2) p (join d Black a2 x b)" using at(3) t1(2) g by (simp add: t2(2))
  moreover have "frames (rb_nodes t2) (rb_roots t2 root) p k"
    by (rule touches_frames [OF tt _ _ N(7)]) (use t t1(4) in \<open>auto simp: tree_at_def t2(3)\<close>)
  ultimately obtain s' where s': "erase_rotate rot root d x y p t2 = Some s'"
    "rb_nodes s' p = Some (cell d (y OR bits Black) (rootp t) (rootp a1))" "rb_nodes s' y = Some (cell d (up k OR bits c) p x)"
    "shape (rb_nodes s') p a1" "shape (rb_nodes s') y (join d Black a2 x b)" "frames (rb_nodes s') (rb_roots s' root) y k"
    "touches (set (p # y # inorder a1 @ inorder (join d Black a2 x b) @ frame_nodes k)) root t2 s'"
    using erase_rotate_cells [OF at(1,2) _ _ _ join_Tip _ _ d(4), where q = y and q' = p] g by auto
  have "erase_double_rotate rot root d y x p s = Some s'"
    using N(3) 1 2 3 t1(1) t2(1) s'(1) by (simp add: erase_double_rotate_def Let_def)
  moreover have "tree_at s' root (join d c (join d Black t p a1) y (join d Black a2 x b)) k"
  proof (rule tree_atI)
    have "shape (rb_nodes t2) p t" by (rule touches_shape [OF tt _ N(8)]) (use t in \<open>auto simp: tree_at_def\<close>)
    then have "shape (rb_nodes s') p t" by (rule touches_shape [OF s'(7) d(5)])
    then show "shape (rb_nodes s') (up k) (join d c (join d Black t p a1) y (join d Black a2 x b))"
      using s'(2-5) g by (simp del: shape_join add: shape_join [of _ _ d c] shape_join [of _ _ d Black t])
    show "frames (rb_nodes s') (rb_roots s' root) (rootp (join d c (join d Black t p a1) y (join d Black a2 x b))) k"
      using s'(6) by simp
    have "inorder (join d c (join d Black t p a1) y (join d Black a2 x b)) = inorder (join d c t p (join d Black (join d Red a1 y a2) x b))"
      by (cases d) (simp_all add: join_def)
    then show "distinct (inorder (join d c (join d Black t p a1) y (join d Black a2 x b)) @ frame_nodes k)"
      using t by (simp only: tree_at_def)
  qed
  moreover have "touches (set (inorder (join d c t p (join d Black (join d Red a1 y a2) x b)) @ frame_nodes k)) root s s'"
    by (rule touches_trans [OF touches_mono [OF tt] touches_mono [OF s'(7)]]) auto
  ultimately show ?thesis by blast
qed

text \<open>Case 1.\<close>

lemma erase_red_sibling_rotates:
  assumes t: "tree_at s root t ((d, c, p, join d Red a x b) # k)" and a: "a \<noteq> Tip" "col a = Black"
  shows "\<exists>s'. erase_red_sibling rot root d x p s = Some (rootp a, s') \<and> tree_at s' root t ((d, Red, p, a) # (d, c, x, b) # k) \<and>
    touches (set (inorder (plug t ((d, c, p, join d Red a x b) # k)))) root s s'"
proof -
  have N: "rb_nodes s p = Some (cell (opp d) (up k OR bits c) x (rootp t))" "rb_nodes s x = Some (cell (opp d) p (rootp b) (rootp a))"
    "shape (rb_nodes s) x a" "frames (rb_nodes s) (rb_roots s root) p k" "shape (rb_nodes s) p t" "shape (rb_nodes s) x b"
    and g: "good_ptr p" "good_ptr x"
    using t by (simp_all add: tree_at_def)
  have d: "distinct (p # x # inorder a @ frame_nodes k)"
    "set (inorder t) \<inter> set (p # x # inorder a @ frame_nodes k) = {}" "set (inorder b) \<inter> set (p # x # inorder a @ frame_nodes k) = {}"
    using t by (auto simp: tree_at_def)
  have ra: "rootp a \<noteq> 0" using a(1) N(3) by (simp add: shape_ptr)
  from rotation [OF N(1-3) a(2) N(4) d(1), where color = RB_RED] g(1)
  obtain t' where t': "\<And>f :: 'z rb_sys_scheme \<Rightarrow> (u32 \<times> 'z rb_sys_scheme) option.
      (do { s \<leftarrow> upd_rb p (set_child (opp d) (rootp a)) s; s \<leftarrow> upd_rb x (set_child d p) s;
        s \<leftarrow> set_child_parent_color (rootp a) p RB_BLACK s; s \<leftarrow> rb_rotate_set_parents p x root RB_RED s; f s }) = f t'"
    "rb_nodes t' p = Some (cell d x (rootp t) (rootp a))" "rb_nodes t' x = Some (cell d (up k OR bits c) p (rootp b))"
    "shape (rb_nodes t') p a" "frames (rb_nodes t') (rb_roots t' root) x k"
    "touches (set (p # x # inorder a @ frame_nodes k)) root s t'" by (auto simp: bits_colors)
  obtain t'' where t'': "rot p x t' = Some t''" "rb_nodes t'' = rb_nodes t'" "rb_roots t'' = rb_roots t'" using keeps by blast
  have "erase_red_sibling rot root d x p s = Some (rootp a, t'')"
    using N(2) g(1) t'(1) t''(1) ra by (simp add: erase_red_sibling_def Let_def set_child_parent_color_def)
  moreover have "tree_at t'' root t ((d, Red, p, a) # (d, c, x, b) # k)"
  proof (rule tree_atI)
    have "shape (rb_nodes t') p t" by (rule touches_shape [OF t'(6) d(2) N(5)])
    then show "shape (rb_nodes t'') (up ((d, Red, p, a) # (d, c, x, b) # k)) t" by (simp add: t''(2))
    have "shape (rb_nodes t') x b" by (rule touches_shape [OF t'(6) d(3) N(6)])
    then show "frames (rb_nodes t'') (rb_roots t'' root) (rootp t) ((d, Red, p, a) # (d, c, x, b) # k)"
      using t'(2-5) g by (simp add: t''(2,3))
    show "distinct (inorder t @ frame_nodes ((d, Red, p, a) # (d, c, x, b) # k))" using t by (auto simp: tree_at_def)
  qed
  moreover have "touches (set (inorder (plug t ((d, c, p, join d Red a x b) # k)))) root s t''"
    unfolding touches_eq [OF t''(2,3)] by (rule touches_mono [OF t'(6)]) (auto simp: inorder_plug set_frame_nodes)
  ultimately show ?thesis by blast
qed

lemma erase_red_sibling_black:
  "shape (rb_nodes s) p u \<Longrightarrow> p AND 3 = 0 \<Longrightarrow> u \<noteq> Tip \<Longrightarrow> col u = Black \<Longrightarrow>
     erase_red_sibling rot root d (rootp u) p s = Some (rootp u, s)"
  by (cases u) (simp_all add: erase_red_sibling_def)

lemma black_child_shape: "shape (rb_nodes s) q u \<Longrightarrow> q AND 3 = 0 \<Longrightarrow> black_child (rootp u) s = Some (col u = Black)"
  by (cases u) (simp_all add: black_child_def)

section \<open>The loop\<close>

text \<open>The rest of a pass, once the sibling is black.\<close>

definition erase_tail :: "u32 \<Rightarrow> side \<Rightarrow> u32 \<Rightarrow> u32 \<Rightarrow> 'z rb_sys_scheme \<Rightarrow> 'z rb_sys_scheme option" where
  "erase_tail root d sibling parent s = do {
     sb \<leftarrow> rb_nodes s sibling;
     let tmp1 = rb_child (opp d) sb;
     black1 \<leftarrow> black_child tmp1 s;
     if black1
     then do {
       let tmp2 = rb_child d sb;
       black2 \<leftarrow> black_child tmp2 s;
       if black2
       then do {
         s \<leftarrow> rb_set_parent_color sibling parent RB_RED s;
         p \<leftarrow> rb_nodes s parent;
         if rb_is_red p then rb_set_black parent s
         else do {
           let node = parent;
           let parent = rb_parent p;
           if parent \<noteq> 0 then erase_color_loop rot root node parent s else Some s
         }
       }
       else erase_double_rotate rot root d tmp2 sibling parent s
     }
     else erase_rotate rot root d tmp1 sibling parent s
   }"

lemma erase_loop_unfold:
  assumes "tree_at s root t ((d, c, p, u) # k)" and "u \<noteq> Tip"
  shows "erase_color_loop rot root (rootp t) p s =
    do { (sibling, s) \<leftarrow> erase_red_sibling rot root d (rootp u) p s; erase_tail root d sibling p s }"
proof -
  have p: "rb_nodes s p = Some (cell d (up k OR bits c) (rootp t) (rootp u))" using assms(1) by (simp add: tree_at_def)
  have "rootp t \<noteq> rootp u" using assms rootp_in [of t] rootp_in [of u] by (auto simp: tree_at_def shape_ptr)
  then have d: "(if rootp t \<noteq> rb_right (cell d (up k OR bits c) (rootp t) (rootp u)) then L else R) = d"
    by (cases d) (simp_all add: cell_def)
  show ?thesis
    unfolding erase_color_loop.simps [of rot root "rootp t" p s] p Option.bind.simps d Let_def cell_simps erase_tail_def ..
qed

lemma erase_tail_flip:
  assumes at: "tree_at s root t ((d, c, p, join d Black a x b) # k)" and "col a = Black" "col b = Black"
  shows "\<exists>s'. erase_tail root d x p s =
      (if c = Red \<or> k = [] then Some s' else erase_color_loop rot root p (up k) s') \<and>
    tree_at s' root (join d Black t p (join d Red a x b)) k \<and>
    touches (set (inorder (plug t ((d, c, p, join d Black a x b) # k)))) root s s'"
proof -
  let ?s = "s\<lparr>rb_nodes := (rb_nodes s)(x \<mapsto> cell d (p OR bits Red) (rootp a) (rootp b))\<rparr>"
  let ?s' = "s\<lparr>rb_nodes := (rb_nodes s)(x \<mapsto> cell d (p OR bits Red) (rootp a) (rootp b), p \<mapsto> cell d (up k OR bits Black) (rootp t) x)\<rparr>"
  have N: "rb_nodes s p = Some (cell d (up k OR bits c) (rootp t) x)" "rb_nodes s x = Some (cell d (p OR bits Black) (rootp a) (rootp b))"
    "black_child (rootp a) s = Some True" "black_child (rootp b) s = Some True"
    using at assms(2,3) black_child_shape [of s x a] black_child_shape [of s x b] by (simp_all add: tree_at_def)
  have g: "good_ptr p" "up k AND 3 = 0" "p \<noteq> x" "k \<noteq> [] \<longleftrightarrow> up k \<noteq> 0"
    using at by (auto simp: tree_at_def dest: frames_good) (cases k rule: up.cases; simp)+
  have "erase_tail root d x p s = (if c = Red \<or> k = [] then Some ?s' else erase_color_loop rot root p (up k) ?s')"
  proof (cases c)
    case Red
    then show ?thesis
      using N g(1-3) by (auto simp: erase_tail_def rb_writes bits_colors)
  next
    case Black
    then have "?s' = ?s" using N g by (auto simp: fun_eq_iff)
    then show ?thesis
      using N g Black by (auto simp: erase_tail_def rb_writes bits_colors)
  qed
  moreover have "tree_at ?s' root (join d Black t p (join d Red a x b)) k"
    using at by (auto simp: tree_at_def)
  moreover have "touches (set (inorder (plug t ((d, c, p, join d Black a x b) # k)))) root s ?s'"
    by (auto simp: touches_def inorder_plug)
  ultimately show ?thesis by blast
qed

lemma erase_tail_end:
  assumes at: "tree_at s root t ((d, c, p, u) # k)" and u: "u \<noteq> Tip" "col u = Black" "red_ok u"
    and "c = Red \<or> col (sub d u) = Red \<or> col (sub (opp d) u) = Red"
  shows "\<exists>s'. erase_tail root d (rootp u) p s = Some s' \<and> is_tree s' root (del_end t d c p u k) \<and>
    touches (set (inorder (plug t ((d, c, p, u) # k)))) root s s'"
proof -
  obtain a x b where j: "u = join d Black a x b" using u(1,2) tree_join_cases [of u d] by auto
  have N: "rb_nodes s x = Some (cell d (p OR bits Black) (rootp a) (rootp b))"
    "black_child (rootp a) s = Some (col a = Black)" "black_child (rootp b) s = Some (col b = Black)"
    using at black_child_shape [of s x a] black_child_shape [of s x b] by (simp_all add: tree_at_def j)
  have t: "tree_at s root (join d c t p u) k" using at tree_at_plug [of s root t "[(d, c, p, u)]" k] by simp
  have sets: "set (inorder (plug t ((d, c, p, u) # k))) = set (inorder (join d c t p u) @ frame_nodes k)"
    by (auto simp: inorder_plug set_frame_nodes)
  show ?thesis
  proof (cases "col b")
    case Red
    then have "b \<noteq> Tip" by auto
    from erase_rotate_single [OF t [unfolded j] this] show ?thesis
      using N Red unfolding sets by (simp add: erase_tail_def del_end_def j is_tree_plug)
  next
    case B: Black
    show ?thesis
    proof (cases "col a")
      case Red
      then obtain a1 y a2 where a: "a = join d Red a1 y a2" using tree_join_cases [of a d] by auto
      then have "col a2 = Black" using u(3) by (simp add: j)
      from erase_rotate_double [OF t [unfolded j a] this] show ?thesis
        using N Red B unfolding sets by (simp add: erase_tail_def del_end_def j a is_tree_plug)
    next
      case Black
      with B assms(5) have "c = Red" by (simp add: j)
      from erase_tail_flip [OF at [unfolded j] Black B] show ?thesis
        using Black B \<open>c = Red\<close> by (simp add: del_end_def j is_tree_plug del: plug.simps)
    qed
  qed
qed

lemma erase_loop_refines:
  "tree_at s root t k \<Longrightarrow> k \<noteq> [] \<Longrightarrow> balanced t \<Longrightarrow> frames_red k \<Longrightarrow> frames_bal (Suc (bheight t)) k \<Longrightarrow>
   \<exists>s'. erase_color_loop rot root (rootp t) (up k) s = Some s' \<and> is_tree s' root (del_up t k) \<and>
     touches (set (inorder (plug t k))) root s s'"
proof (induction t k arbitrary: s rule: del_up.induct)
  case (2 t d c p u k)
  have bu: "bheight u = Suc (bheight t)" "balanced u" using 2(6) by simp_all
  then have "u \<noteq> Tip" by auto
  then obtain cu a x b where u: "u = join d cu a x b" using tree_join_cases [of u d] by auto
  have lp: "erase_color_loop rot root (rootp t) p s =
      do { (sibling, s) \<leftarrow> erase_red_sibling rot root d x p s; erase_tail root d sibling p s }"
    using erase_loop_unfold [OF 2(2) \<open>u \<noteq> Tip\<close>] by (simp add: u)
  show ?case
  proof (cases cu)
    case Red
    have a: "a \<noteq> Tip" "col a = Black" "red_ok a" using bu Red 2(5) by (auto simp: u bheight_join)
    from erase_red_sibling_rotates [OF 2(2) [unfolded u Red] a(1,2)] obtain s1 where s1:
      "erase_red_sibling rot root d x p s = Some (rootp a, s1)" "tree_at s1 root t ((d, Red, p, a) # (d, c, x, b) # k)"
      "touches (set (inorder (plug t ((d, c, p, join d Red a x b) # k)))) root s s1" by blast
    have "inorder (plug t ((d, Red, p, a) # (d, c, x, b) # k)) = inorder (plug t ((d, c, p, join d Red a x b) # k))"
      by (cases d) (simp_all add: inorder_plug join_def)
    then show ?thesis
      using erase_tail_end [OF s1(2) a] s1(1,3) Red lp by (auto simp: u simp del: plug.simps intro: touches_trans)
  next
    case Black
    have r: "erase_red_sibling rot root d x p s = Some (x, s)"
      using erase_red_sibling_black [of s p u root d] 2(2) \<open>u \<noteq> Tip\<close> Black by (simp add: tree_at_def u)
    show ?thesis
    proof (cases "col a = Black \<and> col b = Black \<and> c = Black")
      case True
      from erase_tail_flip [OF 2(2) [unfolded u Black]] True obtain s1 where s1:
        "erase_tail root d x p s = (if k = [] then Some s1 else erase_color_loop rot root p (up k) s1)"
        "tree_at s1 root (join d Black t p (join d Red a x b)) k"
        "touches (set (inorder (plug t ((d, c, p, join d Black a x b) # k)))) root s s1" by auto
      show ?thesis
      proof (cases "k = []")
        case k: True
        then show ?thesis
          using s1 True Black lp r by (intro exI [of _ s1]) (simp add: u is_tree_def)
      next
        case k: False
        have hb: "bheight a = bheight t" "bheight b = bheight t" using bu Black by (auto simp: u bheight_join)
        have "\<exists>s2. erase_color_loop rot root p (up k) s1 = Some s2 \<and> is_tree s2 root (del_up (join d Black t p (paint Red u)) k) \<and>
            touches (set (inorder (plug (join d Black t p (paint Red u)) k))) root s1 s2"
          using 2(1) [of s1] s1(2) k 2(4-6) True Black hb by (simp add: u bheight_join)
        moreover have "inorder (plug (join d Black t p (paint Red u)) k) = inorder (plug t ((d, c, p, u) # k))"
          by (cases d) (simp_all add: inorder_plug join_def)
        ultimately show ?thesis
          using s1(1,3) k True Black lp r by (auto simp: u simp del: plug.simps intro: touches_trans)
      qed
    next
      case False
      then show ?thesis
        using erase_tail_end [OF 2(2) \<open>u \<noteq> Tip\<close>] 2(5) Black lp r by (auto simp: u simp del: plug.simps)
    qed
  qed
qed simp

end

section \<open>Unlinking\<close>

lemma cell_L [simp]: "rb_left (cell L pc h o') = h" "rb_right (cell L pc h o') = o'"
  by (simp_all add: cell_def)

lemma repaint:
  assumes "shape (rb_nodes s) q w" and "distinct (inorder w)" and "w \<noteq> Tip"
  shows "\<exists>t. upd_rb (rootp w) (\<lambda>n. n\<lparr>rb_parent_color := p OR bits c\<rparr>) s = Some t \<and> shape (rb_nodes t) p (paint c w) \<and>
    touches (set (inorder w)) root s t \<and> rb_roots t = rb_roots s"
  using assms by (cases w) (auto simp: upd_rb_node touches_def)

text \<open>A node with at most one child; \<open>w\<close> is that child, or a leaf.\<close>

lemma unlink_one:
  assumes at: "tree_at s root (Nd c l x r) k" and w: "l = Tip \<and> w = r \<or> r = Tip \<and> w = l"
  shows "\<exists>s'. rb_erase_augmented_raw x root dummy_callbacks s = Some (if w = Tip \<and> c = Black then up k else 0, s') \<and>
    tree_at s' root (paint c w) k \<and> touches (set (inorder (plug (Nd c l x r) k))) root s s'"
proof -
  have N: "rb_nodes s x = Some (cell L (up k OR bits c) (rootp l) (rootp r))" "frames (rb_nodes s) (rb_roots s root) x k"
    "shape (rb_nodes s) x l" "shape (rb_nodes s) x r" "x \<noteq> 0" and u: "up k AND 3 = 0"
    using at by (auto simp: tree_at_def dest: frames_good)
  have d: "distinct (x # frame_nodes k)" "distinct (inorder w @ frame_nodes k)" "x \<notin> set (inorder w)"
    using at w by (auto simp: tree_at_def)
  have sw: "shape (rb_nodes s) x w" using N(3,4) w by auto
  have sub: "set (inorder w) \<union> set (frame_nodes k) \<subseteq> set (inorder (plug (Nd c l x r) k))"
    using w by (auto simp: inorder_plug set_frame_nodes)
  have z: "rootp l = 0 \<longleftrightarrow> l = Tip" "rootp r = 0 \<longleftrightarrow> r = Tip" using N(3,4) by (simp_all add: shape_ptr)
  show ?thesis
  proof (cases "w = Tip")
    case True
    with w z have "l = Tip" "r = Tip" by auto
    from change_child_frames [OF N(2) d(1) N(5), of 0] obtain s1 where s1: "rb_change_child x 0 (up k) root s = Some s1"
      "frames (rb_nodes s1) (rb_roots s1 root) 0 k" "touches (set (frame_nodes k)) root s s1" by blast
    have "rb_erase_augmented_raw x root dummy_callbacks s = Some (if c = Black then up k else 0, s1)"
      using N(1) s1(1) u \<open>l = Tip\<close> \<open>r = Tip\<close>
      by (simp add: rb_erase_augmented_raw_def dummy_callbacks_def dummy_propagate_def Let_def)
    moreover have "tree_at s1 root Tip k" using s1(2) d(1) by (simp add: tree_at_def)
    ultimately show ?thesis using True touches_mono [OF s1(3)] sub by (intro exI [of _ s1]) simp
  next
    case False
    from w False have lr: "l = Tip \<and> r = w \<or> l = w \<and> r = Tip" by auto
    have rw: "rootp w \<noteq> 0" using sw False by (simp add: shape_ptr)
    have "\<exists>s2. rb_erase_augmented_raw x root dummy_callbacks s = Some (0, s2) \<and> shape (rb_nodes s2) (up k) (paint c w) \<and>
        frames (rb_nodes s2) (rb_roots s2 root) (rootp w) k \<and> touches (set (inorder w) \<union> set (frame_nodes k)) root s s2"
    proof (cases "l = Tip")
      case True
      with lr False have "r = w" by auto
      from change_child_frames [OF N(2) d(1) N(5), of "rootp w"] obtain s1 where s1:
        "rb_change_child x (rootp w) (up k) root s = Some s1" "frames (rb_nodes s1) (rb_roots s1 root) (rootp w) k"
        "touches (set (frame_nodes k)) root s s1" by blast
      have "shape (rb_nodes s1) x w" by (rule touches_shape [OF s1(3) _ sw]) (use d in auto)
      from repaint [OF this _ False, of "up k" c root] d obtain s2 where s2:
        "upd_rb (rootp w) (\<lambda>n. n\<lparr>rb_parent_color := up k OR bits c\<rparr>) s1 = Some s2" "shape (rb_nodes s2) (up k) (paint c w)"
        "touches (set (inorder w)) root s1 s2" "rb_roots s2 = rb_roots s1" by auto
      have "frames (rb_nodes s2) (rb_roots s2 root) (rootp w) k"
        by (rule touches_frames [OF s2(3) _ _ s1(2)]) (use d s2(4) in auto)
      moreover have "touches (set (inorder w) \<union> set (frame_nodes k)) root s s2"
        by (rule touches_trans [OF touches_mono [OF s1(3)] touches_mono [OF s2(3)]]) auto
      ultimately show ?thesis
        using N(1) s1(1) s2(1,2) u rw True \<open>r = w\<close>
        by (simp add: rb_erase_augmented_raw_def dummy_callbacks_def dummy_propagate_def Let_def)
    next
      case l: False
      with lr False have "l = w" "r = Tip" by auto
      from repaint [OF sw _ False, of "up k" c root] d obtain s1 where s1:
        "upd_rb (rootp w) (\<lambda>n. n\<lparr>rb_parent_color := up k OR bits c\<rparr>) s = Some s1" "shape (rb_nodes s1) (up k) (paint c w)"
        "touches (set (inorder w)) root s s1" "rb_roots s1 = rb_roots s" by auto
      have "frames (rb_nodes s1) (rb_roots s1 root) x k"
        by (rule touches_frames [OF s1(3) _ _ N(2)]) (use d s1(4) in auto)
      from change_child_frames [OF this d(1) N(5), of "rootp w"] obtain s2 where s2:
        "rb_change_child x (rootp w) (up k) root s1 = Some s2" "frames (rb_nodes s2) (rb_roots s2 root) (rootp w) k"
        "touches (set (frame_nodes k)) root s1 s2" by blast
      have "shape (rb_nodes s2) (up k) (paint c w)" by (rule touches_shape [OF s2(3) _ s1(2)]) (use d in auto)
      moreover have "touches (set (inorder w) \<union> set (frame_nodes k)) root s s2"
        by (rule touches_trans [OF touches_mono [OF s1(3)] touches_mono [OF s2(3)]]) auto
      ultimately show ?thesis
        using N(1) s1(1) s2(1,2) u rw \<open>l = w\<close> \<open>r = Tip\<close>
        by (simp add: rb_erase_augmented_raw_def dummy_callbacks_def dummy_propagate_def Let_def)
    qed
    then obtain s2 where s2: "rb_erase_augmented_raw x root dummy_callbacks s = Some (0, s2)"
      "shape (rb_nodes s2) (up k) (paint c w)" "frames (rb_nodes s2) (rb_roots s2 root) (rootp w) k"
      "touches (set (inorder w) \<union> set (frame_nodes k)) root s s2" by blast
    then show ?thesis
      using False d(2) touches_mono [OF s2(4) sub] by (intro exI [of _ s2]) (simp add: tree_at_def)
  qed
qed

section \<open>Parts of a path\<close>

text \<open>Frames below a node \<open>q\<close>; \<open>top\<close> is the pointer from \<open>q\<close> to the uppermost of them.\<close>

definition up_to :: "u32 \<Rightarrow> rb_frame list \<Rightarrow> u32" where
  "up_to q kk = (if kk = [] then q else up kk)"

fun top :: "u32 \<Rightarrow> rb_frame list \<Rightarrow> u32" where
  "top h [] = h"
| "top h ((d, c, p, s) # kk) = top p kk"

fun seg :: "(u32 \<Rightarrow> rb_node option) \<Rightarrow> u32 \<Rightarrow> u32 \<Rightarrow> rb_frame list \<Rightarrow> bool" where
  "seg N q h [] \<longleftrightarrow> True"
| "seg N q h ((d, c, p, s) # kk) \<longleftrightarrow>
     good_ptr p \<and> N p = Some (cell d (up_to q kk OR bits c) h (rootp s)) \<and> shape N p s \<and> seg N q p kk"

lemma up_to_simps [simp]: "up_to q [] = q" "up_to q ((d, c, p, s) # kk) = p"
  by (simp_all add: up_to_def)

lemma up_append: "up (kk @ k) = up_to (up k) kk"
  by (cases kk rule: up.cases) (simp_all add: up_to_def)

lemma frames_append: "frames N rw h (kk @ k) \<longleftrightarrow> seg N (up k) h kk \<and> frames N rw (top h kk) k"
  by (induction kk arbitrary: h rule: frame_nodes.induct) (auto simp: up_append)

lemma frame_nodes_append [simp]: "frame_nodes (kk @ k) = frame_nodes kk @ frame_nodes k"
  by (induction kk rule: frame_nodes.induct) simp_all

lemma shape_plug: "shape N q (plug t kk) \<longleftrightarrow> shape N (up_to q kk) t \<and> seg N q (rootp t) kk"
  by (induction t kk rule: plug.induct) (auto simp: up_to_def)

lemma rootp_plug: "rootp (plug t kk) = top (rootp t) kk"
  by (induction t kk rule: plug.induct) simp_all

lemma top_Cons: "top h (f # kk) = top h' (f # kk)"
  by (cases f) simp

lemma top_in: "kk \<noteq> [] \<Longrightarrow> top h kk \<in> set (frame_nodes kk)"
  by (induction kk arbitrary: h rule: frame_nodes.induct) (auto, case_tac k, auto)

lemma seg_cong: "(\<And>x. x \<in> set (frame_nodes kk) \<Longrightarrow> N x = M x) \<Longrightarrow> seg N q h kk = seg M q h kk"
proof (induction kk arbitrary: h rule: frame_nodes.induct)
  case (2 d c p s k)
  then show ?case using shape_cong [of s N M p] by auto
qed simp

lemma touches_seg:
  "touches A root s t \<Longrightarrow> set (frame_nodes kk) \<inter> A = {} \<Longrightarrow> seg (rb_nodes s) q h kk \<Longrightarrow> seg (rb_nodes t) q h kk"
  using seg_cong [of kk "rb_nodes s" "rb_nodes t" q h] unfolding touches_def disjoint_iff by metis

lemma up_to_good: "seg N q h kk \<Longrightarrow> q AND 3 = 0 \<Longrightarrow> up_to q kk AND 3 = 0"
  by (cases kk rule: up.cases) auto

text \<open>Another node takes the place above the frames.\<close>

lemma reparent_seg:
  assumes "seg (rb_nodes s) q h kk" and "kk \<noteq> []" and "distinct (frame_nodes kk)" and "q AND 3 = 0"
  shows "\<exists>t. rb_set_parent (top h kk) q' s = Some t \<and> seg (rb_nodes t) q' h kk \<and>
    touches (set (frame_nodes kk)) root s t \<and> rb_roots t = rb_roots s"
  using assms
proof (induction kk arbitrary: h rule: frame_nodes.induct)
  case (2 d c p u kk)
  show ?case
  proof (cases "kk = []")
    case True
    with 2 show ?thesis by (auto simp: rb_writes touches_def or.commute)
  next
    case False
    from 2(1) [of p] 2(2,4,5) False obtain t where t: "rb_set_parent (top p kk) q' s = Some t" "seg (rb_nodes t) q' p kk"
      "touches (set (frame_nodes kk)) root s t" "rb_roots t = rb_roots s" by auto
    have "up_to q' kk = up_to q kk" using False by (simp add: up_to_def)
    moreover have "shape (rb_nodes t) p u" by (rule touches_shape [OF t(3)]) (use 2 in auto)
    moreover have "rb_nodes t p = rb_nodes s p" by (rule touches_node [OF t(3)]) (use 2 in auto)
    moreover have "touches (set (frame_nodes ((d, c, p, u) # kk))) root s t" by (rule touches_mono [OF t(3)]) auto
    ultimately show ?thesis using t(1,2,4) 2(2) by auto
  qed
qed simp

text \<open>The way down to the successor.\<close>

definition lefts :: "rb_frame list \<Rightarrow> bool" where
  "lefts kk \<longleftrightarrow> (\<forall>f\<in>set kk. fst f = L)"

lemma leftmost_exists: "t \<noteq> Tip \<Longrightarrow> \<exists>c y z kk. t = plug (Nd c Tip y z) kk \<and> lefts kk"
proof (induction t)
  case (Nd c l x r)
  show ?case
  proof (cases "l = Tip")
    case True
    then show ?thesis by (intro exI [of _ c] exI [of _ x] exI [of _ r] exI [of _ "[]"]) (simp add: lefts_def)
  next
    case False
    with Nd obtain c' y z kk where "l = plug (Nd c' Tip y z) kk" "lefts kk" by auto
    then show ?thesis
      by (intro exI [of _ c'] exI [of _ y] exI [of _ z] exI [of _ "kk @ [(L, c, x, r)]"])
        (simp add: plug_append join_def lefts_def)
  qed
qed simp

lemma successor_loop_leftmost:
  "shape (rb_nodes s) q (plug (Nd c Tip y z) kk) \<Longrightarrow> lefts kk \<Longrightarrow>
     successor_loop par (rootp (plug (Nd c Tip y z) kk)) s = Some (up_to par kk, y)"
proof (induction kk arbitrary: q par rule: rev_induct)
  case Nil
  then show ?case by (simp add: successor_loop.simps)
next
  case (snoc f kk)
  obtain c' p w where f: "f = (L, c', p, w)" using snoc(3) by (cases f) (auto simp: lefts_def)
  have sh: "shape (rb_nodes s) p (plug (Nd c Tip y z) kk)"
    "rb_nodes s p = Some (cell L (q OR bits c') (rootp (plug (Nd c Tip y z) kk)) (rootp w))"
    using snoc(2) by (simp_all add: f plug_append join_def)
  have "plug (Nd c Tip y z) kk \<noteq> Tip" using inorder_plug [of "Nd c Tip y z" kk] by auto
  then have "rootp (plug (Nd c Tip y z) kk) \<noteq> 0" using sh(1) by (simp add: shape_ptr)
  moreover have "up_to par (kk @ [f]) = up_to p kk" by (cases kk rule: up.cases) (simp_all add: f up_to_def)
  ultimately show ?case
    using snoc(1) [OF sh(1)] snoc(3) sh(2)
    by (subst successor_loop.simps) (simp add: f plug_append join_def lefts_def)
qed

section \<open>A node with two children\<close>

lemma unlink_successor_out:
  assumes sh: "shape (rb_nodes s) x (plug (Nd c1 Tip y z) kk)" and kk: "lefts kk" and d: "distinct (y # inorder z @ frame_nodes kk)"
    and x: "x AND 3 = 0"
  shows "\<exists>s'. unlink_successor x (rootp (plug (Nd c1 Tip y z) kk)) dummy_callbacks s = Some (y, up_to y kk, rootp z, s') \<and>
    rb_nodes s' y = Some (cell L (up_to x kk OR bits c1) 0 (top (rootp z) kk)) \<and> seg (rb_nodes s') y (rootp z) kk \<and>
    touches (set (y # frame_nodes kk)) root s s' \<and> rb_roots s' = rb_roots s"
proof (cases kk rule: frame_nodes.cases)
  case 1
  then show ?thesis using sh by (simp add: unlink_successor_def dummy_callbacks_def dummy_copy_def)
next
  case (2 d0 c0 p w kk')
  have k2: "kk = (L, c0, p, w) # kk'" using 2 kk by (simp add: lefts_def)
  let ?r = "rootp (plug (Nd c1 Tip y z) kk)"
  have sg: "seg (rb_nodes s) x y kk" "rb_nodes s y = Some (cell L (p OR bits c1) 0 (rootp z))" "good_ptr y"
    using sh by (simp_all add: shape_plug k2)
  have pn: "rb_nodes s p = Some (cell L (up_to x kk' OR bits c0) y (rootp w))" using sg(1) by (simp add: k2)
  have r: "?r = top (rootp z) kk" unfolding rootp_plug by (simp add: k2)
  have ch: "\<exists>n. rb_nodes s ?r = Some n \<and> rb_left n \<noteq> 0 \<and> successor_loop ?r (rb_left n) s = Some (p, y)"
  proof (cases kk' rule: rev_cases)
    case Nil
    then show ?thesis
      using pn sg(2,3) by (simp add: k2 join_def) (simp add: successor_loop.simps)
  next
    case (snoc kk2 f)
    obtain c' q w' where f: "f = (L, c', q, w')" using kk by (cases f) (auto simp: k2 snoc lefts_def)
    let ?t = "plug (Nd c1 Tip y z) ((L, c0, p, w) # kk2)"
    have "plug (Nd c1 Tip y z) kk = join L c' ?t q w'" by (simp add: k2 snoc f plug_append)
    moreover from this have t: "rb_nodes s q = Some (cell L (x OR bits c') (rootp ?t) (rootp w'))" "shape (rb_nodes s) q ?t"
      using sh by simp_all
    moreover have "?t \<noteq> Tip" using inorder_plug [of "Nd c1 Tip y z" "(L, c0, p, w) # kk2"] by auto
    then have "rootp ?t \<noteq> 0" using t(2) by (simp add: shape_ptr)
    ultimately show ?thesis
      using successor_loop_leftmost [OF t(2), of q] kk by (simp add: k2 snoc lefts_def)
  qed
  let ?s1 = "s\<lparr>rb_nodes := (rb_nodes s)(p \<mapsto> cell L (up_to x kk' OR bits c0) (rootp z) (rootp w))\<rparr>"
  let ?s2 = "s\<lparr>rb_nodes := (rb_nodes s)(p \<mapsto> cell L (up_to x kk' OR bits c0) (rootp z) (rootp w),
      y \<mapsto> cell L (p OR bits c1) 0 ?r)\<rparr>"
  have py: "p \<noteq> y" "y \<notin> set (frame_nodes kk)" using d by (auto simp: k2)
  have "seg (rb_nodes ?s2) x (rootp z) kk"
  proof -
    have "seg (rb_nodes s) x p kk'" "shape (rb_nodes s) p w" "good_ptr p" using sg(1) by (simp_all add: k2)
    moreover have "seg (rb_nodes ?s2) x p kk' = seg (rb_nodes s) x p kk'" by (rule seg_cong) (use d in \<open>auto simp: k2\<close>)
    moreover have "shape (rb_nodes ?s2) p w = shape (rb_nodes s) p w" by (rule shape_cong) (use d in \<open>auto simp: k2\<close>)
    ultimately show ?thesis using py by (simp add: k2)
  qed
  from reparent_seg [OF this _ _ x, of y root] d obtain s' where s': "rb_set_parent ?r y ?s2 = Some s'"
    "seg (rb_nodes s') y (rootp z) kk" "touches (set (frame_nodes kk)) root ?s2 s'" "rb_roots s' = rb_roots ?s2"
    unfolding r by (auto simp: k2)
  have up1: "upd_rb p (\<lambda>n. n\<lparr>rb_left := rootp z\<rparr>) s = Some ?s1" "upd_rb y (\<lambda>n. n\<lparr>rb_right := ?r\<rparr>) ?s1 = Some ?s2"
    using pn sg(2) py(1) by (auto simp: upd_rb_def cell_def)
  from ch obtain n where "rb_nodes s ?r = Some n" "rb_left n \<noteq> 0" "successor_loop ?r (rb_left n) s = Some (p, y)" by blast
  then have "unlink_successor x ?r dummy_callbacks s = Some (y, p, rootp z, s')"
    using sg(2) up1 s'(1)
    by (simp add: unlink_successor_def dummy_callbacks_def dummy_copy_def dummy_propagate_def Let_def del: upd_rb_node)
  moreover have "rb_nodes s' y = Some (cell L (p OR bits c1) 0 ?r)" using touches_node [OF s'(3), of y] py by simp
  moreover have "touches (set (y # frame_nodes kk)) root s s'" using s'(3) unfolding touches_def by (auto simp: k2)
  ultimately show ?thesis using s'(2,4) r by (intro exI [of _ s']) (simp add: k2)
qed

lemma replace_by_successor_at:
  assumes x: "rb_nodes s x = Some (cell L (up k OR bits c) (rootp l) r)" "x \<noteq> 0"
    and y: "rb_nodes s y = Some (cell L (q OR bits c1) w (top (rootp z) kk))" "q AND 3 = 0" "good_ptr y"
    and sg: "seg (rb_nodes s) y (rootp z) kk" and sh: "shape (rb_nodes s) x l" "shape (rb_nodes s) y z" "l \<noteq> Tip" "x AND 3 = 0"
    and f: "frames (rb_nodes s) (rb_roots s root) x k"
    and d: "distinct (x # y # inorder l @ inorder z @ frame_nodes kk @ frame_nodes k)"
  shows "\<exists>s'. replace_by_successor x y (up_to y kk) (rootp z) root s = Some (if z = Tip \<and> c1 = Black then up_to y kk else 0, s') \<and>
    tree_at s' root (paint Black z) (kk @ (R, c, y, l) # k) \<and>
    touches (set (x # y # inorder l @ inorder z @ frame_nodes kk @ frame_nodes k)) root s s'"
proof -
  let ?A = "set (x # y # inorder l @ inorder z @ frame_nodes kk @ frame_nodes k)"
  let ?s1 = "s\<lparr>rb_nodes := (rb_nodes s)(y \<mapsto> cell L (q OR bits c1) (rootp l) (top (rootp z) kk))\<rparr>"
  have u: "up k AND 3 = 0" using frames_good [OF f] .
  have s1: "upd_rb y (\<lambda>n. n\<lparr>rb_left := rootp l\<rparr>) s = Some ?s1" using y by (simp add: upd_rb_def cell_def)
  have t1: "touches {y} root s ?s1" by (simp add: touches_def)
  have l0: "rootp l \<noteq> 0" using sh(1,3) by (simp add: shape_ptr)
  have "shape (rb_nodes ?s1) x l" by (rule touches_shape [OF t1 _ sh(1)]) (use d in auto)
  from reparent [OF this _ sh(4), of y root] l0 d obtain s2 where s2: "rb_set_parent (rootp l) y ?s1 = Some s2" "shape (rb_nodes s2) y l"
    "touches (set (inorder l)) root ?s1 s2" "rb_roots s2 = rb_roots s" by auto
  have t2: "touches (insert y (set (inorder l))) root s s2"
    by (rule touches_trans [OF touches_mono [OF t1] touches_mono [OF s2(3)]]) auto
  have x2: "rb_nodes s2 x = Some (cell L (up k OR bits c) (rootp l) r)" using touches_node [OF t2, of x] d x by auto
  have "frames (rb_nodes s2) (rb_roots s2 root) x k" by (rule touches_frames [OF t2 _ _ f]) (use d s2(4) in auto)
  from change_child_frames [OF this _ x(2), of y] d obtain s3 where s3: "rb_change_child x y (up k) root s2 = Some s3"
    "frames (rb_nodes s3) (rb_roots s3 root) y k" "touches (set (frame_nodes k)) root s2 s3" by auto
  have t3: "touches (insert y (set (inorder l) \<union> set (frame_nodes k))) root s s3"
    by (rule touches_trans [OF touches_mono [OF t2] touches_mono [OF s3(3)]]) auto
  have y3: "rb_nodes s3 y = Some (cell L (q OR bits c1) (rootp l) (top (rootp z) kk))"
    using touches_node [OF s3(3), of y] touches_node [OF s2(3), of y] d by auto
  let ?s4 = "s3\<lparr>rb_nodes := (rb_nodes s3)(y \<mapsto> cell L (up k OR bits c) (rootp l) (top (rootp z) kk))\<rparr>"
  have s4: "upd_rb y (\<lambda>n. n\<lparr>rb_parent_color := up k OR bits c\<rparr>) s3 = Some ?s4" using y3 by (simp add: upd_rb_def)
  have t4: "touches (insert y (set (inorder l) \<union> set (frame_nodes k))) root s ?s4" using t3 by (simp add: touches_def)
  have "shape (rb_nodes ?s4) y z" by (rule touches_shape [OF t4 _ sh(2)]) (use d in auto)
  from reparent_black [OF this, of "up_to y kk" root] d obtain s5 where s5:
    "set_child_parent_color (rootp z) (up_to y kk) RB_BLACK ?s4 = Some s5" "shape (rb_nodes s5) (up_to y kk) (paint Black z)"
    "touches (set (inorder z)) root ?s4 s5" "rb_roots s5 = rb_roots ?s4" by auto
  have t5: "touches (set (y # inorder l @ inorder z @ frame_nodes k)) root s s5"
    by (rule touches_trans [OF touches_mono [OF t4] touches_mono [OF s5(3)]]) auto
  have "rootp z = 0 \<longleftrightarrow> z = Tip" using sh(2) by (simp add: shape_ptr)
  then have "replace_by_successor x y (up_to y kk) (rootp z) root s = Some (if z = Tip \<and> c1 = Black then up_to y kk else 0, s5)"
    using x(1) s1 s2(1) x2 u s3(1) y3 s4 s5(1) y(2)
    by (cases "z = Tip") (simp_all add: replace_by_successor_def set_child_parent_color_def)
  moreover have "tree_at s5 root (paint Black z) (kk @ (R, c, y, l) # k)"
  proof (rule tree_atI)
    show "shape (rb_nodes s5) (up (kk @ (R, c, y, l) # k)) (paint Black z)" using s5(2) by (simp add: up_append)
    have "shape (rb_nodes s3) y l" by (rule touches_shape [OF s3(3) _ s2(2)]) (use d in auto)
    then have "shape (rb_nodes ?s4) y l" using d by auto
    then have "shape (rb_nodes s5) y l" by (rule touches_shape [OF s5(3), rotated]) (use d in auto)
    moreover have "rb_nodes s5 y = Some (cell R (up k OR bits c) (top (rootp z) kk) (rootp l))"
      using touches_node [OF s5(3), of y] d by (auto simp: cell_def)
    moreover have "seg (rb_nodes s5) y (rootp z) kk" by (rule touches_seg [OF t5 _ sg]) (use d in auto)
    moreover have "frames (rb_nodes ?s4) (rb_roots ?s4 root) y k" using s3(2) d by simp
    then have "frames (rb_nodes s5) (rb_roots s5 root) y k" by (rule touches_frames [OF s5(3), rotated 2]) (use d s5(4) in auto)
    ultimately show "frames (rb_nodes s5) (rb_roots s5 root) (rootp (paint Black z)) (kk @ (R, c, y, l) # k)"
      using y(3) by (simp add: frames_append)
  qed (use d in auto)
  moreover have "touches ?A root s s5" by (rule touches_mono [OF t5]) auto
  ultimately show ?thesis by blast
qed

section \<open>Removal of a node\<close>

lemma before_append: "before (kk @ k) = before k @ before kk"
  by (induction kk rule: before.induct) simp_all

lemma after_append: "after (kk @ k) = after kk @ after k"
  by (induction kk rule: after.induct) simp_all

lemma lefts_before: "lefts kk \<Longrightarrow> before kk = []"
  by (induction kk rule: before.induct) (auto simp: lefts_def)

lemma up_zero: "frames N rw h k \<Longrightarrow> up k = 0 \<longleftrightarrow> k = []"
  by (cases k rule: up.cases) auto

lemma frames_red_append_cong: "frames_red (kk @ (d, c, x, l) # k) = frames_red (kk @ (d, c, y, l) # k)"
proof (induction kk rule: frame_nodes.induct)
  case (2 d' c' p s kk)
  have "frames_col (kk @ (d, c, x, l) # k) = frames_col (kk @ (d, c, y, l) # k)" by (cases kk rule: frames_col.cases) simp_all
  with 2 show ?case by simp
qed simp

lemma frames_bal_append_cong: "frames_bal h (kk @ (d, c, x, l) # k) = frames_bal h (kk @ (d, c, y, l) # k)"
  by (induction kk arbitrary: h rule: frame_nodes.induct) simp_all

text \<open>A node of colour \<open>c\<close> with one child \<open>w\<close> at most has been taken out.\<close>

lemma rebalance_if_needed:
  assumes at: "tree_at s root (paint Black w) k" and k: "frames_red k" "frames_bal (if c = Black then Suc 0 else 0) k"
    and w: "bheight w = 0" "red_ok w" "balanced w" "c = Red \<longrightarrow> col w = Black"
  shows "\<exists>s' t. (if (if w = Tip \<and> c = Black then up k else 0) \<noteq> 0
        then erase_color_loop dummy_rotate root 0 (if w = Tip \<and> c = Black then up k else 0) s else Some s) = Some s' \<and>
    is_tree s' root t \<and> red_black t \<and> inorder t = before k @ inorder w @ after k \<and>
    touches (set (before k @ inorder w @ after k)) root s s'"
proof (cases "w = Tip \<and> c = Black \<and> k \<noteq> []")
  case True
  then have at: "tree_at s root Tip k" and b: "frames_bal (Suc (bheight Tip)) k" using at k(2) by auto
  obtain s' where "erase_color_loop dummy_rotate root 0 (up k) s = Some s'" "is_tree s' root (del_up Tip k)"
    "touches (set (before k @ after k)) root s s'"
    using dummy.erase_loop_refines [OF at _ _ k(1) b] True by (auto simp: inorder_plug)
  moreover have "red_black (del_up Tip k)" by (rule red_black_del_up) (use k(1) b in auto)
  moreover have "inorder (del_up Tip k) = before k @ after k" using inorder_del_up [OF b k(1)] by (simp add: inorder_plug)
  moreover have "up k \<noteq> 0" using True at up_zero unfolding tree_at_def by blast
  ultimately show ?thesis using True by (intro exI [of _ s'] exI [of _ "del_up Tip k"]) simp
next
  case False
  have z: "(if w = Tip \<and> c = Black then up k else 0) = 0" using False by auto
  have t: "is_tree s root (plug (paint Black w) k)" using at by (simp add: is_tree_plug)
  have "red_black (plug (paint Black w) k)"
  proof (cases w)
    case Tip
    then show ?thesis using False k by (cases "k = []"; cases c) (auto simp: red_black_plug, simp_all add: red_black_def)
  next
    case (Nd cw l x r)
    then have "cw = Red" "c = Black" using w(1,4) by (cases cw; cases c; simp)+
    then show ?thesis using Nd k w by (simp add: red_black_plug)
  qed
  then show ?thesis using t z by (intro exI [of _ s] exI [of _ "plug (paint Black w) k"]) (simp add: inorder_plug)
qed

text \<open>
  C22.  Let a red-black tree hang at a root.  \<open>rb_erase\<close> of one of its nodes ends, and what hangs at
  the root is a red-black tree again, with the other nodes in the order they had and a height of at most twice
  the logarithm of their number plus one.  No node outside the tree and no other root changes.
\<close>

theorem rb_erase_correct:
  assumes "is_tree s root t" and "red_black t" and "x \<in> set (inorder t)"
  shows "\<exists>s' t'. rb_erase x root s = Some s' \<and> is_tree s' root t' \<and> red_black t' \<and> inorder t' = remove1 x (inorder t) \<and>
    2 ^ rb_height t' \<le> Suc (length (inorder t')) ^ 2 \<and> touches (set (inorder t)) root s s'"
proof -
  obtain c l r k where t: "t = plug (Nd c l x r) k" using inorder_position [OF assms(3)] by blast
  have at: "tree_at s root (Nd c l x r) k" using assms(1) by (simp add: t is_tree_plug)
  have inv: "red_ok (Nd c l x r)" "balanced (Nd c l x r)" "frames_red k" "frames_bal (bheight (Nd c l x r)) k"
    using assms(2) unfolding t red_black_plug by blast+
  have "distinct (inorder t)" using at by (simp only: tree_at_def distinct_frame_nodes t)
  then have rm: "remove1 x (inorder t) = before k @ inorder l @ inorder r @ after k"
    by (auto simp: t inorder_plug remove1_append)
  show ?thesis
  proof (cases "l = Tip \<or> r = Tip")
    case True
    define w where "w = (if l = Tip then r else l)"
    have w: "l = Tip \<and> w = r \<or> r = Tip \<and> w = l" using True by (auto simp: w_def)
    from unlink_one [OF at w] obtain s1 where s1:
      "rb_erase_augmented_raw x root dummy_callbacks s = Some (if w = Tip \<and> c = Black then up k else 0, s1)"
      "tree_at s1 root (paint c w) k" "touches (set (inorder t)) root s s1" unfolding t by blast
    have b: "bheight w = 0" "red_ok w" "balanced w" "c = Red \<longrightarrow> col w = Black"
      "frames_bal (if c = Black then Suc 0 else 0) k" using inv w by auto
    have "paint c w = paint Black w" using b(1,4) by (cases w; cases "col w"; cases c) auto
    with s1(2) have "tree_at s1 root (paint Black w) k" by simp
    from rebalance_if_needed [OF this inv(3) b(5,1-4)] obtain s2 t2 where s2:
      "(if (if w = Tip \<and> c = Black then up k else 0) \<noteq> 0
        then erase_color_loop dummy_rotate root 0 (if w = Tip \<and> c = Black then up k else 0) s1 else Some s1) = Some s2"
      "is_tree s2 root t2" "red_black t2" "inorder t2 = before k @ inorder w @ after k"
      "touches (set (before k @ inorder w @ after k)) root s1 s2" by blast
    have "touches (set (inorder t)) root s s2"
      by (rule touches_trans [OF s1(3) touches_mono [OF s2(5)]]) (use w in \<open>auto simp: t inorder_plug\<close>)
    moreover have "inorder t2 = remove1 x (inorder t)" using s2(4) rm w by auto
    moreover have "rb_erase x root s = Some s2" using s1(1) s2(1) by (simp add: rb_erase_def)
    ultimately show ?thesis using s2(2,3) red_black_height [OF s2(3)] by (intro exI [of _ s2] exI [of _ t2]) simp
  next
    case False
    then obtain c1 y z kk where r: "r = plug (Nd c1 Tip y z) kk" and kk: "lefts kk" using leftmost_exists [of r] by auto
    let ?K = "kk @ (R, c, y, l) # k"
    have N: "rb_nodes s x = Some (cell L (up k OR bits c) (rootp l) (rootp r))" "shape (rb_nodes s) x l" "shape (rb_nodes s) x r"
      "frames (rb_nodes s) (rb_roots s root) x k" "good_ptr x"
      using at by (simp_all add: tree_at_def)
    have "tree_at s root (Nd c1 Tip y z) (kk @ (R, c, x, l) # k)"
      using at tree_at_plug [of s root r "[(R, c, x, l)]" k] tree_at_plug [of s root "Nd c1 Tip y z" kk "(R, c, x, l) # k"]
      by (simp add: r join_def)
    then have d: "distinct (x # y # inorder l @ inorder z @ frame_nodes kk @ frame_nodes k)" and y: "good_ptr y" "shape (rb_nodes s) y z"
      by (auto simp: tree_at_def)
    from unlink_successor_out [OF N(3) [unfolded r] kk, of root] d N(5) obtain s1 where s1:
      "unlink_successor x (rootp r) dummy_callbacks s = Some (y, up_to y kk, rootp z, s1)"
      "rb_nodes s1 y = Some (cell L (up_to x kk OR bits c1) 0 (top (rootp z) kk))" "seg (rb_nodes s1) y (rootp z) kk"
      "touches (set (y # frame_nodes kk)) root s s1" "rb_roots s1 = rb_roots s" unfolding r by auto
    have x1: "rb_nodes s1 x = Some (cell L (up k OR bits c) (rootp l) (rootp r))"
      using touches_node [OF s1(4), of x] d N(1) by auto
    have q: "up_to x kk AND 3 = 0" using N(3,5) up_to_good unfolding r shape_plug by blast
    have sh: "shape (rb_nodes s1) x l" "shape (rb_nodes s1) y z" "frames (rb_nodes s1) (rb_roots s1 root) x k"
      by (rule touches_shape [OF s1(4) _ N(2)], use d in auto)
        (rule touches_shape [OF s1(4) _ y(2)], use d in auto,
         rule touches_frames [OF s1(4) _ s1(5) [THEN fun_cong] N(4)], use d in auto)
    have l: "l \<noteq> Tip" and x0: "x \<noteq> 0" "x AND 3 = 0" using False N(5) by auto
    from replace_by_successor_at [OF x1 x0(1) s1(2) q y(1) s1(3) sh(1,2) l x0(2) sh(3) d] obtain s2 where s2:
      "replace_by_successor x y (up_to y kk) (rootp z) root s1 = Some (if z = Tip \<and> c1 = Black then up_to y kk else 0, s2)"
      "tree_at s2 root (paint Black z) ?K"
      "touches (set (x # y # inorder l @ inorder z @ frame_nodes kk @ frame_nodes k)) root s1 s2" by blast
    have "rootp l \<noteq> 0" "rootp r \<noteq> 0" using N(2,3) False by (simp_all add: shape_ptr)
    then have raw: "rb_erase_augmented_raw x root dummy_callbacks s = Some (if z = Tip \<and> c1 = Black then up ?K else 0, s2)"
      using N(1) s1(1) s2(1)
      by (simp add: rb_erase_augmented_raw_def dummy_propagate_def up_append up_to_def) (simp add: dummy_callbacks_def dummy_propagate_def)
    have tk: "t = plug (Nd c1 Tip y z) (kk @ (R, c, x, l) # k)" by (simp add: t r plug_append join_def)
    then have p: "red_ok (Nd c1 Tip y z)" "balanced (Nd c1 Tip y z)" "frames_red (kk @ (R, c, x, l) # k)"
      "frames_bal (bheight (Nd c1 Tip y z)) (kk @ (R, c, x, l) # k)"
      using assms(2) unfolding tk red_black_plug by blast+
    have b: "bheight z = 0" "red_ok z" "balanced z" "c1 = Red \<longrightarrow> col z = Black" using p(1,2) by auto
    have "frames_red ?K" using p(3) frames_red_append_cong by blast
    moreover have "frames_bal (bheight (Nd c1 Tip y z)) ?K" using p(4) frames_bal_append_cong by blast
    then have "frames_bal (if c1 = Black then Suc 0 else 0) ?K" by (cases c1) simp_all
    ultimately have K: "frames_red ?K" "frames_bal (if c1 = Black then Suc 0 else 0) ?K" by blast+
    from rebalance_if_needed [OF s2(2) K b] obtain s3 t3 where s3:
      "(if (if z = Tip \<and> c1 = Black then up ?K else 0) \<noteq> 0
        then erase_color_loop dummy_rotate root 0 (if z = Tip \<and> c1 = Black then up ?K else 0) s2 else Some s2) = Some s3"
      "is_tree s3 root t3" "red_black t3" "inorder t3 = before ?K @ inorder z @ after ?K"
      "touches (set (before ?K @ inorder z @ after ?K)) root s2 s3" by blast
    have "inorder t3 = remove1 x (inorder t)"
      using s3(4) rm kk by (simp add: r inorder_plug before_append after_append lefts_before)
    moreover have sets: "set (inorder t) = set (x # y # inorder l @ inorder z @ frame_nodes kk @ frame_nodes k)"
      "set (before ?K @ inorder z @ after ?K) \<subseteq> set (inorder t)" "set (y # frame_nodes kk) \<subseteq> set (inorder t)"
      by (auto simp: tk inorder_plug before_append after_append set_frame_nodes)
    then have "touches (set (inorder t)) root s s3"
      using touches_trans [OF touches_trans [OF touches_mono [OF s1(4)]] touches_mono [OF s3(5)]] s2(3) by simp
    moreover have "rb_erase x root s = Some s3" using raw s3(1) by (simp add: rb_erase_def)
    ultimately show ?thesis using s3(2,3) red_black_height [OF s3(3)] by (intro exI [of _ s3] exI [of _ t3]) simp
  qed
qed

text \<open>Three black nodes, of which one is removed: the loop colours the sibling red and stops at the root.\<close>

definition demo_rb3 :: rb_sys where
  "demo_rb3 = \<lparr>rb_nodes = (\<lambda>_. None)(32 := Some \<lparr>rb_parent_color = 1, rb_right = 48, rb_left = 16\<rparr>,
      16 := Some \<lparr>rb_parent_color = 33, rb_right = 0, rb_left = 0\<rparr>, 48 := Some \<lparr>rb_parent_color = 33, rb_right = 0, rb_left = 0\<rparr>),
    rb_roots = (\<lambda>_. 0)(4 := 32)\<rparr>"

lemma demo_rb3_tree:
  "is_tree demo_rb3 4 (Nd Black (Nd Black Tip 16 Tip) 32 (Nd Black Tip 48 Tip))"
  "red_black (Nd Black (Nd Black Tip 16 Tip) 32 (Nd Black Tip 48 Tip))"
  by (simp_all add: is_tree_def tree_at_def demo_rb3_def cell_def bits_def RB_BLACK_def red_black_def)

theorem rb_erase_correct_witness:
  "\<exists>s' t'. rb_erase 16 4 demo_rb3 = Some s' \<and> is_tree s' 4 t' \<and> red_black t' \<and> inorder t' = [32, 48]"
  using rb_erase_correct [OF demo_rb3_tree, of 16] by auto

end
