(* ===== verification/Rbtree_Walk.thy ===== *)
theory Rbtree_Walk
  imports Rbtree_Insert
begin

text \<open>
  Walking over a red-black tree in the order of the nodes, in both directions, and in postorder, and the
  exchange of a node for another one.
\<close>

section \<open>First, last, next and previous\<close>

lemma inorder_nonempty [simp]: "inorder t = [] \<longleftrightarrow> t = Tip"
  by (cases t) simp_all

lemma deepest_first: "shape (rb_nodes s) q t \<Longrightarrow> t \<noteq> Tip \<Longrightarrow> deepest L (rootp t) s = Some (hd (inorder t))"
proof (induction t arbitrary: q)
  case (Nd c l x r)
  then show ?case
    by (cases "l = Tip"; subst deepest.simps) (auto simp: shape_ptr)
qed simp

lemma deepest_last: "shape (rb_nodes s) q t \<Longrightarrow> t \<noteq> Tip \<Longrightarrow> deepest R (rootp t) s = Some (last (inorder t))"
proof (induction t arbitrary: q)
  case (Nd c l x r)
  have "cell L (q OR bits c) (rootp l) (rootp r) = cell R (q OR bits c) (rootp r) (rootp l)" by (simp add: cell_def)
  with Nd show ?case
    by (cases "r = Tip"; subst deepest.simps) (auto simp: shape_ptr)
qed simp

lemma child_cell: "rb_child e (cell d pc h o') = (if e = d then h else o')"
  by (cases d; cases e) (simp_all add: cell_def rb_child_def)

lemma cell_children: "rb_left (cell d pc h o') = (if d = L then h else o')" "rb_right (cell d pc h o') = (if d = R then h else o')"
  by (cases d; simp add: cell_def)+

text \<open>The way up from a subtree.\<close>

lemma ascend_frames:
  assumes "frames (rb_nodes s) (rb_roots s root) h k" and "rb_nodes s h = Some (cell e (up k OR bits c) a b)"
    and "h \<noteq> 0" and "distinct (h # frame_nodes k)"
  shows "ascend R h s = Some (hd (after k @ [0])) \<and> ascend L h s = Some (last (0 # before k))"
  using assms
proof (induction k arbitrary: h e c a b rule: frame_nodes.induct)
  case 1
  then show ?case by (simp add: ascend.simps)
next
  case (2 d c' p u k)
  have "rootp u \<noteq> h" using 2(4,5) rootp_in [of u] by auto
  moreover have "ascend R p s = Some (hd (after k @ [0])) \<and> ascend L p s = Some (last (0 # before k))"
    using 2(1) [of p d c' h "rootp u"] 2(2,5) by simp
  ultimately have "ascend R h s = (if d = R then ascend R p s else Some p) \<and> ascend L h s = (if d = L then ascend L p s else Some p)"
    using 2(2,3) ascend.simps [of R h s] ascend.simps [of L h s] by (cases d) (simp_all add: child_cell)
  with \<open>ascend R p s = _ \<and> _\<close> show ?case by (cases d) simp_all
qed

lemma not_empty_node:
  assumes "tree_at s root (Nd c l x r) k"
  shows "\<not> RB_EMPTY_NODE x (cell L (up k OR bits c) (rootp l) (rootp r))"
proof
  assume "RB_EMPTY_NODE x (cell L (up k OR bits c) (rootp l) (rootp r))"
  then have "up k OR bits c = x" by (simp add: RB_EMPTY_NODE_def)
  moreover have "up k AND 3 = 0" "x AND 3 = 0" "x \<noteq> 0" "x \<notin> set (frame_nodes k)"
    using assms by (auto simp: tree_at_def dest: frames_good)
  ultimately have "up k = x" using pc_parent_bits [of "up k" c] by simp
  then show False using \<open>x \<noteq> 0\<close> \<open>x \<notin> _\<close> by (cases k rule: up.cases) auto
qed

lemma rb_next_prev_at:
  assumes at: "tree_at s root (Nd c l x r) k"
  shows "rb_next x s = Some (hd (inorder r @ after k @ [0]))" "rb_prev x s = Some (last (0 # before k @ inorder l))"
proof -
  have N: "rb_nodes s x = Some (cell L (up k OR bits c) (rootp l) (rootp r))" "shape (rb_nodes s) x l" "shape (rb_nodes s) x r"
    and z: "rootp l = 0 \<longleftrightarrow> l = Tip" "rootp r = 0 \<longleftrightarrow> r = Tip"
    using at shape_ptr [of "rb_nodes s" x] by (simp_all add: tree_at_def)
  have a: "ascend R x s = Some (hd (after k @ [0])) \<and> ascend L x s = Some (last (0 # before k))"
    by (rule ascend_frames [of s root x k L c]) (use at in \<open>auto simp: tree_at_def\<close>)
  show "rb_next x s = Some (hd (inorder r @ after k @ [0]))"
    using N(1) not_empty_node [OF at] z(2) a deepest_first [OF N(3)]
    by (cases "r = Tip") (simp_all add: rb_next_def cell_children)
  show "rb_prev x s = Some (last (0 # before k @ inorder l))"
    using N(1) not_empty_node [OF at] z(1) a deepest_last [OF N(2)]
    by (cases "l = Tip") (simp_all add: rb_prev_def cell_children)
qed

lemma distinct_split: "distinct as \<Longrightarrow> as = xs @ x # ys \<Longrightarrow> as = xs' @ x # ys' \<Longrightarrow> xs = xs' \<and> ys = ys'"
  using append_Cons_eq_iff [of x xs ys xs' ys'] by auto

lemma rb_first_last:
  assumes "is_tree s root t"
  shows "rb_first root s = Some (hd (inorder t @ [0]))" "rb_last root s = Some (last (0 # inorder t))"
proof -
  have sh: "shape (rb_nodes s) 0 t" "rb_roots s root = rootp t" using assms by (simp_all add: is_tree_def tree_at_def)
  show "rb_first root s = Some (hd (inorder t @ [0]))" "rb_last root s = Some (last (0 # inorder t))"
    using sh(2) shape_ptr [OF sh(1)] deepest_first [OF sh(1)] deepest_last [OF sh(1)]
    by (cases "t = Tip"; simp add: rb_first_def rb_last_def)+
qed

text \<open>
  C23.  Walking over a tree follows the order of its nodes: \<open>rb_first\<close> and \<open>rb_last\<close> return the first and the
  last node, \<open>rb_next\<close> and \<open>rb_prev\<close> of a node its neighbours, and null when there is none.
\<close>

theorem rb_walk_in_order:
  assumes "is_tree s root t" and "inorder t = xs @ x # ys"
  shows "rb_first root s = Some (hd (xs @ [x])) \<and> rb_last root s = Some (last (x # ys)) \<and>
    rb_next x s = Some (hd (ys @ [0])) \<and> rb_prev x s = Some (last (0 # xs))"
proof -
  have "x \<in> set (inorder t)" using assms(2) by simp
  then obtain c l r k where t: "t = plug (Nd c l x r) k" using inorder_position by blast
  have at: "tree_at s root (Nd c l x r) k" using assms(1) by (simp add: t is_tree_plug)
  then have d: "distinct (inorder t)" by (simp only: tree_at_def distinct_frame_nodes t)
  have "inorder t = (before k @ inorder l) @ x # inorder r @ after k" by (simp add: t inorder_plug)
  from distinct_split [OF d assms(2) this] have "xs = before k @ inorder l \<and> ys = inorder r @ after k" .
  moreover have "hd (inorder t @ [0]) = hd (xs @ [x])" "last (0 # inorder t) = last (x # ys)"
    using assms(2) by (cases xs; simp)+
  ultimately show ?thesis using rb_next_prev_at [OF at] rb_first_last [OF assms(1)] by simp
qed

theorem rb_walk_in_order_witness:
  "rb_first 4 demo_rb = Some 16 \<and> rb_last 4 demo_rb = Some 32 \<and> rb_next 16 demo_rb = Some 32 \<and> rb_prev 16 demo_rb = Some 0"
  using rb_walk_in_order [OF demo_rb_tree(1), of "[]" 16 "[32]"] by simp

section \<open>Postorder\<close>

primrec postorder :: "rb_tree \<Rightarrow> u32 list" where
  "postorder Tip = []"
| "postorder (Nd c l x r) = postorder l @ postorder r @ [x]"

fun post_after :: "rb_frame list \<Rightarrow> u32 list" where
  "post_after [] = []"
| "post_after ((d, c, p, u) # k) = (case d of L \<Rightarrow> postorder u | R \<Rightarrow> []) @ p # post_after k"

fun post_before :: "rb_frame list \<Rightarrow> u32 list" where
  "post_before [] = []"
| "post_before ((d, c, p, u) # k) = post_before k @ (case d of L \<Rightarrow> [] | R \<Rightarrow> postorder u)"

lemma postorder_plug: "postorder (plug t k) = post_before k @ postorder t @ post_after k"
  by (induction t k rule: plug.induct) (auto simp: join_def split: side.splits)

lemma set_postorder [simp]: "set (postorder t) = set (inorder t)"
  by (induction t) auto

lemma distinct_postorder: "distinct (inorder t) \<Longrightarrow> distinct (postorder t)"
  by (induction t) auto

lemma left_deepest: "shape (rb_nodes s) q t \<Longrightarrow> t \<noteq> Tip \<Longrightarrow> rb_left_deepest_node (rootp t) s = Some (hd (postorder t))"
proof (induction t arbitrary: q)
  case (Nd c l x r)
  have "postorder t = [] \<longleftrightarrow> t = Tip" for t by (cases t) simp_all
  with Nd show ?case
    by (cases "l = Tip"; cases "r = Tip"; subst rb_left_deepest_node.simps) (auto simp: shape_ptr cell_def)
qed simp

text \<open>
  The postorder walk visits every node behind its children: \<open>rb_first_postorder\<close> returns the first node of
  the postorder, \<open>rb_next_postorder\<close> the node behind the given one, and null behind the last.
\<close>

theorem rb_walk_postorder:
  assumes "is_tree s root t" and "postorder t = xs @ x # ys"
  shows "rb_first_postorder root s = Some (hd (xs @ [x])) \<and> rb_next_postorder x s = Some (hd (ys @ [0]))"
proof -
  have "x \<in> set (postorder t)" using assms(2) by simp
  then have "x \<in> set (inorder t)" by simp
  then obtain c l r k where t: "t = plug (Nd c l x r) k" using inorder_position by blast
  have at: "tree_at s root (Nd c l x r) k" using assms(1) by (simp add: t is_tree_plug)
  then have "distinct (inorder t)" by (simp only: tree_at_def distinct_frame_nodes t)
  then have d: "distinct (postorder t)" by (rule distinct_postorder)
  have "postorder t = (post_before k @ postorder l @ postorder r) @ x # post_after k" by (simp add: t postorder_plug)
  from distinct_split [OF d assms(2) this] have ys: "ys = post_after k" ..
  have sh: "shape (rb_nodes s) 0 t" "rb_roots s root = rootp t" using assms(1) by (simp_all add: is_tree_def tree_at_def)
  have "t \<noteq> Tip" using assms(2) by auto
  then have "rb_first_postorder root s = Some (hd (postorder t))"
    using sh(2) shape_ptr [OF sh(1)] left_deepest [OF sh(1)] by (simp add: rb_first_postorder_def)
  moreover have "hd (postorder t) = hd (xs @ [x])" using assms(2) by (cases xs) simp_all
  moreover have "rb_next_postorder x s = Some (hd (post_after k @ [0]))"
  proof (cases k rule: frame_nodes.cases)
    case 1
    then show ?thesis using at by (simp add: rb_next_postorder_def tree_at_def)
  next
    case (2 e c' p u k')
    have n: "postorder u = [] \<longleftrightarrow> u = Tip" by (cases u) simp_all
    have su: "shape (rb_nodes s) p u" using at by (simp add: 2 tree_at_def)
    have "rootp u \<noteq> x" using at rootp_in [of u] by (auto simp: 2 tree_at_def)
    then show ?thesis
      using at shape_ptr [OF su] left_deepest [OF su] n
      by (cases e; cases "u = Tip") (auto simp: 2 rb_next_postorder_def tree_at_def cell_children Let_def)
  qed
  ultimately show ?thesis using ys by simp
qed

theorem rb_walk_postorder_witness:
  "rb_first_postorder 4 demo_rb = Some 32 \<and> rb_next_postorder 32 demo_rb = Some 16"
  using rb_walk_postorder [OF demo_rb_tree(1), of "[]" 32 "[16]"] by simp

section \<open>Exchanging a node\<close>

text \<open>
  \<open>rb_replace_node\<close> puts another node at the place of the victim, with its children and its colour, and
  changes nothing outside the tree but that node.
\<close>

theorem rb_replace_node_tree:
  assumes "is_tree s root (plug (Nd c l x r) k)" and "rb_nodes s y = Some n" and "good_ptr y"
    and "y \<notin> set (inorder (plug (Nd c l x r) k))"
  shows "\<exists>s'. rb_replace_node x y root s = Some s' \<and> is_tree s' root (plug (Nd c l y r) k) \<and>
    touches (insert y (set (inorder (plug (Nd c l x r) k)))) root s s'"
proof -
  have at: "tree_at s root (Nd c l x r) k" using assms(1) by (simp add: is_tree_plug)
  have N: "rb_nodes s x = Some (cell L (up k OR bits c) (rootp l) (rootp r))" "shape (rb_nodes s) x l" "shape (rb_nodes s) x r"
    "frames (rb_nodes s) (rb_roots s root) x k" "x \<noteq> 0" "x AND 3 = 0"
    using at by (simp_all add: tree_at_def)
  have d: "distinct (x # inorder l @ inorder r @ frame_nodes k)" "y \<notin> set (x # inorder l @ inorder r @ frame_nodes k)"
    using at assms(4) by (auto simp: tree_at_def inorder_plug set_frame_nodes)
  let ?s = "s\<lparr>rb_nodes := (rb_nodes s)(y \<mapsto> cell L (up k OR bits c) (rootp l) (rootp r))\<rparr>"
  have s1: "upd_rb y (\<lambda>_. cell L (up k OR bits c) (rootp l) (rootp r)) s = Some ?s" using assms(2) by (simp add: upd_rb_def)
  have "shape (rb_nodes ?s) x l" using N(2) d(2) by simp
  from reparent [OF this _ N(6), of y root] d(1) obtain s2 where s2:
    "(if rootp l \<noteq> 0 then rb_set_parent (rootp l) y ?s else Some ?s) = Some s2" "shape (rb_nodes s2) y l"
    "touches (set (inorder l)) root ?s s2" "rb_roots s2 = rb_roots ?s" by auto
  have "shape (rb_nodes ?s) x r" using N(3) d(2) by simp
  then have "shape (rb_nodes s2) x r" by (rule touches_shape [OF s2(3), rotated]) (use d in auto)
  from reparent [OF this _ N(6), of y root] d(1) obtain s3 where s3:
    "(if rootp r \<noteq> 0 then rb_set_parent (rootp r) y s2 else Some s2) = Some s3" "shape (rb_nodes s3) y r"
    "touches (set (inorder r)) root s2 s3" "rb_roots s3 = rb_roots s2" by auto
  have t3: "touches (set (inorder l) \<union> set (inorder r)) root ?s s3"
    by (rule touches_trans [OF touches_mono [OF s2(3)] touches_mono [OF s3(3)]]) auto
  have "frames (rb_nodes ?s) (rb_roots ?s root) x k" using N(4) d(2) by simp
  then have "frames (rb_nodes s3) (rb_roots s3 root) x k"
    by (rule touches_frames [OF t3, rotated 2]) (use d s2(4) s3(4) in auto)
  from change_child_frames [OF this _ N(5), of y] d(1) obtain s4 where s4: "rb_change_child x y (up k) root s3 = Some s4"
    "frames (rb_nodes s4) (rb_roots s4 root) y k" "touches (set (frame_nodes k)) root s3 s4" by auto
  have x2: "rb_nodes ?s x = Some (cell L (up k OR bits c) (rootp l) (rootp r))"
    "rb_nodes s2 x = Some (cell L (up k OR bits c) (rootp l) (rootp r))"
    using N(1) d touches_node [OF s2(3), of x] by auto
  have "rb_replace_node x y root s = Some s4"
    using N(1) s1 s2(1) s3(1) s4(1) x2 frames_good [OF N(4)]
    by (cases "rootp l = 0"; cases "rootp r = 0") (simp_all add: rb_replace_node_def cell_children)
  moreover have "tree_at s4 root (Nd c l y r) k"
  proof (rule tree_atI)
    have "shape (rb_nodes s3) y l" by (rule touches_shape [OF s3(3) _ s2(2)]) (use d in auto)
    then have "shape (rb_nodes s4) y l" by (rule touches_shape [OF s4(3), rotated]) (use d in auto)
    moreover have "shape (rb_nodes s4) y r" by (rule touches_shape [OF s4(3) _ s3(2)]) (use d in auto)
    moreover have "rb_nodes s4 y = Some (cell L (up k OR bits c) (rootp l) (rootp r))"
      using touches_node [OF s4(3), of y] touches_node [OF t3, of y] d(2) by auto
    ultimately show "shape (rb_nodes s4) (up k) (Nd c l y r)" using assms(3) by simp
  qed (use s4(2) d in auto)
  moreover have "touches (insert y (set (inorder (plug (Nd c l x r) k)))) root s ?s" by (simp add: touches_def)
  then have "touches (insert y (set (inorder (plug (Nd c l x r) k)))) root s s4"
    by (rule touches_trans, intro touches_trans [OF touches_mono [OF t3] touches_mono [OF s4(3)]])
      (auto simp: inorder_plug set_frame_nodes)
  ultimately show ?thesis by (auto simp: is_tree_plug)
qed

theorem rb_replace_node_tree_witness:
  "\<exists>s'. rb_replace_node 16 48 4 demo_rb = Some s' \<and> is_tree s' 4 (Nd Black Tip 48 (Nd Red Tip 32 Tip))"
proof -
  have n: "rb_nodes demo_rb 48 = Some \<lparr>rb_parent_color = 0, rb_right = 0, rb_left = 0\<rparr>" by (simp add: demo_rb_def)
  have t: "is_tree demo_rb 4 (plug (Nd Black Tip 16 (Nd Red Tip 32 Tip)) [])" using demo_rb_tree(1) by simp
  show ?thesis using rb_replace_node_tree [OF t n] by auto
qed

end
