(* ===== verification/Spec2Isabelle.thy ===== *)
theory Spec2Isabelle
  imports Prelude Linked_List Memory Bootmm Buddy Interrupts Slab Kmalloc Vm Process Semaphores Sdcard Fs_Names Fs_Cache Fat_Table Digits File_Io Fat_Dir File_Write Path Ext2 Screen Printf Clock Keyboard Shell Fs_Cmd Volumes Boot File_Contents Rbtree Rbtree_Shape Rbtree_Insert Rbtree_Erase Rbtree_Walk
begin

text \<open>
  OurOS is a kernel for a 32-bit MIPS board: a boot allocator, a buddy and a slab allocator, virtual
  memory with a software-filled TLB, processes with a round-robin scheduler, a FAT32 file system on an
  SD card, and a small shell.  This library models its core as functions on explicit states.

  \<^bold>\<open>How the state is built.\<close>  Each layer extends the record of the layer below it: \<open>buddy\<close> (page
  frames, zone, free lists), \<open>slab\<close> (caches, slab pages, coprocessor 0), \<open>vm\<close> (page tables, TLB, swap
  pool, shared memory), \<open>pc\<close> (tasks, pids, semaphores), \<open>disk\<close> (bytes of memory, SD card), \<open>fs\<close> (one map
  from addresses to contents for each kind of object of the file system, and their list nodes).  An
  operation on a lower layer is polymorphic in the rest of the record, so it runs unchanged on the
  states above, and the frame lemmas (\<open>kmalloc_more\<close>, \<open>vm_of_slab_more\<close>, \<open>pc_of_slab_more\<close>,
  \<open>disk_of_slab_more\<close>, \<open>fs_of_slab_more\<close>) say that it leaves the rest alone.

  \<^bold>\<open>Conventions.\<close>  Machine integers are words of their width, so arithmetic wraps as it does in C;
  signed readings use \<open>sint\<close>.  A C function that changes the state returns the new state with its
  result.  \<open>None\<close> stands for a run with no result: a write through the null pointer, a use of freed
  memory, a loop that does not end, a poll that is never answered.  Error codes are the words of
  \<^verbatim>\<open>error.h\<close>.  Loops over a counter are primitive recursive in the number of rounds left, which is
  exact, not a bound; loops that may not end are partial functions and their termination is proved
  where it holds.

  \<^bold>\<open>Theories.\<close>
  \<^item> \<open>Prelude\<close>: machine types, alignment, address macros, error codes (\<^verbatim>\<open>include/ouros/\<close>).
  \<^item> \<open>Linked_List\<close>: \<^verbatim>\<open>include/linux/list.h\<close> on a store of links; \<open>dll\<close> relates a head to the list of
    its nodes, the locale \<open>dlist\<close> is the contract of such lists and is interpreted on the model.
  \<^item> \<open>Memory\<close>: \<^verbatim>\<open>utils/utils.c\<close>.
  \<^item> \<open>Bootmm\<close>: \<^verbatim>\<open>kernel/mm/bootmm.c\<close>; its search refines the first fit.
  \<^item> \<open>Buddy\<close>: \<^verbatim>\<open>kernel/mm/buddy.c\<close>; the invariant \<open>buddy_rep\<close> says that the free lists are exactly the
    coalesced free blocks of the zone.
  \<^item> \<open>Interrupts\<close>: \<^verbatim>\<open>arch/mips32/intr.c\<close>, \<^verbatim>\<open>exc.c\<close>, \<^verbatim>\<open>kernel/syscall/syscall.c\<close>.
  \<^item> \<open>Slab\<close>, \<open>Kmalloc\<close>: \<^verbatim>\<open>kernel/mm/slab.c\<close>; \<open>heap s R\<close> says that \<open>R\<close> is the set of regions in use,
    \<open>room s R n\<close> also that \<open>n\<close> more pages are free, so that so many requests of at most a page succeed, and
    the locale \<open>region_heap\<close> is what \<open>kmalloc\<close> and \<open>kfree\<close> promise about it.
  \<^item> \<open>Vm\<close>: \<^verbatim>\<open>kernel/vm/\<close> and \<^verbatim>\<open>arch/mips32/tlb.c\<close>; a page table refines a map from page numbers.
  \<^item> \<open>Process\<close>: \<^verbatim>\<open>kernel/pc/pc.c\<close>; task lists, scheduler, pids, creation of tasks.
  \<^item> \<open>Semaphores\<close>: \<open>P\<close> and \<open>V\<close> of \<^verbatim>\<open>kernel/pc/pc.c\<close>, one step for each access to the value, in any order of the
    tasks.
  \<^item> \<open>Sdcard\<close>: \<^verbatim>\<open>kernel/driver/sd.c\<close>; the controller's answers are part of the state.
  \<^item> \<open>Fs_Names\<close>: names, comparisons, 8.3 form and hashing of the file system.
  \<^item> \<open>Fs_Cache\<close>: \<^verbatim>\<open>kernel/fs/fscache.c\<close> and the structures of \<^verbatim>\<open>fs.h\<close>; the inode cache is a map from
    sectors to inodes.
  \<^item> \<open>Fat_Table\<close>, \<open>Fat_Dir\<close>: \<^verbatim>\<open>kernel/fs/fat/fat.c\<close>, the allocation table with its chains, and the
    directories.
  \<^item> \<open>File_Io\<close>, \<open>File_Write\<close>: \<^verbatim>\<open>kernel/fs/read_write.c\<close>; opening and closing of \<^verbatim>\<open>open.c\<close>.
  \<^item> \<open>Path\<close>: the path walk of \<^verbatim>\<open>kernel/fs/open.c\<close>.
  \<^item> \<open>Ext2\<close>: \<^verbatim>\<open>kernel/fs/ext2/ext2.c\<close>, which reads only; the block map of a file is related to the
    words on the card.
  \<^item> \<open>Digits\<close>, \<open>Screen\<close>: \<^verbatim>\<open>kernel/driver/vga.c\<close>; \<open>Printf\<close> shows that formatted output on the video memory
    refines a terminal.
  \<^item> \<open>Clock\<close>: \<^verbatim>\<open>kernel/time/time.c\<close>, on the screen; \<open>Keyboard\<close>: \<^verbatim>\<open>kernel/driver/ps2.c\<close>, whose buffer is
    a queue of keys.
  \<^item> \<open>Shell\<close>: \<^verbatim>\<open>usr/shell.c\<close>, from the typed characters to the command to run; the command and its arguments are
    objects of the heap with their bytes in memory.
  \<^item> \<open>Fs_Cmd\<close>: \<^verbatim>\<open>usr/fs_cmd.c\<close>, the file commands on file system and screen; \<open>Volumes\<close>: \<^verbatim>\<open>kernel/fs/fs.c\<close>
    and \<open>get_sb_fat32\<close>, from the partition table to the root directory.
  \<^item> \<open>Boot\<close>: the part of \<^verbatim>\<open>kernel/init.c\<close> that brings up the memory; \<open>File_Contents\<close>: the loop of \<open>fs_write\<close>
    as an update of the contents of the file.
  \<^item> \<open>Rbtree\<close>: \<^verbatim>\<open>kernel/linux/rbtree.c\<close>, \<^verbatim>\<open>rbtree.h\<close> and \<^verbatim>\<open>rbtree_augmented.h\<close>; \<open>Rbtree_Shape\<close> relates a
    store of nodes to a tree and a position in it, \<open>Rbtree_Insert\<close>, \<open>Rbtree_Erase\<close> and \<open>Rbtree_Walk\<close> show that
    the operations refine those on trees.  The locale \<open>rb_rotation\<close> is what balancing needs of the callback of
    an augmented tree; it is interpreted for plain and for augmented trees.

  \<^bold>\<open>What the lemmas show.\<close>  Allocators hand out disjoint memory and take back exactly what they gave;
  page tables, faults and refills agree with the map they represent; the scheduler is fair while no
  signal is pending; a task that is created gets new memory of its own; semaphores admit at most as many holders as their
  initial value while no task is interrupted inside an update, and any number when tasks are; the disk driver
  and the name conversions are inverse to each other; the walks along a cluster chain end and free or
  find exactly the clusters they are meant to, and a read of an open file returns the bytes at its
  position, so that \<open>cat\<close> shows a file byte by byte; insertion into a red-black tree and removal from it end,
  keep the order of the nodes and balance the tree; keys, lines and text go through keyboard, shell and
  screen in order.  Where the code does not do what it is meant
  to do, the theorem states what it does, and the manifest lists it among its findings.

  \<^bold>\<open>Not modelled.\<close>  The log output and the error messages of the kernel and the messages of the shell, assembly entry code, the
  contents of user pages, and the test programs.  The
  commands that \<open>Shell\<close> chooses are not run from there.
\<close>

end
